(* ===== verification/Prelude.thy ===== *)
theory Prelude
  imports Main "HOL-Library.Word"
begin

unbundle bit_operations_syntax

text \<open>
  Shared vocabulary of the development: the machine types of the 32-bit kernel build
  (types.h), the error codes of kernel.h, the fault values that stand for a panic or
  a failed assertion, and the lemmas about machine words, lists and updates that several
  components use.
\<close>

subsection \<open>Machine types\<close>

text \<open>
  uintptr_t and size_t of the i386 build are 32 bits wide; paddr_t and vaddr_t (types.h) are
  synonyms of uintptr_t. Components that are compiled for both architectures are polymorphic
  in the width instead.
\<close>

type_synonym u8 = "8 word"
type_synonym u16 = "16 word"
type_synonym u32 = "32 word"
type_synonym u64 = "64 word"
type_synonym addr = "32 word"
type_synonym size32 = "32 word"

subsection \<open>Errors\<close>

text \<open>kernel::ErrorCode of kernel.h.\<close>

datatype error_code =
    EC_Unknown
  | EC_NoError
  | EC_OutOfMemory
  | EC_AlreadyInUse
  | EC_NotAligned
  | EC_NotFound
  | EC_InvalidFormat
  | EC_InvalidAddress

text \<open>
  What ends the execution of an operation early: a call of kpanic, a failed ASSERT, an
  access through a null pointer, an access outside an object, a loop that does not
  advance, a shift that C++ leaves undefined, or an access to an address that is not mapped.
\<close>

datatype fault =
    Panic string
  | AssertFail string
  | NullDeref
  | OutOfBounds
  | Undefined
  | PageFault addr

text \<open>Sequencing of operations that may fault.\<close>

fun bindf :: "fault + 'a \<Rightarrow> ('a \<Rightarrow> fault + 'b) \<Rightarrow> fault + 'b" where
  "bindf (Inl e) f = Inl e"
| "bindf (Inr x) f = f x"

lemma bindf_eq_Inr [simp]: "bindf r f = Inr y \<longleftrightarrow> (\<exists>x. r = Inr x \<and> f x = Inr y)"
  by (cases r) auto

lemma bindf_cong [fundef_cong]:
  "r = r' \<Longrightarrow> (\<And>x. r' = Inr x \<Longrightarrow> f x = g x) \<Longrightarrow> bindf r f = bindf r' g"
  by (cases r') auto

lemma bindf_assoc: "bindf (bindf r f) g = bindf r (\<lambda>x. bindf (f x) g)"
  by (cases r) auto

text \<open>
  Operations that take a lock may in addition never return, which is the outer None.
\<close>

type_synonym 'a outcome = "(fault + 'a) option"

fun bindo :: "'a outcome \<Rightarrow> ('a \<Rightarrow> 'b outcome) \<Rightarrow> 'b outcome" where
  "bindo None f = None"
| "bindo (Some (Inl e)) f = Some (Inl e)"
| "bindo (Some (Inr x)) f = f x"

lemma bindo_eq_Inr [simp]:
  "bindo r f = Some (Inr y) \<longleftrightarrow> (\<exists>x. r = Some (Inr x) \<and> f x = Some (Inr y))"
  by (cases "(r, f)" rule: bindo.cases) auto

lemma bindo_cong [fundef_cong]:
  "r = r' \<Longrightarrow> (\<And>x. r' = Some (Inr x) \<Longrightarrow> f x = g x) \<Longrightarrow> bindo r f = bindo r' g"
  by (cases "(r', f)" rule: bindo.cases) auto

subsection \<open>Lemma collections\<close>

named_theorems nat_of_word \<open>rules that move word arithmetic to the naturals\<close>

declare unat_word_ariths [nat_of_word] word_less_nat_alt [nat_of_word]
  word_le_nat_alt [nat_of_word]

subsection \<open>Words\<close>

lemma word_eq_unatI: "unat a = unat b \<Longrightarrow> a = b"
  by (simp add: word_unat_eq_iff)

lemma unat_add_noov: "unat a + unat b < 2 ^ LENGTH('a) \<Longrightarrow> unat (a + b) = unat a + unat b"
  for a b :: "'a::len word"
  by (simp add: unat_word_ariths)

lemma unat_sub_noov: "unat b \<le> unat a \<Longrightarrow> unat (a - b) = unat a - unat b"
  for a b :: "'a::len word"
  by (simp add: unat_sub word_le_nat_alt)

lemma unat_of_nat_len: "n < 2 ^ LENGTH('a) \<Longrightarrow> unat (of_nat n :: 'a::len word) = n"
  by (simp add: unat_of_nat)

lemma unat_lt32: "unat (a :: u32) < 4294967296"
  using unsigned_less [of a] by simp

lemma unat_lt64: "unat (a :: u64) < 18446744073709551616"
  using unsigned_less [of a] by simp

lemma unat_bounded: "unat (a :: 'a::len word) < 2 ^ LENGTH('a)"
  by (rule unsigned_less)

lemma bit_word_unat: "bit w n \<longleftrightarrow> odd (unat w div 2 ^ n)" for w :: "'a::len word"
  by (simp add: bit_unsigned_iff [symmetric] bit_iff_odd [symmetric] bit_imp_le_length
        flip: bit_nat_iff) (metis bit_iff_odd bit_unsigned_iff possible_bit_nat)

lemma unat_exp: "k < LENGTH('a) \<Longrightarrow> unat (2 ^ k :: 'a::len word) = 2 ^ k"
proof -
  assume "k < LENGTH('a)"
  then have "(2 :: nat) ^ k < 2 ^ LENGTH('a)" by simp
  then have "unat (of_nat (2 ^ k) :: 'a word) = 2 ^ k" by (rule unat_of_nat_len)
  then show ?thesis by simp
qed

lemma unat_half_less: "v \<noteq> 0 \<Longrightarrow> unat (v div 2) < unat v" for v :: "'a::len word"
  by (cases "LENGTH('a) = 1")
    (auto simp: unat_div unat_gt_0 word_less_nat_alt intro!: div_less_dividend)

lemma drop_bit1_half: "drop_bit (Suc 0) v = v div 2" for v :: "'a::len word"
  by (simp add: drop_bit_eq_div)

lemma unat_ucast_mod: "unat (ucast w :: 'b::len word) = unat w mod 2 ^ LENGTH('b)"
  by (simp add: unsigned_ucast_eq take_bit_eq_mod)

lemma unat_ucast_le: "LENGTH('a) \<le> LENGTH('b) \<Longrightarrow> unat (ucast w :: 'b::len word) = unat w"
  for w :: "'a::len word"
proof -
  assume "LENGTH('a) \<le> LENGTH('b)"
  then have "(2 :: nat) ^ LENGTH('a) \<le> 2 ^ LENGTH('b)" by simp
  then have "unat w < 2 ^ LENGTH('b)" using unat_bounded [of w] by linarith
  then show ?thesis by (simp add: unat_ucast_mod)
qed

text \<open>Loops that count a word up to a bound.\<close>

lemma unat_inc: "i < n \<Longrightarrow> unat (i + 1) = unat i + 1" for i n :: "'a::len word"
proof -
  assume "i < n"
  then have "unat i < unat n" by (simp add: word_less_nat_alt)
  moreover have "unat n < 2 ^ LENGTH('a)" by (rule unsigned_less)
  ultimately have "Suc (unat i) < 2 ^ LENGTH('a)" by linarith
  then show ?thesis by (simp add: unat_word_ariths)
qed

lemma loop_up: "i < n \<Longrightarrow> unat n - unat (i + 1) < unat n - unat i" for i n :: "'a::len word"
  by (simp add: unat_inc word_less_nat_alt)

lemma suc_le_iff: "i < n \<Longrightarrow> i + 1 \<le> j \<longleftrightarrow> i \<le> j \<and> j \<noteq> i" for i j n :: "'a::len word"
  by (auto simp: unat_inc word_le_nat_alt word_unat_eq_iff)

subsection \<open>Lists\<close>

lemma in_set_remove1_distinct [simp]:
  "distinct xs \<Longrightarrow> y \<in> set (remove1 x xs) \<longleftrightarrow> y \<in> set xs \<and> y \<noteq> x"
  by auto

lemma remove1_middle: "x \<notin> set xs \<Longrightarrow> remove1 x (xs @ x # ys) = xs @ ys"
  by (induction xs) auto

end
