(* ===== verification/BitMath.thy ===== *)
theory BitMath
  imports Prelude
begin

unbundle bit_operations_syntax

text \<open>
  kernel/math/bit.h: indices of the most and least significant bit, population count,
  powers of two, and the integer power of kernel/utilities.h. The functions are templates
  over the unsigned integer types, so the model is polymorphic in the word width. The
  overloads for uint32_t and uint64_t call compiler builtins, which are written out here as
  scans over the bits.
\<close>

subsection \<open>The compiler builtins\<close>

fun scan_up :: "'a::len word \<Rightarrow> nat \<Rightarrow> nat \<Rightarrow> nat" where
  "scan_up v i 0 = 0"
| "scan_up v i (Suc n) = (if bit v i then Suc i else scan_up v (Suc i) n)"

definition builtin_ffs :: "'a::len word \<Rightarrow> nat" where
  "builtin_ffs v = scan_up v 0 LENGTH('a)"

fun scan_down :: "'a::len word \<Rightarrow> nat \<Rightarrow> nat" where
  "scan_down v 0 = 0"
| "scan_down v (Suc n) = (if bit v n then 0 else Suc (scan_down v n))"

definition builtin_clz :: "'a::len word \<Rightarrow> nat" where
  "builtin_clz v = scan_down v LENGTH('a)"

fun count_bits :: "'a::len word \<Rightarrow> nat \<Rightarrow> nat" where
  "count_bits v 0 = 0"
| "count_bits v (Suc n) = count_bits v n + (if bit v n then 1 else 0)"

definition builtin_popcount :: "'a::len word \<Rightarrow> nat" where
  "builtin_popcount v = count_bits v LENGTH('a)"

subsection \<open>bit.h\<close>

definition msb_index :: "'a::len word \<Rightarrow> nat" where
  "msb_index v = (if v = 0 then 0 else LENGTH('a) - builtin_clz v)"

text \<open>
  In msb the literal 1 is a 32-bit int: a shift by 32 or more is undefined, a shift by 31
  gives the negative int that the cast to T then sign-extends.
\<close>

definition msb :: "'a::len word \<Rightarrow> 'a word option" where
  "msb v = (if v = 0 then Some 0
            else if msb_index v < 32 then Some (scast (push_bit (msb_index v) (1 :: u32)))
            else None)"

function lsb_index_rec :: "'a::len word \<Rightarrow> nat" where
  "lsb_index_rec v = (if v = 0 then 0
                      else if v AND 1 \<noteq> 0 then 1 else lsb_index_rec (drop_bit 1 v) + 1)"
  by pat_completeness auto
termination
  by (relation "measure unat") (auto simp: drop_bit1_half unat_half_less)

declare lsb_index_rec.simps [simp del]

definition lsb_index :: "'a::len word \<Rightarrow> nat" where
  "lsb_index v = builtin_ffs v"

definition lsb :: "'a::len word \<Rightarrow> 'a word" where
  "lsb v = v AND (- v)"

function popcount_rec :: "'a::len word \<Rightarrow> nat" where
  "popcount_rec v = (if v = 0 then 0 else unat (v AND 1) + popcount_rec (drop_bit 1 v))"
  by pat_completeness auto
termination
  by (relation "measure unat") (auto simp: drop_bit1_half unat_half_less)

declare popcount_rec.simps [simp del]

definition popcount :: "'a::len word \<Rightarrow> nat" where
  "popcount v = builtin_popcount v"

definition is_pow2 :: "'a::len word \<Rightarrow> bool" where
  "is_pow2 v \<longleftrightarrow> v \<noteq> 0 \<and> v AND (v - 1) = 0"

definition next_pow2 :: "'a::len word \<Rightarrow> 'a word option" where
  "next_pow2 v = (if v = 0 then Some 1 else map_option (push_bit 1) (msb v))"

subsection \<open>ipow of utilities.h\<close>

text \<open>
  The loop body of both overloads; the exponent is an unsigned int, the base and the result
  have the width of the overload.
\<close>

function ipow_loop :: "'a::len word \<Rightarrow> 'a word \<Rightarrow> u32 \<Rightarrow> 'a word" where
  "ipow_loop result base exponent =
     (if exponent = 0 then result
      else ipow_loop (if exponent AND 1 \<noteq> 0 then result * base else result)
             (base * base) (drop_bit 1 exponent))"
  by pat_completeness auto
termination
  by (relation "measure (\<lambda>(r, b, e). unat e)") (auto simp: drop_bit1_half unat_half_less)

declare ipow_loop.simps [simp del]

definition ipow :: "'a::len word \<Rightarrow> u32 \<Rightarrow> 'a word" where
  "ipow base exponent = ipow_loop 1 base exponent"

subsection \<open>The scans find the extreme bits\<close>

lemma all_from_Suc:
  "(\<forall>j. i \<le> j \<and> j < i + Suc n \<longrightarrow> P j) \<longleftrightarrow> P i \<and> (\<forall>j. Suc i \<le> j \<and> j < Suc i + n \<longrightarrow> P j)"
proof -
  have "i \<le> j \<and> j < i + Suc n \<longleftrightarrow> j = i \<or> (Suc i \<le> j \<and> j < Suc i + n)" for j by auto
  then show ?thesis by (simp only:) blast
qed

lemma scan_up_0: "scan_up v i n = 0 \<longleftrightarrow> (\<forall>j. i \<le> j \<and> j < i + n \<longrightarrow> \<not> bit v j)"
proof (induction n arbitrary: i)
  case (Suc n)
  show ?case unfolding all_from_Suc using Suc.IH [of "Suc i"] by simp
qed auto

lemma scan_up_Suc:
  "scan_up v i n = Suc k \<longleftrightarrow> i \<le> k \<and> k < i + n \<and> bit v k \<and> (\<forall>j. i \<le> j \<and> j < k \<longrightarrow> \<not> bit v j)"
proof (induction n arbitrary: i)
  case (Suc n)
  show ?case
  proof (cases "bit v i")
    case True
    then show ?thesis by (auto simp: le_less)
  next
    case False
    have e: "i \<le> j \<longleftrightarrow> j = i \<or> Suc i \<le> j" for j by auto
    have "(\<forall>j. i \<le> j \<and> j < k \<longrightarrow> \<not> bit v j) \<longleftrightarrow> (\<forall>j. Suc i \<le> j \<and> j < k \<longrightarrow> \<not> bit v j)"
      by (simp only: e) (use False in blast)
    moreover have "i \<le> k \<and> bit v k \<longleftrightarrow> Suc i \<le> k \<and> bit v k"
      using False by (auto simp: Suc_le_eq le_less)
    ultimately show ?thesis using False Suc.IH [of "Suc i"] by auto
  qed
qed simp

lemma scan_down_Suc:
  assumes "bit v k" "k < n" "\<forall>j. k < j \<and> j < n \<longrightarrow> \<not> bit v j"
  shows "scan_down v n = n - Suc k"
  using assms
proof (induction n)
  case (Suc n)
  then show ?case by (cases "k = n") (auto simp: Suc_diff_le)
qed simp

lemma lsb_index_0 [simp]: "lsb_index v = 0 \<longleftrightarrow> v = 0"
  unfolding lsb_index_def builtin_ffs_def scan_up_0 by (auto intro: bit_word_eqI)

lemma lsb_index_Suc: "lsb_index v = Suc k \<longleftrightarrow> bit v k \<and> (\<forall>j<k. \<not> bit v j)"
  unfolding lsb_index_def builtin_ffs_def scan_up_Suc by (auto dest: bit_imp_le_length)

lemma word_top_bit:
  assumes "v \<noteq> (0 :: 'a::len word)"
  obtains k where "bit v k" "\<forall>j>k. \<not> bit v j" "k < LENGTH('a)"
proof -
  let ?S = "{j. bit v j}"
  have sub: "?S \<subseteq> {..<LENGTH('a)}" by (auto dest: bit_imp_le_length)
  then have fin: "finite ?S" by (rule finite_subset) simp
  have ne: "?S \<noteq> {}" using assms by (auto intro: bit_word_eqI)
  have "bit v (Max ?S)" using Max_in [OF fin ne] by simp
  moreover have "\<forall>j > Max ?S. \<not> bit v j" using Max_ge [OF fin] by fastforce
  moreover have "Max ?S < LENGTH('a)" using calculation(1) by (rule bit_imp_le_length)
  ultimately show ?thesis by (rule that)
qed

lemma msb_index_bit:
  assumes "bit v k" "\<forall>j>k. \<not> bit v j"
  shows "msb_index v = Suc k"
proof -
  from assms(1) have k: "k < LENGTH('a)" by (rule bit_imp_le_length)
  have "scan_down v LENGTH('a) = LENGTH('a) - Suc k"
    using assms k by (intro scan_down_Suc) auto
  with assms(1) k show ?thesis
    by (auto simp: msb_index_def builtin_clz_def)
qed

lemma msb_index_Suc: "msb_index v = Suc k \<longleftrightarrow> bit v k \<and> (\<forall>j>k. \<not> bit v j)"
  for v :: "'a::len word"
proof
  assume *: "msb_index v = Suc k"
  then have "v \<noteq> 0" by (auto simp: msb_index_def)
  then obtain m where m: "bit v m" "\<forall>j>m. \<not> bit v j" by (rule word_top_bit)
  with msb_index_bit [OF m] * show "bit v k \<and> (\<forall>j>k. \<not> bit v j)" by simp
qed (simp add: msb_index_bit)

lemma lsb_index_exists: "v \<noteq> 0 \<Longrightarrow> \<exists>k. lsb_index v = Suc k"
  by (metis lsb_index_0 not0_implies_Suc)

lemma msb_index_exists: "v \<noteq> 0 \<Longrightarrow> \<exists>k. msb_index v = Suc k"
  by (metis msb_index_bit word_top_bit)

subsection \<open>Borrowing from the lowest set bit\<close>

lemma bit_minus_one:
  fixes v :: "'a::len word"
  assumes k: "bit v k" and low: "\<forall>j<k. \<not> bit v j"
  shows "bit (v - 1) j \<longleftrightarrow> (if j < k then j < LENGTH('a) else j \<noteq> k \<and> bit v j)"
proof -
  have len: "k < LENGTH('a)" using k by (rule bit_imp_le_length)
  define h where "h = v AND NOT (mask (Suc k))"
  have h: "bit h j \<longleftrightarrow> k < j \<and> bit v j" for j
    using bit_imp_le_length [of v j] by (auto simp: h_def bit_simps)
  have "v = h OR push_bit k 1"
    using k low len by (intro bit_word_eqI) (auto simp: h bit_simps bit_1_iff not_less le_less)
  also have "\<dots> = h + push_bit k 1"
    by (rule disjunctive_add_eq_or [symmetric], intro bit_word_eqI)
      (auto simp: h bit_simps bit_1_iff)
  finally have "v - 1 = h + mask k"
    by (simp add: mask_eq_exp_minus_1)
  also have "\<dots> = h OR mask k"
    by (rule disjunctive_add_eq_or, intro bit_word_eqI) (auto simp: h bit_simps)
  finally show ?thesis
    using k by (auto simp: h bit_simps not_less le_less)
qed

lemma bit_uminus:
  fixes v :: "'a::len word"
  assumes k: "bit v k" and low: "\<forall>j<k. \<not> bit v j"
  shows "bit (- v) j \<longleftrightarrow> j < LENGTH('a) \<and> (j = k \<or> (k < j \<and> \<not> bit v j))"
proof -
  have "- v = NOT (v - 1)" by (simp add: minus_eq_not_minus_1)
  then show ?thesis
    using bit_imp_le_length [OF k] by (auto simp: bit_simps bit_minus_one [OF k low])
qed

lemma lsb_index_bits:
  assumes "v \<noteq> 0"
  obtains k where "lsb_index v = Suc k" "bit v k" "\<forall>j<k. \<not> bit v j"
  using assms lsb_index_exists lsb_index_Suc by metis

lemma bit_exp_word: "bit ((2::'a::len word) ^ k) j \<longleftrightarrow> j = k \<and> k < LENGTH('a)"
  by (auto simp: bit_exp_iff)

subsection \<open>Counting\<close>

lemma count_bits_card: "count_bits v n = card {j. j < n \<and> bit v j}"
proof (induction n)
  case (Suc n)
  have "{j. j < Suc n \<and> bit v j} = {j. j < n \<and> bit v j} \<union> (if bit v n then {n} else {})"
    by (auto simp: less_Suc_eq)
  with Suc show ?case by (simp add: card_insert_if)
qed simp

lemma popcount_card: "popcount v = card {j. bit v j}"
proof -
  have "{j. j < LENGTH('a) \<and> bit v j} = {j. bit v j}" for v :: "'a::len word"
    by (auto dest: bit_imp_le_length)
  then show ?thesis by (simp add: popcount_def builtin_popcount_def count_bits_card)
qed

lemma finite_bits [simp]: "finite {j. bit (v :: 'a::len word) j}"
  by (rule finite_subset [of _ "{..<LENGTH('a)}"]) (auto dest: bit_imp_le_length)

lemma card_bits_half:
  fixes v :: "'a::len word"
  shows "card {j. bit v j} = unat (v AND 1) + card {j. bit (drop_bit 1 v) j}"
proof -
  have "{j. bit v j} = (if bit v 0 then {0} else {}) \<union> Suc ` {j. bit (drop_bit 1 v) j}"
    by (auto simp: bit_drop_bit_eq image_iff) (metis not0_implies_Suc)+
  moreover have "unat (v AND 1) = of_bool (bit v 0)"
    by (simp add: and_one_eq bit_0 mod_2_eq_odd)
  moreover have "finite (Suc ` {j. bit (drop_bit 1 v) j})" by simp
  ultimately show ?thesis
    by (simp add: card_insert_if card_image)
qed

subsection \<open>The exponentiation loop\<close>

lemma ipow_loop_eq: "ipow_loop result base exponent = result * base ^ unat exponent"
proof (induction result base exponent rule: ipow_loop.induct)
  case (1 result base exponent)
  show ?case
  proof (cases "exponent = 0")
    case True
    then show ?thesis by (subst ipow_loop.simps) simp
  next
    case False
    have half: "unat (drop_bit 1 exponent) = unat exponent div 2"
      by (simp add: drop_bit1_half unat_div)
    have odd: "exponent AND 1 \<noteq> 0 \<longleftrightarrow> odd (unat exponent)"
      using bit_word_unat [of exponent 0] by (auto simp: and_one_eq bit_0 mod_2_eq_odd)
    have "base ^ unat exponent = (if odd (unat exponent) then base else 1) * (base * base) ^ (unat exponent div 2)"
      by (cases "odd (unat exponent)")
        (auto simp: power_mult_distrib power_add [symmetric] mult_2 [symmetric]
          simp flip: power_Suc elim!: oddE evenE)
    with False "1.IH" half odd show ?thesis
      by (subst ipow_loop.simps) (simp add: mult.assoc)
  qed
qed

subsection \<open>Properties\<close>

text \<open>
  The function lsb_index is the one-based position of the lowest set bit, and zero exactly for zero.
\<close>

theorem lsb_index_correct:
  "(lsb_index v = 0 \<longleftrightarrow> v = 0) \<and>
   (lsb_index v = Suc k \<longleftrightarrow> bit v k \<and> (\<forall>j<k. \<not> bit v j)) \<and>
   lsb_index_rec v = lsb_index v"
proof -
  have "lsb_index_rec v = lsb_index v"
  proof (induction v rule: lsb_index_rec.induct)
    case (1 v)
    consider "v = 0" | "v \<noteq> 0" "bit v 0" | "v \<noteq> 0" "\<not> bit v 0" by blast
    then show ?case
    proof cases
      case 1
      then show ?thesis by (subst lsb_index_rec.simps) simp
    next
      case 2
      then have "lsb_index v = Suc 0" by (simp add: lsb_index_Suc)
      with 2 show ?thesis
        by (subst lsb_index_rec.simps) (auto simp: and_one_eq bit_0 mod_2_eq_odd)
    next
      case 3
      obtain k where k: "lsb_index v = Suc k" "bit v k" "\<forall>j<k. \<not> bit v j"
        using 3(1) by (rule lsb_index_bits)
      with 3 obtain m where m: "k = Suc m" by (metis not0_implies_Suc)
      with k have "lsb_index (drop_bit 1 v) = Suc m"
        unfolding lsb_index_Suc by (simp add: bit_drop_bit_eq)
      with 3 k m "1.IH" show ?thesis
        by (subst lsb_index_rec.simps) (auto simp: and_one_eq bit_0 mod_2_eq_odd)
    qed
  qed
  then show ?thesis by (simp add: lsb_index_Suc)
qed

theorem popcount_correct:
  "popcount v = card {j. bit v j} \<and> popcount_rec v = popcount v"
proof -
  have "popcount_rec v = popcount v"
  proof (induction v rule: popcount_rec.induct)
    case (1 v)
    then show ?case
      by (subst popcount_rec.simps) (auto simp: popcount_card card_bits_half [of v])
  qed
  then show ?thesis by (simp add: popcount_card)
qed

theorem is_pow2_correct: "is_pow2 v \<longleftrightarrow> (\<exists>k<LENGTH('a). v = 2 ^ k)" for v :: "'a::len word"
proof
  assume "is_pow2 v"
  then have v: "v \<noteq> 0" "v AND (v - 1) = 0" by (auto simp: is_pow2_def)
  obtain k where k: "bit v k" "\<forall>j<k. \<not> bit v j" using v(1) lsb_index_bits by metis
  have "v = 2 ^ k"
  proof (rule bit_word_eqI)
    fix j assume "j < LENGTH('a)"
    have "\<not> bit (v AND (v - 1)) j" using v(2) by simp
    then show "bit v j \<longleftrightarrow> bit (2 ^ k :: 'a word) j"
      using k bit_imp_le_length [OF k(1)]
      by (auto simp: bit_and_iff bit_minus_one [OF k] bit_exp_word split: if_splits)
  qed
  then show "\<exists>k<LENGTH('a). v = 2 ^ k" using bit_imp_le_length [OF k(1)] by blast
next
  assume "\<exists>k<LENGTH('a). v = 2 ^ k"
  then obtain k where k: "k < LENGTH('a)" "v = 2 ^ k" by blast
  then have bv: "bit v j \<longleftrightarrow> j = k" for j by (simp add: bit_exp_word)
  then have b: "bit v k" "\<forall>j<k. \<not> bit v j" by auto
  then have "v \<noteq> 0" by auto
  moreover have "v AND (v - 1) = 0"
    by (rule bit_word_eqI) (simp add: bit_and_iff bit_minus_one [OF b] bv)
  ultimately show "is_pow2 v" by (simp add: is_pow2_def)
qed

theorem lsb_correct: "lsb_index v = Suc k \<Longrightarrow> lsb v = 2 ^ k" for v :: "'a::len word"
proof -
  assume "lsb_index v = Suc k"
  then have k: "bit v k" "\<forall>j<k. \<not> bit v j" by (auto simp: lsb_index_Suc)
  show "lsb v = 2 ^ k"
    unfolding lsb_def
    by (rule bit_word_eqI)
      (use k bit_imp_le_length [OF k(1)] in \<open>auto simp: bit_and_iff bit_uminus [OF k] bit_exp_word\<close>)
qed

theorem ipow_correct: "ipow base exponent = base ^ unat exponent"
  by (simp add: ipow_def ipow_loop_eq)

text \<open>
  The documented result of msb is the value with only its most significant bit left set.
  Since msb_index is one-based, the shift yields the next higher power of two instead, and
  next_pow2 is off by the same factor.
\<close>

lemma msb_exp: "msb_index v = Suc k \<Longrightarrow> k < 31 \<Longrightarrow> msb v = Some (2 ^ Suc k)" for v :: u32
  by (auto simp: msb_def msb_index_def push_bit_eq_mult mult.commute split: if_splits)

theorem msb_is_doubled:
  assumes "msb_index v = Suc k" and "k < 31"
  shows "msb (v :: u32) = Some (2 ^ Suc k)" and "\<not> bit v (Suc k)"
  using assms msb_exp by (auto simp: msb_index_Suc)

theorem next_pow2_is_quadrupled:
  assumes "msb_index v = Suc k" and "k < 30"
  shows "next_pow2 (v :: u32) = Some (2 ^ (k + 2))"
proof -
  have "v \<noteq> 0" using assms(1) by (auto simp: msb_index_def)
  with msb_exp [of v k] assms show ?thesis
    by (simp add: next_pow2_def push_bit_eq_mult)
qed

lemma msb_index_640: "msb_index (640 :: u32) = 10"
  by code_simp

end
