(* ===== verification/Align.thy ===== *)
theory Align
  imports BitMath
begin

unbundle bit_operations_syntax

text \<open>
  kernel/utils/align.h and the page constants of cpu_base.h. The alignment is a template
  parameter of type uint (32 bits); the pointer has the width of uintptr_t, 32 bits on i386
  and 64 bits on x86_64, so the operations are polymorphic in that width.
\<close>

subsection \<open>Page constants\<close>

definition page_size :: nat where "page_size = 4096"

definition PageSize :: "'a::len word" where "PageSize = 4096"

definition PageMask :: "'a::len word" where "PageMask = NOT (PageSize - 1)"

definition PageShift :: nat where "PageShift = lsb_index (PageSize :: u32) - 1"

subsection \<open>The alignment operators\<close>

definition align_floor :: "u32 \<Rightarrow> 'a::len word \<Rightarrow> 'a word" where
  "align_floor sz ptr = ptr AND ucast (NOT (sz - 1))"

definition align_ceiling :: "u32 \<Rightarrow> 'a::len word \<Rightarrow> 'a word" where
  "align_ceiling sz ptr = align_floor sz (ptr + ucast (sz - 1))"

definition align_next :: "u32 \<Rightarrow> 'a::len word \<Rightarrow> 'a word" where
  "align_next sz ptr = align_floor sz (ptr + ucast sz)"

definition align_prev :: "u32 \<Rightarrow> 'a::len word \<Rightarrow> 'a word" where
  "align_prev sz ptr = align_floor sz (ptr - ucast sz)"

definition is_aligned :: "u32 \<Rightarrow> 'a::len word \<Rightarrow> bool" where
  "is_aligned sz ptr \<longleftrightarrow> ptr = align_floor sz ptr"

definition min_pages :: "u32 \<Rightarrow> 'a::len word \<Rightarrow> 'a word" where
  "min_pages sz n = align_ceiling sz n div ucast sz"

subsection \<open>Bits of an aligned address\<close>

lemma bit_align_floor:
  fixes p :: "'a::len word"
  assumes "sz = 2 ^ k" "k < 32"
  shows "bit (align_floor sz p) j \<longleftrightarrow> bit p j \<and> k \<le> j \<and> j < 32"
proof -
  have "sz - 1 = mask k" using assms by (simp add: mask_eq_exp_minus_1)
  then show ?thesis
    using bit_imp_le_length [of p j]
    by (auto simp: align_floor_def bit_simps)
qed

lemma unat_align_floor_gen:
  fixes p :: "'a::len word"
  assumes "is_pow2 sz"
  shows "unat (align_floor sz p) = unat p mod 2 ^ 32 div unat sz * unat sz"
proof -
  obtain k where k: "sz = 2 ^ k" "k < 32" using assms by (auto simp: is_pow2_correct)
  have "unat (align_floor sz p) = push_bit k (drop_bit k (take_bit 32 (unat p)))"
    by (rule bit_eqI)
      (auto simp: bit_unsigned_iff bit_align_floor [OF k] bit_simps)
  moreover have "unat sz = 2 ^ k"
    using k by (simp add: unat_exp)
  ultimately show ?thesis
    by (simp add: push_bit_eq_mult drop_bit_eq_div take_bit_eq_mod)
qed

lemma unat_align_floor:
  "is_pow2 sz \<Longrightarrow> unat (align_floor sz (p :: u32)) = unat p div unat sz * unat sz"
  using unat_lt32 [of p] by (simp add: unat_align_floor_gen)

lemma pow2_unat_pos: "is_pow2 sz \<Longrightarrow> 0 < unat sz"
  by (simp add: is_pow2_def unat_gt_0)

lemma unat_pred: "(sz :: u32) \<noteq> 0 \<Longrightarrow> unat (sz - 1) = unat sz - 1"
  by (simp add: unat_sub_noov unat_gt_0 Suc_leI)

lemma unat_align_ceiling_gen:
  fixes p :: u32
  assumes "is_pow2 sz"
  shows "unat (align_ceiling sz p) = (unat p + unat sz - 1) mod 2 ^ 32 div unat sz * unat sz"
  using assms pow2_unat_pos [OF assms]
  by (simp add: align_ceiling_def unat_align_floor unat_word_ariths(1) unat_pred is_pow2_def)

lemma unat_align_ceiling:
  fixes p :: u32
  assumes "is_pow2 sz" "unat p + unat sz \<le> 2 ^ 32"
  shows "unat (align_ceiling sz p) = (unat p + unat sz - 1) div unat sz * unat sz"
  using assms pow2_unat_pos [OF assms(1)] by (simp add: unat_align_ceiling_gen)

lemma unat_align_next:
  fixes p :: u32
  assumes "is_pow2 sz" "unat p + unat sz < 2 ^ 32"
  shows "unat (align_next sz p) = Suc (unat p div unat sz) * unat sz"
  using assms pow2_unat_pos [OF assms(1)]
  by (simp add: align_next_def unat_align_floor unat_word_ariths(1) div_add_self2)

lemma unat_align_prev:
  fixes p :: u32
  assumes "is_pow2 sz" "unat sz \<le> unat p"
  shows "unat (align_prev sz p) = (unat p div unat sz - 1) * unat sz"
  using assms pow2_unat_pos [OF assms(1)]
  by (simp add: align_prev_def unat_align_floor unat_sub_noov le_div_geq)

lemma dvd_eq_mult_div_iff: "n div s * s = n \<longleftrightarrow> s dvd (n :: nat)"
  by (metis dvd_div_mult_self dvd_triv_right)

lemma is_aligned_dvd: "is_pow2 sz \<Longrightarrow> is_aligned sz (p :: u32) \<longleftrightarrow> unat sz dvd unat p"
  unfolding is_aligned_def word_unat_eq_iff
  by (subst eq_commute) (simp add: unat_align_floor dvd_eq_mult_div_iff)

lemma is_pow2_PageSize [simp]: "is_pow2 (4096 :: u32)"
  by (simp add: is_pow2_def)

lemma PageShift_12 [simp]: "PageShift = 12"
  unfolding PageShift_def PageSize_def by code_simp

definition page_aligned :: "addr \<Rightarrow> bool" where "page_aligned a \<longleftrightarrow> 4096 dvd unat a"

lemma page_aligned_room: "page_aligned p \<Longrightarrow> unat p + 4096 \<le> 2 ^ 32"
  using unat_lt32 [of p] by (auto simp: page_aligned_def elim!: dvdE)

subsection \<open>Rounding is exact\<close>

text \<open>
  On a 32-bit address the alignment operators round to the nearest multiples of a
  power of two: AlignFloor to the greatest multiple not above the address, AlignCeiling to
  the least multiple not below it when the sum does not overflow.
\<close>

theorem align_rounds:
  fixes p :: u32
  assumes "is_pow2 sz" and "unat p + unat sz \<le> 2 ^ 32"
  shows "unat sz dvd unat (align_floor sz p) \<and> align_floor sz p \<le> p
       \<and> unat p < unat (align_floor sz p) + unat sz
       \<and> unat sz dvd unat (align_ceiling sz p) \<and> p \<le> align_ceiling sz p
       \<and> unat (align_ceiling sz p) < unat p + unat sz"
proof -
  let ?s = "unat sz" and ?n = "unat p"
  have s: "0 < ?s" using assms(1) by (rule pow2_unat_pos)
  have "?n < ?n div ?s * ?s + ?s"
    using dividend_less_div_times [OF s, of ?n] by linarith
  moreover have "?n \<le> (?n + ?s - 1) div ?s * ?s"
    using dividend_less_div_times [OF s, of "?n + ?s - 1"] s by linarith
  moreover have "(?n + ?s - 1) div ?s * ?s < ?n + ?s"
    using s div_times_less_eq_dividend [of "?n + ?s - 1" ?s] by linarith
  ultimately show ?thesis
    using assms by (simp add: unat_align_floor unat_align_ceiling word_le_nat_alt)
qed

text \<open>
  On x86_64 the complement of the 32-bit template parameter is zero-extended, so rounding a
  64-bit address also clears its upper half.
\<close>

theorem align_floor_64_truncates:
  "is_pow2 sz \<Longrightarrow> unat (align_floor sz (p :: u64)) = unat p mod 2 ^ 32 div unat sz * unat sz"
  by (rule unat_align_floor_gen)

end
