(* ===== verification/MemRange.thy ===== *)
theory MemRange
  imports Align
begin

text \<open>
  kernel/memory_range.h: a base address and a length in bytes, both 32-bit words, with the
  wrap-around of the code's arithmetic. The abstract reading of a range is the set of the
  addresses it contains; it is exact for ranges that do not run past the top of memory.
\<close>

subsection \<open>The struct and its operations\<close>

record mem_range =
  Base :: addr
  Length :: size32

datatype merge_error = NotContiguous

definition from_addresses :: "addr \<Rightarrow> addr \<Rightarrow> mem_range" where
  "from_addresses s e =
     (let (s, e) = (if s > e then (e, s) else (s, e)) in \<lparr>Base = s, Length = e - s + 1\<rparr>)"

definition base_aligned :: "mem_range \<Rightarrow> addr" where
  "base_aligned r = align_floor 4096 (Base r)"

definition range_end :: "mem_range \<Rightarrow> addr" where
  "range_end r = Base r + Length r - 1"

definition end_aligned :: "mem_range \<Rightarrow> addr" where
  "end_aligned r = align_ceiling 4096 (range_end r) - 1"

definition range_empty :: "mem_range \<Rightarrow> bool" where
  "range_empty r \<longleftrightarrow> Length r = 0"

definition overlaps :: "mem_range \<Rightarrow> mem_range \<Rightarrow> bool" where
  "overlaps t r \<longleftrightarrow> Length t \<noteq> 0 \<and> Length r \<noteq> 0
                 \<and> Base t \<le> range_end r \<and> range_end t \<ge> Base r"

definition contiguous :: "mem_range \<Rightarrow> mem_range \<Rightarrow> bool" where
  "contiguous t r =
     (if Length t = 0 \<or> Length r = 0 then False
      else if r = t then True
      else if range_end t + 1 \<ge> Base r \<and> range_end t < range_end r then True
      else range_end r + 1 \<ge> Base t \<and> range_end r < range_end t)"

definition merge_ranges :: "mem_range \<Rightarrow> mem_range \<Rightarrow> merge_error + mem_range" where
  "merge_ranges r1 r2 =
     (if \<not> contiguous r1 r2 then Inl NotContiguous
      else let minBase = min (Base r1) (Base r2);
               maxEnd = max (range_end r1) (range_end r2)
           in Inr \<lparr>Base = minBase, Length = maxEnd - minBase + 1\<rparr>)"

subsection \<open>The addresses of a range\<close>

definition range_addrs :: "mem_range \<Rightarrow> nat set" where
  "range_addrs r = {unat (Base r) ..< unat (Base r) + unat (Length r)}"

definition range_ok :: "mem_range \<Rightarrow> bool" where
  "range_ok r \<longleftrightarrow> unat (Base r) + unat (Length r) \<le> 2 ^ 32"

lemma range_addrs_empty [simp]: "range_addrs r = {} \<longleftrightarrow> Length r = 0"
  by (auto simp: range_addrs_def unat_gt_0 unat_eq_zero)

lemma unat_range_end:
  assumes "range_ok r" "Length r \<noteq> 0"
  shows "unat (range_end r) = unat (Base r) + unat (Length r) - 1"
proof -
  have l: "0 < unat (Length r)" using assms(2) by (simp add: unat_gt_0)
  have "range_end r = Base r + (Length r - 1)" by (simp add: range_end_def)
  moreover have "unat (Length r - 1) = unat (Length r) - 1"
    using l by (simp add: unat_sub_noov)
  ultimately show ?thesis
    using assms(1) l by (simp add: range_ok_def unat_add_noov)
qed

lemma range_addrs_end:
  assumes "range_ok r" "Length r \<noteq> 0"
  shows "range_addrs r = {unat (Base r) .. unat (range_end r)}"
  using assms by (auto simp: range_addrs_def unat_range_end unat_gt_0)
    (metis Suc_leI add_gr_0 le_imp_less_Suc less_Suc_eq_le ordered_cancel_comm_monoid_diff_class.le_diff_conv2 unat_gt_0 Suc_pred)+

lemma range_end_ge: "range_ok r \<Longrightarrow> Length r \<noteq> 0 \<Longrightarrow> unat (Base r) \<le> unat (range_end r)"
  by (simp add: unat_range_end unat_gt_0 Suc_leI le_diff_conv2)

subsection \<open>Overlap and contiguity\<close>

lemma unat_end_succ:
  "range_end t < (e :: u32) \<Longrightarrow> unat (range_end t + 1) = unat (range_end t) + 1"
  using unat_lt32 [of e] by (simp add: word_less_nat_alt unat_add_noov)

theorem overlaps_iff_common_address:
  assumes "range_ok t" "range_ok r"
  shows "overlaps t r \<longleftrightarrow> range_addrs t \<inter> range_addrs r \<noteq> {}"
proof (cases "Length t = 0 \<or> Length r = 0")
  case True
  then show ?thesis by (auto simp: overlaps_def range_addrs_def)
next
  case False
  then have "overlaps t r \<longleftrightarrow> unat (Base t) \<le> unat (range_end r) \<and> unat (Base r) \<le> unat (range_end t)"
    by (simp add: overlaps_def word_le_nat_alt)
  moreover have "unat (Base t) \<le> unat (range_end t)" "unat (Base r) \<le> unat (range_end r)"
    using False assms by (auto intro: range_end_ge)
  ultimately show ?thesis
    using False assms by (auto simp: range_addrs_end)
qed

lemma contiguous_iff:
  assumes "range_ok t" "range_ok r" "Length t \<noteq> 0" "Length r \<noteq> 0"
  shows "contiguous t r \<longleftrightarrow> t = r \<or> (range_end t \<noteq> range_end r \<and>
     unat (Base r) \<le> unat (range_end t) + 1 \<and> unat (Base t) \<le> unat (range_end r) + 1)"
proof -
  have b: "unat (Base t) \<le> unat (range_end t)" "unat (Base r) \<le> unat (range_end r)"
    using assms by (auto intro: range_end_ge)
  consider "range_end t < range_end r" | "range_end r < range_end t" | "range_end t = range_end r"
    by (metis linorder_less_linear)
  then show ?thesis
  proof cases
    case 1
    with b assms show ?thesis
      by (auto simp: contiguous_def word_le_nat_alt word_less_nat_alt unat_end_succ [OF 1])
  next
    case 2
    with b assms show ?thesis
      by (auto simp: contiguous_def word_le_nat_alt word_less_nat_alt unat_end_succ [OF 2])
  next
    case 3
    with assms show ?thesis by (auto simp: contiguous_def)
  qed
qed

lemma contiguous_union:
  assumes "range_ok t" "range_ok r" "contiguous t r"
  shows "range_addrs t \<union> range_addrs r =
    {min (unat (Base t)) (unat (Base r)) .. max (unat (range_end t)) (unat (range_end r))}"
proof -
  from assms(3) have l: "Length t \<noteq> 0" "Length r \<noteq> 0" by (auto simp: contiguous_def split: if_splits)
  with assms have c: "t = r \<or> (unat (Base r) \<le> unat (range_end t) + 1 \<and> unat (Base t) \<le> unat (range_end r) + 1)"
    by (auto simp: contiguous_iff)
  have b: "unat (Base t) \<le> unat (range_end t)" "unat (Base r) \<le> unat (range_end r)"
    using assms l by (auto intro: range_end_ge)
  from c b show ?thesis
    unfolding range_addrs_end [OF assms(1) l(1)] range_addrs_end [OF assms(2) l(2)]
    by (auto simp: min_def max_def)
qed

text \<open>
  Merge of two ranges either fails or returns the range whose addresses are exactly
  those of the two, provided they do not run past the top of memory and do not cover all
  of it.
\<close>

theorem merge_ranges_union:
  assumes "range_ok r1" "range_ok r2" "merge_ranges r1 r2 = Inr m"
    and "0 \<notin> range_addrs r1 \<union> range_addrs r2 \<or> 2 ^ 32 - 1 \<notin> range_addrs r1 \<union> range_addrs r2"
  shows "range_addrs m = range_addrs r1 \<union> range_addrs r2 \<and> range_ok m \<and> Length m \<noteq> 0
       \<and> Base m = min (Base r1) (Base r2)"
proof -
  let ?b = "min (Base r1) (Base r2)" and ?e = "max (range_end r1) (range_end r2)"
  from assms(3) have c: "contiguous r1 r2" and m: "m = \<lparr>Base = ?b, Length = ?e - ?b + 1\<rparr>"
    by (auto simp: merge_ranges_def Let_def split: if_splits)
  have u: "range_addrs r1 \<union> range_addrs r2 = {unat ?b .. unat ?e}"
    using contiguous_union [OF assms(1,2) c]
    by (simp add: min_def max_def word_le_nat_alt split: if_splits)
  from c have l: "Length r1 \<noteq> 0" by (auto simp: contiguous_def split: if_splits)
  have be: "unat ?b \<le> unat ?e"
    using u assms(1) l by (metis atLeastatMost_empty_iff range_addrs_empty sup_eq_bot_iff)
  have ne: "unat ?e - unat ?b + 1 < 2 ^ 32"
  proof (rule ccontr)
    assume "\<not> ?thesis"
    then have "unat ?b = 0" "unat ?e = 2 ^ 32 - 1"
      using unat_lt32 [of ?e] be by auto
    with u assms(4) show False by (metis atLeastAtMost_iff le0 order.refl)
  qed
  have len: "unat (?e - ?b + 1) = unat ?e - unat ?b + 1"
    using be ne by (simp add: unat_add_noov unat_sub_noov)
  have "range_addrs m = {unat ?b ..< Suc (unat ?e)}"
    unfolding range_addrs_def m using be by (simp add: len)
  moreover have "range_ok m"
    unfolding range_ok_def m using be unat_lt32 [of ?e] by (simp add: len)
  moreover have "Length m \<noteq> 0"
    using len by (simp add: m unat_eq_zero [symmetric] del: unat_eq_zero)
  ultimately show ?thesis
    using u by (simp add: m atLeastLessThanSuc_atLeastAtMost)
qed

theorem merge_ranges_union_witness:
  "range_addrs \<lparr>Base = 4096, Length = 8192\<rparr>
   = range_addrs \<lparr>Base = 4096, Length = 4096\<rparr> \<union> range_addrs \<lparr>Base = 8192, Length = 4096\<rparr>"
proof -
  let ?r1 = "\<lparr>Base = 4096, Length = 4096\<rparr>" and ?r2 = "\<lparr>Base = 8192, Length = 4096\<rparr>"
  have m: "merge_ranges ?r1 ?r2 = Inr \<lparr>Base = 4096, Length = 8192\<rparr>"
    by (simp add: merge_ranges_def contiguous_def range_end_def min_def max_def Let_def)
  have ok: "range_ok ?r1" "range_ok ?r2" by (simp_all add: range_ok_def)
  have "0 \<notin> range_addrs ?r1 \<union> range_addrs ?r2"
    unfolding range_addrs_def Un_iff atLeastLessThan_iff by simp
  with merge_ranges_union [OF ok m] show ?thesis by blast
qed

text \<open>
  Ranges that overlap and end at the same address are not recognised as contiguous.
\<close>

lemma same_end_not_contiguous:
  "range_ok t \<Longrightarrow> range_ok r \<Longrightarrow> t \<noteq> r \<Longrightarrow> range_end t = range_end r \<Longrightarrow> \<not> contiguous t r"
  by (auto simp: contiguous_def)

text \<open>
  EndAligned rounds the last address up, so a range whose last address lies on a page
  boundary loses that address.
\<close>

lemma end_aligned_page_boundary:
  "4096 dvd unat (range_end r) \<Longrightarrow> range_end r \<noteq> 0 \<Longrightarrow> end_aligned r = range_end r - 1"
proof -
  assume d: "4096 dvd unat (range_end r)"
  let ?e = "range_end r"
  have e: "unat ?e + 4096 \<le> 2 ^ 32" using d unat_lt32 [of ?e] by (auto elim!: dvdE)
  have "unat (align_ceiling 4096 ?e) = (unat ?e + 4095) div 4096 * 4096"
    using unat_align_ceiling [of 4096 ?e] e by simp
  also have "\<dots> = unat ?e" using d by (auto elim!: dvdE)
  finally show "end_aligned r = ?e - 1"
    by (simp add: end_aligned_def word_eq_unatI)
qed

end
