(* ===== verification/BootArgs.thy ===== *)
theory BootArgs
  imports MemRange "HOL-Library.Multiset"
begin

text \<open>
  kernel/boot_args.h and boot_args.cpp: the table of memory mappings that the boot loader
  hands to the kernel, and the operations that keep it sorted, drop empty entries, merge
  neighbours, add a mapping and cut the kernel out. The table is the whole array with its
  count, so that entries beyond the count keep their old contents as they do in the code;
  an access outside the array is a fault.
\<close>

subsection \<open>Data\<close>

datatype memory_type = Invalid | Available | Reserved | ACPI | ACPI_VMS | BadMemory

record mapping =
  Start :: addr
  MapLength :: size32
  Type :: memory_type

definition to_range :: "mapping \<Rightarrow> mem_range" where
  "to_range m = \<lparr>Base = Start m, Length = MapLength m\<rparr>"

definition assign_range :: "mapping \<Rightarrow> mem_range \<Rightarrow> mapping" where
  "assign_range m r = m\<lparr>Start := Base r, MapLength := Length r\<rparr>"

record frame_buffer_info =
  FbAddress :: addr
  FbWidth :: u32
  FbHeight :: u32
  FbPitch :: u32
  FbDepth :: u32

record argument_data =
  CommandLine :: "u8 list"
  BootMagicNumber :: u32
  LowMemorySizeKByte :: size32
  HighMemorySizeKByte :: size32
  KernelStart :: addr
  KernelEnd :: addr
  HeapStart :: addr
  HeapNext :: addr
  VirtHeapStart :: addr
  VirtHeapNext :: addr
  MemoryMapCount :: nat
  MemoryMap :: "mapping list"
  FrameBuffer :: frame_buffer_info

definition MaxMemoryEntries :: nat where "MaxMemoryEntries = 32"

definition MaxCommandLine :: nat where "MaxCommandLine = 256"

record arguments =
  args_data :: argument_data
  canAllocPages :: bool
  canKalloc :: bool

definition args_init :: "argument_data \<Rightarrow> arguments" where
  "args_init data = \<lparr>args_data = data, canAllocPages = False, canKalloc = False\<rparr>"

definition kernel_range :: "argument_data \<Rightarrow> mem_range" where
  "kernel_range d = from_addresses (KernelStart d) (KernelEnd d)"

definition heap_physical :: "argument_data \<Rightarrow> mem_range" where
  "heap_physical d = from_addresses (HeapStart d) (HeapNext d)"

definition heap_virtual :: "argument_data \<Rightarrow> mem_range" where
  "heap_virtual d = from_addresses (VirtHeapStart d) (VirtHeapNext d)"

subsection \<open>SortMappings\<close>

text \<open>One run of the inner loop; the flag is the variable sorted.\<close>

function sort_pass :: "mapping list \<Rightarrow> nat \<Rightarrow> nat \<Rightarrow> bool \<Rightarrow> fault + (mapping list \<times> bool)" where
  "sort_pass m i n srt =
     (if i < n then
        if length m \<le> i then Inl OutOfBounds
        else if Start (m ! (i - 1)) > Start (m ! i)
             then sort_pass (m[i - 1 := m ! i, i := m ! (i - 1)]) (i + 1) n False
             else sort_pass m (i + 1) n srt
      else Inr (m, srt))"
  by pat_completeness auto
termination
  by (relation "measure (\<lambda>(m, i, n, s). n - i)") auto

declare sort_pass.simps [simp del]

text \<open>The number of pairs in the wrong order, which every swap lowers by one.\<close>

fun inversions :: "addr list \<Rightarrow> nat" where
  "inversions [] = 0"
| "inversions (x # xs) = length (filter (\<lambda>y. y < x) xs) + inversions xs"

lemma length_filter_mset: "mset xs = mset ys \<Longrightarrow> length (filter P xs) = length (filter P ys)"
  by (metis mset_filter size_mset)

lemma inversions_swap:
  "y < x \<Longrightarrow> inversions (as @ y # x # bs) < inversions (as @ x # y # bs)"
proof (induction as)
  case (Cons a as)
  have "length (filter (\<lambda>z. z < a) (as @ y # x # bs)) = length (filter (\<lambda>z. z < a) (as @ x # y # bs))"
    by (rule length_filter_mset) simp
  with Cons show ?case by simp
qed auto

lemma list_two_at:
  assumes "0 < i" "i < length m"
  shows "m = take (i - 1) m @ m ! (i - 1) # m ! i # drop (Suc i) m"
proof -
  from assms obtain k where k: "i = Suc k" by (cases i) auto
  with assms show ?thesis
    using id_take_nth_drop [of k m] Cons_nth_drop_Suc [of "Suc k" m] by simp
qed

lemma swap_two_at:
  fixes m :: "'a list"
  assumes "0 < i" "i < length m"
  shows "m[i - 1 := m ! i, i := m ! (i - 1)] = take (i - 1) m @ m ! i # m ! (i - 1) # drop (Suc i) m"
proof -
  obtain k where k: "i = Suc k" using assms by (cases i) auto
  have "(as @ x # y # bs)[length as := y, Suc (length as) := x] = as @ y # x # bs"
    for as bs :: "'a list" and x y
    by (simp add: list_update_append)
  from this [of "take k m" "m ! k" "m ! i" "drop (Suc i) m"]
  show ?thesis using assms k list_two_at [OF assms] by simp
qed

lemma swap_inversions:
  assumes "0 < i" "i < length m" "Start (m ! i) < Start (m ! (i - 1))"
  shows "inversions (map Start (m[i - 1 := m ! i, i := m ! (i - 1)])) < inversions (map Start m)"
proof -
  let ?a = "map Start (take (i - 1) m)" and ?b = "map Start (drop (Suc i) m)"
  have "map Start m = ?a @ Start (m ! (i - 1)) # Start (m ! i) # ?b"
    by (subst list_two_at [OF assms(1,2)]) simp
  moreover have "map Start (m[i - 1 := m ! i, i := m ! (i - 1)])
      = ?a @ Start (m ! i) # Start (m ! (i - 1)) # ?b"
    by (subst swap_two_at [OF assms(1,2)]) simp
  ultimately show ?thesis using inversions_swap [OF assms(3)] by simp
qed

lemma swap_mset:
  assumes "0 < i" "i < length m"
  shows "mset (m[i - 1 := m ! i, i := m ! (i - 1)]) = mset m"
  using assms by (simp add: mset_swap)

lemma sort_pass_props:
  assumes "sort_pass m i n s = Inr (m', s')" "0 < i"
  shows "length m' = length m \<and> mset m' = mset m \<and> drop n m' = drop n m
       \<and> inversions (map Start m') \<le> inversions (map Start m)
       \<and> (\<not> s' \<longrightarrow> s \<longrightarrow> inversions (map Start m') < inversions (map Start m))
       \<and> (s' \<longrightarrow> s \<and> m' = m \<and> (\<forall>j. i \<le> j \<longrightarrow> j < n \<longrightarrow> Start (m ! (j - 1)) \<le> Start (m ! j)))"
  using assms
proof (induction m i n s rule: sort_pass.induct)
  case (1 m i n s)
  let ?m = "m[i - 1 := m ! i, i := m ! (i - 1)]"
  consider "\<not> i < n" | "i < n" "i < length m" "Start (m ! i) < Start (m ! (i - 1))"
    | "i < n" "i < length m" "\<not> Start (m ! i) < Start (m ! (i - 1))"
    using "1.prems"(1) by (subst (asm) sort_pass.simps) (auto split: if_splits)
  then show ?case
  proof cases
    case 1
    with "1.prems" show ?thesis by (subst (asm) sort_pass.simps) auto
  next
    case 2
    from 2 "1.prems"(1) have "sort_pass ?m (i + 1) n False = Inr (m', s')"
      by (subst (asm) sort_pass.simps) simp
    note IH = "1.IH"(1) [OF 2(1) _ 2(3) this]
    from 2 IH swap_inversions [of i m] swap_mset [of i m] "1.prems"(2) show ?thesis by auto
  next
    case 3
    from 3 "1.prems"(1) have "sort_pass m (i + 1) n s = Inr (m', s')"
      by (subst (asm) sort_pass.simps) simp
    note IH = "1.IH"(2) [OF 3(1) _ 3(3) this]
    from 3 IH show ?thesis by (auto simp: not_less dest: le_neq_implies_less)
  qed
qed

text \<open>The outer loop runs until a pass makes no swap.\<close>

function sort_loop :: "mapping list \<Rightarrow> nat \<Rightarrow> fault + mapping list" where
  "sort_loop m n =
     bindf (sort_pass m 1 n True) (\<lambda>(m', srt). if srt then Inr m' else sort_loop m' n)"
  by pat_completeness auto
termination
  by (relation "measure (\<lambda>(m, n). inversions (map Start m))") (auto dest: sort_pass_props)

declare sort_loop.simps [simp del]

definition sort_mappings :: "argument_data \<Rightarrow> fault + argument_data" where
  "sort_mappings d =
     bindf (sort_loop (MemoryMap d) (MemoryMapCount d)) (\<lambda>m. Inr (d\<lparr>MemoryMap := m\<rparr>))"

subsection \<open>SlideEntries and RemoveDeadMappings\<close>

function slide_loop :: "mapping list \<Rightarrow> nat \<Rightarrow> nat \<Rightarrow> fault + mapping list" where
  "slide_loop m i n =
     (if i < n then
        if length m \<le> i then Inl OutOfBounds else slide_loop (m[i - 1 := m ! i]) (i + 1) n
      else Inr m)"
  by pat_completeness auto
termination
  by (relation "measure (\<lambda>(m, i, n). n - i)") auto

declare slide_loop.simps [simp del]

definition slide_entries :: "nat \<Rightarrow> argument_data \<Rightarrow> fault + argument_data" where
  "slide_entries start d =
     bindf (slide_loop (MemoryMap d) (start + 1) (MemoryMapCount d))
       (\<lambda>m. Inr (d\<lparr>MemoryMap := m, MemoryMapCount := MemoryMapCount d - 1\<rparr>))"

lemma slide_entries_count: "slide_entries k d = Inr d' \<Longrightarrow> MemoryMapCount d' = MemoryMapCount d - 1"
  by (auto simp: slide_entries_def)

function remove_dead_loop :: "nat \<Rightarrow> argument_data \<Rightarrow> fault + argument_data" where
  "remove_dead_loop index d =
     (if index < MemoryMapCount d then
        if length (MemoryMap d) \<le> index then Inl OutOfBounds
        else if MapLength (MemoryMap d ! index) > 0 then remove_dead_loop (index + 1) d
        else bindf (slide_entries index d) (\<lambda>d'. remove_dead_loop index d')
      else Inr d)"
  by pat_completeness auto
termination
  by (relation "measure (\<lambda>(i, d). MemoryMapCount d - i)") (auto dest!: slide_entries_count)

declare remove_dead_loop.simps [simp del]

definition remove_dead_mappings :: "argument_data \<Rightarrow> fault + argument_data" where
  "remove_dead_mappings d = remove_dead_loop 0 d"

subsection \<open>MergeContiguousMappings\<close>

text \<open>Merging at index i slides the rest down and looks at index i again.\<close>

function merge_loop :: "nat \<Rightarrow> argument_data \<Rightarrow> fault + argument_data" where
  "merge_loop i d =
     (if i < MemoryMapCount d then
        if length (MemoryMap d) \<le> i then Inl OutOfBounds
        else
          (let lastMapping = to_range (MemoryMap d ! (i - 1));
               mapping = to_range (MemoryMap d ! i)
           in (case merge_ranges lastMapping mapping of
                 Inr r \<Rightarrow>
                   bindf (slide_entries i
                     (d\<lparr>MemoryMap := (MemoryMap d)[i - 1 := assign_range (MemoryMap d ! (i - 1)) r]\<rparr>))
                     (\<lambda>d'. merge_loop i d')
               | Inl _ \<Rightarrow> merge_loop (i + 1) d))
      else Inr d)"
  by pat_completeness auto
termination
  by (relation "measure (\<lambda>(i, d). MemoryMapCount d - i)") (auto dest!: slide_entries_count)

declare merge_loop.simps [simp del]

definition merge_contiguous_mappings :: "argument_data \<Rightarrow> fault + argument_data" where
  "merge_contiguous_mappings d =
     bindf (sort_mappings d) (\<lambda>d. bindf (remove_dead_mappings d) (\<lambda>d. merge_loop 1 d))"

subsection \<open>AddMemoryMap\<close>

definition add_memory_map ::
  "addr \<Rightarrow> size32 \<Rightarrow> memory_type \<Rightarrow> argument_data \<Rightarrow> fault + (bool \<times> argument_data)" where
  "add_memory_map start len ty d =
     (if len = 0 then Inr (True, d)
      else if MemoryMapCount d + 1 \<ge> MaxMemoryEntries then Inr (False, d)
      else
        (let idx = MemoryMapCount d;
             d = d\<lparr>MemoryMapCount := MemoryMapCount d + 1\<rparr>
         in if length (MemoryMap d) \<le> idx then Inl OutOfBounds
            else bindf (merge_contiguous_mappings
                   (d\<lparr>MemoryMap := (MemoryMap d)[idx := \<lparr>Start = start, MapLength = len, Type = ty\<rparr>]\<rparr>))
                   (\<lambda>d'. Inr (True, d'))))"

subsection \<open>KnockoutUsedMemory\<close>

definition set_entry :: "nat \<Rightarrow> (mapping \<Rightarrow> mapping) \<Rightarrow> argument_data \<Rightarrow> argument_data" where
  "set_entry i f d = d\<lparr>MemoryMap := (MemoryMap d)[i := f (MemoryMap d ! i)]\<rparr>"

lemma set_entry_count [simp]: "MemoryMapCount (set_entry i f d) = MemoryMapCount d"
  by (simp add: set_entry_def)

function knockout_loop :: "addr \<Rightarrow> addr \<Rightarrow> nat \<Rightarrow> argument_data \<Rightarrow> fault + argument_data" where
  "knockout_loop ks ke i d =
     (if i < MemoryMapCount d then
        if length (MemoryMap d) \<le> i then Inl OutOfBounds
        else
          (let mapping = MemoryMap d ! i;
               mapEnd = range_end (to_range mapping)
           in if mapEnd < ks then knockout_loop ks ke (i + 1) d
              else if Start mapping > ke then Inr d
              else
                (let hasStartGap = ks > Start mapping;
                     hasEndGap = ke < mapEnd
                 in if \<not> hasStartGap \<and> \<not> hasEndGap then
                      knockout_loop ks ke (i + 1) (set_entry i (MapLength_update (\<lambda>_. 0)) d)
                    else
                      (let d1 = (if hasStartGap
                                 then set_entry i (MapLength_update (\<lambda>_. ks - Start mapping)) d
                                 else d)
                       in if hasEndGap then
                            if hasStartGap then
                              if MemoryMapCount d1 + 1 \<ge> MaxMemoryEntries
                              then Inl (Panic ''Out of memory mappings for kernel boot, don't know what to do now...'')
                              else if length (MemoryMap d1) \<le> MemoryMapCount d1 then Inl OutOfBounds
                              else Inr (set_entry (MemoryMapCount d1)
                                     (\<lambda>m. m\<lparr>Start := ke + 1, MapLength := mapEnd - ke\<rparr>)
                                     (d1\<lparr>MemoryMapCount := MemoryMapCount d1 + 1\<rparr>))
                            else knockout_loop ks ke (i + 1)
                                   (set_entry i (\<lambda>m. m\<lparr>Start := ke + 1, MapLength := mapEnd - ke\<rparr>) d1)
                          else knockout_loop ks ke (i + 1) d1)))
      else Inr d)"
  by pat_completeness auto
termination
  by (relation "measure (\<lambda>(ks, ke, i, d). MemoryMapCount d - i)") (auto simp: Let_def)

declare knockout_loop.simps [simp del]

definition knockout_used_memory :: "argument_data \<Rightarrow> fault + argument_data" where
  "knockout_used_memory d =
     (let kernelStartAligned = base_aligned (kernel_range d);
          kernelEndAligned = end_aligned (kernel_range d)
      in bindf (sort_mappings d)
           (\<lambda>d. bindf (knockout_loop kernelStartAligned kernelEndAligned 0 d) remove_dead_mappings))"

end
