(* ===== verification/BootArgsFacts.thy ===== *)
theory BootArgsFacts
  imports BootArgs
begin

text \<open>
  Correctness of the memory-map operations of BootArgs: no operation faults on a table of
  the declared size, sorting yields a sorted permutation, removal keeps exactly the
  non-empty entries, merging and adding preserve the set of available addresses, and the
  knockout removes exactly the page-aligned kernel range.
\<close>

subsection \<open>The live part of the table\<close>

definition entries :: "argument_data \<Rightarrow> mapping list" where
  "entries d = take (MemoryMapCount d) (MemoryMap d)"

definition table_ok :: "argument_data \<Rightarrow> bool" where
  "table_ok d \<longleftrightarrow> length (MemoryMap d) = MaxMemoryEntries \<and> MemoryMapCount d \<le> MaxMemoryEntries"

text \<open>Nothing but the table and its count differs.\<close>

definition same_frame :: "argument_data \<Rightarrow> argument_data \<Rightarrow> bool" where
  "same_frame d d' \<longleftrightarrow> d' = d\<lparr>MemoryMapCount := MemoryMapCount d', MemoryMap := MemoryMap d'\<rparr>"

definition map_addrs :: "mapping list \<Rightarrow> nat set" where
  "map_addrs ms = (\<Union>m\<in>set ms. range_addrs (to_range m))"

definition entry_ok :: "mapping \<Rightarrow> bool" where
  "entry_ok m \<longleftrightarrow> range_ok (to_range m) \<and> MapLength m \<noteq> 0"

lemma to_range_sel [simp]: "Base (to_range m) = Start m" "Length (to_range m) = MapLength m"
  by (simp_all add: to_range_def)

lemma map_addrs_simps [simp]:
  "map_addrs [] = {}"
  "map_addrs (x # xs) = range_addrs (to_range x) \<union> map_addrs xs"
  "map_addrs (xs @ ys) = map_addrs xs \<union> map_addrs ys"
  by (auto simp: map_addrs_def)

lemma map_addrs_mset: "mset xs = mset ys \<Longrightarrow> map_addrs xs = map_addrs ys"
  by (metis map_addrs_def set_mset_mset)

lemma same_frame_refl [simp]: "same_frame d d"
  by (simp add: same_frame_def)

lemma same_frame_trans: "same_frame d d' \<Longrightarrow> same_frame d' d'' \<Longrightarrow> same_frame d d''"
  unfolding same_frame_def by (metis argument_data.surjective argument_data.update_convs(11,12))

lemma same_frame_fields:
  "same_frame d d' \<Longrightarrow> KernelStart d' = KernelStart d \<and> KernelEnd d' = KernelEnd d
     \<and> HeapStart d' = HeapStart d \<and> HeapNext d' = HeapNext d"
  unfolding same_frame_def by (metis argument_data.select_convs argument_data.surjective argument_data.update_convs(11,12))

lemma length_entries: "table_ok d \<Longrightarrow> length (entries d) = MemoryMapCount d"
  by (simp add: entries_def table_ok_def)

lemma entries_nth: "i < MemoryMapCount d \<Longrightarrow> MemoryMap d ! i = entries d ! i"
  by (simp add: entries_def)

subsection \<open>Sorting\<close>

lemma sort_pass_total: "n \<le> length m \<Longrightarrow> \<exists>r. sort_pass m i n s = Inr r"
proof (induction m i n s rule: sort_pass.induct)
  case (1 m i n s)
  then show ?case by (subst sort_pass.simps) auto
qed

lemma mset_take_of_drop:
  assumes "mset m' = mset m" "drop n m' = drop n m"
  shows "mset (take n m') = mset (take n m)"
  using assms by (metis add_right_cancel append_take_drop_id mset_append)

lemma sorted_adjacent:
  "(\<forall>j. 0 < j \<longrightarrow> j < length xs \<longrightarrow> xs ! (j - 1) \<le> xs ! j) \<Longrightarrow> sorted xs"
  for xs :: "'a::linorder list"
  by (auto simp: sorted_iff_nth_Suc)

lemma sort_loop_correct:
  "n \<le> length m \<Longrightarrow> \<exists>m'. sort_loop m n = Inr m' \<and> length m' = length m \<and> mset m' = mset m
     \<and> drop n m' = drop n m \<and> sorted (map Start (take n m'))"
proof (induction m n rule: sort_loop.induct)
  case (1 m n)
  obtain m1 s1 where p: "sort_pass m 1 n True = Inr (m1, s1)"
    using sort_pass_total [OF "1.prems"] by (metis surj_pair)
  note pp = sort_pass_props [OF p]
  show ?case
  proof (cases s1)
    case True
    with pp have "m1 = m" and "\<forall>j. 1 \<le> j \<longrightarrow> j < n \<longrightarrow> Start (m ! (j - 1)) \<le> Start (m ! j)" by auto
    then have "sorted (map Start (take n m))"
      using "1.prems" by (intro sorted_adjacent) (auto simp: Suc_le_eq)
    with p True \<open>m1 = m\<close> show ?thesis by (subst sort_loop.simps) simp
  next
    case False
    with pp "1.prems" "1.IH" [OF p refl False] show ?thesis
      using p by (subst sort_loop.simps) auto
  qed
qed

theorem sort_mappings_correct:
  assumes "table_ok d"
  shows "\<exists>d'. sort_mappings d = Inr d' \<and> table_ok d' \<and> same_frame d d'
     \<and> MemoryMapCount d' = MemoryMapCount d
     \<and> mset (entries d') = mset (entries d) \<and> sorted (map Start (entries d'))"
proof -
  from assms have "MemoryMapCount d \<le> length (MemoryMap d)" by (simp add: table_ok_def)
  from sort_loop_correct [OF this] assms show ?thesis
    by (auto simp: sort_mappings_def table_ok_def same_frame_def entries_def intro!: mset_take_of_drop)
qed

subsection \<open>Sliding and removing\<close>

lemma slide_loop_eq:
  "0 < i \<Longrightarrow> i \<le> n \<Longrightarrow> n \<le> length m \<Longrightarrow>
   slide_loop m i n = Inr (take (i - 1) m @ drop i (take n m) @ drop (n - 1) m)"
proof (induction m i n rule: slide_loop.induct)
  case (1 m i n)
  show ?case
  proof (cases "i < n")
    case True
    let ?m = "m[i - 1 := m ! i]"
    have "take i ?m = take (i - 1) m @ [m ! i]"
      using True "1.prems" by (cases i) (auto simp: take_Suc_conv_app_nth list_update_append)
    moreover have "drop i (take n m) = m ! i # drop (Suc i) (take n m)"
      using True "1.prems" by (simp add: Cons_nth_drop_Suc [symmetric])
    ultimately show ?thesis
      using True "1.IH" "1.prems"
      by (subst slide_loop.simps) (auto simp: drop_take drop_update_cancel)
  next
    case False
    with "1.prems" show ?thesis by (subst slide_loop.simps) simp
  qed
qed

lemma slide_entries_correct:
  assumes "table_ok d" "k < MemoryMapCount d"
  shows "\<exists>d'. slide_entries k d = Inr d' \<and> table_ok d' \<and> same_frame d d'
     \<and> MemoryMapCount d' = MemoryMapCount d - 1
     \<and> entries d' = take k (entries d) @ drop (Suc k) (entries d)"
proof -
  let ?n = "MemoryMapCount d" and ?m = "MemoryMap d"
  have n: "?n \<le> length ?m" using assms by (simp add: table_ok_def)
  with assms have s: "slide_loop ?m (k + 1) ?n = Inr (take k ?m @ drop (k + 1) (take ?n ?m) @ drop (?n - 1) ?m)"
    by (subst slide_loop_eq) auto
  have "take (?n - 1) (take k ?m @ drop (k + 1) (take ?n ?m) @ drop (?n - 1) ?m)
      = take k ?m @ drop (k + 1) (take ?n ?m)"
  proof -
    have "length (take k ?m @ drop (k + 1) (take ?n ?m)) = ?n - 1"
      using n assms(2) by simp
    then have "take (?n - 1) ((take k ?m @ drop (k + 1) (take ?n ?m)) @ drop (?n - 1) ?m)
      = take k ?m @ drop (k + 1) (take ?n ?m)"
      by (metis append_eq_conv_conj)
    then show ?thesis by simp
  qed
  with s n assms show ?thesis
    by (auto simp: slide_entries_def table_ok_def same_frame_def entries_def min_def)
qed

lemma remove_dead_loop_correct:
  "table_ok d \<Longrightarrow> i \<le> MemoryMapCount d \<Longrightarrow>
   \<exists>d'. remove_dead_loop i d = Inr d' \<and> table_ok d' \<and> same_frame d d'
      \<and> entries d' = take i (entries d) @ filter (\<lambda>m. MapLength m > 0) (drop i (entries d))"
proof (induction i d rule: remove_dead_loop.induct)
  case (1 i d)
  note ok = "1.prems"(1)
  show ?case
  proof (cases "i < MemoryMapCount d")
    case False
    with "1.prems" show ?thesis
      by (subst remove_dead_loop.simps) (simp add: length_entries)
  next
    case True
    then have len: "\<not> length (MemoryMap d) \<le> i" using ok by (simp add: table_ok_def)
    have dr: "drop i (entries d) = entries d ! i # drop (Suc i) (entries d)"
      using True ok by (simp add: Cons_nth_drop_Suc length_entries)
    have ta: "take (Suc i) (entries d) = take i (entries d) @ [entries d ! i]"
      using True ok by (simp add: take_Suc_conv_app_nth length_entries)
    show ?thesis
    proof (cases "MapLength (MemoryMap d ! i) > 0")
      case live: True
      from "1.IH"(1) [OF True len live ok] True live len show ?thesis
        by (subst remove_dead_loop.simps) (auto simp: dr ta entries_nth)
    next
      case dead: False
      obtain d1 where d1: "slide_entries i d = Inr d1" "table_ok d1" "same_frame d d1"
        "MemoryMapCount d1 = MemoryMapCount d - 1"
        "entries d1 = take i (entries d) @ drop (Suc i) (entries d)"
        using slide_entries_correct [OF ok True] by blast
      have i: "i \<le> MemoryMapCount d1" using True d1(4) by simp
      obtain d2 where d2: "remove_dead_loop i d1 = Inr d2" "table_ok d2" "same_frame d1 d2"
        "entries d2 = take i (entries d1) @ filter (\<lambda>m. MapLength m > 0) (drop i (entries d1))"
        using "1.IH"(2) [OF True len dead d1(1,2) i] by blast
      have "remove_dead_loop i d = Inr d2"
        using True len dead d1(1) d2(1) by (subst remove_dead_loop.simps) simp
      moreover have "entries d2 = take i (entries d) @ filter (\<lambda>m. MapLength m > 0) (drop i (entries d))"
        using d2(4) True dead ok
        by (simp add: d1(5) dr length_entries entries_nth)
      ultimately show ?thesis
        using d2(2) same_frame_trans [OF d1(3) d2(3)] by blast
    qed
  qed
qed

lemma remove_dead_correct:
  assumes "table_ok d"
  shows "\<exists>d'. remove_dead_mappings d = Inr d' \<and> table_ok d' \<and> same_frame d d'
     \<and> entries d' = filter (\<lambda>m. MapLength m > 0) (entries d)"
  using remove_dead_loop_correct [OF assms, of 0] by (simp add: remove_dead_mappings_def)

subsection \<open>Merging and adding\<close>

lemma split_at_two:
  assumes "0 < i" "i < length xs"
  shows "\<exists>as x y bs. xs = as @ x # y # bs \<and> length as = i - 1"
  using list_two_at [OF assms] assms by (metis length_take less_imp_diff_less min.absorb2 order_less_imp_le)

text \<open>What the merge loop keeps of the live entries, with A the set of their addresses.\<close>

definition merge_inv :: "nat set \<Rightarrow> mapping list \<Rightarrow> bool" where
  "merge_inv A ms \<longleftrightarrow> (\<forall>m\<in>set ms. entry_ok m) \<and> sorted (map Start ms) \<and> map_addrs ms = A"

lemma merge_inv_step:
  assumes "merge_inv A (as @ x # y # bs)" "0 \<notin> A \<or> 2 ^ 32 - 1 \<notin> A"
    and "merge_ranges (to_range x) (to_range y) = Inr r"
  shows "merge_inv A (as @ assign_range x r # bs)"
proof -
  have ok: "range_ok (to_range x)" "range_ok (to_range y)"
    using assms(1) by (auto simp: merge_inv_def entry_ok_def)
  have "range_addrs (to_range x) \<union> range_addrs (to_range y) \<subseteq> A"
    using assms(1) by (auto simp: merge_inv_def)
  with assms(2) have "0 \<notin> range_addrs (to_range x) \<union> range_addrs (to_range y)
      \<or> 2 ^ 32 - 1 \<notin> range_addrs (to_range x) \<union> range_addrs (to_range y)" by blast
  note m = merge_ranges_union [OF ok assms(3) this]
  have "Start x \<le> Start y" using assms(1) by (auto simp: merge_inv_def sorted_append)
  with m have st: "Base r = Start x" by (simp add: min_def)
  have tr: "to_range (assign_range x r) = r"
    by (simp add: to_range_def assign_range_def)
  have "Start (assign_range x r) = Start x" "MapLength (assign_range x r) = Length r"
    by (simp_all add: assign_range_def st)
  then show ?thesis
    using assms(1) m by (auto simp: merge_inv_def entry_ok_def tr sorted_append)
qed

lemma merge_loop_correct:
  "table_ok d \<Longrightarrow> 0 < i \<Longrightarrow> merge_inv A (entries d) \<Longrightarrow> 0 \<notin> A \<or> 2 ^ 32 - 1 \<notin> A \<Longrightarrow>
   \<exists>d'. merge_loop i d = Inr d' \<and> table_ok d' \<and> same_frame d d' \<and> merge_inv A (entries d')
      \<and> MemoryMapCount d' \<le> MemoryMapCount d"
proof (induction i d rule: merge_loop.induct)
  case (1 i d)
  note ok = "1.prems"(1) and i0 = "1.prems"(2) and inv = "1.prems"(3) and A = "1.prems"(4)
  let ?last = "to_range (MemoryMap d ! (i - 1))" and ?map = "to_range (MemoryMap d ! i)"
  show ?case
  proof (cases "i < MemoryMapCount d")
    case False
    with inv ok show ?thesis by (subst merge_loop.simps) simp
  next
    case True
    then have len: "\<not> length (MemoryMap d) \<le> i" using ok by (simp add: table_ok_def)
    obtain as x y bs where e: "entries d = as @ x # y # bs" "length as = i - 1"
      using split_at_two [OF i0, of "entries d"] True ok by (auto simp: length_entries)
    have xy: "MemoryMap d ! (i - 1) = x" "MemoryMap d ! i = y"
      using True i0 e by (simp_all add: entries_nth nth_append)
    show ?thesis
    proof (cases "merge_ranges ?last ?map")
      case (Inl err)
      with "1.IH"(1) [OF True len refl refl Inl ok _ inv A] True len show ?thesis
        by (subst merge_loop.simps) (auto simp: Let_def)
    next
      case (Inr r)
      let ?d = "d\<lparr>MemoryMap := (MemoryMap d)[i - 1 := assign_range (MemoryMap d ! (i - 1)) r]\<rparr>"
      have ok': "table_ok ?d" using ok by (simp add: table_ok_def)
      have e': "entries ?d = as @ assign_range x r # y # bs"
        using e i0 True xy
        by (simp add: entries_def take_update_swap) (simp add: entries_def [symmetric] list_update_append)
      obtain d1 where d1: "slide_entries i ?d = Inr d1" "table_ok d1" "same_frame ?d d1"
        "MemoryMapCount d1 = MemoryMapCount d - 1"
        "entries d1 = take i (entries ?d) @ drop (Suc i) (entries ?d)"
        using slide_entries_correct [OF ok', of i] True by auto
      have "entries d1 = as @ assign_range x r # bs"
        using d1(5) e' e(2) i0 by (cases i) auto
      then have inv1: "merge_inv A (entries d1)"
        using merge_inv_step [of A as x y bs r] inv e A Inr xy by simp
      obtain d2 where d2: "merge_loop i d1 = Inr d2" "table_ok d2" "same_frame d1 d2"
        "merge_inv A (entries d2)" "MemoryMapCount d2 \<le> MemoryMapCount d1"
        using "1.IH"(2) [OF True len refl refl Inr d1(1,2) i0 inv1 A] by blast
      have "merge_loop i d = Inr d2"
        using True len Inr d1(1) d2(1) by (subst merge_loop.simps) (simp add: Let_def)
      moreover have "same_frame d ?d" by (simp add: same_frame_def)
      ultimately show ?thesis
        using d1 d2 same_frame_trans by (metis diff_le_self le_trans)
    qed
  qed
qed

lemma merge_contiguous_correct:
  assumes "table_ok d" "\<forall>m\<in>set (entries d). range_ok (to_range m)"
    and "0 \<notin> map_addrs (entries d) \<or> 2 ^ 32 - 1 \<notin> map_addrs (entries d)"
  shows "\<exists>d'. merge_contiguous_mappings d = Inr d' \<and> table_ok d' \<and> same_frame d d'
     \<and> merge_inv (map_addrs (entries d)) (entries d')"
proof -
  let ?A = "map_addrs (entries d)"
  obtain d1 where d1: "sort_mappings d = Inr d1" "table_ok d1" "same_frame d d1"
    "mset (entries d1) = mset (entries d)" "sorted (map Start (entries d1))"
    using sort_mappings_correct [OF assms(1)] by blast
  obtain d2 where d2: "remove_dead_mappings d1 = Inr d2" "table_ok d2" "same_frame d1 d2"
    "entries d2 = filter (\<lambda>m. MapLength m > 0) (entries d1)"
    using remove_dead_correct [OF d1(2)] by blast
  have st: "set (entries d1) = set (entries d)" using d1(4) by (rule mset_eq_setD)
  have "map_addrs (entries d2) = map_addrs (entries d1)"
    by (auto simp: d2(4) map_addrs_def range_addrs_def word_gt_0)
  also have "\<dots> = ?A" using d1(4) by (rule map_addrs_mset)
  finally have "merge_inv ?A (entries d2)"
    using assms(2) st d1(5)
    by (auto simp: merge_inv_def entry_ok_def d2(4) sorted_filter)
  then obtain d3 where d3: "merge_loop 1 d2 = Inr d3" "table_ok d3" "same_frame d2 d3"
    "merge_inv ?A (entries d3)"
    using merge_loop_correct [OF d2(2), of 1 ?A] assms(3) by auto
  with d1 d2 show ?thesis
    unfolding merge_contiguous_mappings_def by (auto intro: same_frame_trans)
qed


subsection \<open>Disjoint mappings\<close>

fun disjoint_maps :: "mapping list \<Rightarrow> bool" where
  "disjoint_maps [] = True"
| "disjoint_maps (x # xs) =
     ((\<forall>y\<in>set xs. range_addrs (to_range x) \<inter> range_addrs (to_range y) = {}) \<and> disjoint_maps xs)"

lemma disjoint_maps_move: "disjoint_maps (as @ y # bs) \<longleftrightarrow> disjoint_maps (y # as @ bs)"
  by (induction as) auto

lemma disjoint_maps_mset: "mset ys = mset xs \<Longrightarrow> disjoint_maps xs \<Longrightarrow> disjoint_maps ys"
proof (induction ys arbitrary: xs)
  case (Cons y ys)
  then have "y \<in> set xs" by (metis list.set_intros(1) set_mset_mset)
  then obtain as bs where xs: "xs = as @ y # bs" by (auto dest: split_list)
  with Cons.prems(1) have m: "mset ys = mset (as @ bs)" by simp
  then have "set ys = set (as @ bs)" by (rule mset_eq_setD)
  with Cons.IH [OF m] Cons.prems(2) show ?case
    unfolding xs disjoint_maps_move by simp
qed simp

lemma disjoint_maps_sub:
  assumes "disjoint_maps (as @ x # bs)" "range_addrs (to_range y) \<subseteq> range_addrs (to_range x)"
  shows "disjoint_maps (as @ y # bs)"
proof -
  have "disjoint_maps (x # as @ bs)" using assms(1) by (simp only: disjoint_maps_move)
  then have "disjoint_maps (y # as @ bs)" using assms(2) by auto
  then show ?thesis by (simp only: disjoint_maps_move)
qed

lemma disjoint_maps_filter: "disjoint_maps ms \<Longrightarrow> disjoint_maps (filter P ms)"
  by (induction ms) auto

subsection \<open>A concrete table\<close>

text \<open>
  A boot block as a loader leaves it: conventional memory and one large extended mapping
  that holds the kernel image.
\<close>

definition sample_args :: argument_data where
  "sample_args = \<lparr>CommandLine = [], BootMagicNumber = 0x2BADB002, LowMemorySizeKByte = 639,
     HighMemorySizeKByte = 64512, KernelStart = 0x101000, KernelEnd = 0x1FFFF0,
     HeapStart = 0x200000, HeapNext = 0x200000, VirtHeapStart = 0xC0200000,
     VirtHeapNext = 0xC0200000, MemoryMapCount = 2,
     MemoryMap = \<lparr>Start = 0x1000, MapLength = 0x9E000, Type = Available\<rparr>
       # \<lparr>Start = 0x100000, MapLength = 0x3F00000, Type = Available\<rparr>
       # replicate 30 \<lparr>Start = 0, MapLength = 0, Type = Invalid\<rparr>,
     FrameBuffer = \<lparr>FbAddress = 0, FbWidth = 0, FbHeight = 0, FbPitch = 0, FbDepth = 0\<rparr>\<rparr>"

lemma sample_entries:
  "entries sample_args = [\<lparr>Start = 0x1000, MapLength = 0x9E000, Type = Available\<rparr>,
     \<lparr>Start = 0x100000, MapLength = 0x3F00000, Type = Available\<rparr>]"
  by (simp add: entries_def sample_args_def numeral_2_eq_2)

lemma sample_table [simp]: "table_ok sample_args" "MemoryMapCount sample_args = 2"
  by (simp_all add: table_ok_def sample_args_def MaxMemoryEntries_def)


end
