(* ===== verification/Knockout.thy ===== *)
theory Knockout
  imports BootArgsFacts
begin

text \<open>
  Correctness of Arguments::KnockoutUsedMemory: on a table of disjoint, non-empty mappings
  with room for a split, exactly the page-aligned kernel range leaves the set of available
  addresses.
\<close>

subsection \<open>One mapping against the kernel range\<close>

definition kernel_span :: "addr \<Rightarrow> addr \<Rightarrow> nat set" where
  "kernel_span ks ke = {unat ks .. unat ke}"

lemma entry_addrs:
  "entry_ok m \<Longrightarrow> range_addrs (to_range m) = {unat (Start m) .. unat (range_end (to_range m))}"
  by (simp add: entry_ok_def range_addrs_end)

lemma entry_end_ge: "entry_ok m \<Longrightarrow> unat (Start m) \<le> unat (range_end (to_range m))"
  using range_end_ge [of "to_range m"] by (simp add: entry_ok_def)

text \<open>The three rewritings of an entry, read as sets of addresses.\<close>

lemma cut_all: "range_addrs (to_range (m\<lparr>MapLength := 0\<rparr>)) = {}"
  by (simp add: to_range_def)

lemma cut_low:
  assumes "Start m < ks"
  shows "range_addrs (to_range (m\<lparr>MapLength := ks - Start m\<rparr>)) = {unat (Start m) ..< unat ks}"
proof -
  have "unat (ks - Start m) = unat ks - unat (Start m)"
    using assms by (simp add: unat_sub_noov word_less_nat_alt)
  then show ?thesis
    using assms by (simp add: range_addrs_def to_range_def word_less_nat_alt)
qed

lemma cut_high:
  assumes "ke < e"
  shows "range_addrs (to_range (m\<lparr>Start := ke + 1, MapLength := e - ke\<rparr>)) = {unat ke <.. unat e}"
proof -
  have "unat (ke + 1) = unat ke + 1"
    using assms unat_lt32 [of e] by (simp add: unat_add_noov word_less_nat_alt)
  moreover have "unat (e - ke) = unat e - unat ke"
    using assms by (simp add: unat_sub_noov word_less_nat_alt)
  ultimately show ?thesis
    using assms by (auto simp: range_addrs_def to_range_def word_less_nat_alt)
qed

text \<open>The same rewritings as differences with the kernel range.\<close>

lemma span_low:
  assumes "entry_ok m" "Start m < ks" "range_end (to_range m) \<le> ke"
  shows "range_addrs (to_range m) - kernel_span ks ke = {unat (Start m) ..< unat ks}
    \<or> range_end (to_range m) < ks"
  using assms by (auto simp: entry_addrs kernel_span_def word_less_nat_alt word_le_nat_alt)

lemma span_high:
  assumes "entry_ok m" "ks \<le> Start m" "Start m \<le> ke"
  shows "range_addrs (to_range m) - kernel_span ks ke = {unat ke <.. unat (range_end (to_range m))}"
  using assms by (auto simp: entry_addrs kernel_span_def word_less_nat_alt word_le_nat_alt)

lemma span_split:
  assumes "entry_ok m" "Start m < ks" "ke < range_end (to_range m)" "ks \<le> ke"
  shows "range_addrs (to_range m) - kernel_span ks ke
       = {unat (Start m) ..< unat ks} \<union> {unat ke <.. unat (range_end (to_range m))}"
    and "kernel_span ks ke \<subseteq> range_addrs (to_range m)"
  using assms by (auto simp: entry_addrs kernel_span_def word_less_nat_alt word_le_nat_alt)

lemma diff_cons: "map_addrs (x # cs) - K = (range_addrs (to_range x) - K) \<union> (map_addrs cs - K)"
  by (simp add: Un_Diff)

subsection \<open>Entries under an update\<close>

lemma entries_set_entry:
  assumes "entries d = as @ x # bs"
  shows "entries (set_entry (length as) f d) = as @ f x # bs"
proof -
  have l: "length as < MemoryMapCount d" using assms
    by (metis add_less_cancel_left entries_def length_append length_Cons length_take min.cobounded2
        less_le_trans zero_less_Suc add.right_neutral)
  then have x: "MemoryMap d ! length as = x"
    using assms by (simp add: entries_nth)
  have "entries (set_entry (length as) f d) = (entries d)[length as := f x]"
    by (simp add: entries_def set_entry_def x take_update_swap)
  then show ?thesis by (simp add: assms list_update_append)
qed

lemma table_ok_set_entry [simp]: "table_ok (set_entry i f d) \<longleftrightarrow> table_ok d"
  by (simp add: table_ok_def set_entry_def)

lemma same_frame_set_entry [simp]: "same_frame d (set_entry i f d)"
  by (simp add: same_frame_def set_entry_def)

lemma entries_append_new:
  assumes "table_ok d" "MemoryMapCount d < MaxMemoryEntries"
  shows "\<exists>m. entries (set_entry (MemoryMapCount d) f (d\<lparr>MemoryMapCount := MemoryMapCount d + 1\<rparr>))
           = entries d @ [f m]"
proof
  show "entries (set_entry (MemoryMapCount d) f (d\<lparr>MemoryMapCount := MemoryMapCount d + 1\<rparr>))
      = entries d @ [f (MemoryMap d ! MemoryMapCount d)]"
    using assms by (simp add: entries_def set_entry_def table_ok_def take_Suc_conv_app_nth)
qed

subsection \<open>The loop\<close>

definition knock_pre :: "mapping list \<Rightarrow> bool" where
  "knock_pre ms \<longleftrightarrow> (\<forall>m\<in>set ms. entry_ok m) \<and> sorted (map Start ms) \<and> disjoint_maps ms"

lemma knock_pre_Cons:
  "knock_pre (x # xs) \<Longrightarrow> entry_ok x \<and> knock_pre xs
     \<and> (\<forall>y\<in>set xs. Start x \<le> Start y \<and> entry_ok y)
     \<and> range_addrs (to_range x) \<inter> map_addrs xs = {}"
  by (auto simp: knock_pre_def map_addrs_def)

lemma map_addrs_above:
  assumes "\<forall>y\<in>set xs. entry_ok y \<and> ke < Start y"
  shows "map_addrs xs - kernel_span ks ke = map_addrs xs"
  using assms by (force simp: map_addrs_def entry_addrs kernel_span_def word_less_nat_alt)

lemma knockout_loop_correct:
  "table_ok d \<Longrightarrow> MemoryMapCount d + 1 < MaxMemoryEntries \<Longrightarrow> ks \<le> ke \<Longrightarrow>
   entries d = as @ bs \<Longrightarrow> i = length as \<Longrightarrow> knock_pre bs \<Longrightarrow>
   \<exists>d'. knockout_loop ks ke i d = Inr d' \<and> table_ok d' \<and> same_frame d d'
      \<and> map_addrs (entries d') = map_addrs as \<union> (map_addrs bs - kernel_span ks ke)"
proof (induction bs arbitrary: d as i)
  case Nil
  then have "\<not> i < MemoryMapCount d" using length_entries by fastforce
  with Nil show ?case by (subst knockout_loop.simps) simp
next
  case (Cons x cs)
  note ok = Cons.prems(1) and room = Cons.prems(2) and le = Cons.prems(3) and e = Cons.prems(4)
    and i = Cons.prems(5) and pre = Cons.prems(6)
  have c: "i < MemoryMapCount d" using e i ok length_entries [OF ok] by simp
  have len: "\<not> length (MemoryMap d) \<le> i" using c ok by (simp add: table_ok_def)
  have x: "MemoryMap d ! i = x" using c e i by (simp add: entries_nth)
    let ?e = "range_end (to_range x)"
    have xok: "entry_ok x" and cpre: "knock_pre cs"
      and above: "\<forall>y\<in>set cs. Start x \<le> Start y \<and> entry_ok y"
      and disj: "range_addrs (to_range x) \<inter> map_addrs cs = {}"
      using knock_pre_Cons [OF pre] by auto
    note xa = entry_addrs [OF xok] and xe = entry_end_ge [OF xok]
    note nat = word_less_nat_alt word_le_nat_alt kernel_span_def
    have step: "\<exists>d'. knockout_loop ks ke (i + 1) (set_entry i f d) = Inr d' \<and> table_ok d'
        \<and> same_frame d d'
        \<and> map_addrs (entries d') = map_addrs as \<union> range_addrs (to_range (f x))
            \<union> (map_addrs cs - kernel_span ks ke)" for f
      using Cons.IH [of "set_entry i f d" "as @ [f x]" "i + 1"] ok room le e i cpre
        entries_set_entry [OF e, of f] same_frame_trans [OF same_frame_set_entry]
      by fastforce
    consider (below) "?e < ks" | (past) "\<not> ?e < ks" "Start x > ke"
      | (inside) "\<not> ?e < ks" "\<not> Start x > ke" "\<not> ks > Start x" "\<not> ke < ?e"
      | (low) "\<not> ?e < ks" "\<not> Start x > ke" "ks > Start x" "\<not> ke < ?e"
      | (high) "\<not> ?e < ks" "\<not> Start x > ke" "\<not> ks > Start x" "ke < ?e"
      | (split) "\<not> ?e < ks" "\<not> Start x > ke" "ks > Start x" "ke < ?e"
      by blast
    then show ?case
    proof cases
      case below
      have "knockout_loop ks ke i d = knockout_loop ks ke (i + 1) d"
        using c len below x by (subst knockout_loop.simps) (simp add: Let_def)
      moreover have "range_addrs (to_range x) - kernel_span ks ke = range_addrs (to_range x)"
        using below xa by (auto simp: nat)
      ultimately show ?thesis
        using Cons.IH [OF ok room le, of "as @ [x]" "i + 1"] e i cpre by (auto simp: Un_Diff)
    next
      case past
      have "\<forall>y\<in>set (x # cs). entry_ok y \<and> ke < Start y"
        using past above xok by (auto simp: less_le_trans)
      from map_addrs_above [OF this] past c len x e ok show ?thesis
        by (subst knockout_loop.simps) (simp add: Let_def)
    next
      case inside
      have "knockout_loop ks ke i d = knockout_loop ks ke (i + 1) (set_entry i (MapLength_update (\<lambda>_. 0)) d)"
        using c len inside x by (subst knockout_loop.simps) (simp add: Let_def)
      moreover have "map_addrs (x # cs) - kernel_span ks ke = map_addrs cs - kernel_span ks ke"
        using inside xa by (auto simp: nat)
      ultimately show ?thesis
        using step [of "MapLength_update (\<lambda>_. 0)"] cut_all [of x] by simp
    next
      case low
      have "knockout_loop ks ke i d = knockout_loop ks ke (i + 1) (set_entry i (MapLength_update (\<lambda>_. ks - Start x)) d)"
        using c len low x by (subst knockout_loop.simps) (simp add: Let_def)
      moreover have "range_addrs (to_range x) - kernel_span ks ke = {unat (Start x) ..< unat ks}"
        using span_low [OF xok low(3), of ke] low by simp
      ultimately show ?thesis
        unfolding diff_cons
        using step [of "MapLength_update (\<lambda>_. ks - Start x)"] cut_low [OF low(3)]
        by (simp only: Un_assoc)
    next
      case high
      have "knockout_loop ks ke i d = knockout_loop ks ke (i + 1)
          (set_entry i (\<lambda>m. m\<lparr>Start := ke + 1, MapLength := ?e - ke\<rparr>) d)"
        using c len high x by (subst knockout_loop.simps) (simp add: Let_def)
      moreover have "range_addrs (to_range x) - kernel_span ks ke = {unat ke <.. unat ?e}"
        using span_high [OF xok, of ks ke] high by simp
      ultimately show ?thesis
        unfolding diff_cons
        using step [of "\<lambda>m. m\<lparr>Start := ke + 1, MapLength := ?e - ke\<rparr>"] cut_high [OF high(4), of x]
        by (simp only: Un_assoc)
    next
      case split
      let ?f = "MapLength_update (\<lambda>_. ks - Start x)"
      let ?g = "\<lambda>m. m\<lparr>Start := ke + 1, MapLength := ?e - ke\<rparr>"
      let ?d1 = "set_entry i ?f d"
      let ?d2 = "set_entry (MemoryMapCount ?d1) ?g (?d1\<lparr>MemoryMapCount := MemoryMapCount ?d1 + 1\<rparr>)"
      have len1: "\<not> length (MemoryMap ?d1) \<le> MemoryMapCount ?d1"
        using ok room by (simp add: table_ok_def set_entry_def)
      have "knockout_loop ks ke i d = Inr ?d2"
        using c len split x room len1 by (subst knockout_loop.simps) (simp add: Let_def)
      moreover obtain m where "entries ?d2 = entries ?d1 @ [?g m]"
        using entries_append_new [of ?d1 ?g] ok room by auto
      moreover have "entries ?d1 = as @ ?f x # cs"
        using entries_set_entry [OF e, of ?f] i by simp
      moreover have "map_addrs cs - kernel_span ks ke = map_addrs cs"
        using span_split(2) [OF xok split(3,4) le] disj by blast
      moreover have "table_ok ?d2" "same_frame d ?d2"
        using ok room by (auto simp: table_ok_def set_entry_def same_frame_def)
      ultimately show ?thesis
        unfolding diff_cons span_split(1) [OF xok split(3,4) le]
        using cut_low [OF split(3)] cut_high [OF split(4), of m] by (simp add: Un_ac)
    qed
qed

text \<open>The loop keeps the mappings well-formed and apart from each other.\<close>

definition maps_ok :: "argument_data \<Rightarrow> bool" where
  "maps_ok d \<longleftrightarrow> table_ok d \<and> (\<forall>m\<in>set (entries d). range_ok (to_range m)) \<and> disjoint_maps (entries d)"

definition rest_ok :: "nat \<Rightarrow> argument_data \<Rightarrow> bool" where
  "rest_ok i d \<longleftrightarrow> (\<forall>j. i \<le> j \<and> j < MemoryMapCount d \<longrightarrow> entry_ok (MemoryMap d ! j))"

lemma maps_ok_update:
  assumes "maps_ok d" "i < MemoryMapCount d"
    and "range_addrs (to_range (f (MemoryMap d ! i))) \<subseteq> range_addrs (to_range (MemoryMap d ! i))"
    and "range_ok (to_range (f (MemoryMap d ! i)))"
  shows "maps_ok (set_entry i f d)"
proof -
  let ?as = "take i (entries d)" and ?bs = "drop (Suc i) (entries d)"
  have l: "i < length (entries d)" using assms(1,2) length_entries by (simp add: maps_ok_def)
  then have e: "entries d = ?as @ MemoryMap d ! i # ?bs"
    using id_take_nth_drop [OF l] entries_nth [OF assms(2)] by simp
  have "entries (set_entry i f d) = ?as @ f (MemoryMap d ! i) # ?bs"
    using entries_set_entry [OF e, of f] l by simp
  moreover have "disjoint_maps (?as @ f (MemoryMap d ! i) # ?bs)"
    using disjoint_maps_sub [OF _ assms(3)] assms(1) e unfolding maps_ok_def by metis
  moreover have "\<forall>m\<in>set (?as @ ?bs). range_ok (to_range m)"
    using assms(1) e unfolding maps_ok_def by (metis Un_iff set_append list.set_intros(2))
  ultimately show ?thesis using assms(1,4) by (auto simp: maps_ok_def)
qed

lemma rest_ok_update: "rest_ok i d \<Longrightarrow> rest_ok (i + 1) (set_entry i f d)"
  by (auto simp: rest_ok_def set_entry_def nth_list_update_neq)

lemma cut_ok:
  "Start m < ks \<Longrightarrow> range_ok (to_range (m\<lparr>MapLength := ks - Start m\<rparr>))"
  "ke < e \<Longrightarrow> range_ok (to_range (m\<lparr>Start := ke + 1, MapLength := e - ke\<rparr>))"
proof -
  show "range_ok (to_range (m\<lparr>MapLength := ks - Start m\<rparr>))" if "Start m < ks"
    using that unat_lt32 [of ks] by (simp add: range_ok_def unat_sub_noov word_less_nat_alt)
  show "range_ok (to_range (m\<lparr>Start := ke + 1, MapLength := e - ke\<rparr>))" if "ke < e"
  proof -
    have "unat (ke + 1) = unat ke + 1"
      using that unat_lt32 [of e] by (simp add: unat_add_noov word_less_nat_alt)
    then show ?thesis using that unat_lt32 [of e] by (simp add: range_ok_def unat_sub_noov word_less_nat_alt)
  qed
qed

lemma knockout_loop_maps_ok:
  "maps_ok d \<Longrightarrow> rest_ok i d \<Longrightarrow> ks \<le> ke \<Longrightarrow> knockout_loop ks ke i d = Inr d' \<Longrightarrow> maps_ok d'"
proof (induction "MemoryMapCount d - i" arbitrary: i d rule: less_induct)
  case less
  show ?case
  proof (cases "i < MemoryMapCount d \<and> \<not> length (MemoryMap d) \<le> i")
    case False
    then show ?thesis using less.prems(1,4) by (subst (asm) knockout_loop.simps) (auto split: if_splits)
  next
    case True
    let ?m = "MemoryMap d ! i" and ?e = "range_end (to_range (MemoryMap d ! i))"
    have c: "i < MemoryMapCount d" "\<not> length (MemoryMap d) \<le> i" using True by simp_all
    have ok: "entry_ok ?m" using less.prems(2) c(1) by (simp add: rest_ok_def)
    note xa = entry_addrs [OF ok] and nat = word_less_nat_alt word_le_nat_alt
    have next_ok: "maps_ok d'" if "knockout_loop ks ke (i + 1) (set_entry i f d) = Inr d'"
      "range_addrs (to_range (f ?m)) \<subseteq> range_addrs (to_range ?m)" "range_ok (to_range (f ?m))" for f
      using less.hyps [of "set_entry i f d" "i + 1"] that c(1) maps_ok_update [where f = f, OF less.prems(1) c(1) that(2,3)]
        rest_ok_update [OF less.prems(2)] less.prems(3) by simp
    have skip: "maps_ok d'" if "knockout_loop ks ke (i + 1) d = Inr d'"
    proof -
      have "rest_ok (i + 1) d" using less.prems(2) by (simp add: rest_ok_def)
      then show ?thesis using less.hyps [of d "i + 1"] that c(1) less.prems(1,3) by simp
    qed
    consider (below) "?e < ks" | (past) "\<not> ?e < ks" "Start ?m > ke"
      | (inside) "\<not> ?e < ks" "\<not> Start ?m > ke" "\<not> ks > Start ?m" "\<not> ke < ?e"
      | (low) "\<not> ?e < ks" "\<not> Start ?m > ke" "ks > Start ?m" "\<not> ke < ?e"
      | (high) "\<not> ?e < ks" "\<not> Start ?m > ke" "\<not> ks > Start ?m" "ke < ?e"
      | (split) "\<not> ?e < ks" "\<not> Start ?m > ke" "ks > Start ?m" "ke < ?e"
      by blast
    then show ?thesis
    proof cases
      case below
      then show ?thesis using less.prems(4) c skip by (subst (asm) knockout_loop.simps) (simp add: Let_def)
    next
      case past
      then show ?thesis using less.prems(1,4) c by (subst (asm) knockout_loop.simps) (simp add: Let_def)
    next
      case inside
      have "knockout_loop ks ke (i + 1) (set_entry i (MapLength_update (\<lambda>_. 0)) d) = Inr d'"
        using less.prems(4) c inside by (subst (asm) knockout_loop.simps) (simp add: Let_def)
      then show ?thesis
        by (rule next_ok) (use unat_lt32 [of "Start ?m"] in \<open>simp_all add: range_ok_def range_addrs_def\<close>)
    next
      case low
      have "knockout_loop ks ke (i + 1) (set_entry i (MapLength_update (\<lambda>_. ks - Start ?m)) d) = Inr d'"
        using less.prems(4) c low by (subst (asm) knockout_loop.simps) (simp add: Let_def)
      moreover have "range_addrs (to_range (MapLength_update (\<lambda>_. ks - Start ?m) ?m)) \<subseteq> range_addrs (to_range ?m)"
        unfolding cut_low [OF low(3)] xa using low by (auto simp: nat)
      ultimately show ?thesis using cut_ok(1) [OF low(3)] by (rule next_ok)
    next
      case high
      have "knockout_loop ks ke (i + 1) (set_entry i (\<lambda>m. m\<lparr>Start := ke + 1, MapLength := ?e - ke\<rparr>) d) = Inr d'"
        using less.prems(4) c high by (subst (asm) knockout_loop.simps) (simp add: Let_def)
      moreover have "range_addrs (to_range (?m\<lparr>Start := ke + 1, MapLength := ?e - ke\<rparr>)) \<subseteq> range_addrs (to_range ?m)"
        unfolding cut_high [OF high(4)] xa using high by (auto simp: nat)
      ultimately show ?thesis using cut_ok(2) [OF high(4)] by (rule next_ok)
    next
      case split
      let ?f = "MapLength_update (\<lambda>_. ks - Start ?m)"
      let ?g = "\<lambda>m. m\<lparr>Start := ke + 1, MapLength := ?e - ke\<rparr>"
      let ?d1 = "set_entry i ?f d"
      let ?d2 = "set_entry (MemoryMapCount ?d1) ?g (?d1\<lparr>MemoryMapCount := MemoryMapCount ?d1 + 1\<rparr>)"
      have d2: "d' = ?d2" "MemoryMapCount ?d1 + 1 < MaxMemoryEntries"
        using less.prems(4) c split by (subst (asm) knockout_loop.simps, simp add: Let_def split: if_splits)+
      have sub: "range_addrs (to_range (?f ?m)) \<subseteq> range_addrs (to_range ?m)"
        unfolding cut_low [OF split(3)] xa using split by (auto simp: nat)
      have ok1: "maps_ok ?d1" by (rule maps_ok_update [where f = ?f, OF less.prems(1) c(1) sub cut_ok(1) [OF split(3)]])
      then have "table_ok ?d1" by (simp add: maps_ok_def)
      then obtain m where e: "entries ?d2 = entries ?d1 @ [?g m]"
        using entries_append_new [of ?d1 ?g] d2(2) by auto
      have "disjoint_maps (?g m # entries ?d1)"
      proof -
        let ?as = "take i (entries d)" and ?bs = "drop (Suc i) (entries d)"
        have l: "i < length (entries d)" using less.prems(1) c(1) length_entries by (simp add: maps_ok_def)
        then have ed: "entries d = ?as @ ?m # ?bs" using id_take_nth_drop [OF l] entries_nth [OF c(1)] by simp
        have e1: "entries ?d1 = ?as @ ?f ?m # ?bs" using entries_set_entry [OF ed, of ?f] l by simp
        have "disjoint_maps (?as @ ?m # ?bs)" using less.prems(1) ed by (simp add: maps_ok_def)
        then have "disjoint_maps (?m # ?as @ ?bs)" by (simp only: disjoint_maps_move)
        then have away: "\<forall>y\<in>set (?as @ ?bs). range_addrs (to_range ?m) \<inter> range_addrs (to_range y) = {}" by simp
        have g: "range_addrs (to_range (?g m)) = {unat ke <.. unat ?e}" by (rule cut_high [OF split(4)])
        then have gsub: "range_addrs (to_range (?g m)) \<subseteq> range_addrs (to_range ?m)"
          unfolding xa using split by (auto simp: nat)
        have "range_addrs (to_range (?g m)) \<inter> range_addrs (to_range (?f ?m)) = {}"
          unfolding g cut_low [OF split(3)] using less.prems(3) by (auto simp: nat)
        then have "\<forall>y\<in>set (entries ?d1). range_addrs (to_range (?g m)) \<inter> range_addrs (to_range y) = {}"
          unfolding e1 using away gsub by auto
        then show ?thesis using ok1 by (simp add: maps_ok_def)
      qed
      then have "disjoint_maps (entries ?d2)" unfolding e using disjoint_maps_move [of "entries ?d1" "?g m" "[]"] by simp
      moreover have "table_ok ?d2" using \<open>table_ok ?d1\<close> d2(2) by (simp add: table_ok_def set_entry_def)
      ultimately show ?thesis using ok1 cut_ok(2) [OF split(4), of m] unfolding d2(1) maps_ok_def e by simp
    qed
  qed
qed

subsection \<open>The operation\<close>



end
