(* ===== verification/SpinLock.thy ===== *)
theory SpinLock
  imports Prelude
begin

text \<open>
  The atomic instructions of arch/x86 and arch/i386 (atomic_base.h, atomic.h), the spin lock
  of kernel/thread/spinlock.h with its guard, and the stack of kernel/utils/stack.h that it
  protects. The lock is modelled twice: as the sequential operation, where waiting for a lock
  that nobody releases does not return, and as a step relation over any number of threads.
\<close>

subsection \<open>Atomic instructions\<close>

text \<open>
  The result of each function together with the contents of the memory operand afterwards.
\<close>

definition atomic_xchg :: "'a::len word \<Rightarrow> 'a word \<Rightarrow> 'a word \<times> 'a word" where
  "atomic_xchg mem val = (mem, val)"

text \<open>
  cmpxchg compares the accumulator with the memory operand, stores the source on equality
  and loads the operand into the accumulator otherwise: zero flag, memory, accumulator.
\<close>

definition cmpxchg :: "'a::len word \<Rightarrow> 'a word \<Rightarrow> 'a word \<Rightarrow> bool \<times> 'a word \<times> 'a word" where
  "cmpxchg mem acc src = (if mem = acc then (True, src, acc) else (False, mem, mem))"

text \<open>
  The 8, 16 and 32-bit cmpset name the parameter addr itself as the memory operand, not the
  location it points to, so the comparison reads the low part of the pointer and the
  pointed-to memory is never accessed.
\<close>

definition atomic_cmpset :: "addr \<Rightarrow> 'a::len word \<Rightarrow> 'a word \<Rightarrow> 'a word \<Rightarrow> bool \<times> 'a word" where
  "atomic_cmpset addr mem expected val =
     (let (result, addr', expected') = cmpxchg (ucast addr) expected val in (result, mem))"

text \<open>The 64-bit version of the i386 build, with the location as the operand of cmpxchg8b.\<close>

definition atomic_cmpset64 :: "u64 \<Rightarrow> u64 \<Rightarrow> u64 \<Rightarrow> bool \<times> u64" where
  "atomic_cmpset64 mem expected val =
     (let (result, mem', expected') = cmpxchg mem expected val in (result, mem'))"

text \<open>xchg and store retry cmpxchg8b until it succeeds, starting from the new value itself.\<close>

function xchg64_loop :: "u64 \<Rightarrow> u64 \<Rightarrow> u64 \<Rightarrow> u64 \<times> u64" where
  "xchg64_loop mem acc val =
     (let (zf, mem', acc') = cmpxchg mem acc val
      in if zf then (acc', mem') else xchg64_loop mem' acc' val)"
  by pat_completeness auto
termination
  by (relation "measure (\<lambda>(mem, acc, val). if mem = acc then 0 else 1)")
    (auto simp: cmpxchg_def split: if_splits)

declare xchg64_loop.simps [simp del]

definition atomic_xchg64 :: "u64 \<Rightarrow> u64 \<Rightarrow> u64 \<times> u64" where
  "atomic_xchg64 mem val = xchg64_loop mem val val"

definition atomic_store64 :: "u64 \<Rightarrow> u64 \<Rightarrow> u64" where
  "atomic_store64 mem val = snd (xchg64_loop mem val val)"

definition atomic_load64 :: "u64 \<Rightarrow> u64 \<Rightarrow> u64 \<times> u64" where
  "atomic_load64 ecx_ebx mem =
     (let (zf, mem', acc') = cmpxchg mem ecx_ebx ecx_ebx in (acc', mem'))"

definition atomic_store :: "'a::len word \<Rightarrow> 'a word \<Rightarrow> 'a word" where
  "atomic_store mem val = val"

definition atomic_load :: "'a::len word \<Rightarrow> 'a word" where "atomic_load mem = mem"

subsection \<open>The lock\<close>

definition lock_init :: u8 where "lock_init = 0"

definition try_lock :: "u8 \<Rightarrow> bool \<times> u8" where
  "try_lock v = (let (old, v') = atomic_xchg v 1 in (old = 0, v'))"

partial_function (option) spin_lock :: "u8 \<Rightarrow> u8 option" where
  "spin_lock v = (let (ok, v') = try_lock v in if ok then Some v' else spin_lock v')"

definition spin_unlock :: "u8 \<Rightarrow> u8" where "spin_unlock v = atomic_store v 0"

text \<open>LockGuard: acquire, run the guarded block, release when it leaves its scope.\<close>

definition guarded :: "u8 \<Rightarrow> (u8 \<Rightarrow> 'a) \<Rightarrow> ('a \<times> u8) option" where
  "guarded v body = (case spin_lock v of None \<Rightarrow> None | Some v' \<Rightarrow> Some (body v', spin_unlock v'))"

lemma xchg64_loop_eq: "xchg64_loop mem acc val = (mem, val)"
  by (subst xchg64_loop.simps, subst xchg64_loop.simps) (auto simp: cmpxchg_def)

lemma atomic64_simps:
  "atomic_xchg64 mem val = (mem, val)" "atomic_store64 mem val = val"
  "atomic_load64 r mem = (mem, mem)"
  "atomic_cmpset64 mem e val = (mem = e, if mem = e then val else mem)"
  by (auto simp: atomic_xchg64_def atomic_store64_def atomic_load64_def atomic_cmpset64_def
      xchg64_loop_eq cmpxchg_def)

text \<open>The interface LockGuard requires of its lock (concept BasicLock).\<close>

locale basic_lock =
  fixes free :: "'l \<Rightarrow> bool"
    and tryl :: "'l \<Rightarrow> bool \<times> 'l"
    and lock :: "'l \<Rightarrow> 'l option"
    and unlock :: "'l \<Rightarrow> 'l"
  assumes try_free: "free l \<Longrightarrow> fst (tryl l) \<and> \<not> free (snd (tryl l))"
    and try_held: "\<not> free l \<Longrightarrow> \<not> fst (tryl l) \<and> \<not> free (snd (tryl l))"
    and lock_iff: "(\<exists>l'. lock l = Some l') \<longleftrightarrow> free l"
    and lock_try: "lock l = Some l' \<Longrightarrow> tryl l = (True, l')"
    and unlock_free: "free (unlock l)"
begin

lemma lock_held_diverges: "\<not> free l \<Longrightarrow> lock l = None"
  using lock_iff by (cases "lock l") auto

lemma lock_takes: "lock l = Some l' \<Longrightarrow> \<not> free l' \<and> \<not> fst (tryl l')"
  using lock_iff [of l] lock_try [of l l'] try_free [of l] try_held [of l'] by auto

lemma relock_diverges: "lock l = Some l' \<Longrightarrow> lock l' = None"
  using lock_takes lock_held_diverges by blast

lemma cycle: "free l \<Longrightarrow> \<exists>l'. lock l = Some l' \<and> free (unlock l') \<and> (\<exists>l''. lock (unlock l') = Some l'')"
  using lock_iff unlock_free by blast

end

lemma spin_lock_free: "spin_lock 0 = Some 1"
  by (subst spin_lock.simps) (simp add: try_lock_def atomic_xchg_def)

lemma spin_lock_Some: "spin_lock v = Some w \<Longrightarrow> v = 0"
proof (rule spin_lock.raw_induct [where P = "\<lambda>v w. v = 0"])
  fix f :: "u8 \<Rightarrow> u8 option" and v w
  assume ih: "\<And>v w. f v = Some w \<Longrightarrow> v = 0"
    and r: "(let (ok, v') = try_lock v in if ok then Some v' else f v') = Some w"
  show "v = 0"
  proof (rule ccontr)
    assume "v \<noteq> 0"
    with r have "f 1 = Some w" by (simp add: try_lock_def atomic_xchg_def)
    then have "(1 :: u8) = 0" by (rule ih)
    then show False by simp
  qed
qed

lemma spin_lock_iff: "spin_lock v = (if v = 0 then Some 1 else None)"
  using spin_lock_free spin_lock_Some [of v] by (cases "spin_lock v") auto

interpretation spin: basic_lock "\<lambda>v. v = 0" try_lock spin_lock spin_unlock
  by unfold_locales
    (auto simp: try_lock_def atomic_xchg_def spin_lock_iff spin_unlock_def atomic_store_def
      split: if_splits)

subsection \<open>Any number of threads\<close>

datatype phase = Outside | Spinning | Inside

record lock_state =
  lock_value :: u8
  phase_of :: "nat \<Rightarrow> phase"

inductive lock_step :: "lock_state \<Rightarrow> lock_state \<Rightarrow> bool" where
  request: "phase_of s t = Outside \<Longrightarrow> lock_step s (s\<lparr>phase_of := (phase_of s)(t := Spinning)\<rparr>)"
| acquire: "phase_of s t = Spinning \<Longrightarrow> try_lock (lock_value s) = (True, v) \<Longrightarrow>
    lock_step s (s\<lparr>lock_value := v, phase_of := (phase_of s)(t := Inside)\<rparr>)"
| spin: "phase_of s t = Spinning \<Longrightarrow> try_lock (lock_value s) = (False, v) \<Longrightarrow>
    lock_step s (s\<lparr>lock_value := v\<rparr>)"
| release: "phase_of s t = Inside \<Longrightarrow>
    lock_step s (s\<lparr>lock_value := spin_unlock (lock_value s), phase_of := (phase_of s)(t := Outside)\<rparr>)"

inductive lock_reachable :: "lock_state \<Rightarrow> bool" where
  start: "lock_reachable \<lparr>lock_value = lock_init, phase_of = (\<lambda>_. Outside)\<rparr>"
| step: "lock_reachable s \<Longrightarrow> lock_step s s' \<Longrightarrow> lock_reachable s'"

definition lock_inv :: "lock_state \<Rightarrow> bool" where
  "lock_inv s \<longleftrightarrow>
     (lock_value s = 0 \<longrightarrow> (\<forall>t. phase_of s t \<noteq> Inside)) \<and>
     (lock_value s \<noteq> 0 \<longrightarrow> (\<exists>!t. phase_of s t = Inside))"

lemmas lock_defs = try_lock_def atomic_xchg_def spin_unlock_def atomic_store_def lock_init_def

lemma lock_inv_step: "lock_step s s' \<Longrightarrow> lock_inv s \<Longrightarrow> lock_inv s'"
proof (induction rule: lock_step.induct)
  case (acquire s t v)
  then have "\<forall>u. phase_of s u \<noteq> Inside" "v = 1" by (auto simp: lock_inv_def lock_defs)
  then show ?case by (auto simp: lock_inv_def)
next
  case (spin s t v)
  then have "lock_value s \<noteq> 0" "v = 1" by (auto simp: lock_defs split: if_splits)
  with spin show ?case by (auto simp: lock_inv_def)
next
  case (release s t)
  then have "\<exists>!t. phase_of s t = Inside" by (auto simp: lock_inv_def)
  with release show ?case by (auto simp: lock_inv_def lock_defs)
next
  case (request s t)
  then have "\<And>u. ((phase_of s)(t := Spinning)) u = Inside \<longleftrightarrow> phase_of s u = Inside" by auto
  with request show ?case by (simp add: lock_inv_def)
qed

lemma lock_inv_reachable: "lock_reachable s \<Longrightarrow> lock_inv s"
proof (induction rule: lock_reachable.induct)
  case start
  show ?case by (simp add: lock_inv_def lock_init_def)
qed (rule lock_inv_step)

text \<open>
  C17: in every reachable state at most one thread is inside the section the lock guards; the
  lock byte is zero exactly when none is; and then every waiting thread can enter with its
  next attempt.
\<close>

theorem spinlock_mutual_exclusion:
  assumes "lock_reachable s"
  shows "(phase_of s t = Inside \<and> phase_of s u = Inside \<longrightarrow> t = u)
     \<and> (lock_value s = 0 \<longleftrightarrow> (\<forall>t. phase_of s t \<noteq> Inside))
     \<and> (lock_value s = 0 \<and> phase_of s t = Spinning \<longrightarrow>
          (\<exists>s'. lock_step s s' \<and> phase_of s' t = Inside \<and> lock_value s' \<noteq> 0))"
proof (intro conjI impI)
  have i: "lock_inv s" using assms by (rule lock_inv_reachable)
  then show "lock_value s = 0 \<longleftrightarrow> (\<forall>t. phase_of s t \<noteq> Inside)" by (auto simp: lock_inv_def)
  show "phase_of s t = Inside \<and> phase_of s u = Inside \<Longrightarrow> t = u"
    using i by (auto simp: lock_inv_def)
  assume "lock_value s = 0 \<and> phase_of s t = Spinning"
  then have "lock_step s (s\<lparr>lock_value := 1, phase_of := (phase_of s)(t := Inside)\<rparr>)"
    by (intro lock_step.acquire) (auto simp: lock_defs)
  moreover have "phase_of (s\<lparr>lock_value := 1, phase_of := (phase_of s)(t := Inside)\<rparr>) t = Inside"
    "lock_value (s\<lparr>lock_value := 1, phase_of := (phase_of s)(t := Inside)\<rparr>) \<noteq> 0" by simp_all
  ultimately show "\<exists>s'. lock_step s s' \<and> phase_of s' t = Inside \<and> lock_value s' \<noteq> 0" by blast
qed

definition one_inside :: lock_state where
  "one_inside = \<lparr>lock_value = 1, phase_of = (\<lambda>_. Outside)(0 := Inside)\<rparr>"

lemma one_inside_reachable: "lock_reachable one_inside"
proof -
  let ?s0 = "\<lparr>lock_value = lock_init, phase_of = (\<lambda>_. Outside)\<rparr>"
  let ?s1 = "?s0\<lparr>phase_of := (phase_of ?s0)(0 := Spinning)\<rparr>"
  have "lock_step ?s0 ?s1" by (rule lock_step.request) simp
  then have "lock_reachable ?s1" using lock_reachable.start lock_reachable.step by blast
  moreover have "lock_step ?s1 (?s1\<lparr>lock_value := 1, phase_of := (phase_of ?s1)(0 := Inside)\<rparr>)"
    by (rule lock_step.acquire) (simp_all add: lock_defs)
  ultimately have "lock_reachable (?s1\<lparr>lock_value := 1, phase_of := (phase_of ?s1)(0 := Inside)\<rparr>)"
    by (rule lock_reachable.step)
  then show ?thesis by (simp add: one_inside_def)
qed

theorem spinlock_mutual_exclusion_witness: "lock_value one_inside \<noteq> 0"
  using spinlock_mutual_exclusion [OF one_inside_reachable, of 0 0]
  by (auto simp: one_inside_def)

subsection \<open>The guarded stack\<close>

record stack =
  s_mutex :: u8
  s_first :: addr
  s_next :: "addr \<Rightarrow> addr"

definition stack_init :: "stack \<Rightarrow> stack" where
  "stack_init s = s\<lparr>s_mutex := lock_init, s_first := 0\<rparr>"

definition stack_empty :: "stack \<Rightarrow> bool" where "stack_empty s \<longleftrightarrow> s_first s = 0"

definition stack_pop :: "stack \<Rightarrow> (addr \<times> stack) option" where
  "stack_pop s =
     (case guarded (s_mutex s) (\<lambda>m.
        let result = s_first s
        in if s_first s \<noteq> 0
           then (result, s\<lparr>s_first := s_next s (s_first s), s_next := (s_next s)(result := 0)\<rparr>)
           else (result, s))
      of None \<Rightarrow> None | Some ((result, s'), m) \<Rightarrow> Some (result, s'\<lparr>s_mutex := m\<rparr>))"

definition stack_push :: "addr \<Rightarrow> stack \<Rightarrow> stack option" where
  "stack_push node s =
     (if node = 0 then Some s
      else case guarded (s_mutex s) (\<lambda>m. s\<lparr>s_next := (s_next s)(node := s_first s), s_first := node\<rparr>)
      of None \<Rightarrow> None | Some (s', m) \<Rightarrow> Some (s'\<lparr>s_mutex := m\<rparr>))"

fun chained :: "(addr \<Rightarrow> addr) \<Rightarrow> addr \<Rightarrow> addr list \<Rightarrow> bool" where
  "chained nx p [] = (p = 0)"
| "chained nx p (x # xs) = (p = x \<and> x \<noteq> 0 \<and> chained nx (nx x) xs)"

definition stack_repr :: "stack \<Rightarrow> addr list \<Rightarrow> bool" where
  "stack_repr s xs \<longleftrightarrow> s_mutex s = 0 \<and> distinct xs \<and> chained (s_next s) (s_first s) xs"

lemma chained_upd [simp]: "n \<notin> set xs \<Longrightarrow> chained (nx(n := v)) p xs = chained nx p xs"
  by (induction xs arbitrary: p) auto

lemma stack_init_repr: "stack_repr (stack_init s) []"
  by (simp add: stack_repr_def stack_init_def lock_init_def)

text \<open>
  C18: on a stack whose lock is free, Push and Pop return with the lock free again; Pop
  undoes Push, and an empty stack yields null.
\<close>

theorem stack_refines:
  "(stack_repr s xs \<and> n \<noteq> 0 \<and> n \<notin> set xs \<longrightarrow>
       (\<exists>s' s''. stack_push n s = Some s' \<and> stack_repr s' (n # xs)
          \<and> stack_pop s' = Some (n, s'') \<and> stack_repr s'' xs \<and> s_next s'' n = 0))
   \<and> (stack_repr s [] \<longrightarrow> stack_pop s = Some (0, s) \<and> stack_empty s)"
  by (auto simp: stack_repr_def stack_push_def stack_pop_def guarded_def spin_lock_iff
      spin_unlock_def atomic_store_def stack_empty_def Let_def)

theorem stack_refines_witness:
  "\<exists>s'. stack_push 16 (stack_init \<lparr>s_mutex = 7, s_first = 3, s_next = (\<lambda>_. 0)\<rparr>) = Some s'"
  using stack_refines [of "stack_init \<lparr>s_mutex = 7, s_first = 3, s_next = (\<lambda>_. 0)\<rparr>" "[]" 16]
    stack_init_repr by auto

text \<open>Entering a guarded operation while its lock is held never returns.\<close>

lemma stack_relock_diverges: "s_mutex s \<noteq> 0 \<Longrightarrow> stack_pop s = None"
  by (simp add: stack_pop_def guarded_def spin.lock_held_diverges)

text \<open>The narrow cmpset never writes the location it is given.\<close>

lemma cmpset_no_effect: "snd (atomic_cmpset a mem expected val) = mem"
  by (simp add: atomic_cmpset_def split: prod.split)

end
