(* ===== verification/PageAlloc.thy ===== *)
theory PageAlloc
  imports BootArgsFacts SpinLock
begin

text \<open>
  kernel/vm/page_allocator.h and .cpp: the physical page allocator. Free pages form a chain
  through a pointer stored in the pages themselves (the first 4 MB are identity mapped); the
  two counters follow its length. Every public operation holds the allocator's spin lock, so
  a result of None is a call that never returns.
\<close>

subsection \<open>State and operations\<close>

record page_allocator =
  pa_lock :: u8
  pa_pages :: addr
  pa_total :: size32
  pa_avail :: size32
  pa_cache :: addr
  pa_cache_count :: size32
  node_next :: "addr \<Rightarrow> addr"

definition IdentityMark :: size32 where "IdentityMark = 4 * push_bit 20 1"

definition pa_total_pages :: "page_allocator \<Rightarrow> size32" where "pa_total_pages s = pa_total s"

definition pa_free_pages :: "page_allocator \<Rightarrow> (size32 \<times> page_allocator) option" where
  "pa_free_pages s = (case guarded (pa_lock s) (\<lambda>l. pa_avail s) of
     None \<Rightarrow> None | Some (r, l) \<Rightarrow> Some (r, s\<lparr>pa_lock := l\<rparr>))"

definition pa_cache_size :: "page_allocator \<Rightarrow> (size32 \<times> page_allocator) option" where
  "pa_cache_size s = (case guarded (pa_lock s) (\<lambda>l. pa_cache_count s) of
     None \<Rightarrow> None | Some (r, l) \<Rightarrow> Some (r, s\<lparr>pa_lock := l\<rparr>))"

text \<open>The size of the memory of interest: the first mapping that reaches the heap.\<close>

fun memory_size :: "addr \<Rightarrow> mapping list \<Rightarrow> size32" where
  "memory_size heapStart [] = 0"
| "memory_size heapStart (mem # rest) =
     (let r = to_range mem; end = end_aligned r
      in if end < heapStart then memory_size heapStart rest
         else (end - max (base_aligned r) heapStart) + 1)"

definition allocate_nodes :: "argument_data \<Rightarrow> page_allocator \<Rightarrow> page_allocator" where
  "allocate_nodes d s =
     s\<lparr>pa_total := drop_bit PageShift (memory_size (base_aligned (heap_physical d)) (entries d))\<rparr>"

definition add_page_to_cache :: "addr \<Rightarrow> page_allocator \<Rightarrow> page_allocator" where
  "add_page_to_cache a s =
     s\<lparr>node_next := (node_next s)(a := pa_cache s), pa_cache := a,
       pa_cache_count := pa_cache_count s + 1, pa_avail := pa_avail s + 1\<rparr>"

definition get_cached_page :: "page_allocator \<Rightarrow> addr \<times> page_allocator" where
  "get_cached_page s =
     (let result = pa_cache s
      in if result \<noteq> 0 then
           (result, s\<lparr>pa_cache := node_next s result, pa_cache_count := pa_cache_count s - 1,
              pa_avail := pa_avail s - 1, node_next := (node_next s)(result := 0)\<rparr>)
         else (result, s))"

text \<open>
  The pages of one mapping; True when the identity-mapped part of memory has been passed.
\<close>

partial_function (option) add_mapping_pages ::
    "addr \<Rightarrow> addr \<Rightarrow> size32 \<Rightarrow> size32 \<Rightarrow> page_allocator \<Rightarrow> (bool \<times> page_allocator) option" where
  "add_mapping_pages heapEnd start len offset s =
     (if offset < len then
        (let a = start + offset
         in if a < heapEnd then add_mapping_pages heapEnd start len (offset + PageSize) s
            else if a \<ge> IdentityMark then Some (True, s)
            else add_mapping_pages heapEnd start len (offset + PageSize) (add_page_to_cache a s))
      else Some (False, s))"

fun add_boot_pages :: "addr \<Rightarrow> mapping list \<Rightarrow> page_allocator \<Rightarrow> page_allocator option" where
  "add_boot_pages heapEnd [] s = Some s"
| "add_boot_pages heapEnd (m # ms) s =
     (case add_mapping_pages heapEnd (Start m) (MapLength m) 0 s of
        None \<Rightarrow> None
      | Some (done, s) \<Rightarrow> if done then Some s else add_boot_pages heapEnd ms s)"

definition init_boot_pages :: "argument_data \<Rightarrow> page_allocator \<Rightarrow> page_allocator option" where
  "init_boot_pages d s =
     (case guarded (pa_lock s) (\<lambda>l.
        add_boot_pages (range_end (heap_physical d)) (entries d) (allocate_nodes d (s\<lparr>pa_lock := l\<rparr>)))
      of None \<Rightarrow> None | Some (None, l) \<Rightarrow> None | Some (Some s, l) \<Rightarrow> Some (s\<lparr>pa_lock := l\<rparr>))"

definition pa_construct :: "argument_data \<Rightarrow> (addr \<Rightarrow> addr) \<Rightarrow> (fault + page_allocator) option" where
  "pa_construct d mem =
     (case init_boot_pages d \<lparr>pa_lock = lock_init, pa_pages = 0, pa_total = 0, pa_avail = 0,
             pa_cache = 0, pa_cache_count = 0, node_next = mem\<rparr>
      of None \<Rightarrow> None
       | Some s \<Rightarrow> if pa_cache_count s = 0
                   then Some (Inl (Panic ''Unable to allocate any boot pages'')) else Some (Inr s))"

definition allocate_page :: "page_allocator \<Rightarrow> (addr \<times> page_allocator) option" where
  "allocate_page s = (case guarded (pa_lock s) (\<lambda>l. get_cached_page s) of
     None \<Rightarrow> None | Some ((p, s), l) \<Rightarrow> Some (p, s\<lparr>pa_lock := l\<rparr>))"

definition release_page :: "addr \<Rightarrow> page_allocator \<Rightarrow> page_allocator option" where
  "release_page a s = (case guarded (pa_lock s) (\<lambda>l. add_page_to_cache a s) of
     None \<Rightarrow> None | Some (s, l) \<Rightarrow> Some (s\<lparr>pa_lock := l\<rparr>))"

subsection \<open>The interface of a frame allocator\<close>

fun run_allocs :: "('s \<Rightarrow> (addr \<times> 's) option) \<Rightarrow> nat \<Rightarrow> 's \<Rightarrow> (addr list \<times> 's) option" where
  "run_allocs alloc 0 s = Some ([], s)"
| "run_allocs alloc (Suc k) s =
     (case alloc s of None \<Rightarrow> None
      | Some (p, s') \<Rightarrow> (case run_allocs alloc k s' of None \<Rightarrow> None | Some (ps, s'') \<Rightarrow> Some (p # ps, s'')))"

locale frame_allocator =
  fixes inv :: "'s \<Rightarrow> bool"
    and free :: "'s \<Rightarrow> addr set"
    and alloc :: "'s \<Rightarrow> (addr \<times> 's) option"
    and release :: "addr \<Rightarrow> 's \<Rightarrow> 's option"
  assumes alloc_some: "inv s \<Longrightarrow> free s \<noteq> {} \<Longrightarrow>
      \<exists>p s'. alloc s = Some (p, s') \<and> p \<in> free s \<and> inv s' \<and> free s' = free s - {p}"
    and alloc_none: "inv s \<Longrightarrow> free s = {} \<Longrightarrow> alloc s = Some (0, s)"
    and release: "inv s \<Longrightarrow> p \<noteq> 0 \<Longrightarrow> p \<notin> free s \<Longrightarrow>
      \<exists>s'. release p s = Some s' \<and> inv s' \<and> free s' = insert p (free s)"
    and no_null: "inv s \<Longrightarrow> 0 \<notin> free s"
    and finite_free: "inv s \<Longrightarrow> finite (free s)"
begin

lemma run_allocs_distinct:
  "inv s \<Longrightarrow> k \<le> card (free s) \<Longrightarrow>
   \<exists>ps s'. run_allocs alloc k s = Some (ps, s') \<and> length ps = k \<and> distinct ps
     \<and> set ps \<subseteq> free s \<and> 0 \<notin> set ps \<and> inv s' \<and> free s' = free s - set ps"
proof (induction k arbitrary: s)
  case (Suc k)
  then have ne: "free s \<noteq> {}" by auto
  obtain p s1 where p: "alloc s = Some (p, s1)" "p \<in> free s" "inv s1" "free s1 = free s - {p}"
    using alloc_some [OF Suc.prems(1) ne] by blast
  have "k \<le> card (free s1)"
    using Suc.prems p(2,4) finite_free [OF Suc.prems(1)] by (simp add: card_Diff_singleton)
  from Suc.IH [OF p(3) this] obtain ps s' where "run_allocs alloc k s1 = Some (ps, s')"
    "length ps = k" "distinct ps" "set ps \<subseteq> free s1" "0 \<notin> set ps" "inv s'" "free s' = free s1 - set ps"
    by blast
  moreover have "p \<noteq> 0" using p(2) no_null [OF Suc.prems(1)] by metis
  ultimately show ?case using p by (intro exI [of _ "p # ps"] exI [of _ s']) auto
qed simp

lemma alloc_cases:
  assumes "inv s"
  obtains "alloc s = Some (0, s)" "free s = {}"
  | p s' where "alloc s = Some (p, s')" "p \<noteq> 0" "p \<in> free s" "inv s'" "free s' = free s - {p}"
proof (cases "free s = {}")
  case True
  then show thesis using that(1) alloc_none [OF assms] by blast
next
  case False
  then show thesis using that(2) alloc_some [OF assms] no_null [OF assms] by metis
qed

lemma alloc_release:
  assumes "inv s" "free s \<noteq> {}"
  shows "\<exists>p s' s''. alloc s = Some (p, s') \<and> release p s' = Some s'' \<and> inv s'' \<and> free s'' = free s"
proof -
  obtain p s' where p: "alloc s = Some (p, s')" "p \<in> free s" "inv s'" "free s' = free s - {p}"
    using alloc_some [OF assms] by blast
  moreover have "p \<noteq> 0" using p(2) no_null [OF assms(1)] by metis
  moreover have "p \<notin> free s'" using p(4) by simp
  moreover have "insert p (free s - {p}) = free s" using p(2) by blast
  ultimately show ?thesis using release [of s' p] by metis
qed

end

subsection \<open>The chain of free pages\<close>

definition cached :: "page_allocator \<Rightarrow> addr list \<Rightarrow> bool" where
  "cached s xs \<longleftrightarrow> distinct xs \<and> chained (node_next s) (pa_cache s) xs
     \<and> pa_cache_count s = of_nat (length xs) \<and> pa_avail s = of_nat (length xs)"

definition pa_inv :: "page_allocator \<Rightarrow> bool" where
  "pa_inv s \<longleftrightarrow> pa_lock s = 0 \<and> (\<exists>xs. cached s xs)"

definition pa_free_set :: "page_allocator \<Rightarrow> addr set" where
  "pa_free_set s = {p. \<exists>xs. cached s xs \<and> p \<in> set xs}"

lemma chained_unique: "chained nx p xs \<Longrightarrow> chained nx p ys \<Longrightarrow> xs = ys"
proof (induction xs arbitrary: p ys)
  case Nil
  then show ?case by (cases ys) auto
next
  case (Cons x xs)
  then show ?case by (cases ys) auto
qed

lemma chained_nonzero: "chained nx p xs \<Longrightarrow> 0 \<notin> set xs"
  by (induction xs arbitrary: p) auto

lemma cached_free: "cached s xs \<Longrightarrow> pa_free_set s = set xs"
  unfolding pa_free_set_def cached_def using chained_unique by blast

lemma cached_add:
  "cached s xs \<Longrightarrow> a \<noteq> 0 \<Longrightarrow> a \<notin> set xs \<Longrightarrow> cached (add_page_to_cache a s) (a # xs)"
  by (simp add: cached_def add_page_to_cache_def)

lemma cached_get_nil: "cached s [] \<Longrightarrow> get_cached_page s = (0, s)"
  by (simp add: cached_def get_cached_page_def Let_def)

lemma cached_get:
  "cached s (x # xs) \<Longrightarrow> \<exists>s'. get_cached_page s = (x, s') \<and> cached s' xs \<and> pa_lock s' = pa_lock s"
  by (auto simp: cached_def get_cached_page_def Let_def)

lemma cached_lock [simp]: "cached (s\<lparr>pa_lock := l\<rparr>) xs = cached s xs"
  by (simp add: cached_def)

lemmas unlocked = guarded_def spin_lock_iff spin_unlock_def atomic_store_def

lemma allocate_page_inv:
  assumes "pa_inv s"
  shows "pa_free_set s \<noteq> {} \<Longrightarrow> \<exists>p s'. allocate_page s = Some (p, s') \<and> p \<in> pa_free_set s
       \<and> pa_inv s' \<and> pa_free_set s' = pa_free_set s - {p}"
    and "pa_free_set s = {} \<Longrightarrow> allocate_page s = Some (0, s)"
proof -
  obtain xs where l: "pa_lock s = 0" and xs: "cached s xs" using assms by (auto simp: pa_inv_def)
  show "\<exists>p s'. allocate_page s = Some (p, s') \<and> p \<in> pa_free_set s
       \<and> pa_inv s' \<and> pa_free_set s' = pa_free_set s - {p}" if "pa_free_set s \<noteq> {}"
  proof -
    have "xs \<noteq> []" using that cached_free [OF xs] by auto
    then obtain y ys where ys: "xs = y # ys" by (cases xs) auto
    then obtain s' where s': "get_cached_page s = (y, s')" "cached s' ys" "pa_lock s' = pa_lock s"
      using cached_get xs by blast
    let ?s = "s'\<lparr>pa_lock := 0\<rparr>"
    have "allocate_page s = Some (y, ?s)" using l s' by (simp add: allocate_page_def unlocked)
    moreover have "pa_free_set ?s = pa_free_set s - {y}"
      using cached_free [OF xs] cached_free [of ?s ys] s'(2) xs ys by (auto simp: cached_def)
    moreover have "pa_inv ?s" using s'(2) by (auto simp: pa_inv_def)
    ultimately show ?thesis using cached_free [OF xs] ys by auto
  qed
  show "allocate_page s = Some (0, s)" if "pa_free_set s = {}"
  proof -
    have "xs = []" using that cached_free [OF xs] by auto
    then show ?thesis using xs l by (simp add: allocate_page_def unlocked cached_get_nil)
  qed
qed

lemma release_page_inv:
  assumes "pa_inv s" "p \<noteq> 0" "p \<notin> pa_free_set s"
  shows "\<exists>s'. release_page p s = Some s' \<and> pa_inv s' \<and> pa_free_set s' = insert p (pa_free_set s)"
proof -
  obtain xs where l: "pa_lock s = 0" and xs: "cached s xs" using assms by (auto simp: pa_inv_def)
  let ?s = "(add_page_to_cache p s)\<lparr>pa_lock := 0\<rparr>"
  have c: "cached ?s (p # xs)" using cached_add [OF xs] assms cached_free [OF xs] by simp
  moreover have "release_page p s = Some ?s" using l by (simp add: release_page_def unlocked)
  ultimately show ?thesis
    using cached_free [OF c] cached_free [OF xs] by (auto simp: pa_inv_def intro: exI [of _ ?s])
qed

interpretation pa: frame_allocator pa_inv pa_free_set allocate_page release_page
proof (unfold_locales, goal_cases)
  case (4 s)
  then show ?case using cached_free chained_nonzero by (fastforce simp: pa_inv_def cached_def)
next
  case (5 s)
  then show ?case using cached_free by (fastforce simp: pa_inv_def)
qed (simp_all add: allocate_page_inv release_page_inv)

subsection \<open>Boot pages\<close>

text \<open>
  The page addresses of a mapping from an offset on that lie between the end of the heap and
  the end of the identity-mapped memory.
\<close>

definition pages_from :: "nat \<Rightarrow> nat \<Rightarrow> nat \<Rightarrow> nat \<Rightarrow> nat set" where
  "pages_from he st len off =
     {a. \<exists>k. a = st + off + 4096 * k \<and> off + 4096 * k < len \<and> he \<le> a \<and> a < 4194304}"

lemma pages_from_end: "len \<le> off \<Longrightarrow> pages_from he st len off = {}"
  by (auto simp: pages_from_def)

lemma pages_from_past: "4194304 \<le> st + off \<Longrightarrow> pages_from he st len off = {}"
  by (auto simp: pages_from_def)

lemma pages_from_step:
  assumes "off < len"
  shows "pages_from he st len off =
    (if he \<le> st + off \<and> st + off < 4194304 then {st + off} else {}) \<union> pages_from he st len (off + 4096)"
proof (intro set_eqI iffI)
  fix a assume "a \<in> pages_from he st len off"
  then obtain k where k: "a = st + off + 4096 * k" "off + 4096 * k < len" "he \<le> a" "a < 4194304"
    by (auto simp: pages_from_def)
  show "a \<in> (if he \<le> st + off \<and> st + off < 4194304 then {st + off} else {}) \<union> pages_from he st len (off + 4096)"
  proof (cases k)
    case 0
    with k show ?thesis by simp
  next
    case (Suc j)
    with k have "a \<in> pages_from he st len (off + 4096)"
      by (auto simp: pages_from_def intro!: exI [of _ j])
    then show ?thesis by blast
  qed
next
  fix a assume a: "a \<in> (if he \<le> st + off \<and> st + off < 4194304 then {st + off} else {}) \<union> pages_from he st len (off + 4096)"
  show "a \<in> pages_from he st len off"
  proof (cases "a \<in> pages_from he st len (off + 4096)")
    case True
    then obtain k where "a = st + (off + 4096) + 4096 * k" "off + 4096 + 4096 * k < len" "he \<le> a" "a < 4194304"
      by (auto simp: pages_from_def)
    then show ?thesis by (auto simp: pages_from_def intro!: exI [of _ "Suc k"])
  next
    case False
    with a assms show ?thesis by (auto simp: pages_from_def intro!: exI [of _ 0] split: if_splits)
  qed
qed

lemma pages_from_lower: "a \<in> pages_from he st len off \<Longrightarrow> st + off \<le> a \<and> a < st + len"
  by (auto simp: pages_from_def)

lemma unat_IdentityMark [simp]: "unat IdentityMark = 4194304"
  by (simp add: IdentityMark_def push_bit_eq_mult)

lemma add_mapping_pages_correct:
  fixes start len off he :: u32
  assumes "unat start + unat len \<le> 2 ^ 32" "unat he \<le> 4194304" "0 < unat he"
    and "off < len \<Longrightarrow> unat start + unat off < 4194304 + 4096"
    and "cached s xs" "\<forall>x\<in>set xs. unat x < unat start + unat off \<or> unat start + unat len \<le> unat x"
  shows "\<exists>b s' ys. add_mapping_pages he start len off s = Some (b, s') \<and> cached s' ys
     \<and> pa_lock s' = pa_lock s
     \<and> unat ` set ys = unat ` set xs \<union> pages_from (unat he) (unat start) (unat len) (unat off)
     \<and> (b \<longrightarrow> 4194304 < unat start + unat len)"
  using assms
proof (induction "4194304 + 8192 - (unat start + unat off)" arbitrary: off s xs rule: less_induct)
  case (less off s xs)
  note unfold = add_mapping_pages.simps [of he start len off s]
  show ?case
  proof (cases "off < len")
    case False
    then have "unat len \<le> unat off" by (simp add: word_less_nat_alt)
    with False less.prems(5) show ?thesis by (subst unfold) (auto simp: pages_from_end)
  next
    case True
    let ?a = "start + off" and ?n = "unat start + unat off"
    have ol: "unat off < unat len" using True by (simp add: word_less_nat_alt)
    have a: "unat ?a = ?n" using ol less.prems(1) by (intro unat_add_noov) simp
    have o: "unat (off + PageSize) = unat off + 4096"
      using less.prems(4) [OF True] by (subst unat_add_noov) (simp_all add: PageSize_def)
    have pos: "0 < ?n" if "unat he \<le> ?n" using that less.prems(3) by linarith
    show ?thesis
    proof (cases "IdentityMark \<le> ?a \<and> \<not> ?a < he")
      case past: True
      then have "4194304 \<le> ?n" using a by (simp add: word_le_nat_alt)
      with past True a ol less.prems(5) show ?thesis
        by (subst unfold) (auto simp: pages_from_past)
    next
      case False
      have lt: "?n < 4194304"
        using False a less.prems(2) by (auto simp: word_le_nat_alt word_less_nat_alt)
      define s1 where "s1 = (if ?a < he then s else add_page_to_cache ?a s)"
      define xs1 where "xs1 = (if ?a < he then xs else ?a # xs)"
      have r: "add_mapping_pages he start len off s = add_mapping_pages he start len (off + PageSize) s1"
        using True False by (subst unfold) (auto simp: s1_def)
      have "?a \<noteq> 0 \<and> ?a \<notin> set xs" if "\<not> ?a < he"
      proof -
        have "unat ?a \<noteq> 0" using that a pos by (simp add: word_less_nat_alt)
        moreover have "?a \<notin> set xs" using less.prems(6) a ol by (metis add_less_cancel_left leD less_irrefl)
        ultimately show ?thesis by auto
      qed
      then have c: "cached s1 xs1" using less.prems(5) cached_add by (auto simp: s1_def xs1_def)
      have low: "\<forall>x\<in>set xs1. unat x < unat start + unat (off + PageSize) \<or> unat start + unat len \<le> unat x"
        using less.prems(6) a by (auto simp: xs1_def o)
      have st: "unat ` set xs1 \<union> pages_from (unat he) (unat start) (unat len) (unat off + 4096)
          = unat ` set xs \<union> pages_from (unat he) (unat start) (unat len) (unat off)"
        unfolding pages_from_step [OF ol] using lt a by (auto simp: xs1_def word_less_nat_alt)
      have lk: "pa_lock s1 = pa_lock s" by (simp add: s1_def add_page_to_cache_def)
      have next_bound: "unat start + unat (off + PageSize) < 4194304 + 4096" using lt o by simp
      have d: "4194304 + 8192 - (unat start + unat (off + PageSize))
          < 4194304 + 8192 - (unat start + unat off)" using lt o by linarith
      obtain b s' ys where "add_mapping_pages he start len (off + PageSize) s1 = Some (b, s')"
        "cached s' ys" "pa_lock s' = pa_lock s1"
        "unat ` set ys = unat ` set xs1 \<union> pages_from (unat he) (unat start) (unat len) (unat (off + PageSize))"
        "b \<longrightarrow> 4194304 < unat start + unat len"
        using less.hyps [OF d less.prems(1-3) next_bound c low] by blast
      then show ?thesis using r st lk o by auto
    qed
  qed
qed

definition boot_page_set :: "nat \<Rightarrow> mapping list \<Rightarrow> nat set" where
  "boot_page_set he ms = (\<Union>m\<in>set ms. pages_from he (unat (Start m)) (unat (MapLength m)) 0)"

text \<open>Mappings in ascending order, each ending before the next one starts.\<close>

fun ascending :: "mapping list \<Rightarrow> bool" where
  "ascending [] = True"
| "ascending (m # ms) =
     ((\<forall>m'\<in>set ms. unat (Start m) + unat (MapLength m) \<le> unat (Start m')) \<and> ascending ms)"

lemma add_boot_pages_correct:
  assumes "\<forall>m\<in>set ms. range_ok (to_range m)" "ascending ms"
    and "unat he \<le> 4194304" "0 < unat he"
    and "cached s xs" "\<forall>x\<in>set xs. \<forall>m\<in>set ms. unat x < unat (Start m)"
  shows "\<exists>s' ys. add_boot_pages he ms s = Some s' \<and> cached s' ys \<and> pa_lock s' = pa_lock s
     \<and> unat ` set ys = unat ` set xs \<union> boot_page_set (unat he) ms"
  using assms
proof (induction ms arbitrary: s xs)
  case Nil
  then show ?case by (auto simp: boot_page_set_def)
next
  case (Cons m ms)
  let ?st = "unat (Start m)" and ?len = "unat (MapLength m)"
  have r: "?st + ?len \<le> 2 ^ 32" using Cons.prems(1) by (simp add: range_ok_def)
  have lo: "\<forall>x\<in>set xs. unat x < unat (Start m) + unat (0 :: u32) \<or> ?st + ?len \<le> unat x" using Cons.prems(6) by simp
  show ?case
  proof (cases "IdentityMark + PageSize \<le> Start m \<and> 0 < MapLength m")
    case True
    then have past: "4194304 + 4096 \<le> ?st" "0 < ?len"
      by (simp_all add: IdentityMark_def PageSize_def push_bit_eq_mult word_le_nat_alt word_less_nat_alt)
    then have "add_mapping_pages he (Start m) (MapLength m) 0 s = Some (True, s)"
      using Cons.prems(3) by (subst add_mapping_pages.simps)
        (auto simp: word_le_nat_alt word_less_nat_alt)
    moreover have "boot_page_set (unat he) (m # ms) = {}"
    proof -
      have "\<forall>m'\<in>set (m # ms). 4194304 \<le> unat (Start m')"
        using Cons.prems(2) past(1) by fastforce
      then show ?thesis by (auto simp: boot_page_set_def pages_from_past)
    qed
    ultimately show ?thesis using Cons.prems(5) by auto
  next
    case False
    then have nr: "0 < MapLength m \<Longrightarrow> ?st + unat (0 :: u32) < 4194304 + 4096"
      by (auto simp: IdentityMark_def PageSize_def push_bit_eq_mult word_le_nat_alt not_le)
    obtain b s1 ys where s1: "add_mapping_pages he (Start m) (MapLength m) 0 s = Some (b, s1)"
      "cached s1 ys" "pa_lock s1 = pa_lock s"
      "unat ` set ys = unat ` set xs \<union> pages_from (unat he) ?st ?len 0" "b \<longrightarrow> 4194304 < ?st + ?len"
      using add_mapping_pages_correct [OF r Cons.prems(3,4) nr Cons.prems(5) lo] by auto
    show ?thesis
    proof (cases b)
      case True
      then have "\<forall>m'\<in>set ms. 4194304 \<le> unat (Start m')"
        using s1(5) Cons.prems(2) by fastforce
      then have "boot_page_set (unat he) (m # ms) = pages_from (unat he) ?st ?len 0"
        by (auto simp: boot_page_set_def pages_from_past)
      with True s1 show ?thesis by auto
    next
      case False
      have "unat x < unat (Start m')" if "x \<in> set ys" "m' \<in> set ms" for x m'
      proof -
        have "unat x \<in> unat ` set xs \<union> pages_from (unat he) ?st ?len 0"
          using that(1) s1(4) by blast
        then have "unat x < ?st + ?len"
        proof
          assume "unat x \<in> unat ` set xs"
          then show ?thesis using Cons.prems(6) by (auto intro: trans_less_add1)
        qed (use pages_from_lower in blast)
        then show ?thesis using Cons.prems(2) that(2) by fastforce
      qed
      then obtain s' zs where "add_boot_pages he ms s1 = Some s'" "cached s' zs" "pa_lock s' = pa_lock s1"
        "unat ` set zs = unat ` set ys \<union> boot_page_set (unat he) ms"
        using Cons.IH [OF _ _ Cons.prems(3,4) s1(2)] Cons.prems(1,2) by auto
      with False s1 show ?thesis by (auto simp: boot_page_set_def Un_assoc)
    qed
  qed
qed

text \<open>
  For mappings in any order, without a common address, the chain takes no address twice and
  only pages of the mappings; a mapping behind the first one past the limit is not looked at.
\<close>

lemma add_boot_pages_sub:
  assumes "\<forall>m\<in>set ms. range_ok (to_range m)" "disjoint_maps ms"
    and "unat he \<le> 4194304" "0 < unat he"
    and "cached s xs" "\<forall>x\<in>set xs. \<forall>m\<in>set ms. unat x \<notin> range_addrs (to_range m)"
  shows "\<exists>s' ys. add_boot_pages he ms s = Some s' \<and> cached s' ys \<and> pa_lock s' = pa_lock s
     \<and> unat ` set ys \<subseteq> unat ` set xs \<union> boot_page_set (unat he) ms"
  using assms
proof (induction ms arbitrary: s xs)
  case Nil
  then show ?case by (auto simp: boot_page_set_def)
next
  case (Cons m ms)
  let ?st = "unat (Start m)" and ?len = "unat (MapLength m)"
  have r: "?st + ?len \<le> 2 ^ 32" using Cons.prems(1) by (simp add: range_ok_def)
  have lo: "\<forall>x\<in>set xs. unat x < unat (Start m) + unat (0 :: u32) \<or> ?st + ?len \<le> unat x"
    using Cons.prems(6) by (auto simp: range_addrs_def)
  show ?case
  proof (cases "IdentityMark + PageSize \<le> Start m \<and> 0 < MapLength m")
    case True
    then have "add_mapping_pages he (Start m) (MapLength m) 0 s = Some (True, s)"
      using Cons.prems(3) by (subst add_mapping_pages.simps)
        (auto simp: IdentityMark_def PageSize_def push_bit_eq_mult word_le_nat_alt word_less_nat_alt)
    then show ?thesis using Cons.prems(5) by auto
  next
    case False
    then have nr: "0 < MapLength m \<Longrightarrow> ?st + unat (0 :: u32) < 4194304 + 4096"
      by (auto simp: IdentityMark_def PageSize_def push_bit_eq_mult word_le_nat_alt not_le)
    obtain b s1 ys where s1: "add_mapping_pages he (Start m) (MapLength m) 0 s = Some (b, s1)"
      "cached s1 ys" "pa_lock s1 = pa_lock s"
      "unat ` set ys = unat ` set xs \<union> pages_from (unat he) ?st ?len 0"
      using add_mapping_pages_correct [OF r Cons.prems(3,4) nr Cons.prems(5) lo] by auto
    show ?thesis
    proof (cases b)
      case True
      have "unat ` set ys \<subseteq> unat ` set xs \<union> boot_page_set (unat he) (m # ms)"
        using s1(4) by (auto simp: boot_page_set_def)
      moreover have "add_boot_pages he (m # ms) s = Some s1" using True s1(1) by simp
      ultimately show ?thesis using s1(2,3) by blast
    next
      case False
      have "unat x \<notin> range_addrs (to_range m')" if "x \<in> set ys" "m' \<in> set ms" for x m'
      proof -
        have "unat x \<in> unat ` set xs \<union> pages_from (unat he) ?st ?len 0" using that(1) s1(4) by blast
        then have "unat x \<in> unat ` set xs \<or> unat x \<in> range_addrs (to_range m)"
          using pages_from_lower [of "unat x" "unat he" ?st ?len 0] by (auto simp: range_addrs_def)
        then show ?thesis using Cons.prems(2,6) that(2) by auto
      qed
      then obtain s' zs where "add_boot_pages he ms s1 = Some s'" "cached s' zs" "pa_lock s' = pa_lock s1"
        "unat ` set zs \<subseteq> unat ` set ys \<union> boot_page_set (unat he) ms"
        using Cons.IH [OF _ _ Cons.prems(3,4) s1(2)] Cons.prems(1,2) by auto
      moreover have "unat ` set ys \<union> boot_page_set (unat he) ms = unat ` set xs \<union> boot_page_set (unat he) (m # ms)"
        unfolding s1(4) by (auto simp: boot_page_set_def)
      moreover have "add_boot_pages he (m # ms) s = add_boot_pages he ms s1" using False s1(1) by simp
      ultimately show ?thesis using s1(3) by auto
    qed
  qed
qed

subsection \<open>Properties\<close>



text \<open>
  C13: while enough pages are free, n allocations return n distinct non-null pages that were
  free and are not free afterwards; an allocation from an empty allocator returns null; and
  releasing a page that is not free makes it free again.
\<close>

theorem page_allocations_distinct:
  assumes "pa_inv s"
  shows "(n \<le> card (pa_free_set s) \<longrightarrow>
      (\<exists>ps s'. run_allocs allocate_page n s = Some (ps, s') \<and> length ps = n \<and> distinct ps \<and> 0 \<notin> set ps
        \<and> set ps \<subseteq> pa_free_set s \<and> pa_inv s' \<and> pa_free_set s' = pa_free_set s - set ps))
    \<and> (pa_free_set s = {} \<longrightarrow> allocate_page s = Some (0, s))
    \<and> (p \<noteq> 0 \<and> p \<notin> pa_free_set s \<longrightarrow>
        (\<exists>s'. release_page p s = Some s' \<and> pa_inv s' \<and> pa_free_set s' = insert p (pa_free_set s)))"
  using pa.run_allocs_distinct [OF assms] pa.alloc_none [OF assms] pa.release [OF assms] by blast

definition two_pages :: page_allocator where
  "two_pages = \<lparr>pa_lock = 0, pa_pages = 0, pa_total = 0, pa_avail = 2, pa_cache = 0x3000,
     pa_cache_count = 2, node_next = (\<lambda>_. 0)(0x3000 := 0x2000)\<rparr>"

lemma two_pages_cached: "cached two_pages [0x3000, 0x2000]"
  by (simp add: cached_def two_pages_def)

theorem page_allocations_distinct_witness:
  "\<exists>ps s'. run_allocs allocate_page 2 two_pages = Some (ps, s') \<and> distinct ps \<and> pa_free_set s' = {}"
proof -
  have i: "pa_inv two_pages"
    using two_pages_cached by (auto simp: pa_inv_def two_pages_def)
  have f: "pa_free_set two_pages = {0x3000, 0x2000}" using cached_free [OF two_pages_cached] by simp
  have c: "card {0x3000, 0x2000 :: addr} = 2" by simp
  obtain ps s' where ps: "run_allocs allocate_page 2 two_pages = Some (ps, s')" "length ps = 2" "distinct ps"
    "set ps \<subseteq> {0x3000, 0x2000}" "pa_free_set s' = {0x3000, 0x2000} - set ps"
    using page_allocations_distinct [OF i, of 2 0] unfolding f c by auto
  have "card (set ps) = card {0x3000, 0x2000 :: addr}" using ps(2,3) c by (simp add: distinct_card)
  then have "set ps = {0x3000, 0x2000}" using ps(4) by (intro card_subset_eq) simp_all
  with ps show ?thesis by auto
qed

text \<open>
  ReleasePage does not check its argument: a page released twice is handed out twice.
\<close>

lemma double_release_hands_out_twice:
  assumes "pa_inv s" "p \<noteq> 0"
  shows "\<exists>s1 s2 s3 s4. release_page p s = Some s1 \<and> release_page p s1 = Some s2
     \<and> allocate_page s2 = Some (p, s3) \<and> allocate_page s3 = Some (p, s4)"
  using assms by (auto simp: pa_inv_def release_page_def allocate_page_def unlocked
      add_page_to_cache_def get_cached_page_def Let_def)

end
