(* ===== verification/LibkString.thy ===== *)
theory LibkString
  imports Prelude
begin

text \<open>
  libs/libk/string: the memory and string functions of the C runtime library that the kernel is
  linked with, over a memory of bytes. A pointer is an address, null is 0, and the loop
  counters are 32-bit words that wrap as size_t does.
\<close>

type_synonym mem = "addr \<Rightarrow> u8"

text \<open>The type int of the target; char is signed there.\<close>

type_synonym int32 = "32 word"

subsection \<open>Definitions\<close>

function memcpy_loop :: "addr \<Rightarrow> addr \<Rightarrow> size32 \<Rightarrow> size32 \<Rightarrow> mem \<Rightarrow> mem" where
  "memcpy_loop dst src sz i m =
     (if i < sz then memcpy_loop dst src sz (i + 1) (m(dst + i := m (src + i))) else m)"
  by pat_completeness auto
termination by (relation "measure (\<lambda>(_, _, sz, i, _). unat sz - unat i)") (auto intro: loop_up)

definition memcpy :: "addr \<Rightarrow> addr \<Rightarrow> size32 \<Rightarrow> mem \<Rightarrow> mem" where
  "memcpy dest source sz m = memcpy_loop dest source sz 0 m"

text \<open>The downward loop of memmove ends when its counter wraps past zero.\<close>

function memmove_down :: "addr \<Rightarrow> addr \<Rightarrow> size32 \<Rightarrow> size32 \<Rightarrow> mem \<Rightarrow> mem" where
  "memmove_down dst src sz i m =
     (if i < sz then memmove_down dst src sz (i - 1) (m(dst + i := m (src + i))) else m)"
  by pat_completeness auto
termination
proof (relation "measure (\<lambda>(_, _, sz, i, _). if i < sz then unat i + 1 else 0)")
  fix dst src sz i :: "32 word" and m :: mem
  assume a: "i < sz"
  have "(if i - 1 < sz then unat (i - 1) + 1 else 0) < unat i + 1"
  proof (cases "i = 0")
    case True
    have "\<not> (- 1 :: 32 word) < sz" by (simp add: linorder_not_less)
    with True show ?thesis by simp
  next
    case False
    then have "unat (i - 1) = unat i - 1" "0 < unat i" by (simp_all add: unat_sub_noov unat_gt_0 Suc_leI)
    then show ?thesis by simp
  qed
  with a show "((dst, src, sz, i - 1, m(dst + i := m (src + i))), dst, src, sz, i, m)
     \<in> measure (\<lambda>(_, _, sz, i, _). if i < sz then unat i + 1 else 0)" by simp
qed simp

definition memmove :: "addr \<Rightarrow> addr \<Rightarrow> size32 \<Rightarrow> mem \<Rightarrow> mem" where
  "memmove dest source sz m =
     (if sz = 0 then m
      else if dest < source then memcpy_loop dest source sz 0 m
      else memmove_down dest source sz (sz - 1) m)"

function memset_loop :: "addr \<Rightarrow> int32 \<Rightarrow> size32 \<Rightarrow> size32 \<Rightarrow> mem \<Rightarrow> mem" where
  "memset_loop b val sz i m =
     (if i < sz then memset_loop b val sz (i + 1) (m(b + i := ucast val)) else m)"
  by pat_completeness auto
termination by (relation "measure (\<lambda>(_, _, sz, i, _). unat sz - unat i)") (auto intro: loop_up)

definition memset :: "addr \<Rightarrow> int32 \<Rightarrow> size32 \<Rightarrow> mem \<Rightarrow> mem" where
  "memset buf val sz m = memset_loop buf val sz 0 m"

function memcmp_loop :: "addr \<Rightarrow> addr \<Rightarrow> size32 \<Rightarrow> size32 \<Rightarrow> mem \<Rightarrow> int32" where
  "memcmp_loop a b sz i m =
     (if i < sz then
        let diff = ucast (m (a + i)) - ucast (m (b + i))
        in if diff \<noteq> 0 then diff else memcmp_loop a b sz (i + 1) m
      else 0)"
  by pat_completeness auto
termination by (relation "measure (\<lambda>(_, _, sz, i, _). unat sz - unat i)") (auto intro: loop_up)

definition memcmp :: "addr \<Rightarrow> addr \<Rightarrow> size32 \<Rightarrow> mem \<Rightarrow> int32" where
  "memcmp aptr bptr sz m = memcmp_loop aptr bptr sz 0 m"

function memchr_loop :: "addr \<Rightarrow> int32 \<Rightarrow> size32 \<Rightarrow> size32 \<Rightarrow> mem \<Rightarrow> addr" where
  "memchr_loop p val sz i m =
     (if i < sz then if m (p + i) = ucast val then p + i else memchr_loop p val sz (i + 1) m
      else 0)"
  by pat_completeness auto
termination by (relation "measure (\<lambda>(_, _, sz, i, _). unat sz - unat i)") (auto intro: loop_up)

definition memchr :: "addr \<Rightarrow> int32 \<Rightarrow> size32 \<Rightarrow> mem \<Rightarrow> addr" where
  "memchr ptr val sz m = memchr_loop ptr val sz 0 m"

declare memcpy_loop.simps [simp del] memmove_down.simps [simp del] memset_loop.simps [simp del]
  memcmp_loop.simps [simp del] memchr_loop.simps [simp del]

partial_function (option) strlen_loop :: "addr \<Rightarrow> size32 \<Rightarrow> mem \<Rightarrow> size32 option" where
  "strlen_loop str len m = (if m (str + len) \<noteq> 0 then strlen_loop str (len + 1) m else Some len)"

definition strlen :: "addr \<Rightarrow> mem \<Rightarrow> size32 option" where "strlen str m = strlen_loop str 0 m"

definition strnlen :: "addr \<Rightarrow> size32 \<Rightarrow> mem \<Rightarrow> size32" where
  "strnlen str maxlen m = (let p = memchr str 0 maxlen m in if p \<noteq> 0 then p - str else maxlen)"

function strncmp_loop :: "addr \<Rightarrow> addr \<Rightarrow> size32 \<Rightarrow> size32 \<Rightarrow> mem \<Rightarrow> int32" where
  "strncmp_loop s1 s2 sz i m =
     (if i < sz then
        let diff = scast (m (s1 + i)) - scast (m (s2 + i))
        in if diff \<noteq> 0 then diff else if m (s1 + i) = 0 then 0 else strncmp_loop s1 s2 sz (i + 1) m
      else 0)"
  by pat_completeness auto
termination by (relation "measure (\<lambda>(_, _, sz, i, _). unat sz - unat i)") (auto intro: loop_up)

declare strncmp_loop.simps [simp del]

definition strncmp :: "addr \<Rightarrow> addr \<Rightarrow> size32 \<Rightarrow> mem \<Rightarrow> int32" where
  "strncmp s1 s2 sz m = strncmp_loop s1 s2 sz 0 m"

definition strncpy :: "addr \<Rightarrow> addr \<Rightarrow> size32 \<Rightarrow> mem \<Rightarrow> mem" where
  "strncpy dst src sz m =
     (let ssz = strnlen src sz m + 1;
          ssz = (if ssz > sz then sz else ssz);
          m = memcpy dst src ssz m
      in if ssz < sz then memset (dst + ssz) 0 (sz - ssz) m else m)"

definition strncat :: "addr \<Rightarrow> addr \<Rightarrow> size32 \<Rightarrow> mem \<Rightarrow> mem" where
  "strncat buf src sz m =
     (let blen = strnlen buf sz m; ssz = strnlen src sz m + 1
      in if blen \<ge> sz then m
         else let t = (blen + ssz) - sz;
                  ssz = (if t > 0 \<and> t < sz then ssz - t else ssz);
                  m = memcpy (buf + blen) src ssz m
              in m(buf + (sz - 1) := 0))"

definition s_strncat :: "addr \<Rightarrow> size32 \<Rightarrow> addr \<Rightarrow> size32 \<Rightarrow> mem \<Rightarrow> addr \<times> mem" where
  "s_strncat dst dsz src ssz m =
     (let endp = memchr dst 0 dsz m
      in if endp = 0 then (0, m)
         else let dlen = endp - dst;
                  slen = strnlen src ssz m;
                  slen = (if dlen + slen > dsz - 1 then dsz - (dlen + 1) else slen);
                  m = memcpy endp src slen m
              in (dst, m(endp + slen := 0)))"

definition s_strncpy :: "addr \<Rightarrow> size32 \<Rightarrow> addr \<Rightarrow> size32 \<Rightarrow> mem \<Rightarrow> mem" where
  "s_strncpy dst dsz src ssz m =
     (let mlen = (if dsz > ssz then ssz else dsz);
          slen = strnlen src ssz m + 1;
          mlen = (if mlen > slen then slen else mlen);
          m = memcpy dst src mlen m
      in m(dst + (dsz - 1) := 0))"

subsection \<open>Copying and filling\<close>

text \<open>
  The upward loop copies the block as it was when no write hits a byte that is read later.
\<close>

lemma memcpy_loop_eq:
  assumes "\<And>j k. i \<le> j \<Longrightarrow> j < k \<Longrightarrow> k < sz \<Longrightarrow> dst + j \<noteq> src + k"
  shows "memcpy_loop dst src sz i m q = (if i \<le> q - dst \<and> q - dst < sz then m (src + (q - dst)) else m q)"
  using assms
proof (induction dst src sz i m rule: memcpy_loop.induct)
  case (1 dst src sz i m)
  show ?case
  proof (cases "i < sz")
    case True
    let ?m = "m(dst + i := m (src + i))"
    have IH: "memcpy_loop dst src sz (i + 1) ?m q
        = (if i + 1 \<le> q - dst \<and> q - dst < sz then ?m (src + (q - dst)) else ?m q)"
      using 1(1) [OF True] 1(2) suc_le_iff [OF True] by blast
    have step: "memcpy_loop dst src sz i m = memcpy_loop dst src sz (i + 1) ?m"
      using True by (subst memcpy_loop.simps) simp
    consider "q - dst = i" | "q - dst \<noteq> i" "i \<le> q - dst" "q - dst < sz" | "\<not> (i \<le> q - dst \<and> q - dst < sz)"
      by blast
    then show ?thesis
    proof cases
      case 1
      then have q: "q = dst + i" by (metis add.commute diff_add_cancel)
      have "memcpy_loop dst src sz i m q = ?m q"
        using IH 1 suc_le_iff [OF True, of "q - dst"] by (simp add: step)
      then show ?thesis using True q by simp
    next
      case 2
      then have "dst + i \<noteq> src + (q - dst)" using 1(2) [of i "q - dst"] by simp
      then show ?thesis using 2 by (simp add: step IH suc_le_iff [OF True])
    next
      case 3
      then have "q \<noteq> dst + i" using True by auto
      then show ?thesis using 3 by (auto simp: step IH suc_le_iff [OF True])
    qed
  next
    case False
    then show ?thesis by (subst memcpy_loop.simps) auto
  qed
qed

text \<open>The downward loop, when no write hits a byte that is read later (that is, below).\<close>

lemma memmove_down_eq:
  assumes "i < sz" "\<And>j k. j \<le> i \<Longrightarrow> k < j \<Longrightarrow> dst + j \<noteq> src + k"
  shows "memmove_down dst src sz i m q = (if q - dst \<le> i then m (src + (q - dst)) else m q)"
  using assms
proof (induction dst src sz i m rule: memmove_down.induct)
  case (1 dst src sz i m)
  let ?m = "m(dst + i := m (src + i))"
  have step: "memmove_down dst src sz i m = memmove_down dst src sz (i - 1) ?m"
    using 1(2) by (subst memmove_down.simps) simp
  have qi: "q = dst + i \<longleftrightarrow> q - dst = i" by (metis add_diff_cancel_left' add.commute diff_add_cancel)
  show ?case
  proof (cases "i = 0")
    case True
    have "\<not> (- 1 :: 32 word) < sz" by (simp add: linorder_not_less)
    then have "memmove_down dst src sz (i - 1) ?m = ?m" using True by (subst memmove_down.simps) simp
    then have "memmove_down dst src sz i m = ?m" using step by simp
    then show ?thesis using True qi by auto
  next
    case False
    then have p: "unat (i - 1) = unat i - 1" "0 < unat i" by (simp_all add: unat_sub_noov unat_gt_0 Suc_leI)
    have lt: "i - 1 < sz" using 1(2) p by (simp add: word_less_nat_alt)
    have le: "x \<le> i - 1 \<longleftrightarrow> x \<le> i \<and> x \<noteq> i" for x
      using p by (auto simp: word_le_nat_alt word_unat_eq_iff)
    have IH: "memmove_down dst src sz (i - 1) ?m q
        = (if q - dst \<le> i - 1 then ?m (src + (q - dst)) else ?m q)"
      using 1(1) [OF 1(2) lt] 1(3) le by blast
    show ?thesis
    proof (cases "q - dst = i")
      case True
      have "memmove_down dst src sz i m q = ?m q" using IH True le by (simp add: step)
      then show ?thesis using True qi by simp
    next
      case ne: False
      have "q - dst \<le> i \<Longrightarrow> dst + i \<noteq> src + (q - dst)"
        using 1(3) [of i "q - dst"] ne by (simp add: less_le)
      then show ?thesis using ne qi by (auto simp: step IH le)
    qed
  qed
qed

lemma memset_loop_eq:
  "memset_loop b val sz i m q = (if i \<le> q - b \<and> q - b < sz then ucast val else m q)"
proof (induction b val sz i m rule: memset_loop.induct)
  case (1 b val sz i m)
  have qi: "q = b + i \<longleftrightarrow> q - b = i" by (metis add_diff_cancel_left' add.commute diff_add_cancel)
  show ?case
  proof (cases "i < sz")
    case True
    let ?m = "m(b + i := ucast val)"
    have "memset_loop b val sz i m = memset_loop b val sz (i + 1) ?m"
      using True by (subst memset_loop.simps) simp
    moreover have "memset_loop b val sz (i + 1) ?m q = (if i + 1 \<le> q - b \<and> q - b < sz then ucast val else ?m q)"
      using 1 [OF True] by (simp add: fun_upd_def)
    ultimately show ?thesis using qi True by (auto simp: suc_le_iff [OF True])
  next
    case False
    then show ?thesis by (subst memset_loop.simps) auto
  qed
qed

text \<open>A block of n bytes at p, and its byte for the address q.\<close>

definition no_wrap :: "addr \<Rightarrow> size32 \<Rightarrow> bool" where
  "no_wrap p n \<longleftrightarrow> unat p + unat n \<le> 2 ^ 32"

definition disjoint_blocks :: "addr \<Rightarrow> size32 \<Rightarrow> addr \<Rightarrow> size32 \<Rightarrow> bool" where
  "disjoint_blocks p n q k \<longleftrightarrow> unat p + unat n \<le> unat q \<or> unat q + unat k \<le> unat p"

lemma offset_unat: "no_wrap p n \<Longrightarrow> k < n \<Longrightarrow> unat (p + k) = unat p + unat k"
  unfolding no_wrap_def by (subst unat_add_noov) (auto simp: word_less_nat_alt)

definition copied :: "addr \<Rightarrow> addr \<Rightarrow> size32 \<Rightarrow> mem \<Rightarrow> mem" where
  "copied dst src sz m = (\<lambda>q. if q - dst < sz then m (src + (q - dst)) else m q)"

lemma memcpy_copied:
  assumes "no_wrap dst sz" "no_wrap src sz" "disjoint_blocks dst sz src sz \<or> dst \<le> src"
  shows "memcpy dst src sz m = copied dst src sz m"
proof
  fix q
  have "dst + j \<noteq> src + k" if "j < k" "k < sz" for j k
  proof -
    have "unat (dst + j) = unat dst + unat j" "unat (src + k) = unat src + unat k" "unat j < unat k" "unat k < unat sz"
      using offset_unat [OF assms(1), of j] offset_unat [OF assms(2), of k] that
      by (auto simp: word_less_nat_alt)
    then show ?thesis using assms(3) by (auto simp: disjoint_blocks_def word_unat_eq_iff word_le_nat_alt)
  qed
  then show "memcpy dst src sz m q = copied dst src sz m q"
    using memcpy_loop_eq [of 0 sz dst src m q] by (simp add: memcpy_def copied_def)
qed

lemma memmove_copied:
  assumes "no_wrap dst sz" "no_wrap src sz"
  shows "memmove dst src sz m = copied dst src sz m"
proof (cases "sz = 0 \<or> dst < src")
  case True
  then show ?thesis using memcpy_copied [OF assms disjI2, of m]
    by (auto simp: memmove_def memcpy_def [symmetric] copied_def)
next
  case False
  then have s: "0 < sz" "src \<le> dst" by (auto simp: word_gt_0 linorder_not_less)
  then have s2: "sz - 1 < sz" using unat_sub_noov [of 1 sz] by (auto simp: word_less_nat_alt)
  have le: "x \<le> sz - 1 \<longleftrightarrow> x < sz" for x
    using s(1) unat_sub_noov [of 1 sz] by (auto simp: word_le_nat_alt word_less_nat_alt)
  have ne: "dst + j \<noteq> src + k" if "j \<le> sz - 1" "k < j" for j k
  proof -
    have "k < sz" using that le by force
    then have "unat (dst + j) = unat dst + unat j" "unat (src + k) = unat src + unat k" "unat k < unat j"
      using offset_unat [OF assms(1), of j] offset_unat [OF assms(2), of k] that le
      by (auto simp: word_less_nat_alt)
    then show ?thesis using s(2) by (auto simp: word_unat_eq_iff word_le_nat_alt)
  qed
  show ?thesis
  proof
    fix q
    show "memmove dst src sz m q = copied dst src sz m q"
      using memmove_down_eq [OF s2 ne, of m q] False
      by (auto simp: memmove_def copied_def le)
  qed
qed

subsection \<open>Strings in memory\<close>

text \<open>
  A string of at most n characters at p, which a NUL follows when it is shorter than n; and
  one that is terminated.
\<close>

definition nstr :: "mem \<Rightarrow> addr \<Rightarrow> nat \<Rightarrow> u8 list \<Rightarrow> bool" where
  "nstr m p n ys \<longleftrightarrow> length ys \<le> n \<and> (\<forall>i<length ys. m (p + of_nat i) = ys ! i \<and> ys ! i \<noteq> 0)
     \<and> (length ys < n \<longrightarrow> m (p + of_nat (length ys)) = 0)"

definition cstr :: "mem \<Rightarrow> addr \<Rightarrow> u8 list \<Rightarrow> bool" where
  "cstr m p ys \<longleftrightarrow> (\<forall>i<length ys. m (p + of_nat i) = ys ! i \<and> ys ! i \<noteq> 0) \<and> m (p + of_nat (length ys)) = 0"

definition block :: "addr \<Rightarrow> size32 \<Rightarrow> bool" where "block p n \<longleftrightarrow> p \<noteq> 0 \<and> no_wrap p n"

lemma cstr_nstr: "cstr m p ys \<Longrightarrow> length ys < n \<Longrightarrow> nstr m p n ys"
  by (simp add: cstr_def nstr_def)

lemma block_le: "block p n \<Longrightarrow> k \<le> n \<Longrightarrow> block p k"
  by (simp add: block_def no_wrap_def word_le_nat_alt)

lemma block_inner: "block p n \<Longrightarrow> k < n \<Longrightarrow> p + k \<noteq> 0"
  using offset_unat [of p n k] by (auto simp: block_def unat_eq_0 simp flip: unat_eq_zero)

lemma memchr_loop_cases:
  "(memchr_loop p v sz i m = 0 \<and> (\<forall>j. i \<le> j \<longrightarrow> j < sz \<longrightarrow> m (p + j) \<noteq> ucast v \<or> p + j = 0))
   \<or> (\<exists>k. memchr_loop p v sz i m = p + k \<and> i \<le> k \<and> k < sz \<and> m (p + k) = ucast v
        \<and> (\<forall>j. i \<le> j \<longrightarrow> j < k \<longrightarrow> m (p + j) \<noteq> ucast v))"
proof (induction p v sz i m rule: memchr_loop.induct)
  case (1 p v sz i m)
  show ?case
  proof (cases "i < sz \<and> m (p + i) \<noteq> ucast v")
    case True
    then have lt: "i < sz" and ne: "m (p + i) \<noteq> ucast v" by auto
    have step: "memchr_loop p v sz i m = memchr_loop p v sz (i + 1) m"
      using True by (subst memchr_loop.simps) simp
    have j: "i \<le> j \<Longrightarrow> j = i \<or> i + 1 \<le> j" for j by (auto simp: suc_le_iff [OF lt])
    from 1 [OF lt ne] show ?thesis
    proof
      assume "memchr_loop p v sz (i + 1) m = 0
        \<and> (\<forall>j. i + 1 \<le> j \<longrightarrow> j < sz \<longrightarrow> m (p + j) \<noteq> ucast v \<or> p + j = 0)"
      then show ?thesis using step j ne by metis
    next
      assume "\<exists>k. memchr_loop p v sz (i + 1) m = p + k \<and> i + 1 \<le> k \<and> k < sz \<and> m (p + k) = ucast v
        \<and> (\<forall>j. i + 1 \<le> j \<longrightarrow> j < k \<longrightarrow> m (p + j) \<noteq> ucast v)"
      then obtain k where k: "memchr_loop p v sz (i + 1) m = p + k" "i + 1 \<le> k" "k < sz" "m (p + k) = ucast v"
        "\<And>j. i + 1 \<le> j \<Longrightarrow> j < k \<Longrightarrow> m (p + j) \<noteq> ucast v" by blast
      have "i \<le> k" using k(2) by (simp add: suc_le_iff [OF lt])
      moreover have "m (p + j) \<noteq> ucast v" if "i \<le> j" "j < k" for j using j [OF that(1)] that(2) k(5) ne by blast
      ultimately show ?thesis using k(1,3,4) step by auto
    qed
  next
    case False
    then consider "\<not> i < sz" | "i < sz" "m (p + i) = ucast v" by blast
    then show ?thesis
    proof cases
      case 1
      then have "memchr_loop p v sz i m = 0" by (subst memchr_loop.simps) simp
      then show ?thesis using 1 by (auto dest: le_less_trans)
    next
      case 2
      then have "memchr_loop p v sz i m = p + i" by (subst memchr_loop.simps) simp
      then show ?thesis using 2 by (intro disjI2) (auto dest: leD)
    qed
  qed
qed

lemma of_nat_less: "n < unat (sz :: size32) \<Longrightarrow> of_nat n < sz \<and> unat (of_nat n :: size32) = n"
  using unat_lt32 [of sz] by (simp add: word_less_nat_alt unat_of_nat_len)

lemma memchr_nul:
  assumes "nstr m p (unat n) ys" "block p n"
  shows "memchr p 0 n m = (if length ys < unat n then p + of_nat (length ys) else 0)"
proof -
  have ys: "length ys \<le> unat n" "\<And>i. i < length ys \<Longrightarrow> m (p + of_nat i) \<noteq> 0"
    "length ys < unat n \<Longrightarrow> m (p + of_nat (length ys)) = 0"
    using assms(1) by (auto simp: nstr_def)
  from memchr_loop_cases [of p 0 n 0 m] show ?thesis
  proof
    assume a: "memchr_loop p 0 n 0 m = 0 \<and> (\<forall>j. 0 \<le> j \<longrightarrow> j < n \<longrightarrow> m (p + j) \<noteq> ucast (0 :: int32) \<or> p + j = 0)"
    have "\<not> length ys < unat n"
      using a ys(3) of_nat_less [of "length ys" n] block_inner [OF assms(2)] by auto
    with a show ?thesis by (simp add: memchr_def)
  next
    assume "\<exists>k. memchr_loop p 0 n 0 m = p + k \<and> 0 \<le> k \<and> k < n \<and> m (p + k) = ucast (0 :: int32)
        \<and> (\<forall>j. 0 \<le> j \<longrightarrow> j < k \<longrightarrow> m (p + j) \<noteq> ucast (0 :: int32))"
    then obtain k where k: "memchr_loop p 0 n 0 m = p + k" "k < n" "m (p + k) = 0"
      "\<And>j. j < k \<Longrightarrow> m (p + j) \<noteq> 0" by auto
    have "\<not> unat k < length ys" using ys(2) [of "unat k"] k(3) by auto
    moreover have "\<not> length ys < unat k"
      using k(4) ys(3) of_nat_less [of "length ys" k] k(2) by (auto simp: word_less_nat_alt)
    ultimately have "unat k = length ys" by linarith
    moreover from this [symmetric] have "k = of_nat (length ys)" by simp
    ultimately show ?thesis using k by (simp add: memchr_def word_less_nat_alt)
  qed
qed

lemma strnlen_eq:
  assumes "nstr m p (unat n) ys" "block p n"
  shows "strnlen p n m = of_nat (length ys)"
proof (cases "length ys < unat n")
  case True
  then show ?thesis
    using memchr_nul [OF assms] block_inner [OF assms(2)] of_nat_less [OF True] by (simp add: strnlen_def)
next
  case False
  then have "length ys = unat n" using assms(1) by (simp add: nstr_def)
  then show ?thesis using memchr_nul [OF assms] by (simp add: strnlen_def)
qed

text \<open>strlen returns once there is a terminator.\<close>

lemma strlen_loop_eq:
  "cstr m p ys \<Longrightarrow> k \<le> length ys \<Longrightarrow> strlen_loop p (of_nat k) m = Some (of_nat (length ys))"
proof (induction "length ys - k" arbitrary: k)
  case 0
  then show ?case by (subst strlen_loop.simps) (simp add: cstr_def)
next
  case (Suc d)
  then have "m (p + of_nat k) \<noteq> 0" by (simp add: cstr_def)
  then have "strlen_loop p (of_nat k) m = strlen_loop p (of_nat (Suc k)) m"
    by (subst strlen_loop.simps) (simp add: add.commute)
  moreover have "strlen_loop p (of_nat (Suc k)) m = Some (of_nat (length ys))"
    using Suc(1) [of "Suc k"] Suc(2-) by simp
  ultimately show ?case by simp
qed

subsection \<open>Properties\<close>

text \<open>
  C23: memmove copies the block as it was before the call, also when source and destination
  overlap in either direction, and changes no other byte.
\<close>

theorem memmove_correct:
  assumes "no_wrap dst sz" "no_wrap src sz"
  shows "memmove dst src sz m q = (if q - dst < sz then m (src + (q - dst)) else m q)"
  using memmove_copied [OF assms] by (simp add: copied_def)

theorem memmove_correct_witness: "\<forall>m. memmove 0x101 0x100 4 m 0x104 = m 0x103"
  using memmove_correct [of "0x101" 4 "0x100" _ "0x104"] by (simp add: no_wrap_def)

text \<open>
  memcpy agrees with memmove whenever the blocks do not overlap or the destination is
  below the source.
\<close>

theorem memcpy_is_memmove:
  assumes "no_wrap dst sz" "no_wrap src sz" "disjoint_blocks dst sz src sz \<or> dst \<le> src"
  shows "memcpy dst src sz m = memmove dst src sz m"
  using memcpy_copied [OF assms] memmove_copied [OF assms(1,2)] by simp

theorem memcpy_is_memmove_witness: "\<forall>m. memcpy 0x100 0x102 4 m = memmove 0x100 0x102 4 m"
  using memcpy_is_memmove [of "0x100" 4 "0x102"] by (simp add: no_wrap_def)

lemma of_nat_unat_ex: "(\<forall>i<n. P (of_nat i :: size32)) \<longleftrightarrow> (\<forall>k. unat k < n \<longrightarrow> P k)" if "n \<le> 2 ^ 32"
proof
  assume a: "\<forall>i<n. P (of_nat i)"
  show "\<forall>k. unat k < n \<longrightarrow> P k"
  proof (intro allI impI)
    fix k :: size32
    assume "unat k < n"
    with a have "P (of_nat (unat k))" by blast
    then show "P k" by simp
  qed
next
  assume a: "\<forall>k. unat k < n \<longrightarrow> P k"
  show "\<forall>i<n. P (of_nat i)"
  proof (intro allI impI)
    fix i
    assume "i < n"
    moreover from this have "unat (of_nat i :: size32) = i" using that by (intro unat_of_nat_len) simp
    ultimately show "P (of_nat i)" using a by simp
  qed
qed

lemma memset_eq: "memset buf v sz m q = (if q - buf < sz then ucast v else m q)"
  using memset_loop_eq [of buf v sz 0 m q] by (simp add: memset_def)

text \<open>The comparison finds the first difference.\<close>

lemma memcmp_loop_cases:
  "(memcmp_loop a b sz i m = 0 \<and> (\<forall>j. i \<le> j \<longrightarrow> j < sz \<longrightarrow> m (a + j) = m (b + j)))
   \<or> (\<exists>k. i \<le> k \<and> k < sz \<and> m (a + k) \<noteq> m (b + k)
        \<and> memcmp_loop a b sz i m = ucast (m (a + k)) - ucast (m (b + k))
        \<and> (\<forall>j. i \<le> j \<longrightarrow> j < k \<longrightarrow> m (a + j) = m (b + j)))"
proof (induction a b sz i m rule: memcmp_loop.induct)
  case (1 a b sz i m)
  have eq: "ucast (m (a + i)) - ucast (m (b + i)) = (0 :: int32) \<longleftrightarrow> m (a + i) = m (b + i)"
    by (simp add: word_unat_eq_iff [of "ucast _"] unat_ucast_le) (simp add: word_unat_eq_iff)
  consider "\<not> i < sz" | "i < sz" "m (a + i) \<noteq> m (b + i)" | "i < sz" "m (a + i) = m (b + i)" by blast
  then show ?case
  proof cases
    case 1
    then have "memcmp_loop a b sz i m = 0" by (subst memcmp_loop.simps) simp
    then show ?thesis using 1 by (auto dest: le_less_trans)
  next
    case 2
    then have "memcmp_loop a b sz i m = ucast (m (a + i)) - ucast (m (b + i))"
      using eq by (subst memcmp_loop.simps) (simp add: Let_def)
    then show ?thesis using 2 by (intro disjI2 exI [of _ i]) (auto dest: leD)
  next
    case 3
    have step: "memcmp_loop a b sz i m = memcmp_loop a b sz (i + 1) m"
      using 3 by (subst memcmp_loop.simps) simp
    have j: "i \<le> j \<Longrightarrow> j = i \<or> i + 1 \<le> j" "i + 1 \<le> j \<Longrightarrow> i \<le> j" for j
      by (auto simp: suc_le_iff [OF 3(1)])
    have "(memcmp_loop a b sz (i + 1) m = 0 \<and> (\<forall>j. i + 1 \<le> j \<longrightarrow> j < sz \<longrightarrow> m (a + j) = m (b + j)))
      \<or> (\<exists>k. i + 1 \<le> k \<and> k < sz \<and> m (a + k) \<noteq> m (b + k)
        \<and> memcmp_loop a b sz (i + 1) m = ucast (m (a + k)) - ucast (m (b + k))
        \<and> (\<forall>j. i + 1 \<le> j \<longrightarrow> j < k \<longrightarrow> m (a + j) = m (b + j)))"
      using 1 [OF 3(1) refl] 3(2) by simp
    then show ?thesis using step j 3(2) by metis
  qed
qed

lemma sint_byte_diff: "sint (ucast x - ucast y :: int32) = uint x - uint y" for x y :: u8
proof -
  have b: "uint x < 256" "uint y < 256" "0 \<le> uint x" "0 \<le> uint y"
    using uint_lt2p [of x] uint_lt2p [of y] by simp_all
  have s: "sint (ucast z :: int32) = uint z" for z :: u8
    using uint_lt2p [of z]
    by (simp add: signed_ucast_eq signed_take_bit_int_eq_self_iff) (use uint_ge_0 [of z] in linarith)
  show ?thesis
    by (simp add: sint_word_ariths s signed_take_bit_int_eq_self_iff) (use b in linarith)
qed

text \<open>
  Memcmp is zero exactly for equal blocks; otherwise it is the difference of the first
  bytes that differ, taken as unsigned characters, so its sign orders the blocks lexicographically.
\<close>

theorem memcmp_correct:
  "(memcmp a b sz m = 0 \<and> (\<forall>j. j < sz \<longrightarrow> m (a + j) = m (b + j)))
   \<or> (\<exists>k. k < sz \<and> m (a + k) \<noteq> m (b + k) \<and> (\<forall>j. j < k \<longrightarrow> m (a + j) = m (b + j))
        \<and> sint (memcmp a b sz m) = uint (m (a + k)) - uint (m (b + k)))"
  using memcmp_loop_cases [of a b sz 0 m] by (auto simp: memcmp_def sint_byte_diff)

theorem memcmp_correct_witness: "memcmp 0x100 0x200 4 ((\<lambda>_. 7)(0x202 := 9)) \<noteq> 0"
  using memcmp_correct [of "0x100" "0x200" 4 "(\<lambda>_. 7)(0x202 := 9)"] by (auto split: if_splits dest: spec [of _ 2])

subsection \<open>Bounded strings\<close>

lemma nstr_at: "nstr m p n ys \<Longrightarrow> unat k < length ys \<Longrightarrow> m (p + k) = ys ! unat k \<and> ys ! unat k \<noteq> 0"
proof -
  assume "nstr m p n ys" "unat k < length ys"
  then have "m (p + of_nat (unat k)) = ys ! unat k \<and> ys ! unat k \<noteq> 0" unfolding nstr_def by blast
  then show ?thesis by simp
qed

lemma block_disjoint:
  assumes "block p n" "block q k" "disjoint_blocks p n q k" "i < n" "j < k"
  shows "p + i \<noteq> q + j"
proof -
  have "unat (p + i) = unat p + unat i" "unat (q + j) = unat q + unat j"
    using offset_unat assms(1,2,4,5) by (auto simp: block_def)
  then show ?thesis using assms(3-5) by (auto simp: disjoint_blocks_def word_less_nat_alt word_unat_eq_iff)
qed

lemma block_offset: "block p n \<Longrightarrow> k + l \<le> unat n \<Longrightarrow> 0 < l \<Longrightarrow> block (p + of_nat k) (of_nat l)"
proof -
  assume a: "block p n" "k + l \<le> unat n" "0 < l"
  have k: "of_nat k < n" "unat (of_nat k :: size32) = k" using of_nat_less [of k n] a by auto
  have "l < 2 ^ 32" using a(2) unat_lt32 [of n] by simp
  then have l: "unat (of_nat l :: size32) = l" by (intro unat_of_nat_len) simp
  have "unat (p + of_nat k) = unat p + k" using offset_unat [of p n "of_nat k"] a(1) k by (simp add: block_def)
  then show ?thesis
    using a l block_inner [OF a(1) k(1)] by (simp add: block_def no_wrap_def)
qed

text \<open>Copying a string of n characters behind the first d bytes of a buffer.\<close>

lemma memcpy_behind:
  assumes "block dst dsz" "block src k" "disjoint_blocks dst dsz src k"
    and "unat d + unat l \<le> unat dsz" "l \<le> k"
  shows "memcpy (dst + d) src l m = copied (dst + d) src l m"
proof (cases "l = 0")
  case True
  then show ?thesis unfolding memcpy_def by (subst memcpy_loop.simps) (simp add: copied_def)
next
  case False
  then have "0 < unat l" by (simp add: unat_gt_0)
  then have d: "d < dsz" using assms(4) by (simp add: word_less_nat_alt)
  have u: "unat (dst + d) = unat dst + unat d" using offset_unat [of dst dsz d] assms(1) d by (simp add: block_def)
  have "no_wrap (dst + d) l" using assms(1,4) u by (simp add: block_def no_wrap_def)
  moreover have "no_wrap src l" using block_le [OF assms(2,5)] by (simp add: block_def)
  moreover have "disjoint_blocks (dst + d) l src l"
    using assms(3,4,5) u by (auto simp: disjoint_blocks_def word_le_nat_alt)
  ultimately show ?thesis by (intro memcpy_copied) auto
qed

text \<open>The string a buffer holds after another one is copied to its end and terminated.\<close>

lemma append_cstr:
  assumes "block dst dsz" "nstr m dst (unat dsz) xs" "nstr m src k ys"
    and "length xs + n < unat dsz" "n \<le> length ys"
    and "m' = copied (dst + of_nat (length xs)) src (of_nat n) m"
  shows "cstr (m'(dst + of_nat (length xs) + of_nat n := 0)) dst (xs @ take n ys)"
proof -
  define d where "d = (of_nat (length xs) :: size32)"
  define l where "l = (of_nat n :: size32)"
  have d: "unat d = length xs" "unat l = n" "unat (d + l) = length xs + n"
  proof -
    show "unat d = length xs" "unat l = n"
      using assms(4) of_nat_less [of "length xs" dsz] of_nat_less [of n dsz] by (simp_all add: d_def l_def)
    then show "unat (d + l) = length xs + n"
      using assms(4) unat_lt32 [of dsz] by (simp add: unat_add_noov)
  qed
  let ?m = "m'(dst + d + l := 0)"
  have m': "m' q = (if q - (dst + d) < l then m (src + (q - (dst + d))) else m q)" for q
    by (simp add: assms(6) copied_def d_def l_def)
  have at: "?m (dst + k) = (xs @ take n ys) ! unat k \<and> (xs @ take n ys) ! unat k \<noteq> 0"
    if k: "unat k < length xs + n" for k
  proof -
    have ne: "k \<noteq> d + l" using k d(3) by auto
    show ?thesis
    proof (cases "k < d")
      case True
      have "\<not> k - d < l"
      proof -
        have "unat (k - d) = unat k + 2 ^ 32 - unat d"
          using True by (subst unat_sub_if') (auto simp: word_less_nat_alt)
        then show ?thesis using d k assms(4) unat_lt32 [of dsz] by (simp add: word_less_nat_alt)
      qed
      then show ?thesis using True ne d nstr_at [OF assms(2), of k]
        by (simp add: m' word_less_nat_alt nth_append algebra_simps)
    next
      case False
      then have u: "unat (k - d) = unat k - length xs" "length xs \<le> unat k"
        using d by (auto simp: unat_sub_noov word_less_nat_alt)
      have lt: "k - d < l" using u k d(2) by (simp add: word_less_nat_alt)
      have "unat (k - d) < length ys" using u k assms(5) by linarith
      note s = nstr_at [OF assms(3) this]
      show ?thesis using s lt u ne k by (simp add: m' nth_append algebra_simps)
    qed
  qed
  have len: "length (xs @ take n ys) = length xs + n" using assms(5) by simp
  have bound: "length xs + n \<le> 2 ^ 32" using assms(4) unat_lt32 [of dsz] by simp
  have "\<forall>i<length xs + n. ?m (dst + of_nat i) = (xs @ take n ys) ! i \<and> (xs @ take n ys) ! i \<noteq> 0"
  proof (intro allI impI)
    fix i
    assume i: "i < length xs + n"
    then have "unat (of_nat i :: size32) = i" using of_nat_less [of i dsz] assms(4) by simp
    with at [of "of_nat i"] i show "?m (dst + of_nat i) = (xs @ take n ys) ! i \<and> (xs @ take n ys) ! i \<noteq> 0" by simp
  qed
  moreover have "?m (dst + of_nat (length xs + n)) = 0" by (simp add: d_def l_def algebra_simps)
  ultimately show ?thesis unfolding cstr_def len by (simp add: d_def l_def)
qed

lemma nstr_length: "nstr m p n ys \<Longrightarrow> length ys \<le> n"
  by (simp add: nstr_def)

lemma s_strncat_ok:
  assumes "cstr m dst xs" "length xs < unat dsz" "nstr m src (unat ssz) ys"
    and "block dst dsz" "block src ssz" "disjoint_blocks dst dsz src ssz"
  shows "\<exists>m'. s_strncat dst dsz src ssz m = (dst, m') \<and> cstr m' dst (take (unat dsz - 1) (xs @ ys))
     \<and> (\<forall>q. \<not> q - dst < dsz \<longrightarrow> m' q = m q)"
proof -
  define d where "d = (of_nat (length xs) :: size32)"
  define n where "n = min (length ys) (unat dsz - 1 - length xs)"
  define l where "l = (of_nat n :: size32)"
  have bound: "unat dsz + unat ssz \<le> 2 ^ 32"
    using assms(4-6) by (auto simp: block_def no_wrap_def disjoint_blocks_def)
  have ys: "length ys \<le> unat ssz" using assms(3) by (rule nstr_length)
  have nx: "nstr m dst (unat dsz) xs" by (rule cstr_nstr [OF assms(1,2)])
  have d: "unat d = length xs" using of_nat_less [OF assms(2)] by (simp add: d_def)
  have n: "length xs + n < unat dsz" "n \<le> length ys" using assms(2) by (auto simp: n_def)
  then have l: "unat l = n" using of_nat_less [of n dsz] by (simp add: l_def)
  have endp: "memchr dst 0 dsz m = dst + d" using memchr_nul [OF nx assms(4)] assms(2) by (simp add: d_def)
  have ne: "dst + d \<noteq> 0" using block_inner [OF assms(4), of d] of_nat_less [OF assms(2)] by (simp add: d_def)
  have yl: "unat (of_nat (length ys) :: size32) = length ys"
    using ys bound assms(2) by (intro unat_of_nat_len) simp
  have one: "unat (dsz - 1) = unat dsz - 1" using assms(2) by (subst unat_sub_noov) auto
  have d1: "unat (d + 1) = length xs + 1" using assms(2) d unat_lt32 [of dsz] by (simp add: unat_add_noov)
  have sum: "unat (d + of_nat (length ys)) = length xs + length ys"
    using assms(2) ys bound d yl by (simp add: unat_add_noov)
  have slen: "(if d + strnlen src ssz m > dsz - 1 then dsz - (d + 1) else strnlen src ssz m) = l"
  proof (rule word_eq_unatI)
    show "unat (if d + strnlen src ssz m > dsz - 1 then dsz - (d + 1) else strnlen src ssz m) = unat l"
      unfolding strnlen_eq [OF assms(3,5)]
      using assms(2) sum one d1 yl l by (auto simp: word_less_nat_alt n_def unat_sub_noov)
  qed
  have cp: "memcpy (dst + d) src l m = copied (dst + d) src l m"
    using n ys d l by (intro memcpy_behind [OF assms(4,5,6)]) (auto simp: word_le_nat_alt)
  define m' where "m' = (copied (dst + d) src l m)(dst + d + l := 0)"
  have "s_strncat dst dsz src ssz m = (dst, m')"
    using ne by (simp add: s_strncat_def endp slen cp m'_def Let_def)
  moreover have "cstr m' dst (take (unat dsz - 1) (xs @ ys))"
  proof -
    have "take (unat dsz - 1) (xs @ ys) = xs @ take n ys" using assms(2) by (simp add: n_def min_def)
    then show ?thesis
      using append_cstr [OF assms(4) nx assms(3) n refl] by (simp add: m'_def d_def l_def)
  qed
  moreover have "m' q = m q" if q: "\<not> q - dst < dsz" for q
  proof -
    have "\<not> q - (dst + d) < l"
    proof
      assume a: "q - (dst + d) < l"
      define r where "r = q - (dst + d)"
      have "q - dst = d + r" by (simp add: r_def)
      moreover have "unat (d + r) = unat d + unat r" "unat r < n"
        using a l d n unat_lt32 [of dsz] by (simp_all add: r_def [symmetric] unat_add_noov word_less_nat_alt)
      ultimately show False using q n d by (simp add: word_less_nat_alt)
    qed
    moreover have "q \<noteq> dst + d + l"
    proof
      assume "q = dst + d + l"
      then have "q - dst = d + l" by simp
      moreover have "unat (d + l) = length xs + n" using n d l unat_lt32 [of dsz] by (simp add: unat_add_noov)
      ultimately show False using q n by (simp add: word_less_nat_alt)
    qed
    ultimately show ?thesis by (simp add: m'_def copied_def)
  qed
  ultimately show ?thesis by blast
qed

text \<open>
  _s_strncat appends the source to the string in the destination buffer, cut to the
  buffer's length, always terminates it, and writes nothing outside the buffer.
\<close>

theorem s_strncat_correct:
  assumes "cstr m dst xs" "length xs < unat dsz" "nstr m src (unat ssz) ys"
    and "block dst dsz" "block src ssz" "disjoint_blocks dst dsz src ssz"
  shows "\<exists>m'. s_strncat dst dsz src ssz m = (dst, m') \<and> cstr m' dst (take (unat dsz - 1) (xs @ ys))
     \<and> (\<forall>q. \<not> q - dst < dsz \<longrightarrow> m' q = m q)"
  using assms by (rule s_strncat_ok)

text \<open>A buffer of 4 bytes with one character, and a source of 4.\<close>

definition sample_mem :: mem where
  "sample_mem = (\<lambda>_. 0)(0x100 := 65, 0x200 := 66, 0x201 := 67, 0x202 := 68, 0x203 := 69)"

lemma less_4: "(\<forall>i<Suc (Suc (Suc (Suc 0))). P i) \<longleftrightarrow> P 0 \<and> P 1 \<and> P 2 \<and> P (3 :: nat)"
  by (auto simp: All_less_Suc numeral_2_eq_2 numeral_3_eq_3)

lemma sample_strings:
  "cstr sample_mem 0x100 [65]" "nstr sample_mem 0x200 4 [66, 67, 68, 69]" "cstr sample_mem 0x200 [66, 67, 68, 69]"
  by (simp_all add: cstr_def nstr_def sample_mem_def less_4)

theorem s_strncat_correct_witness:
  "\<exists>m'. s_strncat 0x100 4 0x200 4 sample_mem = (0x100, m') \<and> cstr m' 0x100 [65, 66, 67]"
  using s_strncat_correct [OF sample_strings(1), of 4 "0x200" 4 "[66, 67, 68, 69]"] sample_strings(2)
  by (auto simp: block_def no_wrap_def disjoint_blocks_def)

lemma shift_less: "s \<le> z \<Longrightarrow> r - s < z - s \<longleftrightarrow> s \<le> r \<and> r < z" for r s z :: "32 word"
proof -
  assume a: "s \<le> z"
  then have z: "unat (z - s) = unat z - unat s" by (simp add: unat_sub_noov word_le_nat_alt)
  show ?thesis
  proof (cases "s \<le> r")
    case True
    then have "unat (r - s) = unat r - unat s" by (simp add: unat_sub_noov word_le_nat_alt)
    then show ?thesis using z True a by (auto simp: word_less_nat_alt word_le_nat_alt)
  next
    case False
    then have "unat (r - s) = unat r + 2 ^ 32 - unat s" by (subst unat_sub_if') (auto simp: word_le_nat_alt)
    then show ?thesis using z False a unat_lt32 [of z] by (auto simp: word_less_nat_alt word_le_nat_alt)
  qed
qed

lemma block_sizes: "block p n \<Longrightarrow> block q k \<Longrightarrow> disjoint_blocks p n q k \<Longrightarrow> unat n + unat k < 2 ^ 32"
  by (auto simp: block_def no_wrap_def disjoint_blocks_def simp flip: unat_gt_0)

text \<open>
  strncpy fills exactly the n bytes of the destination with the first n characters of
  the source, padded with NUL.
\<close>

theorem strncpy_correct:
  assumes "nstr m src (unat sz) ys" "block dst sz" "block src sz" "disjoint_blocks dst sz src sz"
  shows "strncpy dst src sz m q =
    (if q - dst < sz then if unat (q - dst) < length ys then ys ! unat (q - dst) else 0 else m q)"
proof -
  define s where "s = (if length ys < unat sz then of_nat (length ys) + 1 else sz :: size32)"
  have le: "length ys \<le> unat sz" using assms(1) by (rule nstr_length)
  have sz: "unat sz + 1 < 2 ^ 32" using block_sizes [OF assms(2-4)] by simp
  have u: "unat (of_nat (length ys) :: size32) = length ys" using le sz by (intro unat_of_nat_len) simp
  then have u1: "unat (of_nat (length ys) + 1 :: size32) = length ys + 1" using le sz by (simp add: unat_add_noov)
  have s: "s \<le> sz" "s = sz \<or> unat s = length ys + 1"
    using u1 le by (auto simp: s_def word_le_nat_alt)
  have ssz: "(if strnlen src sz m + 1 > sz then sz else strnlen src sz m + 1) = s"
    unfolding strnlen_eq [OF assms(1,3)] using u1 le by (auto simp: s_def word_less_nat_alt)
  have nw: "no_wrap dst sz" "no_wrap src sz" using assms(2,3) by (simp_all add: block_def)
  have "disjoint_blocks dst s src s" using assms(4) s(1) by (auto simp: disjoint_blocks_def word_le_nat_alt)
  moreover have "no_wrap dst s" "no_wrap src s" using nw s(1) by (auto simp: no_wrap_def word_le_nat_alt)
  ultimately have cp: "memcpy dst src s m = copied dst src s m" by (intro memcpy_copied) auto
  have off: "q - (dst + s) < sz - s \<longleftrightarrow> s \<le> q - dst \<and> q - dst < sz"
    using shift_less [OF s(1), of "q - dst"] by (simp only: diff_diff_eq)
  have eq: "strncpy dst src sz m q = (if s < sz \<and> s \<le> q - dst \<and> q - dst < sz then 0 else copied dst src s m q)"
    unfolding strncpy_def Let_def ssz cp by (auto simp: memset_eq off)
  consider "\<not> q - dst < sz" | "q - dst < sz" "unat (q - dst) < length ys"
    | "q - dst < sz" "unat (q - dst) = length ys" | "q - dst < sz" "length ys < unat (q - dst)" by linarith
  then show ?thesis
  proof cases
    case 1
    then show ?thesis using s(1) by (auto simp: eq copied_def)
  next
    case 2
    then have "q - dst < s" using u1 by (auto simp: s_def word_less_nat_alt)
    then show ?thesis using 2 nstr_at [OF assms(1), of "q - dst"] by (auto simp: eq copied_def)
  next
    case 3
    then have "length ys < unat sz" by (simp add: word_less_nat_alt)
    then have "q - dst < s" "m (src + of_nat (length ys)) = 0"
      using u1 3 assms(1) by (auto simp: s_def word_less_nat_alt nstr_def)
    moreover have "of_nat (length ys) = q - dst" unfolding 3(2) [symmetric] by simp
    ultimately show ?thesis using 3 by (auto simp: eq copied_def)
  next
    case 4
    then have "length ys < unat sz" by (simp add: word_less_nat_alt)
    then have "s \<le> q - dst" using 4 u1 by (simp add: s_def word_le_nat_alt)
    then show ?thesis using 4 by (auto simp: eq dest: leD)
  qed
qed

theorem strncpy_correct_witness: "strncpy 0x300 0x100 4 sample_mem 0x300 = 65"
  using strncpy_correct [OF cstr_nstr [OF sample_strings(1)], of 4 "0x300" "0x300"]
  by (simp add: block_def no_wrap_def disjoint_blocks_def)

text \<open>
  Strlen returns the length of every terminated string; strnlen is its minimum with the
  bound.
\<close>

theorem strlen_terminates:
  assumes "cstr m p ys" "block p n" "length ys \<le> unat n"
  shows "strlen p m = Some (of_nat (length ys))
     \<and> (k \<le> n \<longrightarrow> strnlen p k m = (if length ys < unat k then of_nat (length ys) else k))"
proof -
  have "strnlen p k m = (if length ys < unat k then of_nat (length ys) else k)" if k: "k \<le> n"
  proof (cases "length ys < unat k")
    case True
    then show ?thesis using strnlen_eq [OF cstr_nstr [OF assms(1) True] block_le [OF assms(2) k]] by simp
  next
    case False
    then have "nstr m p (unat k) (take (unat k) ys)" using assms(1) by (simp add: nstr_def cstr_def min_def)
    then show ?thesis using strnlen_eq [OF _ block_le [OF assms(2) k]] False by (simp add: min_def)
  qed
  then show ?thesis using strlen_loop_eq [OF assms(1), of 0] by (simp add: strlen_def)
qed

theorem strlen_terminates_witness: "strlen 0x200 sample_mem = Some 4"
  using strlen_terminates [OF sample_strings(3), of 4 0] by (simp add: block_def no_wrap_def)

subsection \<open>Where the bounded functions fall short\<close>

text \<open>
  strncat into a full buffer of n bytes, from a source without a NUL in its first n, trims
  nothing: the byte behind the buffer gets the second character.
\<close>

theorem strncat_overflows: "strncat 0x100 0x200 2 sample_mem 0x102 = 67"
proof -
  have "nstr sample_mem 0x100 (unat (2 :: size32)) [65]" "nstr sample_mem 0x200 (unat (2 :: size32)) [66, 67]"
    by (simp_all add: nstr_def sample_mem_def All_less_Suc)
  then have l: "strnlen 0x100 2 sample_mem = 1" "strnlen 0x200 2 sample_mem = 2"
    by (simp_all add: strnlen_eq block_def no_wrap_def)
  have cp: "memcpy 0x101 0x200 3 sample_mem = copied 0x101 0x200 3 sample_mem"
    by (rule memcpy_copied) (simp_all add: no_wrap_def)
  have "strncat 0x100 0x200 2 sample_mem = (copied 0x101 0x200 3 sample_mem)(0x101 := 0)"
    unfolding strncat_def Let_def l by (simp add: cp word_le_nat_alt)
  then show ?thesis by (simp add: copied_def) (simp add: sample_mem_def)
qed

text \<open>
  _s_strncpy of ssz characters into a larger buffer leaves the byte behind them as it was: only
  the last byte of the buffer is set to NUL.
\<close>

theorem s_strncpy_unterminated: "s_strncpy 0x300 8 0x200 2 (sample_mem(0x302 := 90)) 0x302 = 90"
proof -
  let ?m = "sample_mem(0x302 := 90)"
  have "nstr ?m 0x200 (unat (2 :: size32)) [66, 67]"
    by (simp add: nstr_def sample_mem_def All_less_Suc)
  then have l: "strnlen 0x200 2 ?m = 2" by (simp add: strnlen_eq block_def no_wrap_def)
  have "memcpy 0x300 0x200 2 ?m = copied 0x300 0x200 2 ?m"
    by (rule memcpy_copied) (simp_all add: no_wrap_def disjoint_blocks_def)
  then show ?thesis unfolding s_strncpy_def Let_def l by (simp add: copied_def)
qed

end
