(* ===== verification/LibkPrintf.thy ===== *)
theory LibkPrintf
  imports LibkString
begin

text \<open>
  libs/libk/stdio: base_to_ascii and vsnprintf. The format is a list of characters whose end is
  the terminating NUL (it is not part of the memory the call writes), and the variable
  arguments are the 32-bit slots of the i386 calling convention. The conversion buffer nbuf
  and the literal ''0x'' have fixed addresses that are parameters.
\<close>

subsection \<open>base_to_ascii\<close>

definition digit_char :: "bool \<Rightarrow> u64 \<Rightarrow> u8" where
  "digit_char upper d = (if d \<ge> 10 then ucast d - 10 + (if upper then 65 else 97) else ucast d + 48)"

function ascii_loop :: "u64 \<Rightarrow> u64 \<Rightarrow> bool \<Rightarrow> addr \<Rightarrow> size32 \<Rightarrow> mem \<Rightarrow> addr \<times> mem" where
  "ascii_loop val base upper buf i m =
     (let d = val mod base; val = val div base; cont = (i > 0);
          m = m(buf + i := digit_char upper d); i' = i - 1
      in if \<not> cont \<or> val = 0 then (if \<not> cont then buf else buf + i' + 1, m)
         else ascii_loop val base upper buf i' m)"
  by pat_completeness auto
termination
proof (relation "measure (\<lambda>(_, _, _, _, i, _). unat i)")
  fix val base v d :: u64 and upper cont :: bool and buf :: addr and i i' :: size32 and m m' :: mem
  assume "cont = (0 < i)" "i' = i - 1" "\<not> (\<not> cont \<or> v = 0)"
  then have "0 < unat i" "unat i' = unat i - 1" by (simp_all add: unat_sub_noov word_less_nat_alt)
  then show "((v, base, upper, buf, i', m'), val, base, upper, buf, i, m)
      \<in> measure (\<lambda>(_, _, _, _, i, _). unat i)" by simp
qed simp

declare ascii_loop.simps [simp del]

definition base_to_ascii :: "u64 \<Rightarrow> int32 \<Rightarrow> bool \<Rightarrow> addr \<Rightarrow> size32 \<Rightarrow> mem \<Rightarrow> addr \<times> mem" where
  "base_to_ascii val base upper buf buflen m =
     (let i = buflen - 1; m = m(buf + i := 0) in ascii_loop val (scast base) upper buf (i - 1) m)"

subsection \<open>vsnprintf\<close>

definition FLAGS_UPPER :: int32 where "FLAGS_UPPER = 0x0001"
definition FLAGS_NOSIGN :: int32 where "FLAGS_NOSIGN = 0x0002"
definition FLAGS_MAXINT :: int32 where "FLAGS_MAXINT = 0x0004"
definition FLAGS_LONGINT :: int32 where "FLAGS_LONGINT = 0x0008"
definition FLAGS_LONGLONG :: int32 where "FLAGS_LONGLONG = 0x0010"
definition FLAGS_SHORT :: int32 where "FLAGS_SHORT = 0x0020"

lemmas flags_defs = FLAGS_UPPER_def FLAGS_NOSIGN_def FLAGS_MAXINT_def FLAGS_LONGINT_def
  FLAGS_LONGLONG_def FLAGS_SHORT_def

record print_env =
  sbuf :: addr
  slen :: size32
  nbuf :: addr
  lit0x :: addr

type_synonym va_list = "u32 list"

text \<open>Reading an argument that was not passed is undefined.\<close>

fun va_int :: "va_list \<Rightarrow> fault + (u32 \<times> va_list)" where
  "va_int [] = Inl Undefined"
| "va_int (a # as) = Inr (a, as)"

fun va_longlong :: "va_list \<Rightarrow> fault + (u64 \<times> va_list)" where
  "va_longlong (lo # hi # as) = Inr (push_bit 32 (ucast hi) OR ucast lo, as)"
| "va_longlong _ = Inl Undefined"

text \<open>The part at the label ''string'': whether it leaves for the exit, the position, the memory.\<close>

definition emit_string ::
    "print_env \<Rightarrow> addr \<Rightarrow> size32 \<Rightarrow> size32 \<Rightarrow> u8 \<Rightarrow> size32 \<Rightarrow> mem \<Rightarrow> (bool \<times> size32 \<times> mem) outcome" where
  "emit_string e p n width pad s m =
     (if s \<ge> slen e then Some (Inr (True, s, m))
      else let width = (if width > slen e - s - 1 then slen e - s - 1 else width);
               (s, m) = (if width > n then (s + (width - n), memset (sbuf e + s) (ucast pad) (width - n) m)
                         else (s, m));
               m = m(sbuf e + s := 0);
               (p, m) = s_strncat (sbuf e + s) (slen e - s) p n m
           in if p = 0 then Some (Inl (AssertFail ''vsnprintf(): Unable to concatenate string.''))
              else Some (Inr (False, s + n, m)))"

text \<open>The part at the label ''number'': fetch the argument, convert it, print its sign.\<close>

definition number_value :: "int32 \<Rightarrow> va_list \<Rightarrow> fault + (u64 \<times> va_list)" where
  "number_value flags args =
     (if flags AND (FLAGS_MAXINT OR FLAGS_LONGLONG) \<noteq> 0 then va_longlong args
      else bindf (va_int args) (\<lambda>(a, args). Inr (scast a, args)))"

definition number_sign :: "int32 \<Rightarrow> u8 \<Rightarrow> u64 \<Rightarrow> u8 \<times> u64" where
  "number_sign flags sign val =
     (if flags AND FLAGS_NOSIGN \<noteq> 0 then (0, val)
      else if val <s 0 then (45, - val)
      else (sign, val))"

definition emit_number ::
    "print_env \<Rightarrow> int32 \<Rightarrow> int32 \<Rightarrow> u8 \<Rightarrow> size32 \<Rightarrow> u8 \<Rightarrow> va_list \<Rightarrow> size32 \<Rightarrow> mem
      \<Rightarrow> (va_list \<times> bool \<times> size32 \<times> mem) outcome" where
  "emit_number e base flags sign width pad args s m =
     bindo (Some (number_value flags args)) (\<lambda>(val, args).
       let (sign, val) = number_sign flags sign val;
           (p, m) = base_to_ascii val base (flags AND FLAGS_UPPER \<noteq> 0) (nbuf e) 64 m;
           n = 64 - (p - nbuf e + 1)
       in if sign \<noteq> 0 \<and> \<not> s < slen e then Some (Inr (args, True, s, m))
          else let (s, m) = (if sign \<noteq> 0 then (s + 1, m(sbuf e + s := sign)) else (s, m))
               in bindo (emit_string e p n width pad s m) (\<lambda>r. Some (Inr (args, r))))"

text \<open>The part at case ''p'' before the number is converted.\<close>

definition emit_prefix :: "print_env \<Rightarrow> size32 \<Rightarrow> mem \<Rightarrow> (size32 \<times> mem) outcome" where
  "emit_prefix e s m =
     (let m = m(sbuf e + s := 0);
          (p, m) = s_strncat (sbuf e + s) (slen e - s) (lit0x e) 3 m
      in if p = 0 then Some (Inl (AssertFail ''vsnprintf(): Unable to concatenate string.''))
         else Some (Inr (s + 2, m)))"

fun fetch :: "string \<Rightarrow> char" where
  "fetch [] = CHR 0x00"
| "fetch (c # cs) = c"

lemma fetch_eq: "c \<noteq> CHR 0x00 \<Longrightarrow> fetch fp = c \<longleftrightarrow> (\<exists>cs. fp = c # cs)"
  by (cases fp) auto

lemma fetch_pos: "fetch fp \<noteq> CHR 0x00 \<Longrightarrow> 0 < length fp"
  by (cases fp) auto

definition char_byte :: "char \<Rightarrow> u8" where "char_byte c = of_nat (of_char c)"

definition is_digit19 :: "char \<Rightarrow> bool" where
  "is_digit19 c \<longleftrightarrow> 49 \<le> char_byte c \<and> char_byte c \<le> 57"

lemma digit_pos: "is_digit19 (fetch fp) \<Longrightarrow> 0 < length fp"
  by (cases fp) (auto simp: is_digit19_def char_byte_def)

text \<open>
  The outer loop, and the directive behind a percent sign. Every conversion ends at the break
  that skips its character; the default case writes its character and continues without
  skipping it.
\<close>

function fmt_loop :: "print_env \<Rightarrow> string \<Rightarrow> va_list \<Rightarrow> size32 \<Rightarrow> mem \<Rightarrow> (size32 \<times> mem) outcome"
  and directive :: "print_env \<Rightarrow> string \<Rightarrow> va_list \<Rightarrow> u8 \<Rightarrow> int32 \<Rightarrow> size32 \<Rightarrow> u8 \<Rightarrow> size32 \<Rightarrow> mem
    \<Rightarrow> (size32 \<times> mem) outcome"
where
  "fmt_loop e fp args s m =
     (if fetch fp \<noteq> CHR ''%'' \<and> fetch fp \<noteq> CHR 0x00 then
        if s < slen e then fmt_loop e (tl fp) args (s + 1) (m(sbuf e + s := char_byte (fetch fp)))
        else Some (Inr (s, m))
      else if fetch fp = CHR 0x00 \<or> s \<ge> slen e then Some (Inr (s, m))
      else directive e (tl fp) args 0 0 0 32 s m)"
| "directive e fp args sign flags width pad s m =
     (if fetch fp = CHR ''0'' then
        if width > 0 then directive e (tl fp) args sign flags (width * 10) pad s m
        else directive e (tl fp) args sign flags width 48 s m
      else if is_digit19 (fetch fp) then
        directive e (tl fp) args sign flags (width * 10 + ucast (char_byte (fetch fp) - 48)) pad s m
      else if fetch fp = CHR ''+'' then directive e (tl fp) args 43 flags width pad s m
      else if fetch fp = CHR ''j'' then directive e (tl fp) args sign (flags OR FLAGS_MAXINT) width pad s m
      else if fetch fp = CHR ''h'' then directive e (tl fp) args sign flags width pad s m
      else if fetch fp = CHR ''l'' then
        directive e (tl fp) args sign
          (if flags AND FLAGS_LONGINT \<noteq> 0 then flags AND NOT FLAGS_LONGINT OR FLAGS_LONGLONG
           else flags OR FLAGS_LONGINT) width pad s m
      else if fetch fp = CHR ''c'' then
        bindo (Some (va_int args)) (\<lambda>(a, args).
          if s < slen e then fmt_loop e (tl fp) args (s + 1) (m(sbuf e + s := ucast a))
          else Some (Inr (s, m)))
      else if fetch fp = CHR ''s'' then
        bindo (Some (va_int args)) (\<lambda>(p, args).
          case strlen p m of
            None \<Rightarrow> None
          | Some n \<Rightarrow> bindo (emit_string e p n width 32 s m) (\<lambda>(done, s, m).
              if done then Some (Inr (s, m)) else fmt_loop e (tl fp) args s m))
      else if fetch fp = CHR ''p'' then
        bindo (emit_prefix e s m) (\<lambda>(s, m).
        bindo (emit_number e 16 (flags OR FLAGS_UPPER OR FLAGS_NOSIGN) sign
                 (if flags AND FLAGS_MAXINT \<noteq> 0 then 16 else 8) 48 args s m) (\<lambda>(args, done, s, m).
          if done then Some (Inr (s, m)) else fmt_loop e (tl fp) args s m))
      else if fetch fp \<in> {CHR ''o'', CHR ''u'', CHR ''d'', CHR ''i'', CHR ''x'', CHR ''X''} then
        bindo (emit_number e
                 (if fetch fp = CHR ''o'' then 8 else if fetch fp \<in> {CHR ''x'', CHR ''X''} then 16 else 10)
                 (if fetch fp \<in> {CHR ''d'', CHR ''i''} then flags
                  else if fetch fp = CHR ''x'' then flags AND NOT FLAGS_UPPER OR FLAGS_NOSIGN
                  else if fetch fp = CHR ''X'' then flags OR FLAGS_UPPER OR FLAGS_NOSIGN
                  else flags OR FLAGS_NOSIGN)
                 sign width pad args s m) (\<lambda>(args, done, s, m).
          if done then Some (Inr (s, m)) else fmt_loop e (tl fp) args s m)
      else if s < slen e then
        if fetch fp = CHR 0x00 then Some (Inr (s + 1, m(sbuf e + s := char_byte (fetch fp))))
        else fmt_loop e fp args (s + 1) (m(sbuf e + s := char_byte (fetch fp)))
      else Some (Inr (s, m)))"
  by pat_completeness auto
termination
  by (relation "measure (\<lambda>x. case x of Inl (_, fp, _) \<Rightarrow> 2 * length fp | Inr (_, fp, _) \<Rightarrow> Suc (2 * length fp))")
    (auto dest!: digit_pos fetch_pos simp: fetch_eq)

definition vsnprintf :: "print_env \<Rightarrow> string \<Rightarrow> va_list \<Rightarrow> mem \<Rightarrow> (int32 \<times> mem) outcome" where
  "vsnprintf e fmt args m =
     (if slen e = 0 then Some (Inr (0, m))
      else bindo (fmt_loop e fmt args 0 m) (\<lambda>(s, m).
        let s = (if s < slen e - 1 then s else slen e - 1)
        in Some (Inr (s, m(sbuf e + s := 0)))))"

declare fmt_loop.simps [simp del] directive.simps [simp del]

subsection \<open>Nothing is written outside the buffers\<close>

definition frame :: "print_env \<Rightarrow> mem \<Rightarrow> mem \<Rightarrow> bool" where
  "frame e m m' \<longleftrightarrow> (\<forall>q. \<not> q - sbuf e < slen e \<longrightarrow> \<not> q - nbuf e < 64 \<longrightarrow> m' q = m q)"

definition env_ok :: "print_env \<Rightarrow> bool" where
  "env_ok e \<longleftrightarrow> block (sbuf e) (slen e) \<and> block (nbuf e) 64"

lemma frame_refl [simp]: "frame e m m" by (simp add: frame_def)

lemma frame_trans: "frame e m m' \<Longrightarrow> frame e m' m'' \<Longrightarrow> frame e m m''" by (simp add: frame_def)

lemma frame_sbuf: "s < slen e \<Longrightarrow> frame e m (m(sbuf e + s := c))" by (auto simp: frame_def)

lemma frame_nbuf: "i < 64 \<Longrightarrow> frame e m (m(nbuf e + i := c))" by (auto simp: frame_def)

lemma memcpy_loop_frame: "\<not> q - dst < sz \<Longrightarrow> memcpy_loop dst src sz i m q = m q"
proof (induction dst src sz i m rule: memcpy_loop.induct)
  case (1 dst src sz i m)
  show ?case
  proof (cases "i < sz")
    case True
    then have "memcpy_loop dst src sz i m q = memcpy_loop dst src sz (i + 1) (m(dst + i := m (src + i))) q"
      by (subst memcpy_loop.simps) simp
    also have "\<dots> = (m(dst + i := m (src + i))) q" by (rule 1(1) [OF True 1(2)])
    finally show ?thesis using 1(2) True by auto
  next
    case False
    then show ?thesis by (subst memcpy_loop.simps) simp
  qed
qed

lemma within:
  "s \<le> slen e \<Longrightarrow> \<not> q - sbuf e < slen e \<Longrightarrow> \<not> q - (sbuf e + s) < slen e - s"
  using shift_less [of s "slen e" "q - sbuf e"] by (simp add: diff_diff_eq)

lemma s_strncat_frame:
  assumes "m dst = 0" "0 < dsz" "dst \<noteq> 0"
  shows "\<exists>m'. s_strncat dst dsz src ssz m = (dst, m') \<and> (\<forall>q. \<not> q - dst < dsz \<longrightarrow> m' q = m q)"
proof -
  have c: "memchr dst 0 dsz m = dst"
    unfolding memchr_def by (subst memchr_loop.simps) (simp add: assms)
  define l where "l = (if strnlen src ssz m > dsz - 1 then dsz - 1 else strnlen src ssz m)"
  have "unat (dsz - 1) = unat dsz - 1" "0 < unat dsz" using assms(2) by (simp_all add: unat_sub_noov word_less_nat_alt)
  then have l: "l < dsz" by (auto simp: l_def word_less_nat_alt)
  have "s_strncat dst dsz src ssz m = (dst, (memcpy dst src l m)(dst + l := 0))"
    using assms(3) by (simp add: s_strncat_def c Let_def l_def)
  moreover have "((memcpy dst src l m)(dst + l := 0)) q = m q" if "\<not> q - dst < dsz" for q
    using that l memcpy_loop_frame [of q dst l] by (auto simp: memcpy_def dest: less_trans)
  ultimately show ?thesis by blast
qed

lemma ascii_loop_frame: "i < 64 \<Longrightarrow> frame e m (snd (ascii_loop val base upper (nbuf e) i m))"
proof (induction val base upper "nbuf e" i m rule: ascii_loop.induct)
  case (1 val base upper i m)
  let ?m = "m(nbuf e + i := digit_char upper (val mod base))"
  show ?case
  proof (cases "0 < i \<and> val div base \<noteq> 0")
    case True
    then have "i - 1 < i" by (simp add: word_less_nat_alt unat_sub_noov unat_gt_0 Suc_leI)
    then have lt: "i - 1 < 64" using 1(2) by (rule less_trans)
    have "ascii_loop val base upper (nbuf e) i m = ascii_loop (val div base) base upper (nbuf e) (i - 1) ?m"
      using True by (subst ascii_loop.simps) (simp add: Let_def)
    moreover have "frame e ?m (snd (ascii_loop (val div base) base upper (nbuf e) (i - 1) ?m))"
      using True by (intro 1(1) [OF refl refl refl refl refl _ lt]) auto
    ultimately show ?thesis using frame_trans [OF frame_nbuf [OF 1(2)]] by simp
  next
    case False
    then have "snd (ascii_loop val base upper (nbuf e) i m) = ?m"
      by (subst ascii_loop.simps) (auto simp: Let_def)
    then show ?thesis using frame_nbuf [OF 1(2)] by simp
  qed
qed

lemma base_to_ascii_frame: "frame e m (snd (base_to_ascii val base upper (nbuf e) 64 m))"
  unfolding base_to_ascii_def Let_def
  by (rule frame_trans [OF frame_nbuf ascii_loop_frame]) simp_all

text \<open>The outcomes the operations can have: only a missing argument faults.\<close>

fun safe :: "(('a \<times> mem) outcome \<Rightarrow> print_env \<Rightarrow> mem \<Rightarrow> bool)" where
  "safe None e m \<longleftrightarrow> True"
| "safe (Some (Inl f)) e m \<longleftrightarrow> f = Undefined"
| "safe (Some (Inr (x, m'))) e m \<longleftrightarrow> frame e m m'"

lemma safe_trans: "frame e m m' \<Longrightarrow> safe r e m' \<Longrightarrow> safe r e m"
  by (cases "(r, e, m)" rule: safe.cases) (auto intro: frame_trans)

lemma emit_string_safe:
  assumes "env_ok e"
  shows "\<exists>r s' m'. emit_string e p n width pad s m = Some (Inr (r, s', m')) \<and> frame e m m'"
proof (cases "s \<ge> slen e")
  case True
  then show ?thesis by (intro exI [of _ True]) (simp add: emit_string_def)
next
  case False
  then have s: "s < slen e" by simp
  define w where "w = (if width > slen e - s - 1 then slen e - s - 1 else width)"
  define s1 where "s1 = (if w > n then s + (w - n) else s)"
  define m1 where "m1 = (if w > n then memset (sbuf e + s) (ucast pad) (w - n) m else m)"
  have us: "unat (slen e - s) = unat (slen e) - unat s" "unat s < unat (slen e)"
    using s by (simp_all add: unat_sub_noov word_less_nat_alt)
  then have us1: "unat (slen e - s - 1) = unat (slen e) - unat s - 1" by (simp add: unat_sub_noov)
  have w: "unat w \<le> unat (slen e) - unat s - 1"
    using us1 by (auto simp: w_def word_less_nat_alt)
  have wn: "w > n \<Longrightarrow> unat (w - n) = unat w - unat n" by (simp add: unat_sub_noov word_less_nat_alt)
  have s1: "s1 < slen e"
  proof (cases "w > n")
    case True
    then have "unat (s + (w - n)) = unat s + (unat w - unat n)"
      using wn w us(2) unat_lt32 [of "slen e"] by (simp add: unat_add_noov)
    then show ?thesis using True w us(2) by (simp add: s1_def word_less_nat_alt)
  qed (simp add: s1_def s)
  have m1: "frame e m m1"
  proof (cases "w > n")
    case True
    have "w - n < slen e - s" using wn [OF True] w us True by (simp add: word_less_nat_alt)
    then have "m1 q = m q" if "\<not> q - sbuf e < slen e" for q
      using that within [OF less_imp_le [OF s], of q] True by (auto simp: m1_def memset_eq dest: less_trans)
    then show ?thesis by (simp add: frame_def)
  qed (simp add: m1_def)
  have d: "0 < slen e - s1" using s1 by (simp add: word_less_nat_alt unat_sub_noov)
  have z: "sbuf e + s1 \<noteq> 0" using assms s1 by (intro block_inner) (simp_all add: env_ok_def)
  obtain m2 where m2: "s_strncat (sbuf e + s1) (slen e - s1) p n (m1(sbuf e + s1 := 0)) = (sbuf e + s1, m2)"
    "\<And>q. \<not> q - (sbuf e + s1) < slen e - s1 \<Longrightarrow> m2 q = (m1(sbuf e + s1 := 0)) q"
    using s_strncat_frame [OF _ d z, of "m1(sbuf e + s1 := 0)" p n] by auto
  have "frame e (m1(sbuf e + s1 := 0)) m2"
    using m2(2) within [of s1 e] s1 by (simp add: frame_def less_imp_le)
  then have "frame e m m2" using m1 frame_sbuf [OF s1] by (blast intro: frame_trans)
  moreover have "emit_string e p n width pad s m = Some (Inr (False, s1 + n, m2))"
    using False z m2(1) by (simp add: emit_string_def Let_def w_def [symmetric] s1_def m1_def split: if_splits)
  ultimately show ?thesis by blast
qed

lemma emit_prefix_safe:
  assumes "env_ok e" "s < slen e"
  shows "\<exists>m'. emit_prefix e s m = Some (Inr (s + 2, m')) \<and> frame e m m'"
proof -
  let ?m = "m(sbuf e + s := 0)"
  have d: "0 < slen e - s" using assms(2) by (simp add: word_less_nat_alt unat_sub_noov)
  have z: "sbuf e + s \<noteq> 0" using assms by (intro block_inner) (simp_all add: env_ok_def)
  obtain m' where m': "s_strncat (sbuf e + s) (slen e - s) (lit0x e) 3 ?m = (sbuf e + s, m')"
    "\<And>q. \<not> q - (sbuf e + s) < slen e - s \<Longrightarrow> m' q = ?m q"
    using s_strncat_frame [OF _ d z, of ?m "lit0x e" 3] by auto
  have "frame e ?m m'"
    using m'(2) within [of s e] assms(2) by (simp add: frame_def less_imp_le)
  then have "frame e m m'" using frame_sbuf [OF assms(2)] by (blast intro: frame_trans)
  then show ?thesis using z m'(1) by (simp add: emit_prefix_def)
qed

lemma va_undefined:
  "va_int args = Inl f \<Longrightarrow> f = Undefined" "va_longlong args = Inl f \<Longrightarrow> f = Undefined"
  by (cases args rule: va_int.cases; simp) (cases args rule: va_longlong.cases; simp)

lemma number_undefined: "number_value flags args = Inl f \<Longrightarrow> f = Undefined"
  by (cases "va_int args") (auto simp: number_value_def va_undefined split: if_splits prod.splits)

lemma emit_number_safe:
  assumes "env_ok e"
  shows "emit_number e base flags sign width pad args s m = Some (Inl Undefined)
    \<or> (\<exists>args' r s' m'. emit_number e base flags sign width pad args s m = Some (Inr (args', r, s', m'))
         \<and> frame e m m')"
proof (cases "number_value flags args")
  case (Inl f)
  then show ?thesis using number_undefined by (simp add: emit_number_def)
next
  case (Inr x)
  obtain val args' where x: "x = (val, args')" by (cases x)
  obtain sg v where sv: "number_sign flags sign val = (sg, v)" by (cases "number_sign flags sign val")
  obtain p m1 where b: "base_to_ascii v base (flags AND FLAGS_UPPER \<noteq> 0) (nbuf e) 64 m = (p, m1)"
    by (cases "base_to_ascii v base (flags AND FLAGS_UPPER \<noteq> 0) (nbuf e) 64 m")
  have m1: "frame e m m1"
    using base_to_ascii_frame [of e m v base "flags AND FLAGS_UPPER \<noteq> 0"] b by simp
  show ?thesis
  proof (cases "sg \<noteq> 0 \<and> \<not> s < slen e")
    case True
    then show ?thesis using Inr x sv b m1 by (intro disjI2 exI [of _ args'] exI [of _ True]) (simp add: emit_number_def)
  next
    case False
    define s2 where "s2 = (if sg \<noteq> 0 then s + 1 else s)"
    define m2 where "m2 = (if sg \<noteq> 0 then m1(sbuf e + s := sg) else m1)"
    have m2: "frame e m1 m2" using False frame_sbuf by (auto simp: m2_def)
    obtain r s' m' where r: "emit_string e p (64 - (p - nbuf e + 1)) width pad s2 m2 = Some (Inr (r, s', m'))"
      "frame e m2 m'" using emit_string_safe [OF assms] by blast
    have "emit_number e base flags sign width pad args s m = Some (Inr (args', r, s', m'))"
      using Inr x sv b r(1) False by (auto simp: emit_number_def Let_def s2_def m2_def)
    moreover have "frame e m m'" using m1 m2 r(2) by (blast intro: frame_trans)
    ultimately show ?thesis by blast
  qed
qed

lemma safe_emit_string:
  assumes "env_ok e" "\<And>s m. safe (K s m) e m"
  shows "safe (bindo (emit_string e p n width pad s m)
    (\<lambda>(done, s, m). if done then Some (Inr (s, m)) else K s m)) e m"
  using emit_string_safe [OF assms(1), of p n width pad s m] safe_trans [OF _ assms(2)] by auto

lemma safe_emit_number:
  assumes "env_ok e" "\<And>args s m. safe (K args s m) e m"
  shows "safe (bindo (emit_number e base flags sign width pad args s m)
    (\<lambda>(args, done, s, m). if done then Some (Inr (s, m)) else K args s m)) e m"
  using emit_number_safe [OF assms(1), of base flags sign width pad args s m] safe_trans [OF _ assms(2)] by auto

lemma fmt_loop_step:
  assumes "env_ok e"
    and "\<And>args s m. fetch fp \<noteq> CHR 0x00 \<Longrightarrow> safe (fmt_loop e (tl fp) args s m) e m"
    and "\<And>args sign flags width pad s m. fetch fp \<noteq> CHR 0x00 \<Longrightarrow> s < slen e \<Longrightarrow>
      safe (directive e (tl fp) args sign flags width pad s m) e m"
  shows "safe (fmt_loop e fp args s m) e m"
proof -
  consider "fetch fp \<noteq> CHR ''%''" "fetch fp \<noteq> CHR 0x00" "s < slen e"
    | "fetch fp \<noteq> CHR ''%''" "fetch fp \<noteq> CHR 0x00" "\<not> s < slen e"
    | "fetch fp = CHR 0x00 \<or> (fetch fp = CHR ''%'' \<and> s \<ge> slen e)"
    | "fetch fp = CHR ''%''" "s < slen e" by force
  then show ?thesis
  proof cases
    case 1
    then have "fmt_loop e fp args s m = fmt_loop e (tl fp) args (s + 1) (m(sbuf e + s := char_byte (fetch fp)))"
      by (subst fmt_loop.simps) simp
    then show ?thesis using safe_trans [OF frame_sbuf [OF 1(3)] assms(2) [OF 1(2)]] by simp
  next
    case 2
    then show ?thesis by (subst fmt_loop.simps) simp
  next
    case 3
    then show ?thesis by (subst fmt_loop.simps) auto
  next
    case 4
    have "\<not> slen e \<le> s" using 4(2) by simp
    then have "fmt_loop e fp args s m = directive e (tl fp) args 0 0 0 32 s m"
      using 4(1) by (subst fmt_loop.simps) simp
    then show ?thesis using assms(3) 4 by simp
  qed
qed

lemma directive_step:
  assumes "env_ok e" "s < slen e"
    and F: "\<And>args s m. fetch fp \<noteq> CHR 0x00 \<Longrightarrow> safe (fmt_loop e (tl fp) args s m) e m"
    and D: "\<And>args sign flags width pad m. fetch fp \<noteq> CHR 0x00 \<Longrightarrow>
      safe (directive e (tl fp) args sign flags width pad s m) e m"
    and S: "\<And>args s m. safe (fmt_loop e fp args s m) e m"
  shows "safe (directive e fp args sign flags width pad s m) e m"
proof (cases "fetch fp = CHR 0x00")
  case True
  then have "\<not> is_digit19 (fetch fp)" by (simp add: is_digit19_def char_byte_def)
  with True show ?thesis
    using assms(2) frame_sbuf [OF assms(2)] by (subst directive.simps) simp
next
  case False
  note F = F [OF False] and D = D [OF False]
  have W: "safe (fmt_loop e fp' args s' (m(sbuf e + s := c))) e m"
    if "\<And>m. safe (fmt_loop e fp' args s' m) e m" for c fp' args s'
    using safe_trans [OF frame_sbuf [OF assms(2)] that] .
  obtain m1 where m1: "emit_prefix e s m = Some (Inr (s + 2, m1))" "frame e m m1"
    using emit_prefix_safe [OF assms(1,2)] by blast
  have P: "safe (bindo (emit_prefix e s m) (\<lambda>(s, m). K s m)) e m" if "\<And>s m. safe (K s m) e m" for K
    using m1 safe_trans [OF m1(2) that] by simp
  have A: "safe (bindo (Some (va_int args)) (\<lambda>(a, args). K a args)) e m"
    if "\<And>a args. safe (K a args) e m" for K
    using that by (cases args) auto
  have N: "safe (bindo (emit_number e base flags sign width pad args s m)
    (\<lambda>(args, done, s, m). if done then Some (Inr (s, m)) else fmt_loop e (tl fp) args s m)) e m"
    for base flags sign width pad args s m by (rule safe_emit_number [OF assms(1) F])
  have L: "safe (case strlen p m of None \<Rightarrow> None | Some n \<Rightarrow> bindo (emit_string e p n width 32 s m)
    (\<lambda>(done, s, m). if done then Some (Inr (s, m)) else fmt_loop e (tl fp) args s m)) e m" for p args
    by (split option.split) (auto intro: safe_emit_string [OF assms(1) F])
  have C: "safe (if b then x else y) e m" if "b \<Longrightarrow> safe x e m" "\<not> b \<Longrightarrow> safe y e m" for b x y
    using that by simp
  show ?thesis
    unfolding directive.simps [of e fp] by (intro C A P N L D W F S; simp add: False)
qed

lemma fmt_safe:
  assumes "env_ok e"
  shows "(\<forall>args s m. safe (fmt_loop e fp args s m) e m)
    \<and> (\<forall>args sign flags width pad s m. s < slen e \<longrightarrow> safe (directive e fp args sign flags width pad s m) e m)"
proof (induction fp rule: length_induct)
  case (1 fp)
  have IH: "safe (fmt_loop e (tl fp) args s m) e m"
    "s < slen e \<Longrightarrow> safe (directive e (tl fp) args sign flags width pad s m) e m"
    if "fetch fp \<noteq> CHR 0x00" for args sign flags width pad s m
  proof -
    have "length (tl fp) < length fp" using fetch_pos [OF that] by simp
    with 1 show "safe (fmt_loop e (tl fp) args s m) e m"
      "s < slen e \<Longrightarrow> safe (directive e (tl fp) args sign flags width pad s m) e m" by blast+
  qed
  have F: "safe (fmt_loop e fp args s m) e m" for args s m
    by (rule fmt_loop_step [OF assms]; rule IH; assumption)
  have "safe (directive e fp args sign flags width pad s m) e m" if "s < slen e"
    for args sign flags width pad s m
    by (rule directive_step [OF assms that IH(1) IH(2) F]; (assumption | rule that))
  with F show ?case by blast
qed

lemma vsnprintf_bounds:
  assumes "env_ok e" "slen e \<noteq> 0"
  shows "case vsnprintf e fmt args m of
      None \<Rightarrow> True
    | Some (Inl f) \<Rightarrow> f = Undefined
    | Some (Inr (k, m')) \<Rightarrow> k < slen e \<and> m' (sbuf e + k) = 0 \<and> frame e m m'"
proof -
  have f: "safe (fmt_loop e fmt args 0 m) e m" using fmt_safe [OF assms(1), of fmt] by blast
  have l: "slen e - 1 < slen e" using assms(2) by (simp add: word_less_nat_alt unat_sub_noov unat_gt_0 Suc_leI)
  show ?thesis
  proof (cases "fmt_loop e fmt args 0 m")
    case None
    then show ?thesis using assms(2) by (simp add: vsnprintf_def)
  next
    case (Some r)
    show ?thesis
    proof (cases r)
      case (Inl fl)
      then show ?thesis using Some f assms(2) by (simp add: vsnprintf_def)
    next
      case (Inr x)
      obtain s m1 where x: "x = (s, m1)" by (cases x)
      define k where "k = (if s < slen e - 1 then s else slen e - 1)"
      have k: "k < slen e" using l by (auto simp: k_def)
      have "frame e m m1" using f Some Inr x by simp
      then have "frame e m (m1(sbuf e + k := 0))" using frame_sbuf [OF k] by (rule frame_trans)
      moreover have "vsnprintf e fmt args m = Some (Inr (k, m1(sbuf e + k := 0)))"
        using Some Inr x assms(2) by (simp add: vsnprintf_def k_def Let_def)
      ultimately show ?thesis using k by simp
    qed
  qed
qed

text \<open>
  C20: whatever the format and the arguments, vsnprintf writes only to its output buffer and its
  conversion buffer, never fails an assertion, and when it returns the buffer holds a terminated
  string of the returned length, below the size of the buffer. The only fault is a
  missing argument.
\<close>

theorem vsnprintf_in_bounds:
  assumes "env_ok e" "slen e \<noteq> 0"
  shows "case vsnprintf e fmt args m of
      None \<Rightarrow> True
    | Some (Inl f) \<Rightarrow> f = Undefined
    | Some (Inr (k, m')) \<Rightarrow> k < slen e \<and> m' (sbuf e + k) = 0 \<and> frame e m m'"
  using assms by (rule vsnprintf_bounds)

definition sample_env :: print_env where
  "sample_env = \<lparr>sbuf = 0x1000, slen = 8, nbuf = 0x2000, lit0x = 0x3000\<rparr>"

lemma sample_env_ok: "env_ok sample_env" "slen sample_env = 8"
  by (simp_all add: env_ok_def sample_env_def block_def no_wrap_def)

theorem vsnprintf_in_bounds_witness:
  "\<forall>m. case vsnprintf sample_env ''%0100d'' [5] m of
      None \<Rightarrow> True
    | Some (Inl f) \<Rightarrow> f = Undefined
    | Some (Inr (k, m')) \<Rightarrow> k < 8 \<and> m' (0x1000 + k) = 0"
proof
  fix m
  show "case vsnprintf sample_env ''%0100d'' [5] m of
      None \<Rightarrow> True
    | Some (Inl f) \<Rightarrow> f = Undefined
    | Some (Inr (k, m')) \<Rightarrow> k < 8 \<and> m' (0x1000 + k) = 0"
    using vsnprintf_in_bounds [OF sample_env_ok(1), where fmt = "''%0100d''" and args = "[5]" and m = m] sample_env_ok(2)
    by (auto split: option.splits sum.splits simp: sample_env_def)
qed

subsection \<open>The digits of a number\<close>

fun num_digits :: "nat \<Rightarrow> nat \<Rightarrow> nat list" where
  "num_digits b n = (if b < 2 \<or> n < b then [n] else num_digits b (n div b) @ [n mod b])"

declare num_digits.simps [simp del]

fun digits_value :: "nat \<Rightarrow> nat list \<Rightarrow> nat" where
  "digits_value b ds = foldl (\<lambda>a d. a * b + d) 0 ds"

lemma digits_value_num: "digits_value b (num_digits b n) = n"
  by (induction b n rule: num_digits.induct) (subst num_digits.simps, simp)

lemma num_digits_bound: "2 \<le> b \<Longrightarrow> d \<in> set (num_digits b n) \<Longrightarrow> d < b"
proof (induction b n rule: num_digits.induct)
  case (1 b n)
  then show ?case by (subst (asm) (2) num_digits.simps) (auto split: if_splits)
qed

definition digit_bytes :: "bool \<Rightarrow> nat \<Rightarrow> nat \<Rightarrow> u8 list" where
  "digit_bytes upper b n = map (\<lambda>d. digit_char upper (of_nat d)) (num_digits b n)"

lemma digit_char_nonzero: "unat d < 36 \<Longrightarrow> digit_char upper d \<noteq> 0"
proof -
  assume a: "unat d < 36"
  then have u: "unat (ucast d :: u8) = unat d" by (simp add: unat_ucast_mod)
  have "unat (digit_char upper d) \<noteq> 0"
  proof (cases "d \<ge> 10")
    case True
    then have "unat (ucast d - 10 :: u8) = unat d - 10"
      using u by (subst unat_sub_noov) (simp_all add: word_le_nat_alt)
    then have "unat (ucast d - 10 + (if upper then 65 else 97) :: u8) = unat d - 10 + (if upper then 65 else 97)"
      using a by (subst unat_add_noov) auto
    then show ?thesis using True by (simp add: digit_char_def split: if_splits)
  next
    case False
    have "unat (ucast d + 48 :: u8) = unat d + 48" using u a by (subst unat_add_noov) simp_all
    then show ?thesis using False by (simp add: digit_char_def)
  qed
  then show ?thesis by (metis unat_0)
qed

lemma cstr_cons:
  assumes "cstr m (buf + (i + 1)) xs" "c \<noteq> 0" "unat i + 1 + length xs < 2 ^ 32"
  shows "cstr (m(buf + i := c)) (buf + i) (c # xs)"
proof -
  have ne: "buf + i + (1 + of_nat k) \<noteq> buf + i" if "k \<le> length xs" for k
  proof -
    have "unat (1 + of_nat k :: size32) = 1 + k"
    proof -
      have "unat (of_nat k :: size32) = k" using that assms(3) by (intro unat_of_nat_len) simp
      then show ?thesis using that assms(3) by (simp add: unat_add_noov)
    qed
    then have "(1 + of_nat k :: size32) \<noteq> 0" by auto
    then show ?thesis by simp
  qed
  have at: "(m(buf + i := c)) (buf + i + of_nat j) = (c # xs) ! j \<and> (c # xs) ! j \<noteq> 0" if j: "j < length (c # xs)" for j
  proof (cases j)
    case 0
    then show ?thesis using assms(2) by simp
  next
    case (Suc k)
    then have k: "k < length xs" using j by simp
    then have "m (buf + (i + 1) + of_nat k) = xs ! k \<and> xs ! k \<noteq> 0" using assms(1) by (simp add: cstr_def)
    moreover have "buf + i + of_nat j = buf + (i + 1) + of_nat k" using Suc by (simp add: algebra_simps)
    moreover have "buf + i + of_nat j \<noteq> buf + i" using ne [of k] k Suc by simp
    ultimately show ?thesis using Suc by (simp add: algebra_simps)
  qed
  have "buf + i + of_nat (length (c # xs)) = buf + (i + 1) + of_nat (length xs)" by (simp add: algebra_simps)
  moreover have "buf + i + of_nat (length (c # xs)) \<noteq> buf + i" using ne [of "length xs"] by simp
  ultimately have "(m(buf + i := c)) (buf + i + of_nat (length (c # xs))) = 0"
    using assms(1) by (simp add: cstr_def algebra_simps)
  with at show ?thesis unfolding cstr_def by blast
qed

text \<open>The digits are written from the right, in front of what the buffer ends with.\<close>

lemma ascii_loop_digits:
  assumes "2 \<le> unat base" "unat base \<le> 36" "cstr m (buf + (i + 1)) xs" "unat i + 1 + length xs < 2 ^ 32"
    and "unat val < unat base ^ (unat i + 1)"
  shows "\<exists>m'. ascii_loop val base upper buf i m
       = (buf + (i + 1 - of_nat (length (num_digits (unat base) (unat val)))), m')
     \<and> cstr m' (buf + (i + 1 - of_nat (length (num_digits (unat base) (unat val)))))
         (digit_bytes upper (unat base) (unat val) @ xs)
     \<and> length (num_digits (unat base) (unat val)) \<le> unat i + 1"
  using assms
proof (induction val base upper buf i m arbitrary: xs rule: ascii_loop.induct)
  case (1 val base upper buf i m)
  let ?b = "unat base" and ?c = "digit_char upper (val mod base)"
  let ?m = "m(buf + i := ?c)"
  have md: "unat (val mod base) = unat val mod ?b" "unat (val div base) = unat val div ?b"
    by (simp_all add: unat_mod unat_div)
  have "unat (val mod base) < 36" using 1(2,3) md mod_less_divisor [of ?b "unat val"] by linarith
  then have c: "cstr ?m (buf + i) (?c # xs)"
    using cstr_cons [OF 1(4) digit_char_nonzero 1(5)] by blast
  have last: "of_nat (unat val mod ?b) = val mod base" by (simp flip: md)
  show ?case
  proof (cases "unat val < ?b")
    case True
    then have z: "val div base = 0" using md by (simp add: unat_eq_0)
    have d: "num_digits ?b (unat val) = [unat val]" using True by (subst num_digits.simps) simp
    have "val mod base = val" using True by (simp add: md word_unat_eq_iff)
    then have b: "digit_bytes upper ?b (unat val) = [?c]" by (simp add: digit_bytes_def d)
    have "ascii_loop val base upper buf i m = (buf + i, ?m)"
      using z by (subst ascii_loop.simps) (auto simp: Let_def word_gt_0)
    then show ?thesis using c by (simp add: d b)
  next
    case False
    have i0: "0 < unat i"
    proof (rule ccontr)
      assume "\<not> 0 < unat i"
      then have "unat i = 0" by simp
      with 1(6) False show False by simp
    qed
    then have i: "0 < i" "unat (i - 1) = unat i - 1" by (simp_all add: word_less_nat_alt unat_sub_noov)
    have nz: "val div base \<noteq> 0"
    proof
      assume "val div base = 0"
      then have "unat val div ?b = 0" using md by simp
      then show False using False 1(2) by (simp add: div_eq_0_iff)
    qed
    have step: "ascii_loop val base upper buf i m = ascii_loop (val div base) base upper buf (i - 1) ?m"
      using i nz by (subst ascii_loop.simps) (simp add: Let_def)
    have d: "num_digits ?b (unat val) = num_digits ?b (unat (val div base)) @ [unat val mod ?b]"
      using False 1(2) by (subst num_digits.simps) (simp add: md)
    have b: "digit_bytes upper ?b (unat val) = digit_bytes upper ?b (unat (val div base)) @ [?c]"
      by (simp add: digit_bytes_def d last)
    have lt: "unat (val div base) < ?b ^ (unat (i - 1) + 1)"
    proof -
      have "?b ^ (unat i + 1) = ?b ^ (unat (i - 1) + 1) * ?b" using i0 i(2) by (cases "unat i") auto
      with 1(6) have "unat val < ?b ^ (unat (i - 1) + 1) * ?b" by (rule ord_less_eq_trans)
      then show ?thesis unfolding md by (rule less_mult_imp_div_less)
    qed
    have len: "unat (i - 1) + 1 + length (?c # xs) < 2 ^ 32" using 1(5) i0 i(2) by simp
    let ?k = "of_nat (length (num_digits ?b (unat (val div base)))) :: size32"
    obtain m' where m': "ascii_loop (val div base) base upper buf (i - 1) ?m = (buf + (i - 1 + 1 - ?k), m')"
      "cstr m' (buf + (i - 1 + 1 - ?k)) (digit_bytes upper ?b (unat (val div base)) @ ?c # xs)"
      "length (num_digits ?b (unat (val div base))) \<le> unat (i - 1) + 1"
      using 1(1) [OF refl refl refl refl refl _ 1(2,3) _ len lt] c i(1) nz unfolding fun_upd_def by auto
    have "i - 1 + 1 - ?k = i + 1 - of_nat (length (num_digits ?b (unat val)))" by (simp add: d)
    then show ?thesis using m' step i0 i(2) by (simp add: b d)
  qed
qed

lemma pow_8_63: "8 \<le> b \<Longrightarrow> (2 :: nat) ^ 64 \<le> b ^ 63"
proof -
  assume "8 \<le> b"
  then have "(8 :: nat) ^ 63 \<le> b ^ 63" by (intro power_mono) simp_all
  moreover have "(2 :: nat) ^ 64 \<le> 8 ^ 63" by simp
  ultimately show ?thesis by linarith
qed

lemma base_to_ascii_digits:
  fixes val :: u64 and upper :: bool
  assumes "8 \<le> unat (scast base :: u64)" "unat (scast base :: u64) \<le> 36"
  defines "ds \<equiv> digit_bytes upper (unat (scast base :: u64)) (unat val)"
  shows "\<exists>m'. base_to_ascii val base upper buf 64 m = (buf + (63 - of_nat (length ds)), m')
     \<and> cstr m' (buf + (63 - of_nat (length ds))) ds \<and> length ds \<le> 63"
proof -
  have c: "cstr (m(buf + 63 := 0)) (buf + (62 + 1)) []" by (simp add: cstr_def)
  have lt: "unat val < unat (scast base :: u64) ^ (unat (62 :: size32) + 1)"
    using pow_8_63 [OF assms(1)] unat_bounded [of val] by simp
  have len: "length (num_digits (unat (scast base :: u64)) (unat val)) = length ds" by (simp add: ds_def digit_bytes_def)
  show ?thesis
    using ascii_loop_digits [OF _ assms(2) c _ lt, of upper] assms(1)
    by (simp add: base_to_ascii_def len ds_def [symmetric])
qed

subsection \<open>What a conversion prints\<close>

definition prefix_at :: "mem \<Rightarrow> addr \<Rightarrow> u8 list \<Rightarrow> bool" where
  "prefix_at m p xs \<longleftrightarrow> (\<forall>i<length xs. m (p + of_nat i) = xs ! i \<and> xs ! i \<noteq> 0)"

lemma cstr_prefix: "cstr m p xs \<longleftrightarrow> prefix_at m p xs \<and> m (p + of_nat (length xs)) = 0"
  by (simp add: cstr_def prefix_at_def)

lemma prefix_append:
  assumes "prefix_at m p xs" "prefix_at m (p + of_nat (length xs)) ys"
  shows "prefix_at m p (xs @ ys)"
  unfolding prefix_at_def
proof (intro allI impI)
  fix i
  assume i: "i < length (xs @ ys)"
  show "m (p + of_nat i) = (xs @ ys) ! i \<and> (xs @ ys) ! i \<noteq> 0"
  proof (cases "i < length xs")
    case True
    then show ?thesis using assms(1) by (simp add: prefix_at_def nth_append)
  next
    case False
    then have j: "i - length xs < length ys" using i by simp
    have "p + of_nat (length xs) + of_nat (i - length xs) = p + of_nat i" using False by (simp add: of_nat_diff)
    with assms(2) j False show ?thesis by (auto simp: prefix_at_def nth_append)
  qed
qed

lemma prefix_cong: "(\<And>i. i < length xs \<Longrightarrow> m' (p + of_nat i) = m (p + of_nat i)) \<Longrightarrow> prefix_at m' p xs = prefix_at m p xs"
  by (simp add: prefix_at_def)

lemma emit_string_prints:
  assumes "env_ok e" "length pre < unat (slen e)" "prefix_at m (sbuf e) pre"
    and "cstr m p xs" "block p k" "disjoint_blocks (sbuf e) (slen e) p k" "length xs < unat k"
    and "s = of_nat (length pre)" "n = of_nat (length xs)"
  shows "\<exists>m'. emit_string e p n 0 pad s m = Some (Inr (False, s + n, m'))
     \<and> cstr m' (sbuf e) (take (unat (slen e) - 1) (pre @ xs))"
proof -
  have s: "s < slen e" "unat s = length pre" using of_nat_less [OF assms(2)] assms(8) by auto
  let ?d = "sbuf e + s" and ?z = "slen e - s" and ?m = "m(sbuf e + s := 0)"
  have z: "unat ?z = unat (slen e) - length pre" using s by (simp add: unat_sub_noov word_less_nat_alt)
  have ud: "unat ?d = unat (sbuf e) + length pre"
    using offset_unat [of "sbuf e" "slen e" s] assms(1) s by (simp add: env_ok_def block_def)
  have bd: "block ?d ?z"
    using block_inner [OF _ s(1)] assms(1,2) ud z by (auto simp: env_ok_def block_def no_wrap_def)
  have dj: "disjoint_blocks ?d ?z p k" using assms(2,6) ud z by (auto simp: disjoint_blocks_def)
  have ne: "p + of_nat i \<noteq> ?d" if "i \<le> length xs" for i
  proof -
    have "of_nat i < k" using that assms(7) of_nat_less [of i k] by simp
    then show ?thesis
      using block_disjoint [OF bd assms(5) dj, of 0 "of_nat i"] z assms(2) by (auto simp: word_less_nat_alt)
  qed
  have c: "cstr ?m p xs" using assms(4) ne by (auto simp: cstr_def)
  have n: "unat n = length xs" using assms(7,9) of_nat_less by blast
  have nstr: "nstr ?m p (unat n) xs" using c by (simp add: nstr_def cstr_def n)
  have nk: "n \<le> k" using assms(7) n by (simp add: word_le_nat_alt)
  have bp: "block p n" by (rule block_le [OF assms(5) nk])
  have djn: "disjoint_blocks ?d ?z p n" using dj nk by (auto simp: disjoint_blocks_def word_le_nat_alt)
  have c0: "cstr ?m ?d []" by (simp add: cstr_def)
  obtain m' where m': "s_strncat ?d ?z p n ?m = (?d, m')" "cstr m' ?d (take (unat ?z - 1) xs)"
    "\<And>q. \<not> q - ?d < ?z \<Longrightarrow> m' q = ?m q"
    using s_strncat_ok [OF c0 _ nstr bd bp djn] z assms(2) by auto
  have d0: "?d \<noteq> 0" using bd by (simp add: block_def)
  have "emit_string e p n 0 pad s m = Some (Inr (False, s + n, m'))"
    using s(1) d0 m'(1) by (simp add: emit_string_def leD)
  moreover have "prefix_at m' (sbuf e) pre"
  proof -
    have "m' (sbuf e + of_nat i) = m (sbuf e + of_nat i)" if "i < length pre" for i
    proof -
      have i: "unat (of_nat i :: size32) = i" using that assms(2) of_nat_less [of i "slen e"] by simp
      have "\<not> of_nat i - s < slen e - s"
        using shift_less [OF less_imp_le [OF s(1)], of "of_nat i"] s(2) i that by (simp add: word_le_nat_alt)
      then have "\<not> sbuf e + of_nat i - ?d < ?z" by simp
      moreover have "of_nat i \<noteq> s" using i s(2) that by auto
      ultimately show ?thesis using m'(3) by simp
    qed
    then show ?thesis using assms(3) prefix_cong by metis
  qed
  moreover have "take (unat (slen e) - 1) (pre @ xs) = pre @ take (unat ?z - 1) xs"
    using assms(2) z by simp
  moreover have "cstr m' (sbuf e) (pre @ take (unat ?z - 1) xs)" if "prefix_at m' (sbuf e) pre"
    using that m'(2) assms(8) prefix_append [OF that] by (simp add: cstr_prefix add.assoc)
  ultimately show ?thesis by simp
qed

definition conv_base :: "char \<Rightarrow> nat" where
  "conv_base c = (if c = CHR ''o'' then 8 else if c \<in> {CHR ''x'', CHR ''X''} then 16 else 10)"

definition number_convs :: "char set" where
  "number_convs = {CHR ''o'', CHR ''u'', CHR ''d'', CHR ''i'', CHR ''x'', CHR ''X''}"

text \<open>The characters a conversion prints for a 32-bit argument.\<close>

definition printed :: "char \<Rightarrow> u32 \<Rightarrow> u8 list" where
  "printed c a =
     (if c \<in> {CHR ''d'', CHR ''i''} \<and> a <s 0 then 45 # digit_bytes False 10 (unat (- scast a :: u64))
      else digit_bytes (c = CHR ''X'') (conv_base c) (unat (scast a :: u64)))"

lemma num_digits_nonempty: "num_digits b n \<noteq> []"
  by (subst num_digits.simps) simp

lemma sint_scast: "sint (scast a :: u64) = sint a" for a :: u32
proof -
  have "- (2 ^ 63) \<le> sint a" "sint a < 2 ^ 63" using sint_range_size [of a] by (simp_all add: word_size)
  then show ?thesis by (simp add: signed_scast_eq signed_take_bit_int_eq_self_iff)
qed

lemma scast_neg: "(scast a :: u64) <s 0 \<longleftrightarrow> a <s (0 :: u32)"
  by (simp add: word_sless_alt sint_scast)

lemma block_part: "block p n \<Longrightarrow> unat k + unat l \<le> unat n \<Longrightarrow> 0 < l \<Longrightarrow> block (p + k) l"
  using block_offset [of p n "unat k" "unat l"] by (simp add: word_less_nat_alt)

lemma emit_number_prints:
  fixes v :: u64
  assumes "env_ok e" "1 < slen e" "disjoint_blocks (sbuf e) (slen e) (nbuf e) 64"
    and "base = of_nat b" "8 \<le> b" "b \<le> 16" "flags AND (FLAGS_MAXINT OR FLAGS_LONGLONG) = 0"
    and "v = (if flags AND FLAGS_NOSIGN = 0 \<and> a <s 0 then - scast a else scast a)"
    and "ds = digit_bytes (flags AND FLAGS_UPPER \<noteq> 0) b (unat v)"
    and "xs = (if flags AND FLAGS_NOSIGN = 0 \<and> a <s 0 then [45] else []) @ ds"
  shows "\<exists>m'. emit_number e base flags 0 0 32 [a] 0 m = Some (Inr ([], False, of_nat (length xs), m'))
     \<and> length xs \<le> 64 \<and> cstr m' (sbuf e) (take (unat (slen e) - 1) xs)"
proof -
  have ub: "unat (scast base :: u64) = b"
  proof -
    have "b \<in> {8..16}" using assms(5,6) by simp
    then have "b = 8 \<or> b = 9 \<or> b = 10 \<or> b = 11 \<or> b = 12 \<or> b = 13 \<or> b = 14 \<or> b = 15 \<or> b = 16" by auto
    then show ?thesis by (elim disjE) (simp_all add: assms(4))
  qed
  define sg where "sg = (if flags AND FLAGS_NOSIGN = 0 \<and> a <s 0 then 45 else 0 :: u8)"
  have val: "number_value flags [a] = Inr (scast a, [])" using assms(7) by (simp add: number_value_def)
  have sv: "number_sign flags 0 (scast a) = (sg, v)" by (simp add: number_sign_def sg_def assms(8) scast_neg)
  let ?k = "63 - of_nat (length ds) :: size32"
  obtain m1 where m1: "base_to_ascii v base (flags AND FLAGS_UPPER \<noteq> 0) (nbuf e) 64 m = (nbuf e + ?k, m1)"
    "cstr m1 (nbuf e + ?k) ds" "length ds \<le> 63"
    using base_to_ascii_digits [of base v "flags AND FLAGS_UPPER \<noteq> 0" "nbuf e" m] assms(5,6)
    unfolding ub assms(9) by auto
  have ul: "unat (of_nat (length ds) :: size32) = length ds" using m1(3) by (intro unat_of_nat_len) simp
  then have uk: "unat ?k = 63 - length ds" using m1(3) by (simp add: unat_sub_noov)
  define l where "l = (of_nat (length ds) + 1 :: size32)"
  have l: "unat l = length ds + 1" using ul m1(3) by (simp add: l_def unat_add_noov)
  have nb: "block (nbuf e) 64" "block (sbuf e) (slen e)" using assms(1) by (simp_all add: env_ok_def)
  have bp: "block (nbuf e + ?k) l" using l uk m1(3) by (intro block_part [OF nb(1)]) (simp_all add: word_less_nat_alt)
  have up: "unat (nbuf e + ?k) = unat (nbuf e) + (63 - length ds)"
    using offset_unat [of "nbuf e" 64 ?k] nb(1) uk by (simp add: block_def word_less_nat_alt)
  have dj: "disjoint_blocks (sbuf e) (slen e) (nbuf e + ?k) l"
    using assms(3) up l m1(3) by (auto simp: disjoint_blocks_def)
  have n: "64 - (nbuf e + ?k - nbuf e + 1) = (of_nat (length ds) :: size32)" by simp
  define pre where "pre = (if sg \<noteq> 0 then [sg] else [])"
  define m2 where "m2 = (if sg \<noteq> 0 then m1(sbuf e := sg) else m1)"
  have xs: "xs = pre @ ds" by (simp add: assms(10) pre_def sg_def)
  have "\<exists>m'. emit_string e (nbuf e + ?k) (of_nat (length ds)) 0 32 (of_nat (length pre)) m2
      = Some (Inr (False, of_nat (length pre) + of_nat (length ds), m'))
     \<and> cstr m' (sbuf e) (take (unat (slen e) - 1) (pre @ ds))"
  proof (rule emit_string_prints [OF assms(1) _ _ _ bp dj _ refl refl])
    show "length pre < unat (slen e)" using assms(2) by (simp add: pre_def word_less_nat_alt)
    show "prefix_at m2 (sbuf e) pre" by (simp add: prefix_at_def pre_def m2_def)
    have ne: "nbuf e + ?k + of_nat i \<noteq> sbuf e" if "i \<le> length ds" for i
      using block_disjoint [OF nb(2) bp dj, of 0 "of_nat i"] that of_nat_less [of i l] l assms(2)
      by (auto simp: word_less_nat_alt)
    show "cstr m2 (nbuf e + ?k) ds"
      using m1(2) ne ne [of "length ds"] by (auto simp: cstr_def m2_def)
    show "length ds < unat l" by (simp add: l)
  qed
  then obtain m' where m': "emit_string e (nbuf e + ?k) (of_nat (length ds)) 0 32 (of_nat (length pre)) m2
      = Some (Inr (False, of_nat (length pre) + of_nat (length ds), m'))"
    "cstr m' (sbuf e) (take (unat (slen e) - 1) (pre @ ds))" by blast
  have "\<not> slen e \<le> 0" "0 < slen e" using assms(2) by (auto simp: word_less_nat_alt word_le_nat_alt)
  then have "emit_number e base flags 0 0 32 [a] 0 m = Some (Inr ([], False, of_nat (length xs), m'))"
    using m'(1) unfolding emit_number_def val bindo.simps sv Let_def prod.case m1(1) n
    by (auto simp: xs pre_def m2_def)
  moreover have "length xs \<le> 64" using m1(3) by (simp add: xs pre_def)
  ultimately show ?thesis using m'(2) xs by blast
qed

lemma fmt_nil: "fmt_loop e [] args s m = Some (Inr (s, m))"
  by (subst fmt_loop.simps) simp

lemma directive_number:
  assumes "c \<in> number_convs"
  shows "directive e [c] args 0 0 0 32 s m =
    bindo (emit_number e (of_nat (conv_base c))
        (if c \<in> {CHR ''d'', CHR ''i''} then 0 else if c = CHR ''X'' then FLAGS_UPPER OR FLAGS_NOSIGN else FLAGS_NOSIGN)
        0 0 32 args s m) (\<lambda>(args, done, s, m). Some (Inr (s, m)))"
  using assms unfolding number_convs_def
  by (elim insertE emptyE; hypsubst; subst directive.simps;
      simp add: conv_base_def is_digit19_def char_byte_def fmt_nil cong: if_cong)

lemma take_cstr_end:
  assumes "cstr m p (take (unat n - 1) xs)" "1 < n" "length xs \<le> 64"
  defines "k \<equiv> (if of_nat (length xs) < n - 1 then of_nat (length xs) else n - 1)"
  shows "unat k = min (length xs) (unat n - 1) \<and> m(p + k := 0) = m"
proof -
  have l: "unat (of_nat (length xs) :: size32) = length xs" using assms(3) by (intro unat_of_nat_len) simp
  have n: "unat (n - 1) = unat n - 1" using assms(2) by (simp add: unat_sub_noov word_less_nat_alt)
  have k: "unat k = min (length xs) (unat n - 1)"
    using l n by (simp add: k_def word_less_nat_alt min_def)
  then have "length (take (unat n - 1) xs) = unat k" by simp
  then have "m (p + of_nat (unat k)) = 0" using assms(1) by (simp only: cstr_def)
  then have "m (p + k) = 0" by simp
  with k show ?thesis by (simp add: fun_upd_idem)
qed

lemma vsnprintf_number:
  assumes "env_ok e" "1 < slen e" "disjoint_blocks (sbuf e) (slen e) (nbuf e) 64" "c \<in> number_convs"
  shows "\<exists>k m'. vsnprintf e [CHR ''%'', c] [a] m = Some (Inr (k, m'))
     \<and> unat k = min (length (printed c a)) (unat (slen e) - 1)
     \<and> cstr m' (sbuf e) (take (unat (slen e) - 1) (printed c a))"
proof -
  let ?f = "if c \<in> {CHR ''d'', CHR ''i''} then 0 else if c = CHR ''X'' then FLAGS_UPPER OR FLAGS_NOSIGN else FLAGS_NOSIGN"
  let ?v = "if ?f AND FLAGS_NOSIGN = 0 \<and> a <s 0 then - scast a else scast a :: u64"
  have fl: "?f AND (FLAGS_MAXINT OR FLAGS_LONGLONG) = 0" "?f AND FLAGS_NOSIGN = 0 \<longleftrightarrow> c \<in> {CHR ''d'', CHR ''i''}"
    "?f AND FLAGS_UPPER \<noteq> 0 \<longleftrightarrow> c = CHR ''X''"
    by (simp_all add: flags_defs)
  have b: "8 \<le> conv_base c" "conv_base c \<le> 16" by (simp_all add: conv_base_def)
  have p: "printed c a = (if ?f AND FLAGS_NOSIGN = 0 \<and> a <s 0 then [45] else [])
      @ digit_bytes (?f AND FLAGS_UPPER \<noteq> 0) (conv_base c) (unat ?v)"
    unfolding printed_def fl by (auto simp: conv_base_def)
  obtain m' where m': "emit_number e (of_nat (conv_base c)) ?f 0 0 32 [a] 0 m
      = Some (Inr ([], False, of_nat (length (printed c a)), m'))"
    "length (printed c a) \<le> 64" "cstr m' (sbuf e) (take (unat (slen e) - 1) (printed c a))"
    using emit_number_prints [OF assms(1-3) refl b fl(1) refl refl p] by blast
  have nz: "slen e \<noteq> 0" "\<not> slen e \<le> 0" using assms(2) by (auto simp: word_less_nat_alt word_le_nat_alt)
  have c: "c \<noteq> CHR 0x00" using assms(4) by (auto simp: number_convs_def)
  have "fmt_loop e [CHR ''%'', c] [a] 0 m = directive e [c] [a] 0 0 0 32 0 m"
    using nz by (subst fmt_loop.simps) simp
  then have f: "fmt_loop e [CHR ''%'', c] [a] 0 m = Some (Inr (of_nat (length (printed c a)), m'))"
    unfolding directive_number [OF assms(4)] m'(1) by simp
  note t = take_cstr_end [OF m'(3) assms(2) m'(2)]
  have "vsnprintf e [CHR ''%'', c] [a] m = Some (Inr (if of_nat (length (printed c a)) < slen e - 1
      then of_nat (length (printed c a)) else slen e - 1, m'))"
    using nz(1) t by (simp add: vsnprintf_def f Let_def)
  then show ?thesis using t m'(3) by blast
qed


lemma printed_examples:
  "printed (CHR ''d'') (- 42) = [45, 52, 50]"
  "printed (CHR ''x'') 0xDEADBEEF = [102, 102, 102, 102, 102, 102, 102, 102, 100, 101, 97, 100, 98, 101, 101, 102]"
  by (simp_all add: printed_def digit_bytes_def conv_base_def num_digits.simps digit_char_def word_sless_alt)


text \<open>A doubled percent sign is printed but not skipped: its second half opens a directive.\<close>

theorem percent_not_skipped:
  assumes "s < slen e"
  shows "fmt_loop e (CHR ''%'' # CHR ''%'' # fp) args s m
    = fmt_loop e (CHR ''%'' # fp) args (s + 1) (m(sbuf e + s := 37))"
proof -
  have "\<not> slen e \<le> s" using assms by simp
  then have "fmt_loop e (CHR ''%'' # CHR ''%'' # fp) args s m = directive e (CHR ''%'' # fp) args 0 0 0 32 s m"
    by (subst fmt_loop.simps) simp
  then show ?thesis using assms by (simp add: directive.simps [of e "CHR ''%'' # fp"] is_digit19_def char_byte_def)
qed

end
