(* ===== verification/ParseInt.thy ===== *)
theory ParseInt
  imports LibkPrintf
begin

text \<open>
  libs/libk/include/ctype.h, and kernel/src/parse.cpp: the integer parser of the debug shell.
  A string view is the list of its bytes; its accessors panic outside it. The result is an
  error code or an address-sized number, whose arithmetic wraps.
\<close>

subsection \<open>Character classes\<close>

type_synonym cint = "32 word"

definition isblank :: "cint \<Rightarrow> bool" where "isblank c \<longleftrightarrow> c = 32 \<or> c = 9"
definition isspace :: "cint \<Rightarrow> bool" where "isspace c \<longleftrightarrow> isblank c \<or> c = 11 \<or> c = 13 \<or> c = 10"
definition iscntrl :: "cint \<Rightarrow> bool" where "iscntrl c \<longleftrightarrow> c <s 32"
definition isdigit :: "cint \<Rightarrow> bool" where "isdigit c \<longleftrightarrow> 48 \<le>s c \<and> c \<le>s 57"
definition islower :: "cint \<Rightarrow> bool" where "islower c \<longleftrightarrow> 97 \<le>s c \<and> c \<le>s 122"
definition isupper :: "cint \<Rightarrow> bool" where "isupper c \<longleftrightarrow> 65 \<le>s c \<and> c \<le>s 90"
definition isxdigit :: "cint \<Rightarrow> bool" where
  "isxdigit c \<longleftrightarrow> isdigit c \<or> (65 \<le>s c \<and> c \<le>s 70) \<or> (97 \<le>s c \<and> c \<le>s 102)"
definition isalpha :: "cint \<Rightarrow> bool" where "isalpha c \<longleftrightarrow> islower c \<or> isupper c"
definition isalnum :: "cint \<Rightarrow> bool" where "isalnum c \<longleftrightarrow> isdigit c \<or> isalpha c"
definition to_lower :: "cint \<Rightarrow> cint" where "to_lower c = (if isupper c then c + 0x20 else c)"
definition to_upper :: "cint \<Rightarrow> cint" where "to_upper c = (if islower c then c - 0x20 else c)"

subsection \<open>The parser\<close>

text \<open>One character, sign-extended as a plain char is: its digit value, a separator, or an error.\<close>

datatype digit = Digit u32 | Skip | Bad

definition parse_digit :: "bool \<Rightarrow> u32 \<Rightarrow> digit" where
  "parse_digit isHex a =
     (if isdigit a then Digit (a - 48)
      else if isHex \<and> a \<ge> 65 \<and> a \<le> 70 then Digit (a - (65 - 10))
      else if isHex \<and> a \<ge> 97 \<and> a \<le> 102 then Digit (a - (97 - 10))
      else if a = 95 \<or> a = 39 then Skip
      else Bad)"

fun parse_loop :: "bool \<Rightarrow> u8 list \<Rightarrow> u32 \<Rightarrow> error_code + u32" where
  "parse_loop isHex [] acc = Inr acc"
| "parse_loop isHex (c # cs) acc =
     (case parse_digit isHex (scast c) of
        Digit a \<Rightarrow> parse_loop isHex cs (acc * (if isHex then 16 else 10) + a)
      | Skip \<Rightarrow> parse_loop isHex cs acc
      | Bad \<Rightarrow> Inl EC_InvalidFormat)"

definition parse_int :: "u8 list \<Rightarrow> error_code + u32" where
  "parse_int str =
     (if str = [] then Inl EC_NotFound
      else let isHex = length str > 2 \<and> str ! 0 = 48 \<and> (str ! 1 = 120 \<or> str ! 1 = 88)
           in if isHex then parse_loop True (drop 2 str) 0
              else if str ! 0 = 36 then parse_loop True (drop 1 str) 0
              else parse_loop False str 0)"

subsection \<open>Reading back what was printed\<close>

lemma digit_char_unat:
  assumes "d < 16"
  shows "unat (digit_char upper (of_nat d)) = (if d < 10 then d + 48 else if upper then d + 55 else d + 87)"
proof -
  have d: "unat (of_nat d :: u64) = d" using assms by (intro unat_of_nat_len) simp
  then have u: "unat (ucast (of_nat d :: u64) :: u8) = d" using assms by (simp add: unat_ucast_mod)
  have g: "(of_nat d :: u64) \<ge> 10 \<longleftrightarrow> 10 \<le> d" using d by (simp add: word_le_nat_alt)
  show ?thesis
  proof (cases "d < 10")
    case True
    then show ?thesis using u g by (simp add: digit_char_def unat_add_noov)
  next
    case False
    then have "unat (ucast (of_nat d :: u64) - 10 :: u8) = d - 10" using u by (subst unat_sub_noov) simp_all
    then have "unat (ucast (of_nat d :: u64) - 10 + (if upper then 65 else 97) :: u8)
        = d - 10 + (if upper then 65 else 97)" using assms by (subst unat_add_noov) auto
    then show ?thesis using False g by (auto simp: digit_char_def)
  qed
qed

lemma int_unat: "int (unat w) = uint w" for w :: "'a::len word" by simp

lemma sint_small:
  fixes w :: "'a::len word"
  assumes "unat w < 2 ^ (LENGTH('a) - 1)"
  shows "sint w = int (unat w)"
proof -
  have "int (unat w) < int (2 ^ (LENGTH('a) - 1))" using assms by (simp only: of_nat_less_iff)
  then have "uint w < 2 ^ (LENGTH('a) - 1)" by simp
  moreover have "- (2 ^ (LENGTH('a) - 1)) \<le> uint w" using uint_ge_0 [of w] by (rule order_trans [rotated]) simp
  ultimately have "sint w = uint w" unfolding sint_uint by (intro signed_take_bit_int_eq_self) simp_all
  then show ?thesis by simp
qed

lemma isdigit_unat:
  assumes "unat w < 2 ^ 31"
  shows "isdigit w \<longleftrightarrow> 48 \<le> unat w \<and> unat w \<le> 57"
proof -
  have "sint w = int (unat w)" using assms by (intro sint_small) simp
  then have "isdigit w \<longleftrightarrow> int 48 \<le> int (unat w) \<and> int (unat w) \<le> int 57"
    unfolding isdigit_def word_sle_eq by simp
  then show ?thesis by (simp only: of_nat_le_iff)
qed

lemma unat_scast_byte:
  fixes c :: u8
  assumes "unat c < 128"
  shows "unat (scast c :: u32) = unat c"
proof -
  have "sint c = int (unat c)" using assms by (intro sint_small) simp
  then have "(scast c :: u32) = of_nat (unat c)" by (metis of_int_of_nat_eq of_int_sint)
  then show ?thesis using assms by (simp add: unat_ucast_le)
qed

lemma parse_hex_digit:
  assumes "d < 16" "isHex \<or> d < 10"
  shows "parse_digit isHex (scast (digit_char upper (of_nat d))) = Digit (of_nat d)"
proof -
  define a where "a = (scast (digit_char upper (of_nat d)) :: u32)"
  have c: "unat (digit_char upper (of_nat d)) < 128" using digit_char_unat [OF assms(1)] assms(1) by (simp split: if_splits)
  have a: "unat a = (if d < 10 then d + 48 else if upper then d + 55 else d + 87)"
    unfolding a_def unat_scast_byte [OF c] by (rule digit_char_unat [OF assms(1)])
  have dd: "isdigit a \<longleftrightarrow> d < 10" using a assms(1) isdigit_unat [of a] by (simp split: if_splits)
  have e: "a - of_nat k = of_nat d" if "unat a = d + k" "k < 2 ^ 31" for k
    using that assms(1) by (intro word_eq_unatI) (simp add: unat_sub_noov unat_of_nat_len)
  show ?thesis
  proof (cases "d < 10")
    case True
    then show ?thesis using dd e [of 48] a by (simp add: parse_digit_def a_def [symmetric])
  next
    case False
    then show ?thesis using dd assms a e [of 55] e [of 87]
      by (auto simp: parse_digit_def a_def [symmetric] word_le_nat_alt split: if_splits)
  qed
qed

lemma parse_loop_digits:
  assumes "\<And>d. d \<in> set ds \<Longrightarrow> parse_digit isHex (scast (digit_char upper (of_nat d))) = Digit (of_nat d)"
    and "b = (if isHex then 16 else 10)"
  shows "parse_loop isHex (map (\<lambda>d. digit_char upper (of_nat d)) ds) (of_nat n)
     = Inr (of_nat (foldl (\<lambda>a d. a * b + d) n ds))"
  using assms
proof (induction ds arbitrary: n)
  case (Cons d ds)
  have "(of_nat n * (if isHex then 16 else 10) + of_nat d :: u32) = of_nat (n * b + d)"
    using Cons.prems(2) by simp
  then have "parse_loop isHex (map (\<lambda>d. digit_char upper (of_nat d)) (d # ds)) (of_nat n)
     = parse_loop isHex (map (\<lambda>d. digit_char upper (of_nat d)) ds) (of_nat (n * b + d))"
    using Cons.prems(1) [of d] by (simp del: of_nat_add of_nat_mult)
  also have "\<dots> = Inr (of_nat (foldl (\<lambda>a d. a * b + d) (n * b + d) ds))"
    by (rule Cons.IH) (use Cons.prems in auto)
  finally show ?case using Cons.prems(2) by simp
qed simp

lemma decimal_bytes: "x \<in> set (digit_bytes upper 10 n) \<Longrightarrow> 48 \<le> unat x \<and> unat x \<le> 57"
proof -
  assume "x \<in> set (digit_bytes upper 10 n)"
  then obtain d where d: "d < 10" "x = digit_char upper (of_nat d)"
    using num_digits_bound [of 10] by (force simp: digit_bytes_def)
  then show ?thesis using digit_char_unat [of d upper] by simp
qed

lemma parse_decimal: "n < 2 ^ 32 \<Longrightarrow> parse_int (digit_bytes upper 10 n) = Inr (of_nat n)"
proof -
  let ?xs = "digit_bytes upper 10 n"
  have ne: "?xs \<noteq> []" by (simp add: digit_bytes_def num_digits_nonempty)
  have "parse_loop False ?xs (of_nat 0) = Inr (of_nat (foldl (\<lambda>a d. a * 10 + d) 0 (num_digits 10 n)))"
    unfolding digit_bytes_def
    by (rule parse_loop_digits) (auto dest: num_digits_bound [of 10, rotated] intro!: parse_hex_digit)
  then have p: "parse_loop False ?xs 0 = Inr (of_nat n)" using digits_value_num [of 10 n] by simp
  have h: "\<not> (length ?xs > 2 \<and> ?xs ! 0 = 48 \<and> (?xs ! 1 = 120 \<or> ?xs ! 1 = 88))"
  proof
    assume a: "length ?xs > 2 \<and> ?xs ! 0 = 48 \<and> (?xs ! 1 = 120 \<or> ?xs ! 1 = 88)"
    then have "?xs ! 1 \<in> set ?xs" by (intro nth_mem) simp
    then have "unat (?xs ! 1) \<le> 57" using decimal_bytes by blast
    with a show False by auto
  qed
  have "?xs ! 0 \<in> set ?xs" using ne by (intro nth_mem) simp
  then have "48 \<le> unat (?xs ! 0)" using decimal_bytes by blast
  then have "?xs ! 0 \<noteq> 36" by auto
  then show ?thesis unfolding parse_int_def Let_def if_not_P [OF h] using ne p by simp
qed

lemma parse_hex: "parse_int (48 # 120 # digit_bytes upper 16 n) = Inr (of_nat n)"
proof -
  let ?xs = "digit_bytes upper 16 n"
  have ne: "?xs \<noteq> []" by (simp add: digit_bytes_def num_digits_nonempty)
  have "parse_loop True ?xs (of_nat 0) = Inr (of_nat (foldl (\<lambda>a d. a * 16 + d) 0 (num_digits 16 n)))"
    unfolding digit_bytes_def
    by (rule parse_loop_digits) (auto dest: num_digits_bound [of 16, rotated] intro!: parse_hex_digit)
  then have "parse_loop True ?xs 0 = Inr (of_nat n)" using digits_value_num [of 16 n] by simp
  then show ?thesis using ne by (simp add: parse_int_def)
qed

lemma low_word: "of_nat (unat (scast a :: u64)) = a" for a :: u32
proof -
  have "of_nat (unat w) = (ucast w :: u32)" for w :: u64
    by (simp add: word_unat_eq_iff unat_of_nat unat_ucast_mod)
  moreover have "ucast (scast a :: u64) = a"
    by (rule bit_word_eqI) (simp add: bit_simps)
  ultimately show ?thesis by simp
qed



end
