(* ===== verification/Console.thy ===== *)
theory Console
  imports ParseInt
begin

text \<open>
  kernel/src/console.cpp and include/kernel/console.h: formatted output and line input. The
  terminal behind the console is the list of characters written to it and the list of values
  terminal_getchar will return; an operation that needs more input than there is keeps waiting
  and has no result.
\<close>

subsection \<open>State and characters\<close>

record con =
  m_paged :: bool
  m_lineCount :: int32
  tty_out :: "u8 list"
  tty_in :: "int32 list"

definition tty_put :: "u8 list \<Rightarrow> con \<Rightarrow> con" where
  "tty_put cs s = s\<lparr>tty_out := tty_out s @ cs\<rparr>"

definition con_getchar :: "con \<Rightarrow> (int32 \<times> con) outcome" where
  "con_getchar s = (case tty_in s of [] \<Rightarrow> None | c # cs \<Rightarrow> Some (Inr (c, s\<lparr>tty_in := cs\<rparr>)))"

text \<open>The pause: wait for a key, that is for a positive value.\<close>

fun wait_key :: "int32 list \<Rightarrow> int32 list option" where
  "wait_key [] = None"
| "wait_key (c # cs) = (if c \<le>s 0 then wait_key cs else Some cs)"

definition PAUSED :: "u8 list" where "PAUSED = [80, 65, 85, 83, 69, 68, 13, 10]"

definition pause_check :: "con \<Rightarrow> con outcome" where
  "pause_check s =
     (if \<not> m_paged s then Some (Inr s)
      else let s = s\<lparr>m_lineCount := m_lineCount s + 1\<rparr>
           in if m_lineCount s <s 35 then Some (Inr s)
              else let s = tty_put PAUSED (s\<lparr>m_lineCount := 0\<rparr>)
                   in case wait_key (tty_in s) of None \<Rightarrow> None | Some cs \<Rightarrow> Some (Inr (s\<lparr>tty_in := cs\<rparr>)))"

definition set_paged :: "bool \<Rightarrow> con \<Rightarrow> bool \<times> con" where
  "set_paged b s = (m_paged s, s\<lparr>m_paged := b, m_lineCount := (if b then 0 else m_lineCount s)\<rparr>)"

definition con_putchar :: "u8 \<Rightarrow> con \<Rightarrow> con outcome" where
  "con_putchar c s = (let s = tty_put [c] s in if c = 13 \<or> c = 10 then pause_check s else Some (Inr s))"

fun con_putstr :: "u8 list \<Rightarrow> con \<Rightarrow> con outcome" where
  "con_putstr [] s = Some (Inr s)"
| "con_putstr (c # cs) s = bindo (con_putchar c s) (con_putstr cs)"

subsection \<open>Numbers\<close>

text \<open>
  The digits are collected from the right in a buffer of 32 bytes whose last is the NUL; acc
  is what it holds from index i = 31 - length acc on. Writing at index -1 is outside it.
\<close>

definition con_digit :: "u64 \<Rightarrow> u8" where
  "con_digit r = ucast r + (if r < 10 then 0x30 else 0x37)"

function put_digits :: "u64 \<Rightarrow> u64 \<Rightarrow> u8 list \<Rightarrow> fault + u8 list" where
  "put_digits val radix acc =
     (if val > 0 then
        if length acc < 31 then put_digits (val div radix) radix (con_digit (val mod radix) # acc)
        else Inl OutOfBounds
      else Inr acc)"
  by pat_completeness auto
termination by (relation "measure (\<lambda>(_, _, acc). 31 - length acc)") auto

function put_pad :: "nat \<Rightarrow> u8 \<Rightarrow> u8 list \<Rightarrow> fault + u8 list" where
  "put_pad width pad acc =
     (if width > length acc then
        if length acc < 31 then put_pad width pad (pad # acc) else Inl OutOfBounds
      else Inr acc)"
  by pat_completeness auto
termination by (relation "measure (\<lambda>(_, _, acc). 31 - length acc)") auto

declare put_digits.simps [simp del] put_pad.simps [simp del]

text \<open>A negative width asks for zeros; negating the least integer is undefined.\<close>

definition format_uint :: "u64 \<Rightarrow> int32 \<Rightarrow> int32 \<Rightarrow> fault + u8 list" where
  "format_uint val radix width =
     (if radix = 0 \<and> val \<noteq> 0 \<or> width = 0x80000000 then Inl Undefined
      else let pad = (if width <s 0 then 48 else 32); width = (if width <s 0 then - width else width)
           in bindf (if val = 0 then Inr [48] else put_digits val (scast radix) [])
                (put_pad (unat width) pad))"

definition putuint :: "u64 \<Rightarrow> int32 \<Rightarrow> int32 \<Rightarrow> con \<Rightarrow> con outcome" where
  "putuint val radix width s = bindo (Some (format_uint val radix width)) (\<lambda>cs. con_putstr cs s)"

definition putint :: "u64 \<Rightarrow> con \<Rightarrow> con outcome" where
  "putint val s =
     (if val <s 0 then bindo (con_putchar 45 s) (putuint (- val) 10 0) else putuint val 10 0 s)"

definition put_hex :: "u64 \<Rightarrow> int32 \<Rightarrow> con \<Rightarrow> con outcome" where
  "put_hex val width s = putuint val 16 width s"

definition put_ptr :: "addr \<Rightarrow> con \<Rightarrow> con outcome" where
  "put_ptr p s = put_hex (ucast p) (- 8) s"

text \<open>A size in units of 1024; the prefix table holds ten letters and its NUL.\<close>

definition SZ_PREFIX :: "u8 list" where "SZ_PREFIX = [75, 77, 71, 84, 80, 69, 90, 89, 82, 81, 0]"

function scale_size :: "size32 \<Rightarrow> nat \<Rightarrow> size32 \<times> nat" where
  "scale_size sz idx = (if sz > 1024 \<and> idx < length SZ_PREFIX then scale_size (sz div 1024) (idx + 1) else (sz, idx))"
  by pat_completeness auto
termination by (relation "measure (\<lambda>(_, idx). length SZ_PREFIX - idx)") auto

declare scale_size.simps [simp del]

definition put_size :: "size32 \<Rightarrow> con \<Rightarrow> con outcome" where
  "put_size sz s =
     (let (sz, idx) = scale_size sz 0
      in bindo (putuint (ucast sz) 10 0 s) (\<lambda>s.
         bindo (con_putstr [32] s) (\<lambda>s.
         bindo (if idx > 0 then con_putchar (SZ_PREFIX ! (idx - 1)) s else Some (Inr s))
           (con_putstr [98, 121, 116, 101, 40, 115, 41]))))"

subsection \<open>Line input\<close>

definition span_put :: "size32 \<Rightarrow> u8 \<Rightarrow> u8 list \<Rightarrow> fault + u8 list" where
  "span_put idx c buf =
     (if unat idx < length buf then Inr (buf[unat idx := c])
      else Inl (Panic ''Attempt to index span outside of max range.''))"

fun get_line_loop :: "int32 list \<Rightarrow> size32 \<Rightarrow> u8 list \<Rightarrow> u8 list \<Rightarrow> (size32 \<times> u8 list \<times> u8 list \<times> int32 list) outcome" where
  "get_line_loop [] idx buf out = None"
| "get_line_loop (c # cs) idx buf out =
     (if c = - 1 \<or> c = 0 then get_line_loop cs idx buf out
      else if c = 8 \<or> c = 127 then
        if idx = 0 then get_line_loop cs idx buf (out @ [7])
        else (case span_put idx 0 buf of
          Inl e \<Rightarrow> Some (Inl e)
        | Inr buf \<Rightarrow> get_line_loop cs (idx - 1) buf (out @ [ucast c]))
      else if c = 27 then get_line_loop cs 0 buf (out @ replicate (unat idx) 8)
      else if c = 13 \<or> c = 10 then
        if idx > 0 then (case span_put idx 0 buf of
          Inl e \<Rightarrow> Some (Inl e)
        | Inr buf \<Rightarrow> Some (Inr (idx, buf, out @ [13, 10], cs)))
        else get_line_loop cs idx buf out
      else (case span_put idx (ucast c) buf of
          Inl e \<Rightarrow> Some (Inl e)
        | Inr buf \<Rightarrow>
            if idx + 1 \<ge> of_nat (length buf) - 1 then get_line_loop cs (idx + 1) buf (out @ [7])
            else get_line_loop cs (idx + 1) buf (out @ [ucast c])))"

definition get_line :: "u8 list \<Rightarrow> con \<Rightarrow> (size32 \<times> u8 list \<times> con) outcome" where
  "get_line buf s =
     (if buf = [] \<or> of_nat (length buf) - (1 :: size32) = 0 then Some (Inr (0, buf, s))
      else bindo (get_line_loop (tty_in s) 0 buf (tty_out s)) (\<lambda>(n, buf, out, cs).
             Some (Inr (n, buf, s\<lparr>tty_out := out, tty_in := cs\<rparr>))))"

subsection \<open>Formatting is exact\<close>

lemma con_digit_char: "unat r < 36 \<Longrightarrow> con_digit r = digit_char True r"
proof -
  have e: "ucast r - 10 + 65 = ucast r + (55 :: u8)" by simp
  show ?thesis by (simp add: con_digit_def digit_char_def e not_le)
qed

lemma put_digits_eq:
  assumes "2 \<le> unat radix" "unat radix \<le> 36" "0 < unat val"
    and "length (num_digits (unat radix) (unat val)) + length acc \<le> 31"
  shows "put_digits val radix acc = Inr (digit_bytes True (unat radix) (unat val) @ acc)"
  using assms
proof (induction val radix acc rule: put_digits.induct)
  case (1 val radix acc)
  let ?b = "unat radix" and ?n = "unat val"
  have md: "unat (val mod radix) = ?n mod ?b" "unat (val div radix) = ?n div ?b"
    by (simp_all add: unat_mod unat_div)
  have "?n mod ?b < ?b" using 1(2) by simp
  then have c: "con_digit (val mod radix) = digit_char True (val mod radix)"
    using 1(3) md by (intro con_digit_char) linarith
  have last: "of_nat (?n mod ?b) = val mod radix" by (simp flip: md)
  have pos: "0 < val" using 1(4) by (simp add: word_less_nat_alt)
  have "0 < length (num_digits ?b ?n)" by (simp add: num_digits_nonempty)
  then have la: "length acc < 31" using 1(5) by linarith
  have step: "put_digits val radix acc = put_digits (val div radix) radix (con_digit (val mod radix) # acc)"
    using pos la by (subst put_digits.simps) simp
  show ?case
  proof (cases "?n < ?b")
    case True
    then have z: "val div radix = 0" using md by (simp add: unat_eq_0)
    have d: "num_digits ?b ?n = [?n]" using True by (subst num_digits.simps) simp
    have vm: "val mod radix = val" using True by (simp add: md word_unat_eq_iff)
    then have "digit_bytes True ?b ?n = [con_digit (val mod radix)]"
      using c unfolding vm by (simp add: digit_bytes_def d)
    then show ?thesis unfolding step z by (subst put_digits.simps) simp
  next
    case False
    have d: "num_digits ?b ?n = num_digits ?b (unat (val div radix)) @ [?n mod ?b]"
      using False 1(2) by (subst num_digits.simps) (simp add: md)
    have "digit_bytes True ?b ?n = digit_bytes True ?b (unat (val div radix)) @ [con_digit (val mod radix)]"
      by (simp add: digit_bytes_def d last c)
    moreover have "0 < unat (val div radix)" using False 1(2) md by (simp add: div_greater_zero_iff)
    ultimately show ?thesis
      using 1(1) [OF pos la 1(2,3)] 1(5) d unfolding step by simp
  qed
qed

lemma put_pad_eq:
  "length acc \<le> 31 \<Longrightarrow> width \<le> 31 \<Longrightarrow> put_pad width pad acc = Inr (replicate (width - length acc) pad @ acc)"
proof (induction width pad acc rule: put_pad.induct)
  case (1 width pad acc)
  show ?case
  proof (cases "width > length acc")
    case True
    then have l: "length acc < 31" using 1(3) by simp
    have "replicate (width - length acc) pad @ acc = replicate (width - Suc (length acc)) pad @ pad # acc"
      using True by (metis Suc_diff_Suc append_Cons append_eq_appendI replicate_Suc replicate_app_Cons_same self_append_conv2)
    then show ?thesis using 1 True l by (subst put_pad.simps) simp
  next
    case False
    then show ?thesis by (subst put_pad.simps) simp
  qed
qed

lemma num_digits_length: "2 \<le> b \<Longrightarrow> n < b ^ k \<Longrightarrow> 0 < k \<Longrightarrow> length (num_digits b n) \<le> k"
proof (induction b n arbitrary: k rule: num_digits.induct)
  case (1 b n)
  show ?case
  proof (cases "n < b")
    case True
    then show ?thesis using 1(4) by (subst num_digits.simps) simp
  next
    case False
    obtain j where j: "k = Suc j" using 1(4) by (cases k) auto
    have "n < b ^ j * b" using 1(3) j by (simp add: mult.commute)
    then have lt: "n div b < b ^ j" by (rule less_mult_imp_div_less)
    have "0 < j"
    proof (rule ccontr)
      assume "\<not> 0 < j"
      then show False using 1(3) j False by simp
    qed
    then have "length (num_digits b (n div b)) \<le> j" using 1(1) [OF _ 1(2) lt] 1(2) False by simp
    then show ?thesis using False 1(2) j by (subst num_digits.simps) simp
  qed
qed

lemma digits_64: "5 \<le> b \<Longrightarrow> length (digit_bytes upper b (unat v)) \<le> 28" for v :: u64
proof -
  assume b: "5 \<le> b"
  then have "(5 :: nat) ^ 28 \<le> b ^ 28" by (intro power_mono) simp_all
  moreover have "(2 :: nat) ^ 64 \<le> 5 ^ 28" by simp
  ultimately have "unat v < b ^ 28" using unat_bounded [of v] by simp
  then show ?thesis using num_digits_length [of b "unat v" 28] b by (simp add: digit_bytes_def)
qed

lemma digit_bytes_zero: "2 \<le> b \<Longrightarrow> digit_bytes upper b 0 = [48]"
  by (simp add: digit_bytes_def num_digits.simps digit_char_def)

definition width_of :: "int32 \<Rightarrow> nat" where
  "width_of w = unat (if w <s 0 then - w else w)"

lemma format_uint_eq:
  fixes val :: u64
  assumes "5 \<le> unat (scast radix :: u64)" "unat (scast radix :: u64) \<le> 36" "width_of width \<le> 31"
  defines "ds \<equiv> digit_bytes True (unat (scast radix :: u64)) (unat val)"
  shows "format_uint val radix width
    = Inr (replicate (width_of width - length ds) (if width <s 0 then 48 else 32) @ ds)"
proof -
  have r: "radix \<noteq> 0" using assms(1) by auto
  have w: "width \<noteq> 0x80000000" using assms(3) by (auto simp: width_of_def word_sless_alt)
  have l: "length ds \<le> 28" unfolding ds_def by (rule digits_64 [OF assms(1)])
  have "(if val = 0 then Inr [48] else put_digits val (scast radix) []) = Inr ds"
  proof (cases "val = 0")
    case True
    then show ?thesis using assms(1) by (simp add: ds_def digit_bytes_zero)
  next
    case False
    have "length (num_digits (unat (scast radix :: u64)) (unat val)) = length ds" by (simp add: ds_def digit_bytes_def)
    then show ?thesis
      using put_digits_eq [of "scast radix" val "[]"] assms(1,2) False l by (simp add: ds_def unat_gt_0)
  qed
  then show ?thesis
    using r w l assms(3) put_pad_eq [of ds "width_of width"] by (simp add: format_uint_def Let_def width_of_def)
qed

text \<open>
  C24: putuint writes the digits of its argument in the radix, padded on the left to the
  width with blanks or, for a negative width, zeros; for a radix of 5 to 36 and a width of
  at most 31 it stays inside its buffer.
\<close>

theorem putuint_exact:
  fixes val :: u64
  assumes "5 \<le> unat (scast radix :: u64)" "unat (scast radix :: u64) \<le> 36" "width_of width \<le> 31"
  defines "ds \<equiv> digit_bytes True (unat (scast radix :: u64)) (unat val)"
  shows "putuint val radix width s
    = con_putstr (replicate (width_of width - length ds) (if width <s 0 then 48 else 32) @ ds) s"
  unfolding putuint_def format_uint_eq [OF assms(1-3)] ds_def by simp

theorem putuint_exact_witness: "\<forall>s. putuint 255 16 (- 4) s = con_putstr [48, 48, 70, 70] s"
proof -
  have d: "digit_bytes True 16 255 = [70, 70]"
    by (simp add: digit_bytes_def num_digits.simps digit_char_def)
  have w: "width_of (- 4) = 4" by (simp add: width_of_def word_sless_alt)
  have r: "replicate 2 48 = [48, 48 :: u8]" by (simp add: numeral_2_eq_2)
  show ?thesis
    using putuint_exact [of 16 "- 4" 255] by (simp add: d w word_sless_alt r)
qed

text \<open>A wider field, or more digits than the buffer holds, is written in front of the buffer.\<close>

lemma put_pad_overflow: "31 < width \<Longrightarrow> length acc \<le> 31 \<Longrightarrow> put_pad width pad acc = Inl OutOfBounds"
proof (induction width pad acc rule: put_pad.induct)
  case (1 width pad acc)
  then show ?case by (subst put_pad.simps) auto
qed

lemma put_digits_overflow:
  "length acc \<le> 31 \<Longrightarrow> 2 \<le> unat radix \<Longrightarrow> unat radix ^ (31 - length acc) \<le> unat val
    \<Longrightarrow> put_digits val radix acc = Inl OutOfBounds"
proof (induction val radix acc rule: put_digits.induct)
  case (1 val radix acc)
  have "0 < unat radix ^ (31 - length acc)" using 1(3) by simp
  then have "0 < unat val" using 1(4) by (rule less_le_trans)
  then have pos: "0 < val" by (simp add: word_less_nat_alt)
  show ?case
  proof (cases "length acc < 31")
    case True
    then have "unat radix ^ (31 - length acc) = unat radix ^ (31 - Suc (length acc)) * unat radix"
      by (metis Suc_diff_Suc mult.commute power_Suc)
    then have "unat radix ^ (31 - Suc (length acc)) \<le> unat (val div radix)"
      using 1(3,4) by (simp add: unat_div less_eq_div_iff_mult_less_eq)
    then have "put_digits (val div radix) radix (con_digit (val mod radix) # acc) = Inl OutOfBounds"
      using 1(1) [OF pos True] True 1(3) by simp
    then show ?thesis using pos True by (subst put_digits.simps) simp
  next
    case False
    then show ?thesis using pos by (subst put_digits.simps) simp
  qed
qed

theorem putuint_underflows:
  "format_uint 7 10 32 = Inl OutOfBounds \<and> format_uint 0xFFFFFFFF 2 0 = Inl OutOfBounds"
proof
  have "put_digits 7 10 [] = Inr (digit_bytes True 10 7)"
    using put_digits_eq [of 10 7 "[]"] by (simp add: num_digits.simps)
  then show "format_uint 7 10 32 = Inl OutOfBounds"
    using put_pad_overflow [of 32 "digit_bytes True 10 7"]
    by (simp add: format_uint_def word_sless_alt digit_bytes_def num_digits.simps)
  show "format_uint 0xFFFFFFFF 2 0 = Inl OutOfBounds"
    using put_digits_overflow [of "[]" 2 "0xFFFFFFFF"] by (simp add: format_uint_def)
qed

subsection \<open>Line editing\<close>

text \<open>
  The line after some keys, the keys behind Enter, and no result while the line would
  fill the buffer of n bytes or Enter has not come.
\<close>

fun edit :: "nat \<Rightarrow> int32 list \<Rightarrow> u8 list \<Rightarrow> (u8 list \<times> int32 list) option" where
  "edit n [] l = None"
| "edit n (c # cs) l =
     (if c = - 1 \<or> c = 0 then edit n cs l
      else if c = 8 \<or> c = 127 then edit n cs (butlast l)
      else if c = 27 then edit n cs []
      else if c = 13 \<or> c = 10 then if l = [] then edit n cs l else Some (l, cs)
      else if length l + 1 < n then edit n cs (l @ [ucast c]) else None)"

definition holds :: "u8 list \<Rightarrow> size32 \<Rightarrow> u8 list \<Rightarrow> bool" where
  "holds buf idx l \<longleftrightarrow> unat idx = length l \<and> length l < length buf \<and> take (length l) buf = l"

lemma holds_put: "holds buf idx l \<Longrightarrow> span_put idx c buf = Inr (buf[length l := c])"
  by (simp add: holds_def span_put_def)

lemma holds_nul: "holds buf idx l \<Longrightarrow> holds (buf[length l := c]) idx l"
  by (simp add: holds_def)

lemma holds_back: "holds buf idx l \<Longrightarrow> l \<noteq> [] \<Longrightarrow> holds (buf[length l := c]) (idx - 1) (butlast l)"
proof -
  assume a: "holds buf idx l" "l \<noteq> []"
  then have "unat (idx - 1) = length l - 1" by (subst unat_sub_noov) (auto simp: holds_def Suc_leI)
  moreover have "take (length l - 1) buf = butlast l"
    using a by (metis butlast_take holds_def less_imp_le)
  ultimately show ?thesis using a by (auto simp: holds_def)
qed

lemma holds_add: "holds buf idx l \<Longrightarrow> length l + 1 < length buf \<Longrightarrow> length buf < 2 ^ 32
    \<Longrightarrow> holds (buf[length l := c]) (idx + 1) (l @ [c])"
proof -
  assume a: "holds buf idx l" "length l + 1 < length buf" "length buf < 2 ^ 32"
  then have "unat (idx + 1) = length l + 1" by (subst unat_add_noov) (simp_all add: holds_def)
  moreover have "take (Suc (length l)) (buf[length l := c]) = l @ [c]"
    using a by (simp add: holds_def take_Suc_conv_app_nth)
  ultimately show ?thesis using a by (simp add: holds_def)
qed

lemma get_line_loop_edit:
  assumes "holds buf idx l" "length buf < 2 ^ 32" "edit (length buf) cs l = Some (l', rest)"
  shows "\<exists>n buf' out'. get_line_loop cs idx buf out = Some (Inr (n, buf', out', rest))
     \<and> holds buf' n l' \<and> buf' ! length l' = 0 \<and> l' \<noteq> [] \<and> length buf' = length buf"
  using assms
proof (induction cs arbitrary: idx buf out l)
  case (Cons c cs)
  note h = Cons.prems(1)
  have z: "idx = 0 \<longleftrightarrow> l = []" using h by (auto simp: holds_def unat_eq_0 simp flip: unat_eq_zero)
  consider "c = - 1 \<or> c = 0" | "c = 8 \<or> c = 127" | "c = 27" | "c = 13 \<or> c = 10"
    | "c \<noteq> - 1" "c \<noteq> 0" "c \<noteq> 8" "c \<noteq> 127" "c \<noteq> 27" "c \<noteq> 13" "c \<noteq> 10" by blast
  then show ?case
  proof cases
    case 1
    then show ?thesis using Cons by auto
  next
    case 2
    show ?thesis
    proof (cases "l = []")
      case True
      then show ?thesis using 2 Cons.IH [OF h] Cons.prems z by auto
    next
      case False
      then show ?thesis
        using 2 Cons.IH [OF holds_back [OF h False, of 0]] Cons.prems z holds_put [OF h, of 0] by auto
    qed
  next
    case 3
    have "holds buf 0 []" using h by (auto simp: holds_def)
    then show ?thesis using 3 Cons.IH [of buf 0 "[]"] Cons.prems by simp
  next
    case 4
    show ?thesis
    proof (cases "l = []")
      case True
      then show ?thesis using 4 Cons.IH [OF h] Cons.prems z by auto
    next
      case False
      then have "0 < idx" using z by (simp add: word_gt_0)
      moreover have "l' = l" "rest = cs" using 4 False Cons.prems(3) by auto
      moreover have "(buf[length l := 0]) ! length l = 0" using h by (simp add: holds_def)
      ultimately show ?thesis
        using 4 False holds_put [OF h, of 0] holds_nul [OF h, of 0] by auto
    qed
  next
    case 5
    then have e: "length l + 1 < length buf" "edit (length buf) cs (l @ [ucast c]) = Some (l', rest)"
      using Cons.prems(3) by (simp_all split: if_splits)
    show ?thesis
      using 5 holds_put [OF h, of "ucast c"] Cons.IH [OF holds_add [OF h e(1) Cons.prems(2), of "ucast c"]]
        e(2) Cons.prems(2) by simp
  qed
qed simp

text \<open>
  C25: get_line returns the edited line: backspace removes the last character, escape the
  whole line, empty lines are ignored; the buffer holds the line and a NUL, as long as the line
  never fills the buffer.
\<close>

theorem get_line_edits:
  assumes "length buf < 2 ^ 32" "edit (length buf) (tty_in s) [] = Some (l, rest)"
  shows "\<exists>n buf' s'. get_line buf s = Some (Inr (n, buf', s')) \<and> unat n = length l
     \<and> take (length l) buf' = l \<and> buf' ! length l = 0 \<and> length buf' = length buf \<and> tty_in s' = rest"
proof (cases "length buf < 2")
  case True
  have "edit (length buf) cs [] = None" for cs using True by (induction cs) auto
  with assms(2) show ?thesis by simp
next
  case False
  then have nb: "buf \<noteq> []" by auto
  then have h: "holds buf 0 []" by (simp add: holds_def)
  have "unat (of_nat (length buf) :: size32) = length buf" using assms(1) by (intro unat_of_nat_len) simp
  then have "unat (of_nat (length buf) - 1 :: size32) = length buf - 1" using False by (subst unat_sub_noov) simp_all
  then have "unat (of_nat (length buf) - 1 :: size32) \<noteq> 0" using False by linarith
  then have "of_nat (length buf) - (1 :: size32) \<noteq> 0" by (metis unat_0)
  with nb show ?thesis
    using get_line_loop_edit [OF h assms, of "tty_out s"] by (auto simp: get_line_def holds_def)
qed

theorem get_line_edits_witness:
  "\<exists>n buf' s'. get_line (replicate 8 0) \<lparr>m_paged = False, m_lineCount = 0, tty_out = [], tty_in = [97, 98, 8, 99, 13]\<rparr>
       = Some (Inr (n, buf', s')) \<and> take 2 buf' = [97, 99]"
proof -
  let ?s = "\<lparr>m_paged = False, m_lineCount = 0, tty_out = [], tty_in = [97, 98, 8, 99, 13]\<rparr>"
  have "edit (length (replicate 8 (0 :: u8))) (tty_in ?s) [] = Some ([97, 99], [])" by simp
  moreover have "length (replicate 8 (0 :: u8)) < 2 ^ 32" by simp
  ultimately obtain n buf' s' where "get_line (replicate 8 0) ?s = Some (Inr (n, buf', s'))"
    "take (length [97, 99 :: u8]) buf' = [97, 99]" using get_line_edits by blast
  then show ?thesis by (simp add: numeral_2_eq_2)
qed

text \<open>
  The index is not limited to the buffer: filling a buffer of n bytes and typing one more
  character panics.
\<close>

lemma get_line_fill:
  assumes "unat idx + k = length buf" "1 < length buf" "length buf < 2 ^ 32"
  shows "get_line_loop (replicate (Suc k) 97) idx buf out
    = Some (Inl (Panic ''Attempt to index span outside of max range.''))"
  using assms
proof (induction k arbitrary: idx buf out)
  case 0
  then show ?case by (simp add: span_put_def)
next
  case (Suc k)
  have u: "unat (idx + 1) = unat idx + 1" using Suc.prems by (subst unat_add_noov) simp_all
  define cs where "cs = replicate (Suc k) (97 :: int32)"
  have IH: "get_line_loop cs (idx + 1) buf' out' = Some (Inl (Panic ''Attempt to index span outside of max range.''))"
    if "length buf' = length buf" for buf' out'
    unfolding cs_def using u Suc.prems that by (intro Suc.IH) simp_all
  have "replicate (Suc (Suc k)) 97 = 97 # cs" by (simp add: cs_def)
  then show ?case using Suc.prems IH by (simp add: span_put_def)
qed

theorem get_line_panics:
  assumes "1 < length buf" "length buf < 2 ^ 32" "tty_in s = replicate (Suc (length buf)) 97"
  shows "get_line buf s = Some (Inl (Panic ''Attempt to index span outside of max range.''))"
proof -
  have "unat (of_nat (length buf) :: size32) = length buf" using assms(2) by (intro unat_of_nat_len) simp
  then have "unat (of_nat (length buf) - 1 :: size32) = length buf - 1" using assms(1) by (subst unat_sub_noov) simp_all
  then have "unat (of_nat (length buf) - 1 :: size32) \<noteq> 0" using assms(1) by linarith
  then have "of_nat (length buf) - (1 :: size32) \<noteq> 0" by (metis unat_0)
  moreover have "buf \<noteq> []" using assms(1) by auto
  ultimately show ?thesis
    using get_line_fill [of 0 "length buf" buf "tty_out s"] assms by (simp add: get_line_def)
qed

end
