(* ===== verification/Bitmap.thy ===== *)
theory Bitmap
  imports BitMath
begin

text \<open>
  kernel/utils/bitmap.h in the 32-bit build: a fixed-size bit set in 32-bit cells. The
  template argument BITS is the first argument of every definition; the three block tests
  (more than, exactly, and less than one cell) are the three branches of the code's
  template specialisation. Positions are returned as 32-bit size_t values, npos included.
\<close>

subsection \<open>Traits\<close>

type_synonym bitmap = "u32 list"

definition CellBits :: nat where "CellBits = 32"

definition ExtraBitCount :: "nat \<Rightarrow> nat" where
  "ExtraBitCount BITS = BITS AND (CellBits - 1)"

definition ExtraBitMask :: "nat \<Rightarrow> u32" where
  "ExtraBitMask BITS = push_bit (ExtraBitCount BITS) 1 - 1"

definition MinCellCount :: "nat \<Rightarrow> nat" where "MinCellCount BITS = BITS div CellBits"

definition ArraySize :: "nat \<Rightarrow> nat" where
  "ArraySize BITS = MinCellCount BITS + (if ExtraBitCount BITS \<noteq> 0 then 1 else 0)"

definition GetCellIndex :: "nat \<Rightarrow> nat" where "GetCellIndex i = i div CellBits"

definition GetBit :: "nat \<Rightarrow> u32" where "GetBit i = push_bit (i AND (CellBits - 1)) 1"

definition npos :: size32 where "npos = - 1"

definition AllBits :: u32 where "AllBits = 0 - 1"

subsection \<open>Block tests\<close>

function cells_all :: "u32 \<Rightarrow> nat \<Rightarrow> nat \<Rightarrow> bitmap \<Rightarrow> bool" where
  "cells_all v n i arr = (if i < n then arr ! i = v \<and> cells_all v n (Suc i) arr else True)"
  by pat_completeness auto
termination by (relation "measure (\<lambda>(v, n, i, arr). n - i)") auto

declare cells_all.simps [simp del]

function first_set_from :: "nat \<Rightarrow> nat \<Rightarrow> bitmap \<Rightarrow> size32 option" where
  "first_set_from n i arr =
     (if i < n then
        let pos = lsb_index (arr ! i)
        in if pos \<noteq> 0 then Some (of_nat (i * CellBits) + (of_nat pos - 1))
           else first_set_from n (Suc i) arr
      else None)"
  by pat_completeness auto
termination by (relation "measure (\<lambda>(n, i, arr). n - i)") auto

declare first_set_from.simps [simp del]

function first_clear_from :: "nat \<Rightarrow> nat \<Rightarrow> bitmap \<Rightarrow> size32 option" where
  "first_clear_from n i arr =
     (if i < n then
        let pos = lsb_index (NOT (arr ! i))
        in if pos \<noteq> 0 then Some (of_nat (i * CellBits) + (of_nat pos - 1))
           else first_clear_from n (Suc i) arr
      else None)"
  by pat_completeness auto
termination by (relation "measure (\<lambda>(n, i, arr). n - i)") auto

declare first_clear_from.simps [simp del]

definition all_clear :: "nat \<Rightarrow> bitmap \<Rightarrow> bool" where
  "all_clear BITS arr =
     (if BITS \<le> CellBits then arr ! 0 = 0
      else cells_all 0 (MinCellCount BITS) 0 arr
        \<and> (MinCellCount BITS \<noteq> ArraySize BITS \<longrightarrow>
             arr ! MinCellCount BITS AND of_nat (ExtraBitCount BITS) = 0))"

definition all_set :: "nat \<Rightarrow> bitmap \<Rightarrow> bool" where
  "all_set BITS arr =
     (if BITS = CellBits then arr ! 0 = AllBits
      else if BITS < CellBits then arr ! 0 AND ExtraBitMask BITS = ExtraBitMask BITS
      else cells_all AllBits (MinCellCount BITS) 0 arr
        \<and> (MinCellCount BITS \<noteq> ArraySize BITS \<longrightarrow>
             arr ! MinCellCount BITS AND of_nat (ExtraBitCount BITS) = of_nat (ExtraBitCount BITS)))"

definition first_set :: "nat \<Rightarrow> bitmap \<Rightarrow> size32" where
  "first_set BITS arr =
     (if BITS = CellBits then of_nat (lsb_index (arr ! 0)) - 1
      else if BITS < CellBits then
        (let pos = lsb_index (arr ! 0) in if pos < BITS then of_nat pos - 1 else npos)
      else case first_set_from (MinCellCount BITS) 0 arr of
        Some p \<Rightarrow> p
      | None \<Rightarrow>
          if MinCellCount BITS \<noteq> ArraySize BITS then
            let pos = lsb_index (arr ! MinCellCount BITS)
            in if pos \<le> ExtraBitCount BITS
               then of_nat (MinCellCount BITS * CellBits) + (of_nat pos - 1) else npos
          else npos)"

definition first_clear :: "nat \<Rightarrow> bitmap \<Rightarrow> size32" where
  "first_clear BITS arr =
     (if BITS = CellBits then of_nat (lsb_index (NOT (arr ! 0))) - 1
      else if BITS < CellBits then
        (let pos = lsb_index (NOT (arr ! 0)) in if pos < BITS then of_nat pos - 1 else npos)
      else case first_clear_from (MinCellCount BITS) 0 arr of
        Some p \<Rightarrow> p
      | None \<Rightarrow>
          if MinCellCount BITS \<noteq> ArraySize BITS then
            let pos = lsb_index (NOT (arr ! MinCellCount BITS))
            in if pos \<le> ExtraBitCount BITS
               then of_nat (MinCellCount BITS * CellBits) + (of_nat pos - 1) else npos
          else npos)"

subsection \<open>The container\<close>

definition bitmap_new :: "nat \<Rightarrow> bitmap" where "bitmap_new BITS = replicate (ArraySize BITS) 0"

definition bit_operation :: "(u32 \<Rightarrow> u32 \<Rightarrow> u32) \<Rightarrow> nat \<Rightarrow> nat \<Rightarrow> bitmap \<Rightarrow> bitmap" where
  "bit_operation f BITS index arr =
     (if index \<ge> BITS then arr
      else arr [GetCellIndex index := f (arr ! GetCellIndex index) (GetBit index)])"

definition set_bit :: "nat \<Rightarrow> nat \<Rightarrow> bitmap \<Rightarrow> bitmap" where
  "set_bit = bit_operation (\<lambda>c b. c OR b)"

definition clear_bit :: "nat \<Rightarrow> nat \<Rightarrow> bitmap \<Rightarrow> bitmap" where
  "clear_bit = bit_operation (\<lambda>c b. c AND NOT b)"

definition flip_bit :: "nat \<Rightarrow> nat \<Rightarrow> bitmap \<Rightarrow> bitmap" where
  "flip_bit = bit_operation (\<lambda>c b. c XOR b)"

definition test_bit :: "nat \<Rightarrow> nat \<Rightarrow> bitmap \<Rightarrow> bool" where
  "test_bit BITS index arr =
     (if index \<ge> BITS then False
      else arr ! GetCellIndex index AND GetBit index \<noteq> 0)"

subsection \<open>The set a bitmap stands for\<close>

definition bits_of :: "nat \<Rightarrow> bitmap \<Rightarrow> nat set" where
  "bits_of BITS arr = {i. test_bit BITS i arr}"

text \<open>The declared length, and no bit set above BITS: what every operation maintains.\<close>

definition bitmap_ok :: "nat \<Rightarrow> bitmap \<Rightarrow> bool" where
  "bitmap_ok BITS arr \<longleftrightarrow> length arr = ArraySize BITS
     \<and> (\<forall>j. BITS \<le> j \<and> j < ArraySize BITS * CellBits \<longrightarrow> \<not> bit (arr ! (j div CellBits)) (j mod CellBits))"

lemma ExtraBitCount_mod: "ExtraBitCount BITS = BITS mod 32"
  unfolding ExtraBitCount_def CellBits_def
  using mask_eq_exp_minus_1 [of 5, where 'a = nat] take_bit_eq_mask [of 5 BITS]
  by (simp add: take_bit_eq_mod)

lemma cell_mask: "i AND (CellBits - 1) = i mod 32"
  using ExtraBitCount_mod [of i] by (simp add: ExtraBitCount_def)

lemma GetBit_bit: "bit (GetBit i) j \<longleftrightarrow> j = i mod 32"
  unfolding GetBit_def cell_mask
  by (auto simp: push_bit_eq_mult bit_exp_word)

lemma GetBit_exp: "GetBit i = 2 ^ (i mod 32)"
  unfolding GetBit_def cell_mask by (simp add: push_bit_eq_mult)

lemma and_GetBit: "c AND GetBit i \<noteq> 0 \<longleftrightarrow> bit c (i mod 32)"
proof -
  have "bit (c AND GetBit i) j \<longleftrightarrow> j = i mod 32 \<and> bit c j" for j
    by (auto simp: bit_and_iff GetBit_bit)
  then show ?thesis by (metis bit_0_eq bit_eq_iff bot_apply bot_bool_def)
qed

lemma test_bit_iff: "test_bit BITS i arr \<longleftrightarrow> i < BITS \<and> bit (arr ! (i div 32)) (i mod 32)"
  by (simp add: test_bit_def and_GetBit GetCellIndex_def CellBits_def)

lemma in_bits_of [simp]: "i \<in> bits_of BITS arr \<longleftrightarrow> test_bit BITS i arr"
  by (simp add: bits_of_def)

lemma bits_of_bounded: "bits_of BITS arr \<subseteq> {..<BITS}"
  by (auto simp: test_bit_iff)

lemma finite_bits_of [simp]: "finite (bits_of BITS arr)"
  using bits_of_bounded finite_subset by blast

lemma ArraySize_le: "ArraySize BITS * 32 < BITS + 32"
  unfolding ArraySize_def MinCellCount_def ExtraBitCount_mod CellBits_def by presburger

lemma ArraySize_ge: "BITS \<le> ArraySize BITS * 32"
  unfolding ArraySize_def MinCellCount_def ExtraBitCount_mod CellBits_def by presburger

lemma cell_in_array: "i < BITS \<Longrightarrow> i div 32 < ArraySize BITS"
  using ArraySize_ge [of BITS] by (simp add: less_mult_imp_div_less)

lemma bit_operation_nth:
  assumes "length arr = ArraySize BITS" "i < BITS" "j < ArraySize BITS * 32"
    and f: "\<And>c k. bit (f c (GetBit i)) k = (if k = i mod 32 then g (bit c k) else bit c k)"
  shows "bit (bit_operation f BITS i arr ! (j div 32)) (j mod 32)
     = (if j = i then g (bit (arr ! (j div 32)) (j mod 32)) else bit (arr ! (j div 32)) (j mod 32))"
proof (cases "j div 32 = i div 32")
  case True
  then have "j = i \<longleftrightarrow> j mod 32 = i mod 32" by (metis div_mod_decomp)
  with True show ?thesis
    using assms cell_in_array [of i BITS]
    by (auto simp: bit_operation_def GetCellIndex_def CellBits_def)
next
  case False
  then show ?thesis
    using assms by (auto simp: bit_operation_def GetCellIndex_def CellBits_def)
qed

lemma bit_operation_props:
  assumes "bitmap_ok BITS arr" and "i < BITS"
    and "\<And>c k. bit (f c (GetBit i)) k = (if k = i mod 32 then g (bit c k) else bit c k)"
  shows "bitmap_ok BITS (bit_operation f BITS i arr)"
    and "test_bit BITS j (bit_operation f BITS i arr)
       = (if j = i then g (test_bit BITS i arr) else test_bit BITS j arr)"
proof -
  have l: "length arr = ArraySize BITS" using assms(1) by (simp add: bitmap_ok_def)
  note n = bit_operation_nth [where f = f and g = g, OF l assms(2) _ assms(3)]
  show "bitmap_ok BITS (bit_operation f BITS i arr)"
    using assms(1,2) n by (auto simp: bitmap_ok_def bit_operation_def CellBits_def)
  show "test_bit BITS j (bit_operation f BITS i arr)
       = (if j = i then g (test_bit BITS i arr) else test_bit BITS j arr)"
    using assms(2) n [of j] ArraySize_ge [of BITS] by (auto simp: test_bit_iff)
qed

lemma bit_operation_out: "BITS \<le> i \<Longrightarrow> bit_operation f BITS i arr = arr"
  by (simp add: bit_operation_def)

lemma set_bit_props:
  assumes "bitmap_ok BITS arr"
  shows "bitmap_ok BITS (set_bit BITS i arr)"
    and "bits_of BITS (set_bit BITS i arr) = bits_of BITS arr \<union> ({i} \<inter> {..<BITS})"
proof (atomize (full), cases "i < BITS")
  case True
  have f: "bit (c OR GetBit i) k = (if k = i mod 32 then True else bit c k)" for c k
    by (auto simp: bit_or_iff GetBit_bit)
  show "bitmap_ok BITS (set_bit BITS i arr) \<and> bits_of BITS (set_bit BITS i arr) = bits_of BITS arr \<union> ({i} \<inter> {..<BITS})"
    using bit_operation_props [OF assms True, of "\<lambda>c b. c OR b" "\<lambda>_. True"] f True
    by (auto simp: set_bit_def split: if_splits)
qed (use assms in \<open>simp add: set_bit_def bit_operation_out\<close>)

lemma clear_bit_props:
  assumes "bitmap_ok BITS arr"
  shows "bitmap_ok BITS (clear_bit BITS i arr)"
    and "bits_of BITS (clear_bit BITS i arr) = bits_of BITS arr - {i}"
proof (atomize (full), cases "i < BITS")
  case True
  have f: "bit (c AND NOT (GetBit i)) k = (if k = i mod 32 then False else bit c k)" for c k
    using bit_imp_le_length [of c k] by (auto simp: bit_and_iff bit_not_iff GetBit_bit)
  show "bitmap_ok BITS (clear_bit BITS i arr) \<and> bits_of BITS (clear_bit BITS i arr) = bits_of BITS arr - {i}"
    using bit_operation_props [OF assms True, of "\<lambda>c b. c AND NOT b" "\<lambda>_. False"] f True
    by (auto simp: clear_bit_def split: if_splits)
next
  case False
  then show "bitmap_ok BITS (clear_bit BITS i arr) \<and> bits_of BITS (clear_bit BITS i arr) = bits_of BITS arr - {i}"
    using assms by (auto simp: clear_bit_def bit_operation_out test_bit_iff)
qed

lemma flip_bit_props:
  assumes "bitmap_ok BITS arr" and "i < BITS"
  shows "bitmap_ok BITS (flip_bit BITS i arr)"
    and "test_bit BITS j (flip_bit BITS i arr) = (if j = i then \<not> test_bit BITS i arr else test_bit BITS j arr)"
proof -
  have f: "bit (c XOR GetBit i) k = (if k = i mod 32 then \<not> bit c k else bit c k)" for c k
    by (auto simp: bit_xor_iff GetBit_bit)
  show "bitmap_ok BITS (flip_bit BITS i arr)"
    and "test_bit BITS j (flip_bit BITS i arr) = (if j = i then \<not> test_bit BITS i arr else test_bit BITS j arr)"
    using bit_operation_props [OF assms, of "\<lambda>c b. c XOR b" "\<lambda>x. \<not> x"] f
    by (auto simp: flip_bit_def)
qed

lemma bitmap_new_props: "bitmap_ok BITS (bitmap_new BITS)" "bits_of BITS (bitmap_new BITS) = {}"
proof -
  have c: "j div 32 < ArraySize BITS \<Longrightarrow> bitmap_new BITS ! (j div 32) = 0" for j
    by (simp add: bitmap_new_def)
  show "bitmap_ok BITS (bitmap_new BITS)"
    using c by (auto simp: bitmap_ok_def bitmap_new_def CellBits_def less_mult_imp_div_less)
  show "bits_of BITS (bitmap_new BITS) = {}"
    using c cell_in_array by (auto simp: test_bit_iff)
qed

subsection \<open>Searching\<close>

lemma lsb_index_zero [simp]: "lsb_index 0 = 0"
  by simp

lemma clear_search_eq_set: "first_clear_from n i arr = first_set_from n i (map NOT arr)"
  if "n \<le> length arr"
  using that
  by (induction n i arr rule: first_clear_from.induct)
    (subst first_clear_from.simps, subst first_set_from.simps, auto simp: Let_def)

definition first_bit :: "u32 list \<Rightarrow> nat \<Rightarrow> bool" where
  "first_bit arr j \<longleftrightarrow> bit (arr ! (j div 32)) (j mod 32)
     \<and> (\<forall>j'<j. \<not> bit (arr ! (j' div 32)) (j' mod 32))"

lemma lsb_pos:
  assumes "lsb_index (c :: u32) \<noteq> 0" and "i * 32 + 32 \<le> 2 ^ 32"
  obtains k where "lsb_index c = Suc k" "k < 32" "bit c k" "\<forall>j<k. \<not> bit c j"
    "of_nat (i * CellBits) + (of_nat (lsb_index c) - 1) = (of_nat (i * 32 + k) :: size32)"
proof -
  obtain k where k: "lsb_index c = Suc k" using assms(1) by (cases "lsb_index c") auto
  then have "bit c k" "\<forall>j<k. \<not> bit c j" by (simp_all add: lsb_index_Suc)
  with k that bit_imp_le_length [of c k] show ?thesis by (simp add: CellBits_def)
qed

lemma first_set_from_correct:
  "n * 32 \<le> 2 ^ 32 \<Longrightarrow> (\<forall>j<i * 32. \<not> bit (arr ! (j div 32)) (j mod 32)) \<Longrightarrow>
   (case first_set_from n i arr of
      Some p \<Rightarrow> unat p < n * 32 \<and> first_bit arr (unat p)
    | None \<Rightarrow> \<forall>j<n * 32. \<not> bit (arr ! (j div 32)) (j mod 32))"
proof (induction n i arr rule: first_set_from.induct)
  case (1 n i arr)
  show ?case
  proof (cases "i < n")
    case True
    show ?thesis
    proof (cases "lsb_index (arr ! i) = 0")
      case False
      have i: "i * 32 + 32 \<le> 2 ^ 32" using True 1(2) by linarith
      obtain k where k: "lsb_index (arr ! i) = Suc k" "k < 32" "bit (arr ! i) k"
        "\<forall>j<k. \<not> bit (arr ! i) j"
        "of_nat (i * CellBits) + (of_nat (lsb_index (arr ! i)) - 1) = (of_nat (i * 32 + k) :: size32)"
        using False i by (rule lsb_pos)
      have "i * 32 + k < n * 32" using True k(2) by linarith
      moreover have u: "unat (of_nat (i * 32 + k) :: size32) = i * 32 + k"
        using calculation 1(2) by (intro unat_of_nat_len) simp
      moreover have "\<not> bit (arr ! (j div 32)) (j mod 32)" if "j < i * 32 + k" for j
      proof (cases "j < i * 32")
        case True
        then show ?thesis using 1(3) by blast
      next
        case False
        then have "j div 32 = i" "j mod 32 = j - i * 32" "j - i * 32 < k"
          using that k(2) by (auto simp: div_nat_eqI mod_nat_eqI)
        with k(4) show ?thesis by simp
      qed
      ultimately show ?thesis
        using True False k by (subst first_set_from.simps) (auto simp: Let_def first_bit_def)
    next
      case z: True
      then have "arr ! i = 0" using lsb_index_correct [of "arr ! i"] by blast
      moreover have "j div 32 = i \<or> j < i * 32" if "j < Suc i * 32" for j
        using that by (cases "j < i * 32") (auto intro: div_nat_eqI)
      ultimately have "\<forall>j<Suc i * 32. \<not> bit (arr ! (j div 32)) (j mod 32)"
        using 1(3) by (metis bit_0_eq bot_apply bot_bool_def)
      then show ?thesis
        using 1(1) [OF True refl] 1(2) z True
        by (subst first_set_from.simps) (simp add: Let_def)
    qed
  next
    case False
    then have "n * 32 \<le> i * 32" by simp
    with False 1(3) show ?thesis
      by (subst first_set_from.simps) (auto dest: order.strict_trans2)
  qed
qed

lemma first_clear_from_correct:
  assumes "n \<le> length arr" and "n * 32 \<le> 2 ^ 32"
  shows "case first_clear_from n 0 arr of
      Some p \<Rightarrow> unat p < n * 32 \<and> \<not> bit (arr ! (unat p div 32)) (unat p mod 32)
        \<and> (\<forall>j<unat p. bit (arr ! (j div 32)) (j mod 32))
    | None \<Rightarrow> \<forall>j<n * 32. bit (arr ! (j div 32)) (j mod 32)"
proof -
  have n: "bit (map NOT arr ! (j div 32)) (j mod 32) \<longleftrightarrow> \<not> bit (arr ! (j div 32)) (j mod 32)"
    if "j < n * 32" for j
  proof -
    have "j div 32 < length arr" using that assms(1) less_mult_imp_div_less by fastforce
    then show ?thesis by (simp add: bit_not_iff)
  qed
  have "case first_set_from n 0 (map NOT arr) of
      Some p \<Rightarrow> unat p < n * 32 \<and> first_bit (map NOT arr) (unat p)
    | None \<Rightarrow> \<forall>j<n * 32. \<not> bit (map NOT arr ! (j div 32)) (j mod 32)"
    using first_set_from_correct [OF assms(2), of 0] by simp
  then show ?thesis
    unfolding clear_search_eq_set [OF assms(1)] first_bit_def
    by (cases "first_set_from n 0 (map NOT arr)") (use n in \<open>auto dest: order.strict_trans\<close>)
qed

text \<open>What FirstClear promises of a position, npos standing for none.\<close>

definition is_first_clear :: "nat \<Rightarrow> bitmap \<Rightarrow> size32 \<Rightarrow> bool" where
  "is_first_clear BITS arr p \<longleftrightarrow>
     (if p = npos then bits_of BITS arr = {..<BITS}
      else unat p < BITS \<and> unat p \<notin> bits_of BITS arr \<and> {..<unat p} \<subseteq> bits_of BITS arr)"

lemma unat_npos [simp]: "unat npos = 4294967295"
  by (simp add: npos_def unsigned_minus_1_eq_mask mask_eq_exp_minus_1)

lemma is_first_clearI:
  assumes "unat p < BITS" "BITS < 2 ^ 32" "\<not> bit (arr ! (unat p div 32)) (unat p mod 32)"
    and "\<forall>j<unat p. bit (arr ! (j div 32)) (j mod 32)"
  shows "is_first_clear BITS arr p"
proof -
  have "p \<noteq> npos" using assms(1,2) by auto
  with assms show ?thesis by (auto simp: is_first_clear_def test_bit_iff)
qed

lemma is_first_clear_npos:
  "\<forall>j<BITS. bit (arr ! (j div 32)) (j mod 32) \<Longrightarrow> is_first_clear BITS arr npos"
  by (auto simp: is_first_clear_def test_bit_iff)

lemma first_clear_whole_cells:
  assumes "bitmap_ok BITS arr" "CellBits \<le> BITS" "BITS < 2 ^ 32" "ExtraBitCount BITS = 0"
  shows "is_first_clear BITS arr (first_clear BITS arr)"
proof -
  let ?n = "MinCellCount BITS"
  have n: "?n * 32 = BITS" "ArraySize BITS = ?n" "?n \<le> length arr"
    using assms by (auto simp: MinCellCount_def CellBits_def ExtraBitCount_mod ArraySize_def bitmap_ok_def)
  have eq: "first_clear BITS arr = (case first_clear_from ?n 0 arr of Some p \<Rightarrow> p | None \<Rightarrow> npos)"
  proof (cases "BITS = CellBits")
    case True
    then have "?n = Suc 0" by (simp add: MinCellCount_def CellBits_def)
    moreover have "first_clear_from (Suc 0) (Suc 0) arr = None"
      by (subst first_clear_from.simps) simp
    ultimately show ?thesis
      using True by (subst first_clear_from.simps)
        (auto simp: first_clear_def Let_def npos_def)
  next
    case False
    then show ?thesis using assms(2) n(2) by (simp add: first_clear_def)
  qed
  have "case first_clear_from ?n 0 arr of
      Some p \<Rightarrow> unat p < BITS \<and> \<not> bit (arr ! (unat p div 32)) (unat p mod 32)
        \<and> (\<forall>j<unat p. bit (arr ! (j div 32)) (j mod 32))
    | None \<Rightarrow> \<forall>j<BITS. bit (arr ! (j div 32)) (j mod 32)"
    using first_clear_from_correct [OF n(3)] assms(3) unfolding n(1) by simp
  then show ?thesis
    unfolding eq using assms(3)
    by (auto split: option.splits intro: is_first_clearI is_first_clear_npos)
qed

lemma first_clear_tail:
  assumes ok: "bitmap_ok BITS arr" and B: "CellBits < BITS" "BITS < 2 ^ 32" and e: "ExtraBitCount BITS \<noteq> 0"
    and all: "\<forall>j<MinCellCount BITS * 32. bit (arr ! (j div 32)) (j mod 32)"
    and none: "first_clear_from (MinCellCount BITS) 0 arr = None"
  shows "is_first_clear BITS arr (first_clear BITS arr)"
proof -
  let ?n = "MinCellCount BITS" and ?e = "ExtraBitCount BITS"
  let ?c = "NOT (arr ! ?n)"
  have n: "?n * 32 + ?e = BITS" "?e < 32" "ArraySize BITS = Suc ?n"
    using e by (auto simp: MinCellCount_def CellBits_def ExtraBitCount_mod ArraySize_def)
  have at: "(?n * 32 + k) div 32 = ?n" "(?n * 32 + k) mod 32 = k" if "k < 32" for k
    using that by auto
  have spare: "\<not> bit (arr ! ?n) k" if "?e \<le> k" "k < 32" for k
    using ok that n at [OF that(2)] unfolding bitmap_ok_def CellBits_def
    by (metis add.commute add_le_cancel_left add_less_cancel_left mult_Suc)
  then have "bit ?c 31" using n(2) by (simp add: bit_not_iff)
  then have "?c \<noteq> 0" by (metis bit_0_eq bot_apply bot_bool_def)
  then obtain k where k: "lsb_index ?c = Suc k" "bit ?c k" "\<forall>j<k. \<not> bit ?c j"
    by (rule lsb_index_bits)
  have k32: "k < 32" using bit_imp_le_length [OF k(2)] by simp
  have low: "bit (arr ! (j div 32)) (j mod 32)" if "j < ?n * 32 + k" for j
  proof (cases "j < ?n * 32")
    case False
    then have "j = ?n * 32 + (j - ?n * 32)" "j - ?n * 32 < k" using that by auto
    then show ?thesis using k(3) k32 at [of "j - ?n * 32"] by (simp add: bit_not_iff)
  qed (use all in blast)
  have r: "first_clear BITS arr = (if Suc k \<le> ?e then of_nat (?n * 32 + k) else npos)"
    using B none n(3) k(1) by (simp add: first_clear_def CellBits_def)
  show ?thesis
  proof (cases "Suc k \<le> ?e")
    case True
    then have lt: "?n * 32 + k < BITS" using n(1) by linarith
    then have u: "unat (of_nat (?n * 32 + k) :: size32) = ?n * 32 + k"
      using B(2) by (intro unat_of_nat_len) simp
    show ?thesis
      using True r lt B(2) low k(2) at [OF k32]
      by (intro is_first_clearI) (simp_all add: u bit_not_iff del: of_nat_add of_nat_mult)
  next
    case False
    then have "BITS \<le> ?n * 32 + k" using n(1) by linarith
    with False r low show ?thesis by (auto intro: is_first_clear_npos)
  qed
qed

lemma first_clear_ok:
  assumes "bitmap_ok BITS arr" "CellBits \<le> BITS" "BITS < 2 ^ 32"
  shows "is_first_clear BITS arr (first_clear BITS arr)"
proof (cases "ExtraBitCount BITS = 0")
  case False
  let ?n = "MinCellCount BITS"
  have n: "?n * 32 \<le> BITS" "?n \<le> length arr" "BITS \<noteq> CellBits"
    using False assms by (auto simp: MinCellCount_def CellBits_def bitmap_ok_def ArraySize_def ExtraBitCount_mod)
  have c: "case first_clear_from ?n 0 arr of
      Some p \<Rightarrow> unat p < ?n * 32 \<and> \<not> bit (arr ! (unat p div 32)) (unat p mod 32)
        \<and> (\<forall>j<unat p. bit (arr ! (j div 32)) (j mod 32))
    | None \<Rightarrow> \<forall>j<?n * 32. bit (arr ! (j div 32)) (j mod 32)"
    using first_clear_from_correct [OF n(2)] n(1) assms(3) by simp
  show ?thesis
  proof (cases "first_clear_from ?n 0 arr")
    case None
    with c have "\<forall>j<?n * 32. bit (arr ! (j div 32)) (j mod 32)" by simp
    then show ?thesis using first_clear_tail [OF assms(1) _ assms(3) False] assms(2) n(3) None by simp
  next
    case (Some p)
    then have "first_clear BITS arr = p" using assms(2) n(3) by (simp add: first_clear_def)
    with c Some n(1) assms(3) show ?thesis by (auto intro!: is_first_clearI)
  qed
qed (use assms in \<open>rule first_clear_whole_cells\<close>)

subsection \<open>The interface the slabs and the page map rely on\<close>

text \<open>
  A set of numbered slots below n that can be marked, unmarked and searched for a free one.
\<close>

locale slot_map =
  fixes n :: nat
    and ok :: "'b \<Rightarrow> bool"
    and slots :: "'b \<Rightarrow> nat set"
    and mark :: "nat \<Rightarrow> 'b \<Rightarrow> 'b"
    and unmark :: "nat \<Rightarrow> 'b \<Rightarrow> 'b"
    and marked :: "nat \<Rightarrow> 'b \<Rightarrow> bool"
    and find_free :: "'b \<Rightarrow> size32"
    and none :: size32
  assumes slots_bounded: "slots b \<subseteq> {..<n}"
    and mark_ok: "ok b \<Longrightarrow> ok (mark i b)"
    and mark_slots: "ok b \<Longrightarrow> slots (mark i b) = slots b \<union> ({i} \<inter> {..<n})"
    and unmark_ok: "ok b \<Longrightarrow> ok (unmark i b)"
    and unmark_slots: "ok b \<Longrightarrow> slots (unmark i b) = slots b - {i}"
    and marked_iff: "marked i b \<longleftrightarrow> i \<in> slots b"
    and find_none: "ok b \<Longrightarrow> find_free b = none \<Longrightarrow> slots b = {..<n}"
    and find_some: "ok b \<Longrightarrow> find_free b \<noteq> none \<Longrightarrow>
          unat (find_free b) < n \<and> unat (find_free b) \<notin> slots b
        \<and> {..<unat (find_free b)} \<subseteq> slots b"
begin

lemma finite_slots: "finite (slots b)"
  using slots_bounded finite_subset by blast

lemma mark_card:
  "ok b \<Longrightarrow> i < n \<Longrightarrow> \<not> marked i b \<Longrightarrow> card (slots (mark i b)) = Suc (card (slots b))"
  by (simp add: mark_slots marked_iff finite_slots)

lemma unmark_card:
  "ok b \<Longrightarrow> marked i b \<Longrightarrow> Suc (card (slots (unmark i b))) = card (slots b)"
  unfolding unmark_slots marked_iff by (rule card_Suc_Diff1 [OF finite_slots])

lemma unmark_mark: "ok b \<Longrightarrow> \<not> marked i b \<Longrightarrow> slots (unmark i (mark i b)) = slots b"
  by (auto simp: mark_slots unmark_slots mark_ok marked_iff)

text \<open>A client that only uses the first m slots finds one of them while one is free.\<close>

lemma find_below:
  assumes "ok b" "m \<le> n" "card (slots b) < m"
  shows "find_free b \<noteq> none" and "unat (find_free b) < m"
proof -
  show f: "find_free b \<noteq> none"
  proof
    assume "find_free b = none"
    then have "card (slots b) = n" using find_none [OF assms(1)] by simp
    with assms(2,3) show False by linarith
  qed
  show "unat (find_free b) < m"
  proof (rule ccontr)
    assume "\<not> ?thesis"
    then have "{..<m} \<subseteq> {..<unat (find_free b)}" by simp
    then have "{..<m} \<subseteq> slots b" using find_some [OF assms(1) f] by (meson order.trans)
    then have "card {..<m} \<le> card (slots b)" by (rule card_mono [OF finite_slots])
    with assms(3) show False by simp
  qed
qed

end

lemma bitmap_slots:
  assumes "CellBits \<le> BITS" "BITS < 2 ^ 32"
  shows "slot_map BITS (bitmap_ok BITS) (bits_of BITS) (set_bit BITS) (clear_bit BITS)
    (test_bit BITS) (first_clear BITS) npos"
proof (unfold_locales)
  fix b
  show "bitmap_ok BITS b \<Longrightarrow> first_clear BITS b = npos \<Longrightarrow> bits_of BITS b = {..<BITS}"
    and "bitmap_ok BITS b \<Longrightarrow> first_clear BITS b \<noteq> npos \<Longrightarrow>
       unat (first_clear BITS b) < BITS \<and> unat (first_clear BITS b) \<notin> bits_of BITS b
       \<and> {..<unat (first_clear BITS b)} \<subseteq> bits_of BITS b"
    using first_clear_ok [OF _ assms, of b] unfolding is_first_clear_def by presburger+
qed (simp_all add: set_bit_props clear_bit_props bits_of_bounded)

interpretation bm256: slot_map 256 "bitmap_ok 256" "bits_of 256" "set_bit 256" "clear_bit 256"
  "test_bit 256" "first_clear 256" npos
  by (rule bitmap_slots) (simp_all add: CellBits_def)

subsection \<open>Properties\<close>

text \<open>
  On a bitmap of at least one cell, FirstClear returns the least clear position, and
  npos exactly when every bit is set.
\<close>

theorem first_clear_correct:
  assumes "bitmap_ok BITS arr" "CellBits \<le> BITS" "BITS < 2 ^ 32"
  shows "(first_clear BITS arr = npos \<longleftrightarrow> bits_of BITS arr = {..<BITS})
     \<and> (first_clear BITS arr \<noteq> npos \<longrightarrow>
          unat (first_clear BITS arr) < BITS \<and> unat (first_clear BITS arr) \<notin> bits_of BITS arr
        \<and> {..<unat (first_clear BITS arr)} \<subseteq> bits_of BITS arr)"
  using first_clear_ok [OF assms] unfolding is_first_clear_def by (auto split: if_splits)

theorem first_clear_correct_witness:
  "unat (first_clear 256 (set_bit 256 0 (bitmap_new 256))) < 256"
proof -
  have ok: "bitmap_ok 256 (set_bit 256 0 (bitmap_new 256))"
    by (simp add: bitmap_new_props set_bit_props)
  have "bits_of 256 (set_bit 256 0 (bitmap_new 256)) = {0}"
    using bitmap_new_props [of 256] set_bit_props(2) [of 256 "bitmap_new 256" 0] by simp
  moreover have "(255 :: nat) \<notin> {0}" "(255 :: nat) \<in> {..<256}" by simp_all
  ultimately have "bits_of 256 (set_bit 256 0 (bitmap_new 256)) \<noteq> {..<256}" by metis
  with first_clear_correct [OF ok] show ?thesis by (simp add: CellBits_def)
qed

text \<open>
  The block tests for sizes that do not fill their last cell are wrong: AllSet and AllClear
  mask with the number of extra bits instead of their mask, FirstSet reports the position
  before the extra bits on an empty map, and the tests for less than one cell never find the
  last bit.
\<close>

lemma all_set_extra_bits: "all_set 40 [AllBits, 8] \<and> \<not> test_bit 40 39 [AllBits, 8]"
  by code_simp

lemma all_clear_extra_bits: "all_clear 40 [0, 1] \<and> test_bit 40 32 [0, 1]"
  by code_simp

lemma first_set_empty_extra_bits: "first_set 40 (bitmap_new 40) = 31"
  by code_simp

lemma first_clear_last_bit: "first_clear 8 [127] = npos \<and> \<not> test_bit 8 7 [127]"
  by code_simp

end
