(* ===== verification/SizeHash.thy ===== *)
theory SizeHash
  imports Align
begin

text \<open>
  kernel/kalloc/hash.h: the size classes of the small-item allocator in the i386 build, where
  a slab header takes 48 bytes of its page.
\<close>

subsection \<open>Definitions\<close>

definition sizeof_slab :: size32 where "sizeof_slab = 48"

definition MAX_PAGE_SPACE :: size32 where "MAX_PAGE_SPACE = PageSize - sizeof_slab"

definition MAX_ITEM_SIZE :: size32 where "MAX_ITEM_SIZE = MAX_PAGE_SPACE div 2"

definition HashSizeSmall :: "size32 \<Rightarrow> size32" where
  "HashSizeSmall sz = drop_bit 4 (sz + 15) - 1"

definition HashSizeMed :: "size32 \<Rightarrow> size32" where
  "HashSizeMed sz = drop_bit 7 (sz + 127) - 3"

definition IndexSizeSmall :: "u8 \<Rightarrow> size32" where
  "IndexSizeSmall index = push_bit 4 (ucast index + 1)"

definition IndexSizeMed :: "u8 \<Rightarrow> size32" where
  "IndexSizeMed index = min MAX_ITEM_SIZE (push_bit 7 (ucast index + 3))"

definition IndexFromSize :: "size32 \<Rightarrow> size32" where
  "IndexFromSize sz = (if sz \<le> 256 then HashSizeSmall sz else HashSizeMed sz + 16)"

definition ItemSizeFromIndex :: "u8 \<Rightarrow> size32" where
  "ItemSizeFromIndex bucket =
     (if bucket < 16 then IndexSizeSmall bucket else IndexSizeMed (bucket - 16))"

definition ItemCountFromIndex :: "u8 \<Rightarrow> size32" where
  "ItemCountFromIndex bucket = MAX_PAGE_SPACE div ItemSizeFromIndex bucket"

definition MAX_BUCKET_INDEX :: size32 where "MAX_BUCKET_INDEX = IndexFromSize MAX_ITEM_SIZE"

subsection \<open>Values\<close>

lemma page_space: "MAX_PAGE_SPACE = 4048" "MAX_ITEM_SIZE = 2024"
  by (simp_all add: MAX_ITEM_SIZE_def MAX_PAGE_SPACE_def PageSize_def sizeof_slab_def)

lemma max_bucket: "MAX_BUCKET_INDEX = 29"
  unfolding MAX_BUCKET_INDEX_def page_space IndexFromSize_def HashSizeMed_def by code_simp

lemma unat_hash_small: "0 < unat sz \<Longrightarrow> unat sz \<le> 256 \<Longrightarrow> unat (HashSizeSmall sz) = (unat sz + 15) div 16 - 1"
proof -
  assume a: "0 < unat sz" "unat sz \<le> 256"
  have "unat (sz + 15) = unat sz + 15" using a by (subst unat_add_noov) simp_all
  then have "unat (drop_bit 4 (sz + 15)) = (unat sz + 15) div 16"
    by (simp add: drop_bit_eq_div unat_div)
  moreover have "1 \<le> (unat sz + 15) div 16" using a by linarith
  ultimately show ?thesis unfolding HashSizeSmall_def by (subst unat_sub_noov) simp_all
qed

lemma unat_hash_med: "256 < unat sz \<Longrightarrow> unat sz \<le> 4096 \<Longrightarrow> unat (HashSizeMed sz) = (unat sz + 127) div 128 - 3"
proof -
  assume a: "256 < unat sz" "unat sz \<le> 4096"
  have "unat (sz + 127) = unat sz + 127" using a by (subst unat_add_noov) simp_all
  then have "unat (drop_bit 7 (sz + 127)) = (unat sz + 127) div 128"
    by (simp add: drop_bit_eq_div unat_div)
  moreover have "3 \<le> (unat sz + 127) div 128" using a by linarith
  ultimately show ?thesis unfolding HashSizeMed_def by (subst unat_sub_noov) simp_all
qed

lemma unat_index_small: "unat i < 16 \<Longrightarrow> unat (ItemSizeFromIndex i) = (unat i + 1) * 16"
proof -
  assume a: "unat i < 16"
  have "unat (ucast i + 1 :: size32) = unat i + 1"
    using a by (subst unat_add_noov) (simp_all add: unat_ucast_le)
  moreover have "unat (push_bit 4 (w :: size32)) = unat w * 16" if "unat w \<le> 16" for w
    using that by (simp add: push_bit_eq_mult unat_word_ariths)
  ultimately show ?thesis using a
    by (simp add: ItemSizeFromIndex_def IndexSizeSmall_def word_less_nat_alt)
qed

lemma unat_index_med:
  "16 \<le> unat i \<Longrightarrow> unat i \<le> 29 \<Longrightarrow> unat (ItemSizeFromIndex i) = min 2024 ((unat i - 13) * 128)"
proof -
  assume a: "16 \<le> unat i" "unat i \<le> 29"
  have s: "unat (i - 16) = unat i - 16" using a by (subst unat_sub_noov) simp_all
  have "unat (ucast (i - 16) + 3 :: size32) = unat i - 13"
    using a s by (subst unat_add_noov) (simp_all add: unat_ucast_le)
  moreover have "unat (push_bit 7 (w :: size32)) = unat w * 128" if "unat w \<le> 16" for w
    using that by (simp add: push_bit_eq_mult unat_word_ariths)
  ultimately have "unat (push_bit 7 (ucast (i - 16) + 3) :: size32) = (unat i - 13) * 128"
    using a by simp
  moreover have "unat (min a b) = min (unat a) (unat b)" for a b :: size32
    by (simp add: min_def word_le_nat_alt)
  ultimately show ?thesis using a
    by (simp add: ItemSizeFromIndex_def IndexSizeMed_def page_space word_less_nat_alt)
qed

lemma item_size_bounds: "unat i < 29 \<Longrightarrow> 16 \<le> unat (ItemSizeFromIndex i) \<and> unat (ItemSizeFromIndex i) \<le> 1920"
proof -
  assume a: "unat i < 29"
  show ?thesis
  proof (cases "unat i < 16")
    case True
    with unat_index_small [OF True] show ?thesis by simp
  next
    case False
    with a unat_index_med [of i] show ?thesis by (auto simp: min_def)
  qed
qed

lemma item_count_unat: "unat (ItemCountFromIndex i) = 4048 div unat (ItemSizeFromIndex i)"
  by (simp add: ItemCountFromIndex_def page_space unat_div)

lemma item_count_bounds:
  assumes "unat i < 29"
  shows "2 \<le> unat (ItemCountFromIndex i)" "unat (ItemCountFromIndex i) \<le> 253"
    "unat (ItemCountFromIndex i) * unat (ItemSizeFromIndex i) \<le> 4048"
proof -
  have b: "16 \<le> unat (ItemSizeFromIndex i)" "unat (ItemSizeFromIndex i) \<le> 1920"
    using item_size_bounds [OF assms] by auto
  have "4048 div 1920 \<le> 4048 div unat (ItemSizeFromIndex i)"
    using b by (intro div_le_mono2) linarith+
  then show "2 \<le> unat (ItemCountFromIndex i)" by (simp add: item_count_unat)
  have "4048 div unat (ItemSizeFromIndex i) \<le> 4048 div 16"
    using b by (intro div_le_mono2) linarith+
  then show "unat (ItemCountFromIndex i) \<le> 253" by (simp add: item_count_unat)
  show "unat (ItemCountFromIndex i) * unat (ItemSizeFromIndex i) \<le> 4048"
    unfolding item_count_unat by simp
qed

lemma hash_small_fits:
  assumes "0 < unat sz" "unat sz \<le> 256"
  shows "unat (IndexFromSize sz) < 16 \<and> unat sz \<le> (unat (IndexFromSize sz) + 1) * 16
     \<and> (0 < unat (IndexFromSize sz) \<longrightarrow> unat (IndexFromSize sz) * 16 < unat sz)"
proof -
  define q where "q = (unat sz + 15) div 16"
  have q1: "q * 16 \<le> unat sz + 15" unfolding q_def by (rule div_times_less_eq_dividend)
  have q2: "unat sz + 15 < q * 16 + 16" unfolding q_def using dividend_less_div_times [of 16 "unat sz + 15"] by simp
  have q: "1 \<le> q" "q \<le> 16" using q1 q2 assms by linarith+
  have "unat (IndexFromSize sz) = q - 1"
    using unat_hash_small [OF assms] assms(2) by (simp add: IndexFromSize_def word_le_nat_alt q_def)
  moreover obtain r where "q = Suc r" using q by (cases q) auto
  ultimately show ?thesis using q q1 q2 by simp
qed

lemma hash_med_fits:
  assumes "256 < unat sz" "unat sz \<le> 1920"
  shows "16 \<le> unat (IndexFromSize sz) \<and> unat (IndexFromSize sz) < 29
     \<and> unat sz \<le> (unat (IndexFromSize sz) - 13) * 128 \<and> (unat (IndexFromSize sz) - 14) * 128 < unat sz"
proof -
  define q where "q = (unat sz + 127) div 128"
  have q1: "q * 128 \<le> unat sz + 127" unfolding q_def by (rule div_times_less_eq_dividend)
  have q2: "unat sz + 127 < q * 128 + 128" unfolding q_def using dividend_less_div_times [of 128 "unat sz + 127"] by simp
  have q: "3 \<le> q" "q \<le> 15" using q1 q2 assms by linarith+
  have h: "unat (HashSizeMed sz) = q - 3"
    using unat_hash_med [of sz] assms by (simp add: q_def)
  then have "unat (HashSizeMed sz + 16) = q - 3 + 16"
    using q by (subst unat_add_noov) simp_all
  then have i: "unat (IndexFromSize sz) = q + 13"
    using assms(1) q by (simp add: IndexFromSize_def word_le_nat_alt)
  show ?thesis unfolding i using q q1 q2 by simp
qed

lemma index_as_u8: "unat (i :: size32) < 256 \<Longrightarrow> unat (ucast i :: u8) = unat i"
  by (simp add: unat_ucast_mod)

lemma index_pred_u8: "unat (i :: size32) < 256 \<Longrightarrow> 0 < unat i \<Longrightarrow> unat (ucast i - 1 :: u8) = unat i - 1"
  using index_as_u8 [of i] by (subst unat_sub_noov) simp_all

lemma hash_fits_ok:
  assumes "0 < sz" "sz \<le> 1920"
  shows "IndexFromSize sz < MAX_BUCKET_INDEX
     \<and> sz \<le> ItemSizeFromIndex (ucast (IndexFromSize sz))
     \<and> (0 < IndexFromSize sz \<longrightarrow> ItemSizeFromIndex (ucast (IndexFromSize sz) - 1) < sz)"
proof -
  let ?i = "IndexFromSize sz"
  have n: "0 < unat sz" "unat sz \<le> 1920" using assms by (simp_all add: word_less_nat_alt word_le_nat_alt)
  have "unat ?i < 29 \<and> unat sz \<le> unat (ItemSizeFromIndex (ucast ?i))
     \<and> (0 < unat ?i \<longrightarrow> unat (ItemSizeFromIndex (ucast ?i - 1)) < unat sz)"
  proof (cases "unat sz \<le> 256")
    case True
    note f = hash_small_fits [OF n(1) True]
    have "unat (ItemSizeFromIndex (ucast ?i)) = (unat ?i + 1) * 16"
      using f unat_index_small [of "ucast ?i"] index_as_u8 [of ?i] by simp
    moreover have "unat (ItemSizeFromIndex (ucast ?i - 1)) = unat ?i * 16" if "0 < unat ?i"
    proof -
      have "unat (ucast ?i - 1 :: u8) = unat ?i - 1" using f that index_pred_u8 [of ?i] by simp
      moreover from this have "unat (ucast ?i - 1 :: u8) < 16" using f by linarith
      ultimately show ?thesis using that unat_index_small [of "ucast ?i - 1"] by simp
    qed
    ultimately show ?thesis using f by simp
  next
    case False
    then have f: "16 \<le> unat ?i" "unat ?i < 29" "unat sz \<le> (unat ?i - 13) * 128" "(unat ?i - 14) * 128 < unat sz"
      using hash_med_fits [of sz] n by auto
    have "unat (ItemSizeFromIndex (ucast ?i)) = min 2024 ((unat ?i - 13) * 128)"
      using f unat_index_med [of "ucast ?i"] index_as_u8 [of ?i] by simp
    moreover have "unat (ItemSizeFromIndex (ucast ?i - 1)) < unat sz"
    proof (cases "unat ?i = 16")
      case True
      then show ?thesis using False unat_index_small [of "ucast ?i - 1"] index_pred_u8 [of ?i] by simp
    next
      case ne: False
      then have u: "unat (ucast ?i - 1 :: u8) = unat ?i - 1" using f index_pred_u8 [of ?i] by simp
      then have "unat (ItemSizeFromIndex (ucast ?i - 1)) = min 2024 ((unat ?i - 1 - 13) * 128)"
        using f ne unat_index_med [of "ucast ?i - 1"] by simp
      with f(4) show ?thesis by simp
    qed
    ultimately show ?thesis using f(2,3) n(2) by simp
  qed
  then show ?thesis by (simp add: max_bucket word_less_nat_alt word_le_nat_alt)
qed

lemma hash_fits_class:
  "0 < sz \<Longrightarrow> sz \<le> 1920 \<Longrightarrow> IndexFromSize sz < MAX_BUCKET_INDEX \<and> sz \<le> ItemSizeFromIndex (ucast (IndexFromSize sz))"
  using hash_fits_ok [of sz] by blast

subsection \<open>Properties\<close>

text \<open>
  Every size up to 1920 bytes is hashed to an existing bucket whose items are large
  enough, and the items of the bucket below it would be too small.
\<close>

theorem hash_fits:
  assumes "0 < sz" "sz \<le> 1920"
  shows "IndexFromSize sz < MAX_BUCKET_INDEX
     \<and> sz \<le> ItemSizeFromIndex (ucast (IndexFromSize sz))
     \<and> (0 < IndexFromSize sz \<longrightarrow> ItemSizeFromIndex (ucast (IndexFromSize sz) - 1) < sz)"
  using assms by (rule hash_fits_ok)

theorem hash_fits_witness: "IndexFromSize 300 < MAX_BUCKET_INDEX"
  using hash_fits [of 300] by simp

text \<open>Sizes from 1921 to the documented maximum hash to the bucket that does not exist.\<close>

lemma hash_above_last_bucket: "1920 < sz \<Longrightarrow> sz \<le> MAX_ITEM_SIZE \<Longrightarrow> IndexFromSize sz = MAX_BUCKET_INDEX"
proof -
  assume a: "1920 < sz" "sz \<le> MAX_ITEM_SIZE"
  then have n: "1920 < unat sz" "unat sz \<le> 2024"
    by (simp_all add: page_space word_less_nat_alt word_le_nat_alt)
  then have h: "unat (HashSizeMed sz) = 13" using unat_hash_med [of sz] by (simp add: div_nat_eqI)
  have "\<not> sz \<le> 256" using n by (simp add: word_le_nat_alt)
  moreover have "HashSizeMed sz = 13" using h by (intro word_eq_unatI) simp
  ultimately show ?thesis by (simp add: IndexFromSize_def max_bucket)
qed

end
