(* ===== verification/IntrusiveList.thy ===== *)
theory IntrusiveList
  imports Prelude
begin

text \<open>
  kernel/utils/list.h: the doubly linked list whose nodes carry their own Prev and Next
  pointers. The state is the header (first, last, count) together with the two pointer
  fields of every node, addressed by node; address 0 is the null pointer and a store
  through it is a fault. Every operation is shown to implement the operation on HOL lists
  that its documentation names.
\<close>

subsection \<open>State and operations\<close>

record dlist =
  NodePrev :: "addr \<Rightarrow> addr"
  NodeNext :: "addr \<Rightarrow> addr"
  m_first :: addr
  m_last :: addr
  m_count :: size32

definition set_prev :: "addr \<Rightarrow> addr \<Rightarrow> dlist \<Rightarrow> dlist" where
  "set_prev n p s = s\<lparr>NodePrev := (NodePrev s)(n := p)\<rparr>"

definition set_next :: "addr \<Rightarrow> addr \<Rightarrow> dlist \<Rightarrow> dlist" where
  "set_next n p s = s\<lparr>NodeNext := (NodeNext s)(n := p)\<rparr>"

definition dl_init :: "dlist \<Rightarrow> dlist" where
  "dl_init s = s\<lparr>m_first := 0, m_last := 0, m_count := 0\<rparr>"

definition dl_count :: "dlist \<Rightarrow> size32" where "dl_count s = m_count s"

definition dl_empty :: "dlist \<Rightarrow> bool" where "dl_empty s \<longleftrightarrow> m_count s = 0"

definition dl_front :: "dlist \<Rightarrow> addr" where "dl_front s = m_first s"

definition dl_last :: "dlist \<Rightarrow> addr" where "dl_last s = m_last s"

partial_function (option) contains_from :: "(addr \<Rightarrow> addr) \<Rightarrow> addr \<Rightarrow> addr \<Rightarrow> bool option" where
  "contains_from nx node p =
     (if p = 0 then Some False
      else if p = node then Some True
      else contains_from nx node (nx p))"

definition dl_contains :: "addr \<Rightarrow> dlist \<Rightarrow> bool option" where
  "dl_contains node s = contains_from (NodeNext s) node (m_first s)"

definition push_front :: "addr \<Rightarrow> dlist \<Rightarrow> fault + dlist" where
  "push_front node s =
     (if node = 0 then Inl NullDeref
      else let
        s = set_prev node 0 s;
        s = set_next node (m_first s) s;
        s = (if m_first s \<noteq> 0 then set_prev (m_first s) node s else s\<lparr>m_last := node\<rparr>)
      in Inr (s\<lparr>m_first := node, m_count := m_count s + 1\<rparr>))"

definition push_back :: "addr \<Rightarrow> dlist \<Rightarrow> fault + dlist" where
  "push_back node s =
     (if node = 0 then Inl NullDeref
      else let
        s = set_prev node (m_last s) s;
        s = set_next node 0 s;
        s = (if m_last s \<noteq> 0 then set_next (m_last s) node s else s\<lparr>m_first := node\<rparr>)
      in Inr (s\<lparr>m_last := node, m_count := m_count s + 1\<rparr>))"

definition pop_front :: "dlist \<Rightarrow> addr \<times> dlist" where
  "pop_front s =
     (if m_first s = 0 then (0, s)
      else let
        rval = m_first s;
        s = s\<lparr>m_first := NodeNext s rval\<rparr>;
        s = (if m_first s = 0 then s\<lparr>m_last := 0\<rparr> else set_prev (m_first s) 0 s);
        s = s\<lparr>m_count := m_count s - 1\<rparr>
      in (rval, set_next rval 0 s))"

definition pop_back :: "dlist \<Rightarrow> addr \<times> dlist" where
  "pop_back s =
     (if m_last s = 0 then (0, s)
      else let
        rval = m_last s;
        s = s\<lparr>m_last := NodePrev s rval\<rparr>;
        s = (if m_last s = 0 then s\<lparr>m_first := 0\<rparr> else set_next (m_last s) 0 s);
        s = s\<lparr>m_count := m_count s - 1\<rparr>
      in (rval, set_prev rval 0 s))"

definition remove_node :: "addr \<Rightarrow> dlist \<Rightarrow> fault + dlist" where
  "remove_node node s =
     (if node = 0 then Inl NullDeref
      else let
        s = (if NodePrev s node \<noteq> 0 then set_next (NodePrev s node) (NodeNext s node) s
             else s\<lparr>m_first := NodeNext s node\<rparr>);
        s = (if NodeNext s node \<noteq> 0 then set_prev (NodeNext s node) (NodePrev s node) s
             else s\<lparr>m_last := NodePrev s node\<rparr>);
        s = set_next node 0 s;
        s = set_prev node 0 s
      in Inr (s\<lparr>m_count := m_count s - 1\<rparr>))"

subsection \<open>Iterators\<close>

record iter =
  onePast :: bool
  it_current :: addr
  it_prev :: addr
  it_next :: addr

definition iter_make :: "dlist \<Rightarrow> addr \<Rightarrow> bool \<Rightarrow> iter" where
  "iter_make s ptr past = \<lparr>onePast = (ptr = 0 \<or> past), it_current = ptr,
     it_prev = (if ptr \<noteq> 0 then NodePrev s ptr else 0),
     it_next = (if ptr \<noteq> 0 then NodeNext s ptr else 0)\<rparr>"

definition iter_eq :: "iter \<Rightarrow> iter \<Rightarrow> bool" where
  "iter_eq a b \<longleftrightarrow> it_current a = it_current b \<and> onePast a = onePast b"

definition iter_inc :: "dlist \<Rightarrow> iter \<Rightarrow> iter" where
  "iter_inc s it =
     (if onePast it then it\<lparr>onePast := False\<rparr>
      else if it_next it \<noteq> 0 then
        let it = it\<lparr>it_prev := it_current it\<rparr>;
            it = it\<lparr>it_current := it_next it\<rparr>
        in it\<lparr>it_next := NodeNext s (it_current it)\<rparr>
      else it\<lparr>onePast := True\<rparr>)"

definition iter_dec :: "dlist \<Rightarrow> iter \<Rightarrow> iter" where
  "iter_dec s it =
     (if onePast it then it\<lparr>onePast := False\<rparr>
      else if it_prev it \<noteq> 0 then
        let it = it\<lparr>it_next := it_current it\<rparr>;
            it = it\<lparr>it_current := it_prev it\<rparr>
        in it\<lparr>it_prev := NodePrev s (it_current it)\<rparr>
      else it\<lparr>onePast := True\<rparr>)"

definition iter_begin :: "dlist \<Rightarrow> iter" where "iter_begin s = iter_make s (m_first s) False"

definition iter_end :: "dlist \<Rightarrow> iter" where "iter_end s = iter_make s (m_last s) True"

subsection \<open>The list a header represents\<close>

fun hd_or :: "'a list \<Rightarrow> 'a \<Rightarrow> 'a" where
  "hd_or [] e = e"
| "hd_or (x # xs) e = x"

fun last_or :: "'a list \<Rightarrow> 'a \<Rightarrow> 'a" where
  "last_or [] p = p"
| "last_or (x # xs) p = last_or xs x"

fun linked :: "(addr \<Rightarrow> addr) \<Rightarrow> (addr \<Rightarrow> addr) \<Rightarrow> addr \<Rightarrow> addr list \<Rightarrow> addr \<Rightarrow> bool" where
  "linked pr nx p [] e = True"
| "linked pr nx p (x # xs) e = (pr x = p \<and> nx x = hd_or xs e \<and> linked pr nx x xs e)"

definition dl_repr :: "dlist \<Rightarrow> addr list \<Rightarrow> bool" where
  "dl_repr s xs \<longleftrightarrow> distinct xs \<and> 0 \<notin> set xs \<and> m_first s = hd_or xs 0 \<and> m_last s = last_or xs 0
     \<and> m_count s = of_nat (length xs) \<and> linked (NodePrev s) (NodeNext s) 0 xs 0"

lemma hd_or_append [simp]: "hd_or (xs @ ys) e = hd_or xs (hd_or ys e)"
  by (cases xs) auto

lemma last_or_append [simp]: "last_or (xs @ ys) p = last_or ys (last_or xs p)"
  by (induction xs arbitrary: p) auto

lemma last_or_in: "xs \<noteq> [] \<Longrightarrow> last_or xs p \<in> set xs"
  by (induction xs arbitrary: p) (auto split: if_splits, metis last_or.simps(1))

lemma hd_or_in: "xs \<noteq> [] \<Longrightarrow> hd_or xs e \<in> set xs"
  by (cases xs) auto

lemma hd_or_0 [simp]: "0 \<notin> set xs \<Longrightarrow> hd_or xs 0 = 0 \<longleftrightarrow> xs = []"
  by (cases xs) auto

lemma last_or_0 [simp]: "0 \<notin> set xs \<Longrightarrow> last_or xs 0 = 0 \<longleftrightarrow> xs = []"
  using last_or_in [of xs 0] by (cases xs) auto

lemma linked_append [simp]:
  "linked pr nx p (xs @ ys) e \<longleftrightarrow> linked pr nx p xs (hd_or ys e) \<and> linked pr nx (last_or xs p) ys e"
  by (induction xs arbitrary: p) auto

lemma linked_frame:
  "(\<And>x. x \<in> set xs \<Longrightarrow> pr' x = pr x \<and> nx' x = nx x) \<Longrightarrow> linked pr' nx' p xs e = linked pr nx p xs e"
  by (induction xs arbitrary: p) auto

lemma linked_pr_upd [simp]: "n \<notin> set xs \<Longrightarrow> linked (pr(n := v)) nx p xs e = linked pr nx p xs e"
  by (rule linked_frame) auto

lemma linked_nx_upd [simp]: "n \<notin> set xs \<Longrightarrow> linked pr (nx(n := v)) p xs e = linked pr nx p xs e"
  by (rule linked_frame) auto

text \<open>Redirecting the outer pointers of a segment.\<close>

lemma linked_set_first:
  "linked pr nx p xs e \<Longrightarrow> distinct xs \<Longrightarrow> xs \<noteq> [] \<Longrightarrow> linked (pr(hd_or xs e' := q)) nx q xs e"
  by (cases xs) auto

lemma linked_set_last:
  "linked pr nx p xs e \<Longrightarrow> distinct xs \<Longrightarrow> xs \<noteq> [] \<Longrightarrow> linked pr (nx(last_or xs p' := e')) p xs e'"
proof (induction xs arbitrary: p p')
  case (Cons x xs)
  show ?case
  proof (cases "xs = []")
    case False
    then have "last_or xs x \<noteq> x" using last_or_in [of xs x] Cons.prems(2) by auto
    with False Cons show ?thesis by (cases xs) auto
  qed (use Cons in auto)
qed simp

lemmas dl_store = set_prev_def set_next_def Let_def

lemma dl_init_repr: "dl_repr (dl_init s) []"
  by (simp add: dl_repr_def dl_init_def)

lemma push_front_repr:
  assumes "dl_repr s xs" "n \<noteq> 0" "n \<notin> set xs"
  shows "\<exists>s'. push_front n s = Inr s' \<and> dl_repr s' (n # xs)"
proof (cases "xs = []")
  case True
  with assms show ?thesis by (auto simp: push_front_def dl_store dl_repr_def)
next
  case False
  let ?pr = "(NodePrev s)(n := 0)" and ?nx = "(NodeNext s)(n := hd_or xs 0)"
  from False have h: "hd_or xs 0 \<in> set xs" by (rule hd_or_in)
  have "linked ?pr ?nx 0 xs 0" using assms by (simp add: dl_repr_def)
  then have "linked (?pr(hd_or xs 0 := n)) ?nx n xs 0"
    using assms(1) False by (intro linked_set_first) (auto simp: dl_repr_def)
  moreover have "last_or xs n = last_or xs 0" using False by (cases xs) auto
  ultimately show ?thesis
    using assms False h by (auto simp: push_front_def dl_store dl_repr_def)
qed

lemma push_back_repr:
  assumes "dl_repr s xs" "n \<noteq> 0" "n \<notin> set xs"
  shows "\<exists>s'. push_back n s = Inr s' \<and> dl_repr s' (xs @ [n])"
proof (cases "xs = []")
  case True
  with assms show ?thesis by (auto simp: push_back_def dl_store dl_repr_def)
next
  case False
  let ?pr = "(NodePrev s)(n := last_or xs 0)" and ?nx = "(NodeNext s)(n := 0)"
  from False have h: "last_or xs 0 \<in> set xs" by (rule last_or_in)
  have "linked ?pr ?nx 0 xs 0" using assms by (simp add: dl_repr_def)
  then have "linked ?pr (?nx(last_or xs 0 := n)) 0 xs n"
    using assms(1) False by (intro linked_set_last) (auto simp: dl_repr_def)
  moreover have "hd_or xs n = hd_or xs 0" using False by (cases xs) auto
  ultimately show ?thesis
    using assms False h by (auto simp: push_back_def dl_store dl_repr_def)
qed

lemma pop_front_empty: "dl_repr s [] \<Longrightarrow> pop_front s = (0, s)"
  by (simp add: dl_repr_def pop_front_def)

lemma pop_back_empty: "dl_repr s [] \<Longrightarrow> pop_back s = (0, s)"
  by (simp add: dl_repr_def pop_back_def)

lemma pop_front_repr:
  assumes "dl_repr s (x # xs)"
  shows "\<exists>s'. pop_front s = (x, s') \<and> dl_repr s' xs \<and> NodeNext s' x = 0 \<and> NodePrev s' x = 0"
proof (cases "xs = []")
  case True
  with assms show ?thesis by (auto simp: pop_front_def dl_store dl_repr_def)
next
  case False
  let ?h = "hd_or xs 0"
  from False have h: "?h \<in> set xs" by (rule hd_or_in)
  have "linked (NodePrev s) (NodeNext s) x xs 0" using assms by (simp add: dl_repr_def)
  then have "linked ((NodePrev s)(?h := 0)) (NodeNext s) 0 xs 0"
    using assms False by (intro linked_set_first) (auto simp: dl_repr_def)
  moreover have "last_or xs x = last_or xs 0" using False by (cases xs) auto
  ultimately show ?thesis
    using assms False h by (auto simp: pop_front_def dl_store dl_repr_def)
qed

lemma pop_back_repr:
  assumes "dl_repr s (xs @ [x])"
  shows "\<exists>s'. pop_back s = (x, s') \<and> dl_repr s' xs \<and> NodeNext s' x = 0 \<and> NodePrev s' x = 0"
proof (cases "xs = []")
  case True
  with assms show ?thesis by (auto simp: pop_back_def dl_store dl_repr_def)
next
  case False
  let ?h = "last_or xs 0"
  from False have h: "?h \<in> set xs" by (rule last_or_in)
  have "linked (NodePrev s) (NodeNext s) 0 xs x" using assms by (simp add: dl_repr_def)
  then have "linked (NodePrev s) ((NodeNext s)(?h := 0)) 0 xs 0"
    using assms False by (intro linked_set_last) (auto simp: dl_repr_def)
  moreover have "hd_or xs x = hd_or xs 0" using False by (cases xs) auto
  ultimately show ?thesis
    using assms False h by (auto simp: pop_back_def dl_store dl_repr_def)
qed

lemma remove_node_repr:
  assumes "dl_repr s (xs @ n # ys)"
  shows "\<exists>s'. remove_node n s = Inr s' \<and> dl_repr s' (xs @ ys) \<and> NodeNext s' n = 0 \<and> NodePrev s' n = 0"
proof -
  let ?p = "last_or xs 0" and ?q = "hd_or ys 0"
  have s: "NodePrev s n = ?p" "NodeNext s n = ?q" "n \<noteq> 0" "n \<notin> set xs" "n \<notin> set ys"
    "linked (NodePrev s) (NodeNext s) 0 xs n" "linked (NodePrev s) (NodeNext s) n ys 0"
    "distinct xs" "distinct ys" "set xs \<inter> set ys = {}" "0 \<notin> set xs" "0 \<notin> set ys"
    using assms by (auto simp: dl_repr_def)
  have p: "xs \<noteq> [] \<Longrightarrow> ?p \<in> set xs \<and> ?p \<notin> set ys \<and> ?p \<noteq> n"
    using last_or_in [of xs 0] s by auto
  have q: "ys \<noteq> [] \<Longrightarrow> ?q \<in> set ys \<and> ?q \<notin> set xs \<and> ?q \<noteq> n"
    using hd_or_in [of ys 0] s by auto
  have lx: "xs \<noteq> [] \<Longrightarrow> linked (NodePrev s) ((NodeNext s)(?p := ?q)) 0 xs ?q"
    using s by (intro linked_set_last) auto
  have ly: "ys \<noteq> [] \<Longrightarrow> linked ((NodePrev s)(?q := ?p)) (NodeNext s) ?p ys 0"
    using s by (intro linked_set_first) auto
  have f: "xs \<noteq> [] \<Longrightarrow> hd_or xs n = hd_or xs ?q" by (cases xs) auto
  have l: "ys \<noteq> [] \<Longrightarrow> last_or ys n = last_or ys ?p" by (cases ys) auto
  have c: "m_first s = hd_or xs n" "m_last s = last_or ys n" "m_count s = of_nat (length xs) + (1 + of_nat (length ys))"
    using assms by (auto simp: dl_repr_def)
  define pr where "pr = (if ys = [] then NodePrev s else (NodePrev s)(?q := ?p))(n := 0)"
  define nx where "nx = (if xs = [] then NodeNext s else (NodeNext s)(?p := ?q))(n := 0)"
  define s' where "s' = s\<lparr>NodePrev := pr, NodeNext := nx,
    m_first := (if xs = [] then ?q else m_first s), m_last := (if ys = [] then ?p else m_last s),
    m_count := m_count s - 1\<rparr>"
  have pz: "?p = 0 \<longleftrightarrow> xs = []" "?q = 0 \<longleftrightarrow> ys = []" using s(11,12) by simp_all
  have np: "ys \<noteq> [] \<Longrightarrow> ?q \<noteq> n" "xs \<noteq> [] \<Longrightarrow> ?p \<noteq> n" using p q by blast+
  have r: "remove_node n s = Inr s'"
    unfolding remove_node_def dl_store s'_def pr_def nx_def using s(1-3) pz np
    by (cases "xs = []"; cases "ys = []") simp_all
  have "linked pr nx 0 xs ?q"
  proof (cases "xs = []")
    case False
    then have "linked (NodePrev s) ((NodeNext s)(?p := ?q)) 0 xs ?q" by (rule lx)
    then show ?thesis using False s(4) q by (cases "ys = []") (simp_all add: pr_def nx_def)
  qed simp
  moreover have "linked pr nx ?p ys 0"
  proof (cases "ys = []")
    case False
    then have "linked ((NodePrev s)(?q := ?p)) (NodeNext s) ?p ys 0" by (rule ly)
    then show ?thesis using False s(5) p by (cases "xs = []") (simp_all add: pr_def nx_def)
  qed simp
  ultimately have "linked pr nx 0 (xs @ ys) 0" by simp
  moreover have "distinct (xs @ ys)" "0 \<notin> set (xs @ ys)" using s by simp_all
  moreover have "m_first s' = hd_or (xs @ ys) 0" "m_last s' = last_or (xs @ ys) 0"
    using c f l by (cases "xs = []"; cases "ys = []"; simp add: s'_def)+
  ultimately have "dl_repr s' (xs @ ys)"
    using c(3) by (simp add: dl_repr_def s'_def)
  with r show ?thesis by (simp add: s'_def pr_def nx_def)
qed

lemma contains_from_linked:
  "linked pr nx p xs 0 \<Longrightarrow> 0 \<notin> set xs \<Longrightarrow> n \<noteq> 0 \<Longrightarrow> contains_from nx n (hd_or xs 0) = Some (n \<in> set xs)"
proof (induction xs arbitrary: p)
  case Nil
  then show ?case by (subst contains_from.simps) simp
next
  case (Cons x xs)
  then show ?case by (subst contains_from.simps) auto
qed

lemma dl_contains_repr: "dl_repr s xs \<Longrightarrow> n \<noteq> 0 \<Longrightarrow> dl_contains n s = Some (n \<in> set xs)"
  unfolding dl_contains_def dl_repr_def using contains_from_linked by auto

lemma linked_prev_in:
  "linked pr nx p xs e \<Longrightarrow> i < length xs \<Longrightarrow>
     nx (xs ! i) = hd_or (drop (Suc i) xs) e \<and> pr (xs ! i) = last_or (take i xs) p"
proof (induction xs arbitrary: p i)
  case (Cons x xs)
  then show ?case by (cases i) (auto simp: drop_Suc)
qed simp

subsection \<open>What the operations leave alone\<close>

definition links_frame :: "addr set \<Rightarrow> dlist \<Rightarrow> dlist \<Rightarrow> bool" where
  "links_frame A s s' \<longleftrightarrow> (\<forall>y. y \<notin> A \<longrightarrow> NodePrev s' y = NodePrev s y \<and> NodeNext s' y = NodeNext s y)"

lemma repr_ends: "dl_repr s xs \<Longrightarrow> m_first s \<noteq> 0 \<Longrightarrow> m_first s \<in> set xs"
  "dl_repr s xs \<Longrightarrow> m_last s \<noteq> 0 \<Longrightarrow> m_last s \<in> set xs"
  using hd_or_in [of xs 0] last_or_in [of xs 0] by (cases "xs = []"; simp add: dl_repr_def)+

lemma repr_neighbours:
  assumes "dl_repr s xs" "n \<in> set xs"
  shows "NodeNext s n \<noteq> 0 \<Longrightarrow> NodeNext s n \<in> set xs" "NodePrev s n \<noteq> 0 \<Longrightarrow> NodePrev s n \<in> set xs"
proof -
  obtain as bs where xs: "xs = as @ n # bs" using assms(2) by (auto dest: split_list)
  have l: "NodeNext s n = hd_or bs 0" "NodePrev s n = last_or as 0"
    using assms(1) by (auto simp: xs dl_repr_def)
  show "NodeNext s n \<noteq> 0 \<Longrightarrow> NodeNext s n \<in> set xs"
    using l(1) hd_or_in [of bs 0] xs by (cases "bs = []") auto
  show "NodePrev s n \<noteq> 0 \<Longrightarrow> NodePrev s n \<in> set xs"
    using l(2) last_or_in [of as 0] xs by (cases "as = []") auto
qed

lemma push_front_frame:
  "dl_repr s xs \<Longrightarrow> push_front n s = Inr s' \<Longrightarrow> links_frame (insert n (set xs)) s s'"
  using repr_ends(1) [of s xs]
  by (auto simp: push_front_def dl_store links_frame_def split: if_splits)

lemma push_back_frame:
  "dl_repr s xs \<Longrightarrow> push_back n s = Inr s' \<Longrightarrow> links_frame (insert n (set xs)) s s'"
  using repr_ends(2) [of s xs]
  by (auto simp: push_back_def dl_store links_frame_def split: if_splits)

lemma pop_front_frame: "dl_repr s xs \<Longrightarrow> pop_front s = (n, s') \<Longrightarrow> links_frame (set xs) s s'"
  using repr_ends(1) [of s xs] repr_neighbours(1) [of s xs "m_first s"]
  by (auto simp: pop_front_def dl_store links_frame_def split: if_splits)

lemma pop_back_frame: "dl_repr s xs \<Longrightarrow> pop_back s = (n, s') \<Longrightarrow> links_frame (set xs) s s'"
  using repr_ends(2) [of s xs] repr_neighbours(2) [of s xs "m_last s"]
  by (auto simp: pop_back_def dl_store links_frame_def split: if_splits)

lemma remove_frame:
  "dl_repr s xs \<Longrightarrow> n \<in> set xs \<Longrightarrow> remove_node n s = Inr s' \<Longrightarrow> links_frame (set xs) s s'"
  using repr_neighbours [of s xs n]
  by (auto simp: remove_node_def dl_store links_frame_def split: if_splits)

subsection \<open>Traversal\<close>

definition iter_at :: "dlist \<Rightarrow> addr list \<Rightarrow> nat \<Rightarrow> iter" where
  "iter_at s xs i = \<lparr>onePast = False, it_current = xs ! i,
     it_prev = last_or (take i xs) 0, it_next = hd_or (drop (Suc i) xs) 0\<rparr>"

lemma last_or_take: "0 < i \<Longrightarrow> i \<le> length xs \<Longrightarrow> last_or (take i xs) p = xs ! (i - 1)"
  by (cases i) (auto simp: take_Suc_conv_app_nth)

lemma iter_begin_at: "dl_repr s xs \<Longrightarrow> xs \<noteq> [] \<Longrightarrow> iter_begin s = iter_at s xs 0"
  by (cases xs) (auto simp: iter_begin_def iter_make_def iter_at_def dl_repr_def)

lemma iter_inc_at:
  assumes "dl_repr s xs" "Suc i < length xs"
  shows "iter_inc s (iter_at s xs i) = iter_at s xs (Suc i)"
proof -
  have d: "drop (Suc i) xs = xs ! Suc i # drop (Suc (Suc i)) xs"
    using assms(2) by (simp add: Cons_nth_drop_Suc)
  have "xs ! Suc i \<noteq> 0" using assms by (metis dl_repr_def nth_mem)
  moreover have "NodeNext s (xs ! Suc i) = hd_or (drop (Suc (Suc i)) xs) 0"
    using assms linked_prev_in by (auto simp: dl_repr_def)
  ultimately show ?thesis
    using assms(2) by (simp add: iter_inc_def iter_at_def d Let_def last_or_take)
qed

lemma iter_inc_last:
  assumes "dl_repr s xs" "Suc i = length xs"
  shows "iter_eq (iter_inc s (iter_at s xs i)) (iter_end s)"
proof -
  have i: "length xs - 1 = i" "i < length xs" "0 < length xs" using assms(2) by linarith+
  then have "last_or xs 0 = xs ! i" using last_or_take [of "length xs" xs 0] by simp
  then have "m_last s = xs ! i" using assms(1) by (simp add: dl_repr_def)
  moreover have "xs ! i \<noteq> 0" using assms(1) nth_mem [OF i(2)] by (metis dl_repr_def)
  ultimately show ?thesis
    using assms by (simp add: iter_inc_def iter_at_def iter_eq_def iter_end_def iter_make_def)
qed

lemma iter_steps:
  "dl_repr s xs \<Longrightarrow> i < length xs \<Longrightarrow> (iter_inc s ^^ i) (iter_begin s) = iter_at s xs i"
  by (induction i) (auto simp: iter_inc_at iter_begin_at)

subsection \<open>The deque interface\<close>

text \<open>Running an insertion over a sequence, and a removal a number of times.\<close>

fun run_pushes :: "('a \<Rightarrow> 's \<Rightarrow> fault + 's) \<Rightarrow> 'a list \<Rightarrow> 's \<Rightarrow> fault + 's" where
  "run_pushes push [] s = Inr s"
| "run_pushes push (n # ns) s = bindf (push n s) (run_pushes push ns)"

fun run_pops :: "('s \<Rightarrow> 'a \<times> 's) \<Rightarrow> nat \<Rightarrow> 's \<Rightarrow> 'a list \<times> 's" where
  "run_pops pop 0 s = ([], s)"
| "run_pops pop (Suc k) s = (let (x, s) = pop s; (xs, s) = run_pops pop k s in (x # xs, s))"

text \<open>
  What a client of the list needs: a representation relation between a state and the
  sequence of its elements, and the effect of each operation on that sequence.
\<close>

locale deque =
  fixes repr :: "'s \<Rightarrow> 'a list \<Rightarrow> bool"
    and nil :: "'a"
    and pushf :: "'a \<Rightarrow> 's \<Rightarrow> fault + 's"
    and pushb :: "'a \<Rightarrow> 's \<Rightarrow> fault + 's"
    and popf :: "'s \<Rightarrow> 'a \<times> 's"
    and popb :: "'s \<Rightarrow> 'a \<times> 's"
    and del :: "'a \<Rightarrow> 's \<Rightarrow> fault + 's"
  assumes pushf: "repr s xs \<Longrightarrow> n \<noteq> nil \<Longrightarrow> n \<notin> set xs \<Longrightarrow> \<exists>s'. pushf n s = Inr s' \<and> repr s' (n # xs)"
    and pushb: "repr s xs \<Longrightarrow> n \<noteq> nil \<Longrightarrow> n \<notin> set xs \<Longrightarrow> \<exists>s'. pushb n s = Inr s' \<and> repr s' (xs @ [n])"
    and popf: "repr s (x # xs) \<Longrightarrow> \<exists>s'. popf s = (x, s') \<and> repr s' xs"
    and popb: "repr s (xs @ [x]) \<Longrightarrow> \<exists>s'. popb s = (x, s') \<and> repr s' xs"
    and popf_nil: "repr s [] \<Longrightarrow> popf s = (nil, s)"
    and popb_nil: "repr s [] \<Longrightarrow> popb s = (nil, s)"
    and del: "repr s (xs @ n # ys) \<Longrightarrow> \<exists>s'. del n s = Inr s' \<and> repr s' (xs @ ys)"
begin

lemma pushb_all_repr:
  "repr s xs \<Longrightarrow> distinct ns \<Longrightarrow> set ns \<inter> set xs = {} \<Longrightarrow> nil \<notin> set ns \<Longrightarrow>
   \<exists>s'. run_pushes pushb ns s = Inr s' \<and> repr s' (xs @ ns)"
proof (induction ns arbitrary: s xs)
  case (Cons n ns)
  then obtain s1 where "pushb n s = Inr s1" "repr s1 (xs @ [n])" using pushb [of s xs n] by auto
  with Cons show ?case by fastforce
qed simp

lemma pushf_all_repr:
  "repr s xs \<Longrightarrow> distinct ns \<Longrightarrow> set ns \<inter> set xs = {} \<Longrightarrow> nil \<notin> set ns \<Longrightarrow>
   \<exists>s'. run_pushes pushf ns s = Inr s' \<and> repr s' (rev ns @ xs)"
proof (induction ns arbitrary: s xs)
  case (Cons n ns)
  then obtain s1 where "pushf n s = Inr s1" "repr s1 (n # xs)" using pushf [of s xs n] by auto
  with Cons show ?case by fastforce
qed simp

lemma popf_n_repr: "repr s (xs @ ys) \<Longrightarrow> \<exists>s'. run_pops popf (length xs) s = (xs, s') \<and> repr s' ys"
proof (induction xs arbitrary: s)
  case (Cons x xs)
  then obtain s1 where s1: "popf s = (x, s1)" "repr s1 (xs @ ys)" using popf [of s x "xs @ ys"] by auto
  with Cons.IH [OF s1(2)] show ?case by auto
qed simp

text \<open>First in, first out; and last in, first out from the other end.\<close>

lemma fifo:
  "repr s [] \<Longrightarrow> distinct ns \<Longrightarrow> nil \<notin> set ns \<Longrightarrow>
   \<exists>s' s''. run_pushes pushb ns s = Inr s' \<and> run_pops popf (length ns) s' = (ns, s'') \<and> repr s'' []"
  using pushb_all_repr [of s "[]" ns] popf_n_repr [of _ ns "[]"] by fastforce

lemma lifo:
  "repr s [] \<Longrightarrow> distinct ns \<Longrightarrow> nil \<notin> set ns \<Longrightarrow>
   \<exists>s' s''. run_pushes pushf ns s = Inr s' \<and> run_pops popf (length ns) s' = (rev ns, s'') \<and> repr s'' []"
  using pushf_all_repr [of s "[]" ns] popf_n_repr [of _ "rev ns" "[]"] by fastforce

end

interpretation dl: deque dl_repr 0 push_front push_back pop_front pop_back remove_node
proof (unfold_locales, goal_cases)
  case (3 s x xs)
  then show ?case using pop_front_repr by blast
next
  case (4 s xs x)
  then show ?case using pop_back_repr by blast
next
  case (7 s xs n ys)
  then show ?case using remove_node_repr by blast
qed (simp_all add: push_front_repr push_back_repr pop_front_empty pop_back_empty)

subsection \<open>Properties\<close>

text \<open>
  C19: removing a node from anywhere in a well-linked list returns the list without it, in
  the same order and with the count lowered, and clears both pointers of the node.
\<close>

theorem remove_refines:
  assumes "dl_repr s (xs @ n # ys)"
  shows "\<exists>s'. remove_node n s = Inr s' \<and> dl_repr s' (xs @ ys) \<and> NodeNext s' n = 0
    \<and> NodePrev s' n = 0 \<and> dl_contains n s' = Some False"
proof -
  have n: "n \<noteq> 0" "n \<notin> set (xs @ ys)" using assms by (auto simp: dl_repr_def)
  show ?thesis
    using remove_node_repr [OF assms] dl_contains_repr [OF _ n(1)] n(2) by fastforce
qed

text \<open>
  Nodes pushed to the back of an empty list and popped from its front come back in the
  order they were pushed, without a fault, and leave the list empty.
\<close>

theorem list_fifo:
  assumes "distinct ns" "0 \<notin> set ns"
  shows "\<exists>s' s''. run_pushes push_back ns (dl_init s) = Inr s' \<and> dl_count s' = of_nat (length ns)
     \<and> run_pops pop_front (length ns) s' = (ns, s'') \<and> dl_empty s''"
proof -
  obtain s' where s': "run_pushes push_back ns (dl_init s) = Inr s'" "dl_repr s' ns"
    using dl.pushb_all_repr [OF dl_init_repr assms(1) _ assms(2)] by auto
  then show ?thesis
    using dl.popf_n_repr [of s' ns "[]"] by (auto simp: dl_repr_def dl_count_def dl_empty_def)
qed

text \<open>
  An iterator taken at begin() visits the nodes of the list one by one in order and
  equals end() after exactly as many increments as there are nodes.
\<close>

theorem iterator_visits_all:
  assumes "dl_repr s xs"
  shows "(\<forall>i<length xs. it_current ((iter_inc s ^^ i) (iter_begin s)) = xs ! i
          \<and> \<not> iter_eq ((iter_inc s ^^ i) (iter_begin s)) (iter_end s))
     \<and> iter_eq ((iter_inc s ^^ length xs) (iter_begin s)) (iter_end s)"
proof (intro conjI allI impI)
  fix i assume "i < length xs"
  then show "it_current ((iter_inc s ^^ i) (iter_begin s)) = xs ! i"
    and "\<not> iter_eq ((iter_inc s ^^ i) (iter_begin s)) (iter_end s)"
    using assms by (auto simp: iter_steps iter_at_def iter_eq_def iter_end_def iter_make_def)
next
  show "iter_eq ((iter_inc s ^^ length xs) (iter_begin s)) (iter_end s)"
  proof (cases "xs = []")
    case True
    with assms show ?thesis
      by (simp add: iter_eq_def iter_begin_def iter_end_def iter_make_def dl_repr_def)
  next
    case False
    then obtain i where "length xs = Suc i" by (cases xs) auto
    then show ?thesis using iter_inc_last [OF assms, of i] iter_steps [OF assms, of i] by simp
  qed
qed

text \<open>Three nodes linked in order, as the witnesses use them.\<close>

definition sample_list :: dlist where
  "sample_list = \<lparr>NodePrev = (\<lambda>_. 0)(32 := 16, 48 := 32), NodeNext = (\<lambda>_. 0)(16 := 32, 32 := 48),
     m_first = 16, m_last = 48, m_count = 3\<rparr>"

lemma sample_list_repr: "dl_repr sample_list [16, 32, 48]"
  by (simp add: dl_repr_def sample_list_def)

theorem remove_refines_witness:
  "\<exists>s'. remove_node 32 sample_list = Inr s' \<and> dl_repr s' [16, 48]"
  using remove_refines [of sample_list "[16]" 32 "[48]"] sample_list_repr by auto

theorem list_fifo_witness:
  "\<exists>s' s''. run_pushes push_back [16, 32] (dl_init sample_list) = Inr s'
     \<and> run_pops pop_front 2 s' = ([16, 32], s'')"
proof -
  have "distinct [16, 32 :: addr]" "0 \<notin> set [16, 32 :: addr]" "length [16, 32 :: addr] = 2"
    by simp_all
  then show ?thesis using list_fifo [of "[16, 32]" sample_list] by metis
qed

theorem iterator_visits_all_witness:
  "it_current ((iter_inc sample_list ^^ 2) (iter_begin sample_list)) = 48"
  using iterator_visits_all [OF sample_list_repr] by (auto simp: numeral_2_eq_2)

end
