(* ===== verification/Slab.thy ===== *)
theory Slab
  imports Bitmap SizeHash IntrusiveList PageAlloc
begin

text \<open>
  kernel/kalloc/small_slab.h and .cpp: the header at the start of a page of equally sized
  items. The pointer fields Prev and Next of the header belong to the lists of the buckets
  and are kept with them; the other fields are the record below. MALLOC_CHECK_LEVEL is not
  defined by the build, so the checking code is compiled out.
\<close>

subsection \<open>The slab header\<close>

record slab =
  sl_bucket :: u8
  sl_itemSize :: u16
  sl_freeCount :: u16
  sl_checksum :: u8
  sl_bits :: bitmap

definition slab_new :: slab where
  "slab_new = \<lparr>sl_bucket = 0xFF, sl_itemSize = 0, sl_freeCount = 0, sl_checksum = 0,
     sl_bits = bitmap_new 256\<rparr>"

definition slab_reset :: "slab \<Rightarrow> slab" where
  "slab_reset s = s\<lparr>sl_bucket := 0xFF, sl_itemSize := 0, sl_freeCount := 0, sl_checksum := 0\<rparr>"

definition slab_setup :: "u8 \<Rightarrow> u16 \<Rightarrow> u16 \<Rightarrow> slab \<Rightarrow> slab" where
  "slab_setup bucket itemSize freeCount s =
     s\<lparr>sl_bucket := bucket, sl_itemSize := itemSize, sl_freeCount := freeCount\<rparr>"

definition getBucket :: "slab \<Rightarrow> u8" where "getBucket s = sl_bucket s"

definition getFreeCount :: "slab \<Rightarrow> size32" where "getFreeCount s = ucast (sl_freeCount s)"

definition FirstFree :: "slab \<Rightarrow> size32" where "FirstFree s = first_clear 256 (sl_bits s)"

definition IsMarked :: "nat \<Rightarrow> slab \<Rightarrow> bool" where "IsMarked idx s = test_bit 256 idx (sl_bits s)"

definition slab_clear :: "nat \<Rightarrow> slab \<Rightarrow> slab" where
  "slab_clear idx s = s\<lparr>sl_bits := clear_bit 256 idx (sl_bits s), sl_freeCount := sl_freeCount s + 1\<rparr>"

definition slab_mark :: "nat \<Rightarrow> slab \<Rightarrow> slab" where
  "slab_mark idx s = s\<lparr>sl_bits := set_bit 256 idx (sl_bits s), sl_freeCount := sl_freeCount s - 1\<rparr>"

definition ItemStart :: "addr \<Rightarrow> addr" where "ItemStart p = p + sizeof_slab"

text \<open>The page of a pointer, when its first byte looks like the bucket of a slab.\<close>

definition GetSlabFromPtr :: "(addr \<Rightarrow> slab) \<Rightarrow> addr \<Rightarrow> addr" where
  "GetSlabFromPtr mem ptr =
     (let slab = ptr AND PageMask
      in if ucast (sl_bucket (mem slab)) > MAX_BUCKET_INDEX then 0 else slab)"

subsection \<open>Counting the marks\<close>

definition marks :: "slab \<Rightarrow> nat set" where "marks s = bits_of 256 (sl_bits s)"

text \<open>
  A slab of n items: marks only below n, and a free count that is the number of the others.
\<close>

definition slab_ok :: "nat \<Rightarrow> slab \<Rightarrow> bool" where
  "slab_ok n s \<longleftrightarrow> bitmap_ok 256 (sl_bits s) \<and> n \<le> 256 \<and> marks s \<subseteq> {..<n}
     \<and> unat (sl_freeCount s) + card (marks s) = n"

lemma finite_marks [simp]: "finite (marks s)" by (simp add: marks_def)

lemma IsMarked_iff: "IsMarked i s \<longleftrightarrow> i \<in> marks s"
  by (simp add: IsMarked_def marks_def)

lemma slab_new_props [simp]: "marks slab_new = {}" "bitmap_ok 256 (sl_bits slab_new)"
  by (simp_all add: marks_def slab_new_def bitmap_new_props)

lemma slab_reset_props [simp]: "marks (slab_reset s) = marks s" "sl_bits (slab_reset s) = sl_bits s"
  by (simp_all add: marks_def slab_reset_def)

lemma slab_setup_props [simp]:
  "marks (slab_setup b i f s) = marks s" "sl_bits (slab_setup b i f s) = sl_bits s"
  "sl_freeCount (slab_setup b i f s) = f" "sl_bucket (slab_setup b i f s) = b"
  "sl_itemSize (slab_setup b i f s) = i"
  by (simp_all add: marks_def slab_setup_def)

lemma slab_frame [simp]:
  "sl_bucket (slab_mark i s) = sl_bucket s" "sl_itemSize (slab_mark i s) = sl_itemSize s"
  "sl_bucket (slab_clear i s) = sl_bucket s" "sl_itemSize (slab_clear i s) = sl_itemSize s"
  by (simp_all add: slab_mark_def slab_clear_def)

lemma getFreeCount_unat: "unat (getFreeCount s) = unat (sl_freeCount s)"
  by (simp add: getFreeCount_def unat_ucast_le)

lemma getFreeCount_zero: "slab_ok n s \<Longrightarrow> getFreeCount s = 0 \<longleftrightarrow> card (marks s) = n"
  unfolding unat_eq_zero [symmetric] getFreeCount_unat by (auto simp: slab_ok_def)

text \<open>While an item is free, the search finds one of the slab's own items.\<close>

lemma FirstFree_below:
  assumes "slab_ok n s" "card (marks s) < n"
  shows "unat (FirstFree s) < n" "unat (FirstFree s) \<notin> marks s"
proof -
  have ok: "bitmap_ok 256 (sl_bits s)" "n \<le> 256" using assms(1) by (auto simp: slab_ok_def)
  note f = bm256.find_below [OF ok, folded marks_def, OF assms(2)]
  show "unat (FirstFree s) < n" using f(2) by (simp add: FirstFree_def)
  show "unat (FirstFree s) \<notin> marks s"
    using bm256.find_some [OF ok(1) f(1)] by (simp add: FirstFree_def marks_def)
qed

lemma slab_mark_props:
  assumes "slab_ok n s" "i < n" "i \<notin> marks s"
  shows "slab_ok n (slab_mark i s)" "marks (slab_mark i s) = insert i (marks s)"
proof -
  have ok: "bitmap_ok 256 (sl_bits s)" "n \<le> 256" using assms(1) by (auto simp: slab_ok_def)
  show m: "marks (slab_mark i s) = insert i (marks s)"
    using bm256.mark_slots [OF ok(1), of i] assms(2) ok(2) by (auto simp: marks_def slab_mark_def)
  have c: "card (insert i (marks s)) = Suc (card (marks s))" using assms(3) by simp
  have "card (insert i (marks s)) \<le> n"
    using assms(1,2) card_mono [of "{..<n}" "insert i (marks s)"] by (simp add: slab_ok_def)
  with c assms(1) have "1 \<le> unat (sl_freeCount s)" by (simp add: slab_ok_def)
  then have "unat (sl_freeCount s - 1) = unat (sl_freeCount s) - 1" by (subst unat_sub_noov) simp_all
  then show "slab_ok n (slab_mark i s)"
    using assms ok bm256.mark_ok [OF ok(1)] c \<open>1 \<le> unat (sl_freeCount s)\<close>
    by (simp add: slab_ok_def m) (simp add: slab_mark_def)
qed

lemma slab_clear_props:
  assumes "slab_ok n s" "i \<in> marks s"
  shows "slab_ok n (slab_clear i s)" "marks (slab_clear i s) = marks s - {i}"
proof -
  have ok: "bitmap_ok 256 (sl_bits s)" "n \<le> 256" using assms(1) by (auto simp: slab_ok_def)
  show m: "marks (slab_clear i s) = marks s - {i}"
    using bm256.unmark_slots [OF ok(1), of i] by (simp add: marks_def slab_clear_def)
  have c: "Suc (card (marks s - {i})) = card (marks s)" using assms(2) by (rule card_Suc_Diff1 [OF finite_marks])
  have "unat (sl_freeCount s + 1) = unat (sl_freeCount s) + 1"
    using assms(1) ok(2) by (subst unat_add_noov) (auto simp: slab_ok_def)
  then show "slab_ok n (slab_clear i s)"
    using assms ok bm256.unmark_ok [OF ok(1)] c
    by (simp add: slab_ok_def m) (auto simp: slab_clear_def)
qed

end
