(* ===== verification/Bucket.thy ===== *)
theory Bucket
  imports Slab
begin

text \<open>
  kernel/kalloc/small_bucket.h and .cpp: a bucket keeps the slabs of one item size in three
  lists (partly used, full, empty) that share the pointer fields of the slab headers. An
  item is identified by its slab and its index in the slab.
\<close>

subsection \<open>State\<close>

record list_hdr =
  h_first :: addr
  h_last :: addr
  h_count :: size32

record bucket =
  bk_mutex :: u8
  bk_index :: u8
  bk_itemSize :: size32
  bk_itemsPerSlab :: size32
  bk_partial :: list_hdr
  bk_full :: list_hdr
  bk_empty :: list_hdr

text \<open>What the allocator shares: the headers at the start of slab pages, and the pages.\<close>

record slab_heap =
  slabs :: "addr \<Rightarrow> slab"
  slab_prev :: "addr \<Rightarrow> addr"
  slab_next :: "addr \<Rightarrow> addr"
  pages :: page_allocator
  allocatedPages :: size32

definition EMPTY_MAX :: size32 where "EMPTY_MAX = 4"

definition INVALID_ITEM_INDEX :: size32 where "INVALID_ITEM_INDEX = - 1"

definition empty_hdr :: list_hdr where "empty_hdr = \<lparr>h_first = 0, h_last = 0, h_count = 0\<rparr>"

definition bucket_new :: "u8 \<Rightarrow> bucket" where
  "bucket_new index = \<lparr>bk_mutex = lock_init, bk_index = index,
     bk_itemSize = ItemSizeFromIndex index, bk_itemsPerSlab = ItemCountFromIndex index,
     bk_partial = empty_hdr, bk_full = empty_hdr, bk_empty = empty_hdr\<rparr>"

definition bucket_is_empty :: "bucket \<Rightarrow> bool" where
  "bucket_is_empty b \<longleftrightarrow> h_count (bk_partial b) = 0 \<and> h_count (bk_full b) = 0"

subsection \<open>The lists of a bucket\<close>

definition load_list :: "slab_heap \<Rightarrow> list_hdr \<Rightarrow> dlist" where
  "load_list h l = \<lparr>NodePrev = slab_prev h, NodeNext = slab_next h,
     m_first = h_first l, m_last = h_last l, m_count = h_count l\<rparr>"

definition store_links :: "dlist \<Rightarrow> slab_heap \<Rightarrow> slab_heap" where
  "store_links d h = h\<lparr>slab_prev := NodePrev d, slab_next := NodeNext d\<rparr>"

definition store_hdr :: "dlist \<Rightarrow> list_hdr" where
  "store_hdr d = \<lparr>h_first = m_first d, h_last = m_last d, h_count = m_count d\<rparr>"

definition on_list :: "(dlist \<Rightarrow> fault + dlist) \<Rightarrow> list_hdr \<Rightarrow> slab_heap \<Rightarrow> (list_hdr \<times> slab_heap) outcome" where
  "on_list f l h = Some (bindf (f (load_list h l)) (\<lambda>d. Inr (store_hdr d, store_links d h)))"

definition pop_list :: "(dlist \<Rightarrow> addr \<times> dlist) \<Rightarrow> list_hdr \<Rightarrow> slab_heap \<Rightarrow> addr \<times> list_hdr \<times> slab_heap" where
  "pop_list f l h = (let (n, d) = f (load_list h l) in (n, store_hdr d, store_links d h))"

subsection \<open>Operations\<close>

text \<open>Constructing a slab on the null page the allocator returns when it is empty is a fault.\<close>

definition AllocatePageObj :: "slab_heap \<Rightarrow> (addr \<times> slab_heap) outcome" where
  "AllocatePageObj h =
     (case allocate_page (pages h) of
        None \<Rightarrow> None
      | Some (p, pa) \<Rightarrow>
          if p = 0 then Some (Inl NullDeref)
          else Some (Inr (p, h\<lparr>pages := pa, slabs := (slabs h)(p := slab_new),
                 slab_prev := (slab_prev h)(p := 0), slab_next := (slab_next h)(p := 0)\<rparr>)))"

definition GetAvailableSlab :: "bucket \<Rightarrow> slab_heap \<Rightarrow> (addr \<times> bucket \<times> slab_heap) outcome" where
  "GetAvailableSlab b h =
     (let slab = h_first (bk_partial b)
      in if slab \<noteq> 0 then Some (Inr (slab, b, h))
         else let (slab, l, h) = pop_list pop_front (bk_empty b) h; b = b\<lparr>bk_empty := l\<rparr>
         in bindo (if slab = 0
                   then bindo (AllocatePageObj h)
                     (\<lambda>(slab, h). Some (Inr (slab, h\<lparr>allocatedPages := allocatedPages h + 1\<rparr>)))
                   else Some (Inr (slab, h)))
            (\<lambda>(slab, h).
               let h = h\<lparr>slabs := (slabs h)(slab := slab_setup (bk_index b) (ucast (bk_itemSize b))
                         (ucast (bk_itemsPerSlab b)) (slabs h slab))\<rparr>
               in bindo (on_list (push_front slab) (bk_partial b) h)
                    (\<lambda>(l, h). Some (Inr (slab, b\<lparr>bk_partial := l\<rparr>, h)))))"

definition GetPointerIndex :: "bucket \<Rightarrow> addr \<Rightarrow> addr \<Rightarrow> size32" where
  "GetPointerIndex b slab ptr =
     (let a = ptr - ItemStart slab
      in if a mod bk_itemSize b \<noteq> 0 then INVALID_ITEM_INDEX
         else let result = a div bk_itemSize b
              in if result \<ge> bk_itemsPerSlab b then INVALID_ITEM_INDEX else result)"

text \<open>The operations proper, between taking and releasing the bucket's lock.\<close>

definition allocate_item :: "bucket \<Rightarrow> slab_heap \<Rightarrow> (addr \<times> bucket \<times> slab_heap) outcome" where
  "allocate_item b h =
     bindo (GetAvailableSlab b h) (\<lambda>(slab, b, h).
       if slab = 0 then Some (Inr (0, b, h))
       else let idx = FirstFree (slabs h slab);
                h = h\<lparr>slabs := (slabs h)(slab := slab_mark (unat idx) (slabs h slab))\<rparr>;
                a = ItemStart slab + idx * bk_itemSize b
            in if getFreeCount (slabs h slab) = 0
               then bindo (on_list (remove_node slab) (bk_partial b) h) (\<lambda>(lp, h).
                    bindo (on_list (push_front slab) (bk_full b) h) (\<lambda>(lf, h).
                      Some (Inr (a, b\<lparr>bk_partial := lp, bk_full := lf\<rparr>, h))))
               else Some (Inr (a, b, h)))"

definition return_item :: "addr \<Rightarrow> addr \<Rightarrow> bucket \<Rightarrow> slab_heap \<Rightarrow> (bucket \<times> slab_heap) outcome" where
  "return_item slab ptr b h =
     (let idx = GetPointerIndex b slab ptr
      in if idx = INVALID_ITEM_INDEX then Some (Inr (b, h))
         else if IsMarked (unat idx) (slabs h slab) then
           let lastCount = getFreeCount (slabs h slab);
               h = h\<lparr>slabs := (slabs h)(slab := slab_clear (unat idx) (slabs h slab))\<rparr>
           in if lastCount = 0 then
                bindo (on_list (remove_node slab) (bk_full b) h) (\<lambda>(lf, h).
                bindo (on_list (push_back slab) (bk_partial b) h) (\<lambda>(lp, h).
                  Some (Inr (b\<lparr>bk_full := lf, bk_partial := lp\<rparr>, h))))
              else if lastCount = bk_itemsPerSlab b - 1 then
                let h = h\<lparr>slabs := (slabs h)(slab := slab_reset (slabs h slab))\<rparr>
                in bindo (on_list (remove_node slab) (bk_partial b) h) (\<lambda>(lp, h).
                   bindo (on_list (push_back slab) (bk_empty b) h) (\<lambda>(le, h).
                     Some (Inr (b\<lparr>bk_partial := lp, bk_empty := le\<rparr>, h))))
              else Some (Inr (b, h))
         else Some (Inr (b, h)))"

partial_function (option) gc_loop :: "bucket \<Rightarrow> slab_heap \<Rightarrow> (bucket \<times> slab_heap) outcome" where
  "gc_loop b h =
     (if h_count (bk_empty b) > EMPTY_MAX then
        (case pop_list pop_back (bk_empty b) h of (slab, l, h) \<Rightarrow>
          (case release_page slab (pages h) of
             None \<Rightarrow> None
           | Some pa \<Rightarrow> gc_loop (b\<lparr>bk_empty := l\<rparr>) (h\<lparr>pages := pa, allocatedPages := allocatedPages h - 1\<rparr>)))
      else Some (Inr (b, h)))"

text \<open>The public operations hold the lock; releasing it leaves the rest of the bucket alone.\<close>

definition bucket_allocate :: "bucket \<Rightarrow> slab_heap \<Rightarrow> (addr \<times> bucket \<times> slab_heap) outcome" where
  "bucket_allocate b h =
     (case guarded (bk_mutex b) (\<lambda>l. allocate_item (b\<lparr>bk_mutex := l\<rparr>) h) of
        None \<Rightarrow> None
      | Some (r, l) \<Rightarrow> bindo r (\<lambda>(a, b, h). Some (Inr (a, b\<lparr>bk_mutex := l\<rparr>, h))))"

definition bucket_return :: "addr \<Rightarrow> addr \<Rightarrow> bucket \<Rightarrow> slab_heap \<Rightarrow> (bucket \<times> slab_heap) outcome" where
  "bucket_return slab ptr b h =
     (case guarded (bk_mutex b) (\<lambda>l. return_item slab ptr (b\<lparr>bk_mutex := l\<rparr>) h) of
        None \<Rightarrow> None
      | Some (r, l) \<Rightarrow> bindo r (\<lambda>(b, h). Some (Inr (b\<lparr>bk_mutex := l\<rparr>, h))))"

definition bucket_gc :: "bucket \<Rightarrow> slab_heap \<Rightarrow> (bucket \<times> slab_heap) outcome" where
  "bucket_gc b h =
     (case guarded (bk_mutex b) (\<lambda>l. gc_loop (b\<lparr>bk_mutex := l\<rparr>) h) of
        None \<Rightarrow> None
      | Some (r, l) \<Rightarrow> bindo r (\<lambda>(b, h). Some (Inr (b\<lparr>bk_mutex := l\<rparr>, h))))"

subsection \<open>Lists in the shared links\<close>

definition hrepr :: "slab_heap \<Rightarrow> list_hdr \<Rightarrow> addr list \<Rightarrow> bool" where
  "hrepr h l xs \<longleftrightarrow> dl_repr (load_list h l) xs"

text \<open>Everything but the links is the same, and the links are outside a set of nodes.\<close>

definition relinked :: "addr set \<Rightarrow> slab_heap \<Rightarrow> slab_heap \<Rightarrow> bool" where
  "relinked A h h' \<longleftrightarrow> slabs h' = slabs h \<and> pages h' = pages h \<and> allocatedPages h' = allocatedPages h
     \<and> (\<forall>y. y \<notin> A \<longrightarrow> slab_prev h' y = slab_prev h y \<and> slab_next h' y = slab_next h y)"

lemma load_store: "load_list (store_links d h) (store_hdr d) = d"
  by (simp add: load_list_def store_links_def store_hdr_def)

lemma relinked_store: "links_frame A (load_list h l) d \<Longrightarrow> relinked A h (store_links d h)"
  by (simp add: links_frame_def relinked_def store_links_def load_list_def)

lemma hrepr_frame: "relinked A h h' \<Longrightarrow> set ys \<inter> A = {} \<Longrightarrow> hrepr h l ys \<Longrightarrow> hrepr h' l ys"
proof -
  assume a: "relinked A h h'" "set ys \<inter> A = {}" "hrepr h l ys"
  have "linked (slab_prev h') (slab_next h') 0 ys 0 = linked (slab_prev h) (slab_next h) 0 ys 0"
    using a(1,2) by (intro linked_frame) (auto simp: relinked_def)
  with a(3) show ?thesis by (simp add: hrepr_def dl_repr_def load_list_def)
qed

lemma hrepr_empty: "hrepr h empty_hdr []"
  by (simp add: hrepr_def dl_repr_def load_list_def empty_hdr_def)

lemma hrepr_slabs [simp]:
  "hrepr (h\<lparr>slabs := s\<rparr>) l xs = hrepr h l xs" "hrepr (h\<lparr>pages := pa\<rparr>) l xs = hrepr h l xs"
  "hrepr (h\<lparr>allocatedPages := n\<rparr>) l xs = hrepr h l xs"
  by (simp_all add: hrepr_def load_list_def)

lemma hrepr_push_front:
  assumes "hrepr h l xs" "n \<noteq> 0" "n \<notin> set xs"
  shows "\<exists>l' h'. on_list (push_front n) l h = Some (Inr (l', h')) \<and> hrepr h' l' (n # xs)
     \<and> relinked (insert n (set xs)) h h'"
proof -
  have r: "dl_repr (load_list h l) xs" using assms(1) by (simp add: hrepr_def)
  obtain d where d: "push_front n (load_list h l) = Inr d" "dl_repr d (n # xs)"
    using push_front_repr [OF r assms(2,3)] by blast
  have "relinked (insert n (set xs)) h (store_links d h)"
    using push_front_frame [OF r d(1)] by (rule relinked_store)
  with d show ?thesis by (simp add: on_list_def hrepr_def load_store)
qed

lemma hrepr_push_back:
  assumes "hrepr h l xs" "n \<noteq> 0" "n \<notin> set xs"
  shows "\<exists>l' h'. on_list (push_back n) l h = Some (Inr (l', h')) \<and> hrepr h' l' (xs @ [n])
     \<and> relinked (insert n (set xs)) h h'"
proof -
  have r: "dl_repr (load_list h l) xs" using assms(1) by (simp add: hrepr_def)
  obtain d where d: "push_back n (load_list h l) = Inr d" "dl_repr d (xs @ [n])"
    using push_back_repr [OF r assms(2,3)] by blast
  have "relinked (insert n (set xs)) h (store_links d h)"
    using push_back_frame [OF r d(1)] by (rule relinked_store)
  with d show ?thesis by (simp add: on_list_def hrepr_def load_store)
qed

lemma hrepr_remove:
  assumes "hrepr h l (xs @ n # ys)"
  shows "\<exists>l' h'. on_list (remove_node n) l h = Some (Inr (l', h')) \<and> hrepr h' l' (xs @ ys)
     \<and> relinked (set (xs @ n # ys)) h h'"
  using remove_node_repr [OF assms[unfolded hrepr_def]] remove_frame [OF assms[unfolded hrepr_def], of n]
  by (auto simp: on_list_def hrepr_def load_store relinked_store)

lemma hrepr_pop_front:
  assumes "hrepr h l (x # xs)"
  shows "\<exists>l' h'. pop_list pop_front l h = (x, l', h') \<and> hrepr h' l' xs \<and> relinked (set (x # xs)) h h'"
  using pop_front_repr [OF assms[unfolded hrepr_def]] pop_front_frame [OF assms[unfolded hrepr_def]]
  by (auto simp: pop_list_def hrepr_def load_store relinked_store)

lemma hrepr_pop_back:
  assumes "hrepr h l (xs @ [x])"
  shows "\<exists>l' h'. pop_list pop_back l h = (x, l', h') \<and> hrepr h' l' xs \<and> relinked (set (xs @ [x])) h h'"
  using pop_back_repr [OF assms[unfolded hrepr_def]] pop_back_frame [OF assms[unfolded hrepr_def]]
  by (auto simp: pop_list_def hrepr_def load_store relinked_store)

lemma hrepr_pop_front_nil: "hrepr h l [] \<Longrightarrow> pop_list pop_front l h = (0, l, h)"
  unfolding hrepr_def pop_list_def
  by (simp add: pop_front_empty store_hdr_def store_links_def load_list_def)

lemma hrepr_first: "hrepr h l xs \<Longrightarrow> h_first l = hd_or xs 0"
  by (simp add: hrepr_def dl_repr_def load_list_def)

lemma hrepr_count: "hrepr h l xs \<Longrightarrow> h_count l = of_nat (length xs)"
  by (simp add: hrepr_def dl_repr_def load_list_def)

lemma hrepr_nonzero: "hrepr h l xs \<Longrightarrow> 0 \<notin> set xs"
  by (simp add: hrepr_def dl_repr_def)

end
