(* ===== verification/BucketFacts.thy ===== *)
theory BucketFacts
  imports Bucket
begin

text \<open>
  Correctness of the buckets: Allocate hands out an item that was free, inside its slab, and
  marks it; Return frees exactly the item a pointer denotes and ignores every other pointer.
  The live items are pairs of a slab and an index; the three lists always hold the partly
  used, the full and the empty slabs.
\<close>

subsection \<open>The invariant\<close>

definition sized :: "bucket \<Rightarrow> bool" where
  "sized b \<longleftrightarrow> unat (bk_index b) < 29 \<and> bk_itemSize b = ItemSizeFromIndex (bk_index b)
     \<and> bk_itemsPerSlab b = ItemCountFromIndex (bk_index b)"

definition same_size :: "bucket \<Rightarrow> bucket \<Rightarrow> bool" where
  "same_size b b' \<longleftrightarrow> bk_mutex b' = bk_mutex b \<and> bk_index b' = bk_index b \<and> bk_itemSize b' = bk_itemSize b
     \<and> bk_itemsPerSlab b' = bk_itemsPerSlab b"

definition items :: "bucket \<Rightarrow> nat" where "items b = unat (bk_itemsPerSlab b)"

definition lists_ok :: "bucket \<Rightarrow> slab_heap \<Rightarrow> addr list \<Rightarrow> addr list \<Rightarrow> addr list \<Rightarrow> bool" where
  "lists_ok b h ps fs es \<longleftrightarrow>
     hrepr h (bk_partial b) ps \<and> hrepr h (bk_full b) fs \<and> hrepr h (bk_empty b) es
     \<and> distinct (ps @ fs @ es) \<and> (\<forall>p\<in>set (ps @ fs @ es). page_aligned p)"

definition partial_ok :: "nat \<Rightarrow> slab \<Rightarrow> bool" where
  "partial_ok n s \<longleftrightarrow> slab_ok n s \<and> card (marks s) < n"

definition full_ok :: "nat \<Rightarrow> slab \<Rightarrow> bool" where
  "full_ok n s \<longleftrightarrow> slab_ok n s \<and> card (marks s) = n"

definition empty_ok :: "slab \<Rightarrow> bool" where
  "empty_ok s \<longleftrightarrow> bitmap_ok 256 (sl_bits s) \<and> marks s = {}"

definition slabs_ok :: "bucket \<Rightarrow> (addr \<Rightarrow> slab) \<Rightarrow> addr list \<Rightarrow> addr list \<Rightarrow> addr list \<Rightarrow> bool" where
  "slabs_ok b m ps fs es \<longleftrightarrow> (\<forall>p\<in>set ps. partial_ok (items b) (m p)) \<and> (\<forall>p\<in>set fs. full_ok (items b) (m p))
     \<and> (\<forall>p\<in>set es. empty_ok (m p)) \<and> (\<forall>p\<in>set (ps @ fs). sl_bucket (m p) = bk_index b)"

lemma slabs_ok_upd [simp]:
  "slabs_ok (b\<lparr>bk_partial := l\<rparr>) = slabs_ok b" "slabs_ok (b\<lparr>bk_full := l\<rparr>) = slabs_ok b"
  "slabs_ok (b\<lparr>bk_empty := l\<rparr>) = slabs_ok b" "slabs_ok (b\<lparr>bk_mutex := m\<rparr>) = slabs_ok b"
  by (intro ext; simp add: slabs_ok_def items_def)+

definition pages_ok :: "slab_heap \<Rightarrow> addr list \<Rightarrow> bool" where
  "pages_ok h xs \<longleftrightarrow> pa_inv (pages h) \<and> (\<forall>q\<in>pa_free_set (pages h). page_aligned q)
     \<and> set xs \<inter> pa_free_set (pages h) = {}"

definition bucket_ok :: "bucket \<Rightarrow> slab_heap \<Rightarrow> addr list \<Rightarrow> addr list \<Rightarrow> addr list \<Rightarrow> bool" where
  "bucket_ok b h ps fs es \<longleftrightarrow> sized b \<and> lists_ok b h ps fs es \<and> slabs_ok b (slabs h) ps fs es
     \<and> pages_ok h (ps @ fs @ es)"

definition used :: "slab_heap \<Rightarrow> addr list \<Rightarrow> bool" where
  "used h ps \<longleftrightarrow> (\<forall>p\<in>set ps. marks (slabs h p) \<noteq> {})"

definition bucket_core :: "bucket \<Rightarrow> slab_heap \<Rightarrow> addr list \<Rightarrow> addr list \<Rightarrow> addr list \<Rightarrow> bool" where
  "bucket_core b h ps fs es \<longleftrightarrow> bucket_ok b h ps fs es \<and> used h ps"

text \<open>Between two operations the lock is free as well.\<close>

definition bucket_inv :: "bucket \<Rightarrow> slab_heap \<Rightarrow> addr list \<Rightarrow> addr list \<Rightarrow> addr list \<Rightarrow> bool" where
  "bucket_inv b h ps fs es \<longleftrightarrow> bk_mutex b = 0 \<and> bucket_core b h ps fs es"

definition live :: "slab_heap \<Rightarrow> addr list \<Rightarrow> (addr \<times> nat) set" where
  "live h xs = {(p, i). p \<in> set xs \<and> i \<in> marks (slabs h p)}"

definition item_addr :: "bucket \<Rightarrow> addr \<Rightarrow> nat \<Rightarrow> addr" where
  "item_addr b p i = ItemStart p + of_nat i * bk_itemSize b"

lemma items_upd [simp]:
  "items (b\<lparr>bk_partial := l\<rparr>) = items b" "items (b\<lparr>bk_full := l\<rparr>) = items b"
  "items (b\<lparr>bk_empty := l\<rparr>) = items b" "items (b\<lparr>bk_mutex := m\<rparr>) = items b"
  by (simp_all add: items_def)

lemma same_size_refl [simp]: "same_size b b" by (simp add: same_size_def)

lemma same_size_trans: "same_size b b' \<Longrightarrow> same_size b' b'' \<Longrightarrow> same_size b b''"
  by (simp add: same_size_def)

lemma same_size_upd [simp]:
  "same_size b (b'\<lparr>bk_partial := l\<rparr>) = same_size b b'" "same_size b (b'\<lparr>bk_full := l\<rparr>) = same_size b b'"
  "same_size b (b'\<lparr>bk_empty := l\<rparr>) = same_size b b'"
  by (simp_all add: same_size_def)

lemma same_size_eq: "same_size b b' \<Longrightarrow> sized b' = sized b \<and> items b' = items b \<and> item_addr b' p i = item_addr b p i"
  by (simp add: same_size_def sized_def items_def item_addr_def)

lemma sized_items: "sized b \<Longrightarrow> 2 \<le> items b \<and> items b \<le> 253"
  using item_count_bounds [of "bk_index b"] by (simp add: sized_def items_def)

lemma item_addr_bounds:
  assumes "sized b" "page_aligned p" "i < items b"
  shows "unat (item_addr b p i) = unat p + 48 + i * unat (bk_itemSize b)"
    and "48 + i * unat (bk_itemSize b) + unat (bk_itemSize b) \<le> 4096"
proof -
  let ?n = "unat (bk_itemSize b)"
  have "items b * ?n \<le> 4048" using item_count_bounds(3) [of "bk_index b"] assms(1) by (simp add: sized_def items_def)
  moreover have "Suc i * ?n \<le> items b * ?n" using assms(3) by (intro mult_le_mono1) simp
  ultimately have le: "i * ?n + ?n \<le> 4048" by simp
  then show "48 + i * ?n + ?n \<le> 4096" by simp
  have m: "unat (of_nat i * bk_itemSize b) = i * ?n"
  proof -
    have "unat (of_nat i :: size32) = i" using assms(3) sized_items [OF assms(1)] by (intro unat_of_nat_len) simp
    then show ?thesis using le by (simp add: unat_word_ariths)
  qed
  have s: "unat (ItemStart p) = unat p + 48"
    using page_aligned_room [OF assms(2)] unfolding ItemStart_def sizeof_slab_def
    by (subst unat_add_noov) simp_all
  show "unat (item_addr b p i) = unat p + 48 + i * ?n"
  proof -
    have "0 < ?n" using assms(1) item_size_bounds [of "bk_index b"] by (simp add: sized_def)
    then have "unat p + 48 + i * ?n < 2 ^ 32" using page_aligned_room [OF assms(2)] le by linarith
    then show ?thesis unfolding item_addr_def by (subst unat_add_noov) (simp_all add: m s)
  qed
qed

text \<open>Different items have different addresses, and different slabs do not overlap.\<close>

lemma item_addr_inj:
  assumes "sized b" "page_aligned p" "page_aligned q" "i < items b" "j < items b"
    and "item_addr b p i = item_addr b q j"
  shows "p = q \<and> i = j"
proof -
  let ?n = "unat (bk_itemSize b)"
  have n: "0 < ?n" using assms(1) item_size_bounds [of "bk_index b"] by (simp add: sized_def)
  obtain k l where kl: "unat p = 4096 * k" "unat q = 4096 * l"
    using assms(2,3) by (auto simp: page_aligned_def elim!: dvdE)
  have e: "4096 * k + (48 + i * ?n) = 4096 * l + (48 + j * ?n)"
    using item_addr_bounds(1) [OF assms(1,2,4)] item_addr_bounds(1) [OF assms(1,3,5)] assms(6) kl by simp
  have b: "48 + i * ?n < 4096" "48 + j * ?n < 4096"
    using item_addr_bounds(2) [OF assms(1,2,4)] item_addr_bounds(2) [OF assms(1,3,5)] n by linarith+
  have "k = l" using e b by linarith
  with e n kl show ?thesis by (auto intro: word_eq_unatI)
qed

lemma pointer_index:
  assumes "sized b" "page_aligned p"
  shows "i < items b \<Longrightarrow> GetPointerIndex b p (item_addr b p i) = of_nat i"
    and "GetPointerIndex b p ptr \<noteq> INVALID_ITEM_INDEX \<Longrightarrow>
      unat (GetPointerIndex b p ptr) < items b \<and> ptr = item_addr b p (unat (GetPointerIndex b p ptr))"
proof -
  have n: "0 < bk_itemSize b" "unat (bk_itemSize b) \<noteq> 0"
    using assms(1) item_size_bounds [of "bk_index b"] by (auto simp: sized_def word_less_nat_alt)
  show "GetPointerIndex b p (item_addr b p i) = of_nat i" if "i < items b"
  proof -
    let ?a = "of_nat i * bk_itemSize b"
    have i: "unat (of_nat i :: size32) = i"
      using that sized_items [OF assms(1)] by (intro unat_of_nat_len) simp
    have "i * unat (bk_itemSize b) < 2 ^ 32"
      using item_addr_bounds(2) [OF assms that] by simp
    then have a: "unat ?a = i * unat (bk_itemSize b)" using i by (simp add: unat_word_ariths)
    have "?a mod bk_itemSize b = 0" by (rule word_eq_unatI) (simp add: unat_mod a)
    moreover have "?a div bk_itemSize b = of_nat i"
      using n by (intro word_eq_unatI) (simp add: unat_div a i)
    moreover have "\<not> bk_itemsPerSlab b \<le> of_nat i"
      using that i by (simp add: items_def word_le_nat_alt)
    ultimately show ?thesis by (simp add: GetPointerIndex_def item_addr_def Let_def)
  qed
  show "unat (GetPointerIndex b p ptr) < items b \<and> ptr = item_addr b p (unat (GetPointerIndex b p ptr))"
    if "GetPointerIndex b p ptr \<noteq> INVALID_ITEM_INDEX"
  proof -
    let ?a = "ptr - ItemStart p"
    have m: "?a mod bk_itemSize b = 0" and g: "GetPointerIndex b p ptr = ?a div bk_itemSize b"
      and lt: "?a div bk_itemSize b < bk_itemsPerSlab b"
      using that by (auto simp: GetPointerIndex_def Let_def split: if_splits)
    have "?a div bk_itemSize b * bk_itemSize b = ?a"
      using div_mult_mod_eq [of ?a "bk_itemSize b"] m by simp
    then show ?thesis using g lt by (simp add: item_addr_def items_def word_less_nat_alt)
  qed
qed

subsection \<open>Pages on the move\<close>

text \<open>
  An operation that turns the slabs X of a bucket into Y: the slabs and the free pages are
  together the same pages before and after, and nothing outside them is written.
\<close>

definition moves :: "slab_heap \<Rightarrow> slab_heap \<Rightarrow> addr set \<Rightarrow> addr set \<Rightarrow> bool" where
  "moves h h' X Y \<longleftrightarrow>
     Y \<union> pa_free_set (pages h') = X \<union> pa_free_set (pages h)
     \<and> (\<forall>y. y \<notin> X \<union> pa_free_set (pages h) \<longrightarrow>
          slabs h' y = slabs h y \<and> slab_prev h' y = slab_prev h y \<and> slab_next h' y = slab_next h y)"

lemma moves_refl [simp]: "moves h h X X"
  by (simp add: moves_def)

lemma moves_trans: "moves h h1 X Y \<Longrightarrow> moves h1 h2 Y Z \<Longrightarrow> moves h h2 X Z"
  by (simp add: moves_def)

lemma moves_relinked: "relinked A h h' \<Longrightarrow> A \<subseteq> X \<Longrightarrow> moves h h' X X"
  by (auto simp: moves_def relinked_def)

lemma moves_relinked2:
  "relinked A h h1 \<Longrightarrow> relinked B h1 h2 \<Longrightarrow> A \<subseteq> X \<Longrightarrow> B \<subseteq> X \<Longrightarrow> moves h h2 X X"
  by (rule moves_trans [OF moves_relinked moves_relinked])

lemma moves_slab: "p \<in> X \<Longrightarrow> moves h (h\<lparr>slabs := (slabs h)(p := s)\<rparr>) X X"
  by (auto simp: moves_def)

subsection \<open>Finding a slab\<close>

lemma pages_ok_cases:
  assumes "pages_ok h xs"
  obtains "pa_free_set (pages h) = {}" "AllocatePageObj h = Some (Inl NullDeref)"
  | p h' where "AllocatePageObj h = Some (Inr (p, h'))" "p \<notin> set xs" "page_aligned p" "p \<noteq> 0"
      "pages_ok h' (p # xs)" "slabs h' = (slabs h)(p := slab_new)"
      "slab_prev h' = (slab_prev h)(p := 0)" "slab_next h' = (slab_next h)(p := 0)"
      "allocatedPages h' = allocatedPages h" "moves h h' (set xs) (insert p (set xs))"
proof -
  have i: "pa_inv (pages h)" using assms by (simp add: pages_ok_def)
  show thesis
  proof (rule pa.alloc_cases [OF i])
    assume "allocate_page (pages h) = Some (0, pages h)" "pa_free_set (pages h) = {}"
    then show thesis using that(1) by (simp add: AllocatePageObj_def)
  next
    fix p pa
    assume a: "allocate_page (pages h) = Some (p, pa)" "p \<noteq> 0" "p \<in> pa_free_set (pages h)" "pa_inv pa"
      "pa_free_set pa = pa_free_set (pages h) - {p}"
    let ?h = "h\<lparr>pages := pa, slabs := (slabs h)(p := slab_new),
        slab_prev := (slab_prev h)(p := 0), slab_next := (slab_next h)(p := 0)\<rparr>"
    have "AllocatePageObj h = Some (Inr (p, ?h))" using a by (simp add: AllocatePageObj_def)
    moreover have "p \<notin> set xs" "page_aligned p" "pages_ok ?h (p # xs)"
      using assms a by (auto simp: pages_ok_def)
    moreover have "moves h ?h (set xs) (insert p (set xs))" using a(3,5) by (auto simp: moves_def)
    ultimately show thesis using that(2) [of p ?h] a(2) by simp
  qed
qed

lemma hrepr_outside:
  "hrepr h l xs \<Longrightarrow> p \<notin> set xs \<Longrightarrow> hrepr (h\<lparr>slab_prev := (slab_prev h)(p := v), slab_next := (slab_next h)(p := w)\<rparr>) l xs"
  by (rule hrepr_frame [of "{p}"]) (auto simp: relinked_def)

lemma hrepr_cong:
  "slab_prev h' = slab_prev h \<Longrightarrow> slab_next h' = slab_next h \<Longrightarrow> hrepr h' l xs = hrepr h l xs"
  by (simp add: hrepr_def load_list_def)

lemma lists_relinked:
  assumes "lists_ok b h ps fs es" "relinked A h h'"
  shows "A \<inter> set ps = {} \<Longrightarrow> hrepr h' (bk_partial b) ps" "A \<inter> set fs = {} \<Longrightarrow> hrepr h' (bk_full b) fs"
    "A \<inter> set es = {} \<Longrightarrow> hrepr h' (bk_empty b) es"
  using assms by (auto simp: lists_ok_def intro: hrepr_frame)

lemma setup_ok:
  assumes "sized b" "empty_ok s"
  shows "partial_ok (items b) (slab_setup i z (ucast (bk_itemsPerSlab b)) s)"
    "marks (slab_setup i z (ucast (bk_itemsPerSlab b)) s) = {}"
proof -
  have "unat (ucast (bk_itemsPerSlab b) :: u16) = items b"
    using sized_items [OF assms(1)] by (simp add: items_def unat_ucast_mod)
  then show "partial_ok (items b) (slab_setup i z (ucast (bk_itemsPerSlab b)) s)"
    using assms sized_items [OF assms(1)] by (auto simp: partial_ok_def slab_ok_def empty_ok_def)
  show "marks (slab_setup i z (ucast (bk_itemsPerSlab b)) s) = {}"
    using assms(2) by (simp add: empty_ok_def)
qed

text \<open>Putting a slab without marks in front of the (empty) list of partly used slabs.\<close>

lemma setup_push:
  assumes "sized b" "lists_ok b h [] fs es" "slabs_ok b (slabs h) [] fs es"
    and "pages_ok h (p # fs @ es)" "empty_ok (slabs h p)" "p \<noteq> 0" "page_aligned p"
    and "p \<notin> set fs" "p \<notin> set es"
  defines "h1 \<equiv> h\<lparr>slabs := (slabs h)(p := slab_setup (bk_index b) (ucast (bk_itemSize b))
                         (ucast (bk_itemsPerSlab b)) (slabs h p))\<rparr>"
  shows "\<exists>l h'. on_list (push_front p) (bk_partial b) h1 = Some (Inr (l, h'))
     \<and> bucket_ok (b\<lparr>bk_partial := l\<rparr>) h' [p] fs es \<and> live h' ([p] @ fs) = live h fs
     \<and> moves h h' (set (p # fs @ es)) (set (p # fs @ es))"
proof -
  have "hrepr h1 (bk_partial b) []" using assms(2) by (simp add: lists_ok_def h1_def)
  then obtain l h' where h': "on_list (push_front p) (bk_partial b) h1 = Some (Inr (l, h'))"
    "hrepr h' l [p]" "relinked {p} h1 h'"
    using hrepr_push_front [of h1 "bk_partial b" "[]" p] assms(6) by auto
  have s: "slabs h' = slabs h1" "pages h' = pages h" using h'(3) by (simp_all add: relinked_def h1_def)
  have l1: "lists_ok b h1 [] fs es" using assms(2) by (simp add: lists_ok_def h1_def)
  have "lists_ok (b\<lparr>bk_partial := l\<rparr>) h' [p] fs es"
    using lists_relinked [OF l1 h'(3)] assms(2,7,8,9) h'(2) by (simp add: lists_ok_def)
  moreover have "slabs_ok b (slabs h') [p] fs es"
    using assms(3,8,9) setup_ok [OF assms(1,5)] by (auto simp: slabs_ok_def s h1_def)
  moreover have "pages_ok h' ([p] @ fs @ es)" using assms(4) by (simp add: pages_ok_def s)
  moreover have "live h' ([p] @ fs) = live h fs"
    using setup_ok(2) [OF assms(1,5)] assms(8) by (auto simp: live_def s h1_def split: if_splits)
  moreover have "moves h h' (set (p # fs @ es)) (set (p # fs @ es))"
    unfolding h1_def by (rule moves_trans [OF moves_slab moves_relinked [OF h'(3) [unfolded h1_def]]]) simp_all
  ultimately show ?thesis using h'(1) assms(1) by (auto simp: bucket_ok_def sized_def items_def)
qed

lemma get_slab:
  assumes "bucket_ok b h ps fs es" "used h ps"
  shows "(ps = [] \<and> es = [] \<and> pa_free_set (pages h) = {} \<and> GetAvailableSlab b h = Some (Inl NullDeref))
    \<or> (\<exists>p ps' es' b' h'. GetAvailableSlab b h = Some (Inr (p, b', h')) \<and> bucket_ok b' h' (p # ps') fs es'
        \<and> used h' ps' \<and> live h' ((p # ps') @ fs) = live h (ps @ fs) \<and> same_size b b'
        \<and> moves h h' (set (ps @ fs @ es)) (set ((p # ps') @ fs @ es')))"
proof (cases ps)
  case (Cons p ps')
  then have "h_first (bk_partial b) = p" "p \<noteq> 0"
    using assms(1) hrepr_first [of h "bk_partial b" ps] hrepr_nonzero [of h "bk_partial b" ps]
    by (auto simp: bucket_ok_def lists_ok_def)
  then have "GetAvailableSlab b h = Some (Inr (p, b, h))" by (simp add: GetAvailableSlab_def)
  moreover have "bucket_ok b h (p # ps') fs es" "used h ps'" using assms Cons by (auto simp: used_def)
  ultimately show ?thesis
    using Cons by (intro disjI2 exI [of _ p] exI [of _ ps'] exI [of _ es] exI [of _ b] exI [of _ h]) simp
next
  case Nil
  have ok: "sized b" "lists_ok b h [] fs es" "slabs_ok b (slabs h) [] fs es" "pages_ok h (fs @ es)"
    using assms(1) Nil by (simp_all add: bucket_ok_def)
  have f0: "h_first (bk_partial b) = 0" using ok(2) hrepr_first by (fastforce simp: lists_ok_def)
  show ?thesis
  proof (cases es)
    case (Cons p es')
    obtain l h1 where h1: "pop_list pop_front (bk_empty b) h = (p, l, h1)" "hrepr h1 l es'"
      "relinked (set es) h h1"
      using hrepr_pop_front [of h "bk_empty b" p es'] ok(2) Cons by (auto simp: lists_ok_def)
    have p: "p \<noteq> 0" "page_aligned p" "p \<notin> set fs" "p \<notin> set es'"
      using ok(2) Cons hrepr_nonzero [of h "bk_empty b" es] by (auto simp: lists_ok_def)
    let ?b = "b\<lparr>bk_empty := l\<rparr>"
    have s: "slabs h1 = slabs h" "pages h1 = pages h" using h1(3) by (simp_all add: relinked_def)
    have "set es \<inter> set fs = {}" using ok(2) by (auto simp: lists_ok_def)
    then have "lists_ok ?b h1 [] fs es'"
      using ok(2) Cons h1(2) lists_relinked [OF ok(2) h1(3)] by (simp add: lists_ok_def)
    moreover have "sized ?b" "items ?b = items b" using ok(1) by (simp_all add: sized_def items_def)
    moreover have "slabs_ok b (slabs h1) [] fs es'" "empty_ok (slabs h1 p)"
      using ok(3) Cons by (simp_all add: slabs_ok_def s)
    moreover have "pages_ok h1 (p # fs @ es')" using ok(4) Cons by (auto simp: pages_ok_def s)
    ultimately obtain l' h' where h': "on_list (push_front p) (bk_partial ?b)
          (h1\<lparr>slabs := (slabs h1)(p := slab_setup (bk_index ?b) (ucast (bk_itemSize ?b))
                         (ucast (bk_itemsPerSlab ?b)) (slabs h1 p))\<rparr>) = Some (Inr (l', h'))"
       "bucket_ok (?b\<lparr>bk_partial := l'\<rparr>) h' [p] fs es'" "live h' ([p] @ fs) = live h1 fs"
       "moves h1 h' (set (p # fs @ es')) (set (p # fs @ es'))"
      using setup_push [of ?b h1 fs es' p] p by auto
    have "GetAvailableSlab b h = Some (Inr (p, ?b\<lparr>bk_partial := l'\<rparr>, h'))"
      using f0 h1(1) p(1) h'(1) by (simp add: GetAvailableSlab_def Let_def)
    moreover have "live h1 fs = live h fs" by (simp add: live_def s)
    moreover have "moves h h' (set (ps @ fs @ es)) (set (p # fs @ es'))"
    proof (rule moves_trans [OF _ h'(4)])
      show "moves h h1 (set (ps @ fs @ es)) (set (p # fs @ es'))"
        using moves_relinked [OF h1(3), of "set (ps @ fs @ es)"] Cons Nil by (simp add: subset_iff)
    qed
    ultimately show ?thesis using h' Nil
      by (intro disjI2 exI [of _ p] exI [of _ "[]"] exI [of _ es'] exI [of _ "?b\<lparr>bk_partial := l'\<rparr>"]
          exI [of _ h']) (simp add: used_def)
  next
    case es: Nil
    have pop: "pop_list pop_front (bk_empty b) h = (0, bk_empty b, h)"
      using ok(2) es by (intro hrepr_pop_front_nil) (simp add: lists_ok_def)
    have b: "b\<lparr>bk_empty := bk_empty b\<rparr> = b" by simp
    have "pages_ok h fs" using ok(4) es by simp
    then show ?thesis
    proof (cases rule: pages_ok_cases)
      case 1
      then have "GetAvailableSlab b h = Some (Inl NullDeref)"
        using f0 pop by (simp add: GetAvailableSlab_def Let_def)
      then show ?thesis using Nil es 1(1) by blast
    next
      case (2 p h1)
      let ?h = "h1\<lparr>allocatedPages := allocatedPages h1 + 1\<rparr>"
      have "lists_ok b (h\<lparr>slab_prev := (slab_prev h)(p := 0), slab_next := (slab_next h)(p := 0)\<rparr>) [] fs es"
        using ok(2) es 2(2) by (simp add: lists_ok_def hrepr_outside)
      then have "lists_ok b ?h [] fs es"
        using 2(7,8) by (simp add: lists_ok_def hrepr_cong [of ?h "h\<lparr>slab_prev := (slab_prev h)(p := 0), slab_next := (slab_next h)(p := 0)\<rparr>"]
            del: hrepr_slabs)
      moreover have "slabs_ok b (slabs ?h) [] fs es" "empty_ok (slabs ?h p)"
        using ok(3) es 2(2,6) by (auto simp: slabs_ok_def empty_ok_def)
      moreover have "pages_ok ?h (p # fs @ es)" using 2(5) es by (simp add: pages_ok_def)
      ultimately obtain l' h' where h': "on_list (push_front p) (bk_partial b)
          (?h\<lparr>slabs := (slabs ?h)(p := slab_setup (bk_index b) (ucast (bk_itemSize b))
                         (ucast (bk_itemsPerSlab b)) (slabs ?h p))\<rparr>) = Some (Inr (l', h'))"
        "bucket_ok (b\<lparr>bk_partial := l'\<rparr>) h' [p] fs es" "live h' ([p] @ fs) = live ?h fs"
        "moves ?h h' (set (p # fs @ es)) (set (p # fs @ es))"
        using setup_push [of b ?h fs es p] ok(1) 2(2,3,4) es by auto
      have "GetAvailableSlab b h = Some (Inr (p, b\<lparr>bk_partial := l'\<rparr>, h'))"
        using f0 pop 2(1) h'(1) by (simp add: GetAvailableSlab_def Let_def)
      moreover have "live ?h fs = live h fs" using 2(2,6) by (auto simp: live_def split: if_splits)
      moreover have "moves h ?h (set fs) (insert p (set fs))" using 2(10) by (simp add: moves_def)
      then have "moves h h' (set (ps @ fs @ es)) (set (p # fs @ es))"
        using moves_trans h'(4) Nil es by fastforce
      ultimately show ?thesis using h' Nil
        by (intro disjI2 exI [of _ p] exI [of _ "[]"] exI [of _ es] exI [of _ "b\<lparr>bk_partial := l'\<rparr>"]
            exI [of _ h']) (simp add: used_def)
    qed
  qed
qed

subsection \<open>Allocate\<close>

text \<open>Changing one slab only.\<close>

lemma bucket_ok_slab:
  assumes "bucket_ok b h (p # ps) fs es"
  shows "partial_ok (items b) s \<Longrightarrow> sl_bucket s = bk_index b \<Longrightarrow> bucket_ok b (h\<lparr>slabs := (slabs h)(p := s)\<rparr>) (p # ps) fs es"
    and "live (h\<lparr>slabs := (slabs h)(p := s)\<rparr>) ((p # ps) @ fs)
      = (live h ((p # ps) @ fs) - {p} \<times> UNIV) \<union> {p} \<times> marks s"
proof -
  have p: "p \<notin> set ps" "p \<notin> set fs" "p \<notin> set es" using assms by (auto simp: bucket_ok_def lists_ok_def)
  then show "partial_ok (items b) s \<Longrightarrow> sl_bucket s = bk_index b \<Longrightarrow> bucket_ok b (h\<lparr>slabs := (slabs h)(p := s)\<rparr>) (p # ps) fs es"
    using assms by (auto simp: bucket_ok_def lists_ok_def slabs_ok_def pages_ok_def)
  show "live (h\<lparr>slabs := (slabs h)(p := s)\<rparr>) ((p # ps) @ fs)
      = (live h ((p # ps) @ fs) - {p} \<times> UNIV) \<union> {p} \<times> marks s"
    by (auto simp: live_def split: if_splits)
qed

text \<open>Moving a slab that has just become full.\<close>

lemma move_to_full:
  assumes "sized b" "lists_ok b h (p # ps) fs es" "slabs_ok b (slabs h) ps fs es"
    and "full_ok (items b) (slabs h p)" "sl_bucket (slabs h p) = bk_index b" "pages_ok h ((p # ps) @ fs @ es)"
  shows "\<exists>lp h1 lf h2. on_list (remove_node p) (bk_partial b) h = Some (Inr (lp, h1))
     \<and> on_list (push_front p) (bk_full b) h1 = Some (Inr (lf, h2))
     \<and> bucket_ok (b\<lparr>bk_partial := lp, bk_full := lf\<rparr>) h2 ps (p # fs) es \<and> slabs h2 = slabs h
     \<and> moves h h2 (set ((p # ps) @ fs @ es)) (set ((p # ps) @ fs @ es))"
proof -
  have l: "hrepr h (bk_partial b) (p # ps)" "hrepr h (bk_full b) fs" "hrepr h (bk_empty b) es"
    "distinct ((p # ps) @ fs @ es)" "p \<noteq> 0"
    using assms(2) hrepr_nonzero [of h "bk_partial b" "p # ps"] by (auto simp: lists_ok_def)
  obtain lp h1 where h1: "on_list (remove_node p) (bk_partial b) h = Some (Inr (lp, h1))"
    "hrepr h1 lp ps" "relinked (set (p # ps)) h h1"
    using hrepr_remove [of h "bk_partial b" "[]" p ps] l(1) by auto
  have f1: "hrepr h1 (bk_full b) fs" "hrepr h1 (bk_empty b) es"
    using lists_relinked(2,3) [OF assms(2) h1(3)] l(4) by auto
  obtain lf h2 where h2: "on_list (push_front p) (bk_full b) h1 = Some (Inr (lf, h2))"
    "hrepr h2 lf (p # fs)" "relinked (insert p (set fs)) h1 h2"
    using hrepr_push_front [OF f1(1) l(5)] l(4) by auto
  have e: "hrepr h2 lp ps" "hrepr h2 (bk_empty b) es"
    using hrepr_frame [OF h2(3) _ h1(2)] hrepr_frame [OF h2(3) _ f1(2)] l(4) by auto
  have s: "slabs h2 = slabs h" "pages h2 = pages h" using h1(3) h2(3) by (simp_all add: relinked_def)
  have "bucket_ok (b\<lparr>bk_partial := lp, bk_full := lf\<rparr>) h2 ps (p # fs) es"
    using assms e h2(2) l(4)
    by (auto simp: bucket_ok_def lists_ok_def slabs_ok_def pages_ok_def sized_def items_def s)
  moreover have "moves h h2 (set ((p # ps) @ fs @ es)) (set ((p # ps) @ fs @ es))"
    by (rule moves_relinked2 [OF h1(3) h2(3)]) auto
  ultimately show ?thesis using h1(1) h2(1) s(1) by blast
qed

text \<open>What a successful allocation achieves.\<close>

definition allocated ::
    "bucket \<Rightarrow> slab_heap \<Rightarrow> addr list \<Rightarrow> addr list \<Rightarrow> addr list \<Rightarrow> addr \<Rightarrow> bucket \<Rightarrow> slab_heap \<Rightarrow> bool" where
  "allocated b h ps fs es a b' h' \<longleftrightarrow> (\<exists>ps' fs' es' p i. bucket_core b' h' ps' fs' es' \<and> same_size b b'
     \<and> page_aligned p \<and> i < items b \<and> a = item_addr b p i \<and> (p, i) \<notin> live h (ps @ fs)
     \<and> live h' (ps' @ fs') = insert (p, i) (live h (ps @ fs))
     \<and> moves h h' (set (ps @ fs @ es)) (set (ps' @ fs' @ es')))"

lemma allocate_item_correct:
  assumes "bucket_core b h ps fs es"
  shows "(ps = [] \<and> es = [] \<and> pa_free_set (pages h) = {} \<and> allocate_item b h = Some (Inl NullDeref))
    \<or> (\<exists>a b' h'. allocate_item b h = Some (Inr (a, b', h')) \<and> allocated b h ps fs es a b' h')"
proof -
  have ok: "bucket_ok b h ps fs es" "used h ps" using assms by (simp_all add: bucket_core_def)
  show ?thesis
  proof (cases rule: disjE [OF get_slab [OF ok(1,2)]])
    case 1
    then show ?thesis by (simp add: allocate_item_def)
  next
    case 2
    then obtain p ps1 es1 b1 h1 where g: "GetAvailableSlab b h = Some (Inr (p, b1, h1))"
      "bucket_ok b1 h1 (p # ps1) fs es1" "used h1 ps1"
      "live h1 ((p # ps1) @ fs) = live h (ps @ fs)" "same_size b b1"
      "moves h h1 (set (ps @ fs @ es)) (set ((p # ps1) @ fs @ es1))"
      by blast
    let ?s = "slabs h1 p" and ?n = "items b1"
    let ?i = "unat (FirstFree ?s)" and ?m = "slab_mark (unat (FirstFree ?s)) ?s"
    let ?h = "h1\<lparr>slabs := (slabs h1)(p := ?m)\<rparr>" and ?a = "ItemStart p + FirstFree ?s * bk_itemSize b1"
    have tag: "sl_bucket ?m = bk_index b1"
      using g(2) by (simp add: bucket_ok_def slabs_ok_def)
    have p: "partial_ok ?n ?s" "page_aligned p" "p \<noteq> 0" "p \<notin> set ps1" "p \<notin> set fs" "p \<notin> set es1"
      using g(2) hrepr_nonzero [of h1 "bk_partial b1" "p # ps1"]
      by (auto simp: bucket_ok_def lists_ok_def slabs_ok_def)
    have i: "?i < ?n" "?i \<notin> marks ?s" using p(1) FirstFree_below by (auto simp: partial_ok_def)
    have m: "slab_ok ?n ?m" "marks ?m = insert ?i (marks ?s)"
      using slab_mark_props [of ?n ?s ?i] i p(1) by (auto simp: partial_ok_def)
    have a: "?a = item_addr b p ?i" using g(5) by (simp add: item_addr_def same_size_def)
    have new: "(p, ?i) \<notin> live h (ps @ fs)" unfolding g(4) [symmetric] using i(2) by (simp add: live_def)
    have n: "?n = items b" using same_size_eq [OF g(5)] by simp
    have mvs: "moves h ?h (set (ps @ fs @ es)) (set ((p # ps1) @ fs @ es1))"
      by (rule moves_trans [OF g(6) moves_slab]) simp
    have lv: "live ?h ((p # ps1) @ fs) = insert (p, ?i) (live h (ps @ fs))"
      unfolding g(4) [symmetric] bucket_ok_slab(2) [OF g(2)] m(2) by (auto simp: live_def)
    show ?thesis
    proof (cases "getFreeCount ?m = 0")
      case True
      then have full: "full_ok ?n (slabs ?h p)" using m(1) getFreeCount_zero by (simp add: full_ok_def)
      have pre: "sized b1" "lists_ok b1 ?h (p # ps1) fs es1" "slabs_ok b1 (slabs ?h) ps1 fs es1"
        "pages_ok ?h ((p # ps1) @ fs @ es1)"
        using g(2) p(4-6) by (auto simp: bucket_ok_def lists_ok_def slabs_ok_def pages_ok_def)
      have tag: "sl_bucket (slabs ?h p) = bk_index b1" using tag by simp
      obtain lp h2 lf h3 where mv: "on_list (remove_node p) (bk_partial b1) ?h = Some (Inr (lp, h2))"
        "on_list (push_front p) (bk_full b1) h2 = Some (Inr (lf, h3))"
        "bucket_ok (b1\<lparr>bk_partial := lp, bk_full := lf\<rparr>) h3 ps1 (p # fs) es1" "slabs h3 = slabs ?h"
        "moves ?h h3 (set ((p # ps1) @ fs @ es1)) (set ((p # ps1) @ fs @ es1))"
        using move_to_full [OF pre(1-3) full tag pre(4)] by blast
      have r: "allocate_item b h = Some (Inr (?a, b1\<lparr>bk_partial := lp, bk_full := lf\<rparr>, h3))"
        using True g(1) p(3) mv(1,2) by (simp add: allocate_item_def Let_def)
      have "used h3 ps1" using g(3) p(4) mv(4) by (auto simp: used_def)
      moreover have "live h3 (ps1 @ p # fs) = live ?h ((p # ps1) @ fs)"
        using mv(4) by (auto simp: live_def)
      moreover have "moves h h3 (set (ps @ fs @ es)) (set (ps1 @ (p # fs) @ es1))"
        using moves_trans [OF mvs mv(5)] by (simp add: insert_commute)
      ultimately have "allocated b h ps fs es ?a (b1\<lparr>bk_partial := lp, bk_full := lf\<rparr>) h3"
        unfolding allocated_def bucket_core_def
        using mv(3) g(5) a new lv i(1) n p(2)
        by (intro exI [of _ ps1] exI [of _ "p # fs"] exI [of _ es1] exI [of _ p] exI [of _ ?i])
          (simp add: same_size_def)
      with r show ?thesis by blast
    next
      case False
      then have "card (marks ?m) < ?n"
        using m(1) getFreeCount_zero [OF m(1)] by (auto simp: slab_ok_def)
      then have "partial_ok ?n ?m" using m(1) by (simp add: partial_ok_def)
      then have b: "bucket_ok b1 ?h (p # ps1) fs es1" using tag by (rule bucket_ok_slab(1) [OF g(2)])
      have r: "allocate_item b h = Some (Inr (?a, b1, ?h))"
        using False g(1) p(3) by (simp add: allocate_item_def Let_def)
      have "used ?h (p # ps1)" using g(3) p(4) m(2) by (auto simp: used_def)
      then have "allocated b h ps fs es ?a b1 ?h"
        unfolding allocated_def bucket_core_def
        using b g(5) a new lv i(1) n p(2) mvs
        by (intro exI [of _ "p # ps1"] exI [of _ fs] exI [of _ es1] exI [of _ p] exI [of _ ?i])
          (simp add: same_size_def)
      with r show ?thesis by blast
    qed
  qed
qed

subsection \<open>Return\<close>

lemma move_to_partial:
  assumes "sized b" "lists_ok b h ps (fs @ p # gs) es" "slabs_ok b (slabs h) ps (fs @ gs) es"
    and "partial_ok (items b) (slabs h p)" "sl_bucket (slabs h p) = bk_index b" "pages_ok h (ps @ (fs @ p # gs) @ es)"
  shows "\<exists>lf h1 lp h2. on_list (remove_node p) (bk_full b) h = Some (Inr (lf, h1))
     \<and> on_list (push_back p) (bk_partial b) h1 = Some (Inr (lp, h2))
     \<and> bucket_ok (b\<lparr>bk_full := lf, bk_partial := lp\<rparr>) h2 (ps @ [p]) (fs @ gs) es \<and> slabs h2 = slabs h
     \<and> moves h h2 (set (ps @ (fs @ p # gs) @ es)) (set (ps @ (fs @ p # gs) @ es))"
proof -
  have l: "hrepr h (bk_partial b) ps" "hrepr h (bk_full b) (fs @ p # gs)" "hrepr h (bk_empty b) es"
    "distinct (ps @ (fs @ p # gs) @ es)" "p \<noteq> 0"
    using assms(2) hrepr_nonzero [of h "bk_full b" "fs @ p # gs"] by (auto simp: lists_ok_def)
  obtain lf h1 where h1: "on_list (remove_node p) (bk_full b) h = Some (Inr (lf, h1))"
    "hrepr h1 lf (fs @ gs)" "relinked (set (fs @ p # gs)) h h1"
    using hrepr_remove [OF l(2)] by auto
  have f1: "hrepr h1 (bk_partial b) ps" "hrepr h1 (bk_empty b) es"
    using lists_relinked(1,3) [OF assms(2) h1(3)] l(4) by auto
  obtain lp h2 where h2: "on_list (push_back p) (bk_partial b) h1 = Some (Inr (lp, h2))"
    "hrepr h2 lp (ps @ [p])" "relinked (insert p (set ps)) h1 h2"
    using hrepr_push_back [OF f1(1) l(5)] l(4) by auto
  have e: "hrepr h2 lf (fs @ gs)" "hrepr h2 (bk_empty b) es"
    using hrepr_frame [OF h2(3) _ h1(2)] hrepr_frame [OF h2(3) _ f1(2)] l(4) by auto
  have s: "slabs h2 = slabs h" "pages h2 = pages h" using h1(3) h2(3) by (simp_all add: relinked_def)
  have "bucket_ok (b\<lparr>bk_full := lf, bk_partial := lp\<rparr>) h2 (ps @ [p]) (fs @ gs) es"
    using assms e h2(2) l(4)
    by (auto simp: bucket_ok_def lists_ok_def slabs_ok_def pages_ok_def sized_def items_def s)
  moreover have "moves h h2 (set (ps @ (fs @ p # gs) @ es)) (set (ps @ (fs @ p # gs) @ es))"
    by (rule moves_relinked2 [OF h1(3) h2(3)]) auto
  ultimately show ?thesis using h1(1) h2(1) s(1) by blast
qed

lemma move_to_empty:
  assumes "sized b" "lists_ok b h (ps @ p # qs) fs es" "slabs_ok b (slabs h) (ps @ qs) fs es"
    and "empty_ok (slabs h p)" "pages_ok h ((ps @ p # qs) @ fs @ es)"
  shows "\<exists>lp h1 le h2. on_list (remove_node p) (bk_partial b) h = Some (Inr (lp, h1))
     \<and> on_list (push_back p) (bk_empty b) h1 = Some (Inr (le, h2))
     \<and> bucket_ok (b\<lparr>bk_partial := lp, bk_empty := le\<rparr>) h2 (ps @ qs) fs (es @ [p]) \<and> slabs h2 = slabs h
     \<and> moves h h2 (set ((ps @ p # qs) @ fs @ es)) (set ((ps @ p # qs) @ fs @ es))"
proof -
  have l: "hrepr h (bk_partial b) (ps @ p # qs)" "hrepr h (bk_full b) fs" "hrepr h (bk_empty b) es"
    "distinct ((ps @ p # qs) @ fs @ es)" "p \<noteq> 0"
    using assms(2) hrepr_nonzero [of h "bk_partial b" "ps @ p # qs"] by (auto simp: lists_ok_def)
  obtain lp h1 where h1: "on_list (remove_node p) (bk_partial b) h = Some (Inr (lp, h1))"
    "hrepr h1 lp (ps @ qs)" "relinked (set (ps @ p # qs)) h h1"
    using hrepr_remove [OF l(1)] by auto
  have f1: "hrepr h1 (bk_full b) fs" "hrepr h1 (bk_empty b) es"
    using lists_relinked(2,3) [OF assms(2) h1(3)] l(4) by auto
  obtain le h2 where h2: "on_list (push_back p) (bk_empty b) h1 = Some (Inr (le, h2))"
    "hrepr h2 le (es @ [p])" "relinked (insert p (set es)) h1 h2"
    using hrepr_push_back [OF f1(2) l(5)] l(4) by auto
  have e: "hrepr h2 lp (ps @ qs)" "hrepr h2 (bk_full b) fs"
    using hrepr_frame [OF h2(3) _ h1(2)] hrepr_frame [OF h2(3) _ f1(1)] l(4) by auto
  have s: "slabs h2 = slabs h" "pages h2 = pages h" using h1(3) h2(3) by (simp_all add: relinked_def)
  have "bucket_ok (b\<lparr>bk_partial := lp, bk_empty := le\<rparr>) h2 (ps @ qs) fs (es @ [p])"
    using assms e h2(2) l(4)
    by (auto simp: bucket_ok_def lists_ok_def slabs_ok_def pages_ok_def sized_def items_def s)
  moreover have "moves h h2 (set ((ps @ p # qs) @ fs @ es)) (set ((ps @ p # qs) @ fs @ es))"
    by (rule moves_relinked2 [OF h1(3) h2(3)]) auto
  ultimately show ?thesis using h1(1) h2(1) s(1) by blast
qed

definition returned ::
    "bucket \<Rightarrow> slab_heap \<Rightarrow> addr list \<Rightarrow> addr list \<Rightarrow> addr list \<Rightarrow> addr \<Rightarrow> nat \<Rightarrow> bucket \<Rightarrow> slab_heap \<Rightarrow> bool" where
  "returned b h ps fs es p i b' h' \<longleftrightarrow> (\<exists>ps' fs' es'. bucket_core b' h' ps' fs' es' \<and> same_size b b'
     \<and> live h' (ps' @ fs') = live h (ps @ fs) - {(p, i)}
     \<and> moves h h' (set (ps @ fs @ es)) (set (ps' @ fs' @ es')))"

lemma returnedI:
  assumes "bucket_ok b' h' ps' fs' es'" "used h' ps'" "same_size b b'"
    and "live h' (ps' @ fs') = live h (ps @ fs) - {(p, i)}"
    and "moves h h' (set (ps @ fs @ es)) (set (ps' @ fs' @ es'))"
  shows "returned b h ps fs es p i b' h'"
proof -
  have "bucket_core b' h' ps' fs' es'" using assms(1,2) by (simp add: bucket_core_def)
  with assms(3-5) show ?thesis unfolding returned_def by blast
qed

lemma live_change:
  assumes "slabs h' = (slabs h)(p := s)" "marks s = marks (slabs h p) - {i}"
    and "\<And>q. q \<noteq> p \<Longrightarrow> q \<in> set ys \<longleftrightarrow> q \<in> set xs" "p \<in> set xs" "p \<in> set ys \<or> marks s = {}"
  shows "live h' ys = live h xs - {(p, i)}"
proof (rule set_eqI)
  fix x :: "addr \<times> nat"
  obtain q j where x: "x = (q, j)" by (cases x)
  show "x \<in> live h' ys \<longleftrightarrow> x \<in> live h xs - {(p, i)}"
  proof (cases "q = p")
    case True
    then show ?thesis using assms(1,2,4,5) by (auto simp: x live_def)
  next
    case False
    then show ?thesis using assms(1) assms(3) [OF False] by (simp add: x live_def)
  qed
qed

lemma return_full:
  assumes "bucket_core b h ps (fs @ p # gs) es" "i \<in> marks (slabs h p)"
  defines "h1 \<equiv> h\<lparr>slabs := (slabs h)(p := slab_clear i (slabs h p))\<rparr>"
  shows "\<exists>lf h2 lp h3. on_list (remove_node p) (bk_full b) h1 = Some (Inr (lf, h2))
     \<and> on_list (push_back p) (bk_partial b) h2 = Some (Inr (lp, h3))
     \<and> returned b h ps (fs @ p # gs) es p i (b\<lparr>bk_full := lf, bk_partial := lp\<rparr>) h3"
proof -
  have ok: "bucket_ok b h ps (fs @ p # gs) es" "used h ps" 
    using assms(1) by (simp_all add: bucket_core_def)
  have p: "p \<notin> set ps" "p \<notin> set fs" "p \<notin> set gs" "p \<notin> set es" "full_ok (items b) (slabs h p)" "sized b"
    using ok(1) by (auto simp: bucket_ok_def lists_ok_def slabs_ok_def)
  have m: "slab_ok (items b) (slab_clear i (slabs h p))" "marks (slab_clear i (slabs h p)) = marks (slabs h p) - {i}"
    using slab_clear_props assms(2) p(5) by (auto simp: full_ok_def)
  have c: "Suc (card (marks (slabs h p) - {i})) = items b"
    using p(5) card_Suc_Diff1 [OF finite_marks assms(2)] by (simp add: full_ok_def)
  have tag: "sl_bucket (slabs h1 p) = bk_index b"
    using ok(1) by (simp add: bucket_ok_def slabs_ok_def h1_def)
  have part: "partial_ok (items b) (slabs h1 p)" using m c by (simp add: partial_ok_def h1_def)
  have pre: "lists_ok b h1 ps (fs @ p # gs) es" "slabs_ok b (slabs h1) ps (fs @ gs) es"
    "pages_ok h1 (ps @ (fs @ p # gs) @ es)"
    using ok(1) p(1-4) by (auto simp: bucket_ok_def lists_ok_def slabs_ok_def pages_ok_def h1_def)
  obtain lf h2 lp h3 where mv: "on_list (remove_node p) (bk_full b) h1 = Some (Inr (lf, h2))"
    "on_list (push_back p) (bk_partial b) h2 = Some (Inr (lp, h3))"
    "bucket_ok (b\<lparr>bk_full := lf, bk_partial := lp\<rparr>) h3 (ps @ [p]) (fs @ gs) es" "slabs h3 = slabs h1"
    "moves h1 h3 (set (ps @ (fs @ p # gs) @ es)) (set (ps @ (fs @ p # gs) @ es))"
    using move_to_partial [OF p(6) pre(1,2) part tag pre(3)] by blast
  have "marks (slabs h p) - {i} \<noteq> {}" using c sized_items [OF p(6)] by (metis One_nat_def card.empty Suc_n_not_le_n numeral_2_eq_2)
  then have u: "used h3 (ps @ [p])" using ok(2) p(1) m(2) by (auto simp: used_def mv(4) h1_def)
  have s: "slabs h3 = (slabs h)(p := slab_clear i (slabs h p))" by (simp add: mv(4) h1_def)
  have lv: "live h3 ((ps @ [p]) @ fs @ gs) = live h (ps @ fs @ p # gs) - {(p, i)}"
    by (rule live_change [OF s m(2)]) auto
  have "returned b h ps (fs @ p # gs) es p i (b\<lparr>bk_full := lf, bk_partial := lp\<rparr>) h3"
  proof (rule returnedI [OF mv(3) u _ lv])
    show "moves h h3 (set (ps @ (fs @ p # gs) @ es)) (set ((ps @ [p]) @ (fs @ gs) @ es))"
      using moves_trans [OF moves_slab mv(5) [unfolded h1_def]] by simp
  qed simp
  with mv(1,2) show ?thesis by blast
qed

lemma return_last:
  assumes "bucket_core b h (ps @ p # qs) fs es" "marks (slabs h p) = {i}"
  defines "h1 \<equiv> h\<lparr>slabs := (slabs h)(p := slab_reset (slab_clear i (slabs h p)))\<rparr>"
  shows "\<exists>lp h2 le h3. on_list (remove_node p) (bk_partial b) h1 = Some (Inr (lp, h2))
     \<and> on_list (push_back p) (bk_empty b) h2 = Some (Inr (le, h3))
     \<and> returned b h (ps @ p # qs) fs es p i (b\<lparr>bk_partial := lp, bk_empty := le\<rparr>) h3"
proof -
  have ok: "bucket_ok b h (ps @ p # qs) fs es" "used h (ps @ p # qs)" 
    using assms(1) by (simp_all add: bucket_core_def)
  have p: "p \<notin> set ps" "p \<notin> set qs" "p \<notin> set fs" "p \<notin> set es" "partial_ok (items b) (slabs h p)" "sized b"
    using ok(1) by (auto simp: bucket_ok_def lists_ok_def slabs_ok_def)
  have m: "slab_ok (items b) (slab_clear i (slabs h p))" "marks (slab_clear i (slabs h p)) = {}"
    using slab_clear_props [of "items b" "slabs h p" i] assms(2) p(5) by (auto simp: partial_ok_def)
  have e: "empty_ok (slabs h1 p)" using m by (simp add: empty_ok_def h1_def slab_ok_def)
  have pre: "lists_ok b h1 (ps @ p # qs) fs es" "slabs_ok b (slabs h1) (ps @ qs) fs es"
    "pages_ok h1 ((ps @ p # qs) @ fs @ es)"
    using ok(1) p(1-4) by (auto simp: bucket_ok_def lists_ok_def slabs_ok_def pages_ok_def h1_def)
  obtain lp h2 le h3 where mv: "on_list (remove_node p) (bk_partial b) h1 = Some (Inr (lp, h2))"
    "on_list (push_back p) (bk_empty b) h2 = Some (Inr (le, h3))"
    "bucket_ok (b\<lparr>bk_partial := lp, bk_empty := le\<rparr>) h3 (ps @ qs) fs (es @ [p])" "slabs h3 = slabs h1"
    "moves h1 h3 (set ((ps @ p # qs) @ fs @ es)) (set ((ps @ p # qs) @ fs @ es))"
    using move_to_empty [OF p(6) pre(1,2) e pre(3)] by blast
  have u: "used h3 (ps @ qs)" using ok(2) p(1,2) by (auto simp: used_def mv(4) h1_def)
  have s: "slabs h3 = (slabs h)(p := slab_reset (slab_clear i (slabs h p)))" by (simp add: mv(4) h1_def)
  have lv: "live h3 ((ps @ qs) @ fs) = live h ((ps @ p # qs) @ fs) - {(p, i)}"
    by (rule live_change [OF s]) (auto simp: m(2) assms(2))
  have "returned b h (ps @ p # qs) fs es p i (b\<lparr>bk_partial := lp, bk_empty := le\<rparr>) h3"
  proof (rule returnedI [OF mv(3) u _ lv])
    show "moves h h3 (set ((ps @ p # qs) @ fs @ es)) (set ((ps @ qs) @ fs @ es @ [p]))"
      using moves_trans [OF moves_slab mv(5) [unfolded h1_def]] by simp
  qed simp
  with mv(1,2) show ?thesis by blast
qed

lemma return_partial:
  assumes "bucket_core b h ps fs es" "p \<in> set ps" "i \<in> marks (slabs h p)" "marks (slabs h p) \<noteq> {i}"
  shows "returned b h ps fs es p i b (h\<lparr>slabs := (slabs h)(p := slab_clear i (slabs h p))\<rparr>)"
proof -
  let ?h = "h\<lparr>slabs := (slabs h)(p := slab_clear i (slabs h p))\<rparr>"
  have ok: "bucket_ok b h ps fs es" "used h ps" 
    using assms(1) by (simp_all add: bucket_core_def)
  have p: "p \<notin> set fs" "p \<notin> set es" "partial_ok (items b) (slabs h p)"
    using ok(1) assms(2) by (auto simp: bucket_ok_def lists_ok_def slabs_ok_def)
  have m: "slab_ok (items b) (slab_clear i (slabs h p))" "marks (slab_clear i (slabs h p)) = marks (slabs h p) - {i}"
    using slab_clear_props [of "items b" "slabs h p" i] assms(3) p(3) by (auto simp: partial_ok_def)
  have "card (marks (slabs h p) - {i}) \<le> card (marks (slabs h p))" by (rule card_mono) auto
  then have "partial_ok (items b) (slabs ?h p)" using m p(3) by (simp add: partial_ok_def)
  then have b: "bucket_ok b ?h ps fs es"
    using ok(1) p by (auto simp: bucket_ok_def lists_ok_def slabs_ok_def pages_ok_def)
  have u: "used ?h ps" using ok(2) m(2) assms(3,4) by (auto simp: used_def)
  have s: "slabs ?h = (slabs h)(p := slab_clear i (slabs h p))" by simp
  have lv: "live ?h (ps @ fs) = live h (ps @ fs) - {(p, i)}"
    by (rule live_change [OF s m(2)]) (use assms(2) in auto)
  show ?thesis by (rule returnedI [OF b u same_size_refl lv moves_slab]) (use assms(2) in simp)
qed

lemma return_item_correct:
  assumes "bucket_core b h ps fs es" "p \<in> set (ps @ fs)"
  shows "(\<exists>i b' h'. (p, i) \<in> live h (ps @ fs) \<and> ptr = item_addr b p i
        \<and> return_item p ptr b h = Some (Inr (b', h')) \<and> returned b h ps fs es p i b' h')
     \<or> ((\<forall>i. (p, i) \<in> live h (ps @ fs) \<longrightarrow> ptr \<noteq> item_addr b p i)
        \<and> return_item p ptr b h = Some (Inr (b, h)))"
proof -
  let ?i = "unat (GetPointerIndex b p ptr)" and ?s = "slabs h p"
  have ok: "bucket_ok b h ps fs es" "sized b" "page_aligned p" "slab_ok (items b) ?s"
    using assms by (auto simp: bucket_core_def bucket_ok_def lists_ok_def slabs_ok_def partial_ok_def full_ok_def)
  note pi = pointer_index [OF ok(2,3)]
  have marks: "marks ?s \<subseteq> {..<items b}" using ok(4) by (simp add: slab_ok_def)
  have inv_big: "unat INVALID_ITEM_INDEX = 4294967295"
    using unat_npos by (simp add: INVALID_ITEM_INDEX_def npos_def)
  have idx: "GetPointerIndex b p (item_addr b p i) = of_nat i \<and> unat (of_nat i :: size32) = i"
    if "i \<in> marks ?s" for i
  proof -
    have "i < items b" using that marks by auto
    then show ?thesis using pi(1) sized_items [OF ok(2)] by (auto simp: unat_of_nat_len)
  qed
  show ?thesis
  proof (cases "GetPointerIndex b p ptr \<noteq> INVALID_ITEM_INDEX \<and> ?i \<in> marks ?s")
    case False
    then have "return_item p ptr b h = Some (Inr (b, h))"
      by (auto simp: return_item_def IsMarked_iff Let_def)
    moreover have "ptr \<noteq> item_addr b p i" if "(p, i) \<in> live h (ps @ fs)" for i
    proof
      assume e: "ptr = item_addr b p i"
      have i: "i \<in> marks ?s" using that by (simp add: live_def)
      then have "?i = i" using idx [OF i] e by simp
      moreover have "i < 4294967295" using i marks sized_items [OF ok(2)] by auto
      ultimately show False using False i inv_big
        by (cases "GetPointerIndex b p ptr = INVALID_ITEM_INDEX") auto
    qed
    ultimately show ?thesis by blast
  next
    case True
    then have i: "?i \<in> marks ?s" "ptr = item_addr b p ?i" using pi(2) by auto
    have lv: "(p, ?i) \<in> live h (ps @ fs)" using assms(2) i(1) by (simp add: live_def)
    have c0: "card (marks ?s) \<noteq> 0" using i(1) finite_marks by auto
    have g0: "getFreeCount ?s = 0 \<longleftrightarrow> card (marks ?s) = items b" using ok(4) by (rule getFreeCount_zero)
    have g1: "getFreeCount ?s = bk_itemsPerSlab b - 1 \<longleftrightarrow> marks ?s = {?i}"
    proof -
      have "unat (bk_itemsPerSlab b - 1) = items b - 1"
        using sized_items [OF ok(2)] by (subst unat_sub_noov) (simp_all add: items_def)
      then have "getFreeCount ?s = bk_itemsPerSlab b - 1 \<longleftrightarrow> unat (sl_freeCount ?s) = items b - 1"
        by (metis getFreeCount_unat word_unat_eq_iff)
      also have "\<dots> \<longleftrightarrow> card (marks ?s) = 1" using ok(4) c0 by (auto simp: slab_ok_def)
      also have "\<dots> \<longleftrightarrow> marks ?s = {?i}" using i(1) by (auto simp: card_1_singleton_iff)
      finally show ?thesis .
    qed
    have r: "return_item p ptr b h =
       (let h1 = h\<lparr>slabs := (slabs h)(p := slab_clear ?i ?s)\<rparr>
        in if card (marks ?s) = items b then
             bindo (on_list (remove_node p) (bk_full b) h1) (\<lambda>(lf, h).
             bindo (on_list (push_back p) (bk_partial b) h) (\<lambda>(lp, h).
                  Some (Inr (b\<lparr>bk_full := lf, bk_partial := lp\<rparr>, h))))
           else if marks ?s = {?i} then
             bindo (on_list (remove_node p) (bk_partial b) (h\<lparr>slabs := (slabs h)(p := slab_reset (slab_clear ?i ?s))\<rparr>)) (\<lambda>(lp, h).
             bindo (on_list (push_back p) (bk_empty b) h) (\<lambda>(le, h).
                     Some (Inr (b\<lparr>bk_partial := lp, bk_empty := le\<rparr>, h))))
           else Some (Inr (b, h1)))"
      using True by (simp add: return_item_def IsMarked_iff g0 g1 Let_def)
    have "\<exists>b' h'. return_item p ptr b h = Some (Inr (b', h')) \<and> returned b h ps fs es p ?i b' h'"
    proof (cases "p \<in> set fs")
      case True
      then obtain xs ys where fs: "fs = xs @ p # ys" by (auto dest: split_list)
      have "card (marks ?s) = items b"
        using True ok(1) by (auto simp: bucket_ok_def slabs_ok_def full_ok_def)
      then show ?thesis
        using return_full [of b h ps xs p ys es ?i] assms(1) i(1) unfolding r fs by auto
    next
      case False
      then have ps: "p \<in> set ps" using assms(2) by simp
      then have ne: "card (marks ?s) \<noteq> items b"
        using ok(1) by (auto simp: bucket_ok_def slabs_ok_def partial_ok_def)
      obtain xs ys where xy: "ps = xs @ p # ys" using ps by (auto dest: split_list)
      show ?thesis
      proof (cases "marks ?s = {?i}")
        case True
        then show ?thesis using return_last [of b h xs p ys fs es ?i] assms(1) ne unfolding r xy by auto
      next
        case False
        then show ?thesis using return_partial [OF assms(1) ps i(1)] ne unfolding r by auto
      qed
    qed
    with lv i(2) show ?thesis by blast
  qed
qed

subsection \<open>Garbage collection\<close>

lemma distinct_addr_length: "distinct xs \<Longrightarrow> 0 \<notin> set xs \<Longrightarrow> length xs < 2 ^ 32" for xs :: "addr list"
proof -
  assume a: "distinct xs" "0 \<notin> set xs"
  have "unat ` set xs \<subseteq> {..<2 ^ 32} - {0}" using a(2) unat_lt32 by (auto simp: unat_eq_zero)
  then have "card (unat ` set xs) \<le> card ({..<2 ^ 32} - {0 :: nat})" by (intro card_mono) auto
  also have "\<dots> < 2 ^ 32" by simp
  finally show ?thesis
    using a(1) by (simp add: card_image inj_on_def word_unat_eq_iff distinct_card)
qed

lemma bucket_core_mutex [simp]:
  "bucket_core (b\<lparr>bk_mutex := l\<rparr>) h ps fs es = bucket_core b h ps fs es"
  by (simp add: bucket_core_def bucket_ok_def lists_ok_def sized_def items_def)

lemma gc_step:
  assumes "bucket_core b h ps fs (es @ [p])"
  shows "\<exists>l h1 pa. pop_list pop_back (bk_empty b) h = (p, l, h1) \<and> release_page p (pages h1) = Some pa
     \<and> bucket_core (b\<lparr>bk_empty := l\<rparr>) (h1\<lparr>pages := pa, allocatedPages := n\<rparr>) ps fs es
     \<and> pa_free_set pa = insert p (pa_free_set (pages h)) \<and> slabs h1 = slabs h
     \<and> moves h (h1\<lparr>pages := pa, allocatedPages := n\<rparr>) (set (ps @ fs @ es @ [p])) (set (ps @ fs @ es))"
proof -
  have ok: "sized b" "lists_ok b h ps fs (es @ [p])" "slabs_ok b (slabs h) ps fs (es @ [p])"
    "pages_ok h (ps @ fs @ es @ [p])" "used h ps"
    using assms by (simp_all add: bucket_core_def bucket_ok_def)
  have e: "hrepr h (bk_empty b) (es @ [p])" "distinct (ps @ fs @ es @ [p])" "page_aligned p"
    using ok(2) by (auto simp: lists_ok_def)
  then have p: "p \<noteq> 0" using hrepr_nonzero by fastforce
  obtain l h1 where h1: "pop_list pop_back (bk_empty b) h = (p, l, h1)" "hrepr h1 l es"
    "relinked (set (es @ [p])) h h1"
    using hrepr_pop_back [OF e(1)] by blast
  have s: "slabs h1 = slabs h" "pages h1 = pages h" using h1(3) by (simp_all add: relinked_def)
  have "pa_inv (pages h)" "p \<notin> pa_free_set (pages h)" using ok(4) by (auto simp: pages_ok_def)
  then obtain pa where pa: "release_page p (pages h) = Some pa" "pa_inv pa" "pa_free_set pa = insert p (pa_free_set (pages h))"
    using pa.release [of "pages h" p] p by blast
  let ?h = "h1\<lparr>pages := pa, allocatedPages := n\<rparr>"
  have "set (es @ [p]) \<inter> set ps = {}" "set (es @ [p]) \<inter> set fs = {}" using e(2) by auto
  then have "lists_ok (b\<lparr>bk_empty := l\<rparr>) ?h ps fs es"
    using ok(2) h1(2) lists_relinked(1,2) [OF ok(2) h1(3)] by (simp add: lists_ok_def)
  moreover have "pages_ok ?h (ps @ fs @ es)"
    using ok(4) pa(2,3) e(2,3) by (auto simp: pages_ok_def)
  moreover have "slabs_ok b (slabs ?h) ps fs es" "used ?h ps"
    using ok(3,5) by (simp_all add: slabs_ok_def used_def s)
  ultimately have "bucket_core (b\<lparr>bk_empty := l\<rparr>) ?h ps fs es"
    using ok(1) by (simp add: bucket_core_def bucket_ok_def sized_def items_def)
  moreover have "moves h ?h (set (ps @ fs @ es @ [p])) (set (ps @ fs @ es))"
    using h1(3) pa(3) by (auto simp: moves_def relinked_def)
  ultimately show ?thesis using h1(1) pa(1,3) s by auto
qed

lemma gc_loop_correct:
  "bucket_core b h ps fs es \<Longrightarrow>
   \<exists>b' h'. gc_loop b h = Some (Inr (b', h')) \<and> bucket_core b' h' ps fs (take 4 es)
     \<and> same_size b b' \<and> slabs h' = slabs h
     \<and> pa_free_set (pages h') = pa_free_set (pages h) \<union> set (drop 4 es)
     \<and> moves h h' (set (ps @ fs @ es)) (set (ps @ fs @ take 4 es))"
proof (induction es arbitrary: b h rule: rev_induct)
  case Nil
  then have "h_count (bk_empty b) = 0"
    using hrepr_count [of h "bk_empty b" "[]"] by (simp add: bucket_core_def bucket_ok_def lists_ok_def)
  then show ?case using Nil by (subst gc_loop.simps) (simp add: EMPTY_MAX_def)
next
  case (snoc p es)
  have r: "hrepr h (bk_empty b) (es @ [p])" "distinct (es @ [p])"
    using snoc.prems by (auto simp: bucket_core_def bucket_ok_def lists_ok_def)
  have len: "length (es @ [p]) < 2 ^ 32"
    using distinct_addr_length [OF r(2)] hrepr_nonzero [OF r(1)] by blast
  have c: "h_count (bk_empty b) > EMPTY_MAX \<longleftrightarrow> 4 < length (es @ [p])"
  proof -
    have "unat (of_nat (length (es @ [p])) :: size32) = length (es @ [p])"
      by (rule unat_of_nat_len) (use len in simp)
    then show ?thesis unfolding hrepr_count [OF r(1)] EMPTY_MAX_def word_less_nat_alt by simp
  qed
  show ?case
  proof (cases "4 < length (es @ [p])")
    case False
    then have "\<not> h_count (bk_empty b) > EMPTY_MAX" using c by blast
    then have "gc_loop b h = Some (Inr (b, h))" by (subst gc_loop.simps) simp
    then show ?thesis using snoc.prems False by simp
  next
    case True
    let ?n = "allocatedPages (snd (snd (pop_list pop_back (bk_empty b) h))) - 1"
    obtain l h1 pa where g: "pop_list pop_back (bk_empty b) h = (p, l, h1)" "release_page p (pages h1) = Some pa"
      "bucket_core (b\<lparr>bk_empty := l\<rparr>) (h1\<lparr>pages := pa, allocatedPages := ?n\<rparr>) ps fs es"
      "pa_free_set pa = insert p (pa_free_set (pages h))" "slabs h1 = slabs h"
      "moves h (h1\<lparr>pages := pa, allocatedPages := ?n\<rparr>) (set (ps @ fs @ es @ [p])) (set (ps @ fs @ es))"
      using gc_step [OF snoc.prems, of ?n] by auto
    have "gc_loop b h = gc_loop (b\<lparr>bk_empty := l\<rparr>) (h1\<lparr>pages := pa, allocatedPages := ?n\<rparr>)"
      using True c g(1,2) by (subst gc_loop.simps) simp
    moreover have "take 4 (es @ [p]) = take 4 es" "drop 4 (es @ [p]) = drop 4 es @ [p]"
      using True by simp_all
    moreover have "same_size (b\<lparr>bk_empty := l\<rparr>) b' = same_size b b'" for b'
      by (simp add: same_size_def)
    ultimately show ?thesis using snoc.IH [OF g(3)] g(4,5) moves_trans [OF g(6)] by auto
  qed
qed

subsection \<open>The public operations\<close>

lemma bucket_allocate_ok:
  assumes "bucket_inv b h ps fs es"
  shows "(ps = [] \<and> es = [] \<and> pa_free_set (pages h) = {} \<and> bucket_allocate b h = Some (Inl NullDeref))
    \<or> (\<exists>p i b' h' ps' fs' es'. bucket_allocate b h = Some (Inr (item_addr b p i, b', h'))
        \<and> bucket_inv b' h' ps' fs' es' \<and> same_size b b' \<and> (p, i) \<notin> live h (ps @ fs)
        \<and> moves h h' (set (ps @ fs @ es)) (set (ps' @ fs' @ es'))
        \<and> live h' (ps' @ fs') = insert (p, i) (live h (ps @ fs))
        \<and> unat p + 48 \<le> unat (item_addr b p i)
        \<and> unat (item_addr b p i) + unat (bk_itemSize b) \<le> unat p + 4096
        \<and> (\<forall>(q, j)\<in>live h (ps @ fs). item_addr b q j \<noteq> item_addr b p i))"
proof -
  let ?b = "b\<lparr>bk_mutex := 1\<rparr>"
  have m: "bk_mutex b = 0" and core: "bucket_core ?b h ps fs es" using assms by (simp_all add: bucket_inv_def)
  have u: "bucket_allocate b h = bindo (allocate_item ?b h) (\<lambda>(a, b, h). Some (Inr (a, b\<lparr>bk_mutex := 0\<rparr>, h)))"
    by (simp add: bucket_allocate_def unlocked m)
  have ia: "item_addr ?b = item_addr b" "items ?b = items b"
    by (intro ext, simp add: item_addr_def) (simp add: items_def)
  have sz: "sized b" and al: "\<And>q. q \<in> set (ps @ fs) \<Longrightarrow> page_aligned q \<and> marks (slabs h q) \<subseteq> {..<items b}"
    using assms by (auto simp: bucket_inv_def bucket_core_def bucket_ok_def lists_ok_def slabs_ok_def
        partial_ok_def full_ok_def slab_ok_def)
  from allocate_item_correct [OF core] show ?thesis
  proof
    assume "ps = [] \<and> es = [] \<and> pa_free_set (pages h) = {} \<and> allocate_item ?b h = Some (Inl NullDeref)"
    then show ?thesis by (simp add: u)
  next
    assume "\<exists>a b' h'. allocate_item ?b h = Some (Inr (a, b', h')) \<and> allocated ?b h ps fs es a b' h'"
    then obtain a b' h' ps' fs' es' p i where r: "allocate_item ?b h = Some (Inr (a, b', h'))"
      "bucket_core b' h' ps' fs' es'" "page_aligned p" "i < items b" "a = item_addr b p i"
      "(p, i) \<notin> live h (ps @ fs)" "live h' (ps' @ fs') = insert (p, i) (live h (ps @ fs))"
      "same_size ?b b'" "moves h h' (set (ps @ fs @ es)) (set (ps' @ fs' @ es'))"
      unfolding allocated_def ia by blast
    have "same_size b (b'\<lparr>bk_mutex := 0\<rparr>)" using r(8) m by (simp add: same_size_def)
    note ss = this
    have "bucket_allocate b h = Some (Inr (item_addr b p i, b'\<lparr>bk_mutex := 0\<rparr>, h'))" by (simp add: u r(1,5))
    moreover have "bucket_inv (b'\<lparr>bk_mutex := 0\<rparr>) h' ps' fs' es'" using r(2) by (simp add: bucket_inv_def)
    moreover have "unat p + 48 \<le> unat (item_addr b p i)"
      "unat (item_addr b p i) + unat (bk_itemSize b) \<le> unat p + 4096"
      using item_addr_bounds [OF sz r(3,4)] by linarith+
    moreover have "item_addr b q j \<noteq> item_addr b p i" if "(q, j) \<in> live h (ps @ fs)" for q j
    proof
      assume e: "item_addr b q j = item_addr b p i"
      have "page_aligned q" "j < items b" using that al by (auto simp: live_def)
      then have "q = p \<and> j = i" using item_addr_inj [OF sz _ r(3) _ r(4) e] by blast
      then show False using that r(6) by simp
    qed
    ultimately show ?thesis using r(6,7,9) ss by (intro disjI2) blast
  qed
qed


lemma bucket_return_ok:
  assumes "bucket_inv b h ps fs es" "p \<in> set (ps @ fs)"
  shows "(\<exists>i b' h' ps' fs' es'. (p, i) \<in> live h (ps @ fs) \<and> ptr = item_addr b p i
        \<and> bucket_return p ptr b h = Some (Inr (b', h')) \<and> bucket_inv b' h' ps' fs' es' \<and> same_size b b'
        \<and> moves h h' (set (ps @ fs @ es)) (set (ps' @ fs' @ es'))
        \<and> live h' (ps' @ fs') = live h (ps @ fs) - {(p, i)})
     \<or> ((\<forall>i. (p, i) \<in> live h (ps @ fs) \<longrightarrow> ptr \<noteq> item_addr b p i)
        \<and> bucket_return p ptr b h = Some (Inr (b, h)))"
proof -
  let ?b = "b\<lparr>bk_mutex := 1\<rparr>"
  have m: "bk_mutex b = 0" and core: "bucket_core ?b h ps fs es" using assms by (simp_all add: bucket_inv_def)
  have u: "bucket_return p ptr b h = bindo (return_item p ptr ?b h) (\<lambda>(b, h). Some (Inr (b\<lparr>bk_mutex := 0\<rparr>, h)))"
    by (simp add: bucket_return_def unlocked m)
  have ia: "item_addr ?b = item_addr b" by (intro ext) (simp add: item_addr_def)
  from return_item_correct [OF core assms(2), of ptr] show ?thesis
  proof
    assume "\<exists>i b' h'. (p, i) \<in> live h (ps @ fs) \<and> ptr = item_addr ?b p i
        \<and> return_item p ptr ?b h = Some (Inr (b', h')) \<and> returned ?b h ps fs es p i b' h'"
    then obtain i b' h' ps' fs' es' where r: "(p, i) \<in> live h (ps @ fs)" "ptr = item_addr b p i"
      "return_item p ptr ?b h = Some (Inr (b', h'))" "bucket_core b' h' ps' fs' es'"
      "live h' (ps' @ fs') = live h (ps @ fs) - {(p, i)}" "same_size ?b b'"
      "moves h h' (set (ps @ fs @ es)) (set (ps' @ fs' @ es'))"
      unfolding returned_def ia by blast
    have ss: "same_size b (b'\<lparr>bk_mutex := 0\<rparr>)" using r(6) m by (simp add: same_size_def)
    have "bucket_return p ptr b h = Some (Inr (b'\<lparr>bk_mutex := 0\<rparr>, h'))" by (simp add: u r(3))
    moreover have "bucket_inv (b'\<lparr>bk_mutex := 0\<rparr>) h' ps' fs' es'" using r(4) by (simp add: bucket_inv_def)
    ultimately show ?thesis using r(1,2,5,7) ss by blast
  next
    assume n: "(\<forall>i. (p, i) \<in> live h (ps @ fs) \<longrightarrow> ptr \<noteq> item_addr ?b p i)
        \<and> return_item p ptr ?b h = Some (Inr (?b, h))"
    have "?b\<lparr>bk_mutex := 0\<rparr> = b" using m by simp
    then show ?thesis using n by (simp add: u ia)
  qed
qed


lemma bucket_gc_ok:
  assumes "bucket_inv b h ps fs es"
  shows "\<exists>b' h'. bucket_gc b h = Some (Inr (b', h')) \<and> bucket_inv b' h' ps fs (take 4 es)
     \<and> same_size b b' \<and> moves h h' (set (ps @ fs @ es)) (set (ps @ fs @ take 4 es))
     \<and> live h' (ps @ fs) = live h (ps @ fs)
     \<and> pa_free_set (pages h') = pa_free_set (pages h) \<union> set (drop 4 es)"
proof -
  let ?b = "b\<lparr>bk_mutex := 1\<rparr>"
  have m: "bk_mutex b = 0" and core: "bucket_core ?b h ps fs es" using assms by (simp_all add: bucket_inv_def)
  obtain b' h' where r: "gc_loop ?b h = Some (Inr (b', h'))" "bucket_core b' h' ps fs (take 4 es)"
    "slabs h' = slabs h" "pa_free_set (pages h') = pa_free_set (pages h) \<union> set (drop 4 es)"
    "same_size ?b b'" "moves h h' (set (ps @ fs @ es)) (set (ps @ fs @ take 4 es))"
    using gc_loop_correct [OF core] by blast
  have "bucket_gc b h = Some (Inr (b'\<lparr>bk_mutex := 0\<rparr>, h'))" by (simp add: bucket_gc_def unlocked m r(1))
  moreover have "bucket_inv (b'\<lparr>bk_mutex := 0\<rparr>) h' ps fs (take 4 es)" using r(2) by (simp add: bucket_inv_def)
  moreover have "same_size b (b'\<lparr>bk_mutex := 0\<rparr>)" using r(5) m by (simp add: same_size_def)
  ultimately show ?thesis using r(3,4,6) by (auto simp: live_def)
qed


subsection \<open>A concrete bucket\<close>

text \<open>Items of 64 bytes, one slab at 0x8000 with its first item in use.\<close>

definition sample_heap :: slab_heap where
  "sample_heap = \<lparr>slabs = (\<lambda>_. slab_new)(0x8000 := \<lparr>sl_bucket = 3, sl_itemSize = 64, sl_freeCount = 62,
       sl_checksum = 0, sl_bits = set_bit 256 0 (bitmap_new 256)\<rparr>),
     slab_prev = (\<lambda>_. 0), slab_next = (\<lambda>_. 0), pages = two_pages, allocatedPages = 1\<rparr>"

definition sample_bucket :: bucket where
  "sample_bucket = (bucket_new 3)\<lparr>bk_partial := \<lparr>h_first = 0x8000, h_last = 0x8000, h_count = 1\<rparr>\<rparr>"

lemma sample_marks: "marks (slabs sample_heap 0x8000) = {0}"
  using bitmap_new_props [of 256] set_bit_props(2) [of 256 "bitmap_new 256" 0]
  by (simp add: marks_def sample_heap_def)

lemma sample_sizes: "ItemSizeFromIndex 3 = 64" "ItemCountFromIndex 3 = 63"
proof -
  show s: "ItemSizeFromIndex 3 = 64" by (simp add: ItemSizeFromIndex_def IndexSizeSmall_def push_bit_eq_mult)
  then show "ItemCountFromIndex 3 = 63" by (simp add: ItemCountFromIndex_def page_space)
qed

lemma sample_items: "items sample_bucket = 63"
  by (simp add: items_def sample_bucket_def bucket_new_def sample_sizes)

lemma sample_bucket_inv: "bucket_inv sample_bucket sample_heap [0x8000] [] []"
proof -
  have "slab_ok 63 (slabs sample_heap 0x8000)"
    unfolding slab_ok_def sample_marks
    using bitmap_new_props [of 256] set_bit_props(1) [of 256 "bitmap_new 256" 0]
    by (simp add: sample_heap_def)
  then have "partial_ok (items sample_bucket) (slabs sample_heap 0x8000)"
    by (simp add: partial_ok_def sample_marks sample_items)
  moreover have "pa_inv two_pages" "pa_free_set two_pages = {0x3000, 0x2000}"
    using two_pages_cached cached_free [OF two_pages_cached] by (auto simp: pa_inv_def two_pages_def)
  ultimately show ?thesis
    by (simp add: bucket_inv_def bucket_core_def bucket_ok_def used_def sample_marks slabs_ok_def
        pages_ok_def page_aligned_def sized_def lists_ok_def)
      (simp add: sample_bucket_def bucket_new_def sample_heap_def hrepr_def dl_repr_def load_list_def
        empty_hdr_def lock_init_def)
qed

lemma sample_live: "live sample_heap ([0x8000] @ []) = {(0x8000, 0)}"
  using sample_marks by (auto simp: live_def)

text \<open>
  Allocate on a bucket in order either hands out an item that was not live, inside its
  slab and disjoint from every live item, makes exactly that item live and keeps the bucket in
  order; or it faults, which happens exactly when no partly used or empty slab and no page is
  left.
\<close>

theorem bucket_allocate_correct:
  assumes "bucket_inv b h ps fs es"
  shows "(ps = [] \<and> es = [] \<and> pa_free_set (pages h) = {} \<and> bucket_allocate b h = Some (Inl NullDeref))
    \<or> (\<exists>p i b' h' ps' fs' es'. bucket_allocate b h = Some (Inr (item_addr b p i, b', h'))
        \<and> bucket_inv b' h' ps' fs' es' \<and> same_size b b' \<and> (p, i) \<notin> live h (ps @ fs)
        \<and> moves h h' (set (ps @ fs @ es)) (set (ps' @ fs' @ es'))
        \<and> live h' (ps' @ fs') = insert (p, i) (live h (ps @ fs))
        \<and> unat p + 48 \<le> unat (item_addr b p i)
        \<and> unat (item_addr b p i) + unat (bk_itemSize b) \<le> unat p + 4096
        \<and> (\<forall>(q, j)\<in>live h (ps @ fs). item_addr b q j \<noteq> item_addr b p i))"
  using assms by (rule bucket_allocate_ok)

text \<open>
  Return frees exactly the live item of the slab whose address the pointer is, and for
  every other pointer leaves the bucket and the heap as they were; the bucket stays in order.
\<close>

theorem bucket_return_correct:
  assumes "bucket_inv b h ps fs es" "p \<in> set (ps @ fs)"
  shows "(\<exists>i b' h' ps' fs' es'. (p, i) \<in> live h (ps @ fs) \<and> ptr = item_addr b p i
        \<and> bucket_return p ptr b h = Some (Inr (b', h')) \<and> bucket_inv b' h' ps' fs' es' \<and> same_size b b'
        \<and> moves h h' (set (ps @ fs @ es)) (set (ps' @ fs' @ es'))
        \<and> live h' (ps' @ fs') = live h (ps @ fs) - {(p, i)})
     \<or> ((\<forall>i. (p, i) \<in> live h (ps @ fs) \<longrightarrow> ptr \<noteq> item_addr b p i)
        \<and> bucket_return p ptr b h = Some (Inr (b, h)))"
  using assms by (rule bucket_return_ok)

text \<open>
  C14: GC always returns; it gives every empty slab beyond the first four back to the page
  allocator and keeps the live items and the order of the bucket.
\<close>

theorem bucket_gc_correct:
  assumes "bucket_inv b h ps fs es"
  shows "\<exists>b' h'. bucket_gc b h = Some (Inr (b', h')) \<and> bucket_inv b' h' ps fs (take 4 es)
     \<and> same_size b b' \<and> moves h h' (set (ps @ fs @ es)) (set (ps @ fs @ take 4 es))
     \<and> live h' (ps @ fs) = live h (ps @ fs)
     \<and> pa_free_set (pages h') = pa_free_set (pages h) \<union> set (drop 4 es)"
  using assms by (rule bucket_gc_ok)

theorem bucket_allocate_correct_witness:
  "\<exists>p i b' h'. bucket_allocate sample_bucket sample_heap = Some (Inr (item_addr sample_bucket p i, b', h'))
     \<and> (p, i) \<noteq> (0x8000, 0)"
  using bucket_allocate_correct [OF sample_bucket_inv] unfolding sample_live by auto

theorem bucket_return_correct_witness:
  "\<exists>b' h' ps' fs'. bucket_return 0x8000 0x8030 sample_bucket sample_heap = Some (Inr (b', h'))
     \<and> live h' (ps' @ fs') = {}"
proof -
  have i: "item_addr sample_bucket 0x8000 0 = 0x8030"
    by (simp add: item_addr_def ItemStart_def sizeof_slab_def)
  have l: "(0x8000, 0) \<in> live sample_heap ([0x8000] @ [])" unfolding sample_live by simp
  have n: "\<not> (\<forall>i. (0x8000, i) \<in> live sample_heap ([0x8000] @ []) \<longrightarrow> 0x8030 \<noteq> item_addr sample_bucket 0x8000 i)"
    using i l by metis
  have m: "0x8000 \<in> set ([0x8000] @ [] :: addr list)" by simp
  obtain i b' h' ps' fs' where r: "(0x8000, i) \<in> live sample_heap ([0x8000] @ [])"
    "bucket_return 0x8000 0x8030 sample_bucket sample_heap = Some (Inr (b', h'))"
    "live h' (ps' @ fs') = live sample_heap ([0x8000] @ []) - {(0x8000, i)}"
    using bucket_return_correct [OF sample_bucket_inv m, of "0x8030"] n by blast
  then show ?thesis unfolding sample_live by blast
qed

theorem bucket_gc_correct_witness:
  "\<exists>b' h'. bucket_gc sample_bucket sample_heap = Some (Inr (b', h')) \<and> live h' [0x8000] = {(0x8000, 0)}"
  using bucket_gc_correct [OF sample_bucket_inv] sample_live by auto

end
