(* ===== verification/Kalloc.thy ===== *)
theory Kalloc
  imports BucketFacts
begin

text \<open>
  kernel/kalloc/kalloc.cpp and new.cpp: the kernel heap. Small requests go to the buckets,
  larger ones take a whole page that is recorded in a table of lists hashed by address. The
  records of large blocks come from the small-item allocator and are kept on a stack when
  they are not in use; stack and lists share the Next pointer of a record.
\<close>

subsection \<open>State\<close>

record kalloc_state =
  canAlloc :: bool
  canKallocNow :: bool
  k_heap :: slab_heap
  k_buckets :: "bucket list"
  lgMutex :: u8
  lgBuckets :: "addr list"
  lgHdr :: "addr \<Rightarrow> list_hdr"
  meta_prev :: "addr \<Rightarrow> addr"
  meta_next :: "addr \<Rightarrow> addr"
  meta_page :: "addr \<Rightarrow> addr"
  meta_count :: "addr \<Rightarrow> size32"
  free_mutex :: u8
  free_first :: addr

definition LG_BUCKET_SIZE :: nat where "LG_BUCKET_SIZE = 32"

definition sizeof_List :: size32 where "sizeof_List = 12"

definition sizeof_LargePageMeta :: size32 where "sizeof_LargePageMeta = 16"

definition meta_new :: "addr \<Rightarrow> kalloc_state \<Rightarrow> kalloc_state" where
  "meta_new p s = s\<lparr>meta_next := (meta_next s)(p := 0), meta_page := (meta_page s)(p := 0),
     meta_count := (meta_count s)(p := 0)\<rparr>"

definition hash_ptr :: "addr \<Rightarrow> u8" where
  "hash_ptr p = ucast (drop_bit PageShift p AND of_nat (LG_BUCKET_SIZE - 1))"

subsection \<open>The stack of free records and the lists of records\<close>

definition load_stack :: "kalloc_state \<Rightarrow> stack" where
  "load_stack s = \<lparr>s_mutex = free_mutex s, s_first = free_first s, s_next = meta_next s\<rparr>"

definition store_stack :: "stack \<Rightarrow> kalloc_state \<Rightarrow> kalloc_state" where
  "store_stack k s = s\<lparr>free_mutex := s_mutex k, free_first := s_first k, meta_next := s_next k\<rparr>"

definition pop_meta :: "kalloc_state \<Rightarrow> (addr \<times> kalloc_state) option" where
  "pop_meta s = (case stack_pop (load_stack s) of None \<Rightarrow> None | Some (p, k) \<Rightarrow> Some (p, store_stack k s))"

definition push_meta :: "addr \<Rightarrow> kalloc_state \<Rightarrow> kalloc_state option" where
  "push_meta p s = (case stack_push p (load_stack s) of None \<Rightarrow> None | Some k \<Rightarrow> Some (store_stack k s))"

definition load_large :: "kalloc_state \<Rightarrow> addr \<Rightarrow> dlist" where
  "load_large s l = \<lparr>NodePrev = meta_prev s, NodeNext = meta_next s, m_first = h_first (lgHdr s l),
     m_last = h_last (lgHdr s l), m_count = h_count (lgHdr s l)\<rparr>"

definition store_large :: "addr \<Rightarrow> dlist \<Rightarrow> kalloc_state \<Rightarrow> kalloc_state" where
  "store_large l d s = s\<lparr>meta_prev := NodePrev d, meta_next := NodeNext d,
     lgHdr := (lgHdr s)(l := store_hdr d)\<rparr>"

subsection \<open>Small blocks\<close>

function kalloc_small_loop :: "nat \<Rightarrow> addr \<Rightarrow> kalloc_state \<Rightarrow> (addr \<times> kalloc_state) outcome" where
  "kalloc_small_loop idx result s =
     (if idx < unat MAX_BUCKET_INDEX \<and> result = 0 then
        bindo (bucket_allocate (k_buckets s ! idx) (k_heap s)) (\<lambda>(result, b, h).
          kalloc_small_loop (Suc idx) result (s\<lparr>k_buckets := (k_buckets s)[idx := b], k_heap := h\<rparr>))
      else Some (Inr (result, s)))"
  by pat_completeness auto
termination by (relation "measure (\<lambda>(idx, _, _). unat MAX_BUCKET_INDEX - idx)") auto

declare kalloc_small_loop.simps [simp del]

definition kalloc_small :: "size32 \<Rightarrow> kalloc_state \<Rightarrow> (addr \<times> kalloc_state) outcome" where
  "kalloc_small sz s = kalloc_small_loop (unat (IndexFromSize sz)) 0 s"

subsection \<open>Large blocks\<close>

definition kalloc_large :: "size32 \<Rightarrow> kalloc_state \<Rightarrow> (addr \<times> kalloc_state) outcome" where
  "kalloc_large sz s =
     (let alignedSize = align_ceiling PageSize sz; pageCnt = alignedSize div PageSize
      in if pageCnt > 1 then
           Some (Inl (Panic ''Request to kalloc() for more than a single page worth of memory!''))
         else case pop_meta s of None \<Rightarrow> None | Some (meta, s) \<Rightarrow>
           bindo (if meta = 0 then
                    bindo (kalloc_small sizeof_LargePageMeta s) (\<lambda>(ptr, s).
                      Some (Inr (ptr, if ptr = 0 then s else meta_new ptr s)))
                  else Some (Inr (meta, s)))
             (\<lambda>(meta, s).
                if meta = 0 then Some (Inr (0, s))
                else case allocate_page (pages (k_heap s)) of None \<Rightarrow> None | Some (page, pa) \<Rightarrow>
                  let s = s\<lparr>k_heap := (k_heap s)\<lparr>pages := pa, allocatedPages := allocatedPages (k_heap s) + 1\<rparr>,
                            meta_page := (meta_page s)(meta := page)\<rparr>
                  in if page = 0 then
                       (case push_meta meta s of None \<Rightarrow> None | Some s \<Rightarrow> Some (Inr (0, s)))
                     else let s = s\<lparr>meta_count := (meta_count s)(meta := pageCnt)\<rparr>;
                              l = lgBuckets s ! unat (hash_ptr page)
                          in case guarded (lgMutex s) (\<lambda>m. push_front meta (load_large s l)) of
                               None \<Rightarrow> None
                             | Some (Inl e, m) \<Rightarrow> Some (Inl e)
                             | Some (Inr d, m) \<Rightarrow> Some (Inr (page, store_large l d (s\<lparr>lgMutex := m\<rparr>)))))"

subsection \<open>The interface\<close>

definition kalloc :: "size32 \<Rightarrow> kalloc_state \<Rightarrow> (addr \<times> kalloc_state) outcome" where
  "kalloc sz s =
     (if sz = 0 then Some (Inr (0, s))
      else if \<not> canKallocNow s then Some (Inl (Panic ''kalloc(): Called before initialized!''))
      else if sz \<le> MAX_ITEM_SIZE then kalloc_small sz s
      else kalloc_large sz s)"

text \<open>The range-based loop of kfree over one list: the record of the page, or null.\<close>

partial_function (option) find_meta :: "dlist \<Rightarrow> (addr \<Rightarrow> addr) \<Rightarrow> addr \<Rightarrow> iter \<Rightarrow> addr option" where
  "find_meta d page ptr it =
     (if iter_eq it (iter_end d) then Some 0
      else if page (it_current it) = ptr then Some (it_current it)
      else find_meta d page ptr (iter_inc d it))"

definition kfree :: "addr \<Rightarrow> kalloc_state \<Rightarrow> kalloc_state outcome" where
  "kfree ptr s =
     (if ptr = 0 then Some (Inr s)
      else if \<not> canKallocNow s then Some (Inl (Panic ''kfree(): Called before kalloc() initialized!''))
      else if ptr AND NOT PageMask = 0 then
        let l = lgBuckets s ! unat (hash_ptr ptr)
        in case spin_lock (lgMutex s) of None \<Rightarrow> None | Some m \<Rightarrow>
          (case find_meta (load_large s l) (meta_page s) ptr (iter_begin (load_large s l)) of
             None \<Rightarrow> None
           | Some meta \<Rightarrow>
               if meta = 0 then Some (Inr (s\<lparr>lgMutex := spin_unlock m\<rparr>))
               else case remove_node meta (load_large s l) of
                 Inl e \<Rightarrow> Some (Inl e)
               | Inr d \<Rightarrow>
                   let s = store_large l d s
                   in case release_page (meta_page s meta) (pages (k_heap s)) of None \<Rightarrow> None | Some pa \<Rightarrow>
                     let s = s\<lparr>k_heap := (k_heap s)\<lparr>pages := pa, allocatedPages := allocatedPages (k_heap s) - 1\<rparr>,
                               meta_page := (meta_page s)(meta := 0)\<rparr>
                     in case push_meta meta s of None \<Rightarrow> None
                        | Some s \<Rightarrow> Some (Inr (s\<lparr>lgMutex := spin_unlock m\<rparr>)))
      else
        let slab = GetSlabFromPtr (slabs (k_heap s)) ptr
        in if slab = 0 then Some (Inr s)
           else let idx = unat (getBucket (slabs (k_heap s) slab))
                in if idx < length (k_buckets s) then
                     bindo (bucket_return slab ptr (k_buckets s ! idx) (k_heap s)) (\<lambda>(b, h).
                       Some (Inr (s\<lparr>k_buckets := (k_buckets s)[idx := b], k_heap := h\<rparr>)))
                   else Some (Inl OutOfBounds))"

text \<open>operator new panics where kalloc returns null; operator delete is kfree.\<close>

definition op_new :: "size32 \<Rightarrow> kalloc_state \<Rightarrow> (addr \<times> kalloc_state) outcome" where
  "op_new sz s = bindo (kalloc sz s) (\<lambda>(p, s).
     if p = 0 then Some (Inl (Panic ''Out of memory'')) else Some (Inr (p, s)))"

definition op_delete :: "addr \<Rightarrow> kalloc_state \<Rightarrow> kalloc_state outcome" where
  "op_delete p s = kfree p s"

subsection \<open>Initialisation\<close>

fun init_lists :: "nat \<Rightarrow> kalloc_state \<Rightarrow> kalloc_state outcome" where
  "init_lists 0 s = Some (Inr s)"
| "init_lists (Suc n) s =
     bindo (kalloc_small sizeof_List s) (\<lambda>(ptr, s).
       if ptr = 0 then Some (Inl NullDeref)
       else init_lists n (s\<lparr>lgBuckets := lgBuckets s @ [ptr], lgHdr := (lgHdr s)(ptr := empty_hdr)\<rparr>))"

definition InitKalloc :: "kalloc_state \<Rightarrow> kalloc_state outcome" where
  "InitKalloc s =
     (if \<not> canAlloc s then
        Some (Inl (Panic ''memory::InitKalloc(): Called before ability to allocate memory pages!''))
      else case allocate_page (pages (k_heap s)) of None \<Rightarrow> None | Some (p, pa) \<Rightarrow>
        if p = 0 then Some (Inl NullDeref)
        else let s = s\<lparr>k_heap := (k_heap s)\<lparr>pages := pa, allocatedPages := 0\<rparr>,
                       k_buckets := map (\<lambda>i. bucket_new (of_nat i)) [0..<unat MAX_BUCKET_INDEX],
                       free_mutex := lock_init, free_first := 0, lgMutex := lock_init, lgBuckets := []\<rparr>
             in bindo (init_lists LG_BUCKET_SIZE s) (\<lambda>s. Some (Inr (s\<lparr>canKallocNow := True\<rparr>))))"

subsection \<open>Facts\<close>

declare find_meta.simps [code]

lemma kalloc_loop_done: "result \<noteq> 0 \<Longrightarrow> kalloc_small_loop idx result s = Some (Inr (result, s))"
  by (subst kalloc_small_loop.simps) simp

lemma kalloc_loop_none: "unat MAX_BUCKET_INDEX \<le> idx \<Longrightarrow> kalloc_small_loop idx result s = Some (Inr (result, s))"
  by (subst kalloc_small_loop.simps) simp

text \<open>Every address of an item has its slab's page, and is not itself on a page boundary.\<close>

lemma item_page:
  assumes "sized b" "page_aligned p" "i < items b"
  shows "item_addr b p i AND PageMask = p" "item_addr b p i AND NOT PageMask \<noteq> 0" "item_addr b p i \<noteq> 0"
proof -
  let ?a = "item_addr b p i" and ?n = "unat (bk_itemSize b)"
  have n: "0 < ?n" using assms(1) item_size_bounds [of "bk_index b"] by (simp add: sized_def)
  obtain k where k: "unat p = 4096 * k" using assms(2) by (auto simp: page_aligned_def elim!: dvdE)
  define r where "r = 48 + i * ?n"
  have a: "unat ?a = 4096 * k + r" "r < 4096" "0 < r"
    using item_addr_bounds [OF assms] k n by (simp_all add: r_def)
  have m: "NOT PageMask = (mask 12 :: addr)" by (simp add: PageMask_def PageSize_def mask_eq_exp_minus_1)
  have "?a AND PageMask = align_floor 4096 ?a" by (simp add: align_floor_def PageMask_def PageSize_def)
  then have "unat (?a AND PageMask) = unat ?a div 4096 * 4096" by (simp add: unat_align_floor)
  then show "?a AND PageMask = p" using a k by (intro word_eq_unatI) simp
  have "unat (?a AND NOT PageMask) = unat ?a mod 4096"
    unfolding m take_bit_eq_mask [symmetric] by (simp add: unsigned_take_bit_eq take_bit_eq_mod unat_mod)
  then show "?a AND NOT PageMask \<noteq> 0" using a by (auto simp: unat_eq_0)
  then show "?a \<noteq> 0" by auto
qed

lemma bucket_inv_live:
  assumes "bucket_inv b h ps fs es" "(p, i) \<in> live h (ps @ fs)"
  shows "sized b" "page_aligned p" "i < items b" "sl_bucket (slabs h p) = bk_index b" "p \<in> set (ps @ fs)"
  using assms by (auto simp: bucket_inv_def bucket_core_def bucket_ok_def lists_ok_def slabs_ok_def
      partial_ok_def full_ok_def slab_ok_def live_def)

text \<open>An allocator in order for one of its buckets.\<close>

definition bucket_ready :: "kalloc_state \<Rightarrow> nat \<Rightarrow> addr list \<Rightarrow> addr list \<Rightarrow> addr list \<Rightarrow> bool" where
  "bucket_ready s idx ps fs es \<longleftrightarrow> canKallocNow s \<and> idx < length (k_buckets s) \<and> idx < 29
     \<and> bk_index (k_buckets s ! idx) = of_nat idx \<and> bucket_inv (k_buckets s ! idx) (k_heap s) ps fs es"

lemma same_bucket:
  assumes "sized b" "sized b'" "bk_index b' = bk_index b"
  shows "item_addr b' = item_addr b" "items b' = items b"
  using assms by (auto simp: sized_def item_addr_def items_def fun_eq_iff)

lemma size_class:
  assumes "0 < sz" "sz \<le> 1920" "bk_index b = of_nat (unat (IndexFromSize sz))" "sized b"
  shows "unat (IndexFromSize sz) < 29" "unat sz \<le> unat (bk_itemSize b)"
proof -
  have c: "IndexFromSize sz < MAX_BUCKET_INDEX \<and> sz \<le> ItemSizeFromIndex (ucast (IndexFromSize sz))"
    using assms(1,2) by (rule hash_fits_class)
  then show i: "unat (IndexFromSize sz) < 29" by (simp add: max_bucket word_less_nat_alt)
  have "ucast (IndexFromSize sz) = (of_nat (unat (IndexFromSize sz)) :: u8)" by simp
  then show "unat sz \<le> unat (bk_itemSize b)"
    using c assms(3,4) by (simp add: sized_def word_le_nat_alt)
qed

lemma kalloc_small_served:
  assumes "0 < sz" "sz \<le> 1920"
  defines "i \<equiv> unat (IndexFromSize sz)"
  assumes r: "i < length (k_buckets s)" "bk_index (k_buckets s ! i) = of_nat i"
    "bucket_inv (k_buckets s ! i) (k_heap s) ps fs es"
  shows "(ps = [] \<and> es = [] \<and> pa_free_set (pages (k_heap s)) = {} \<and> kalloc_small sz s = Some (Inl NullDeref))
    \<or> (\<exists>p j b h ps' fs' es'.
        kalloc_small sz s = Some (Inr (item_addr (k_buckets s ! i) p j, s\<lparr>k_buckets := (k_buckets s)[i := b], k_heap := h\<rparr>))
        \<and> bucket_inv b h ps' fs' es' \<and> same_size (k_buckets s ! i) b
        \<and> moves (k_heap s) h (set (ps @ fs @ es)) (set (ps' @ fs' @ es'))
        \<and> (p, j) \<notin> live (k_heap s) (ps @ fs) \<and> live h (ps' @ fs') = insert (p, j) (live (k_heap s) (ps @ fs))
        \<and> unat p + 48 \<le> unat (item_addr (k_buckets s ! i) p j)
        \<and> unat (item_addr (k_buckets s ! i) p j) + unat sz \<le> unat p + 4096)"
proof -
  let ?b = "k_buckets s ! i" and ?h = "k_heap s"
  have sz: "sized ?b" using r(3) by (simp add: bucket_inv_def bucket_core_def bucket_ok_def)
  note c = size_class [OF assms(1,2) r(2) [unfolded i_def] sz [unfolded i_def], folded i_def]
  have k: "kalloc_small sz s = kalloc_small_loop i 0 s" by (simp add: kalloc_small_def i_def)
  have u: "kalloc_small_loop i 0 s = bindo (bucket_allocate ?b ?h) (\<lambda>(result, b, h).
          kalloc_small_loop (Suc i) result (s\<lparr>k_buckets := (k_buckets s)[i := b], k_heap := h\<rparr>))"
    using c(1) by (subst kalloc_small_loop.simps) (simp add: max_bucket)
  from bucket_allocate_ok [OF r(3)] show ?thesis
  proof
    assume "ps = [] \<and> es = [] \<and> pa_free_set (pages ?h) = {} \<and> bucket_allocate ?b ?h = Some (Inl NullDeref)"
    then show ?thesis by (simp add: k u)
  next
    assume "\<exists>p j b' h' ps' fs' es'. bucket_allocate ?b ?h = Some (Inr (item_addr ?b p j, b', h'))
        \<and> bucket_inv b' h' ps' fs' es' \<and> same_size ?b b' \<and> (p, j) \<notin> live ?h (ps @ fs)
        \<and> moves ?h h' (set (ps @ fs @ es)) (set (ps' @ fs' @ es'))
        \<and> live h' (ps' @ fs') = insert (p, j) (live ?h (ps @ fs))
        \<and> unat p + 48 \<le> unat (item_addr ?b p j)
        \<and> unat (item_addr ?b p j) + unat (bk_itemSize ?b) \<le> unat p + 4096
        \<and> (\<forall>(q, k)\<in>live ?h (ps @ fs). item_addr ?b q k \<noteq> item_addr ?b p j)"
    then obtain p j b' h' ps' fs' es' where a: "bucket_allocate ?b ?h = Some (Inr (item_addr ?b p j, b', h'))"
      "bucket_inv b' h' ps' fs' es'" "same_size ?b b'" "(p, j) \<notin> live ?h (ps @ fs)"
      "live h' (ps' @ fs') = insert (p, j) (live ?h (ps @ fs))"
      "unat p + 48 \<le> unat (item_addr ?b p j)"
      "unat (item_addr ?b p j) + unat (bk_itemSize ?b) \<le> unat p + 4096"
      "moves ?h h' (set (ps @ fs @ es)) (set (ps' @ fs' @ es'))" by blast
    have "item_addr ?b p j \<noteq> 0" using a(6) by (auto simp: unat_eq_0)
    then have "kalloc_small sz s = Some (Inr (item_addr ?b p j, s\<lparr>k_buckets := (k_buckets s)[i := b'], k_heap := h'\<rparr>))"
      by (simp add: k u a(1) kalloc_loop_done)
    moreover have "unat (item_addr ?b p j) + unat sz \<le> unat p + 4096" using a(7) c(2) by linarith
    ultimately show ?thesis using a(2-6,8) by blast
  qed
qed

lemma kalloc_small_block:
  assumes "bucket_ready s (unat (IndexFromSize sz)) ps fs es" "0 < sz" "sz \<le> 1920"
  defines "i \<equiv> unat (IndexFromSize sz)"
  shows "(ps = [] \<and> es = [] \<and> pa_free_set (pages (k_heap s)) = {} \<and> kalloc sz s = Some (Inl NullDeref))
    \<or> (\<exists>p j b h ps' fs' es'.
        kalloc sz s = Some (Inr (item_addr (k_buckets s ! i) p j, s\<lparr>k_buckets := (k_buckets s)[i := b], k_heap := h\<rparr>))
        \<and> bucket_inv b h ps' fs' es' \<and> same_size (k_buckets s ! i) b
        \<and> moves (k_heap s) h (set (ps @ fs @ es)) (set (ps' @ fs' @ es'))
        \<and> (p, j) \<notin> live (k_heap s) (ps @ fs) \<and> live h (ps' @ fs') = insert (p, j) (live (k_heap s) (ps @ fs))
        \<and> unat p + 48 \<le> unat (item_addr (k_buckets s ! i) p j)
        \<and> unat (item_addr (k_buckets s ! i) p j) + unat sz \<le> unat p + 4096)"
proof -
  have r: "canKallocNow s" "i < length (k_buckets s)" "bk_index (k_buckets s ! i) = of_nat i"
    "bucket_inv (k_buckets s ! i) (k_heap s) ps fs es"
    using assms(1) by (simp_all add: bucket_ready_def i_def)
  have "sz \<le> MAX_ITEM_SIZE" using assms(3) by (simp add: page_space word_le_nat_alt)
  then have "kalloc sz s = kalloc_small sz s" using assms(2) r(1) by (auto simp: kalloc_def)
  then show ?thesis using kalloc_small_served [OF assms(2,3), folded i_def, OF r(2-4)] by simp
qed

text \<open>Freeing the address of a live item returns it to the bucket the slab names.\<close>

lemma kfree_small_block:
  assumes "bucket_ready s i ps fs es" "(p, j) \<in> live (k_heap s) (ps @ fs)"
  shows "\<exists>b h ps' fs' es'. kfree (item_addr (k_buckets s ! i) p j) s
        = Some (Inr (s\<lparr>k_buckets := (k_buckets s)[i := b], k_heap := h\<rparr>))
      \<and> bucket_inv b h ps' fs' es' \<and> same_size (k_buckets s ! i) b
      \<and> moves (k_heap s) h (set (ps @ fs @ es)) (set (ps' @ fs' @ es'))
      \<and> live h (ps' @ fs') = live (k_heap s) (ps @ fs) - {(p, j)}"
proof -
  let ?b = "k_buckets s ! i" and ?h = "k_heap s"
  have r: "canKallocNow s" "i < length (k_buckets s)" "i < 29" "bk_index ?b = of_nat i" "bucket_inv ?b ?h ps fs es"
    using assms(1) by (simp_all add: bucket_ready_def)
  note l = bucket_inv_live [OF r(5) assms(2)]
  note q = item_page [OF l(1,2,3)]
  have p0: "p \<noteq> 0" using r(5) l(5) hrepr_nonzero
    by (auto simp: bucket_inv_def bucket_core_def bucket_ok_def lists_ok_def)
  have i8: "unat (of_nat i :: u8) = i" using r(3) by (intro unat_of_nat_len) simp
  have "GetSlabFromPtr (slabs ?h) (item_addr ?b p j) = p"
  proof -
    have "unat (sl_bucket (slabs ?h p)) = i" using l(4) r(4) i8 by simp
    then have "\<not> ucast (sl_bucket (slabs ?h p)) > MAX_BUCKET_INDEX"
      using r(3) by (simp add: max_bucket word_less_nat_alt unat_ucast_le)
    then show ?thesis by (simp add: GetSlabFromPtr_def q(1))
  qed
  moreover have "unat (getBucket (slabs ?h p)) = i" using l(4) r(4) i8 by (simp add: getBucket_def)
  ultimately have k: "kfree (item_addr ?b p j) s = bindo (bucket_return p (item_addr ?b p j) ?b ?h) (\<lambda>(b, h).
        Some (Inr (s\<lparr>k_buckets := (k_buckets s)[i := b], k_heap := h\<rparr>)))"
    using r(1,2) p0 q(2,3) by (simp add: kfree_def)
  have "\<not> (\<forall>i. (p, i) \<in> live ?h (ps @ fs) \<longrightarrow> item_addr ?b p j \<noteq> item_addr ?b p i)" using assms(2) by blast
  then obtain j' b' h' ps' fs' es' where a: "(p, j') \<in> live ?h (ps @ fs)" "item_addr ?b p j = item_addr ?b p j'"
    "bucket_return p (item_addr ?b p j) ?b ?h = Some (Inr (b', h'))" "bucket_inv b' h' ps' fs' es'" "same_size ?b b'"
    "live h' (ps' @ fs') = live ?h (ps @ fs) - {(p, j')}" "moves ?h h' (set (ps @ fs @ es)) (set (ps' @ fs' @ es'))"
    using bucket_return_ok [OF r(5) l(5), of "item_addr ?b p j"] by blast
  have "j' = j"
    using item_addr_inj [OF l(1,2,2) bucket_inv_live(3) [OF r(5) assms(2)] bucket_inv_live(3) [OF r(5) a(1)]] a(2)
    by simp
  with a(6) have "live h' (ps' @ fs') = live ?h (ps @ fs) - {(p, j)}" by simp
  moreover have "kfree (item_addr ?b p j) s = Some (Inr (s\<lparr>k_buckets := (k_buckets s)[i := b'], k_heap := h'\<rparr>))"
    by (simp add: k a(3))
  ultimately show ?thesis using a(4,5,7) by blast
qed

subsection \<open>Requests that are not served\<close>

lemma kalloc_no_bucket:
  "canKallocNow s \<Longrightarrow> 1920 < sz \<Longrightarrow> sz \<le> MAX_ITEM_SIZE \<Longrightarrow> kalloc sz s = Some (Inr (0, s))"
  using hash_above_last_bucket [of sz] by (auto simp: kalloc_def kalloc_small_def kalloc_loop_none)

lemma kalloc_too_large:
  assumes "canKallocNow s" "4096 < sz" "sz \<le> 0xFFFFF000"
  shows "kalloc sz s = Some (Inl (Panic ''Request to kalloc() for more than a single page worth of memory!''))"
proof -
  have n: "4096 < unat sz" "unat sz \<le> 4294963200"
    using assms(2,3) by (simp_all add: word_less_nat_alt word_le_nat_alt)
  have "unat (align_ceiling 4096 sz) = (unat sz + 4095) div 4096 * 4096"
    using n by (subst unat_align_ceiling) simp_all
  then have "unat (align_ceiling 4096 sz div 4096) = (unat sz + 4095) div 4096" by (simp add: unat_div)
  moreover have "1 < (unat sz + 4095) div 4096" using n by linarith
  ultimately have "align_ceiling PageSize sz div PageSize > 1" by (simp add: PageSize_def word_less_nat_alt)
  moreover have "\<not> sz \<le> MAX_ITEM_SIZE" "sz \<noteq> 0" using n by (auto simp: page_space word_le_nat_alt)
  ultimately show ?thesis using assms(1) by (simp add: kalloc_def kalloc_large_def)
qed

text \<open>Rounding the last 4095 sizes up wraps to zero.\<close>

lemma kalloc_wraps:
  assumes "canKallocNow s" "0xFFFFF000 < sz"
  shows "kalloc sz s = kalloc_large 0 s"
proof -
  have n: "4294963200 < unat sz" "unat sz < 4294967296"
    using assms(2) unat_lt32 [of sz] by (simp_all add: word_less_nat_alt)
  have "(unat sz + 4096 - 1) mod 2 ^ 32 = unat sz + 4095 - 4294967296" using n by (intro mod_nat_eqI) simp_all
  then have "(unat sz + 4096 - 1) mod 2 ^ 32 div 4096 = 0" using n by simp
  then have "unat (align_ceiling 4096 sz) = 0" by (simp add: unat_align_ceiling_gen)
  then have "align_ceiling PageSize sz = 0" by (simp add: PageSize_def unat_eq_0)
  moreover have "align_ceiling PageSize (0 :: size32) = 0" unfolding PageSize_def by code_simp
  ultimately have "kalloc_large sz s = kalloc_large 0 s" by (simp add: kalloc_large_def)
  moreover have "\<not> sz \<le> MAX_ITEM_SIZE" "sz \<noteq> 0" using n by (auto simp: page_space word_le_nat_alt)
  ultimately show ?thesis using assms(1) by (simp add: kalloc_def)
qed

subsection \<open>A concrete allocator\<close>

definition empty_kalloc :: kalloc_state where
  "empty_kalloc = \<lparr>canAlloc = True, canKallocNow = True, k_heap = sample_heap,
     k_buckets = (map (\<lambda>i. bucket_new (of_nat i)) [0..<29])[3 := sample_bucket],
     lgMutex = 0, lgBuckets = [], lgHdr = (\<lambda>_. empty_hdr), meta_prev = (\<lambda>_. 0), meta_next = (\<lambda>_. 0),
     meta_page = (\<lambda>_. 0), meta_count = (\<lambda>_. 0), free_mutex = 0, free_first = 0\<rparr>"

lemma empty_kalloc_ready: "bucket_ready empty_kalloc 3 [0x8000] [] []"
  using sample_bucket_inv by (simp add: bucket_ready_def empty_kalloc_def) (simp add: sample_bucket_def bucket_new_def)

lemma size_60: "unat (IndexFromSize 60) = 3" by code_simp

subsection \<open>Properties\<close>

text \<open>
  A request of 1 to 1920 bytes on an allocator that is in order either gets a block that
  lies inside one page behind the slab header, is at least as long as asked for and was
  not live, and makes exactly that block live; or it faults, which happens exactly when neither
  a slab nor a page is left.
\<close>

theorem kalloc_small_correct:
  assumes "bucket_ready s (unat (IndexFromSize sz)) ps fs es" "0 < sz" "sz \<le> 1920"
  shows "(ps = [] \<and> es = [] \<and> pa_free_set (pages (k_heap s)) = {} \<and> kalloc sz s = Some (Inl NullDeref))
    \<or> (\<exists>a p j s' ps' fs' es'. kalloc sz s = Some (Inr (a, s')) \<and> bucket_ready s' (unat (IndexFromSize sz)) ps' fs' es'
        \<and> a = item_addr (k_buckets s ! unat (IndexFromSize sz)) p j
        \<and> (p, j) \<notin> live (k_heap s) (ps @ fs)
        \<and> live (k_heap s') (ps' @ fs') = insert (p, j) (live (k_heap s) (ps @ fs))
        \<and> unat p + 48 \<le> unat a \<and> unat a + unat sz \<le> unat p + 4096)"
proof -
  let ?i = "unat (IndexFromSize sz)"
  have ready: "bucket_ready (s\<lparr>k_buckets := (k_buckets s)[?i := b], k_heap := h\<rparr>) ?i ps' fs' es'"
    if "bucket_inv b h ps' fs' es'" "same_size (k_buckets s ! ?i) b" for b h ps' fs' es'
    using that assms(1) by (simp add: bucket_ready_def same_size_def)
  from kalloc_small_block [OF assms] show ?thesis
  proof (elim disjE exE conjE)
    fix p j b h ps' fs' es'
    let ?a = "item_addr (k_buckets s ! ?i) p j" and ?s = "s\<lparr>k_buckets := (k_buckets s)[?i := b], k_heap := h\<rparr>"
    assume a: "kalloc sz s = Some (Inr (?a, ?s))" "bucket_inv b h ps' fs' es'" "same_size (k_buckets s ! ?i) b"
      "(p, j) \<notin> live (k_heap s) (ps @ fs)" "live h (ps' @ fs') = insert (p, j) (live (k_heap s) (ps @ fs))"
      "unat p + 48 \<le> unat ?a" "unat ?a + unat sz \<le> unat p + 4096"
    moreover have "live (k_heap ?s) (ps' @ fs') = insert (p, j) (live (k_heap s) (ps @ fs))" using a(5) by simp
    moreover note ready [OF a(2,3)]
    ultimately show ?thesis by blast
  qed blast
qed

theorem kalloc_small_correct_witness:
  "\<exists>a s'. kalloc 60 empty_kalloc = Some (Inr (a, s')) \<and> 48 \<le> unat a"
proof -
  have r: "bucket_ready empty_kalloc (unat (IndexFromSize 60)) [0x8000] [] []"
    using empty_kalloc_ready by (simp only: size_60)
  obtain a s' and p :: addr where a: "kalloc 60 empty_kalloc = Some (Inr (a, s'))" "unat p + 48 \<le> unat a"
    using kalloc_small_correct [OF r] by auto
  from a(1) add_leD2 [OF a(2)] show ?thesis by blast
qed

text \<open>
  Freeing a block right after it was allocated returns normally and leaves the live
  blocks of its size class as they were before both calls.
\<close>

theorem kalloc_kfree_roundtrip:
  assumes "bucket_ready s (unat (IndexFromSize sz)) ps fs es" "0 < sz" "sz \<le> 1920"
    and "kalloc sz s = Some (Inr (a, s'))"
  shows "\<exists>s'' ps' fs' es'. kfree a s' = Some (Inr s'') \<and> bucket_ready s'' (unat (IndexFromSize sz)) ps' fs' es'
     \<and> live (k_heap s'') (ps' @ fs') = live (k_heap s) (ps @ fs)"
proof -
  let ?i = "unat (IndexFromSize sz)"
  obtain p j b h ps1 fs1 es1 where
    a: "a = item_addr (k_buckets s ! ?i) p j" "s' = s\<lparr>k_buckets := (k_buckets s)[?i := b], k_heap := h\<rparr>"
    "bucket_inv b h ps1 fs1 es1" "same_size (k_buckets s ! ?i) b" "(p, j) \<notin> live (k_heap s) (ps @ fs)"
    "live h (ps1 @ fs1) = insert (p, j) (live (k_heap s) (ps @ fs))"
    using kalloc_small_block [OF assms(1-3)] assms(4) by auto
  have i: "?i < length (k_buckets s)" using assms(1) by (simp add: bucket_ready_def)
  have rd: "bucket_ready s' ?i ps1 fs1 es1" and b: "k_buckets s' ! ?i = b"
    using assms(1) a(2-4) i by (simp_all add: bucket_ready_def same_size_def)
  have l: "(p, j) \<in> live (k_heap s') (ps1 @ fs1)" using a(2,6) by simp
  have ia: "item_addr b p j = a"
    using a(1,4) by (simp add: item_addr_def same_size_def)
  obtain b2 h2 ps2 fs2 es2 where
    f: "kfree a s' = Some (Inr (s'\<lparr>k_buckets := (k_buckets s')[?i := b2], k_heap := h2\<rparr>))"
    "bucket_inv b2 h2 ps2 fs2 es2" "same_size b b2" "live h2 (ps2 @ fs2) = live (k_heap s') (ps1 @ fs1) - {(p, j)}"
    using kfree_small_block [OF rd l, unfolded b ia] by blast
  let ?s = "s'\<lparr>k_buckets := (k_buckets s')[?i := b2], k_heap := h2\<rparr>"
  have "bucket_ready ?s ?i ps2 fs2 es2"
    using rd f(2,3) b by (simp add: bucket_ready_def same_size_def)
  moreover have "live (k_heap ?s) (ps2 @ fs2) = live (k_heap s) (ps @ fs)" using f(4) a(2,5,6) by simp
  ultimately show ?thesis using f(1) by blast
qed

theorem kalloc_kfree_roundtrip_witness:
  "\<exists>a s' s''. kalloc 60 empty_kalloc = Some (Inr (a, s')) \<and> kfree a s' = Some (Inr s'')"
proof -
  have r: "bucket_ready empty_kalloc (unat (IndexFromSize 60)) [0x8000] [] []"
    using empty_kalloc_ready by (simp only: size_60)
  obtain a s' where a: "kalloc 60 empty_kalloc = Some (Inr (a, s'))"
    using kalloc_small_block [OF r] by auto
  with kalloc_kfree_roundtrip [OF r _ _ a] show ?thesis by auto
qed

text \<open>
  C15: the requests kalloc does not serve: nothing for zero bytes; a panic before
  initialisation; null for 1921 to 2024 bytes, whose size class has no bucket; a panic above
  a page; and, because rounding up wraps, not a panic but a single page for the
  last 4095 sizes.
\<close>

theorem kalloc_edges:
  "kalloc 0 s = Some (Inr (0, s))
   \<and> (sz \<noteq> 0 \<and> \<not> canKallocNow s \<longrightarrow> kalloc sz s = Some (Inl (Panic ''kalloc(): Called before initialized!'')))
   \<and> (canKallocNow s \<and> 1920 < sz \<and> sz \<le> MAX_ITEM_SIZE \<longrightarrow> kalloc sz s = Some (Inr (0, s)))
   \<and> (canKallocNow s \<and> 4096 < sz \<and> sz \<le> 0xFFFFF000 \<longrightarrow>
        kalloc sz s = Some (Inl (Panic ''Request to kalloc() for more than a single page worth of memory!'')))
   \<and> (canKallocNow s \<and> 0xFFFFF000 < sz \<longrightarrow> kalloc sz s = kalloc_large 0 s)"
  using kalloc_no_bucket [of s sz] kalloc_too_large [of s sz] kalloc_wraps [of s sz]
  by (auto simp: kalloc_def)

theorem kalloc_edges_witness:
  "kalloc 2000 empty_kalloc = Some (Inr (0, empty_kalloc))
   \<and> kalloc 5000 empty_kalloc = Some (Inl (Panic ''Request to kalloc() for more than a single page worth of memory!''))"
  using kalloc_edges [of empty_kalloc 2000] kalloc_edges [of empty_kalloc 5000]
  by (simp add: empty_kalloc_def page_space)

end
