(* ===== verification/Shell.thy ===== *)
theory Shell
  imports Console Kalloc BootArgs
begin

text \<open>
  kernel/src/debug.cpp: the debug shell. It splits the command line into at most 16 words,
  looks the first one up in the table of commands and calls it. A string view into the line
  is a start and a length.
\<close>

subsection \<open>Splitting the command line\<close>

definition ARGS_SZ :: nat where "ARGS_SZ = 16"

definition DEBUG_CMD_SZ :: nat where "DEBUG_CMD_SZ = 512"

type_synonym sview = "nat \<times> nat"

definition is_space :: "u8 \<Rightarrow> bool" where "is_space c = isspace (scast c)"

function parse_words :: "u8 list \<Rightarrow> nat \<Rightarrow> nat \<Rightarrow> bool \<Rightarrow> sview list \<Rightarrow> sview list" where
  "parse_words cmd i start inArg args =
     (if i < DEBUG_CMD_SZ - 1 \<and> length args < ARGS_SZ \<and> cmd ! i \<noteq> 0 then
        if is_space (cmd ! i) then
          if inArg then parse_words cmd (i + 1) start False (args @ [(start, i - start)])
          else parse_words cmd (i + 1) start inArg args
        else parse_words cmd (i + 1) (if inArg then start else i) True args
      else if inArg then args @ [(start, i - start)] else args)"
  by pat_completeness auto
termination by (relation "measure (\<lambda>(_, i, _). DEBUG_CMD_SZ - 1 - i)") (auto simp: DEBUG_CMD_SZ_def)

declare parse_words.simps [simp del]

definition shell_parse :: "u8 list \<Rightarrow> sview list" where "shell_parse cmd = parse_words cmd 0 0 False []"

definition view_text :: "u8 list \<Rightarrow> sview \<Rightarrow> u8 list" where
  "view_text cmd v = take (snd v) (drop (fst v) cmd)"

text \<open>The words of a text: the maximal runs of characters that are not space.\<close>

function words :: "u8 list \<Rightarrow> u8 list list" where
  "words [] = []"
| "words (c # cs) =
     (if is_space c then words cs
      else takeWhile (\<lambda>c. \<not> is_space c) (c # cs) # words (dropWhile (\<lambda>c. \<not> is_space c) (c # cs)))"
  by pat_completeness auto
termination
  by (relation "measure length") (auto simp: less_Suc_eq_le length_dropWhile_le)

text \<open>What is still to come when a word has been started.\<close>

definition words_from :: "u8 list option \<Rightarrow> u8 list \<Rightarrow> u8 list list" where
  "words_from w cs = (case w of
     None \<Rightarrow> words cs
   | Some u \<Rightarrow> (u @ takeWhile (\<lambda>c. \<not> is_space c) cs) # words (dropWhile (\<lambda>c. \<not> is_space c) cs))"

lemma words_from_step:
  "words_from None [] = []" "words_from (Some u) [] = [u]"
  "is_space c \<Longrightarrow> words_from None (c # cs) = words_from None cs"
  "is_space c \<Longrightarrow> words_from (Some u) (c # cs) = u # words_from None cs"
  "\<not> is_space c \<Longrightarrow> words_from None (c # cs) = words_from (Some [c]) cs"
  "\<not> is_space c \<Longrightarrow> words_from (Some u) (c # cs) = words_from (Some (u @ [c])) cs"
  by (simp_all add: words_from_def)

text \<open>A command line: a text without NUL, its NUL, and what the buffer held before.\<close>

lemma parse_words_eq:
  assumes "cmd = txt @ 0 # junk" "0 \<notin> set txt" "length txt < DEBUG_CMD_SZ" "i \<le> length txt" "length args \<le> ARGS_SZ"
    and "inArg \<longrightarrow> start < i \<and> length args < ARGS_SZ"
  shows "map (view_text cmd) (parse_words cmd i start inArg args)
    = take ARGS_SZ (map (view_text cmd) args
        @ words_from (if inArg then Some (take (i - start) (drop start cmd)) else None) (drop i txt))"
  using assms(4-6)
proof (induction "length txt - i" arbitrary: i start inArg args)
  case 0
  then have i: "i = length txt" by simp
  then have "parse_words cmd i start inArg args = (if inArg then args @ [(start, i - start)] else args)"
    by (subst parse_words.simps) (simp add: assms(1))
  then show ?case using 0 i by (auto simp: words_from_step view_text_def)
next
  case (Suc d)
  then have i: "i < length txt" by simp
  define c where "c = txt ! i"
  have c: "cmd ! i = c" "c \<noteq> 0" using i assms(1,2) nth_mem [OF i] by (auto simp: c_def nth_append simp del: nth_mem)
  have dr: "drop i txt = c # drop (i + 1) txt" using i by (simp add: c_def Cons_nth_drop_Suc)
  have lt: "i < DEBUG_CMD_SZ - 1" using i assms(3) by simp
  have IH: "map (view_text cmd) (parse_words cmd (i + 1) start' inArg' args')
    = take ARGS_SZ (map (view_text cmd) args'
        @ words_from (if inArg' then Some (take (i + 1 - start') (drop start' cmd)) else None) (drop (i + 1) txt))"
    if "length args' \<le> ARGS_SZ" "inArg' \<longrightarrow> start' < i + 1 \<and> length args' < ARGS_SZ" for start' inArg' args'
    using Suc.hyps(1) [of "i + 1"] Suc.hyps(2) i that by simp
  show ?case
  proof (cases "length args < ARGS_SZ")
    case False
    then have "\<not> inArg" "length args = ARGS_SZ" using Suc.prems by auto
    moreover from this have "parse_words cmd i start inArg args = args" by (subst parse_words.simps) simp
    ultimately show ?thesis by simp
  next
    case args: True
    have step: "parse_words cmd i start inArg args =
      (if is_space c then if inArg then parse_words cmd (i + 1) start False (args @ [(start, i - start)])
          else parse_words cmd (i + 1) start inArg args
        else parse_words cmd (i + 1) (if inArg then start else i) True args)"
      using lt args c by (subst parse_words.simps) simp
    consider "is_space c" "inArg" | "is_space c" "\<not> inArg" | "\<not> is_space c" "inArg" | "\<not> is_space c" "\<not> inArg"
      by blast
    then show ?thesis
    proof cases
      case 1
      then show ?thesis
        using args IH [of "args @ [(start, i - start)]" False start] unfolding step dr
        by (simp add: words_from_step view_text_def take_Cons')
    next
      case 2
      then show ?thesis
        using args IH [of args False start] unfolding step dr by (simp add: words_from_step)
    next
      case 3
      have "take (i + 1 - start) (drop start cmd) = take (i - start) (drop start cmd) @ [c]"
      proof -
        have "start \<le> i" "i - start < length (drop start cmd)" using 3 Suc.prems i assms(1) by auto
        moreover from this have "drop start cmd ! (i - start) = c" using c(1) by simp
        ultimately show ?thesis
          using take_Suc_conv_app_nth [of "i - start" "drop start cmd"] by (simp add: Suc_diff_le)
      qed
      then show ?thesis
        using 3 args Suc.prems IH [of args True start] unfolding step dr by (simp add: words_from_step)
    next
      case 4
      have "take (i + 1 - i) (drop i cmd) = [c]"
        using i assms(1) by (simp add: take_Suc_conv_app_nth c_def)
      then show ?thesis using 4 args IH [of args True i] unfolding step dr by (simp add: words_from_step)
    qed
  qed
qed

text \<open>
  C26: the arguments the shell passes to a command are the first 16 words of the line, in order.
\<close>

theorem shell_parse_words:
  assumes "cmd = txt @ 0 # junk" "0 \<notin> set txt" "length txt < DEBUG_CMD_SZ"
  shows "map (view_text cmd) (shell_parse cmd) = take ARGS_SZ (words txt)"
  using parse_words_eq [OF assms, of 0 "[]" False 0]
  by (simp add: shell_parse_def words_from_def ARGS_SZ_def)

theorem shell_parse_words_witness:
  "map (view_text [32, 97, 98, 32, 99, 0, 7]) (shell_parse [32, 97, 98, 32, 99, 0, 7]) = [[97, 98], [99]]"
proof -
  have "words [32, 97, 98, 32, 99] = [[97, 98], [99]]"
    by (simp add: is_space_def isspace_def isblank_def)
  then show ?thesis
    using shell_parse_words [of "[32, 97, 98, 32, 99, 0, 7]" "[32, 97, 98, 32, 99]" "[7]"]
    by (simp add: DEBUG_CMD_SZ_def ARGS_SZ_def)
qed

subsection \<open>Dispatching a command\<close>

text \<open>basic_string_view::compare against the bytes of a literal.\<close>

fun first_diff :: "u8 list \<Rightarrow> u8 list \<Rightarrow> int32" where
  "first_diff (a # as) (b # bs) = (if a \<noteq> b then ucast a - ucast b else first_diff as bs)"
| "first_diff _ _ = 0"

definition view_compare :: "u8 list \<Rightarrow> u8 list \<Rightarrow> int32" where
  "view_compare a b = (let cmp = first_diff a b in if cmp \<noteq> 0 then cmp else of_nat (length a) - of_nat (length b))"

datatype command = DumpCommand | MemInfoCommand | VarsCommand | FaultCommand | TestAllocCommand | DumpPTable

definition s_commands :: "(u8 list \<times> command) list" where
  "s_commands =
     [([100, 117, 109, 112], DumpCommand),
      ([109, 101, 109, 105, 110, 102, 111], MemInfoCommand),
      ([118, 97, 114, 115], VarsCommand),
      ([102, 97, 117, 108, 116], FaultCommand),
      ([116, 101, 115, 116, 97], TestAllocCommand),
      ([112, 116, 97, 98, 108, 101], DumpPTable)]"

fun find_command :: "(u8 list \<times> command) list \<Rightarrow> u8 list \<Rightarrow> command option" where
  "find_command [] arg = None"
| "find_command ((name, c) # cs) arg = (if view_compare arg name = 0 then Some c else find_command cs arg)"

text \<open>Nothing to do, an unknown command, or the command to call.\<close>

datatype action = NoCommand | Unknown | Call command

definition dispatch :: "u8 list list \<Rightarrow> action" where
  "dispatch args =
     (if args = [] then NoCommand
      else case find_command s_commands (hd args) of None \<Rightarrow> Unknown | Some c \<Rightarrow> Call c)"

lemma first_diff_zero: "first_diff a b = 0 \<longleftrightarrow> take (min (length a) (length b)) a = take (min (length a) (length b)) b"
proof (induction a b rule: first_diff.induct)
  case (1 a as b bs)
  have "ucast a - ucast b = (0 :: int32) \<longleftrightarrow> a = b"
    by (simp add: word_unat_eq_iff [of "ucast _"] unat_ucast_le) (simp add: word_unat_eq_iff)
  with 1 show ?case by auto
qed simp_all

text \<open>Two texts compare equal exactly when they are the same.\<close>

lemma view_compare_zero:
  assumes "length a < 2 ^ 32" "length b < 2 ^ 32"
  shows "view_compare a b = 0 \<longleftrightarrow> a = b"
proof
  assume v: "view_compare a b = 0"
  then have f: "first_diff a b = 0" by (auto simp: view_compare_def Let_def split: if_splits)
  then have "of_nat (length a) = (of_nat (length b) :: int32)" using v by (simp add: view_compare_def)
  then have "unat (of_nat (length a) :: int32) = unat (of_nat (length b) :: int32)" by simp
  then have l: "length a = length b" using assms by (simp add: unat_of_nat_len)
  with f show "a = b" by (simp add: first_diff_zero)
next
  assume "a = b"
  then show "view_compare a b = 0" by (simp add: view_compare_def first_diff_zero)
qed

lemma find_command_eq:
  assumes "length arg < 2 ^ 32" "\<forall>(name, c)\<in>set cs. length name < 2 ^ 32"
  shows "find_command cs arg = map_of cs arg"
  using assms(2) by (induction cs) (auto simp: view_compare_zero [OF assms(1)])

text \<open>
  The shell calls the command whose name is exactly the first word, says so when there is
  none, and does nothing for a line without words.
\<close>

theorem dispatch_exact:
  assumes "\<forall>a\<in>set args. length a < DEBUG_CMD_SZ"
  shows "dispatch args = (case args of [] \<Rightarrow> NoCommand
    | a # _ \<Rightarrow> (case map_of s_commands a of None \<Rightarrow> Unknown | Some c \<Rightarrow> Call c))"
proof (cases args)
  case (Cons a as)
  have "length a < 2 ^ 32" using assms Cons by (simp add: DEBUG_CMD_SZ_def)
  then have "find_command s_commands a = map_of s_commands a"
    by (rule find_command_eq) (simp add: s_commands_def)
  with Cons show ?thesis by (simp add: dispatch_def)
qed (simp add: dispatch_def)

theorem dispatch_exact_witness: "dispatch [[118, 97, 114, 115]] = Call VarsCommand"
  using dispatch_exact [of "[[118, 97, 114, 115]]"] by (simp add: DEBUG_CMD_SZ_def s_commands_def)

subsection \<open>Commands\<close>

definition lit :: "string \<Rightarrow> u8 list" where "lit cs = map char_byte cs"

definition CRLF :: "u8 list" where "CRLF = [13, 10]"

text \<open>The expressions of the << operators, one after the other.\<close>

fun puts :: "(con \<Rightarrow> con outcome) list \<Rightarrow> con \<Rightarrow> con outcome" where
  "puts [] s = Some (Inr s)"
| "puts (f # fs) s = bindo (f s) (puts fs)"

definition out_str :: "u8 list \<Rightarrow> con \<Rightarrow> con outcome" where "out_str = con_putstr"

definition out_size :: "size32 \<Rightarrow> con \<Rightarrow> con outcome" where
  "out_size n = putuint (ucast n) 10 0"

definition vars_command :: "argument_data \<Rightarrow> con \<Rightarrow> con outcome" where
  "vars_command d =
     puts [out_str (lit ''kernel_start: 0x''), put_ptr (Base (kernel_range d)), out_str (lit '' aligned: ''),
           put_ptr (base_aligned (kernel_range d)), out_str CRLF,
           out_str (lit ''kernel_end: 0x''), put_ptr (range_end (kernel_range d)), out_str (lit '' aligned: ''),
           put_ptr (end_aligned (kernel_range d)), out_str CRLF,
           out_str (lit ''heap_start: 0x''), put_ptr (base_aligned (heap_virtual d)), out_str CRLF,
           out_str (lit ''heap_length: ''), out_size (Length (heap_virtual d)), out_str (lit '' bytes''), out_str CRLF]"

text \<open>
  The loop of the memory dump: buf is the column of printable characters with its NUL, md the
  last column written. Reading an address that is not mapped is a page fault.
\<close>

definition c_text :: "u8 list \<Rightarrow> u8 list" where "c_text buf = takeWhile (\<lambda>c. c \<noteq> 0) buf"

definition dump_char :: "u8 \<Rightarrow> u8" where "dump_char v = (if v \<ge> 32 \<and> v < 127 then v else 46)"

function dump_loop ::
    "(addr \<Rightarrow> u8 option) \<Rightarrow> addr \<Rightarrow> size32 \<Rightarrow> size32 \<Rightarrow> u8 list \<Rightarrow> nat \<Rightarrow> con \<Rightarrow> (u8 list \<times> nat \<times> con) outcome" where
  "dump_loop m start len i buf md s =
     (if i < len then
        let md = unat (i AND 15)
        in bindo (if md = 0
                  then bindo (if i > 0 then puts [out_str (lit ''| ''), out_str (c_text buf), out_str CRLF] s
                              else Some (Inr s))
                         (puts [put_ptr (start + i), out_str (lit '' | '')])
                  else if md = 8 then out_str (lit ''- '') s
                  else Some (Inr s))
             (\<lambda>s. case m (start + i) of None \<Rightarrow> Some (Inl (PageFault (start + i))) | Some val \<Rightarrow>
               bindo (puts [put_hex (ucast val) (- 2), out_str (lit '' '')] s)
                 (dump_loop m start len (i + 1) (buf[md := dump_char val]) md))
      else Some (Inr (buf, md, s)))"
  by pat_completeness auto
termination by (relation "measure (\<lambda>(_, _, len, i, _). unat len - unat i)") (auto intro: loop_up)

declare dump_loop.simps [simp del]

definition dump_command :: "u8 list list \<Rightarrow> (addr \<Rightarrow> u8 option) \<Rightarrow> u8 list \<Rightarrow> con \<Rightarrow> con outcome" where
  "dump_command args m buf0 s =
     (if length args < 3 then
        puts [out_str (lit ''Not enough arguments.''), out_str CRLF, out_str (lit ''dump <start> <count>''), out_str CRLF] s
      else case parse_int (args ! 1) of
        Inl e \<Rightarrow> puts [out_str (lit ''Invalid start: ''), out_str (args ! 1), out_str CRLF] s
      | Inr start \<Rightarrow>
          (case parse_int (args ! 2) of
             Inl e \<Rightarrow> puts [out_str (lit ''Invalid length: ''), out_str (args ! 2), out_str CRLF] s
           | Inr len \<Rightarrow>
               if len = 0 then puts [out_str (lit ''Invalid length: ''), out_str (args ! 2), out_str CRLF] s
               else bindo (puts [out_str (lit ''Memory Dump 0x''), put_ptr start, out_str (lit ''-0x''),
                                 put_ptr (start + len - 1), out_str CRLF] (snd (set_paged True s)))
                 (\<lambda>s. bindo (dump_loop m start len 0 (buf0[16 := 0]) 0 s)
                 (\<lambda>(buf, md, s). bindo
                   (if md \<noteq> 0 then puts [out_str (lit ''| ''), out_str (c_text (buf[md + 1 := 0])), out_str CRLF] s
                    else Some (Inr s))
                 (\<lambda>s. Some (Inr (snd (set_paged False s))))))))"

definition FREED_MSG :: "u8 list" where
  "FREED_MSG = lit (''  freed?  Maybe?  Let'' @ [CHR 0x27] @ ''s hope!'')"

definition test_alloc_command :: "u8 list list \<Rightarrow> kalloc_state \<Rightarrow> con \<Rightarrow> (kalloc_state \<times> con) outcome" where
  "test_alloc_command args k s =
     (if length args < 2 then
        bindo (puts [out_str (lit ''Not enough arguments.''), out_str CRLF, out_str (lit ''testa <size>''), out_str CRLF] s)
          (\<lambda>s. Some (Inr (k, s)))
      else case parse_int (args ! 1) of
        Inl e \<Rightarrow> bindo (puts [out_str (lit ''Invalid length: ''), out_str (args ! 1), out_str CRLF] s)
          (\<lambda>s. Some (Inr (k, s)))
      | Inr sz \<Rightarrow>
          if sz = 0 then bindo (puts [out_str (lit ''Cannot allocate less than 1 byte!''), out_str CRLF] s)
            (\<lambda>s. Some (Inr (k, s)))
          else if sz \<ge> PageSize then
            bindo (puts [out_str (lit ''Cannot allocate more than ''), out_size PageSize, out_str (lit '' bytes!''),
                         out_str CRLF] s) (\<lambda>s. Some (Inr (k, s)))
          else bindo (puts [out_str (lit ''Attempting to allocate ''), out_size sz, out_str (lit '' bytes.'')] s) (\<lambda>s.
               bindo (kalloc sz k) (\<lambda>(p, k).
               bindo (puts [out_str CRLF, out_str (lit ''Got pointer: ''), put_ptr p, out_str CRLF,
                            out_str (lit ''Freeing...'')] s) (\<lambda>s.
               bindo (kfree p k) (\<lambda>k.
               bindo (puts [out_str FREED_MSG, out_str CRLF] s) (\<lambda>s.
                 Some (Inr (k, s))))))))"

text \<open>An unpaged console accepts any text, and every number in the formats the shell uses.\<close>

lemma putstr_unpaged:
  "\<not> m_paged s \<Longrightarrow> con_putstr cs s = Some (Inr (s\<lparr>tty_out := tty_out s @ cs\<rparr>))"
  by (induction cs arbitrary: s) (auto simp: con_putchar_def tty_put_def pause_check_def Let_def)

definition prints :: "(con \<Rightarrow> con outcome) \<Rightarrow> bool" where
  "prints f \<longleftrightarrow> (\<forall>s. \<not> m_paged s \<longrightarrow> (\<exists>s'. f s = Some (Inr s') \<and> \<not> m_paged s'))"

lemma prints_str: "prints (out_str cs)"
  by (simp add: prints_def out_str_def putstr_unpaged)

lemma prints_uint:
  "5 \<le> unat (scast radix :: u64) \<Longrightarrow> unat (scast radix :: u64) \<le> 36 \<Longrightarrow> width_of width \<le> 31
    \<Longrightarrow> prints (putuint val radix width)"
  by (simp add: prints_def putuint_def format_uint_eq putstr_unpaged)

lemma prints_numbers: "prints (out_size n)" "prints (put_ptr p)"
proof -
  show "prints (out_size n)" unfolding out_size_def by (rule prints_uint) (simp_all add: width_of_def word_sless_alt)
  have "prints (put_hex (ucast p) (- 8))"
    unfolding put_hex_def by (rule prints_uint) (simp_all add: width_of_def word_sless_alt)
  then show "prints (put_ptr p)" by (simp add: prints_def put_ptr_def)
qed

lemma prints_puts: "(\<And>f. f \<in> set fs \<Longrightarrow> prints f) \<Longrightarrow> prints (puts fs)"
proof (induction fs)
  case (Cons f fs)
  then have "prints f" "prints (puts fs)" by auto
  then show ?case by (force simp: prints_def)
qed (simp add: prints_def)

text \<open>
  The testa command allocates the size it is given and frees it again: for a size of 1 to
  1920 bytes, unless memory is exhausted, it returns and leaves the live blocks of that size
  class as they were.
\<close>

theorem test_alloc_frees:
  assumes "bucket_ready k (unat (IndexFromSize sz)) ps fs es" "0 < sz" "sz \<le> 1920"
    and "parse_int a = Inr sz" "\<not> m_paged s" "pa_free_set (pages (k_heap k)) \<noteq> {}"
  shows "\<exists>k' s' ps' fs' es'. test_alloc_command [cmd, a] k s = Some (Inr (k', s'))
     \<and> bucket_ready k' (unat (IndexFromSize sz)) ps' fs' es'
     \<and> live (k_heap k') (ps' @ fs') = live (k_heap k) (ps @ fs)"
proof -
  let ?i = "unat (IndexFromSize sz)"
  have pr: "\<exists>s2. puts fs s1 = Some (Inr s2) \<and> \<not> m_paged s2"
    if "\<not> m_paged s1" "list_all prints fs" for s1 fs
    using that prints_puts [of fs] unfolding prints_def list_all_iff by blast
  let ?ask = "[out_str (lit ''Attempting to allocate ''), out_size sz, out_str (lit '' bytes.'')]"
  note P = prints_str prints_numbers
  have page: "\<not> PageSize \<le> sz" using assms(3) by (simp add: PageSize_def word_le_nat_alt)
  obtain s1 where s1: "puts ?ask s = Some (Inr s1)" "\<not> m_paged s1"
    using pr [OF assms(5), of ?ask] P by (auto simp del: puts.simps)
  obtain p j b h ps1 fs1 es1 where a: "kalloc sz k = Some (Inr (item_addr (k_buckets k ! ?i) p j,
      k\<lparr>k_buckets := (k_buckets k)[?i := b], k_heap := h\<rparr>))"
    "bucket_inv b h ps1 fs1 es1" "same_size (k_buckets k ! ?i) b" "(p, j) \<notin> live (k_heap k) (ps @ fs)"
    "live h (ps1 @ fs1) = insert (p, j) (live (k_heap k) (ps @ fs))"
    using kalloc_small_block [OF assms(1-3)] assms(6) by blast
  let ?a = "item_addr (k_buckets k ! ?i) p j" and ?k = "k\<lparr>k_buckets := (k_buckets k)[?i := b], k_heap := h\<rparr>"
  have i: "?i < length (k_buckets k)" using assms(1) by (simp add: bucket_ready_def)
  have rd: "bucket_ready ?k ?i ps1 fs1 es1" and b: "k_buckets ?k ! ?i = b" "item_addr b p j = ?a"
    using assms(1) a(2,3) i by (simp_all add: bucket_ready_def same_size_def item_addr_def)
  have l: "(p, j) \<in> live (k_heap ?k) (ps1 @ fs1)" using a(5) by simp
  obtain b2 h2 ps2 fs2 es2 where f: "kfree ?a ?k = Some (Inr (?k\<lparr>k_buckets := (k_buckets ?k)[?i := b2], k_heap := h2\<rparr>))"
    "bucket_inv b2 h2 ps2 fs2 es2" "same_size b b2" "live h2 (ps2 @ fs2) = live (k_heap ?k) (ps1 @ fs1) - {(p, j)}"
    using kfree_small_block [OF rd l, unfolded b] by blast
  let ?k2 = "?k\<lparr>k_buckets := (k_buckets ?k)[?i := b2], k_heap := h2\<rparr>"
  let ?got = "[out_str CRLF, out_str (lit ''Got pointer: ''), put_ptr ?a, out_str CRLF, out_str (lit ''Freeing...'')]"
  let ?bye = "[out_str FREED_MSG, out_str CRLF]"
  obtain s2 where s2: "puts ?got s1 = Some (Inr s2)" "\<not> m_paged s2"
    using pr [OF s1(2), of ?got] P by (auto simp del: puts.simps)
  obtain s3 where s3: "puts ?bye s2 = Some (Inr s3)"
    using pr [OF s2(2), of ?bye] P by (auto simp del: puts.simps)
  have sz0: "sz \<noteq> 0" using assms(2) by auto
  have "test_alloc_command [cmd, a] k s = Some (Inr (?k2, s3))"
    using page sz0 unfolding test_alloc_command_def
    by (simp add: assms(4) s1(1) a(1) s2(1) f(1) s3 del: puts.simps)
  moreover have "bucket_ready ?k2 ?i ps2 fs2 es2" using rd f(2,3) b i by (simp add: bucket_ready_def same_size_def)
  moreover have "live (k_heap ?k2) (ps2 @ fs2) = live (k_heap k) (ps @ fs)" using f(4) a(4,5) by simp
  ultimately show ?thesis by blast
qed

definition sample_con :: con where
  "sample_con = \<lparr>m_paged = False, m_lineCount = 0, tty_out = [], tty_in = []\<rparr>"

theorem test_alloc_frees_witness:
  "\<exists>k' s'. test_alloc_command [lit ''testa'', [54, 48]] empty_kalloc sample_con = Some (Inr (k', s'))"
proof -
  have r: "bucket_ready empty_kalloc (unat (IndexFromSize 60)) [0x8000] [] []"
    using empty_kalloc_ready by (simp only: size_60)
  have p: "parse_int [54, 48] = Inr 60"
    using parse_decimal [of 60 False]
    by (simp add: digit_bytes_def num_digits.simps digit_char_def)
  have f: "pa_free_set (pages (k_heap empty_kalloc)) \<noteq> {}"
    using cached_free [OF two_pages_cached] by (simp add: empty_kalloc_def sample_heap_def two_pages_def)
  show ?thesis
    using test_alloc_frees [OF r _ _ p _ f, of sample_con "lit ''testa''"] by (auto simp: sample_con_def)
qed

end
