(* ===== verification/Vm.thy ===== *)
theory Vm
  imports Knockout PageAlloc Shell
begin

text \<open>
  kernel/src/vm/vm.cpp: the start of memory management, which takes the kernel out of the
  memory map and builds the page allocator from the rest, and the command that reports on memory.
\<close>

subsection \<open>Definitions\<close>

text \<open>
  vmm::Init; the second argument is what the link words of the pages hold before. The list of
  available memory printed at its end changes no state but the console's.
\<close>

definition vmm_init :: "arguments \<Rightarrow> (addr \<Rightarrow> addr) \<Rightarrow> (arguments \<times> page_allocator) outcome" where
  "vmm_init args mem =
     bindo (Some (knockout_used_memory (args_data args))) (\<lambda>d.
     bindo (pa_construct d mem) (\<lambda>page_allocator.
       Some (Inr (args\<lparr>args_data := d, canAllocPages := True\<rparr>, page_allocator))))"

text \<open>The loop over MemoryMap() and the rest of MemInfoCommand.\<close>

fun show_mappings :: "mapping list \<Rightarrow> con \<Rightarrow> con outcome" where
  "show_mappings [] s = Some (Inr s)"
| "show_mappings (m # ms) s =
     bindo (puts [out_str (lit ''    0x''), put_hex (ucast (Start m)) (- 8), out_str (lit '' 0x''),
                  put_hex (ucast (MapLength m)) (- 8), out_str CRLF] s) (show_mappings ms)"

definition mem_info_command ::
    "argument_data \<Rightarrow> page_allocator \<Rightarrow> size32 \<Rightarrow> con \<Rightarrow> (page_allocator \<times> con) outcome" where
  "mem_info_command d pa kallocAllocatedPages s =
     bindo (puts [out_str (lit ''Boot Memory'' @ CRLF @ lit ''    Start      Length'' @ CRLF)] s) (\<lambda>s.
     bindo (show_mappings (entries d) s) (\<lambda>s.
     case pa_free_pages pa of
       None \<Rightarrow> None
     | Some (freePageCount, pa) \<Rightarrow>
         let freemem = (freePageCount * PageSize) div 1024
         in bindo (puts [out_str (CRLF @ lit ''Free Pages: ''), putint (scast freePageCount),
                         out_str (CRLF @ lit ''Free Memory: ''), out_size freemem,
                         out_str (lit '' KB'' @ CRLF), out_str (CRLF @ lit ''kalloc stats'' @ CRLF
                           @ lit ''  pages allocated: ''), out_size kallocAllocatedPages, out_str CRLF] s)
              (\<lambda>s. Some (Inr (pa, s)))))"

subsection \<open>What the start leaves free\<close>

lemma sort_maps_ok:
  assumes "table_ok d" "\<forall>m\<in>set (entries d). entry_ok m" "disjoint_maps (entries d)"
    and "sort_mappings d = Inr d1"
  shows "maps_ok d1 \<and> rest_ok 0 d1 \<and> knock_pre (entries d1) \<and> same_frame d d1
    \<and> MemoryMapCount d1 = MemoryMapCount d \<and> map_addrs (entries d1) = map_addrs (entries d)"
proof -
  have d1: "table_ok d1" "same_frame d d1" "MemoryMapCount d1 = MemoryMapCount d"
    "mset (entries d1) = mset (entries d)" "sorted (map Start (entries d1))"
    using sort_mappings_correct [OF assms(1)] assms(4) by auto
  have ok: "\<forall>m\<in>set (entries d1). entry_ok m" using assms(2) mset_eq_setD [OF d1(4)] by simp
  have dj: "disjoint_maps (entries d1)" using assms(3) disjoint_maps_mset [OF d1(4)] by simp
  have "rest_ok 0 d1"
    unfolding rest_ok_def
  proof (intro allI impI)
    fix j assume "0 \<le> j \<and> j < MemoryMapCount d1"
    then have "MemoryMap d1 ! j = entries d1 ! j" "j < length (entries d1)"
      using d1(1) entries_nth length_entries by auto
    then show "entry_ok (MemoryMap d1 ! j)" using ok by simp
  qed
  then show ?thesis
    using d1 ok dj map_addrs_mset [OF d1(4)] by (simp add: maps_ok_def knock_pre_def entry_ok_def)
qed

lemma remove_dead_maps_ok:
  assumes "maps_ok d" "remove_dead_mappings d = Inr d'"
  shows "maps_ok d' \<and> same_frame d d' \<and> map_addrs (entries d') = map_addrs (entries d)"
proof -
  have t: "table_ok d" using assms(1) by (simp add: maps_ok_def)
  have d': "table_ok d'" "same_frame d d'" "entries d' = filter (\<lambda>m. MapLength m > 0) (entries d)"
    using remove_dead_correct [OF t] assms(2) by auto
  have "map_addrs (entries d') = map_addrs (entries d)"
    by (auto simp: d'(3) map_addrs_def range_addrs_def word_gt_0)
  with d' assms(1) show ?thesis by (simp add: maps_ok_def disjoint_maps_filter)
qed

text \<open>The knockout as the page allocator needs it.\<close>

lemma knockout_ok:
  assumes "table_ok d" "MemoryMapCount d + 1 < MaxMemoryEntries"
    and "\<forall>m\<in>set (entries d). entry_ok m" "disjoint_maps (entries d)"
    and "base_aligned (kernel_range d) \<le> end_aligned (kernel_range d)"
  shows "\<exists>d'. knockout_used_memory d = Inr d' \<and> maps_ok d' \<and> same_frame d d'
     \<and> map_addrs (entries d') = map_addrs (entries d)
         - kernel_span (base_aligned (kernel_range d)) (end_aligned (kernel_range d))"
proof -
  let ?ks = "base_aligned (kernel_range d)" and ?ke = "end_aligned (kernel_range d)"
  obtain d1 where d1: "sort_mappings d = Inr d1" using sort_mappings_correct [OF assms(1)] by blast
  note s = sort_maps_ok [OF assms(1,3,4) d1]
  have t1: "table_ok d1" using s by (simp add: maps_ok_def)
  obtain d2 where d2: "knockout_loop ?ks ?ke 0 d1 = Inr d2" "same_frame d1 d2"
    "map_addrs (entries d2) = map_addrs (entries d1) - kernel_span ?ks ?ke"
    using knockout_loop_correct [OF t1 _ assms(5), of "[]" "entries d1" 0] s assms(2) by auto
  have m2: "maps_ok d2" using knockout_loop_maps_ok [OF _ _ assms(5) d2(1)] s by blast
  then obtain d3 where d3: "remove_dead_mappings d2 = Inr d3"
    using remove_dead_correct [of d2] by (auto simp: maps_ok_def)
  have "knockout_used_memory d = Inr d3" using d1 d2(1) d3 by (simp add: knockout_used_memory_def)
  then show ?thesis
    using remove_dead_maps_ok [OF m2 d3] s d2 by (auto intro: same_frame_trans)
qed

text \<open>The constructor on mappings in any order.\<close>

lemma pa_construct_sub:
  assumes "maps_ok d" "he = unat (range_end (heap_physical d))" "he \<le> 4194304" "0 < he"
  shows "pa_construct d mem = Some (Inl (Panic ''Unable to allocate any boot pages''))
     \<or> (\<exists>s. pa_construct d mem = Some (Inr s) \<and> pa_inv s \<and> pa_free_set s \<noteq> {}
          \<and> unat ` pa_free_set s \<subseteq> boot_page_set he (entries d))"
proof -
  let ?init = "\<lparr>pa_lock = lock_init, pa_pages = 0, pa_total = 0, pa_avail = 0,
             pa_cache = 0, pa_cache_count = 0, node_next = mem\<rparr>"
  have c0: "cached (allocate_nodes d (?init\<lparr>pa_lock := 1\<rparr>)) []"
    by (simp add: cached_def allocate_nodes_def)
  obtain s ys where s: "add_boot_pages (range_end (heap_physical d)) (entries d)
      (allocate_nodes d (?init\<lparr>pa_lock := 1\<rparr>)) = Some s" "cached s ys"
      "unat ` set ys \<subseteq> boot_page_set he (entries d)"
    using add_boot_pages_sub [OF _ _ _ _ c0, of "entries d" "range_end (heap_physical d)"] assms
    by (auto simp: maps_ok_def)
  let ?s = "s\<lparr>pa_lock := 0\<rparr>"
  have i: "init_boot_pages d ?init = Some ?s"
    using s(1) by (simp add: init_boot_pages_def unlocked lock_init_def)
  have f: "pa_free_set ?s = set ys" using s(2) cached_free [of ?s ys] by simp
  show ?thesis
  proof (cases "pa_cache_count s = 0")
    case True
    with i show ?thesis by (simp add: pa_construct_def)
  next
    case False
    then have "ys \<noteq> []" using s(2) by (auto simp: cached_def)
    with False i f s show ?thesis by (auto simp: pa_construct_def pa_inv_def)
  qed
qed

lemma boot_page_set_mem:
  "a \<in> boot_page_set he ms \<Longrightarrow> a \<in> map_addrs ms \<and> he \<le> a \<and> a < 4194304"
  by (force simp: boot_page_set_def pages_from_def map_addrs_def range_addrs_def)

lemma same_frame_ranges:
  "same_frame d d' \<Longrightarrow> heap_physical d' = heap_physical d \<and> kernel_range d' = kernel_range d"
  using same_frame_fields [of d d'] by (simp add: heap_physical_def kernel_range_def)


definition vm_args :: "mapping list \<Rightarrow> argument_data" where
  "vm_args ms = sample_args\<lparr>KernelStart := 0x301000, KernelEnd := 0x301FFF, HeapStart := 0x302000,
     HeapNext := 0x303000, MemoryMapCount := length ms,
     MemoryMap := ms @ replicate (MaxMemoryEntries - length ms) \<lparr>Start = 0, MapLength = 0, Type = Invalid\<rparr>\<rparr>"

lemma vm_args_entries: "length ms \<le> MaxMemoryEntries \<Longrightarrow> entries (vm_args ms) = ms \<and> table_ok (vm_args ms)"
  by (simp add: vm_args_def entries_def table_ok_def)

lemma vm_args_ranges:
  "base_aligned (kernel_range (vm_args ms)) = 0x301000" "end_aligned (kernel_range (vm_args ms)) = 0x301FFF"
  "range_end (heap_physical (vm_args ms)) = 0x303000"
  by (simp_all add: vm_args_def kernel_range_def heap_physical_def from_addresses_def base_aligned_def
        end_aligned_def range_end_def align_floor_def align_ceiling_def)

definition one_map :: "mapping list" where
  "one_map = [\<lparr>Start = 0x300000, MapLength = 0x6000, Type = Available\<rparr>]"

definition two_maps :: "mapping list" where
  "two_maps = [\<lparr>Start = 0x300000, MapLength = 0x6000, Type = Available\<rparr>,
     \<lparr>Start = 0x400000, MapLength = 0x6000, Type = Available\<rparr>]"

lemmas construct_unfold = pa_construct_def init_boot_pages_def add_mapping_pages.simps IdentityMark_def
  PageSize_def push_bit_eq_mult add_page_to_cache_def allocate_nodes_def

lemma knockout_one: "\<exists>d. knockout_used_memory (vm_args one_map) = Inr d \<and> same_frame (vm_args one_map) d \<and> entries d =
   [\<lparr>Start = 0x300000, MapLength = 0x1000, Type = Available\<rparr>,
    \<lparr>Start = 0x302000, MapLength = 0x4000, Type = Invalid\<rparr>]"
proof -
  have "case knockout_used_memory (vm_args one_map) of Inr d \<Rightarrow> same_frame (vm_args one_map) d \<and> entries d =
     [\<lparr>Start = 0x300000, MapLength = 0x1000, Type = Available\<rparr>,
      \<lparr>Start = 0x302000, MapLength = 0x4000, Type = Invalid\<rparr>] | _ \<Rightarrow> False"
    by code_simp
  then show ?thesis by (auto split: sum.splits)
qed

lemma knockout_two: "\<exists>d. knockout_used_memory (vm_args two_maps) = Inr d \<and> same_frame (vm_args two_maps) d \<and> entries d =
   [\<lparr>Start = 0x300000, MapLength = 0x1000, Type = Available\<rparr>,
    \<lparr>Start = 0x400000, MapLength = 0x6000, Type = Available\<rparr>,
    \<lparr>Start = 0x302000, MapLength = 0x4000, Type = Invalid\<rparr>]"
proof -
  have "case knockout_used_memory (vm_args two_maps) of Inr d \<Rightarrow> same_frame (vm_args two_maps) d \<and> entries d =
     [\<lparr>Start = 0x300000, MapLength = 0x1000, Type = Available\<rparr>,
      \<lparr>Start = 0x400000, MapLength = 0x6000, Type = Available\<rparr>,
      \<lparr>Start = 0x302000, MapLength = 0x4000, Type = Invalid\<rparr>] | _ \<Rightarrow> False"
    by code_simp
  then show ?thesis by (auto split: sum.splits)
qed

lemma one_map_succeeds: "\<exists>args' pa. vmm_init (args_init (vm_args one_map)) mem = Some (Inr (args', pa))"
proof -
  obtain d where d: "knockout_used_memory (vm_args one_map) = Inr d" "same_frame (vm_args one_map) d" "entries d =
   [\<lparr>Start = 0x300000, MapLength = 0x1000, Type = Available\<rparr>,
    \<lparr>Start = 0x302000, MapLength = 0x4000, Type = Invalid\<rparr>]" using knockout_one by blast
  have h: "range_end (heap_physical d) = 0x303000" using d(2) same_frame_ranges vm_args_ranges by simp
  have "\<exists>s. pa_construct d mem = Some (Inr s)"
    by (simp add: construct_unfold h d(3) unlocked lock_init_def)
  then show ?thesis using d(1) by (auto simp: vmm_init_def args_init_def)
qed


text \<open>
  The knockout appends the memory above a split mapping to the end of the table without
  sorting it again, and the page allocator stops at the first address past 4 MB: with another
  mapping that starts at 4 MB the memory above the kernel is never reached, and the start
  panics although three pages between the heap and 4 MB are free.
\<close>

lemma two_maps_fails:
  "vmm_init (args_init (vm_args two_maps)) mem = Some (Inl (Panic ''Unable to allocate any boot pages''))"
proof -
  obtain d where d: "knockout_used_memory (vm_args two_maps) = Inr d" "same_frame (vm_args two_maps) d" "entries d =
   [\<lparr>Start = 0x300000, MapLength = 0x1000, Type = Available\<rparr>,
    \<lparr>Start = 0x400000, MapLength = 0x6000, Type = Available\<rparr>,
    \<lparr>Start = 0x302000, MapLength = 0x4000, Type = Invalid\<rparr>]" using knockout_two by blast
  have h: "range_end (heap_physical d) = 0x303000" using d(2) same_frame_ranges vm_args_ranges by simp
  have "pa_construct d mem = Some (Inl (Panic ''Unable to allocate any boot pages''))"
    by (simp add: construct_unfold h d(3) unlocked lock_init_def)
  then show ?thesis using d(1) by (auto simp: vmm_init_def args_init_def)
qed

end
