(* ===== verification/Heap.thy ===== *)
theory Heap
  imports Kalloc
begin

text \<open>
  The kernel heap as a whole: all 29 buckets on one set of pages, and the records of the large
  blocks, which live in items of the smallest bucket. The invariant says that no page belongs
  to two of them; the blocks handed out to callers are the abstract state that kalloc and kfree
  refine.
\<close>

subsection \<open>The buckets side by side\<close>

text \<open>What the lists of the allocator hold, by size class and by hash of the page address.\<close>

record layout =
  ly_partial :: "nat \<Rightarrow> addr list"
  ly_full :: "nat \<Rightarrow> addr list"
  ly_empty :: "nat \<Rightarrow> addr list"
  ly_large :: "nat \<Rightarrow> addr list"
  ly_spare :: "addr list"

definition own :: "layout \<Rightarrow> nat \<Rightarrow> addr set" where
  "own Y i = set (ly_partial Y i @ ly_full Y i @ ly_empty Y i)"

definition class_ok :: "bucket list \<Rightarrow> slab_heap \<Rightarrow> layout \<Rightarrow> nat \<Rightarrow> bool" where
  "class_ok bs h Y i \<longleftrightarrow> bk_index (bs ! i) = of_nat i
     \<and> bucket_inv (bs ! i) h (ly_partial Y i) (ly_full Y i) (ly_empty Y i)"

definition small_inv :: "bucket list \<Rightarrow> slab_heap \<Rightarrow> layout \<Rightarrow> bool" where
  "small_inv bs h Y \<longleftrightarrow> length bs = 29 \<and> (\<forall>i<29. class_ok bs h Y i)
     \<and> (\<forall>i<29. \<forall>j<29. i \<noteq> j \<longrightarrow> own Y i \<inter> own Y j = {})"

text \<open>The live items of a size class, and all of them.\<close>

definition class_live :: "slab_heap \<Rightarrow> layout \<Rightarrow> nat \<Rightarrow> (addr \<times> nat) set" where
  "class_live h Y i = live h (ly_partial Y i @ ly_full Y i)"

definition set_class :: "nat \<Rightarrow> addr list \<Rightarrow> addr list \<Rightarrow> addr list \<Rightarrow> layout \<Rightarrow> layout" where
  "set_class i ps fs es Y = Y\<lparr>ly_partial := (ly_partial Y)(i := ps), ly_full := (ly_full Y)(i := fs),
     ly_empty := (ly_empty Y)(i := es)\<rparr>"

lemma set_class_simps [simp]:
  "own (set_class i ps fs es Y) j = (if j = i then set (ps @ fs @ es) else own Y j)"
  "class_live h (set_class i ps fs es Y) j = (if j = i then live h (ps @ fs) else class_live h Y j)"
  "ly_large (set_class i ps fs es Y) = ly_large Y" "ly_spare (set_class i ps fs es Y) = ly_spare Y"
  by (simp_all add: own_def class_live_def set_class_def)

lemma bucket_inv_pages:
  "bucket_inv b h ps fs es \<Longrightarrow> pa_inv (pages h) \<and> (\<forall>q\<in>pa_free_set (pages h). page_aligned q)
     \<and> set (ps @ fs @ es) \<inter> pa_free_set (pages h) = {}"
  by (simp add: bucket_inv_def bucket_core_def bucket_ok_def pages_ok_def)

text \<open>A bucket does not notice what happens to pages that are neither its own nor free.\<close>

lemma bucket_inv_frame:
  assumes "bucket_inv b h ps fs es" "moves h h' X X'" "set (ps @ fs @ es) \<inter> X = {}"
    and "pa_inv (pages h')" "\<forall>q\<in>pa_free_set (pages h'). page_aligned q"
  shows "bucket_inv b h' ps fs es" "live h' (ps @ fs) = live h (ps @ fs)"
proof -
  have fr: "slabs h' y = slabs h y \<and> slab_prev h' y = slab_prev h y \<and> slab_next h' y = slab_next h y"
    if "y \<in> set (ps @ fs @ es)" for y
    using assms(1-3) that bucket_inv_pages [OF assms(1)] by (auto simp: moves_def)
  have hr: "hrepr h' l xs" if "hrepr h l xs" "set xs \<subseteq> set (ps @ fs @ es)" for l xs
  proof -
    have "linked (slab_prev h') (slab_next h') 0 xs 0 = linked (slab_prev h) (slab_next h) 0 xs 0"
      using that(2) fr by (intro linked_frame) auto
    then show ?thesis using that(1) by (simp add: hrepr_def dl_repr_def load_list_def)
  qed
  have b: "bk_mutex b = 0" "sized b" "lists_ok b h ps fs es" "slabs_ok b (slabs h) ps fs es" "used h ps"
    using assms(1) by (simp_all add: bucket_inv_def bucket_core_def bucket_ok_def)
  have "lists_ok b h' ps fs es" using b(3) unfolding lists_ok_def by (auto intro!: hr)
  moreover have "slabs_ok b (slabs h') ps fs es" using b(4) fr by (auto simp: slabs_ok_def)
  moreover have "used h' ps" using b(5) fr by (simp add: used_def)
  moreover have "set (ps @ fs @ es) \<inter> pa_free_set (pages h') = {}"
  proof -
    have "pa_free_set (pages h') \<subseteq> X \<union> pa_free_set (pages h)" using assms(2) by (auto simp: moves_def)
    then show ?thesis using assms(3) bucket_inv_pages [OF assms(1)] by blast
  qed
  ultimately show "bucket_inv b h' ps fs es"
    using b(1,2) assms(4,5) by (simp add: bucket_inv_def bucket_core_def bucket_ok_def pages_ok_def)
  show "live h' (ps @ fs) = live h (ps @ fs)" using fr by (auto simp: live_def)
qed

lemma small_inv_class:
  assumes "small_inv bs h Y" "i < 29"
  shows "length bs = 29" "bk_index (bs ! i) = of_nat i"
    "bucket_inv (bs ! i) h (ly_partial Y i) (ly_full Y i) (ly_empty Y i)"
  using assms by (simp_all add: small_inv_def class_ok_def)

lemma small_inv_pages:
  assumes "small_inv bs h Y"
  shows "pa_inv (pages h)" "\<forall>q\<in>pa_free_set (pages h). page_aligned q"
    "i < 29 \<Longrightarrow> own Y i \<inter> pa_free_set (pages h) = {}"
  using bucket_inv_pages [OF small_inv_class(3) [OF assms]] bucket_inv_pages [OF small_inv_class(3) [OF assms, of 0]]
  by (auto simp: own_def)

text \<open>An operation of one bucket keeps all of them in order and the live items of the others.\<close>

lemma small_inv_step:
  assumes "small_inv bs h Y" "i < 29" "bucket_inv b h' ps fs es" "same_size (bs ! i) b"
    and "moves h h' (own Y i) (set (ps @ fs @ es))"
  shows "small_inv (bs[i := b]) h' (set_class i ps fs es Y)"
    "j < 29 \<Longrightarrow> j \<noteq> i \<Longrightarrow> class_live h' Y j = class_live h Y j"
proof -
  have len: "length bs = 29" using assms(1) by (simp add: small_inv_def)
  have pg: "pa_inv (pages h')" "\<forall>q\<in>pa_free_set (pages h'). page_aligned q"
    using bucket_inv_pages [OF assms(3)] by auto
  have other: "bucket_inv (bs ! j) h' (ly_partial Y j) (ly_full Y j) (ly_empty Y j)
      \<and> class_live h' Y j = class_live h Y j" if "j < 29" "j \<noteq> i" for j
  proof -
    have "own Y j \<inter> own Y i = {}" using assms(1,2) that by (simp add: small_inv_def)
    then have "set (ly_partial Y j @ ly_full Y j @ ly_empty Y j) \<inter> own Y i = {}" by (simp add: own_def)
    then show ?thesis
      using bucket_inv_frame [OF small_inv_class(3) [OF assms(1) that(1)] assms(5) _ pg] by (simp add: class_live_def)
  qed
  then show "j < 29 \<Longrightarrow> j \<noteq> i \<Longrightarrow> class_live h' Y j = class_live h Y j" by blast
  have disj: "set (ps @ fs @ es) \<inter> own Y j = {}" if "j < 29" "j \<noteq> i" for j
  proof -
    have "set (ps @ fs @ es) \<subseteq> own Y i \<union> pa_free_set (pages h)" using assms(5) by (auto simp: moves_def)
    moreover have "own Y i \<inter> own Y j = {}" using assms(1,2) that by (simp add: small_inv_def)
    ultimately show ?thesis using small_inv_pages(3) [OF assms(1) that(1)] by blast
  qed
  show "small_inv (bs[i := b]) h' (set_class i ps fs es Y)"
    unfolding small_inv_def
  proof (intro conjI allI impI)
    fix j :: nat assume j: "j < 29"
    show "class_ok (bs[i := b]) h' (set_class i ps fs es Y) j"
    proof (cases "j = i")
      case True
      then show ?thesis
        using assms(2-4) len small_inv_class(2) [OF assms(1,2)] by (simp add: class_ok_def set_class_def same_size_def)
    next
      case False
      then show ?thesis
        using other [OF j] len j small_inv_class(2) [OF assms(1) j] by (simp add: class_ok_def set_class_def)
    qed
    fix k :: nat assume "k < 29" "j \<noteq> k"
    then show "own (set_class i ps fs es Y) j \<inter> own (set_class i ps fs es Y) k = {}"
      using disj [of j] disj [of k] j assms(1) by (auto simp: small_inv_def)
  qed (simp add: len)
qed

subsection \<open>Small blocks\<close>

text \<open>The bytes of a block, and the blocks the buckets have handed out with their sizes.\<close>

definition span :: "addr \<Rightarrow> nat \<Rightarrow> nat set" where "span a n = {unat a ..< unat a + n}"

definition small_blocks :: "bucket list \<Rightarrow> slab_heap \<Rightarrow> layout \<Rightarrow> (addr \<times> nat) set" where
  "small_blocks bs h Y = {(item_addr (bs ! i) p j, unat (bk_itemSize (bs ! i))) | i p j.
     i < 29 \<and> (p, j) \<in> class_live h Y i}"

lemma pages_apart:
  assumes "page_aligned p" "page_aligned q" "p \<noteq> q"
  shows "span p 4096 \<inter> span q 4096 = {}"
proof -
  obtain k l where kl: "unat p = 4096 * k" "unat q = 4096 * l"
    using assms(1,2) by (auto simp: page_aligned_def elim!: dvdE)
  have "k \<noteq> l" using assms(3) kl by (auto intro: word_eq_unatI)
  then have "k < l \<or> l < k" by linarith
  then show ?thesis unfolding span_def kl by auto
qed

lemma class_live_item:
  assumes "small_inv bs h Y" "i < 29" "(p, j) \<in> class_live h Y i"
  shows "sized (bs ! i)" "page_aligned p" "j < items (bs ! i)" "p \<in> own Y i" "p \<noteq> 0"
    "span (item_addr (bs ! i) p j) (unat (bk_itemSize (bs ! i))) \<subseteq> span p 4096"
    "0 < unat (bk_itemSize (bs ! i))" "item_addr (bs ! i) p j AND NOT PageMask \<noteq> 0" "item_addr (bs ! i) p j \<noteq> 0"
proof -
  note b = small_inv_class(3) [OF assms(1,2)]
  note l = bucket_inv_live [OF b assms(3) [unfolded class_live_def]]
  show s: "sized (bs ! i)" "page_aligned p" "j < items (bs ! i)" using l by simp_all
  show "p \<in> own Y i" using l(5) by (auto simp: own_def)
  show "p \<noteq> 0" using l(5) b hrepr_nonzero
    by (auto simp: bucket_inv_def bucket_core_def bucket_ok_def lists_ok_def)
  show "span (item_addr (bs ! i) p j) (unat (bk_itemSize (bs ! i))) \<subseteq> span p 4096"
    using item_addr_bounds [OF s] by (auto simp: span_def)
  show "0 < unat (bk_itemSize (bs ! i))"
    using s(1) item_size_bounds [of "bk_index (bs ! i)"] by (simp add: sized_def)
  show "item_addr (bs ! i) p j AND NOT PageMask \<noteq> 0" "item_addr (bs ! i) p j \<noteq> 0" using item_page [OF s] by auto
qed

text \<open>Two items of one slab do not share a byte.\<close>

lemma items_apart:
  assumes "sized b" "page_aligned p" "i < items b" "j < items b" "i \<noteq> j"
  shows "span (item_addr b p i) (unat (bk_itemSize b)) \<inter> span (item_addr b p j) (unat (bk_itemSize b)) = {}"
proof -
  let ?n = "unat (bk_itemSize b)"
  have a: "unat (item_addr b p i) = unat p + 48 + i * ?n" "unat (item_addr b p j) = unat p + 48 + j * ?n"
    using item_addr_bounds(1) [OF assms(1,2)] assms(3,4) by auto
  have le: "k * ?n + ?n \<le> m * ?n" if "k < m" for k m
    using mult_le_mono1 [of "Suc k" m ?n] that by simp
  consider "i < j" | "j < i" using assms(5) by linarith
  then show ?thesis by cases (use le a in \<open>force simp: span_def\<close>)+
qed

text \<open>Blocks that share a byte are the same item.\<close>

lemma small_same:
  assumes "small_inv bs h Y" "i < 29" "(p, j) \<in> class_live h Y i" "k < 29" "(q, l) \<in> class_live h Y k"
    and "span (item_addr (bs ! i) p j) (unat (bk_itemSize (bs ! i)))
       \<inter> span (item_addr (bs ! k) q l) (unat (bk_itemSize (bs ! k))) \<noteq> {}"
  shows "i = k \<and> p = q \<and> j = l"
proof -
  note a = class_live_item [OF assms(1-3)] and b = class_live_item [OF assms(1,4,5)]
  have "span p 4096 \<inter> span q 4096 \<noteq> {}" using a(6) b(6) assms(6) by blast
  then have pq: "p = q" using pages_apart [OF a(2) b(2)] by blast
  then have ik: "i = k" using a(4) b(4) assms(1,2,4) by (auto simp: small_inv_def)
  have "j = l" using items_apart [OF a(1,2,3) b(3) [folded ik]] assms(6) by (auto simp: pq ik)
  with pq ik show ?thesis by blast
qed

lemma span_start: "0 < n \<Longrightarrow> unat a \<in> span a n" by (simp add: span_def)

lemma small_addr_inj:
  assumes "small_inv bs h Y" "i < 29" "(p, j) \<in> class_live h Y i" "k < 29" "(q, l) \<in> class_live h Y k"
    and "item_addr (bs ! i) p j = item_addr (bs ! k) q l"
  shows "i = k \<and> p = q \<and> j = l"
  using small_same [OF assms(1-5)] span_start [OF class_live_item(7) [OF assms(1-3)]]
    span_start [OF class_live_item(7) [OF assms(1,4,5)]] assms(6) by (metis IntI empty_iff)

lemma small_apart:
  assumes "small_inv bs h Y" "(a, n) \<in> small_blocks bs h Y" "(b, m) \<in> small_blocks bs h Y" "a \<noteq> b"
  shows "span a n \<inter> span b m = {}"
proof (rule ccontr)
  assume ne: "span a n \<inter> span b m \<noteq> {}"
  obtain i p j k q l where
    "i < 29" "(p, j) \<in> class_live h Y i" "a = item_addr (bs ! i) p j" "n = unat (bk_itemSize (bs ! i))"
    "k < 29" "(q, l) \<in> class_live h Y k" "b = item_addr (bs ! k) q l" "m = unat (bk_itemSize (bs ! k))"
    using assms(2,3) unfolding small_blocks_def by blast
  then show False using small_same [OF assms(1), of i p j k q l] ne assms(4) by auto
qed

text \<open>The blocks after an operation on one item of one class.\<close>

lemma same_size_item: "same_size b b' \<Longrightarrow> item_addr b' = item_addr b \<and> bk_itemSize b' = bk_itemSize b"
  by (intro conjI ext) (simp_all add: same_size_def item_addr_def)

lemma update_size:
  assumes "length bs = 29" "same_size (bs ! i) b"
  shows "k < 29 \<Longrightarrow> item_addr (bs[i := b] ! k) = item_addr (bs ! k)"
    "k < 29 \<Longrightarrow> bk_itemSize (bs[i := b] ! k) = bk_itemSize (bs ! k)"
  using assms same_size_item [OF assms(2)] by (cases "k = i"; simp)+

lemma small_blocks_insert:
  assumes "small_inv bs h Y" "i < 29" "same_size (bs ! i) b"
    and "class_live h' Y' i = insert (p, j) (class_live h Y i)"
    and "\<And>k. k < 29 \<Longrightarrow> k \<noteq> i \<Longrightarrow> class_live h' Y' k = class_live h Y k"
  shows "small_blocks (bs[i := b]) h' Y'
    = insert (item_addr (bs ! i) p j, unat (bk_itemSize (bs ! i))) (small_blocks bs h Y)"
proof -
  have len: "length bs = 29" using assms(1) by (simp add: small_inv_def)
  have c: "class_live h' Y' k = (if k = i then insert (p, j) (class_live h Y k) else class_live h Y k)"
    if "k < 29" for k using assms(4,5) that by auto
  note u = update_size [OF len assms(3)]
  show ?thesis
  proof (intro set_eqI iffI)
    fix x assume "x \<in> small_blocks (bs[i := b]) h' Y'"
    then obtain k q l where k: "k < 29" "(q, l) \<in> class_live h' Y' k"
      "x = (item_addr (bs[i := b] ! k) q l, unat (bk_itemSize (bs[i := b] ! k)))"
      unfolding small_blocks_def by blast
    then have x: "x = (item_addr (bs ! k) q l, unat (bk_itemSize (bs ! k)))" using u by simp
    show "x \<in> insert (item_addr (bs ! i) p j, unat (bk_itemSize (bs ! i))) (small_blocks bs h Y)"
      using k(1,2) c [OF k(1)] unfolding x small_blocks_def by (auto split: if_splits)
  next
    fix x assume "x \<in> insert (item_addr (bs ! i) p j, unat (bk_itemSize (bs ! i))) (small_blocks bs h Y)"
    then consider "x = (item_addr (bs ! i) p j, unat (bk_itemSize (bs ! i)))"
      | k q l where "k < 29" "(q, l) \<in> class_live h Y k" "x = (item_addr (bs ! k) q l, unat (bk_itemSize (bs ! k)))"
      unfolding small_blocks_def by blast
    then obtain k q l where k: "k < 29" "(q, l) \<in> class_live h' Y' k"
      "x = (item_addr (bs ! k) q l, unat (bk_itemSize (bs ! k)))"
    proof cases
      case 1
      then show thesis using that [of i p j] assms(2) c [OF assms(2)] by simp
    next
      case (2 k q l)
      then show thesis using that [of k q l] c [OF 2(1)] by (simp split: if_splits)
    qed
    then have "x = (item_addr (bs[i := b] ! k) q l, unat (bk_itemSize (bs[i := b] ! k)))" using u by simp
    then show "x \<in> small_blocks (bs[i := b]) h' Y'" using k(1,2) unfolding small_blocks_def by blast
  qed
qed

lemma small_blocks_remove:
  assumes "small_inv bs h Y" "i < 29" "same_size (bs ! i) b" "(p, j) \<in> class_live h Y i"
    and "class_live h' Y' i = class_live h Y i - {(p, j)}"
    and "\<And>k. k < 29 \<Longrightarrow> k \<noteq> i \<Longrightarrow> class_live h' Y' k = class_live h Y k"
  shows "small_blocks (bs[i := b]) h' Y'
    = small_blocks bs h Y - {(item_addr (bs ! i) p j, unat (bk_itemSize (bs ! i)))}"
proof -
  have len: "length bs = 29" using assms(1) by (simp add: small_inv_def)
  note u = update_size [OF len assms(3)]
  have c: "(q, l) \<in> class_live h' Y' k \<longleftrightarrow> (q, l) \<in> class_live h Y k \<and> (k, q, l) \<noteq> (i, p, j)" if "k < 29" for k q l
    using assms(5,6) that by auto
  show ?thesis
  proof (intro set_eqI iffI)
    fix x assume "x \<in> small_blocks (bs[i := b]) h' Y'"
    then obtain k q l where k: "k < 29" "(q, l) \<in> class_live h' Y' k"
      "x = (item_addr (bs[i := b] ! k) q l, unat (bk_itemSize (bs[i := b] ! k)))"
      unfolding small_blocks_def by blast
    then have x: "x = (item_addr (bs ! k) q l, unat (bk_itemSize (bs ! k)))" using u by simp
    have l: "(q, l) \<in> class_live h Y k" "(k, q, l) \<noteq> (i, p, j)" using c [OF k(1)] k(2) by auto
    then have "item_addr (bs ! k) q l \<noteq> item_addr (bs ! i) p j"
      using small_addr_inj [OF assms(1) k(1) l(1) assms(2,4)] by blast
    then show "x \<in> small_blocks bs h Y - {(item_addr (bs ! i) p j, unat (bk_itemSize (bs ! i)))}"
      using k(1) l(1) unfolding x small_blocks_def by blast
  next
    fix x assume "x \<in> small_blocks bs h Y - {(item_addr (bs ! i) p j, unat (bk_itemSize (bs ! i)))}"
    then obtain k q l where k: "k < 29" "(q, l) \<in> class_live h Y k"
      "x = (item_addr (bs ! k) q l, unat (bk_itemSize (bs ! k)))" "(k, q, l) \<noteq> (i, p, j)"
      unfolding small_blocks_def by blast
    then have "x = (item_addr (bs[i := b] ! k) q l, unat (bk_itemSize (bs[i := b] ! k)))" using u by simp
    then show "x \<in> small_blocks (bs[i := b]) h' Y'" using k c unfolding small_blocks_def by blast
  qed
qed

text \<open>The pages the small-item allocator works with: those of its slabs, and the free ones.\<close>

definition all_pages :: "slab_heap \<Rightarrow> layout \<Rightarrow> addr set" where
  "all_pages h Y = (\<Union>i<29. own Y i) \<union> pa_free_set (pages h)"

lemma all_pages_step:
  assumes "i < 29" "moves h h' (own Y i) (set (ps @ fs @ es))"
  shows "all_pages h' (set_class i ps fs es Y) = all_pages h Y"
proof -
  have s: "all_pages h Z = (\<Union>k\<in>{..<29} - {i}. own Z k) \<union> (own Z i \<union> pa_free_set (pages h))" for h Z
    using assms(1) by (auto simp: all_pages_def)
  have "own (set_class i ps fs es Y) i \<union> pa_free_set (pages h') = own Y i \<union> pa_free_set (pages h)"
    using assms(2) by (simp add: moves_def)
  moreover have "(\<Union>k\<in>{..<29} - {i}. own (set_class i ps fs es Y) k) = (\<Union>k\<in>{..<29} - {i}. own Y k)" by simp
  ultimately show ?thesis unfolding s by presburger
qed

lemma small_block_page:
  assumes "small_inv bs h Y" "(a, n) \<in> small_blocks bs h Y"
  obtains p where "page_aligned p" "p \<in> all_pages h Y" "p \<notin> pa_free_set (pages h)" "span a n \<subseteq> span p 4096"
    "a AND NOT PageMask \<noteq> 0" "a \<noteq> 0" "0 < n"
proof -
  obtain i p j where i: "i < 29" "(p, j) \<in> class_live h Y i" "a = item_addr (bs ! i) p j" "n = unat (bk_itemSize (bs ! i))"
    using assms(2) unfolding small_blocks_def by blast
  note l = class_live_item [OF assms(1) i(1,2)]
  have "p \<in> all_pages h Y" using i(1) l(4) by (auto simp: all_pages_def)
  moreover have "p \<notin> pa_free_set (pages h)" using small_inv_pages(3) [OF assms(1) i(1)] l(4) by blast
  ultimately show thesis using that l i(3,4) by blast
qed

text \<open>A request for a small block over the whole allocator.\<close>

definition small_served :: "kalloc_state \<Rightarrow> layout \<Rightarrow> addr \<Rightarrow> nat \<Rightarrow> kalloc_state \<Rightarrow> layout \<Rightarrow> bool" where
  "small_served s Y a n s' Y' \<longleftrightarrow> (\<exists>bs h. s' = s\<lparr>k_buckets := bs, k_heap := h\<rparr>
     \<and> small_inv bs h Y' \<and> all_pages h Y' = all_pages (k_heap s) Y
     \<and> a \<noteq> 0 \<and> a \<notin> fst ` small_blocks (k_buckets s) (k_heap s) Y
     \<and> small_blocks bs h Y' = insert (a, n) (small_blocks (k_buckets s) (k_heap s) Y)
     \<and> ly_large Y' = ly_large Y \<and> ly_spare Y' = ly_spare Y)"

lemma small_alloc:
  assumes "small_inv (k_buckets s) (k_heap s) Y" "0 < sz" "sz \<le> 1920"
  defines "i \<equiv> unat (IndexFromSize sz)"
  shows "(kalloc_small sz s = Some (Inl NullDeref) \<and> pa_free_set (pages (k_heap s)) = {}
        \<and> ly_partial Y i = [] \<and> ly_empty Y i = [])
    \<or> (\<exists>a n s' ps fs es. kalloc_small sz s = Some (Inr (a, s')) \<and> unat sz \<le> n
        \<and> small_served s Y a n s' (set_class i ps fs es Y))"
proof -
  have "IndexFromSize sz < MAX_BUCKET_INDEX" using hash_fits_class [OF assms(2,3)] by simp
  then have i: "i < 29" by (simp add: max_bucket word_less_nat_alt i_def)
  note c = small_inv_class [OF assms(1) i]
  have len: "i < length (k_buckets s)" using c(1) i by simp
  have sz: "sized (k_buckets s ! i)" using c(3) by (simp add: bucket_inv_def bucket_core_def bucket_ok_def)
  have le: "unat sz \<le> unat (bk_itemSize (k_buckets s ! i))"
    using size_class(2) [OF assms(2,3) c(2) [unfolded i_def] sz [unfolded i_def]] by (simp add: i_def)
  let ?n = "unat (bk_itemSize (k_buckets s ! i))"
  from kalloc_small_served [OF assms(2,3), folded i_def, OF len c(2,3)] show ?thesis
  proof (elim disjE exE conjE)
    fix p j b h ps fs es
    let ?a = "item_addr (k_buckets s ! i) p j" and ?Y = "set_class i ps fs es Y" and ?bs = "(k_buckets s)[i := b]"
    assume k: "kalloc_small sz s = Some (Inr (?a, s\<lparr>k_buckets := ?bs, k_heap := h\<rparr>))"
      and b: "bucket_inv b h ps fs es" "same_size (k_buckets s ! i) b"
      and m: "moves (k_heap s) h (set (ly_partial Y i @ ly_full Y i @ ly_empty Y i)) (set (ps @ fs @ es))"
      and new: "(p, j) \<notin> live (k_heap s) (ly_partial Y i @ ly_full Y i)"
      and lv: "live h (ps @ fs) = insert (p, j) (live (k_heap s) (ly_partial Y i @ ly_full Y i))"
      and "unat p + 48 \<le> unat ?a"
    note m' = m [folded own_def]
    note st = small_inv_step [OF assms(1) i b m']
    have cl: "class_live h ?Y i = insert (p, j) (class_live (k_heap s) Y i)" using lv by (simp add: class_live_def [of "k_heap s"])
    have ot: "class_live h ?Y k = class_live (k_heap s) Y k" if "k < 29" "k \<noteq> i" for k
      using st(2) that by simp
    have bl: "small_blocks ?bs h ?Y = insert (?a, ?n) (small_blocks (k_buckets s) (k_heap s) Y)"
      by (rule small_blocks_insert [OF assms(1) i b(2) cl ot])
    have "?a \<notin> fst ` small_blocks (k_buckets s) (k_heap s) Y"
    proof
      assume "?a \<in> fst ` small_blocks (k_buckets s) (k_heap s) Y"
      then obtain k q l where k: "k < 29" "(q, l) \<in> class_live (k_heap s) Y k" "?a = item_addr (k_buckets s ! k) q l"
        unfolding small_blocks_def by auto
      have "(q, l) \<in> class_live h ?Y k" using k(1,2) cl ot by (cases "k = i") auto
      moreover have "(p, j) \<in> class_live h ?Y i" using cl by simp
      moreover have "item_addr (?bs ! i) p j = item_addr (?bs ! k) q l"
        using k(3) update_size(1) [OF c(1) b(2)] i k(1) by simp
      ultimately have "i = k \<and> p = q \<and> j = l" using small_addr_inj [OF st(1) i] k(1) by blast
      then show False using k(2) new by (simp add: class_live_def)
    qed
    moreover have "?a \<noteq> 0" using \<open>unat p + 48 \<le> unat ?a\<close> by (auto simp: unat_eq_0)
    ultimately have "small_served s Y ?a ?n (s\<lparr>k_buckets := ?bs, k_heap := h\<rparr>) ?Y"
      using st(1) bl all_pages_step [OF i m'] by (auto simp: small_served_def)
    then show ?thesis using k le by blast
  qed blast
qed

text \<open>Freeing a small block over the whole allocator.\<close>

lemma small_free:
  assumes "canKallocNow s" "small_inv (k_buckets s) (k_heap s) Y" "(a, n) \<in> small_blocks (k_buckets s) (k_heap s) Y"
  shows "\<exists>bs h Y'. kfree a s = Some (Inr (s\<lparr>k_buckets := bs, k_heap := h\<rparr>)) \<and> small_inv bs h Y'
     \<and> all_pages h Y' = all_pages (k_heap s) Y
     \<and> small_blocks bs h Y' = small_blocks (k_buckets s) (k_heap s) Y - {(a, n)}
     \<and> ly_large Y' = ly_large Y \<and> ly_spare Y' = ly_spare Y"
proof -
  obtain i p j where i: "i < 29" "(p, j) \<in> class_live (k_heap s) Y i" "a = item_addr (k_buckets s ! i) p j"
    "n = unat (bk_itemSize (k_buckets s ! i))"
    using assms(3) unfolding small_blocks_def by blast
  note c = small_inv_class [OF assms(2) i(1)]
  have r: "bucket_ready s i (ly_partial Y i) (ly_full Y i) (ly_empty Y i)"
    using assms(1) c i(1) by (simp add: bucket_ready_def)
  obtain b h ps fs es where f: "kfree a s = Some (Inr (s\<lparr>k_buckets := (k_buckets s)[i := b], k_heap := h\<rparr>))"
    "bucket_inv b h ps fs es" "same_size (k_buckets s ! i) b"
    "moves (k_heap s) h (own Y i) (set (ps @ fs @ es))"
    "live h (ps @ fs) = class_live (k_heap s) Y i - {(p, j)}"
    using kfree_small_block [OF r i(2) [unfolded class_live_def]] unfolding i(3) own_def class_live_def by blast
  note st = small_inv_step [OF assms(2) i(1) f(2-4)]
  have "small_blocks ((k_buckets s)[i := b]) h (set_class i ps fs es Y)
      = small_blocks (k_buckets s) (k_heap s) Y - {(a, n)}"
    unfolding i(3,4) by (rule small_blocks_remove [OF assms(2) i(1) f(3) i(2)]) (use f(5) st(2) in simp_all)
  with f(1) st(1) all_pages_step [OF i(1) f(4)] show ?thesis
    by (intro exI [of _ "(k_buckets s)[i := b]"] exI [of _ h] exI [of _ "set_class i ps fs es Y"]) simp
qed

end
