(* ===== verification/HeapLarge.thy ===== *)
theory HeapLarge
  imports Heap
begin

text \<open>
  Large blocks of the kernel heap: the records of the pages handed out, which are themselves
  small items, on the lists hashed by address and on the stack of spare records. The abstract
  state is the set of blocks in the hands of callers; kalloc and kfree add and remove exactly
  one of them.
\<close>

subsection \<open>The invariant\<close>

text \<open>
  The records the allocator keeps; R holds the records an operation has taken off a list and
  not put back yet.
\<close>

definition records :: "layout \<Rightarrow> addr list" where
  "records Y = ly_spare Y @ concat (map (ly_large Y) [0..<32])"

definition large_metas :: "layout \<Rightarrow> addr set" where
  "large_metas Y = (\<Union>k<32. set (ly_large Y k))"

definition large_pages :: "kalloc_state \<Rightarrow> layout \<Rightarrow> addr set" where
  "large_pages s Y = meta_page s ` large_metas Y"

definition internal :: "addr list \<Rightarrow> kalloc_state \<Rightarrow> layout \<Rightarrow> addr set" where
  "internal R s Y = set (lgBuckets s) \<union> set (records Y) \<union> set R"

definition lists_inv :: "kalloc_state \<Rightarrow> layout \<Rightarrow> bool" where
  "lists_inv s Y \<longleftrightarrow> (\<forall>k<32. dl_repr (load_large s (lgBuckets s ! k)) (ly_large Y k))"

definition paged :: "kalloc_state \<Rightarrow> nat \<Rightarrow> addr \<Rightarrow> bool" where
  "paged s k m \<longleftrightarrow> unat (hash_ptr (meta_page s m)) = k \<and> page_aligned (meta_page s m) \<and> meta_page s m \<noteq> 0"

definition large_inv :: "addr list \<Rightarrow> kalloc_state \<Rightarrow> layout \<Rightarrow> bool" where
  "large_inv R s Y \<longleftrightarrow> lgMutex s = 0 \<and> length (lgBuckets s) = 32
     \<and> distinct (lgBuckets s @ records Y @ R)
     \<and> stack_repr (load_stack s) (ly_spare Y) \<and> lists_inv s Y
     \<and> (\<forall>k<32. \<forall>m\<in>set (ly_large Y k). paged s k m) \<and> inj_on (meta_page s) (large_metas Y)"

definition heap_with :: "addr list \<Rightarrow> kalloc_state \<Rightarrow> layout \<Rightarrow> bool" where
  "heap_with R s Y \<longleftrightarrow> canKallocNow s \<and> small_inv (k_buckets s) (k_heap s) Y \<and> large_inv R s Y
     \<and> internal R s Y \<subseteq> fst ` small_blocks (k_buckets s) (k_heap s) Y
     \<and> large_pages s Y \<inter> all_pages (k_heap s) Y = {}"

definition heap_inv :: "kalloc_state \<Rightarrow> layout \<Rightarrow> bool" where
  "heap_inv s Y \<longleftrightarrow> heap_with [] s Y"

text \<open>The blocks in the hands of callers, with their sizes.\<close>

definition blocks_with :: "addr list \<Rightarrow> kalloc_state \<Rightarrow> layout \<Rightarrow> (addr \<times> nat) set" where
  "blocks_with R s Y = {x \<in> small_blocks (k_buckets s) (k_heap s) Y. fst x \<notin> internal R s Y}
     \<union> large_pages s Y \<times> {4096}"

definition blocks :: "kalloc_state \<Rightarrow> layout \<Rightarrow> (addr \<times> nat) set" where
  "blocks s Y = blocks_with [] s Y"

lemma in_records: "m \<in> set (records Y) \<longleftrightarrow> m \<in> set (ly_spare Y) \<or> m \<in> large_metas Y"
  by (auto simp: records_def large_metas_def)

lemma heap_withD:
  assumes "heap_with R s Y"
  shows "canKallocNow s" "small_inv (k_buckets s) (k_heap s) Y" "lgMutex s = 0" "length (lgBuckets s) = 32"
    "distinct (lgBuckets s @ records Y @ R)" "stack_repr (load_stack s) (ly_spare Y)" "lists_inv s Y"
    "k < 32 \<Longrightarrow> m \<in> set (ly_large Y k) \<Longrightarrow> paged s k m" "inj_on (meta_page s) (large_metas Y)"
    "internal R s Y \<subseteq> fst ` small_blocks (k_buckets s) (k_heap s) Y"
    "large_pages s Y \<inter> all_pages (k_heap s) Y = {}"
  using assms by (simp_all add: heap_with_def large_inv_def)

lemma large_pages_props:
  assumes "heap_with R s Y" "q \<in> large_pages s Y"
  shows "page_aligned q" "q \<noteq> 0"
  using assms(2) heap_withD(8) [OF assms(1)] by (auto simp: large_pages_def large_metas_def paged_def)

lemma spare_not_large: "heap_with R s Y \<Longrightarrow> set (ly_spare Y) \<inter> large_metas Y = {}"
  using heap_withD(5) [of R s Y] by (simp add: records_def large_metas_def atLeast0LessThan Int_Un_distrib)

text \<open>All pages of the heap, in use or not: no operation changes them.\<close>

definition heap_pages :: "kalloc_state \<Rightarrow> layout \<Rightarrow> addr set" where
  "heap_pages s Y = all_pages (k_heap s) Y \<union> large_pages s Y"

lemma block_in_pages:
  assumes "heap_inv s Y" "(a, n) \<in> blocks s Y"
  shows "\<exists>p\<in>heap_pages s Y. page_aligned p \<and> span a n \<subseteq> span p 4096"
proof -
  have h: "heap_with [] s Y" using assms(1) by (simp add: heap_inv_def)
  consider "(a, n) \<in> small_blocks (k_buckets s) (k_heap s) Y" | "a \<in> large_pages s Y" "n = 4096"
    using assms(2) by (auto simp: blocks_def blocks_with_def)
  then show ?thesis
  proof cases
    case 1
    then show ?thesis using small_block_page [OF heap_withD(2) [OF h] 1] unfolding heap_pages_def by blast
  next
    case 2
    then show ?thesis using large_pages_props(1) [OF h] unfolding heap_pages_def by blast
  qed
qed

text \<open>Blocks are aligned apart: no two of them share a byte.\<close>

lemma blocks_apart:
  assumes "heap_inv s Y" "(a, n) \<in> blocks s Y" "(b, m) \<in> blocks s Y" "a \<noteq> b"
  shows "span a n \<inter> span b m = {}"
proof -
  have h: "heap_with [] s Y" using assms(1) by (simp add: heap_inv_def)
  note sm = heap_withD(2) [OF h]
  have mix: "span c k \<inter> span d 4096 = {}"
    if cd: "(c, k) \<in> small_blocks (k_buckets s) (k_heap s) Y" "d \<in> large_pages s Y" for c k d
  proof -
    obtain p where p: "page_aligned p" "p \<in> all_pages (k_heap s) Y" "span c k \<subseteq> span p 4096"
      using small_block_page [OF sm cd(1)] by blast
    have "p \<noteq> d" using p(2) cd(2) heap_withD(11) [OF h] by blast
    then show ?thesis using pages_apart [OF p(1) large_pages_props(1) [OF h cd(2)]] p(3) by blast
  qed
  have "(a, n) \<in> small_blocks (k_buckets s) (k_heap s) Y \<or> a \<in> large_pages s Y \<and> n = 4096"
    "(b, m) \<in> small_blocks (k_buckets s) (k_heap s) Y \<or> b \<in> large_pages s Y \<and> m = 4096"
    using assms(2,3) by (auto simp: blocks_def blocks_with_def)
  then show ?thesis
    using small_apart [OF sm _ _ assms(4)] mix
      pages_apart [OF large_pages_props(1) [OF h] large_pages_props(1) [OF h] assms(4)]
    by (metis Int_commute)
qed

lemma block_positive:
  assumes "heap_inv s Y" "(a, n) \<in> blocks s Y"
  shows "a \<noteq> 0" "0 < n"
proof -
  have h: "heap_with [] s Y" using assms(1) by (simp add: heap_inv_def)
  have "(a, n) \<in> small_blocks (k_buckets s) (k_heap s) Y \<or> a \<in> large_pages s Y \<and> n = 4096"
    using assms(2) by (auto simp: blocks_def blocks_with_def)
  then have "a \<noteq> 0 \<and> 0 < n"
    using small_block_page [OF heap_withD(2) [OF h]] large_pages_props(2) [OF h] by (metis zero_less_numeral)
  then show "a \<noteq> 0" "0 < n" by auto
qed

subsection \<open>Records on the stack of spares\<close>

lemma dl_frame:
  assumes "dl_repr (load_large s l) xs" "lgHdr s' l = lgHdr s l"
    and "\<And>y. y \<in> set xs \<Longrightarrow> meta_prev s' y = meta_prev s y \<and> meta_next s' y = meta_next s y"
  shows "dl_repr (load_large s' l) xs"
proof -
  have "linked (meta_prev s') (meta_next s') 0 xs 0 = linked (meta_prev s) (meta_next s) 0 xs 0"
    using assms(3) by (intro linked_frame) auto
  then show ?thesis using assms(1,2) by (simp add: dl_repr_def load_large_def)
qed

lemma lists_inv_frame:
  assumes "lists_inv s Y" "lgBuckets s' = lgBuckets s" "lgHdr s' = lgHdr s" "ly_large Y' = ly_large Y"
    and "\<And>y. y \<in> large_metas Y \<Longrightarrow> meta_prev s' y = meta_prev s y \<and> meta_next s' y = meta_next s y"
  shows "lists_inv s' Y'"
  unfolding lists_inv_def assms(2,4)
proof (intro allI impI)
  fix k :: nat assume k: "k < 32"
  show "dl_repr (load_large s' (lgBuckets s ! k)) (ly_large Y k)"
  proof (rule dl_frame)
    show "dl_repr (load_large s (lgBuckets s ! k)) (ly_large Y k)" using assms(1) k by (simp add: lists_inv_def)
    show "lgHdr s' (lgBuckets s ! k) = lgHdr s (lgBuckets s ! k)" by (simp add: assms(3))
    fix y assume "y \<in> set (ly_large Y k)"
    then have "y \<in> large_metas Y" using k by (auto simp: large_metas_def)
    then show "meta_prev s' y = meta_prev s y \<and> meta_next s' y = meta_next s y" by (rule assms(5))
  qed
qed

lemma large_metas_spare [simp]: "large_metas (Y\<lparr>ly_spare := xs\<rparr>) = large_metas Y"
  by (simp add: large_metas_def)

lemma records_spare [simp]:
  "records (Y\<lparr>ly_spare := xs\<rparr>) = xs @ concat (map (ly_large Y) [0..<32])"
  by (simp add: records_def)

lemma own_spare [simp]:
  "own (Y\<lparr>ly_spare := xs\<rparr>) = own Y" "class_live h (Y\<lparr>ly_spare := xs\<rparr>) = class_live h Y"
  "own (Y\<lparr>ly_large := f\<rparr>) = own Y" "class_live h (Y\<lparr>ly_large := f\<rparr>) = class_live h Y"
  by (simp_all add: own_def class_live_def fun_eq_iff)

lemma small_spare [simp]:
  "small_inv bs h (Y\<lparr>ly_spare := xs\<rparr>) = small_inv bs h Y" "small_inv bs h (Y\<lparr>ly_large := f\<rparr>) = small_inv bs h Y"
  "small_blocks bs h (Y\<lparr>ly_spare := xs\<rparr>) = small_blocks bs h Y"
  "small_blocks bs h (Y\<lparr>ly_large := f\<rparr>) = small_blocks bs h Y"
  "all_pages h (Y\<lparr>ly_spare := xs\<rparr>) = all_pages h Y" "all_pages h (Y\<lparr>ly_large := f\<rparr>) = all_pages h Y"
  by (simp_all add: small_inv_def class_ok_def small_blocks_def all_pages_def)

text \<open>Operations that keep the buckets, the heads of the lists and the pages of the records.\<close>

definition same_core :: "kalloc_state \<Rightarrow> kalloc_state \<Rightarrow> bool" where
  "same_core s s' \<longleftrightarrow> k_buckets s' = k_buckets s \<and> k_heap s' = k_heap s \<and> lgBuckets s' = lgBuckets s
     \<and> lgMutex s' = lgMutex s \<and> canKallocNow s' = canKallocNow s \<and> meta_page s' = meta_page s"

lemma heap_with_spare:
  assumes h: "heap_with R s Y" and c: "same_core s s'" and i: "internal R' s' (Y\<lparr>ly_spare := xs\<rparr>) = internal R s Y"
    and n: "distinct (lgBuckets s' @ records (Y\<lparr>ly_spare := xs\<rparr>) @ R')" "stack_repr (load_stack s') xs"
      "lists_inv s' (Y\<lparr>ly_spare := xs\<rparr>)"
  shows "heap_with R' s' (Y\<lparr>ly_spare := xs\<rparr>)"
    "blocks_with R' s' (Y\<lparr>ly_spare := xs\<rparr>) = blocks_with R s Y"
    "heap_pages s' (Y\<lparr>ly_spare := xs\<rparr>) = heap_pages s Y"
proof -
  have lp: "large_pages s' (Y\<lparr>ly_spare := xs\<rparr>) = large_pages s Y"
    using c by (simp add: large_pages_def same_core_def)
  have pg: "paged s' = paged s" using c by (simp add: paged_def same_core_def fun_eq_iff)
  show "heap_with R' s' (Y\<lparr>ly_spare := xs\<rparr>)"
    using h n c unfolding heap_with_def large_inv_def lp i pg by (simp add: same_core_def del: records_spare)
  show "blocks_with R' s' (Y\<lparr>ly_spare := xs\<rparr>) = blocks_with R s Y"
    unfolding blocks_with_def lp i using c by (simp add: same_core_def)
  show "heap_pages s' (Y\<lparr>ly_spare := xs\<rparr>) = heap_pages s Y"
    unfolding heap_pages_def lp using c by (simp add: same_core_def)
qed

lemma chained_cong: "(\<And>y. y \<in> set xs \<Longrightarrow> nx y = nx' y) \<Longrightarrow> chained nx p xs = chained nx' p xs"
  by (induction xs arbitrary: p) auto

lemma stack_pop_cons:
  assumes "stack_repr k (x # xs)"
  shows "stack_pop k = Some (x, k\<lparr>s_first := s_next k x, s_next := (s_next k)(x := 0)\<rparr>)"
    "stack_repr (k\<lparr>s_first := s_next k x, s_next := (s_next k)(x := 0)\<rparr>) xs"
  using assms by (auto simp: stack_repr_def stack_pop_def unlocked Let_def)

lemma stack_push_ok:
  assumes "stack_repr k xs" "n \<noteq> 0" "n \<notin> set xs"
  shows "stack_push n k = Some (k\<lparr>s_next := (s_next k)(n := s_first k), s_first := n\<rparr>)"
    "stack_repr (k\<lparr>s_next := (s_next k)(n := s_first k), s_first := n\<rparr>) (n # xs)"
  using assms by (auto simp: stack_repr_def stack_push_def unlocked)

text \<open>Taking a spare record off the stack, and putting a record back.\<close>

lemma pop_spare:
  assumes "heap_with [] s Y" "ly_spare Y = x # xs"
  shows "\<exists>s'. pop_meta s = Some (x, s') \<and> heap_with [x] s' (Y\<lparr>ly_spare := xs\<rparr>)
     \<and> blocks_with [x] s' (Y\<lparr>ly_spare := xs\<rparr>) = blocks_with [] s Y \<and> x \<noteq> 0
     \<and> heap_pages s' (Y\<lparr>ly_spare := xs\<rparr>) = heap_pages s Y"
proof -
  note h = heap_withD [OF assms(1)]
  have st: "stack_repr (load_stack s) (x # xs)" using h(6) assms(2) by simp
  define k where "k = load_stack s"
  define k' where "k' = k\<lparr>s_first := s_next k x, s_next := (s_next k)(x := 0)\<rparr>"
  define s' where "s' = store_stack k' s"
  note p = stack_pop_cons [OF st, folded k_def, folded k'_def]
  have pop: "pop_meta s = Some (x, s')" using p(1) by (simp add: pop_meta_def k_def s'_def)
  have c: "same_core s s'" by (simp add: same_core_def s'_def store_stack_def)
  have l: "load_stack s' = k'" by (simp add: load_stack_def s'_def store_stack_def)
  have int: "internal [x] s' (Y\<lparr>ly_spare := xs\<rparr>) = internal [] s Y"
    using assms(2) c by (auto simp: internal_def records_def same_core_def)
  have "x \<notin> large_metas Y" using h(5) assms(2) by (auto simp: records_def large_metas_def)
  then have li: "lists_inv s' (Y\<lparr>ly_spare := xs\<rparr>)"
    by (intro lists_inv_frame [OF h(7)]) (auto simp: s'_def store_stack_def k'_def k_def load_stack_def)
  have d: "distinct (lgBuckets s' @ records (Y\<lparr>ly_spare := xs\<rparr>) @ [x])"
    using h(5) assms(2) c by (auto simp: records_def same_core_def)
  have "x \<noteq> 0" using st by (simp add: stack_repr_def)
  then show ?thesis using pop heap_with_spare [OF assms(1) c int d p(2) [folded l] li] by blast
qed

lemma push_spare:
  assumes "heap_with [m] s Y" "m \<noteq> 0"
  shows "\<exists>s'. push_meta m s = Some s' \<and> heap_with [] s' (Y\<lparr>ly_spare := m # ly_spare Y\<rparr>)
     \<and> blocks_with [] s' (Y\<lparr>ly_spare := m # ly_spare Y\<rparr>) = blocks_with [m] s Y \<and> same_core s s'
     \<and> heap_pages s' (Y\<lparr>ly_spare := m # ly_spare Y\<rparr>) = heap_pages s Y"
proof -
  note h = heap_withD [OF assms(1)]
  have m: "m \<notin> set (ly_spare Y)" "m \<notin> large_metas Y" using h(5) by (auto simp: records_def large_metas_def)
  define k where "k = load_stack s"
  define k' where "k' = k\<lparr>s_next := (s_next k)(m := s_first k), s_first := m\<rparr>"
  define s' where "s' = store_stack k' s"
  note p = stack_push_ok [OF h(6) assms(2) m(1), folded k_def, folded k'_def]
  have push: "push_meta m s = Some s'" using p(1) by (simp add: push_meta_def k_def s'_def)
  have c: "same_core s s'" by (simp add: same_core_def s'_def store_stack_def)
  have l: "load_stack s' = k'" by (simp add: load_stack_def s'_def store_stack_def)
  have int: "internal [] s' (Y\<lparr>ly_spare := m # ly_spare Y\<rparr>) = internal [m] s Y"
    using c by (auto simp: internal_def records_def same_core_def)
  have li: "lists_inv s' (Y\<lparr>ly_spare := m # ly_spare Y\<rparr>)"
    using m(2) by (intro lists_inv_frame [OF h(7)]) (auto simp: s'_def store_stack_def k'_def k_def load_stack_def)
  have d: "distinct (lgBuckets s' @ records (Y\<lparr>ly_spare := m # ly_spare Y\<rparr>) @ [])"
    using h(5) c by (auto simp: records_def same_core_def)
  show ?thesis using push c heap_with_spare [OF assms(1) c int d p(2) [folded l] li] by blast
qed

subsection \<open>Records and small blocks\<close>

lemma aligned_mask: "page_aligned q \<Longrightarrow> q AND NOT PageMask = 0"
proof -
  assume a: "page_aligned q"
  have m: "NOT PageMask = (mask 12 :: addr)" by (simp add: PageMask_def PageSize_def mask_eq_exp_minus_1)
  have "unat (q AND NOT PageMask) = unat q mod 4096"
    unfolding m take_bit_eq_mask [symmetric] by (simp add: unsigned_take_bit_eq take_bit_eq_mod unat_mod)
  also have "\<dots> = 0" using a by (auto simp: page_aligned_def)
  finally show ?thesis by (simp add: unat_eq_0)
qed

lemma small_not_large:
  assumes "heap_with R s Y" "(a, n) \<in> small_blocks (k_buckets s) (k_heap s) Y"
  shows "a \<notin> large_pages s Y"
  using small_block_page [OF heap_withD(2) [OF assms(1)] assms(2)]
    aligned_mask large_pages_props(1) [OF assms(1)] by metis

text \<open>Serving a small request adds one block and leaves the records alone.\<close>

lemma heap_small:
  assumes "heap_with R s Y" "small_served s Y a n s' Y'"
  shows "heap_with R s' Y'" "blocks_with R s' Y' = insert (a, n) (blocks_with R s Y)"
    "a \<notin> internal R s' Y'" "(a, n) \<in> small_blocks (k_buckets s') (k_heap s') Y'" "a \<noteq> 0"
    "a \<notin> fst ` blocks_with R s Y" "heap_pages s' Y' = heap_pages s Y"
proof -
  note h = heap_withD [OF assms(1)]
  obtain bs g where g: "s' = s\<lparr>k_buckets := bs, k_heap := g\<rparr>" "small_inv bs g Y'" "all_pages g Y' = all_pages (k_heap s) Y"
    "a \<noteq> 0" "a \<notin> fst ` small_blocks (k_buckets s) (k_heap s) Y"
    "small_blocks bs g Y' = insert (a, n) (small_blocks (k_buckets s) (k_heap s) Y)"
    "ly_large Y' = ly_large Y" "ly_spare Y' = ly_spare Y"
    using assms(2) unfolding small_served_def by blast
  have eq: "records Y' = records Y" "large_metas Y' = large_metas Y" "internal R s' Y' = internal R s Y"
    "large_pages s' Y' = large_pages s Y" "load_stack s' = load_stack s" "load_large s' = load_large s"
    "paged s' = paged s"
    by (simp_all add: g(1,7,8) records_def large_metas_def internal_def large_pages_def load_stack_def load_large_def
        paged_def fun_eq_iff)
  have "lists_inv s' Y'" using h(7) unfolding lists_inv_def eq(6) g(7) by (simp add: g(1))
  then show hw: "heap_with R s' Y'"
    using h g(2,3,6-8) unfolding heap_with_def large_inv_def eq by (auto simp: g(1))
  show "heap_pages s' Y' = heap_pages s Y" unfolding heap_pages_def eq using g(3) by (simp add: g(1))
  show "a \<notin> internal R s' Y'" unfolding eq using h(10) g(5) by blast
  then show "blocks_with R s' Y' = insert (a, n) (blocks_with R s Y)"
    unfolding blocks_with_def eq using g(6) by (auto simp: g(1))
  show sm: "(a, n) \<in> small_blocks (k_buckets s') (k_heap s') Y'" "a \<noteq> 0" using g(4,6) by (simp_all add: g(1))
  have "a \<notin> large_pages s Y" using small_not_large [OF hw sm(1)] unfolding eq(4) .
  with g(5) show "a \<notin> fst ` blocks_with R s Y" by (auto simp: blocks_with_def image_iff)
qed

text \<open>A small block becomes a record.\<close>

lemma small_block_size:
  assumes "small_inv bs h Y" "(a, n) \<in> small_blocks bs h Y" "(a, m) \<in> small_blocks bs h Y"
  shows "n = m"
proof -
  obtain i p j k q l where
    "i < 29" "(p, j) \<in> class_live h Y i" "a = item_addr (bs ! i) p j" "n = unat (bk_itemSize (bs ! i))"
    "k < 29" "(q, l) \<in> class_live h Y k" "a = item_addr (bs ! k) q l" "m = unat (bk_itemSize (bs ! k))"
    using assms(2,3) unfolding small_blocks_def by blast
  then show ?thesis using small_addr_inj [OF assms(1), of i p j k q l] by auto
qed

lemma claim_record:
  assumes "heap_with [] s Y" "(a, n) \<in> small_blocks (k_buckets s) (k_heap s) Y" "a \<notin> internal [] s Y"
  shows "heap_with [a] (meta_new a s) Y" "blocks_with [a] (meta_new a s) Y = blocks_with [] s Y - {(a, n)}"
    "heap_pages (meta_new a s) Y = heap_pages s Y"
proof -
  note h = heap_withD [OF assms(1)]
  have a: "a \<notin> set (ly_spare Y)" "a \<notin> large_metas Y" using assms(3) by (auto simp: internal_def in_records)
  have pg: "paged (meta_new a s) k m = paged s k m" if "m \<in> large_metas Y" for k m
    using a(2) that by (auto simp: paged_def meta_new_def)
  have pgs: "\<forall>k<32. \<forall>m\<in>set (ly_large Y k). paged (meta_new a s) k m"
  proof (intro allI impI ballI)
    fix k m assume k: "k < 32" "m \<in> set (ly_large Y k)"
    then have "m \<in> large_metas Y" by (auto simp: large_metas_def)
    then show "paged (meta_new a s) k m" using pg h(8) [OF k] by simp
  qed
  have lp: "large_pages (meta_new a s) Y = large_pages s Y"
    unfolding large_pages_def by (rule image_cong) (use a(2) in \<open>auto simp: meta_new_def\<close>)
  have li: "lists_inv (meta_new a s) Y"
    by (rule lists_inv_frame [OF h(7)]) (use a(2) in \<open>auto simp: meta_new_def\<close>)
  have st: "stack_repr (load_stack (meta_new a s)) (ly_spare Y)"
    using h(6) a(1) by (simp add: stack_repr_def load_stack_def meta_new_def)
  have "inj_on (meta_page (meta_new a s)) (large_metas Y) = inj_on (meta_page s) (large_metas Y)"
    by (rule inj_on_cong) (use a(2) in \<open>auto simp: meta_new_def\<close>)
  then have inj: "inj_on (meta_page (meta_new a s)) (large_metas Y)" using h(9) by simp
  have int: "internal [a] (meta_new a s) Y = insert a (internal [] s Y)" by (auto simp: internal_def meta_new_def)
  have fr: "canKallocNow (meta_new a s) = canKallocNow s" "k_buckets (meta_new a s) = k_buckets s"
    "k_heap (meta_new a s) = k_heap s" "lgMutex (meta_new a s) = lgMutex s" "lgBuckets (meta_new a s) = lgBuckets s"
    by (simp_all add: meta_new_def)
  show "heap_pages (meta_new a s) Y = heap_pages s Y" unfolding heap_pages_def lp fr ..
  have "distinct (lgBuckets s @ records Y @ [a])" using h(5) assms(3) by (auto simp: internal_def)
  moreover have "insert a (internal [] s Y) \<subseteq> fst ` small_blocks (k_buckets s) (k_heap s) Y"
    using h(10) assms(2) by force
  ultimately show "heap_with [a] (meta_new a s) Y"
    unfolding heap_with_def large_inv_def lp int fr using h(1-4,11) li st inj pgs by simp
  show "blocks_with [a] (meta_new a s) Y = blocks_with [] s Y - {(a, n)}"
  proof -
    have u: "fst x \<noteq> a \<longleftrightarrow> x \<noteq> (a, n)" if "x \<in> small_blocks (k_buckets s) (k_heap s) Y" for x
      using small_block_size [OF h(2) assms(2), of "snd x"] that by (cases x) auto
    then have "{x \<in> small_blocks (k_buckets s) (k_heap s) Y. fst x \<notin> insert a (internal [] s Y)}
        = {x \<in> small_blocks (k_buckets s) (k_heap s) Y. fst x \<notin> internal [] s Y} - {(a, n)}" by auto
    moreover have "(a, n) \<notin> large_pages s Y \<times> {4096}" using small_not_large [OF assms(1,2)] by simp
    ultimately show ?thesis unfolding blocks_with_def lp int fr by (simp add: Un_Diff)
  qed
qed

lemma get_record:
  assumes "heap_with [] s Y" "ly_spare Y = []"
  shows "pop_meta s = Some (0, s)"
    and "(kalloc_small 16 s = Some (Inl NullDeref) \<and> pa_free_set (pages (k_heap s)) = {})
     \<or> (\<exists>a s' Y'. kalloc_small 16 s = Some (Inr (a, s')) \<and> a \<noteq> 0 \<and> heap_with [a] (meta_new a s') Y'
        \<and> blocks_with [a] (meta_new a s') Y' = blocks_with [] s Y \<and> heap_pages (meta_new a s') Y' = heap_pages s Y)"
proof -
  note h = heap_withD [OF assms(1)]
  have st: "stack_repr (load_stack s) []" using h(6) assms(2) by simp
  then have "stack_pop (load_stack s) = Some (0, load_stack s)"
    by (auto simp: stack_repr_def stack_pop_def unlocked Let_def)
  moreover have "store_stack (load_stack s) s = s" by (simp add: store_stack_def load_stack_def)
  ultimately show "pop_meta s = Some (0, s)" by (simp add: pop_meta_def)
  from small_alloc [OF h(2), of 16]
  consider "kalloc_small 16 s = Some (Inl NullDeref)" "pa_free_set (pages (k_heap s)) = {}"
    | a n s' Y' where "kalloc_small 16 s = Some (Inr (a, s'))" "small_served s Y a n s' Y'"
    by auto
  then show "(kalloc_small 16 s = Some (Inl NullDeref) \<and> pa_free_set (pages (k_heap s)) = {})
     \<or> (\<exists>a s' Y'. kalloc_small 16 s = Some (Inr (a, s')) \<and> a \<noteq> 0 \<and> heap_with [a] (meta_new a s') Y'
        \<and> blocks_with [a] (meta_new a s') Y' = blocks_with [] s Y \<and> heap_pages (meta_new a s') Y' = heap_pages s Y)"
  proof cases
    case (2 a n s' Y')
    note g = heap_small [OF assms(1) 2(2)]
    note c = claim_record [OF g(1,4,3)]
    have "blocks_with [a] (meta_new a s') Y' = blocks_with [] s Y" using c(2) g(2,6) by force
    moreover have "heap_pages (meta_new a s') Y' = heap_pages s Y" using c(3) g(7) by simp
    ultimately show ?thesis using 2(1) g(5) c(1) by blast
  qed blast
qed

subsection \<open>Records on the lists\<close>

text \<open>The loop of kfree finds the record of a page, if the list has one.\<close>

definition first_with :: "(addr \<Rightarrow> bool) \<Rightarrow> addr list \<Rightarrow> addr" where
  "first_with P xs = (case List.find P xs of None \<Rightarrow> 0 | Some m \<Rightarrow> m)"

lemma find_meta_from:
  assumes "dl_repr d xs" "i < length xs"
  shows "find_meta d page ptr (iter_at d xs i) = Some (first_with (\<lambda>m. page m = ptr) (drop i xs))"
  using assms(2)
proof (induction "length xs - i" arbitrary: i)
  case (Suc k)
  have d: "drop i xs = xs ! i # drop (Suc i) xs" using Suc.prems by (simp add: Cons_nth_drop_Suc)
  have ne: "\<not> iter_eq (iter_at d xs i) (iter_end d)"
    by (simp add: iter_eq_def iter_at_def iter_end_def iter_make_def)
  have cur: "it_current (iter_at d xs i) = xs ! i" by (simp add: iter_at_def)
  show ?case
  proof (cases "page (xs ! i) = ptr")
    case True
    then show ?thesis by (subst find_meta.simps) (simp add: ne cur d first_with_def)
  next
    case False
    have u: "find_meta d page ptr (iter_at d xs i) = find_meta d page ptr (iter_inc d (iter_at d xs i))"
      using False by (subst find_meta.simps) (simp add: ne cur)
    show ?thesis
    proof (cases "Suc i < length xs")
      case True
      then show ?thesis
        using Suc.hyps(1) [of "Suc i"] Suc.hyps(2) False u iter_inc_at [OF assms(1) True]
        by (simp add: d first_with_def)
    next
      case e: False
      then have "Suc i = length xs" using Suc.prems by simp
      then have "iter_eq (iter_inc d (iter_at d xs i)) (iter_end d)" by (rule iter_inc_last [OF assms(1)])
      then have "find_meta d page ptr (iter_inc d (iter_at d xs i)) = Some 0" by (subst find_meta.simps) simp
      then show ?thesis using u False e by (simp add: d first_with_def)
    qed
  qed
qed simp

lemma find_meta_list:
  assumes "dl_repr d xs"
  shows "find_meta d page ptr (iter_begin d) = Some (first_with (\<lambda>m. page m = ptr) xs)"
proof (cases "xs = []")
  case True
  then have "m_first d = 0" "m_last d = 0" using assms by (simp_all add: dl_repr_def)
  then show ?thesis
    using True by (subst find_meta.simps)
      (simp add: iter_eq_def iter_begin_def iter_end_def iter_make_def first_with_def)
next
  case False
  then show ?thesis using find_meta_from [OF assms, of 0] iter_begin_at [OF assms False] by simp
qed

lemma first_with_in: "x \<in> set xs \<Longrightarrow> P x \<Longrightarrow> first_with P xs \<in> set xs \<and> P (first_with P xs)"
  by (auto simp: first_with_def find_Some_iff split: option.split)
    (metis find_None_iff)+

lemma first_with_none: "\<forall>x\<in>set xs. \<not> P x \<Longrightarrow> first_with P xs = 0"
  by (auto simp: first_with_def find_None_iff split: option.split dest: find_Some_iff [THEN iffD1])

text \<open>Changing one list.\<close>

definition set_large :: "nat \<Rightarrow> addr list \<Rightarrow> layout \<Rightarrow> layout" where
  "set_large k xs Y = Y\<lparr>ly_large := (ly_large Y)(k := xs)\<rparr>"

lemma set_large_simps [simp]:
  "ly_spare (set_large k xs Y) = ly_spare Y" "ly_large (set_large k xs Y) = (ly_large Y)(k := xs)"
  "small_inv bs h (set_large k xs Y) = small_inv bs h Y" "all_pages h (set_large k xs Y) = all_pages h Y"
  "small_blocks bs h (set_large k xs Y) = small_blocks bs h Y" "own (set_large k xs Y) = own Y"
  by (simp_all add: set_large_def)

lemma records_set_large:
  assumes "k < 32"
  shows "mset (records (set_large k xs Y)) + mset (ly_large Y k) = mset (records Y) + mset xs"
proof -
  have s: "[0..<32] = [0..<k] @ k # [Suc k..<32]"
    using assms upt_add_eq_append [of 0 k "32 - k"] by (simp add: upt_conv_Cons)
  have "concat (map ((ly_large Y)(k := xs)) [0..<k]) = concat (map (ly_large Y) [0..<k])"
    "concat (map ((ly_large Y)(k := xs)) [Suc k..<32]) = concat (map (ly_large Y) [Suc k..<32])"
    by (intro arg_cong [where f = concat] map_cong; simp)+
  then show ?thesis unfolding records_def s by simp
qed

lemma large_metas_set_large:
  assumes "k < 32"
  shows "large_metas (set_large k xs Y) = set xs \<union> (\<Union>j\<in>{..<32} - {k}. set (ly_large Y j))"
    "large_metas Y = set (ly_large Y k) \<union> (\<Union>j\<in>{..<32} - {k}. set (ly_large Y j))"
  using assms by (auto simp: large_metas_def split: if_splits)

text \<open>Storing a list back: its header changes, and links inside a set of records.\<close>

lemma lists_inv_store:
  assumes "lists_inv s Y" "k < 32" "length (lgBuckets s) = 32" "distinct (lgBuckets s)"
    and "dl_repr d xs" "links_frame A (load_large s (lgBuckets s ! k)) d"
    and "\<And>j. j < 32 \<Longrightarrow> j \<noteq> k \<Longrightarrow> A \<inter> set (ly_large Y j) = {}"
  shows "lists_inv (store_large (lgBuckets s ! k) d s) (set_large k xs Y)"
proof -
  define s' where "s' = store_large (lgBuckets s ! k) d s"
  have lb: "lgBuckets s' = lgBuckets s" by (simp add: s'_def store_large_def)
  have "dl_repr (load_large s' (lgBuckets s ! j)) (((ly_large Y)(k := xs)) j)" if j: "j < 32" for j
  proof (cases "j = k")
    case True
    have "load_large s' (lgBuckets s ! k) = d"
      by (simp add: s'_def load_large_def store_large_def store_hdr_def)
    then show ?thesis using assms(5) True by simp
  next
    case False
    have "lgBuckets s ! j \<noteq> lgBuckets s ! k" using assms(2-4) j False by (simp add: nth_eq_iff_index_eq)
    then have hd: "lgHdr s' (lgBuckets s ! j) = lgHdr s (lgBuckets s ! j)" by (simp add: s'_def store_large_def)
    have ln: "meta_prev s' y = meta_prev s y \<and> meta_next s' y = meta_next s y" if "y \<in> set (ly_large Y j)" for y
    proof -
      have "y \<notin> A" using assms(7) [OF j False] that by blast
      then show ?thesis using assms(6) by (simp add: links_frame_def s'_def store_large_def load_large_def)
    qed
    have "dl_repr (load_large s (lgBuckets s ! j)) (ly_large Y j)" using assms(1) j by (simp add: lists_inv_def)
    then have "dl_repr (load_large s' (lgBuckets s ! j)) (ly_large Y j)" using hd ln by (rule dl_frame)
    then show ?thesis using False by simp
  qed
  then show ?thesis unfolding lists_inv_def s'_def [symmetric] lb by simp
qed

text \<open>Pages that come and go on the free side.\<close>

lemma bucket_inv_repage:
  assumes "bucket_inv b h ps fs es" "pa_inv pa" "\<forall>q\<in>pa_free_set pa. page_aligned q"
    and "set (ps @ fs @ es) \<inter> pa_free_set pa = {}"
  shows "bucket_inv b (h\<lparr>pages := pa, allocatedPages := n\<rparr>) ps fs es"
  using assms by (simp add: bucket_inv_def bucket_core_def bucket_ok_def pages_ok_def lists_ok_def used_def)

lemma small_inv_repage:
  assumes "small_inv bs h Y" "pa_inv pa" "\<forall>q\<in>pa_free_set pa. page_aligned q"
    and "\<And>i. i < 29 \<Longrightarrow> own Y i \<inter> pa_free_set pa = {}"
  shows "small_inv bs (h\<lparr>pages := pa, allocatedPages := n\<rparr>) Y"
    "small_blocks bs (h\<lparr>pages := pa, allocatedPages := n\<rparr>) Y = small_blocks bs h Y"
proof -
  have "class_ok bs (h\<lparr>pages := pa, allocatedPages := n\<rparr>) Y i" if "i < 29" for i
    using assms(1-3) assms(4) [OF that] that bucket_inv_repage [of "bs ! i" h _ _ _ pa n]
    by (simp add: small_inv_def class_ok_def own_def)
  then show "small_inv bs (h\<lparr>pages := pa, allocatedPages := n\<rparr>) Y" using assms(1) by (simp add: small_inv_def)
  show "small_blocks bs (h\<lparr>pages := pa, allocatedPages := n\<rparr>) Y = small_blocks bs h Y"
    by (simp add: small_blocks_def class_live_def live_def)
qed

subsection \<open>Attaching a page to a record\<close>

lemma hash_bound: "unat (hash_ptr q) < 32"
proof -
  have m: "of_nat (LG_BUCKET_SIZE - 1) = (mask 5 :: addr)" by (simp add: LG_BUCKET_SIZE_def mask_eq_exp_minus_1)
  have "unat (drop_bit PageShift q AND of_nat (LG_BUCKET_SIZE - 1) :: addr) < 32"
    unfolding m take_bit_eq_mask [symmetric] unsigned_take_bit_eq
    using take_bit_nat_less_exp [of 5 "unat (drop_bit PageShift q)"] by simp
  then show ?thesis by (simp add: hash_ptr_def unat_ucast_mod)
qed

lemma attach_page:
  fixes n :: size32 and c :: "addr \<Rightarrow> size32"
  assumes "heap_with [m] s Y" "m \<noteq> 0" "q \<noteq> 0" "page_aligned q" "q \<in> pa_free_set (pages (k_heap s))"
    and "pa_inv pa" "pa_free_set pa = pa_free_set (pages (k_heap s)) - {q}"
  defines "k \<equiv> unat (hash_ptr q)"
  defines "s1 \<equiv> s\<lparr>k_heap := (k_heap s)\<lparr>pages := pa, allocatedPages := n\<rparr>,
      meta_page := (meta_page s)(m := q), meta_count := c\<rparr>"
  shows "\<exists>d. push_front m (load_large s1 (lgBuckets s ! k)) = Inr d
     \<and> heap_with [] (store_large (lgBuckets s ! k) d s1) (set_large k (m # ly_large Y k) Y)
     \<and> blocks_with [] (store_large (lgBuckets s ! k) d s1) (set_large k (m # ly_large Y k) Y)
         = insert (q, 4096) (blocks_with [m] s Y)
     \<and> q \<notin> fst ` blocks_with [m] s Y
     \<and> heap_pages (store_large (lgBuckets s ! k) d s1) (set_large k (m # ly_large Y k) Y) = heap_pages s Y"
proof -
  note h = heap_withD [OF assms(1)]
  have k: "k < 32" using hash_bound by (simp add: k_def)
  have m: "m \<notin> large_metas Y" "m \<notin> set (records Y)" "m \<notin> set (lgBuckets s)"
    using h(5) by (auto simp: in_records)
  then have mk: "m \<notin> set (ly_large Y k)" using k by (auto simp: large_metas_def)
  have ll: "load_large s1 = load_large s" by (simp add: s1_def load_large_def fun_eq_iff)
  have r: "dl_repr (load_large s (lgBuckets s ! k)) (ly_large Y k)" using h(7) k by (simp add: lists_inv_def)
  obtain d where d: "push_front m (load_large s (lgBuckets s ! k)) = Inr d" "dl_repr d (m # ly_large Y k)"
    using push_front_repr [OF r assms(2) mk] by blast
  define s2 where "s2 = store_large (lgBuckets s ! k) d s1"
  define Y2 where "Y2 = set_large k (m # ly_large Y k) Y"
  have q: "q \<in> all_pages (k_heap s) Y" "q \<notin> large_pages s Y"
    using assms(5) h(11) by (auto simp: all_pages_def)
  have fr: "canKallocNow s2 = canKallocNow s" "k_buckets s2 = k_buckets s" "lgMutex s2 = lgMutex s"
    "k_heap s2 = (k_heap s)\<lparr>pages := pa, allocatedPages := n\<rparr>" "lgBuckets s2 = lgBuckets s"
    "meta_page s2 = (meta_page s)(m := q)"
    by (simp_all add: s2_def s1_def store_large_def)
  have lm: "large_metas Y2 = insert m (large_metas Y)"
    using large_metas_set_large [OF k] by (simp add: Y2_def)
  have rec: "mset (records Y2) = add_mset m (mset (records Y))"
    using records_set_large [OF k, of "m # ly_large Y k" Y] by (simp add: Y2_def)
  then have rs: "set (records Y2) = insert m (set (records Y))"
    by (metis set_mset_add_mset_insert set_mset_mset)
  have "mset (lgBuckets s @ records Y2) = mset (lgBuckets s @ records Y @ [m])" using rec by simp
  then have dis: "distinct (lgBuckets s @ records Y2)" using h(5) mset_eq_imp_distinct_iff by blast
  have int: "internal [] s2 Y2 = internal [m] s Y" by (auto simp: internal_def fr(5) rs)
  have pg: "paged s2 j x = paged s j x" if "x \<noteq> m" for j x using that by (simp add: paged_def fr(6))
  have "q \<notin> meta_page s ` large_metas Y" using q(2) by (simp add: large_pages_def)
  then have lp: "large_pages s2 Y2 = insert q (large_pages s Y)" and inj: "inj_on (meta_page s2) (large_metas Y2)"
    using h(9) m(1) by (auto simp: large_pages_def lm fr(6) inj_on_fun_updI fun_upd_image)
  have pgs: "\<forall>j<32. \<forall>x\<in>set (ly_large Y2 j). paged s2 j x"
  proof (intro allI impI ballI)
    fix j x assume j: "j < 32" "x \<in> set (ly_large Y2 j)"
    show "paged s2 j x"
    proof (cases "x = m")
      case True
      then have "j = k" using j m(1) by (auto simp: Y2_def large_metas_def split: if_splits)
      then show ?thesis using True assms(3,4) by (simp add: paged_def fr(6) k_def)
    next
      case False
      then have "x \<in> set (ly_large Y j)" using j(2) by (auto simp: Y2_def split: if_splits)
      then show ?thesis using pg [OF False] h(8) [OF j(1)] by simp
    qed
  qed
  have "lists_inv s1 Y" using h(7) unfolding lists_inv_def ll by (simp add: s1_def)
  moreover have "links_frame (insert m (set (ly_large Y k))) (load_large s1 (lgBuckets s1 ! k)) d"
    using push_front_frame [OF r d(1)] unfolding ll by (simp add: s1_def)
  moreover have lb: "lgBuckets s1 = lgBuckets s" by (simp add: s1_def)
  moreover have "insert m (set (ly_large Y k)) \<inter> set (ly_large Y j) = {}" if "j < 32" "j \<noteq> k" for j
  proof -
    have "m \<notin> set (ly_large Y j)" using m(1) that by (auto simp: large_metas_def)
    moreover have False if y: "y \<in> set (ly_large Y k)" "y \<in> set (ly_large Y j)" for y
      using h(8) [OF k y(1)] h(8) [OF \<open>j < 32\<close> y(2)] \<open>j \<noteq> k\<close> by (simp add: paged_def)
    ultimately show ?thesis by blast
  qed
  ultimately have li: "lists_inv s2 Y2"
    using lists_inv_store [of s1 Y k d "m # ly_large Y k" "insert m (set (ly_large Y k))"] h(4,5) k d(2)
    by (simp add: s2_def Y2_def lb)
  have st: "stack_repr (load_stack s2) (ly_spare Y)"
  proof -
    have "meta_next s2 y = meta_next s y" if "y \<in> set (ly_spare Y)" for y
    proof -
      have "y \<notin> large_metas Y" "y \<noteq> m" using spare_not_large [OF assms(1)] that m(2) by (auto simp: in_records)
      then have "y \<notin> insert m (set (ly_large Y k))" using k by (auto simp: large_metas_def)
      then show ?thesis
        using push_front_frame [OF r d(1)] by (simp add: links_frame_def s2_def store_large_def load_large_def)
    qed
    then have "chained (meta_next s2) (free_first s) (ly_spare Y) = chained (meta_next s) (free_first s) (ly_spare Y)"
      by (rule chained_cong)
    then show ?thesis using h(6) by (simp add: stack_repr_def load_stack_def s2_def s1_def store_large_def)
  qed
  have al: "\<forall>x\<in>pa_free_set pa. page_aligned x" using small_inv_pages(2) [OF h(2)] assms(7) by simp
  have "own Y i \<inter> pa_free_set pa = {}" if "i < 29" for i using small_inv_pages(3) [OF h(2) that] assms(7) by blast
  note sm = small_inv_repage [OF h(2) assms(6) al this, of n]
  have ap: "all_pages (k_heap s2) Y2 = all_pages (k_heap s) Y - {q}"
    using assms(5,7) small_inv_pages(3) [OF h(2)] by (auto simp: all_pages_def fr(4) Y2_def)
  then have "large_pages s2 Y2 \<inter> all_pages (k_heap s2) Y2 = {}" using h(11) unfolding lp by blast
  moreover have "heap_pages s2 Y2 = heap_pages s Y" unfolding heap_pages_def ap lp using q(1) by blast
  note hp = this
  ultimately have "heap_with [] s2 Y2"
    unfolding heap_with_def large_inv_def
    using h(1,3,4,10) dis st li pgs inj sm int by (simp add: fr Y2_def)
  moreover have "blocks_with [] s2 Y2 = insert (q, 4096) (blocks_with [m] s Y)"
    unfolding blocks_with_def int lp using sm(2) by (auto simp: fr Y2_def)
  moreover have "q \<notin> fst ` blocks_with [m] s Y"
  proof -
    have "q \<notin> fst ` small_blocks (k_buckets s) (k_heap s) Y"
    proof
      assume "q \<in> fst ` small_blocks (k_buckets s) (k_heap s) Y"
      then obtain z where "(q, z) \<in> small_blocks (k_buckets s) (k_heap s) Y" by auto
      then show False using small_block_page [OF h(2)] aligned_mask [OF assms(4)] by metis
    qed
    then show ?thesis using q(2) by (auto simp: blocks_with_def image_iff)
  qed
  ultimately show ?thesis using d(1) hp unfolding ll s2_def Y2_def by blast
qed

text \<open>A loose record may be given any page field while pages come and go.\<close>

lemma retag_record:
  fixes n :: size32 and v :: addr
  assumes "heap_with [m] s Y" "pa_inv pa" "\<forall>x\<in>pa_free_set pa. page_aligned x"
    and "\<And>i. i < 29 \<Longrightarrow> own Y i \<inter> pa_free_set pa = {}" "large_pages s Y \<inter> pa_free_set pa = {}"
  defines "s1 \<equiv> s\<lparr>k_heap := (k_heap s)\<lparr>pages := pa, allocatedPages := n\<rparr>, meta_page := (meta_page s)(m := v)\<rparr>"
  shows "heap_with [m] s1 Y" "blocks_with [m] s1 Y = blocks_with [m] s Y"
    "heap_pages s1 Y = (\<Union>i<29. own Y i) \<union> pa_free_set pa \<union> large_pages s Y"
proof -
  note h = heap_withD [OF assms(1)]
  have m: "m \<notin> large_metas Y" using h(5) by (auto simp: in_records)
  have fr: "canKallocNow s1 = canKallocNow s" "k_buckets s1 = k_buckets s" "lgMutex s1 = lgMutex s"
    "k_heap s1 = (k_heap s)\<lparr>pages := pa, allocatedPages := n\<rparr>" "lgBuckets s1 = lgBuckets s"
    "load_stack s1 = load_stack s" "load_large s1 = load_large s" "internal [m] s1 Y = internal [m] s Y"
    by (simp_all add: s1_def load_stack_def load_large_def fun_eq_iff internal_def)
  have pg: "meta_page s1 x = meta_page s x" if "x \<in> large_metas Y" for x using m that by (auto simp: s1_def)
  have lp: "large_pages s1 Y = large_pages s Y" unfolding large_pages_def using pg by (rule image_cong [OF refl])
  have "inj_on (meta_page s1) (large_metas Y) = inj_on (meta_page s) (large_metas Y)" using pg by (rule inj_on_cong)
  then have inj: "inj_on (meta_page s1) (large_metas Y)" using h(9) by simp
  have pgs: "\<forall>k<32. \<forall>x\<in>set (ly_large Y k). paged s1 k x"
  proof (intro allI impI ballI)
    fix k x assume k: "k < 32" "x \<in> set (ly_large Y k)"
    then have "x \<in> large_metas Y" by (auto simp: large_metas_def)
    then show "paged s1 k x" using pg h(8) [OF k] by (simp add: paged_def)
  qed
  have li: "lists_inv s1 Y" using h(7) unfolding lists_inv_def fr(5,7) .
  note sm = small_inv_repage [OF h(2) assms(2,3,4), of n]
  show "heap_pages s1 Y = (\<Union>i<29. own Y i) \<union> pa_free_set pa \<union> large_pages s Y"
    by (simp add: heap_pages_def lp fr(4) all_pages_def)
  have "large_pages s Y \<inter> all_pages ((k_heap s)\<lparr>pages := pa, allocatedPages := n\<rparr>) Y = {}"
    using h(11) assms(5) by (auto simp: all_pages_def)
  then show "heap_with [m] s1 Y"
    unfolding heap_with_def large_inv_def fr lp using h(1,3,4,5,6,10) li pgs inj sm by simp
  show "blocks_with [m] s1 Y = blocks_with [m] s Y"
    unfolding blocks_with_def fr lp using sm(2) by simp
qed

text \<open>Taking the record of a page off its list.\<close>

lemma detach_record:
  assumes "heap_with [] s Y" "k < 32" "ly_large Y k = xs @ m # ys"
  shows "\<exists>d. remove_node m (load_large s (lgBuckets s ! k)) = Inr d
     \<and> heap_with [m] (store_large (lgBuckets s ! k) d s) (set_large k (xs @ ys) Y)
     \<and> large_pages (store_large (lgBuckets s ! k) d s) (set_large k (xs @ ys) Y) = large_pages s Y - {meta_page s m}
     \<and> blocks_with [m] (store_large (lgBuckets s ! k) d s) (set_large k (xs @ ys) Y)
         = blocks_with [] s Y - {(meta_page s m, 4096)}"
proof -
  note h = heap_withD [OF assms(1)]
  have r: "dl_repr (load_large s (lgBuckets s ! k)) (xs @ m # ys)"
    unfolding assms(3) [symmetric] using h(7) assms(2) by (simp add: lists_inv_def)
  obtain d where d: "remove_node m (load_large s (lgBuckets s ! k)) = Inr d" "dl_repr d (xs @ ys)"
    using remove_node_repr [OF r] by blast
  have f: "links_frame (set (ly_large Y k)) (load_large s (lgBuckets s ! k)) d"
    using remove_frame [OF r _ d(1)] assms(3) by simp
  define s2 where "s2 = store_large (lgBuckets s ! k) d s"
  define Y2 where "Y2 = set_large k (xs @ ys) Y"
  have fr: "canKallocNow s2 = canKallocNow s" "k_buckets s2 = k_buckets s" "lgMutex s2 = lgMutex s"
    "k_heap s2 = k_heap s" "lgBuckets s2 = lgBuckets s" "meta_page s2 = meta_page s" "paged s2 = paged s"
    by (simp_all add: s2_def store_large_def paged_def fun_eq_iff)
  have "m \<in> set (ly_large Y k)" using assms(3) by simp
  then have m: "m \<in> large_metas Y" using assms(2) unfolding large_metas_def by blast
  then have m': "m \<notin> set (ly_spare Y)" "m \<notin> set (xs @ ys)"
    using spare_not_large [OF assms(1)] r by (auto simp: dl_repr_def)
  have other: "set (ly_large Y k) \<inter> set (ly_large Y j) = {}" if "j < 32" "j \<noteq> k" for j
    using h(8) [OF assms(2)] h(8) [OF that(1)] that(2) unfolding paged_def by fastforce
  have "m \<notin> set (ly_large Y j)" if "j \<in> {..<32} - {k}" for j using other [of j] that assms(3) by auto
  then have lm: "large_metas Y2 = large_metas Y - {m}"
    using large_metas_set_large [OF assms(2)] m'(2) assms(3) unfolding Y2_def by auto
  have rec: "mset (records Y2 @ [m]) = mset (records Y)"
    using records_set_large [OF assms(2), of "xs @ ys" Y] assms(3) by (simp add: Y2_def)
  then have rs: "set (records Y2) \<union> {m} = set (records Y)"
    by (metis list.simps(15) set_append set_empty set_mset_mset list.set(1))
  have "mset (lgBuckets s @ records Y2 @ [m]) = mset (lgBuckets s @ records Y @ [])" using rec by simp
  then have dis: "distinct (lgBuckets s @ records Y2 @ [m])" using h(5) mset_eq_imp_distinct_iff by blast
  have int: "internal [m] s2 Y2 = internal [] s Y" using rs by (auto simp: internal_def fr(5))
  have lp: "large_pages s2 Y2 = large_pages s Y - {meta_page s m}"
    using h(9) m unfolding large_pages_def lm fr(6) by (simp add: inj_on_image_set_diff [where C = "large_metas Y"])
  have inj: "inj_on (meta_page s2) (large_metas Y2)" using h(9) unfolding lm fr(6) by (rule inj_on_subset) blast
  have pgs: "\<forall>j<32. \<forall>x\<in>set (ly_large Y2 j). paged s2 j x"
    using h(8) assms(2,3) by (auto simp: Y2_def fr(7))
  have li: "lists_inv s2 Y2"
    unfolding s2_def Y2_def
    using lists_inv_store [OF h(7) assms(2) h(4) _ d(2) f other] h(5) by simp
  have st: "stack_repr (load_stack s2) (ly_spare Y)"
  proof -
    have "meta_next s2 y = meta_next s y" if "y \<in> set (ly_spare Y)" for y
    proof -
      have "y \<notin> set (ly_large Y k)" using spare_not_large [OF assms(1)] that assms(2) by (auto simp: large_metas_def)
      then show ?thesis using f by (simp add: links_frame_def s2_def store_large_def load_large_def)
    qed
    then have "chained (meta_next s2) (free_first s) (ly_spare Y) = chained (meta_next s) (free_first s) (ly_spare Y)"
      by (rule chained_cong)
    then show ?thesis using h(6) by (simp add: stack_repr_def load_stack_def s2_def store_large_def)
  qed
  have "heap_with [m] s2 Y2"
    unfolding heap_with_def large_inv_def int lp fr
    using h(1,2,3,4,10,11) dis st li pgs inj by (auto simp: Y2_def fr)
  moreover have "blocks_with [m] s2 Y2 = blocks_with [] s Y - {(meta_page s m, 4096)}"
  proof -
    have "(meta_page s m, 4096) \<notin> small_blocks (k_buckets s) (k_heap s) Y"
      using small_not_large [OF assms(1)] m by (auto simp: large_pages_def)
    then show ?thesis unfolding blocks_with_def int lp fr by (auto simp: Y2_def)
  qed
  ultimately show ?thesis using d(1) lp unfolding s2_def Y2_def by blast
qed

subsection \<open>Large requests\<close>

text \<open>The rest of kalloc_large once a record is at hand.\<close>

definition large_tail :: "size32 \<Rightarrow> addr \<Rightarrow> kalloc_state \<Rightarrow> (addr \<times> kalloc_state) outcome" where
  "large_tail pageCnt meta s =
     (if meta = 0 then Some (Inr (0, s))
      else case allocate_page (pages (k_heap s)) of None \<Rightarrow> None | Some (page, pa) \<Rightarrow>
        let s = s\<lparr>k_heap := (k_heap s)\<lparr>pages := pa, allocatedPages := allocatedPages (k_heap s) + 1\<rparr>,
                  meta_page := (meta_page s)(meta := page)\<rparr>
        in if page = 0 then
             (case push_meta meta s of None \<Rightarrow> None | Some s \<Rightarrow> Some (Inr (0, s)))
           else let s = s\<lparr>meta_count := (meta_count s)(meta := pageCnt)\<rparr>;
                    l = lgBuckets s ! unat (hash_ptr page)
                in case guarded (lgMutex s) (\<lambda>m. push_front meta (load_large s l)) of
                     None \<Rightarrow> None
                   | Some (Inl e, m) \<Rightarrow> Some (Inl e)
                   | Some (Inr d, m) \<Rightarrow> Some (Inr (page, store_large l d (s\<lparr>lgMutex := m\<rparr>))))"

lemma kalloc_large_split:
  "\<not> align_ceiling PageSize sz div PageSize > 1 \<Longrightarrow> kalloc_large sz s =
     (case pop_meta s of None \<Rightarrow> None | Some (meta, s) \<Rightarrow>
        bindo (if meta = 0 then
                 bindo (kalloc_small sizeof_LargePageMeta s) (\<lambda>(ptr, s).
                   Some (Inr (ptr, if ptr = 0 then s else meta_new ptr s)))
               else Some (Inr (meta, s)))
          (\<lambda>(meta, s). large_tail (align_ceiling PageSize sz div PageSize) meta s))"
  by (simp only: kalloc_large_def large_tail_def Let_def if_False split: option.split)

text \<open>What a request achieves: null with the blocks as they were, or one more block.\<close>

definition kheap_repr :: "addr set \<Rightarrow> kalloc_state \<Rightarrow> (addr \<times> nat) set \<Rightarrow> bool" where
  "kheap_repr P s U \<longleftrightarrow> (\<exists>Y. heap_inv s Y \<and> blocks s Y = U \<and> heap_pages s Y = P)"

definition refused :: "addr set \<Rightarrow> kalloc_state \<Rightarrow> (addr \<times> nat) set \<Rightarrow> bool" where
  "refused P s' U \<longleftrightarrow> kheap_repr P s' U \<and> pa_free_set (pages (k_heap s')) = {}"

definition granted :: "addr set \<Rightarrow> addr \<Rightarrow> nat \<Rightarrow> kalloc_state \<Rightarrow> (addr \<times> nat) set \<Rightarrow> bool" where
  "granted P a n s' U \<longleftrightarrow> a \<notin> fst ` U \<and> kheap_repr P s' (insert (a, n) U)"

lemma large_tail_ok:
  assumes "heap_with [m] s Y" "m \<noteq> 0"
  shows "(\<exists>s'. large_tail c m s = Some (Inr (0, s')) \<and> refused (heap_pages s Y) s' (blocks_with [m] s Y))
    \<or> (\<exists>q s'. large_tail c m s = Some (Inr (q, s')) \<and> granted (heap_pages s Y) q 4096 s' (blocks_with [m] s Y))"
proof -
  note h = heap_withD [OF assms(1)]
  note pg = small_inv_pages [OF h(2)]
  let ?n = "allocatedPages (k_heap s) + 1"
  show ?thesis
  proof (rule pa.alloc_cases [OF pg(1)])
    assume a: "allocate_page (pages (k_heap s)) = Some (0, pages (k_heap s))" "pa_free_set (pages (k_heap s)) = {}"
    let ?s = "s\<lparr>k_heap := (k_heap s)\<lparr>pages := pages (k_heap s), allocatedPages := ?n\<rparr>, meta_page := (meta_page s)(m := 0)\<rparr>"
    have r: "heap_with [m] ?s Y" "blocks_with [m] ?s Y = blocks_with [m] s Y" "heap_pages ?s Y = heap_pages s Y"
      using retag_record [OF assms(1) pg(1), where n = ?n and v = 0] pg(2,3) a(2) by (auto simp: heap_pages_def all_pages_def)
    obtain s' where s': "push_meta m ?s = Some s'" "heap_with [] s' (Y\<lparr>ly_spare := m # ly_spare Y\<rparr>)"
      "blocks_with [] s' (Y\<lparr>ly_spare := m # ly_spare Y\<rparr>) = blocks_with [m] ?s Y" "same_core ?s s'"
      "heap_pages s' (Y\<lparr>ly_spare := m # ly_spare Y\<rparr>) = heap_pages ?s Y"
      using push_spare [OF r(1) assms(2)] by blast
    have "large_tail c m s = Some (Inr (0, s'))" using assms(2) a(1) s'(1) by (simp add: large_tail_def Let_def)
    moreover have "k_heap s' = k_heap ?s" using s'(4) by (simp only: same_core_def)
    then have "pa_free_set (pages (k_heap s')) = {}" using a(2) by simp
    ultimately show ?thesis
      using s'(2,3,5) r(2,3) unfolding refused_def kheap_repr_def heap_inv_def blocks_def by metis
  next
    fix q pa
    assume a: "allocate_page (pages (k_heap s)) = Some (q, pa)" "q \<noteq> 0" "q \<in> pa_free_set (pages (k_heap s))"
      "pa_inv pa" "pa_free_set pa = pa_free_set (pages (k_heap s)) - {q}"
    let ?k = "unat (hash_ptr q)"
    define s1 where "s1 = s\<lparr>k_heap := (k_heap s)\<lparr>pages := pa, allocatedPages := ?n\<rparr>,
      meta_page := (meta_page s)(m := q), meta_count := (meta_count s)(m := c)\<rparr>"
    have al: "page_aligned q" using pg(2) a(3) by blast
    obtain d where d: "push_front m (load_large s1 (lgBuckets s ! ?k)) = Inr d"
      "heap_with [] (store_large (lgBuckets s ! ?k) d s1) (set_large ?k (m # ly_large Y ?k) Y)"
      "blocks_with [] (store_large (lgBuckets s ! ?k) d s1) (set_large ?k (m # ly_large Y ?k) Y)
         = insert (q, 4096) (blocks_with [m] s Y)" "q \<notin> fst ` blocks_with [m] s Y"
      "heap_pages (store_large (lgBuckets s ! ?k) d s1) (set_large ?k (m # ly_large Y ?k) Y) = heap_pages s Y"
      using attach_page [OF assms a(2) al a(3-5), where n = ?n and c = "(meta_count s)(m := c)", folded s1_def] by blast
    have "s1\<lparr>lgMutex := 0\<rparr> = s1" using h(3) by (simp add: s1_def)
    moreover have "guarded (lgMutex s) (\<lambda>x. push_front m (load_large s1 (lgBuckets s ! ?k))) = Some (Inr d, 0)"
      using d(1) h(3) by (simp add: unlocked)
    then have "large_tail c m s = Some (Inr (q, store_large (lgBuckets s ! ?k) d (s1\<lparr>lgMutex := 0\<rparr>)))"
      using assms(2) a(1,2) by (simp add: large_tail_def s1_def Let_def)
    ultimately have "large_tail c m s = Some (Inr (q, store_large (lgBuckets s ! ?k) d s1))" by simp
    then show ?thesis using d(2-5) unfolding granted_def kheap_repr_def heap_inv_def blocks_def by metis
  qed
qed

lemma kalloc_large_ok:
  assumes "heap_inv s Y" "\<not> align_ceiling PageSize sz div PageSize > 1"
  shows "(kalloc_large sz s = Some (Inl NullDeref) \<and> pa_free_set (pages (k_heap s)) = {})
    \<or> (\<exists>s'. kalloc_large sz s = Some (Inr (0, s')) \<and> refused (heap_pages s Y) s' (blocks s Y))
    \<or> (\<exists>q s'. kalloc_large sz s = Some (Inr (q, s')) \<and> granted (heap_pages s Y) q 4096 s' (blocks s Y))"
proof -
  have h: "heap_with [] s Y" using assms(1) by (simp add: heap_inv_def)
  note u = kalloc_large_split [OF assms(2)]
  show ?thesis
  proof (cases "ly_spare Y")
    case (Cons x xs)
    obtain s1 Y1 where s1: "pop_meta s = Some (x, s1)" "heap_with [x] s1 Y1"
      "blocks_with [x] s1 Y1 = blocks s Y" "x \<noteq> 0" "heap_pages s1 Y1 = heap_pages s Y"
      using pop_spare [OF h Cons] unfolding blocks_def by blast
    show ?thesis using large_tail_ok [OF s1(2,4)] s1(4) unfolding u s1(1,3,5) by simp
  next
    case Nil
    note g = get_record [OF h Nil]
    have sz: "sizeof_LargePageMeta = 16" by (simp add: sizeof_LargePageMeta_def)
    from g(2) show ?thesis
    proof
      assume "kalloc_small 16 s = Some (Inl NullDeref) \<and> pa_free_set (pages (k_heap s)) = {}"
      then show ?thesis by (simp add: u g(1) sz)
    next
      assume "\<exists>a s' Y'. kalloc_small 16 s = Some (Inr (a, s')) \<and> a \<noteq> 0 \<and> heap_with [a] (meta_new a s') Y'
        \<and> blocks_with [a] (meta_new a s') Y' = blocks_with [] s Y \<and> heap_pages (meta_new a s') Y' = heap_pages s Y"
      then obtain a s' Y' where a: "kalloc_small 16 s = Some (Inr (a, s'))" "a \<noteq> 0" "heap_with [a] (meta_new a s') Y'"
        "blocks_with [a] (meta_new a s') Y' = blocks s Y" "heap_pages (meta_new a s') Y' = heap_pages s Y" unfolding blocks_def by blast
      show ?thesis using large_tail_ok [OF a(3,2)] a(1,2) unfolding a(4,5) by (simp add: u g(1) sz)
    qed
  qed
qed

subsection \<open>Freeing a page\<close>

lemma kfree_large_ok:
  assumes "heap_inv s Y" "q \<in> large_pages s Y"
  shows "\<exists>s'. kfree q s = Some (Inr s') \<and> kheap_repr (heap_pages s Y) s' (blocks s Y - {(q, 4096)})"
proof -
  have hw: "heap_with [] s Y" using assms(1) by (simp add: heap_inv_def)
  note h = heap_withD [OF hw]
  note q = large_pages_props [OF hw assms(2)]
  let ?k = "unat (hash_ptr q)" and ?l = "lgBuckets s ! unat (hash_ptr q)"
  obtain k m where km: "k < 32" "m \<in> set (ly_large Y k)" "meta_page s m = q"
    using assms(2) by (auto simp: large_pages_def large_metas_def)
  have kk: "k = ?k" using h(8) [OF km(1,2)] km(3) by (simp add: paged_def)
  have k: "?k < 32" "m \<in> set (ly_large Y ?k)" using km kk by simp_all
  have r: "dl_repr (load_large s ?l) (ly_large Y ?k)" using h(7) k(1) by (simp add: lists_inv_def)
  have m0: "m \<noteq> 0" using r k(2) by (auto simp: dl_repr_def)
  let ?f = "first_with (\<lambda>x. meta_page s x = q) (ly_large Y ?k)"
  have f: "?f \<in> set (ly_large Y ?k)" "meta_page s ?f = q" using first_with_in [OF k(2), of "\<lambda>x. meta_page s x = q"] km(3) by auto
  then have "?f \<in> large_metas Y" "m \<in> large_metas Y" using k by (auto simp: large_metas_def)
  then have fm: "?f = m" using h(9) f(2) km(3) by (simp add: inj_on_def)
  have find: "find_meta (load_large s ?l) (meta_page s) q (iter_begin (load_large s ?l)) = Some m"
    using find_meta_list [OF r, of "meta_page s" q] by (simp only: fm)
  obtain xs ys where xy: "ly_large Y ?k = xs @ m # ys" using k(2) by (auto dest: split_list)
  obtain d where d: "remove_node m (load_large s ?l) = Inr d"
    "heap_with [m] (store_large ?l d s) (set_large ?k (xs @ ys) Y)"
    "large_pages (store_large ?l d s) (set_large ?k (xs @ ys) Y) = large_pages s Y - {q}"
    "blocks_with [m] (store_large ?l d s) (set_large ?k (xs @ ys) Y) = blocks s Y - {(q, 4096)}"
    using detach_record [OF hw k(1) xy] unfolding km(3) blocks_def by blast
  let ?s = "store_large ?l d s" and ?Y = "set_large ?k (xs @ ys) Y"
  have fr: "meta_page ?s = meta_page s" "k_heap ?s = k_heap s" "lgMutex ?s = lgMutex s" by (simp_all add: store_large_def)
  note pg = small_inv_pages [OF h(2)]
  have qa: "q \<notin> all_pages (k_heap s) Y" using h(11) assms(2) by blast
  then have "q \<notin> pa_free_set (pages (k_heap s))" by (simp add: all_pages_def)
  then obtain pa where pa: "release_page q (pages (k_heap s)) = Some pa" "pa_inv pa"
    "pa_free_set pa = insert q (pa_free_set (pages (k_heap s)))"
    using pa.release [OF pg(1)] q(2) by blast
  let ?n = "allocatedPages (k_heap s) - 1"
  define s3 where "s3 = ?s\<lparr>k_heap := (k_heap ?s)\<lparr>pages := pa, allocatedPages := ?n\<rparr>, meta_page := (meta_page ?s)(m := 0)\<rparr>"
  have al: "\<forall>x\<in>pa_free_set pa. page_aligned x" using pg(2) pa(3) q(1) by simp
  have ow: "own ?Y i \<inter> pa_free_set pa = {}" if "i < 29" for i
    using pg(3) [OF that] pa(3) qa that by (auto simp: all_pages_def)
  have lp: "large_pages ?s ?Y \<inter> pa_free_set pa = {}" using h(11) pa(3) unfolding d(3) by (auto simp: all_pages_def)
  have s3: "heap_with [m] s3 ?Y" "blocks_with [m] s3 ?Y = blocks s Y - {(q, 4096)}"
    "heap_pages s3 ?Y = (\<Union>i<29. own ?Y i) \<union> pa_free_set pa \<union> large_pages ?s ?Y"
    using retag_record [OF d(2) pa(2) al ow lp, where n = ?n and v = 0] d(4) by (simp_all add: s3_def)
  have hp: "heap_pages s3 ?Y = heap_pages s Y"
    using assms(2) unfolding s3(3) d(3) pa(3) by (auto simp: heap_pages_def all_pages_def)
  obtain s4 where s4: "push_meta m s3 = Some s4" "heap_with [] s4 (?Y\<lparr>ly_spare := m # ly_spare ?Y\<rparr>)"
    "blocks_with [] s4 (?Y\<lparr>ly_spare := m # ly_spare ?Y\<rparr>) = blocks_with [m] s3 ?Y" "same_core s3 s4"
    "heap_pages s4 (?Y\<lparr>ly_spare := m # ly_spare ?Y\<rparr>) = heap_pages s3 ?Y"
    using push_spare [OF s3(1) m0] by blast
  have "lgMutex s4 = 0" using s4(4) h(3) fr(3) by (simp add: same_core_def s3_def)
  then have un: "s4\<lparr>lgMutex := 0\<rparr> = s4" by simp
  have "kfree q s = Some (Inr s4)"
    using q(2) h(1,3) aligned_mask [OF q(1)] find d(1) m0 pa(1) s4(1) un km(3)
    by (simp add: kfree_def Let_def unlocked fr s3_def)
  then show ?thesis using s4(2,3,5) s3(2) hp unfolding kheap_repr_def heap_inv_def blocks_def by metis
qed

end
