(* ===== verification/KernelHeap.thy ===== *)
theory KernelHeap
  imports HeapLarge
begin

text \<open>
  What callers of the kernel heap rely on, stated as an interface and proved of kalloc and
  kfree: the blocks held are apart whatever the sequence of requests. The heap comes out of
  InitKalloc in this state, with no block handed out.
\<close>

subsection \<open>kalloc and kfree on the whole heap\<close>

lemma large_size:
  assumes "MAX_ITEM_SIZE < sz" "sz \<le> 4096"
  shows "kalloc sz s = (if canKallocNow s then kalloc_large sz s
      else Some (Inl (Panic ''kalloc(): Called before initialized!'')))"
    "\<not> align_ceiling PageSize sz div PageSize > 1"
proof -
  have n: "2024 < unat sz" "unat sz \<le> 4096"
    using assms by (simp_all add: page_space word_less_nat_alt word_le_nat_alt)
  then show "kalloc sz s = (if canKallocNow s then kalloc_large sz s
      else Some (Inl (Panic ''kalloc(): Called before initialized!'')))"
    using assms(1) by (auto simp: kalloc_def)
  have "unat (align_ceiling 4096 sz) = (unat sz + 4095) div 4096 * 4096" using n by (subst unat_align_ceiling) simp_all
  then have "unat (align_ceiling 4096 sz div 4096) = (unat sz + 4095) div 4096" by (simp add: unat_div)
  moreover have "(unat sz + 4095) div 4096 \<le> 1" using n by linarith
  ultimately show "\<not> align_ceiling PageSize sz div PageSize > 1" by (simp add: PageSize_def word_less_nat_alt)
qed

lemma heap_alloc_ok:
  assumes "kheap_repr P s U" "0 < sz" "sz \<le> 4096"
  shows "(kalloc sz s = Some (Inl NullDeref) \<and> pa_free_set (pages (k_heap s)) = {})
    \<or> (\<exists>s'. kalloc sz s = Some (Inr (0, s')) \<and> kheap_repr P s' U
        \<and> (pa_free_set (pages (k_heap s')) = {} \<or> 1920 < sz \<and> sz \<le> 2024))
    \<or> (\<exists>a n s'. kalloc sz s = Some (Inr (a, s')) \<and> a \<noteq> 0 \<and> unat sz \<le> n \<and> a \<notin> fst ` U
        \<and> kheap_repr P s' (insert (a, n) U))"
proof -
  obtain Y where y: "heap_inv s Y" "blocks s Y = U" "heap_pages s Y = P" using assms(1) by (auto simp: kheap_repr_def)
  have hw: "heap_with [] s Y" using y(1) by (simp add: heap_inv_def)
  note h = heap_withD [OF hw]
  consider "sz \<le> 1920" | "1920 < sz" "sz \<le> MAX_ITEM_SIZE" | "MAX_ITEM_SIZE < sz" by (metis not_le)
  then show ?thesis
  proof cases
    case 1
    then have "sz \<le> MAX_ITEM_SIZE" by (simp add: page_space word_le_nat_alt)
    then have k: "kalloc sz s = kalloc_small sz s" using assms(2) h(1) by (auto simp: kalloc_def)
    from small_alloc [OF h(2) assms(2) 1]
    consider "kalloc_small sz s = Some (Inl NullDeref)" "pa_free_set (pages (k_heap s)) = {}"
      | a n s' Y' where "kalloc_small sz s = Some (Inr (a, s'))" "unat sz \<le> n" "small_served s Y a n s' Y'"
      by blast
    then show ?thesis
    proof cases
      case (2 a n s' Y')
      note g = heap_small [OF hw 2(3)]
      have "kheap_repr P s' (insert (a, n) U)"
        using g(1,2,7) y(2,3) unfolding kheap_repr_def heap_inv_def blocks_def by metis
      moreover have "a \<notin> fst ` U" using g(6) y(2) by (simp add: blocks_def)
      ultimately show ?thesis using 2(1,2) g(5) unfolding k by blast
    qed (simp add: k)
  next
    case 2
    then show ?thesis
      using kalloc_no_bucket [OF h(1)] assms(1) by (auto simp: page_space)
  next
    case 3
    have k: "kalloc sz s = kalloc_large sz s" using large_size(1) [OF 3 assms(3)] h(1) by simp
    have n: "unat sz \<le> 4096" using assms(3) by (simp add: word_le_nat_alt)
    consider "kalloc_large sz s = Some (Inl NullDeref)" "pa_free_set (pages (k_heap s)) = {}"
      | s' where "kalloc_large sz s = Some (Inr (0, s'))" "refused P s' U"
      | q s' where "kalloc_large sz s = Some (Inr (q, s'))" "granted P q 4096 s' U"
      using kalloc_large_ok [OF y(1) large_size(2) [OF 3 assms(3)]] unfolding y(2,3) by blast
    then show ?thesis
    proof cases
      case (3 q s')
      then obtain Y' where y': "heap_inv s' Y'" "(q, 4096) \<in> blocks s' Y'"
        unfolding granted_def kheap_repr_def by auto
      then have "q \<noteq> 0" by (rule block_positive(1))
      then show ?thesis using 3 n unfolding k granted_def by blast
    qed (auto simp: k refused_def)
  qed
qed

lemma heap_free_ok:
  assumes "kheap_repr P s U" "(a, n) \<in> U"
  shows "\<exists>s'. kfree a s = Some (Inr s') \<and> kheap_repr P s' (U - {(a, n)})"
proof -
  obtain Y where y: "heap_inv s Y" "blocks s Y = U" "heap_pages s Y = P" using assms(1) by (auto simp: kheap_repr_def)
  have hw: "heap_with [] s Y" using y(1) by (simp add: heap_inv_def)
  note h = heap_withD [OF hw]
  consider "(a, n) \<in> small_blocks (k_buckets s) (k_heap s) Y" "a \<notin> internal [] s Y"
    | "a \<in> large_pages s Y" "n = 4096"
    using assms(2) y(2) by (auto simp: blocks_def blocks_with_def)
  then show ?thesis
  proof cases
    case 1
    obtain bs g Y' where g: "kfree a s = Some (Inr (s\<lparr>k_buckets := bs, k_heap := g\<rparr>))" "small_inv bs g Y'"
      "all_pages g Y' = all_pages (k_heap s) Y"
      "small_blocks bs g Y' = small_blocks (k_buckets s) (k_heap s) Y - {(a, n)}"
      "ly_large Y' = ly_large Y" "ly_spare Y' = ly_spare Y"
      using small_free [OF h(1,2) 1(1)] by blast
    define s' where "s' = s\<lparr>k_buckets := bs, k_heap := g\<rparr>"
    have eq: "records Y' = records Y" "large_metas Y' = large_metas Y" "internal [] s' Y' = internal [] s Y"
      "large_pages s' Y' = large_pages s Y" "load_stack s' = load_stack s" "load_large s' = load_large s"
      "paged s' = paged s" "lgBuckets s' = lgBuckets s"
      by (simp_all add: s'_def g(5,6) records_def large_metas_def internal_def large_pages_def load_stack_def
          load_large_def paged_def fun_eq_iff)
    have li: "lists_inv s' Y'" using h(7) unfolding lists_inv_def eq g(5) .
    have "internal [] s Y \<subseteq> fst ` (small_blocks (k_buckets s) (k_heap s) Y - {(a, n)})"
    proof
      fix x assume x: "x \<in> internal [] s Y"
      then obtain z where "(x, z) \<in> small_blocks (k_buckets s) (k_heap s) Y" "x \<noteq> a" using h(10) 1(2) by fastforce
      then show "x \<in> fst ` (small_blocks (k_buckets s) (k_heap s) Y - {(a, n)})" by force
    qed
    then have "heap_with [] s' Y'"
      using h g(2-6) li unfolding heap_with_def large_inv_def eq by (auto simp: s'_def)
    moreover have "blocks_with [] s' Y' = blocks_with [] s Y - {(a, n)}"
    proof -
      have "(a, n) \<notin> large_pages s Y \<times> {4096}" using small_not_large [OF hw 1(1)] by simp
      then show ?thesis unfolding blocks_with_def eq using g(4) by (auto simp: s'_def)
    qed
    moreover have "heap_pages s' Y' = heap_pages s Y" unfolding heap_pages_def eq using g(3) by (simp add: s'_def)
    ultimately have "kheap_repr P s' (U - {(a, n)})"
      using y(2,3) unfolding kheap_repr_def heap_inv_def blocks_def by metis
    then show ?thesis using g(1) unfolding s'_def [symmetric] by blast
  next
    case 2
    then show ?thesis using kfree_large_ok [OF y(1) 2(1)] y(2,3) by simp
  qed
qed

subsection \<open>The interface\<close>

text \<open>
  A run of requests by callers that only free what they hold: Get asks for a block of a size,
  Put gives back the block held at a position. Blocks are held as address and requested size.
\<close>

datatype request = Get size32 | Put nat

definition holding :: "addr \<Rightarrow> size32 \<Rightarrow> (addr \<times> size32) list \<Rightarrow> (addr \<times> size32) list" where
  "holding a sz H = (if a = 0 then H else (a, sz) # H)"

fun serve :: "(size32 \<Rightarrow> 's \<Rightarrow> (addr \<times> 's) outcome) \<Rightarrow> (addr \<Rightarrow> 's \<Rightarrow> 's outcome) \<Rightarrow>
    request list \<Rightarrow> 's \<Rightarrow> (addr \<times> size32) list \<Rightarrow> ('s \<times> (addr \<times> size32) list) outcome" where
  "serve alloc free [] s H = Some (Inr (s, H))"
| "serve alloc free (Get sz # rs) s H =
     bindo (alloc sz s) (\<lambda>(a, s). serve alloc free rs s (holding a sz H))"
| "serve alloc free (Put i # rs) s H =
     (if i < length H then bindo (free (fst (H ! i)) s) (\<lambda>s. serve alloc free rs s (take i H @ drop (Suc i) H))
      else serve alloc free rs s H)"

definition apart :: "(addr \<times> size32) list \<Rightarrow> bool" where
  "apart H \<longleftrightarrow> (\<forall>i<length H. \<forall>j<length H. i \<noteq> j \<longrightarrow>
     span (fst (H ! i)) (unat (snd (H ! i))) \<inter> span (fst (H ! j)) (unat (snd (H ! j))) = {})"

definition covers :: "(addr \<times> nat) set \<Rightarrow> (addr \<times> size32) list \<Rightarrow> bool" where
  "covers U H \<longleftrightarrow> (\<forall>x\<in>set H. \<exists>n. (fst x, n) \<in> U \<and> unat (snd x) \<le> n)"

lemma covers_Cons: "covers U H \<Longrightarrow> (a, n) \<in> V \<Longrightarrow> unat sz \<le> n \<Longrightarrow> U \<subseteq> V \<Longrightarrow> covers V ((a, sz) # H)"
  unfolding covers_def by force

lemma covers_less:
  "covers U H \<Longrightarrow> set H' \<subseteq> set H \<Longrightarrow> (\<And>x. x \<in> set H' \<Longrightarrow> fst x \<noteq> a) \<Longrightarrow> covers (U - {(a, n)}) H'"
  unfolding covers_def
proof
  fix x assume a: "\<forall>x\<in>set H. \<exists>n. (fst x, n) \<in> U \<and> unat (snd x) \<le> n" "set H' \<subseteq> set H"
    "\<And>x. x \<in> set H' \<Longrightarrow> fst x \<noteq> a" "x \<in> set H'"
  then obtain m where "(fst x, m) \<in> U" "unat (snd x) \<le> m" by blast
  with a(3) [OF a(4)] show "\<exists>m. (fst x, m) \<in> U - {(a, n)} \<and> unat (snd x) \<le> m" by blast
qed

locale block_heap =
  fixes repr :: "'s \<Rightarrow> (addr \<times> nat) set \<Rightarrow> bool"
    and alloc :: "size32 \<Rightarrow> 's \<Rightarrow> (addr \<times> 's) outcome"
    and free :: "addr \<Rightarrow> 's \<Rightarrow> 's outcome"
    and limit :: size32
  assumes disjoint: "repr s U \<Longrightarrow> (a, n) \<in> U \<Longrightarrow> (b, m) \<in> U \<Longrightarrow> a \<noteq> b \<Longrightarrow> span a n \<inter> span b m = {}"
    and alloc: "repr s U \<Longrightarrow> sz \<le> limit \<Longrightarrow> alloc sz s = Some (Inl NullDeref)
      \<or> (\<exists>s'. alloc sz s = Some (Inr (0, s')) \<and> repr s' U)
      \<or> (\<exists>a n s'. alloc sz s = Some (Inr (a, s')) \<and> a \<noteq> 0 \<and> unat sz \<le> n \<and> a \<notin> fst ` U
          \<and> repr s' (insert (a, n) U))"
    and free: "repr s U \<Longrightarrow> (a, n) \<in> U \<Longrightarrow> \<exists>s'. free a s = Some (Inr s') \<and> repr s' (U - {(a, n)})"
begin

text \<open>The blocks held are blocks of the heap, each at least as long as asked for.\<close>

definition held :: "'s \<Rightarrow> (addr \<times> size32) list \<Rightarrow> bool" where
  "held s H \<longleftrightarrow> distinct (map fst H)
     \<and> (\<exists>U. repr s U \<and> covers U H)"

lemma held_apart: "held s H \<Longrightarrow> apart H"
  unfolding apart_def
proof (intro allI impI)
  fix i j assume h: "held s H" "i < length H" "j < length H" "i \<noteq> j"
  obtain a sz b tz where ab: "H ! i = (a, sz)" "H ! j = (b, tz)" by (metis surj_pair)
  obtain U where u: "repr s U" "covers U H" using h(1) by (auto simp: held_def)
  obtain n m where nm: "(a, n) \<in> U" "unat sz \<le> n" "(b, m) \<in> U" "unat tz \<le> m"
    using u(2) nth_mem [OF h(2)] nth_mem [OF h(3)] ab unfolding covers_def by (metis fst_conv snd_conv)
  have "map fst H ! i \<noteq> map fst H ! j"
    using h by (simp add: held_def nth_eq_iff_index_eq del: nth_map)
  then have "a \<noteq> b" using h(2,3) ab by simp
  then have "span a n \<inter> span b m = {}" using disjoint [OF u(1) nm(1,3)] by blast
  moreover have "span a (unat sz) \<subseteq> span a n" "span b (unat tz) \<subseteq> span b m" using nm(2,4) by (auto simp: span_def)
  ultimately show "span (fst (H ! i)) (unat (snd (H ! i))) \<inter> span (fst (H ! j)) (unat (snd (H ! j))) = {}"
    unfolding ab by auto
qed

lemma held_get:
  assumes "held s H" "sz \<le> limit"
  shows "alloc sz s = Some (Inl NullDeref)
     \<or> (\<exists>a s'. alloc sz s = Some (Inr (a, s')) \<and> held s' (holding a sz H))"
proof -
  obtain U where u: "repr s U" "covers U H" "distinct (map fst H)"
    using assms(1) by (auto simp: held_def)
  from alloc [OF u(1) assms(2)] show ?thesis
  proof (elim disjE exE conjE)
    fix s' assume "alloc sz s = Some (Inr (0, s'))" "repr s' U"
    then show ?thesis using u by (auto simp: held_def holding_def)
  next
    fix a n s' assume a: "alloc sz s = Some (Inr (a, s'))" "a \<noteq> 0" "unat sz \<le> n" "a \<notin> fst ` U" "repr s' (insert (a, n) U)"
    have "a \<notin> set (map fst H)" using u(2) a(4) unfolding covers_def by force
    moreover have "covers (insert (a, n) U) ((a, sz) # H)" by (rule covers_Cons [OF u(2)]) (use a(3) in auto)
    ultimately have "held s' ((a, sz) # H)" using a(5) u(3) unfolding held_def by auto
    then show ?thesis using a(1,2) by (simp add: holding_def)
  qed blast
qed

lemma held_put:
  assumes "held s H" "i < length H"
  shows "\<exists>s'. free (fst (H ! i)) s = Some (Inr s') \<and> held s' (take i H @ drop (Suc i) H)"
proof -
  obtain U where u: "repr s U" "covers U H" "distinct (map fst H)"
    using assms(1) by (auto simp: held_def)
  obtain a sz where a: "H ! i = (a, sz)" by (metis surj_pair)
  obtain n where n: "(a, n) \<in> U" using u(2) nth_mem [OF assms(2)] a unfolding covers_def by (metis fst_conv)
  obtain s' where s': "free a s = Some (Inr s')" "repr s' (U - {(a, n)})" using free [OF u(1) n] by blast
  have H: "H = take i H @ (a, sz) # drop (Suc i) H" using id_take_nth_drop [OF assms(2)] a by simp
  have d: "distinct (map fst (take i H @ (a, sz) # drop (Suc i) H))" using u(3) H by metis
  have "set (take i H @ drop (Suc i) H) \<subseteq> set H" by (auto dest: in_set_takeD in_set_dropD)
  moreover have "fst x \<noteq> a" if "x \<in> set (take i H @ drop (Suc i) H)" for x using d that by auto
  ultimately have "covers (U - {(a, n)}) (take i H @ drop (Suc i) H)" by (rule covers_less [OF u(2)])
  then have "held s' (take i H @ drop (Suc i) H)" using s'(2) d unfolding held_def by auto
  with s'(1) a show ?thesis by simp
qed

text \<open>Any run either ends with the blocks held apart or at the fault for a lack of pages.\<close>

lemma serve_apart:
  assumes "held s H" "\<forall>sz. Get sz \<in> set rs \<longrightarrow> sz \<le> limit"
  shows "serve alloc free rs s H = Some (Inl NullDeref)
     \<or> (\<exists>s' H'. serve alloc free rs s H = Some (Inr (s', H')) \<and> held s' H')"
  using assms
proof (induction rs arbitrary: s H)
  case (Cons r rs)
  show ?case
  proof (cases r)
    case (Get sz)
    then consider "alloc sz s = Some (Inl NullDeref)"
      | a s' where "alloc sz s = Some (Inr (a, s'))" "held s' (holding a sz H)"
      using held_get [OF Cons.prems(1), of sz] Cons.prems(2) Get by auto
    then show ?thesis
    proof cases
      case (2 a s')
      then show ?thesis using Cons.IH [OF 2(2)] Cons.prems(2) Get by simp
    qed (simp add: Get)
  next
    case (Put i)
    show ?thesis
    proof (cases "i < length H")
      case True
      obtain s' where s': "free (fst (H ! i)) s = Some (Inr s')" "held s' (take i H @ drop (Suc i) H)"
        using held_put [OF Cons.prems(1) True] by blast
      then show ?thesis using Cons.IH [OF s'(2)] Cons.prems(2) Put True by simp
    next
      case False
      then show ?thesis using Cons.IH [OF Cons.prems(1)] Cons.prems(2) Put by simp
    qed
  qed
qed simp

end

interpretation kh: block_heap "kheap_repr P" kalloc kfree 4096
proof (unfold_locales, goal_cases)
  case (1 s U a n b m)
  then obtain Y where "heap_inv s Y" "blocks s Y = U" by (auto simp: kheap_repr_def)
  then show ?case using blocks_apart 1(2-4) by blast
next
  case (2 s U sz)
  show ?case
  proof (cases "sz = 0")
    case True
    then have "kalloc sz s = Some (Inr (0, s))" by (simp add: kalloc_def)
    then show ?thesis using 2(1) by blast
  next
    case False
    then have "0 < sz" by (simp add: word_neq_0_conv)
    then show ?thesis using heap_alloc_ok [OF 2(1) _ 2(2)] by blast
  qed
next
  case (3 s U a n)
  then show ?case by (rule heap_free_ok)
qed

end
