(* ===== verification/HeapInit.thy ===== *)
theory HeapInit
  imports KernelHeap
begin

text \<open>
  memory::InitKalloc establishes the invariant of the kernel heap: with two free pages it
  returns with an empty heap; the only page its lists need is the first slab of the smallest
  bucket.
\<close>

subsection \<open>Fresh buckets\<close>

lemma bucket_new_inv:
  assumes "unat i < 29" "pa_inv (pages h)" "\<forall>q\<in>pa_free_set (pages h). page_aligned q"
  shows "bucket_inv (bucket_new i) h [] [] []"
  using assms
  by (simp add: bucket_inv_def bucket_core_def bucket_ok_def sized_def lists_ok_def slabs_ok_def pages_ok_def used_def)
    (simp add: bucket_new_def lock_init_def hrepr_empty)

definition empty_layout :: layout where
  "empty_layout = \<lparr>ly_partial = (\<lambda>_. []), ly_full = (\<lambda>_. []), ly_empty = (\<lambda>_. []), ly_large = (\<lambda>_. []), ly_spare = []\<rparr>"

definition new_buckets :: "bucket list" where
  "new_buckets = map (\<lambda>i. bucket_new (of_nat i)) [0..<29]"

lemma new_buckets_inv:
  assumes "pa_inv (pages h)" "\<forall>q\<in>pa_free_set (pages h). page_aligned q"
  shows "small_inv new_buckets h empty_layout" "small_blocks new_buckets h empty_layout = {}"
    "all_pages h empty_layout = pa_free_set (pages h)"
proof -
  have "class_ok new_buckets h empty_layout i" if "i < 29" for i
  proof -
    have n: "new_buckets ! i = bucket_new (of_nat i)" using that by (simp add: new_buckets_def)
    have "unat (of_nat i :: u8) < 29" using that by (subst unat_of_nat_len) simp_all
    then show ?thesis
      using bucket_new_inv [OF _ assms] by (simp add: class_ok_def n empty_layout_def) (simp add: bucket_new_def)
  qed
  then show "small_inv new_buckets h empty_layout"
    by (simp add: small_inv_def own_def empty_layout_def new_buckets_def)
  show "small_blocks new_buckets h empty_layout = {}"
    by (simp add: small_blocks_def class_live_def live_def empty_layout_def)
  show "all_pages h empty_layout = pa_free_set (pages h)" by (simp add: all_pages_def own_def empty_layout_def)
qed

subsection \<open>The heads of the lists\<close>

lemma index_12: "unat (IndexFromSize 12) = 0" by code_simp

definition init_inv :: "kalloc_state \<Rightarrow> layout \<Rightarrow> bool" where
  "init_inv s Y \<longleftrightarrow> small_inv (k_buckets s) (k_heap s) Y \<and> lgMutex s = 0 \<and> free_mutex s = 0 \<and> free_first s = 0
     \<and> distinct (lgBuckets s) \<and> fst ` small_blocks (k_buckets s) (k_heap s) Y = set (lgBuckets s)
     \<and> (\<forall>a\<in>set (lgBuckets s). lgHdr s a = empty_hdr) \<and> ly_large Y = (\<lambda>_. []) \<and> ly_spare Y = []
     \<and> (\<forall>k. 0 < k \<longrightarrow> own Y k = {})"

text \<open>A full slab of the smallest class has more items than lists are needed.\<close>

lemma full_slab_blocks:
  assumes "small_inv bs h Y" "p \<in> set (ly_full Y 0)"
  shows "253 \<le> card (fst ` small_blocks bs h Y)"
proof -
  note c = small_inv_class [OF assms(1), of 0]
  let ?b = "bs ! 0"
  have b: "sized ?b" "full_ok (items ?b) (slabs h p)" "page_aligned p"
    using c(3) assms(2) by (auto simp: bucket_inv_def bucket_core_def bucket_ok_def slabs_ok_def lists_ok_def)
  have "unat (ItemSizeFromIndex 0) = 16" by (simp add: unat_index_small)
  then have "items ?b = 253" using b(1) c(2) by (simp add: items_def sized_def item_count_unat)
  then have m: "card (marks (slabs h p)) = 253" "marks (slabs h p) \<subseteq> {..<items ?b}"
    using b(2) by (auto simp: full_ok_def slab_ok_def)
  have "inj_on (item_addr ?b p) (marks (slabs h p))"
    using item_addr_inj [OF b(1,3,3)] m(2) by (intro inj_onI) blast
  then have "card (item_addr ?b p ` marks (slabs h p)) = 253" using m(1) by (simp add: card_image)
  moreover have "item_addr ?b p ` marks (slabs h p) \<subseteq> fst ` small_blocks bs h Y"
  proof
    fix a assume "a \<in> item_addr ?b p ` marks (slabs h p)"
    then obtain j where j: "a = item_addr ?b p j" "j \<in> marks (slabs h p)" by blast
    have "(p, j) \<in> class_live h Y 0" using assms(2) j(2) by (auto simp: class_live_def live_def)
    then have "(a, unat (bk_itemSize ?b)) \<in> small_blocks bs h Y"
      unfolding small_blocks_def j(1)
      by (intro CollectI exI [of _ "0 :: nat"] exI [of _ p] exI [of _ j]) simp
    then show "a \<in> fst ` small_blocks bs h Y" by force
  qed
  moreover have "finite (fst ` small_blocks bs h Y)" by simp
  ultimately show ?thesis by (metis card_mono)
qed

lemma init_step:
  assumes "init_inv s Y" "length (lgBuckets s) < 253" "all_pages (k_heap s) Y \<noteq> {}"
  shows "\<exists>a s' Y'. kalloc_small 12 s = Some (Inr (a, s')) \<and> a \<noteq> 0 \<and> canKallocNow s' = canKallocNow s
     \<and> lgBuckets s' = lgBuckets s \<and> init_inv (s'\<lparr>lgBuckets := lgBuckets s @ [a], lgHdr := (lgHdr s')(a := empty_hdr)\<rparr>) Y'
     \<and> all_pages (k_heap s') Y' = all_pages (k_heap s) Y"
proof -
  have i: "small_inv (k_buckets s) (k_heap s) Y" "fst ` small_blocks (k_buckets s) (k_heap s) Y = set (lgBuckets s)"
    using assms(1) by (simp_all add: init_inv_def)
  have no: "\<not> (pa_free_set (pages (k_heap s)) = {} \<and> ly_partial Y 0 = [] \<and> ly_empty Y 0 = [])"
  proof
    assume n: "pa_free_set (pages (k_heap s)) = {} \<and> ly_partial Y 0 = [] \<and> ly_empty Y 0 = []"
    have "ly_full Y 0 = []"
    proof (rule ccontr)
      assume "ly_full Y 0 \<noteq> []"
      then obtain p where "p \<in> set (ly_full Y 0)" by (cases "ly_full Y 0") auto
      then have "253 \<le> card (set (lgBuckets s))" using full_slab_blocks [OF i(1)] i(2) by simp
      then show False using assms(2) card_length [of "lgBuckets s"] by linarith
    qed
    then have "own Y 0 = {}" using n by (simp add: own_def)
    then have "own Y k = {}" for k using assms(1) by (cases "k = 0") (simp_all add: init_inv_def)
    then show False using assms(3) n by (simp add: all_pages_def)
  qed
  have "\<exists>a n s1 ps fs es. kalloc_small 12 s = Some (Inr (a, s1)) \<and> small_served s Y a n s1 (set_class 0 ps fs es Y)"
  proof -
    have "(0 :: size32) < 12" "(12 :: size32) \<le> 1920" by simp_all
    from small_alloc [OF i(1) this, unfolded index_12] no show ?thesis by blast
  qed
  then obtain a n s1 ps fs es where a: "kalloc_small 12 s = Some (Inr (a, s1))"
    "small_served s Y a n s1 (set_class 0 ps fs es Y)" by blast
  let ?Y = "set_class 0 ps fs es Y" and ?s = "s1\<lparr>lgBuckets := lgBuckets s @ [a], lgHdr := (lgHdr s1)(a := empty_hdr)\<rparr>"
  obtain bs h where g: "s1 = s\<lparr>k_buckets := bs, k_heap := h\<rparr>" "small_inv bs h ?Y" "all_pages h ?Y = all_pages (k_heap s) Y"
    "a \<noteq> 0" "a \<notin> fst ` small_blocks (k_buckets s) (k_heap s) Y"
    "small_blocks bs h ?Y = insert (a, n) (small_blocks (k_buckets s) (k_heap s) Y)"
    using a(2) unfolding small_served_def by blast
  have "fst ` small_blocks bs h ?Y = set (lgBuckets s @ [a])" unfolding g(6) using i(2) by simp
  then have "init_inv ?s ?Y" using assms(1) g(2,5) i(2) by (auto simp: init_inv_def g(1))
  then show ?thesis using a(1) g(1,3,4) by auto
qed

lemma init_lists_ok:
  assumes "init_inv s Y" "length (lgBuckets s) + n \<le> 253" "all_pages (k_heap s) Y \<noteq> {}"
  shows "\<exists>s' Y'. init_lists n s = Some (Inr s') \<and> init_inv s' Y' \<and> length (lgBuckets s') = length (lgBuckets s) + n
     \<and> all_pages (k_heap s') Y' = all_pages (k_heap s) Y"
  using assms
proof (induction n arbitrary: s Y)
  case (Suc n)
  obtain a s1 Y1 where a: "kalloc_small 12 s = Some (Inr (a, s1))" "a \<noteq> 0" "lgBuckets s1 = lgBuckets s"
    "init_inv (s1\<lparr>lgBuckets := lgBuckets s @ [a], lgHdr := (lgHdr s1)(a := empty_hdr)\<rparr>) Y1"
    "all_pages (k_heap s1) Y1 = all_pages (k_heap s) Y"
    using init_step [OF Suc.prems(1) _ Suc.prems(3)] Suc.prems(2) by auto
  let ?s = "s1\<lparr>lgBuckets := lgBuckets s @ [a], lgHdr := (lgHdr s1)(a := empty_hdr)\<rparr>"
  have "init_lists (Suc n) s = init_lists n ?s" using a(1-3) by (simp add: sizeof_List_def)
  then show ?case using Suc.IH [OF a(4)] Suc.prems(2,3) a(5) by simp
qed auto

lemma init_inv_heap:
  assumes "init_inv s Y" "length (lgBuckets s) = 32"
  shows "heap_inv (s\<lparr>canKallocNow := True\<rparr>) Y" "blocks (s\<lparr>canKallocNow := True\<rparr>) Y = {}"
    "heap_pages (s\<lparr>canKallocNow := True\<rparr>) Y = all_pages (k_heap s) Y"
proof -
  let ?s = "s\<lparr>canKallocNow := True\<rparr>"
  have i: "small_inv (k_buckets s) (k_heap s) Y" "lgMutex s = 0" "free_mutex s = 0" "free_first s = 0"
    "distinct (lgBuckets s)" "fst ` small_blocks (k_buckets s) (k_heap s) Y = set (lgBuckets s)"
    "\<forall>a\<in>set (lgBuckets s). lgHdr s a = empty_hdr" "ly_large Y = (\<lambda>_. [])" "ly_spare Y = []"
    using assms(1) by (simp_all add: init_inv_def)
  have r: "records Y = []" "large_metas Y = {}" "large_pages ?s Y = {}"
    by (simp_all add: records_def large_metas_def large_pages_def i(8,9) concat_eq_Nil_conv)
  have int: "internal [] ?s Y = set (lgBuckets s)" by (simp add: internal_def r)
  have "lgHdr s (lgBuckets s ! k) = empty_hdr" if "k < 32" for k using i(7) assms(2) that by simp
  then have "lists_inv ?s Y" by (simp add: lists_inv_def i(8) dl_repr_def load_large_def empty_hdr_def)
  moreover have "stack_repr (load_stack ?s) []" by (simp add: stack_repr_def load_stack_def i(3,4))
  ultimately have "heap_with [] ?s Y"
    unfolding heap_with_def large_inv_def r int using i assms(2) by simp
  then show "heap_inv ?s Y" by (simp add: heap_inv_def)
  have fs: "fst x \<in> set (lgBuckets s)" if "x \<in> small_blocks (k_buckets s) (k_heap s) Y" for x using that i(6) by blast
  show "heap_pages ?s Y = all_pages (k_heap s) Y" unfolding heap_pages_def r by simp
  show "blocks ?s Y = {}" using fs unfolding blocks_def blocks_with_def r int by auto
qed

lemma InitKalloc_run:
  assumes "canAlloc s" "pa_inv (pages (k_heap s))" "\<forall>q\<in>pa_free_set (pages (k_heap s)). page_aligned q"
    and "2 \<le> card (pa_free_set (pages (k_heap s)))"
  shows "\<exists>s' p Y. InitKalloc s = Some (Inr s') \<and> p \<in> pa_free_set (pages (k_heap s)) \<and> canKallocNow s'
     \<and> init_inv s' Y \<and> length (lgBuckets s') = 32 \<and> all_pages (k_heap s') Y = pa_free_set (pages (k_heap s)) - {p}
     \<and> all_pages (k_heap s') Y \<noteq> {}"
proof -
  have ne: "pa_free_set (pages (k_heap s)) \<noteq> {}" using assms(4) by auto
  obtain p pa where p: "allocate_page (pages (k_heap s)) = Some (p, pa)" "p \<noteq> 0" "p \<in> pa_free_set (pages (k_heap s))"
    "pa_inv pa" "pa_free_set pa = pa_free_set (pages (k_heap s)) - {p}"
    using pa.alloc_cases [OF assms(2)] ne by metis
  define h where "h = (k_heap s)\<lparr>pages := pa, allocatedPages := 0\<rparr>"
  define s0 where "s0 = s\<lparr>k_heap := h, k_buckets := new_buckets,
       free_mutex := lock_init, free_first := 0, lgMutex := lock_init, lgBuckets := []\<rparr>"
  have pa: "pa_inv (pages h)" "\<forall>q\<in>pa_free_set (pages h). page_aligned q" "pages h = pa"
    using p(4,5) assms(3) by (simp_all add: h_def)
  note n = new_buckets_inv [OF pa(1,2)]
  have i0: "init_inv s0 empty_layout"
    using n(1,2) by (simp add: init_inv_def s0_def lock_init_def) (simp add: empty_layout_def own_def)
  have "card (pa_free_set pa) = card (pa_free_set (pages (k_heap s))) - 1"
    using p(3,5) pa.finite_free [OF assms(2)] by simp
  then have "pa_free_set pa \<noteq> {}" using assms(4) by auto
  then have ap: "all_pages (k_heap s0) empty_layout \<noteq> {}" using n(3) pa(3) by (simp add: s0_def)
  have "length (lgBuckets s0) + LG_BUCKET_SIZE \<le> 253" by (simp add: s0_def LG_BUCKET_SIZE_def)
  then obtain s1 Y where s1: "init_lists LG_BUCKET_SIZE s0 = Some (Inr s1)" "init_inv s1 Y"
    "length (lgBuckets s1) = length (lgBuckets s0) + LG_BUCKET_SIZE"
    "all_pages (k_heap s1) Y = all_pages (k_heap s0) empty_layout"
    using init_lists_ok [OF i0 _ ap] by blast
  have "InitKalloc s = bindo (init_lists LG_BUCKET_SIZE s0) (\<lambda>s. Some (Inr (s\<lparr>canKallocNow := True\<rparr>)))"
    using assms(1) p(1,2) by (simp add: InitKalloc_def Let_def s0_def h_def new_buckets_def max_bucket)
  then have r: "InitKalloc s = Some (Inr (s1\<lparr>canKallocNow := True\<rparr>))" using s1(1) by simp
  have "length (lgBuckets s1) = 32" using s1(3) by (simp add: s0_def LG_BUCKET_SIZE_def)
  have ap1: "all_pages (k_heap s1) Y = pa_free_set (pages (k_heap s)) - {p}"
    using s1(4) n(3) pa(3) p(5) by (simp add: s0_def)
  have "init_inv (s1\<lparr>canKallocNow := True\<rparr>) Y" using s1(2) by (simp add: init_inv_def)
  then show ?thesis
    using r p(3) ap ap1 s1(4) \<open>length (lgBuckets s1) = 32\<close>
    by (intro exI [of _ "s1\<lparr>canKallocNow := True\<rparr>"] exI [of _ p] exI [of _ Y]) simp
qed

lemma InitKalloc_ok:
  assumes "canAlloc s" "pa_inv (pages (k_heap s))" "\<forall>q\<in>pa_free_set (pages (k_heap s)). page_aligned q"
    and "2 \<le> card (pa_free_set (pages (k_heap s)))"
  shows "\<exists>s' p. InitKalloc s = Some (Inr s') \<and> p \<in> pa_free_set (pages (k_heap s))
     \<and> kheap_repr (pa_free_set (pages (k_heap s)) - {p}) s' {} \<and> (\<exists>a s''. kalloc 12 s' = Some (Inr (a, s'')) \<and> a \<noteq> 0)"
proof -
  obtain s' p Y where s: "InitKalloc s = Some (Inr s')" "p \<in> pa_free_set (pages (k_heap s))" "canKallocNow s'"
    "init_inv s' Y" "length (lgBuckets s') = 32" "all_pages (k_heap s') Y = pa_free_set (pages (k_heap s)) - {p}"
    "all_pages (k_heap s') Y \<noteq> {}"
    using InitKalloc_run [OF assms] by blast
  have eq: "s'\<lparr>canKallocNow := True\<rparr> = s'" using s(3) by simp
  note i = init_inv_heap [OF s(4,5), unfolded eq s(6)]
  have "\<exists>a s''. kalloc_small 12 s' = Some (Inr (a, s'')) \<and> a \<noteq> 0"
    using init_step [OF s(4) _ s(7)] s(5) by auto
  moreover have "kalloc 12 s' = kalloc_small 12 s'" using s(3) by (simp add: kalloc_def page_space)
  ultimately show ?thesis using s(1,2) i unfolding kheap_repr_def by metis
qed

subsection \<open>The heap as its callers see it\<close>


text \<open>C4: kfree of a block that is in use returns, and takes exactly that block out.\<close>

theorem kfree_refines:
  assumes "kheap_repr P s U" "(a, n) \<in> U"
  shows "\<exists>s'. kfree a s = Some (Inr s') \<and> kheap_repr P s' (U - {(a, n)})"
  using assms by (rule heap_free_ok)

text \<open>
  C5: InitKalloc returns a heap without blocks on all free pages but one, which it allocates and
  never uses, when there are at least two and none is cut by a page boundary.
\<close>

theorem InitKalloc_correct:
  assumes "canAlloc s" "pa_inv (pages (k_heap s))" "\<forall>q\<in>pa_free_set (pages (k_heap s)). page_aligned q"
    and "2 \<le> card (pa_free_set (pages (k_heap s)))"
  shows "\<exists>s' p. InitKalloc s = Some (Inr s') \<and> p \<in> pa_free_set (pages (k_heap s))
     \<and> kheap_repr (pa_free_set (pages (k_heap s)) - {p}) s' {}"
  using InitKalloc_ok [OF assms] by blast

text \<open>A machine with two free pages.\<close>

definition two_page_heap :: kalloc_state where
  "two_page_heap = empty_kalloc\<lparr>canAlloc := True, k_heap := sample_heap\<lparr>pages := two_pages\<rparr>\<rparr>"

lemma two_page_facts:
  "canAlloc two_page_heap" "pa_inv (pages (k_heap two_page_heap))"
  "pa_free_set (pages (k_heap two_page_heap)) = {0x3000, 0x2000}"
  using two_pages_cached cached_free [OF two_pages_cached]
  by (auto simp: two_page_heap_def pa_inv_def) (simp add: two_pages_def)

theorem InitKalloc_correct_witness:
  "\<exists>s' p. InitKalloc two_page_heap = Some (Inr s') \<and> p \<in> {0x3000, 0x2000} \<and> kheap_repr ({0x3000, 0x2000} - {p}) s' {}"
  using InitKalloc_correct [of two_page_heap] two_page_facts by (simp add: page_aligned_def)

lemma two_page_ready: "\<exists>s P. kheap_repr P s {}"
  using InitKalloc_ok [of two_page_heap] two_page_facts by (auto simp: page_aligned_def)


theorem kfree_refines_witness:
  "\<exists>P s a n s'. kheap_repr P s {(a, n)} \<and> kfree a s = Some (Inr s') \<and> kheap_repr P s' {}"
proof -
  have d: "(0x3000 :: addr) \<noteq> 0x2000" by simp
  obtain s P a s1 where r: "kheap_repr P s {}" "kalloc 12 s = Some (Inr (a, s1))" "a \<noteq> 0"
    using InitKalloc_ok [of two_page_heap] two_page_facts d by (auto simp: page_aligned_def)
  have "(0 :: size32) < 12" "(12 :: size32) \<le> 4096" by simp_all
  then obtain n where n: "kheap_repr P s1 {(a, n)}" using heap_alloc_ok [OF r(1), of 12] r(2,3) by auto
  then show ?thesis using kfree_refines [OF n] by fastforce
qed

end
