(* ===== verification/BootHeap.thy ===== *)
theory BootHeap
  imports Vm HeapInit
begin

text \<open>
  From the boot loader's memory map to the kernel heap: when the mappings consist of whole
  pages, so do the pages the allocator starts with, and every block the heap ever hands out
  lies in memory the boot loader called usable, away from the kernel image and the boot heap.
\<close>

subsection \<open>Whole pages\<close>

text \<open>A multiple of the page size, as a word; closed under sums and differences.\<close>

definition paged_word :: "addr \<Rightarrow> bool" where "paged_word w \<longleftrightarrow> 4096 dvd w"

lemma paged_word_arith: "paged_word a \<Longrightarrow> paged_word b \<Longrightarrow> paged_word (a + b)"
  "paged_word a \<Longrightarrow> paged_word b \<Longrightarrow> paged_word (a - b)"
  unfolding paged_word_def by (rule dvd_add, assumption+) (rule dvd_diff)

lemma paged_word_unat: "paged_word w \<longleftrightarrow> 4096 dvd unat w"
proof
  assume "paged_word w"
  then obtain k where k: "w = 4096 * k" by (auto simp: paged_word_def)
  have "(4096 :: nat) dvd (4096 * unat k) mod 2 ^ 32" by (intro dvd_mod) simp_all
  then show "4096 dvd unat w" by (simp add: k unat_word_ariths)
next
  assume "4096 dvd unat w"
  then obtain n where "unat w = 4096 * n" by auto
  then have "w = of_nat (4096 * n)" by (intro word_eq_unatI) (simp add: unat_of_nat flip: \<open>unat w = 4096 * n\<close>)
  then show "paged_word w" by (simp add: paged_word_def)
qed

lemma align_floor_paged: "paged_word (align_floor 4096 (x :: addr))"
  by (simp add: paged_word_unat unat_align_floor)

definition whole :: "mapping \<Rightarrow> bool" where
  "whole m \<longleftrightarrow> paged_word (Start m) \<and> paged_word (MapLength m)"

text \<open>A mapping below the kernel and the end of the boot heap does not matter: it gives no pages.\<close>

definition low_or_whole :: "addr \<Rightarrow> nat \<Rightarrow> mapping \<Rightarrow> bool" where
  "low_or_whole ks he m \<longleftrightarrow> whole m
     \<or> range_end (to_range m) < ks \<and> unat (Start m) + unat (MapLength m) \<le> he"

text \<open>Cutting at page boundaries leaves whole pages.\<close>

lemma range_end_whole: "whole m \<Longrightarrow> paged_word (range_end (to_range m) + 1)"
  by (simp add: whole_def range_end_def to_range_def paged_word_arith)

lemma cut_whole:
  assumes "whole m" "paged_word ks" "paged_word (ke + 1)"
  shows "whole (m\<lparr>MapLength := 0\<rparr>)" "whole (m\<lparr>MapLength := ks - Start m\<rparr>)"
    "whole (m'\<lparr>Start := ke + 1, MapLength := range_end (to_range m) - ke\<rparr>)"
proof -
  show "whole (m\<lparr>MapLength := 0\<rparr>)" "whole (m\<lparr>MapLength := ks - Start m\<rparr>)"
    using assms by (simp_all add: whole_def paged_word_arith) (simp add: paged_word_def)
  have "range_end (to_range m) - ke = (range_end (to_range m) + 1) - (ke + 1)" by simp
  then have "paged_word (range_end (to_range m) - ke)"
    using paged_word_arith(2) [OF range_end_whole [OF assms(1)] assms(3)] by simp
  then show "whole (m'\<lparr>Start := ke + 1, MapLength := range_end (to_range m) - ke\<rparr>)"
    using assms(3) by (simp add: whole_def)
qed

lemma set_entry_all:
  assumes "table_ok d" "i < MemoryMapCount d" "\<forall>m\<in>set (entries d). Q m" "Q (f (MemoryMap d ! i))"
  shows "\<forall>m\<in>set (entries (set_entry i f d)). Q m"
proof -
  have l: "i < length (entries d)" using assms(1,2) length_entries by simp
  have ed: "entries d = take i (entries d) @ MemoryMap d ! i # drop (Suc i) (entries d)"
    using id_take_nth_drop [OF l] entries_nth [OF assms(2)] by simp
  have "entries (set_entry i f d) = take i (entries d) @ f (MemoryMap d ! i) # drop (Suc i) (entries d)"
    using entries_set_entry [OF ed, of f] l by simp
  then show ?thesis using assms(3,4) by (auto dest: in_set_takeD in_set_dropD)
qed

lemma knockout_loop_whole:
  "table_ok d \<Longrightarrow> \<forall>m\<in>set (entries d). low_or_whole ks he m \<Longrightarrow> paged_word ks \<Longrightarrow> paged_word (ke + 1) \<Longrightarrow>
   knockout_loop ks ke i d = Inr d' \<Longrightarrow> table_ok d' \<and> (\<forall>m\<in>set (entries d'). low_or_whole ks he m)"
proof (induction "MemoryMapCount d - i" arbitrary: i d rule: less_induct)
  case less
  show ?case
  proof (cases "i < MemoryMapCount d \<and> \<not> length (MemoryMap d) \<le> i")
    case False
    then show ?thesis using less.prems(1,2,5) by (subst (asm) knockout_loop.simps) (auto split: if_splits)
  next
    case True
    let ?m = "MemoryMap d ! i" and ?e = "range_end (to_range (MemoryMap d ! i))"
    have c: "i < MemoryMapCount d" "\<not> length (MemoryMap d) \<le> i" using True by simp_all
    have lw: "low_or_whole ks he ?m"
      using less.prems(1,2) c(1) entries_nth [OF c(1)] length_entries nth_mem [of i "entries d"] by simp
    have cut: "low_or_whole ks he (?m\<lparr>MapLength := 0\<rparr>)" "low_or_whole ks he (?m\<lparr>MapLength := ks - Start ?m\<rparr>)"
      "low_or_whole ks he (m'\<lparr>Start := ke + 1, MapLength := ?e - ke\<rparr>)" if "\<not> ?e < ks" for m'
      using cut_whole [OF _ less.prems(3,4), of ?m] lw that by (simp_all add: low_or_whole_def)
    have go: "table_ok d' \<and> (\<forall>m\<in>set (entries d'). low_or_whole ks he m)" if "knockout_loop ks ke (i + 1) (set_entry i f d) = Inr d'" "low_or_whole ks he (f ?m)" for f
      using less.hyps [of "set_entry i f d" "i + 1"] that c(1) less.prems(1,3,4)
        set_entry_all [OF less.prems(1) c(1) less.prems(2), of f] by simp
    have skip: "table_ok d' \<and> (\<forall>m\<in>set (entries d'). low_or_whole ks he m)" if "knockout_loop ks ke (i + 1) d = Inr d'"
      using less.hyps [of d "i + 1"] that c(1) less.prems(1-4) by simp
    consider (below) "?e < ks" | (past) "\<not> ?e < ks" "Start ?m > ke"
      | (inside) "\<not> ?e < ks" "\<not> Start ?m > ke" "\<not> ks > Start ?m" "\<not> ke < ?e"
      | (low) "\<not> ?e < ks" "\<not> Start ?m > ke" "ks > Start ?m" "\<not> ke < ?e"
      | (high) "\<not> ?e < ks" "\<not> Start ?m > ke" "\<not> ks > Start ?m" "ke < ?e"
      | (split) "\<not> ?e < ks" "\<not> Start ?m > ke" "ks > Start ?m" "ke < ?e"
      by blast
    then show ?thesis
    proof cases
      case below
      then show ?thesis using less.prems(5) c skip by (subst (asm) knockout_loop.simps) (simp add: Let_def)
    next
      case past
      then show ?thesis using less.prems(1,2,5) c by (subst (asm) knockout_loop.simps) (simp add: Let_def)
    next
      case inside
      have "knockout_loop ks ke (i + 1) (set_entry i (MapLength_update (\<lambda>_. 0)) d) = Inr d'"
        using less.prems(5) c inside by (subst (asm) knockout_loop.simps) (simp add: Let_def)
      then show ?thesis by (rule go) (rule cut(1) [OF inside(1)])
    next
      case low
      have "knockout_loop ks ke (i + 1) (set_entry i (MapLength_update (\<lambda>_. ks - Start ?m)) d) = Inr d'"
        using less.prems(5) c low by (subst (asm) knockout_loop.simps) (simp add: Let_def)
      then show ?thesis by (rule go) (rule cut(2) [OF low(1)])
    next
      case high
      have "knockout_loop ks ke (i + 1) (set_entry i (\<lambda>m. m\<lparr>Start := ke + 1, MapLength := ?e - ke\<rparr>) d) = Inr d'"
        using less.prems(5) c high by (subst (asm) knockout_loop.simps) (simp add: Let_def)
      then show ?thesis by (rule go) (rule cut(3) [OF high(1)])
    next
      case split
      let ?f = "MapLength_update (\<lambda>_. ks - Start ?m)" and ?g = "\<lambda>m. m\<lparr>Start := ke + 1, MapLength := ?e - ke\<rparr>"
      let ?d1 = "set_entry i ?f d"
      let ?d2 = "set_entry (MemoryMapCount ?d1) ?g (?d1\<lparr>MemoryMapCount := MemoryMapCount ?d1 + 1\<rparr>)"
      have d2: "d' = ?d2" "MemoryMapCount ?d1 + 1 < MaxMemoryEntries"
        using less.prems(5) c split by (subst (asm) knockout_loop.simps, simp add: Let_def split: if_splits)+
      obtain m where e: "entries ?d2 = entries ?d1 @ [?g m]"
        using entries_append_new [of ?d1 ?g] d2(2) less.prems(1) by auto
      have "\<forall>x\<in>set (entries ?d1). low_or_whole ks he x"
        using set_entry_all [OF less.prems(1) c(1) less.prems(2), of ?f] cut(2) [OF split(1)] by simp
      moreover have "table_ok ?d2" using less.prems(1) d2(2) by (simp add: table_ok_def set_entry_def)
      ultimately show ?thesis using cut(3) [OF split(1), of m] unfolding d2(1) e by simp
    qed
  qed
qed

lemma knockout_whole:
  assumes "table_ok d" "\<forall>m\<in>set (entries d). low_or_whole (base_aligned (kernel_range d)) he m"
    and "knockout_used_memory d = Inr d'"
  shows "\<forall>m\<in>set (entries d'). low_or_whole (base_aligned (kernel_range d)) he m"
proof -
  let ?ks = "base_aligned (kernel_range d)" and ?ke = "end_aligned (kernel_range d)"
  obtain d1 d2 where d: "sort_mappings d = Inr d1" "knockout_loop ?ks ?ke 0 d1 = Inr d2" "remove_dead_mappings d2 = Inr d'"
    using assms(3) by (auto simp: knockout_used_memory_def Let_def)
  have d1: "table_ok d1" "mset (entries d1) = mset (entries d)"
    using sort_mappings_correct [OF assms(1)] d(1) by auto
  have w1: "\<forall>m\<in>set (entries d1). low_or_whole ?ks he m" using assms(2) mset_eq_setD [OF d1(2)] by simp
  have k: "paged_word ?ks" "paged_word (?ke + 1)"
    by (simp_all add: base_aligned_def end_aligned_def align_ceiling_def align_floor_paged)
  have w2: "table_ok d2" "\<forall>m\<in>set (entries d2). low_or_whole ?ks he m" using knockout_loop_whole [OF d1(1) w1 k d(2)] by auto
  have "entries d' = filter (\<lambda>m. MapLength m > 0) (entries d2)" using remove_dead_correct [OF w2(1)] d(3) by auto
  then show ?thesis using w2(2) by simp
qed

text \<open>The pages that the allocator collects from whole mappings.\<close>

lemma boot_page_whole:
  assumes "a \<in> boot_page_set he ms" "\<forall>m\<in>set ms. low_or_whole ks he m"
  shows "4096 dvd a" "{a ..< a + 4096} \<subseteq> map_addrs ms" "he \<le> a"
proof -
  obtain m k where m: "m \<in> set ms" "a = unat (Start m) + 4096 * k" "4096 * k < unat (MapLength m)" "he \<le> a"
    using assms(1) by (auto simp: boot_page_set_def pages_from_def)
  have "whole m" using assms(2) m by (auto simp: low_or_whole_def)
  then obtain u v where uv: "unat (Start m) = 4096 * u" "unat (MapLength m) = 4096 * v"
    by (auto simp: whole_def paged_word_unat elim!: dvdE)
  show "4096 dvd a" unfolding m(2) uv by simp
  have "k < v" using m(3) uv by simp
  then have "a + 4096 \<le> unat (Start m) + unat (MapLength m)" unfolding m(2) uv by simp
  then have "{a ..< a + 4096} \<subseteq> range_addrs (to_range m)" using m(2) by (auto simp: range_addrs_def to_range_def)
  then show "{a ..< a + 4096} \<subseteq> map_addrs ms" using m(1) by (auto simp: map_addrs_def)
  show "he \<le> a" by (rule m(4))
qed

definition map_ready :: "argument_data \<Rightarrow> bool" where
  "map_ready d \<longleftrightarrow> table_ok d \<and> MemoryMapCount d + 1 < MaxMemoryEntries
     \<and> (\<forall>m\<in>set (entries d). entry_ok m
          \<and> low_or_whole (base_aligned (kernel_range d)) (unat (range_end (heap_physical d))) m)
     \<and> disjoint_maps (entries d)
     \<and> base_aligned (kernel_range d) \<le> end_aligned (kernel_range d)
     \<and> 0 < unat (range_end (heap_physical d)) \<and> unat (range_end (heap_physical d)) \<le> 4194304"

text \<open>Memory that the boot loader called usable and that the kernel does not occupy.\<close>

definition usable :: "argument_data \<Rightarrow> nat set" where
  "usable d = (map_addrs (entries d) \<inter> {unat (range_end (heap_physical d)) ..})
     - {unat (base_aligned (kernel_range d)) .. unat (end_aligned (kernel_range d))}"

lemma vmm_init_pages:
  assumes "map_ready (args_data args)" "vmm_init args mem = Some (Inr (args', pa))"
  shows "pa_inv pa" "canAllocPages args'" "\<forall>p\<in>pa_free_set pa. page_aligned p \<and> span p 4096 \<subseteq> usable (args_data args)"
proof -
  let ?d = "args_data args"
  let ?he = "unat (range_end (heap_physical ?d))"
  have a: "table_ok ?d" "MemoryMapCount ?d + 1 < MaxMemoryEntries" "\<forall>m\<in>set (entries ?d). entry_ok m"
    "\<forall>m\<in>set (entries ?d). low_or_whole (base_aligned (kernel_range ?d)) ?he m" "disjoint_maps (entries ?d)"
    "base_aligned (kernel_range ?d) \<le> end_aligned (kernel_range ?d)" "0 < ?he" "?he \<le> 4194304"
    using assms(1) by (simp_all add: map_ready_def)
  obtain d where d: "knockout_used_memory ?d = Inr d" "maps_ok d" "same_frame ?d d"
     "map_addrs (entries d) = map_addrs (entries ?d)
         - kernel_span (base_aligned (kernel_range ?d)) (end_aligned (kernel_range ?d))"
    using knockout_ok [OF a(1-3,5,6)] by blast
  note w = knockout_whole [OF a(1,4) d(1)]
  have he: "?he = unat (range_end (heap_physical d))" using same_frame_ranges [OF d(3)] by simp
  have v: "pa_construct d mem = Some (Inr pa)" "args' = args\<lparr>args_data := d, canAllocPages := True\<rparr>"
    using assms(2) d(1) by (auto simp: vmm_init_def)
  then show "canAllocPages args'" by simp
  have p: "pa_inv pa" "unat ` pa_free_set pa \<subseteq> boot_page_set ?he (entries d)"
    using pa_construct_sub [OF d(2) he a(8,7), of mem] v(1) by auto
  then show "pa_inv pa" by simp
  show "\<forall>p\<in>pa_free_set pa. page_aligned p \<and> span p 4096 \<subseteq> usable ?d"
  proof
    fix q assume "q \<in> pa_free_set pa"
    then have "unat q \<in> boot_page_set ?he (entries d)" using p(2) by blast
    note b = boot_page_whole [OF this w]
    have "span q 4096 \<subseteq> usable ?d" using b(2,3) unfolding d(4) kernel_span_def usable_def span_def by auto
    then show "page_aligned q \<and> span q 4096 \<subseteq> usable ?d" using b(1) by (simp add: page_aligned_def)
  qed
qed

subsection \<open>Blocks of the running kernel\<close>

lemma boot_heap_ready:
  assumes "map_ready (args_data args)" "vmm_init args mem = Some (Inr (args', pa))" "2 \<le> card (pa_free_set pa)"
  shows "\<exists>k P. InitKalloc (k0\<lparr>canAlloc := canAllocPages args', k_heap := (k_heap k0)\<lparr>pages := pa\<rparr>\<rparr>) = Some (Inr k)
     \<and> kheap_repr P k {} \<and> (\<forall>p\<in>P. page_aligned p \<and> span p 4096 \<subseteq> usable (args_data args))"
proof -
  note v = vmm_init_pages [OF assms(1,2)]
  let ?k = "k0\<lparr>canAlloc := canAllocPages args', k_heap := (k_heap k0)\<lparr>pages := pa\<rparr>\<rparr>"
  have al: "\<forall>q\<in>pa_free_set (pages (k_heap ?k)). page_aligned q" using v(3) by simp
  obtain s p where s: "InitKalloc ?k = Some (Inr s)" "kheap_repr (pa_free_set pa - {p}) s {}"
    using InitKalloc_ok [of ?k, OF _ _ al] v(1,2) assms(3) by auto
  then show ?thesis using v(3) by blast
qed

lemma held_usable:
  assumes "kh.held P s H" "\<forall>p\<in>P. page_aligned p \<and> span p 4096 \<subseteq> A"
  shows "\<forall>(a, sz)\<in>set H. span a (unat sz) \<subseteq> A"
proof
  fix x assume x: "x \<in> set H"
  obtain a sz where a: "x = (a, sz)" by (cases x)
  obtain U where U: "kheap_repr P s U" "covers U H" using assms(1) by (auto simp: kh.held_def)
  obtain n where n: "(a, n) \<in> U" "unat sz \<le> n" using U(2) x a unfolding covers_def by (metis fst_conv snd_conv)
  obtain Y where Y: "heap_inv s Y" "blocks s Y = U" "heap_pages s Y = P" using U(1) by (auto simp: kheap_repr_def)
  obtain p where p: "p \<in> P" "span a n \<subseteq> span p 4096" using block_in_pages [OF Y(1), of a n] n(1) Y(2,3) by blast
  have "span a (unat sz) \<subseteq> span a n" using n(2) by (auto simp: span_def)
  then show "case x of (a, sz) \<Rightarrow> span a (unat sz) \<subseteq> A" using p assms(2) by (auto simp: a)
qed

lemma boot_runs_ok:
  assumes "kheap_repr P k {}" "\<forall>p\<in>P. page_aligned p \<and> span p 4096 \<subseteq> A" "\<forall>sz. Get sz \<in> set rs \<longrightarrow> sz \<le> 4096"
  shows "serve kalloc kfree rs k [] = Some (Inl NullDeref)
     \<or> (\<exists>k' H. serve kalloc kfree rs k [] = Some (Inr (k', H)) \<and> apart H
          \<and> (\<forall>(a, sz)\<in>set H. span a (unat sz) \<subseteq> A))"
proof -
  have "kh.held P k []" using assms(1) by (auto simp: kh.held_def covers_def)
  from kh.serve_apart [OF this assms(3)] show ?thesis
    using kh.held_apart held_usable [OF _ assms(2)] by blast
qed


lemma one_map_pages:
  "\<exists>args' pa. vmm_init (args_init (vm_args one_map)) mem = Some (Inr (args', pa)) \<and> 2 \<le> card (pa_free_set pa)"
proof -
  obtain d where d: "knockout_used_memory (vm_args one_map) = Inr d" "same_frame (vm_args one_map) d" "entries d =
   [\<lparr>Start = 0x300000, MapLength = 0x1000, Type = Available\<rparr>,
    \<lparr>Start = 0x302000, MapLength = 0x4000, Type = Invalid\<rparr>]" using knockout_one by blast
  have h: "range_end (heap_physical d) = 0x303000" using d(2) same_frame_ranges vm_args_ranges by simp
  have "\<exists>s. pa_construct d mem = Some (Inr s) \<and> cached s [0x305000, 0x304000, 0x303000]"
    by (simp add: construct_unfold h d(3) unlocked lock_init_def cached_def)
  then obtain s where s: "pa_construct d mem = Some (Inr s)" "cached s [0x305000, 0x304000, 0x303000]" by blast
  have "card (pa_free_set s) = 3" unfolding cached_free [OF s(2)] by simp
  with s(1) d(1) show ?thesis by (auto simp: vmm_init_def args_init_def)
qed

lemma one_map_ready: "map_ready (args_data (args_init (vm_args one_map)))"
proof -
  have d: "args_data (args_init (vm_args one_map)) = vm_args one_map" by (simp add: args_init_def)
  have e: "entries (vm_args one_map) = one_map" "table_ok (vm_args one_map)"
    by (simp_all add: vm_args_entries one_map_def MaxMemoryEntries_def)
  have "MemoryMapCount (vm_args one_map) + 1 < MaxMemoryEntries"
    by (simp add: vm_args_def one_map_def MaxMemoryEntries_def)
  then show ?thesis
    unfolding map_ready_def d e vm_args_ranges using e(2)
    by (simp add: one_map_def entry_ok_def range_ok_def low_or_whole_def whole_def paged_word_unat to_range_def)
qed


subsection \<open>Mappings that are not whole pages\<close>

text \<open>
  The loop over a mapping neither rounds its start up nor stops before a last page that the
  mapping only covers in part: such a page is handed out although memory the boot loader did
  not name is in it, and pages are as little aligned as the mapping.
\<close>

definition no_pages :: page_allocator where
  "no_pages = \<lparr>pa_lock = 0, pa_pages = 0, pa_total = 0, pa_avail = 0, pa_cache = 0, pa_cache_count = 0,
     node_next = (\<lambda>_. 0)\<rparr>"

lemma partial_page_handed_out:
  "\<exists>s. add_boot_pages 0x303000 [\<lparr>Start = 0x304000, MapLength = 0x1800, Type = Available\<rparr>] no_pages = Some s
     \<and> pa_free_set s = {0x304000, 0x305000}"
proof -
  have "\<exists>s. add_boot_pages 0x303000 [\<lparr>Start = 0x304000, MapLength = 0x1800, Type = Available\<rparr>] no_pages = Some s
     \<and> cached s [0x305000, 0x304000]"
    by (simp add: construct_unfold no_pages_def cached_def)
  then show ?thesis using cached_free by fastforce
qed

lemma unaligned_page_handed_out:
  "\<exists>s. add_boot_pages 0x303000 [\<lparr>Start = 0x304010, MapLength = 0x1000, Type = Available\<rparr>] no_pages = Some s
     \<and> pa_free_set s = {0x304010}"
proof -
  have "\<exists>s. add_boot_pages 0x303000 [\<lparr>Start = 0x304010, MapLength = 0x1000, Type = Available\<rparr>] no_pages = Some s
     \<and> cached s [0x304010]"
    by (simp add: construct_unfold no_pages_def cached_def)
  then show ?thesis using cached_free by fastforce
qed

end
