(* ===== verification/Interrupts.thy ===== *)
theory Interrupts
  imports Shell "HOL-Library.Signed_Division"
begin

text \<open>
  Interrupts of the i386: the descriptor table and the dispatcher of idt.cpp, the register dump
  of arch_debug.cpp, the interrupt controllers of pic8259.cpp and the timer of timer.cpp, which
  talk to their devices through bus.cpp, and the nesting counter of kernel/interrupt.h. What
  reaches a device is the list of its port writes.
\<close>

subsection \<open>The bus\<close>

datatype port_write = OutB u16 u8 | OutW u16 u16 | OutL u16 u32

record bus =
  bus_base :: u16
  bus_size :: size32

definition bus_new :: "addr \<Rightarrow> size32 \<Rightarrow> bus" where
  "bus_new base sz = \<lparr>bus_base = ucast base, bus_size = sz\<rparr>"

definition bus_byte :: "bus \<Rightarrow> u32 \<Rightarrow> u8 \<Rightarrow> port_write list \<Rightarrow> fault + port_write list" where
  "bus_byte b offset v out =
     (if offset < bus_size b then Inr (out @ [OutB (bus_base b + ucast offset) v])
      else Inl (AssertFail ''Bus write overflow''))"

definition bus_word :: "bus \<Rightarrow> u32 \<Rightarrow> u16 \<Rightarrow> port_write list \<Rightarrow> port_write list" where
  "bus_word b offset v out = out @ [OutW (bus_base b + ucast offset) v]"

definition bus_dword :: "bus \<Rightarrow> u32 \<Rightarrow> u32 \<Rightarrow> port_write list \<Rightarrow> port_write list" where
  "bus_dword b offset v out = out @ [OutL (bus_base b + ucast offset) v]"

text \<open>The reads; what a port answers is a parameter.\<close>

definition bus_read_byte :: "(u16 \<Rightarrow> u8) \<Rightarrow> bus \<Rightarrow> u32 \<Rightarrow> fault + u8" where
  "bus_read_byte inb b offset =
     (if offset < bus_size b then Inr (inb (bus_base b + ucast offset))
      else Inl (AssertFail ''Bus write overflow''))"

definition bus_read_word :: "(u16 \<Rightarrow> u16) \<Rightarrow> bus \<Rightarrow> u32 \<Rightarrow> u16" where
  "bus_read_word inw b offset = inw (bus_base b + ucast offset)"

definition bus_read_dword :: "(u16 \<Rightarrow> u32) \<Rightarrow> bus \<Rightarrow> u32 \<Rightarrow> u32" where
  "bus_read_dword inl b offset = inl (bus_base b + ucast offset)"

text \<open>Several byte writes in order.\<close>

fun bus_bytes :: "bus \<Rightarrow> (u32 \<times> u8) list \<Rightarrow> port_write list \<Rightarrow> fault + port_write list" where
  "bus_bytes b [] out = Inr out"
| "bus_bytes b ((offset, v) # ws) out = bindf (bus_byte b offset v out) (bus_bytes b ws)"

subsection \<open>State\<close>

record idt_entry =
  base_low :: u16
  ie_selector :: u16
  ie_reserved :: u8
  ie_type :: "4 word"
  ie_storage :: "1 word"
  ie_level :: "2 word"
  ie_present :: "1 word"
  base_hi :: u16

record interrupts =
  s_idt :: "idt_entry list"
  s_idtp :: "(u16 \<times> addr) option"
  s_isr_callbacks :: "addr list"
  i_out :: "port_write list"

definition IDT_ENTRIES :: nat where "IDT_ENTRIES = 256"
definition MAX_IRQS :: int where "MAX_IRQS = 16"
definition TYPE_INT :: "4 word" where "TYPE_INT = 0x0E"
definition TYPE_TRAP :: "4 word" where "TYPE_TRAP = 0x0F"

subsection \<open>The descriptor table\<close>

definition set_idt_entry ::
    "nat \<Rightarrow> addr \<Rightarrow> bool \<Rightarrow> u32 \<Rightarrow> u32 \<Rightarrow> interrupts \<Rightarrow> fault + interrupts" where
  "set_idt_entry idx base trap selector level s =
     (if length (s_idt s) \<le> idx then Inl OutOfBounds
      else Inr (s\<lparr>s_idt := (s_idt s)[idx := \<lparr>base_low = ucast (base AND 0xFFFF), ie_selector = ucast selector,
             ie_reserved = 0, ie_type = (if trap then TYPE_TRAP else TYPE_INT), ie_storage = 0,
             ie_level = ucast level, ie_present = 1,
             base_hi = ucast (drop_bit 16 base AND 0xFFFF)\<rparr>]\<rparr>))"

text \<open>Returns the handler that was set before; a callback is the address of its code, 0 is none.\<close>

definition set_isr_callback :: "u8 \<Rightarrow> addr \<Rightarrow> interrupts \<Rightarrow> addr \<times> interrupts" where
  "set_isr_callback isr_no callback s =
     (s_isr_callbacks s ! unat isr_no,
      s\<lparr>s_isr_callbacks := (s_isr_callbacks s)[unat isr_no := callback]\<rparr>)"

definition zero_entry :: idt_entry where
  "zero_entry = \<lparr>base_low = 0, ie_selector = 0, ie_reserved = 0, ie_type = 0, ie_storage = 0,
     ie_level = 0, ie_present = 0, base_hi = 0\<rparr>"

fun init_idt_loop :: "addr list \<Rightarrow> nat \<Rightarrow> interrupts \<Rightarrow> fault + interrupts" where
  "init_idt_loop [] i s = Inr s"
| "init_idt_loop (v # vs) i s = bindf (set_idt_entry i v False 0x08 0 s) (init_idt_loop vs (i + 1))"

text \<open>The stubs and the address of the table are parameters.\<close>

definition init_idt :: "addr list \<Rightarrow> addr \<Rightarrow> interrupts \<Rightarrow> fault + interrupts" where
  "init_idt vectors idt_addr s =
     (let s = s\<lparr>s_isr_callbacks := replicate IDT_ENTRIES 0, s_idt := replicate IDT_ENTRIES zero_entry\<rparr>
      in bindf (init_idt_loop (take IDT_ENTRIES vectors) 0 s)
           (\<lambda>s. Inr (s\<lparr>s_idtp := Some (8 * of_nat IDT_ENTRIES - 1, idt_addr)\<rparr>)))"

subsection \<open>Registers\<close>

record regs =
  r_gs :: u32 r_fs :: u32 r_es :: u32 r_ds :: u32
  r_edi :: u32 r_esi :: u32 r_ebp :: u32 r_esp :: u32
  r_ebx :: u32 r_edx :: u32 r_ecx :: u32 r_eax :: u32
  r_int_no :: u32 r_err_code :: u32
  r_eip :: u32 r_cs :: u32 r_eflags :: u32
  r_useresp :: u32 r_ss :: u32

definition reg8 :: "string \<Rightarrow> u32 \<Rightarrow> (con \<Rightarrow> con outcome) list" where
  "reg8 name v = [out_str (lit name), put_hex (ucast v) (- 8)]"

definition dump_regs :: "regs \<Rightarrow> con \<Rightarrow> con outcome" where
  "dump_regs r = puts ([out_str (lit ''CPU DUMP:'' @ CRLF), out_str (lit ''  '')]
     @ reg8 ''EAX: '' (r_eax r) @ reg8 '' EBX: '' (r_ebx r) @ reg8 '' ECX: '' (r_ecx r) @ reg8 '' EDX: '' (r_edx r)
     @ [out_str CRLF, out_str (lit ''  '')]
     @ reg8 ''EDI: '' (r_edi r) @ reg8 '' ESI: '' (r_esp r) @ reg8 '' EBP: '' (r_ebp r) @ reg8 '' FLG: '' (r_eflags r)
     @ [out_str CRLF, out_str (lit ''  '')]
     @ reg8 '' CS: '' (r_cs r) @ reg8 '' EIP: '' (r_eip r) @ reg8 ''  SS: '' (r_ss r) @ reg8 '' ESP: '' (r_esp r)
     @ [out_str CRLF, out_str (lit ''  '')]
     @ reg8 '' DS: '' (r_ds r) @ reg8 ''  ES: '' (r_es r) @ reg8 ''  GS: '' (r_gs r) @ reg8 ''  FS: '' (r_fs r)
     @ [out_str CRLF])"

subsection \<open>The interrupt controllers\<close>

definition PRIMARY_PIC_PORT :: addr where "PRIMARY_PIC_PORT = 0x0020"
definition SECONDARY_PIC_PORT :: addr where "SECONDARY_PIC_PORT = 0x00A0"
definition ICW1_ICW4_NEEDED :: u8 where "ICW1_ICW4_NEEDED = 0x01"
definition ICW1_ONE :: u8 where "ICW1_ONE = 0x10"
definition ICW4_MODE_86 :: u8 where "ICW4_MODE_86 = 0x01"

definition init_pic_device :: "addr \<Rightarrow> bool \<Rightarrow> port_write list \<Rightarrow> fault + port_write list" where
  "init_pic_device port isPrimary =
     bus_bytes (bus_new port 2)
       [(0, ICW1_ICW4_NEEDED OR ICW1_ONE), (1, if isPrimary then 0x20 else 0x28),
        (1, if isPrimary then 0x04 else 0x02), (1, ICW4_MODE_86), (1, if isPrimary then 0xFE else 0xFF)]"

definition init_pics :: "port_write list \<Rightarrow> fault + port_write list" where
  "init_pics out = bindf (init_pic_device PRIMARY_PIC_PORT True out) (init_pic_device SECONDARY_PIC_PORT False)"

definition pic_send_eoi :: "int \<Rightarrow> port_write list \<Rightarrow> fault + port_write list" where
  "pic_send_eoi irq_no out =
     bindf (if irq_no \<ge> 8 then bus_byte (bus_new SECONDARY_PIC_PORT 2) 0 0x20 out else Inr out)
       (bus_byte (bus_new PRIMARY_PIC_PORT 2) 0 0x20)"

subsection \<open>The dispatcher\<close>

definition exception_messages :: "string list" where
  "exception_messages = [''Divide by zero'', ''Debug'', ''Non Maskable Interrupt'', ''Breakpoint'',
     ''Into Detected Overflow'', ''Out of Bounds'', ''Invalid Opcode'', ''No FPU'', ''Double Fault'',
     ''FPU Segment Overrun'', ''Bad TSS'', ''Segment Not Present'', ''Stack Fault'',
     ''General Protection Fault'', ''Page Fault'', ''Unknown Interrupt'', ''FPU Fault'',
     ''Alignment Check'', ''Machine Check'', ''Reserved 19'', ''Reserved 20'', ''Reserved 21'',
     ''Reserved 22'', ''Reserved 23'', ''Reserved 24'', ''Reserved 25'', ''Reserved 26'',
     ''Reserved 27'', ''Reserved 28'', ''Reserved 29'', ''Reserved 30'', ''Reserved 31'']"

text \<open>The handler of panics ends in a halt of the machine: its result is the console's last state.\<close>

definition panic_handler :: "regs \<Rightarrow> con \<Rightarrow> con outcome" where
  "panic_handler r =
     (let msg = (if r_int_no r < 32 then exception_messages ! unat (r_int_no r) else ''Unknown Exception'')
      in puts [out_str (lit ''Exception (''), put_hex (ucast (r_int_no r)) (- 2), out_str (lit ''): ''),
               out_str (lit msg), out_str CRLF, out_str (lit ''Error Code: ''), out_size (r_err_code r),
               out_str CRLF, dump_regs r, out_str ([10] @ lit ''System Halted.'')])"

definition default_handler :: "interrupts \<Rightarrow> interrupts" where "default_handler s = s"

datatype isr_exit = Resumed interrupts | Halted con

text \<open>
  handle_isr. What the callback at an address does to the interrupt system is a parameter; a
  callback that never returns is None.
\<close>

definition handle_isr ::
    "(addr \<Rightarrow> regs \<Rightarrow> interrupts \<Rightarrow> interrupts outcome) \<Rightarrow> regs \<Rightarrow> con \<Rightarrow> interrupts \<Rightarrow> isr_exit outcome" where
  "handle_isr call r con s =
     (let irq_no = sint (r_int_no r - 32);
          is_irq = (irq_no \<ge> 0 \<and> irq_no < MAX_IRQS);
          finish = (\<lambda>s. if is_irq then bindo (Some (pic_send_eoi irq_no (i_out s))) (\<lambda>out. Some (Inr (Resumed (s\<lparr>i_out := out\<rparr>))))
                        else Some (Inr (Resumed s)))
      in if length (s_isr_callbacks s) \<le> unat (r_int_no r) then Some (Inl OutOfBounds)
         else let cb = s_isr_callbacks s ! unat (r_int_no r)
              in if cb = 0 then
                   if \<not> is_irq \<and> r_int_no r < 32
                   then bindo (panic_handler r con) (\<lambda>con. Some (Inr (Halted con)))
                   else finish (default_handler s)
                 else bindo (call cb r s) finish)"

subsection \<open>The timer\<close>

definition TIMER_PORTBASE :: addr where "TIMER_PORTBASE = 0x0040"
definition TIMER_COUNTER0 :: u32 where "TIMER_COUNTER0 = 0"
definition TIMER_MODE :: u32 where "TIMER_MODE = 3"
definition TIMER_SEL0 :: u8 where "TIMER_SEL0 = 0x00"
definition TIMER_SQWAVE :: u8 where "TIMER_SQWAVE = 0x06"
definition TIMER_16BIT :: u8 where "TIMER_16BIT = 0x30"
definition TIMER_FREQ :: int where "TIMER_FREQ = 100"
definition TIMER_PHYSFREQ :: int where "TIMER_PHYSFREQ = 1193180"

definition timer_divisor :: "int \<Rightarrow> int" where
  "timer_divisor freq = (let divis = (TIMER_PHYSFREQ * 2) sdiv freq in divis div 2 + divis mod 2)"

definition set_timer_freq :: "int \<Rightarrow> port_write list \<Rightarrow> fault + port_write list" where
  "set_timer_freq freq out =
     (if freq = 0 then Inl Undefined
      else let divis = timer_divisor freq
           in bus_bytes (bus_new TIMER_PORTBASE 4)
                [(TIMER_MODE, TIMER_SEL0 OR TIMER_16BIT OR TIMER_SQWAVE),
                 (TIMER_COUNTER0, of_int (divis mod 256)),
                 (TIMER_COUNTER0, of_int (divis div 256 mod 256))] out)"

text \<open>init_timer; tick is the address of the handler, which does nothing.\<close>

definition init_timer :: "addr \<Rightarrow> interrupts \<Rightarrow> fault + interrupts" where
  "init_timer tick s =
     bindf (set_timer_freq TIMER_FREQ (i_out s)) (\<lambda>out.
       Inr (snd (set_isr_callback 32 tick (s\<lparr>i_out := out\<rparr>))))"

text \<open>arch::Init, before interrupts are let in.\<close>

definition arch_init :: "addr list \<Rightarrow> addr \<Rightarrow> addr \<Rightarrow> interrupts \<Rightarrow> fault + interrupts" where
  "arch_init vectors idt_addr tick s =
     bindf (init_idt vectors idt_addr s) (\<lambda>s.
     bindf (init_pics (i_out s)) (\<lambda>out. init_timer tick (s\<lparr>i_out := out\<rparr>)))"

subsection \<open>The interrupt stack\<close>

text \<open>The counter and the interrupt flag of the processor.\<close>

record intr_stack =
  m_disableCount :: int32
  intr_enabled :: bool

definition intr_stack_init :: "bool \<Rightarrow> intr_stack" where
  "intr_stack_init e = \<lparr>m_disableCount = 0, intr_enabled = e\<rparr>"

definition PushDisable :: "intr_stack \<Rightarrow> intr_stack" where
  "PushDisable s =
     (let s = s\<lparr>m_disableCount := m_disableCount s + 1\<rparr>
      in if m_disableCount s \<noteq> 0 then s\<lparr>intr_enabled := False\<rparr> else s)"

definition PopDisable :: "intr_stack \<Rightarrow> intr_stack" where
  "PopDisable s =
     (let s = s\<lparr>m_disableCount := m_disableCount s - 1\<rparr>
      in if m_disableCount s = 0 then s\<lparr>intr_enabled := True\<rparr> else s)"

text \<open>The object whose lifetime is a section without interrupts.\<close>

definition AutoInterruptDisable :: "(intr_stack \<Rightarrow> intr_stack) \<Rightarrow> intr_stack \<Rightarrow> intr_stack" where
  "AutoInterruptDisable body s = PopDisable (body (PushDisable s))"

subsection \<open>Gates\<close>

definition gate_offset :: "idt_entry \<Rightarrow> addr" where
  "gate_offset e = push_bit 16 (ucast (base_hi e)) OR ucast (base_low e)"

definition kernel_gate :: "addr \<Rightarrow> idt_entry \<Rightarrow> bool" where
  "kernel_gate v e \<longleftrightarrow> gate_offset e = v \<and> ie_selector e = 8 \<and> ie_type e = TYPE_INT \<and> ie_level e = 0
     \<and> ie_present e = 1 \<and> ie_reserved e = 0"

lemma split_offset: "push_bit 16 (ucast (ucast (drop_bit 16 v AND 0xFFFF) :: u16)) OR ucast (ucast (v AND 0xFFFF) :: u16) = v"
  for v :: addr
proof -
  have m: "(0xFFFF :: addr) = mask 16" by (simp add: mask_eq_exp_minus_1)
  show ?thesis
    unfolding m by (rule bit_word_eqI) (auto simp: bit_simps)
qed

lemma init_idt_loop_ok:
  "length (s_idt s) = 256 \<Longrightarrow> i + length vs \<le> 256 \<Longrightarrow> \<exists>t. init_idt_loop vs i s = Inr (s\<lparr>s_idt := t\<rparr>) \<and> length t = 256
     \<and> (\<forall>j<256. if i \<le> j \<and> j < i + length vs then kernel_gate (vs ! (j - i)) (t ! j) else t ! j = s_idt s ! j)"
proof (induction vs arbitrary: i s)
  case Nil
  then show ?case by (intro exI [of _ "s_idt s"]) auto
next
  case (Cons v vs)
  obtain e where e: "set_idt_entry i v False 0x08 0 s = Inr (s\<lparr>s_idt := (s_idt s)[i := e]\<rparr>)" "kernel_gate v e"
    using Cons.prems by (simp add: set_idt_entry_def kernel_gate_def gate_offset_def split_offset)
  obtain t where t: "init_idt_loop vs (i + 1) (s\<lparr>s_idt := (s_idt s)[i := e]\<rparr>) = Inr (s\<lparr>s_idt := t\<rparr>)" "length t = 256"
    "\<forall>j<256. if i + 1 \<le> j \<and> j < i + 1 + length vs then kernel_gate (vs ! (j - (i + 1))) (t ! j)
       else t ! j = s_idt (s\<lparr>s_idt := (s_idt s)[i := e]\<rparr>) ! j"
    using Cons.IH [of "s\<lparr>s_idt := (s_idt s)[i := e]\<rparr>" "i + 1"] Cons.prems by auto
  have "if i \<le> j \<and> j < i + length (v # vs) then kernel_gate ((v # vs) ! (j - i)) (t ! j) else t ! j = s_idt s ! j"
    if "j < 256" for j
    using t(3) [rule_format, OF that] e(2) Cons.prems that by (cases "j = i") (auto simp: nth_Cons' not_le less_Suc_eq)
  with e(1) t(1,2) show ?case by auto
qed

lemma init_idt_ok:
  assumes "length vectors = 256"
  shows "\<exists>t. init_idt vectors a s = Inr (s\<lparr>s_isr_callbacks := replicate 256 0, s_idt := t, s_idtp := Some (2047, a)\<rparr>)
     \<and> length t = 256 \<and> (\<forall>j<256. kernel_gate (vectors ! j) (t ! j))"
  using init_idt_loop_ok [of "s\<lparr>s_isr_callbacks := replicate IDT_ENTRIES 0, s_idt := replicate IDT_ENTRIES zero_entry\<rparr>" 0 vectors] assms
  by (auto simp: init_idt_def IDT_ENTRIES_def)

subsection \<open>Acknowledgement\<close>

lemma pic_bytes:
  "bus_byte (bus_new PRIMARY_PIC_PORT 2) 0 v out = Inr (out @ [OutB 0x20 v])"
  "bus_byte (bus_new SECONDARY_PIC_PORT 2) 0 v out = Inr (out @ [OutB 0xA0 v])"
  by (simp_all add: bus_byte_def bus_new_def PRIMARY_PIC_PORT_def SECONDARY_PIC_PORT_def)

text \<open>What the controllers have to be told about an interrupt.\<close>

definition acknowledgement :: "u32 \<Rightarrow> port_write list" where
  "acknowledgement n = (if n < 32 \<or> 48 \<le> n then [] else if n < 40 then [OutB 0x20 0x20] else [OutB 0xA0 0x20, OutB 0x20 0x20])"

lemma irq_number:
  fixes n :: u32
  assumes "n < 256"
  shows "0 \<le> sint (n - 32) \<and> sint (n - 32) < 16 \<longleftrightarrow> 32 \<le> n \<and> n < 48" "32 \<le> n \<Longrightarrow> 8 \<le> sint (n - 32) \<longleftrightarrow> 40 \<le> n"
proof -
  have n: "unat n < 256" using assms by (simp add: word_less_nat_alt)
  have "n - 32 = word_of_int (int (unat n) - 32)" by simp
  then have "sint (n - 32) = signed_take_bit 31 (int (unat n) - 32)"
    by (simp only: sint_sbintrunc')  simp
  also have "signed_take_bit 31 (int k - 32) = int k - 32" if "k < 256" for k
    using that by (intro signed_take_bit_int_eq_self) simp_all
  from this [OF n] have "signed_take_bit 31 (int (unat n) - 32) = int (unat n) - 32" .
  finally have s: "sint (n - 32) = int (unat n) - 32" .
  have a: "(0 \<le> int k - 32 \<and> int k - 32 < 16) = (32 \<le> k \<and> k < 48)" "(8 \<le> int k - 32) = (40 \<le> k)" for k
    by auto
  show "0 \<le> sint (n - 32) \<and> sint (n - 32) < 16 \<longleftrightarrow> 32 \<le> n \<and> n < 48" "32 \<le> n \<Longrightarrow> 8 \<le> sint (n - 32) \<longleftrightarrow> 40 \<le> n"
    unfolding s a word_le_nat_alt word_less_nat_alt by simp_all
qed

text \<open>
  C34: while a table of 256 gates is set up, every interrupt that the dispatcher gets past is
  acknowledged exactly as its controller needs it: not at all outside the lines 32 to 47, at
  the first controller for its eight lines, at the second and then the first for the others;
  the callback has run before. An exception without a callback never gets past the dispatcher.
\<close>

theorem isr_acknowledges:
  assumes "length (s_isr_callbacks s) = 256" "r_int_no r < 256"
  shows "(s_isr_callbacks s ! unat (r_int_no r) \<noteq> 0 \<longrightarrow>
      handle_isr call r con s = bindo (call (s_isr_callbacks s ! unat (r_int_no r)) r s)
        (\<lambda>s. Some (Inr (Resumed (s\<lparr>i_out := i_out s @ acknowledgement (r_int_no r)\<rparr>)))))
    \<and> (s_isr_callbacks s ! unat (r_int_no r) = 0 \<longrightarrow>
         (32 \<le> r_int_no r \<longrightarrow>
            handle_isr call r con s = Some (Inr (Resumed (s\<lparr>i_out := i_out s @ acknowledgement (r_int_no r)\<rparr>))))
       \<and> (r_int_no r < 32 \<longrightarrow> (\<forall>s'. handle_isr call r con s \<noteq> Some (Inr (Resumed s')))))"
proof -
  let ?n = "r_int_no r"
  have b: "unat ?n < 256" using assms(2) by (simp add: word_less_nat_alt)
  have fin: "(if 0 \<le> sint (?n - 32) \<and> sint (?n - 32) < MAX_IRQS
        then bindo (Some (pic_send_eoi (sint (?n - 32)) (i_out s))) (\<lambda>out. Some (Inr (Resumed (s\<lparr>i_out := out\<rparr>))))
        else Some (Inr (Resumed s))) = Some (Inr (Resumed (s\<lparr>i_out := i_out s @ acknowledgement ?n\<rparr>)))" for s
    using irq_number [OF assms(2)]
    by (auto simp: MAX_IRQS_def pic_send_eoi_def pic_bytes acknowledgement_def not_less)
  show ?thesis
    using assms(1) b irq_number(1) [OF assms(2)]
    unfolding handle_isr_def Let_def fin default_handler_def
    by (auto simp: MAX_IRQS_def not_less)
qed

subsection \<open>After the start\<close>

lemma init_pics_ok:
  "init_pics out = Inr (out @ [OutB 0x20 0x11, OutB 0x21 0x20, OutB 0x21 0x04, OutB 0x21 0x01, OutB 0x21 0xFE,
     OutB 0xA0 0x11, OutB 0xA1 0x28, OutB 0xA1 0x02, OutB 0xA1 0x01, OutB 0xA1 0xFF])"
  by (simp add: init_pics_def init_pic_device_def bus_byte_def bus_new_def PRIMARY_PIC_PORT_def
      SECONDARY_PIC_PORT_def ICW1_ICW4_NEEDED_def ICW1_ONE_def ICW4_MODE_86_def)

lemma timer_divisor_100: "timer_divisor 100 = 11932"
  by (simp add: timer_divisor_def TIMER_PHYSFREQ_def)

lemma set_timer_ok: "set_timer_freq 100 out = Inr (out @ [OutB 0x43 0x36, OutB 0x40 0x9C, OutB 0x40 0x2E])"
  by (simp add: set_timer_freq_def timer_divisor_100 bus_byte_def bus_new_def TIMER_PORTBASE_def TIMER_MODE_def
      TIMER_COUNTER0_def TIMER_SEL0_def TIMER_16BIT_def TIMER_SQWAVE_def)

lemma arch_init_ok:
  assumes "length vectors = 256"
  shows "\<exists>s'. arch_init vectors a tick s = Inr s' \<and> length (s_idt s') = 256 \<and> s_idtp s' = Some (2047, a)
     \<and> (\<forall>j<256. kernel_gate (vectors ! j) (s_idt s' ! j))
     \<and> s_isr_callbacks s' = (replicate 256 0)[32 := tick]
     \<and> i_out s' = i_out s @ [OutB 0x20 0x11, OutB 0x21 0x20, OutB 0x21 0x04, OutB 0x21 0x01, OutB 0x21 0xFE,
         OutB 0xA0 0x11, OutB 0xA1 0x28, OutB 0xA1 0x02, OutB 0xA1 0x01, OutB 0xA1 0xFF,
         OutB 0x43 0x36, OutB 0x40 0x9C, OutB 0x40 0x2E]"
  using init_idt_ok [OF assms, of a s]
  by (auto simp: arch_init_def init_pics_ok init_timer_def TIMER_FREQ_def set_timer_ok set_isr_callback_def)

text \<open>
  After the start every one of the 256 gates leads to its stub, in ring 0, present and as an
  interrupt gate; only the timer interrupt has a callback; the controllers have been moved
  to the vectors 32 and 40, with all lines but the timer's masked; and the timer was given
  the divisor 11932.
\<close>

theorem arch_init_ready:
  assumes "length vectors = 256"
  shows "\<exists>s'. arch_init vectors a tick s = Inr s'
     \<and> (\<forall>j<256. kernel_gate (vectors ! j) (s_idt s' ! j))
     \<and> (\<forall>j<256. s_isr_callbacks s' ! j = (if j = 32 then tick else 0))
     \<and> i_out s' = i_out s @ [OutB 0x20 0x11, OutB 0x21 0x20, OutB 0x21 0x04, OutB 0x21 0x01, OutB 0x21 0xFE,
         OutB 0xA0 0x11, OutB 0xA1 0x28, OutB 0xA1 0x02, OutB 0xA1 0x01, OutB 0xA1 0xFF,
         OutB 0x43 0x36, OutB 0x40 0x9C, OutB 0x40 0x2E]"
proof -
  obtain s' where "arch_init vectors a tick s = Inr s'" "\<forall>j<256. kernel_gate (vectors ! j) (s_idt s' ! j)"
     "s_isr_callbacks s' = (replicate 256 0)[32 := tick]"
     "i_out s' = i_out s @ [OutB 0x20 0x11, OutB 0x21 0x20, OutB 0x21 0x04, OutB 0x21 0x01, OutB 0x21 0xFE,
         OutB 0xA0 0x11, OutB 0xA1 0x28, OutB 0xA1 0x02, OutB 0xA1 0x01, OutB 0xA1 0xFF,
         OutB 0x43 0x36, OutB 0x40 0x9C, OutB 0x40 0x2E]"
    using arch_init_ok [OF assms, of a tick s] by blast
  then show ?thesis by (intro exI [of _ s']) (simp add: nth_list_update)
qed

definition no_interrupts :: interrupts where
  "no_interrupts = \<lparr>s_idt = [], s_idtp = None, s_isr_callbacks = [], i_out = []\<rparr>"

theorem arch_init_ready_witness:
  "\<exists>s'. arch_init (replicate 256 0x100000) 0x5000 0x2000 no_interrupts = Inr s' \<and> s_isr_callbacks s' ! 32 = 0x2000"
  using arch_init_ready [of "replicate 256 0x100000" "0x5000" "0x2000" no_interrupts] by auto

definition sample_regs :: "u32 \<Rightarrow> regs" where
  "sample_regs n = \<lparr>r_gs = 0, r_fs = 0, r_es = 0, r_ds = 0, r_edi = 0, r_esi = 0, r_ebp = 0, r_esp = 0,
     r_ebx = 0, r_edx = 0, r_ecx = 0, r_eax = 0, r_int_no = n, r_err_code = 0, r_eip = 0, r_cs = 0,
     r_eflags = 0, r_useresp = 0, r_ss = 0\<rparr>"

theorem isr_acknowledges_witness:
  "\<forall>con. handle_isr (\<lambda>_ _ s. Some (Inr s)) (sample_regs 32) con
       (no_interrupts\<lparr>s_isr_callbacks := (replicate 256 0)[32 := 0x2000]\<rparr>)
     = Some (Inr (Resumed (no_interrupts\<lparr>s_isr_callbacks := (replicate 256 0)[32 := 0x2000], i_out := [OutB 0x20 0x20]\<rparr>)))"
proof
  fix con
  let ?s = "no_interrupts\<lparr>s_isr_callbacks := (replicate 256 0)[32 := 0x2000]\<rparr>"
  have "length (s_isr_callbacks ?s) = 256" "r_int_no (sample_regs 32) < 256" by (simp_all add: sample_regs_def)
  from isr_acknowledges [OF this, of "\<lambda>_ _ s. Some (Inr s)" con]
  show "handle_isr (\<lambda>_ _ s. Some (Inr s)) (sample_regs 32) con ?s
     = Some (Inr (Resumed (no_interrupts\<lparr>s_isr_callbacks := (replicate 256 0)[32 := 0x2000], i_out := [OutB 0x20 0x20]\<rparr>)))"
    by (simp add: sample_regs_def acknowledgement_def no_interrupts_def)
qed

subsection \<open>The timer's rate\<close>

text \<open>The divisor is the nearest whole number to the quotient of the two frequencies.\<close>

lemma halved_quotient:
  fixes x q f r :: int
  assumes "x * 2 = q * f + r" "0 \<le> r" "r < f"
  shows "2 * \<bar>(q div 2 + q mod 2) * f - x\<bar> \<le> f"
proof -
  obtain h b where q: "q = 2 * h + b" "b = 0 \<or> b = 1" 
  proof (rule that)
    show "q = 2 * (q div 2) + q mod 2" by simp
    show "q mod 2 = 0 \<or> q mod 2 = 1" by presburger
  qed
  then have d: "q div 2 + q mod 2 = h + b" by auto
  have "2 * ((h + b) * f - x) = b * f - r" using assms(1) unfolding q(1) by (simp add: algebra_simps)
  then have "2 * \<bar>(h + b) * f - x\<bar> = \<bar>b * f - r\<bar>" by (metis abs_mult abs_numeral)
  moreover have "\<bar>b * f - r\<bar> \<le> f" using q(2) assms(2,3) by auto
  ultimately show ?thesis unfolding d by simp
qed

lemma timer_divisor_nearest:
  assumes "0 < f"
  shows "2 * \<bar>timer_divisor f * f - TIMER_PHYSFREQ\<bar> \<le> f"
proof -
  have "(TIMER_PHYSFREQ * 2) sdiv f = TIMER_PHYSFREQ * 2 div f"
    using assms by (simp add: signed_divide_int_def TIMER_PHYSFREQ_def)
  then show ?thesis
    unfolding timer_divisor_def Let_def using assms
    by (simp only:) (rule halved_quotient [where r = "TIMER_PHYSFREQ * 2 mod f"]; simp)
qed

text \<open>Below 19 Hz the divisor does not fit the two bytes that are written.\<close>

lemma slow_timer_truncated: "timer_divisor 18 = 66288 \<and> set_timer_freq 18 [] = set_timer_freq 1587 []"
proof -
  have "timer_divisor 18 = 66288" "timer_divisor 1587 = 752" by (simp_all add: timer_divisor_def TIMER_PHYSFREQ_def)
  then show ?thesis by (simp add: set_timer_freq_def)
qed

subsection \<open>Nested sections\<close>

text \<open>The states reachable by nested sections, with the number of sections that are open.\<close>

inductive held :: "nat \<Rightarrow> intr_stack \<Rightarrow> bool" where
  held_start: "held 0 (intr_stack_init e)"
| held_push: "held n s \<Longrightarrow> Suc n < 2 ^ 32 \<Longrightarrow> held (Suc n) (PushDisable s)"
| held_pop: "held (Suc n) s \<Longrightarrow> held n (PopDisable s)"

lemma held_count: "held n s \<Longrightarrow> unat (m_disableCount s) = n \<and> n < 2 ^ 32 \<and> (0 < n \<longrightarrow> \<not> intr_enabled s)"
proof (induction rule: held.induct)
  case (held_push n s)
  then have "unat (m_disableCount s + 1) = Suc n" by (subst unat_add_noov) simp_all
  with held_push show ?case by (auto simp: PushDisable_def Let_def)
next
  case (held_pop n s)
  then have "unat (m_disableCount s - 1) = n" by (subst unat_sub_noov) simp_all
  with held_pop show ?case by (auto simp: PopDisable_def Let_def)
qed (simp add: intr_stack_init_def)

text \<open>
  C35: in every state that nested sections can reach, interrupts are off while a section is open,
  and closing the outermost one, and no other, lets them in again.
\<close>

theorem interrupts_off_while_held:
  assumes "held n s"
  shows "(0 < n \<longrightarrow> \<not> intr_enabled s) \<and> (0 < n \<longrightarrow> (intr_enabled (PopDisable s) \<longleftrightarrow> n = 1))
    \<and> (n + 1 < 2 ^ 32 \<longrightarrow> \<not> intr_enabled (PushDisable s))"
proof -
  note h = held_count [OF assms]
  have "intr_enabled (PopDisable s) \<longleftrightarrow> n = 1" if n: "0 < n"
  proof -
    have "unat (m_disableCount s - 1) = n - 1" using h n by (subst unat_sub_noov) simp_all
    then show ?thesis using h n by (auto simp: PopDisable_def Let_def unat_eq_0 [symmetric] simp del: unat_eq_0)
  qed
  moreover have "\<not> intr_enabled (PushDisable s)" if "n + 1 < 2 ^ 32"
    using held_count [OF held_push [OF assms]] that by simp
  ultimately show ?thesis using h by blast
qed

theorem interrupts_off_while_held_witness: "\<not> intr_enabled (PushDisable (PopDisable (PushDisable (intr_stack_init True))))"
proof -
  have "held 0 (PopDisable (PushDisable (intr_stack_init True)))"
    by (intro held_pop held_push held_start) simp
  from interrupts_off_while_held [OF this] show ?thesis by simp
qed

text \<open>One release too many makes the next section useless: interrupts stay on inside it.\<close>

lemma unbalanced_pop: "intr_enabled (PushDisable (PopDisable (intr_stack_init True)))"
  by (simp add: PushDisable_def PopDisable_def intr_stack_init_def)

text \<open>The register dump shows the stack pointer where it says ESI.\<close>

lemma esi_not_shown: "dump_regs (r\<lparr>r_esi := v\<rparr>) = dump_regs r"
  by (simp add: dump_regs_def)

end
