(* ===== verification/Kmain.thy ===== *)
theory Kmain
  imports BootHeap Interrupts
begin

text \<open>
  kernel/src/main.cpp and the parts of debug.cpp that tie the components together: kmain
  starts the machine, memory management and the heap one after the other and enters the debug
  shell, whose loop reads a line, splits it and runs the command it names.
\<close>

subsection \<open>The state of the kernel\<close>

text \<open>The objects with static storage that kmain and the shell use.\<close>

record kernel =
  kr_args :: arguments
  kr_con :: con
  kr_interrupts :: interrupts
  kr_istack :: intr_stack
  kr_heap :: kalloc_state
  kr_cmd :: "u8 list"

text \<open>
  What the shell can read, of which only the kernel's objects are modelled: the bytes of
  memory in a state of the kernel, none where no page is mapped, and the contents the column
  buffer of the dump starts with.
\<close>

record world =
  w_mem :: "kernel \<Rightarrow> addr \<Rightarrow> u8 option"
  w_stack :: "u8 list"

subsection \<open>The commands\<close>

definition with_con :: "con outcome \<Rightarrow> kernel \<Rightarrow> kernel outcome" where
  "with_con r k = bindo r (\<lambda>con. Some (Inr (k\<lparr>kr_con := con\<rparr>)))"

definition fault_command :: "(addr \<Rightarrow> u8 option) \<Rightarrow> con \<Rightarrow> con outcome" where
  "fault_command m s =
     bindo (puts [out_str (lit ''Causing a page fault.'' @ CRLF)] s) (\<lambda>s.
       case m 0x00800000 of None \<Rightarrow> Some (Inl (PageFault 0x00800000)) | Some c \<Rightarrow> Some (Inr s))"

text \<open>The dump of the page table is empty in the i386 kernel.\<close>

definition ptable_command :: "con \<Rightarrow> con outcome" where
  "ptable_command s = puts [out_str (lit ''Page Table Dump'' @ CRLF)] s"

definition run_command :: "world \<Rightarrow> command \<Rightarrow> u8 list list \<Rightarrow> kernel \<Rightarrow> kernel outcome" where
  "run_command w c args k =
     (case c of
        DumpCommand \<Rightarrow> with_con (dump_command args (w_mem w k) (w_stack w) (kr_con k)) k
      | MemInfoCommand \<Rightarrow>
          bindo (mem_info_command (args_data (kr_args k)) (pages (k_heap (kr_heap k))) (allocatedPages (k_heap (kr_heap k))) (kr_con k))
            (\<lambda>(pa, con). Some (Inr (k\<lparr>kr_con := con,
               kr_heap := (kr_heap k)\<lparr>k_heap := (k_heap (kr_heap k))\<lparr>pages := pa\<rparr>\<rparr>\<rparr>)))
      | VarsCommand \<Rightarrow> with_con (vars_command (args_data (kr_args k)) (kr_con k)) k
      | FaultCommand \<Rightarrow> with_con (fault_command (w_mem w k) (kr_con k)) k
      | TestAllocCommand \<Rightarrow> bindo (test_alloc_command args (kr_heap k) (kr_con k))
          (\<lambda>(h, con). Some (Inr (k\<lparr>kr_heap := h, kr_con := con\<rparr>)))
      | DumpPTable \<Rightarrow> with_con (ptable_command (kr_con k)) k)"

text \<open>Debug::dispatch.\<close>

definition dispatch_line :: "world \<Rightarrow> u8 list list \<Rightarrow> kernel \<Rightarrow> kernel outcome" where
  "dispatch_line w args k =
     (case dispatch args of
        NoCommand \<Rightarrow> Some (Inr k)
      | Unknown \<Rightarrow> with_con (puts [out_str (lit ''Unknown command: ''), out_str (args ! 0), out_str CRLF] (kr_con k)) k
      | Call c \<Rightarrow> run_command w c args k)"

text \<open>One turn of the loop of Debug::shell.\<close>

definition PROMPT :: "u8 list" where "PROMPT = CRLF @ lit ''kdbg> ''"

definition shell_turn :: "world \<Rightarrow> kernel \<Rightarrow> kernel outcome" where
  "shell_turn w k =
     bindo (puts [out_str PROMPT] (kr_con k)) (\<lambda>con.
     bindo (get_line (kr_cmd k) con) (\<lambda>(n, cmd, con).
       let k = k\<lparr>kr_con := con, kr_cmd := cmd\<rparr>
       in if n = 0 then Some (Inr k) else dispatch_line w (map (view_text cmd) (shell_parse cmd)) k))"

partial_function (option) shell_loop :: "world \<Rightarrow> kernel \<Rightarrow> kernel outcome" where
  "shell_loop w k =
     (case shell_turn w k of
        None \<Rightarrow> None
      | Some r \<Rightarrow> (case r of Inl e \<Rightarrow> Some (Inl e) | Inr k \<Rightarrow> shell_loop w k))"

definition debug_shell :: "world \<Rightarrow> kernel \<Rightarrow> kernel outcome" where
  "debug_shell w k =
     bindo (puts [out_str (lit ''Welcome to kernel debug land.'' @ CRLF)] (kr_con k)) (\<lambda>con.
       shell_loop w (k\<lparr>kr_con := con\<rparr>))"

text \<open>The first turns of the loop.\<close>

fun shell_turns :: "world \<Rightarrow> nat \<Rightarrow> kernel \<Rightarrow> kernel outcome" where
  "shell_turns w 0 k = Some (Inr k)"
| "shell_turns w (Suc n) k = bindo (shell_turn w k) (shell_turns w n)"

subsection \<open>kmain\<close>

text \<open>
  The machine as preinit leaves it: the boot loader's data, the interrupt stubs, the address of
  the descriptor table and of the timer's callback, the link words of the pages, whether
  interrupts are on, and what the static objects held before they are constructed.
\<close>

record machine =
  mc_vectors :: "addr list"
  mc_idt :: addr
  mc_tick :: addr
  mc_links :: "addr \<Rightarrow> addr"
  mc_enabled :: bool
  mc_interrupts :: interrupts
  mc_heap :: kalloc_state
  mc_cmd :: "u8 list"
  mc_input :: "int32 list"
  mc_screen :: "u8 list"

definition console_new :: "machine \<Rightarrow> con" where
  "console_new mc = \<lparr>m_paged = False, m_lineCount = 0, tty_out = mc_screen mc, tty_in = mc_input mc\<rparr>"

text \<open>Everything before Debug::shell; the messages to the serial port are left out.\<close>

definition kmain_init :: "argument_data \<Rightarrow> machine \<Rightarrow> kernel outcome" where
  "kmain_init data mc =
     (let args = args_init data; con = console_new mc
      in bindo (Some (arch_init (mc_vectors mc) (mc_idt mc) (mc_tick mc) (mc_interrupts mc))) (\<lambda>intr.
         bindo (vmm_init args (mc_links mc)) (\<lambda>(args, pa).
         bindo (InitKalloc ((mc_heap mc)\<lparr>canAlloc := canAllocPages args, k_heap := (k_heap (mc_heap mc))\<lparr>pages := pa\<rparr>\<rparr>)) (\<lambda>heap.
           Some (Inr \<lparr>kr_args = args\<lparr>canKalloc := canKallocNow heap\<rparr>, kr_con = con, kr_interrupts = intr,
             kr_istack = intr_stack_init (mc_enabled mc), kr_heap = heap, kr_cmd = mc_cmd mc\<rparr>)))))"

definition kmain :: "argument_data \<Rightarrow> machine \<Rightarrow> world \<Rightarrow> kernel outcome" where
  "kmain data mc w = bindo (kmain_init data mc) (debug_shell w)"

end
