(* ===== verification/KmainFacts.thy ===== *)
theory KmainFacts
  imports Kmain
begin

text \<open>
  What holds of the running kernel: its start leaves the heap in order, no command of the
  debug shell disturbs it, and the shell never comes back.
\<close>

subsection \<open>Output never fails\<close>

text \<open>Output does not fault, keeps the paging mode, and waits for a key only when it is on.\<close>

definition calm :: "(con \<Rightarrow> con outcome) \<Rightarrow> bool" where
  "calm f \<longleftrightarrow> (\<forall>s. case f s of None \<Rightarrow> m_paged s | Some r \<Rightarrow>
     (case r of Inl e \<Rightarrow> False | Inr s' \<Rightarrow> m_paged s' = m_paged s))"

named_theorems calm_intros \<open>output operations that are calm\<close>

lemma calmI:
  "(\<And>s. (f s = None \<and> m_paged s) \<or> (\<exists>s'. f s = Some (Inr s') \<and> m_paged s' = m_paged s)) \<Longrightarrow> calm f"
  unfolding calm_def
proof
  fix s
  assume "\<And>s. (f s = None \<and> m_paged s) \<or> (\<exists>s'. f s = Some (Inr s') \<and> m_paged s' = m_paged s)"
  from this [of s] show "case f s of None \<Rightarrow> m_paged s | Some r \<Rightarrow>
      (case r of Inl e \<Rightarrow> False | Inr s' \<Rightarrow> m_paged s' = m_paged s)" by auto
qed

lemma calm_cases:
  assumes "calm f"
  obtains "f s = None" "m_paged s" | s' where "f s = Some (Inr s')" "m_paged s' = m_paged s"
  using assms unfolding calm_def by (cases "f s") (auto split: sum.splits dest: spec [of _ s])

lemma calm_bindo:
  assumes "calm f" "calm g"
  shows "calm (\<lambda>s. bindo (f s) g)"
proof (rule calmI)
  fix s
  show "(bindo (f s) g = None \<and> m_paged s) \<or> (\<exists>s'. bindo (f s) g = Some (Inr s') \<and> m_paged s' = m_paged s)"
  proof (cases rule: calm_cases [OF assms(1), of s])
    case (2 s')
    then show ?thesis by (cases rule: calm_cases [OF assms(2), of s']) auto
  qed simp
qed

lemma calm_done [calm_intros]: "calm (\<lambda>s. Some (Inr s))"
  by (simp add: calm_def)

lemma calm_if: "calm f \<Longrightarrow> calm g \<Longrightarrow> calm (\<lambda>s. if b then f s else g s)"
  by (cases b) simp_all

lemma calm_putchar [calm_intros]: "calm (con_putchar c)"
  by (rule calmI) (auto simp: con_putchar_def pause_check_def tty_put_def Let_def split: option.split)

lemma calm_putstr [calm_intros]: "calm (con_putstr cs)"
proof (induction cs)
  case Nil
  then show ?case using calm_done by (simp add: calm_def)
next
  case (Cons c cs)
  have "con_putstr (c # cs) = (\<lambda>s. bindo (con_putchar c s) (con_putstr cs))" by (simp add: fun_eq_iff)
  then show ?case using calm_bindo [OF calm_putchar Cons] by simp
qed

lemma calm_str [calm_intros]: "calm (out_str cs)"
  unfolding out_str_def by (rule calm_putstr)

lemma calm_uint:
  assumes "5 \<le> unat (scast radix :: u64)" "unat (scast radix :: u64) \<le> 36" "width_of width \<le> 31"
  shows "calm (putuint val radix width)"
proof -
  have "\<exists>cs. putuint val radix width = con_putstr cs"
    unfolding fun_eq_iff putuint_def format_uint_eq [OF assms] by auto
  then show ?thesis using calm_putstr by auto
qed

lemma calm_numbers [calm_intros]:
  "calm (out_size n)" "calm (put_hex v (- 2))" "calm (put_hex v (- 8))" "calm (put_ptr p)" "calm (putint v)"
proof -
  have ten: "calm (putuint u 10 0)" for u by (rule calm_uint) (simp_all add: width_of_def word_sless_alt)
  then show "calm (out_size n)" by (simp add: out_size_def [abs_def])
  have hex: "calm (put_hex v w)" if "w = - 2 \<or> w = - 8" for v w
    unfolding put_hex_def [abs_def] using that by (intro calm_uint) (auto simp: width_of_def word_sless_alt)
  show "calm (put_hex v (- 2))" "calm (put_hex v (- 8))" by (simp_all add: hex)
  show "calm (put_ptr p)" using hex by (simp add: put_ptr_def [abs_def])
  show "calm (putint v)"
  proof (cases "v <s 0")
    case True
    then show ?thesis using calm_bindo [OF calm_putchar ten] by (simp add: putint_def [abs_def])
  next
    case False
    then have "putint v = putuint v 10 0" by (simp add: putint_def fun_eq_iff)
    then show ?thesis using ten by simp
  qed
qed

lemma calm_puts: "list_all calm fs \<Longrightarrow> calm (puts fs)"
proof (induction fs)
  case Nil
  then show ?case using calm_done by (simp add: calm_def)
next
  case (Cons f fs)
  have "puts (f # fs) = (\<lambda>s. bindo (f s) (puts fs))" by (simp add: fun_eq_iff)
  then show ?case using Cons calm_bindo [of f "puts fs"] by simp
qed

subsection \<open>The commands leave the heap in order\<close>

text \<open>The heap holds no block between commands, and the console does not page.\<close>

definition ready :: "addr set \<Rightarrow> kernel \<Rightarrow> bool" where
  "ready P k \<longleftrightarrow> kheap_repr P (kr_heap k) {} \<and> \<not> m_paged (kr_con k)"

text \<open>
  What can end the session: a line that fills the buffer, an address that is not mapped, and a
  page missing for the allocation test.
\<close>

definition session_fault :: "fault \<Rightarrow> bool" where
  "session_fault e \<longleftrightarrow> e = Panic ''Attempt to index span outside of max range.'' \<or> e = NullDeref \<or> (\<exists>a. e = PageFault a)"

definition good :: "('a \<Rightarrow> bool) \<Rightarrow> 'a outcome \<Rightarrow> bool" where
  "good Q r \<longleftrightarrow> (case r of None \<Rightarrow> True | Some r \<Rightarrow> (case r of Inl e \<Rightarrow> session_fault e | Inr x \<Rightarrow> Q x))"

lemma good_simps [simp]:
  "good Q None" "good Q (Some (Inl e)) \<longleftrightarrow> session_fault e" "good Q (Some (Inr x)) \<longleftrightarrow> Q x"
  by (simp_all add: good_def)

lemma good_bindo: "good Q r \<Longrightarrow> (\<And>x. r = Some (Inr x) \<Longrightarrow> Q x \<Longrightarrow> good R (f x)) \<Longrightarrow> good R (bindo r f)"
  by (cases "(r, f)" rule: bindo.cases) auto

lemma calm_good: "calm f \<Longrightarrow> m_paged s = b \<Longrightarrow> good (\<lambda>s. m_paged s = b) (f s)"
  by (erule calm_cases [of f s]) auto

lemma good_weaken: "good Q r \<Longrightarrow> (\<And>x. Q x \<Longrightarrow> R x) \<Longrightarrow> good R r"
  by (auto simp: good_def split: option.splits sum.splits)

text \<open>And it does not wait for input either.\<close>

definition fine :: "('a \<Rightarrow> bool) \<Rightarrow> 'a outcome \<Rightarrow> bool" where
  "fine Q r \<longleftrightarrow> r \<noteq> None \<and> good Q r"

lemma fine_simps [simp]:
  "\<not> fine Q None" "fine Q (Some (Inl e)) \<longleftrightarrow> session_fault e" "fine Q (Some (Inr x)) \<longleftrightarrow> Q x"
  by (simp_all add: fine_def)

lemma fine_bindo: "fine Q r \<Longrightarrow> (\<And>x. r = Some (Inr x) \<Longrightarrow> Q x \<Longrightarrow> fine R (f x)) \<Longrightarrow> fine R (bindo r f)"
  by (cases "(r, f)" rule: bindo.cases) auto

lemma calm_fine: "calm f \<Longrightarrow> \<not> m_paged s \<Longrightarrow> fine (\<lambda>s. \<not> m_paged s) (f s)"
  by (erule calm_cases [of f s]) auto

lemma fine_puts: "list_all calm fs \<Longrightarrow> \<not> m_paged s \<Longrightarrow> fine (\<lambda>s. \<not> m_paged s) (puts fs s)"
  by (rule calm_fine [OF calm_puts])

lemma good_with_con:
  "good (\<lambda>con. \<not> m_paged con) r \<Longrightarrow> ready P k \<Longrightarrow> good (ready P) (with_con r k)"
  unfolding with_con_def by (rule good_bindo [of "\<lambda>con. \<not> m_paged con"]) (simp_all add: ready_def)

lemma fine_with_con:
  "fine (\<lambda>con. \<not> m_paged con) r \<Longrightarrow> ready P k \<Longrightarrow> fine (ready P) (with_con r k)"
  unfolding with_con_def by (rule fine_bindo [of "\<lambda>con. \<not> m_paged con"]) (simp_all add: ready_def)

lemma good_puts: "list_all calm fs \<Longrightarrow> \<not> m_paged s \<Longrightarrow> good (\<lambda>s. \<not> m_paged s) (puts fs s)"
  using calm_good [OF calm_puts, of fs s False] by simp

lemma vars_fine: "\<not> m_paged s \<Longrightarrow> fine (\<lambda>s. \<not> m_paged s) (vars_command d s)"
  unfolding vars_command_def by (rule fine_puts) (simp_all add: calm_intros)

lemma ptable_fine: "\<not> m_paged s \<Longrightarrow> fine (\<lambda>s. \<not> m_paged s) (ptable_command s)"
  unfolding ptable_command_def by (rule fine_puts) (simp_all add: calm_intros)

lemma fault_fine: "\<not> m_paged s \<Longrightarrow> fine (\<lambda>s. \<not> m_paged s) (fault_command m s)"
  unfolding fault_command_def
  by (rule fine_bindo, rule fine_puts)
    (auto simp: calm_intros session_fault_def split: option.split)

lemma show_mappings_calm: "calm (show_mappings ms)"
proof (induction ms)
  case Nil
  then show ?case using calm_done by (simp add: calm_def)
next
  case (Cons m ms)
  show ?case unfolding show_mappings.simps
    by (rule calm_bindo [OF calm_puts Cons]) (simp add: calm_intros)
qed

lemma dump_loop_good:
  "m_paged s = b \<Longrightarrow> good (\<lambda>(buf, md, s). m_paged s = b) (dump_loop m start len i buf md s)"
proof (induction m start len i buf md s rule: dump_loop.induct)
  case (1 m start len i buf md s)
  show ?case
  proof (cases "i < len")
    case True
    let ?md = "unat (i AND 15)"
    let ?head = "\<lambda>s. if ?md = 0
                  then bindo (if i > 0 then puts [out_str (lit ''| ''), out_str (c_text buf), out_str CRLF] s
                              else Some (Inr s))
                         (puts [put_ptr (start + i), out_str (lit '' | '')])
                  else if ?md = 8 then out_str (lit ''- '') s
                  else Some (Inr s)"
    have "calm ?head"
    proof -
      have a: "calm (puts [out_str (lit ''| ''), out_str (c_text buf), out_str CRLF])"
        "calm (puts [put_ptr (start + i), out_str (lit '' | '')])"
        by (rule calm_puts, simp add: calm_intros)+
      show ?thesis by (intro calm_if calm_bindo calm_intros a)
    qed
    then have h: "good (\<lambda>s. m_paged s = b) (?head s)" by (rule calm_good) (rule "1.prems")
    have step: "good (\<lambda>(buf, md, s). m_paged s = b)
        (case m (start + i) of None \<Rightarrow> Some (Inl (PageFault (start + i))) | Some val \<Rightarrow>
               bindo (puts [put_hex (ucast val) (- 2), out_str (lit '' '')] s1)
                 (dump_loop m start len (i + 1) (buf[?md := dump_char val]) ?md))" if r: "?head s = Some (Inr s1)" and s1: "m_paged s1 = b" for s1
    proof (cases "m (start + i)")
      case (Some val)
      have "calm (puts [put_hex (ucast val) (- 2), out_str (lit '' '')])" by (rule calm_puts) (simp add: calm_intros)
      then have g: "good (\<lambda>s. m_paged s = b) (puts [put_hex (ucast val) (- 2), out_str (lit '' '')] s1)"
        by (rule calm_good) (rule s1)
      show ?thesis unfolding Some option.case
        by (rule good_bindo [OF g]) (rule "1.IH" [OF True refl r Some])
    qed (simp add: session_fault_def)
    show ?thesis
      by (subst dump_loop.simps) (simp only: True if_True Let_def, rule good_bindo [OF h step])
  qed (use "1.prems" in \<open>subst dump_loop.simps, simp\<close>)
qed

lemma dump_good: "\<not> m_paged s \<Longrightarrow> good (\<lambda>s. \<not> m_paged s) (dump_command args m buf s)"
proof -
  assume s: "\<not> m_paged s"
  have shown: "good (\<lambda>s. \<not> m_paged s) (bindo (puts fs (snd (set_paged True s))) (\<lambda>s.
      bindo (dump_loop m start len 0 (buf[16 := 0]) 0 s)
        (\<lambda>(buf, md, s). bindo
          (if md \<noteq> 0 then puts [out_str (lit ''| ''), out_str (c_text (buf[md + 1 := 0])), out_str CRLF] s
           else Some (Inr s))
          (\<lambda>s. Some (Inr (snd (set_paged False s)))))))"
    if "list_all calm fs" for fs start len
  proof (rule good_bindo [of "\<lambda>s. m_paged s = True"])
    show "good (\<lambda>s. m_paged s = True) (puts fs (snd (set_paged True s)))"
      by (rule calm_good [OF calm_puts [OF that]]) (simp add: set_paged_def)
    fix s1 :: con assume "m_paged s1 = True"
    then have d: "good (\<lambda>(buf, md, s). m_paged s = True) (dump_loop m start len 0 (buf[16 := 0]) 0 s1)"
      by (rule dump_loop_good)
    have tl: "calm (\<lambda>s. if md \<noteq> 0 then puts [out_str (lit ''| ''), out_str (c_text (buf[md + 1 := 0])), out_str CRLF] s
           else Some (Inr s))" for md :: nat and buf
      by (intro calm_if calm_puts calm_done) (simp add: calm_intros)
    show "good (\<lambda>s. \<not> m_paged s) (bindo (dump_loop m start len 0 (buf[16 := 0]) 0 s1)
        (\<lambda>(buf, md, s). bindo
          (if md \<noteq> 0 then puts [out_str (lit ''| ''), out_str (c_text (buf[md + 1 := 0])), out_str CRLF] s
           else Some (Inr s))
          (\<lambda>s. Some (Inr (snd (set_paged False s))))))"
    proof (rule good_bindo [OF d], clarify)
      fix buf md and s2 :: con assume "m_paged s2 = True"
      then have g: "good (\<lambda>s. m_paged s = True)
          (if md \<noteq> 0 then puts [out_str (lit ''| ''), out_str (c_text (buf[md + 1 := 0])), out_str CRLF] s2
           else Some (Inr s2))" by (rule calm_good [OF tl])
      show "good (\<lambda>s. \<not> m_paged s) (bindo
          (if md \<noteq> 0 then puts [out_str (lit ''| ''), out_str (c_text (buf[md + 1 := 0])), out_str CRLF] s2
           else Some (Inr s2))
          (\<lambda>s. Some (Inr (snd (set_paged False s)))))"
        by (rule good_bindo [OF g]) (simp add: set_paged_def)
    qed
  qed
  note msg = good_puts [OF _ s]
  show ?thesis unfolding dump_command_def
    by (auto split: sum.split simp: calm_intros simp del: puts.simps neq0_conv intro!: msg shown)
qed

lemma test_alloc_fine:
  assumes "kheap_repr P h {}" "\<not> m_paged s"
  shows "fine (\<lambda>(h, con). kheap_repr P h {} \<and> \<not> m_paged con) (test_alloc_command args h s)"
proof -
  have msg: "fine (\<lambda>(h, con). kheap_repr P h {} \<and> \<not> m_paged con) (bindo (puts fs con) (\<lambda>s. Some (Inr (h', s))))"
    if "list_all calm fs" "\<not> m_paged con" "kheap_repr P h' {}" for fs con h'
    by (rule fine_bindo [OF fine_puts [OF that(1,2)]]) (simp add: that(3))
  have freed: "fine (\<lambda>h. kheap_repr P h {}) (kfree p h')" if "p = 0 \<and> kheap_repr P h' {} \<or> (\<exists>n. kheap_repr P h' {(p, n)})" for p h'
    using that
  proof
    assume "\<exists>n. kheap_repr P h' {(p, n)}"
    then obtain n where "kheap_repr P h' {(p, n)}" by blast
    from heap_free_ok [OF this] obtain s' where "kfree p h' = Some (Inr s')" "kheap_repr P s' ({(p, n)} - {(p, n)})" by blast
    then show ?thesis by simp
  qed (simp add: kfree_def)
  have alloc: "fine (\<lambda>(p, h'). p = 0 \<and> kheap_repr P h' {} \<or> (\<exists>n. kheap_repr P h' {(p, n)})) (kalloc sz h)"
    if "sz \<noteq> 0" "\<not> sz \<ge> PageSize" for sz
  proof -
    have sz: "0 < sz" "sz \<le> 4096" using that by (auto simp: PageSize_def word_gt_0)
    from heap_alloc_ok [OF assms(1) this] show ?thesis
      by (elim disjE exE conjE) (auto simp: session_fault_def)
  qed
  have run: "fine (\<lambda>(h, con). kheap_repr P h {} \<and> \<not> m_paged con)
      (bindo (puts fs s) (\<lambda>s. bindo (kalloc sz h) (\<lambda>(p, k). bindo (puts (gs p) s) (\<lambda>s.
         bindo (kfree p k) (\<lambda>k. bindo (puts hs s) (\<lambda>s. Some (Inr (k, s))))))))"
    if "sz \<noteq> 0" "\<not> sz \<ge> PageSize" "list_all calm fs" "\<And>p. list_all calm (gs p)" "list_all calm hs" for sz fs gs hs
  proof (rule fine_bindo [OF fine_puts [OF that(3) assms(2)]], rule fine_bindo [OF alloc [OF that(1,2)]],
      unfold split_paired_all prod.case)
    fix s1 :: con and p h1
    assume s1: "\<not> m_paged s1" and h1: "p = 0 \<and> kheap_repr P h1 {} \<or> (\<exists>n. kheap_repr P h1 {(p, n)})"
    show "fine (\<lambda>(h, con). kheap_repr P h {} \<and> \<not> m_paged con) (bindo (puts (gs p) s1) (\<lambda>s.
         bindo (kfree p h1) (\<lambda>k. bindo (puts hs s) (\<lambda>s. Some (Inr (k, s))))))"
      by (rule fine_bindo [OF fine_puts [OF that(4) s1]], rule fine_bindo [OF freed [OF h1]])
        (rule msg [OF that(5)])
  qed
  show ?thesis unfolding test_alloc_command_def using assms
    by (auto split: sum.split simp: calm_intros simp del: puts.simps intro!: msg run)
qed

lemma heap_pages_inv: "kheap_repr P s U \<Longrightarrow> pa_inv (pages (k_heap s))"
  unfolding kheap_repr_def heap_inv_def using small_inv_pages(1) heap_withD(2) by blast

lemma mem_info_fine:
  assumes "pa_inv pa" "\<not> m_paged s"
  shows "fine (\<lambda>(pa', con). pa' = pa \<and> \<not> m_paged con) (mem_info_command d pa n s)"
proof -
  have f: "pa_free_pages pa = Some (pa_avail pa, pa)"
    using assms(1) by (simp add: pa_free_pages_def pa_inv_def unlocked)
  show ?thesis unfolding mem_info_command_def f option.case prod.case Let_def
  proof (rule fine_bindo [of "\<lambda>s. \<not> m_paged s"])
    show "fine (\<lambda>s. \<not> m_paged s)
        (puts [out_str (lit ''Boot Memory'' @ CRLF @ lit ''    Start      Length'' @ CRLF)] s)"
      by (rule fine_puts) (simp_all add: calm_intros assms(2))
    fix s1 :: con assume "\<not> m_paged s1"
    then have g: "fine (\<lambda>s. \<not> m_paged s) (show_mappings (entries d) s1)"
      by (rule calm_fine [OF show_mappings_calm])
    show "fine (\<lambda>(pa', con). pa' = pa \<and> \<not> m_paged con) (bindo (show_mappings (entries d) s1) (\<lambda>s.
        bindo (puts [out_str (CRLF @ lit ''Free Pages: ''), putint (scast (pa_avail pa)),
                out_str (CRLF @ lit ''Free Memory: ''), out_size (pa_avail pa * PageSize div 1024),
                out_str (lit '' KB'' @ CRLF), out_str (CRLF @ lit ''kalloc stats'' @ CRLF
                  @ lit ''  pages allocated: ''), out_size n, out_str CRLF] s)
          (\<lambda>s. Some (Inr (pa, s)))))"
      by (rule fine_bindo [OF g], rule fine_bindo, rule fine_puts) (simp_all add: calm_intros)
  qed
qed

text \<open>Every command keeps the heap in order; all but the dump, which pages, end without input.\<close>

lemma run_command_fine:
  assumes "ready P k" "c \<noteq> DumpCommand"
  shows "fine (ready P) (run_command w c args k)"
proof -
  have k: "kheap_repr P (kr_heap k) {}" "\<not> m_paged (kr_con k)" using assms(1) by (simp_all add: ready_def)
  show ?thesis
  proof (cases c)
    case MemInfoCommand
    show ?thesis unfolding MemInfoCommand run_command_def command.case
      by (rule fine_bindo [OF mem_info_fine [OF heap_pages_inv [OF k(1)] k(2)]]) (auto simp: ready_def k)
  next
    case TestAllocCommand
    show ?thesis unfolding TestAllocCommand run_command_def command.case
      by (rule fine_bindo [OF test_alloc_fine [OF k]]) (auto simp: ready_def)
  qed (simp_all add: run_command_def fine_with_con [OF _ assms(1)] k assms(2) vars_fine fault_fine ptable_fine)
qed

lemma run_command_good: "ready P k \<Longrightarrow> good (ready P) (run_command w c args k)"
proof (cases "c = DumpCommand")
  case True
  assume "ready P k"
  then show ?thesis unfolding True run_command_def command.case
    by (intro good_with_con dump_good) (simp_all add: ready_def)
qed (use run_command_fine in \<open>auto simp: fine_def\<close>)

lemma dispatch_fine:
  assumes "ready P k" "dispatch args \<noteq> Call DumpCommand"
  shows "fine (ready P) (dispatch_line w args k)"
  using assms run_command_fine [OF assms(1)] fine_with_con [OF fine_puts assms(1), of _ "kr_con k"]
  by (auto simp: dispatch_line_def ready_def calm_intros simp del: puts.simps split: action.split)

lemma dispatch_good:
  assumes "ready P k"
  shows "good (ready P) (dispatch_line w args k)"
proof (cases "dispatch args = Call DumpCommand")
  case True
  then show ?thesis using run_command_good [OF assms] by (simp add: dispatch_line_def)
next
  case False
  then show ?thesis using dispatch_fine [OF assms] by (simp add: fine_def)
qed

lemma get_line_loop_good: "good (\<lambda>_. True) (get_line_loop cs idx buf out)"
proof (induction cs idx buf out rule: get_line_loop.induct)
  case (2 c cs idx buf out)
  show ?case using 2 by (auto simp: span_put_def session_fault_def)
qed simp

lemma get_line_good: "\<not> m_paged s \<Longrightarrow> good (\<lambda>(n, cmd, s). \<not> m_paged s) (get_line buf s)"
  unfolding get_line_def by (simp, intro impI good_bindo [OF get_line_loop_good]) auto

lemma shell_turn_good:
  assumes "ready P k"
  shows "good (ready P) (shell_turn w k)"
proof -
  have k: "kheap_repr P (kr_heap k) {}" "\<not> m_paged (kr_con k)" using assms by (simp_all add: ready_def)
  have pr: "good (\<lambda>s. \<not> m_paged s) (puts [out_str PROMPT] (kr_con k))"
    by (rule good_puts) (simp_all add: calm_intros k)
  show ?thesis unfolding shell_turn_def
  proof (rule good_bindo [OF pr])
    fix con :: con assume "\<not> m_paged con"
    note g = get_line_good [OF this, of "kr_cmd k"]
    show "good (ready P) (bindo (get_line (kr_cmd k) con) (\<lambda>(n, cmd, con).
       let k = k\<lparr>kr_con := con, kr_cmd := cmd\<rparr>
       in if n = 0 then Some (Inr k) else dispatch_line w (map (view_text cmd) (shell_parse cmd)) k))"
    proof (rule good_bindo [OF g], clarify)
      fix n cmd and con :: con assume "\<not> m_paged con"
      then have "ready P (k\<lparr>kr_con := con, kr_cmd := cmd\<rparr>)" using k(1) by (simp add: ready_def)
      then show "good (ready P) (let k = k\<lparr>kr_con := con, kr_cmd := cmd\<rparr>
       in if n = 0 then Some (Inr k) else dispatch_line w (map (view_text cmd) (shell_parse cmd)) k)"
        using dispatch_good by (simp add: Let_def)
    qed
  qed
qed

lemma shell_turns_good: "ready P k \<Longrightarrow> good (ready P) (shell_turns w n k)"
proof (induction n arbitrary: k)
  case (Suc n)
  show ?case unfolding shell_turns.simps by (rule good_bindo [OF shell_turn_good [OF Suc.prems] Suc.IH])
qed simp

subsection \<open>The shell does not return\<close>

lemma shell_loop_no_result: "shell_loop w k = Some r \<Longrightarrow> \<exists>e. r = Inl e"
proof (erule shell_loop.raw_induct [rotated])
  fix loop w k r
  assume "\<And>w k r. loop w k = Some r \<Longrightarrow> \<exists>e. r = Inl (e :: fault)"
    and "(case shell_turn w k of None \<Rightarrow> None
       | Some r \<Rightarrow> (case r of Inl e \<Rightarrow> Some (Inl e) | Inr k \<Rightarrow> loop w k)) = Some (r :: fault + kernel)"
  then show "\<exists>e. r = Inl e" by (auto split: option.splits sum.splits)
qed

lemma debug_shell_no_result: "debug_shell w k \<noteq> Some (Inr k')"
  using shell_loop_no_result by (force simp: debug_shell_def)

text \<open>The loop faults only if one of its turns does.\<close>

lemma shell_loop_good: "ready P k \<Longrightarrow> good (\<lambda>_. False) (shell_loop w k)"
proof -
  have "ready P k \<longrightarrow> good (\<lambda>_. False) (Some r)" if "shell_loop w k = Some r" for r
    using that
  proof (rule shell_loop.raw_induct [rotated])
    fix loop w k r
    assume IH: "\<And>w k r. loop w k = Some r \<Longrightarrow> ready P k \<longrightarrow> good (\<lambda>_. False) (Some (r :: fault + kernel))"
      and r: "(case shell_turn w k of None \<Rightarrow> None
       | Some r \<Rightarrow> (case r of Inl e \<Rightarrow> Some (Inl e) | Inr k \<Rightarrow> loop w k)) = Some r"
    show "ready P k \<longrightarrow> good (\<lambda>_. False) (Some r)"
    proof
      assume "ready P k"
      then have "good (ready P) (shell_turn w k)" by (rule shell_turn_good)
      then show "good (\<lambda>_. False) (Some r)" using r IH by (auto split: option.splits sum.splits)
    qed
  qed
  then show "ready P k \<Longrightarrow> good (\<lambda>_. False) (shell_loop w k)" by (cases "shell_loop w k") auto
qed

subsection \<open>The start of the kernel\<close>

lemma kmain_init_ok:
  assumes "map_ready data" "length (mc_vectors mc) = 256"
    and "vmm_init (args_init data) (mc_links mc) = Some (Inr (args, pa))" "2 \<le> card (pa_free_set pa)"
  shows "\<exists>k P. kmain_init data mc = Some (Inr k) \<and> ready P k \<and> kr_con k = console_new mc \<and> kr_cmd k = mc_cmd mc
     \<and> (\<forall>p\<in>P. page_aligned p \<and> span p 4096 \<subseteq> usable data)"
proof -
  obtain i where i: "arch_init (mc_vectors mc) (mc_idt mc) (mc_tick mc) (mc_interrupts mc) = Inr i"
    using arch_init_ok [OF assms(2)] by blast
  have d: "args_data (args_init data) = data" by (simp add: args_init_def)
  obtain h P where h: "InitKalloc ((mc_heap mc)\<lparr>canAlloc := canAllocPages args,
      k_heap := (k_heap (mc_heap mc))\<lparr>pages := pa\<rparr>\<rparr>) = Some (Inr h)" "kheap_repr P h {}"
    "\<forall>p\<in>P. page_aligned p \<and> span p 4096 \<subseteq> usable data"
    using boot_heap_ready [of "args_init data", unfolded d, OF assms(1,3,4)] by blast
  show ?thesis using i assms(3) h by (simp add: kmain_init_def Let_def ready_def console_new_def) blast
qed

subsection \<open>Properties\<close>

text \<open>
  C1: kmain brings up a heap in order when the boot loader's map is in order and leaves two
  free pages, and the debug shell keeps it in order: whatever is typed, after any number of turns
  no block is in use, every page of the heap is usable memory, and the console does not page;
  unless the shell waits for input or has ended with a line that fills its buffer, a
  page fault, or the null dereference for a lack of pages.
\<close>

theorem kernel_session_safe:
  assumes "map_ready data" "length (mc_vectors mc) = 256"
    and "vmm_init (args_init data) (mc_links mc) = Some (Inr (args, pa))" "2 \<le> card (pa_free_set pa)"
  shows "\<exists>k P. kmain_init data mc = Some (Inr k) \<and> (\<forall>p\<in>P. page_aligned p \<and> span p 4096 \<subseteq> usable data)
     \<and> (\<forall>w n. good (ready P) (shell_turns w n k))"
  using kmain_init_ok [OF assms] shell_turns_good by blast

definition sample_machine :: machine where
  "sample_machine = \<lparr>mc_vectors = replicate 256 0x100000, mc_idt = 0x5000, mc_tick = 0x2000, mc_links = (\<lambda>_. 0),
     mc_enabled = False, mc_interrupts = no_interrupts, mc_heap = empty_kalloc, mc_cmd = replicate 512 0,
     mc_input = [118, 97, 114, 115, 13], mc_screen = []\<rparr>"

theorem kernel_session_safe_witness:
  "\<exists>k P. kmain_init (vm_args one_map) sample_machine = Some (Inr k) \<and> (\<forall>w. good (ready P) (shell_turns w 3 k))"
proof -
  obtain args pa where v: "vmm_init (args_init (vm_args one_map)) (mc_links sample_machine) = Some (Inr (args, pa))"
    "2 \<le> card (pa_free_set pa)" using one_map_pages by blast
  have m: "map_ready (vm_args one_map)" using one_map_ready by (simp add: args_init_def)
  have "length (mc_vectors sample_machine) = 256" by (simp add: sample_machine_def)
  then show ?thesis using kernel_session_safe [OF m _ v] by blast
qed

text \<open>C7: kmain never returns: it waits for ever or faults, and started in order it faults only as its session does.\<close>

theorem kmain_never_returns:
  "kmain data mc w \<noteq> Some (Inr k') \<and> (kmain_init data mc = Some (Inr k) \<and> ready P k \<longrightarrow> good (\<lambda>_. False) (kmain data mc w))"
proof
  show "kmain data mc w \<noteq> Some (Inr k')" using debug_shell_no_result by (auto simp: kmain_def)
  show "kmain_init data mc = Some (Inr k) \<and> ready P k \<longrightarrow> good (\<lambda>_. False) (kmain data mc w)"
  proof
    assume a: "kmain_init data mc = Some (Inr k) \<and> ready P k"
    have w: "fine (\<lambda>s. \<not> m_paged s) (puts [out_str (lit ''Welcome to kernel debug land.'' @ CRLF)] (kr_con k))"
      by (rule fine_puts) (use a in \<open>simp_all add: calm_intros ready_def\<close>)
    have "good (\<lambda>_. False) (debug_shell w k)" unfolding debug_shell_def
      by (rule good_bindo [of "\<lambda>s. \<not> m_paged s"]) (use w a in \<open>auto simp: fine_def ready_def intro!: shell_loop_good [of P]\<close>)
    then show "good (\<lambda>_. False) (kmain data mc w)" using a by (simp add: kmain_def)
  qed
qed

theorem kmain_never_returns_witness:
  "\<forall>w. good (\<lambda>_. False) (kmain (vm_args one_map) sample_machine w)"
proof -
  obtain args pa where v: "vmm_init (args_init (vm_args one_map)) (mc_links sample_machine) = Some (Inr (args, pa))"
    "2 \<le> card (pa_free_set pa)" using one_map_pages by blast
  have m: "map_ready (vm_args one_map)" using one_map_ready by (simp add: args_init_def)
  obtain k P where "kmain_init (vm_args one_map) sample_machine = Some (Inr k)" "ready P k"
    using kmain_init_ok [OF m _ v] by (auto simp: sample_machine_def)
  then show ?thesis using kmain_never_returns by blast
qed

text \<open>
  C6: the shell answers: once a line is in, a turn ends without further input, unless the command
  is the memory dump, which stops after each screen.
\<close>

theorem shell_turn_answers:
  assumes "ready P k" "get_line (kr_cmd k) ((kr_con k)\<lparr>tty_out := tty_out (kr_con k) @ PROMPT\<rparr>) = Some (Inr (n, cmd, con))"
    and "dispatch (map (view_text cmd) (shell_parse cmd)) \<noteq> Call DumpCommand"
  shows "(\<exists>k'. shell_turn w k = Some (Inr k') \<and> ready P k') \<or> (\<exists>e. shell_turn w k = Some (Inl e) \<and> session_fault e)"
proof -
  have pr: "puts [out_str PROMPT] (kr_con k) = Some (Inr ((kr_con k)\<lparr>tty_out := tty_out (kr_con k) @ PROMPT\<rparr>))"
    using assms(1) by (simp add: ready_def out_str_def putstr_unpaged)
  have "\<not> m_paged con"
    using get_line_good [of "(kr_con k)\<lparr>tty_out := tty_out (kr_con k) @ PROMPT\<rparr>" "kr_cmd k"] assms(1,2)
    by (simp add: ready_def)
  then have "ready P (k\<lparr>kr_con := con, kr_cmd := cmd\<rparr>)" using assms(1) by (simp add: ready_def)
  then have "fine (ready P) (shell_turn w k)"
    using dispatch_fine [OF _ assms(3)] by (simp add: shell_turn_def pr assms(2) Let_def del: puts.simps)
  then show ?thesis by (cases "shell_turn w k" rule: option.exhaust) (auto simp: fine_def good_def split: sum.splits)
qed

theorem shell_turn_answers_witness:
  "\<exists>P k. \<forall>w. (\<exists>k'. shell_turn w k = Some (Inr k') \<and> ready P k') \<or> (\<exists>e. shell_turn w k = Some (Inl e) \<and> session_fault e)"
proof -
  let ?m = "sample_machine\<lparr>mc_input := [97, 13]\<rparr>"
  obtain args pa where v: "vmm_init (args_init (vm_args one_map)) (mc_links ?m) = Some (Inr (args, pa))"
    "2 \<le> card (pa_free_set pa)" using one_map_pages by blast
  have m: "map_ready (vm_args one_map)" using one_map_ready by (simp add: args_init_def)
  have "length (mc_vectors ?m) = 256" by (simp add: sample_machine_def)
  then obtain k P where k: "ready P k" "kr_con k = console_new ?m" "kr_cmd k = mc_cmd ?m"
    using kmain_init_ok [OF m _ v] by blast
  let ?cmd = "(replicate 512 0)[0 := 97, 1 := 0] :: u8 list"
  have g: "get_line (kr_cmd k) ((kr_con k)\<lparr>tty_out := tty_out (kr_con k) @ PROMPT\<rparr>)
      = Some (Inr (1, ?cmd, \<lparr>m_paged = False, m_lineCount = 0, tty_out = PROMPT @ [97, 13, 10], tty_in = []\<rparr>))"
    by (simp add: k sample_machine_def console_new_def get_line_def span_put_def word_le_nat_alt)
  have "shell_parse ?cmd = [(0, 1)]"
    by (simp add: shell_parse_def parse_words.simps is_space_def isspace_def isblank_def DEBUG_CMD_SZ_def ARGS_SZ_def)
  moreover have "take (Suc 0) ?cmd = [97]" by (simp add: take_Suc_conv_app_nth)
  ultimately have p: "map (view_text ?cmd) (shell_parse ?cmd) = [[97]]" by (simp add: view_text_def)
  have "dispatch [[97]] \<noteq> Call DumpCommand"
    by (simp add: dispatch_def s_commands_def view_compare_def)
  then show ?thesis using shell_turn_answers [OF k(1) g, unfolded p] by blast
qed

end
