(* ===== verification/Span.thy ===== *)
theory Span
  imports Console
begin

text \<open>
  include/kernel/utils/span.h: a view of a block of memory as items of one size, with a stride
  that may exceed the size of an item. An item is its address; elt is sizeof(T). An iterator
  is a span and an index.
\<close>

subsection \<open>Spans and iterators\<close>

definition default_stride :: size32 where "default_stride = - 1"

record span_view =
  sp_data :: addr
  sp_size :: size32
  sp_stride :: size32

definition span_empty :: "size32 \<Rightarrow> span_view" where
  "span_empty elt = \<lparr>sp_data = 0, sp_size = 0, sp_stride = elt\<rparr>"

definition span_new :: "size32 \<Rightarrow> addr \<Rightarrow> size32 \<Rightarrow> size32 \<Rightarrow> span_view" where
  "span_new elt first count stride =
     \<lparr>sp_data = first, sp_size = count, sp_stride = (if stride = default_stride then elt else stride)\<rparr>"

definition span_is_empty :: "span_view \<Rightarrow> bool" where "span_is_empty s \<longleftrightarrow> sp_size s = 0"

definition size_bytes :: "span_view \<Rightarrow> size32" where "size_bytes s = sp_size s * sp_stride s"

definition span_fetch :: "span_view \<Rightarrow> size32 \<Rightarrow> fault + addr" where
  "span_fetch s pos =
     (if pos \<ge> sp_size s then Inl (Panic ''Attempt to index span outside of max range.'')
      else Inr (sp_data s + sp_stride s * pos))"

definition span_first :: "span_view \<Rightarrow> fault + addr" where "span_first s = span_fetch s 0"

definition span_last :: "span_view \<Rightarrow> fault + addr" where "span_last s = span_fetch s (sp_size s - 1)"

type_synonym span_iter = "span_view \<times> size32"

definition sit_begin :: "span_view \<Rightarrow> span_iter" where "sit_begin s = (s, 0)"

definition sit_end :: "span_view \<Rightarrow> span_iter" where "sit_end s = (s, sp_size s)"

definition sit_eq :: "span_iter \<Rightarrow> span_iter \<Rightarrow> bool" where
  "sit_eq a b \<longleftrightarrow> sp_data (fst a) = sp_data (fst b) \<and> snd a = snd b"

definition sit_inc :: "span_iter \<Rightarrow> span_iter" where "sit_inc it = (fst it, snd it + 1)"

definition sit_dec :: "span_iter \<Rightarrow> span_iter" where "sit_dec it = (fst it, snd it - 1)"

definition sit_deref :: "span_iter \<Rightarrow> fault + addr" where "sit_deref it = span_fetch (fst it) (snd it)"

text \<open>A range-based loop over a span, which goes on until its iterator is the end: the items it visits.\<close>

partial_function (option) span_loop :: "span_iter \<Rightarrow> addr list \<Rightarrow> (addr list) outcome" where
  "span_loop it seen =
     (if sit_eq it (sit_end (fst it)) then Some (Inr seen)
      else case sit_deref it of
        Inl e \<Rightarrow> Some (Inl e)
      | Inr a \<Rightarrow> span_loop (sit_inc it) (seen @ [a]))"

definition visit :: "span_view \<Rightarrow> (addr list) outcome" where "visit s = span_loop (sit_begin s) []"

subsection \<open>Facts\<close>

text \<open>The addresses of the items, and a span whose items do not run past the top of memory or overlap.\<close>

definition span_items :: "span_view \<Rightarrow> addr list" where
  "span_items s = map (\<lambda>i. sp_data s + sp_stride s * of_nat i) [0..<unat (sp_size s)]"

definition span_ok :: "nat \<Rightarrow> span_view \<Rightarrow> bool" where
  "span_ok elt s \<longleftrightarrow> 0 < elt \<and> elt \<le> unat (sp_stride s)
     \<and> unat (sp_data s) + unat (sp_size s) * unat (sp_stride s) < 2 ^ 32"

lemma span_fetch_item:
  "unat pos < unat (sp_size s) \<Longrightarrow> span_fetch s pos = Inr (span_items s ! unat pos)"
  by (simp add: span_fetch_def span_items_def word_le_nat_alt)

lemma span_fetch_panics:
  "span_fetch s pos = Inl (Panic ''Attempt to index span outside of max range.'') \<longleftrightarrow> unat (sp_size s) \<le> unat pos"
  by (simp add: span_fetch_def word_le_nat_alt)

lemma item_unat:
  assumes "span_ok elt s" "i < unat (sp_size s)"
  shows "unat (sp_data s + sp_stride s * of_nat i) = unat (sp_data s) + unat (sp_stride s) * i"
proof -
  have "unat (sp_stride s) * i \<le> unat (sp_stride s) * unat (sp_size s)" using assms(2) by (intro mult_le_mono2) simp
  moreover have "unat (sp_data s) + unat (sp_stride s) * unat (sp_size s) < 2 ^ 32"
    using assms(1) by (simp add: span_ok_def mult.commute)
  ultimately have le: "unat (sp_data s) + unat (sp_stride s) * i < 2 ^ 32" by linarith
  have "i < 2 ^ 32" using assms(2) unat_bounded [of "sp_size s"] by simp
  then have i: "unat (of_nat i :: size32) = i" by (simp add: unat_of_nat_len)
  then have m: "unat (sp_stride s * of_nat i) = unat (sp_stride s) * i"
    using le by (subst unat_mult_lem [THEN iffD1]) simp_all
  show ?thesis using le by (subst unat_add_noov) (simp_all add: m)
qed

lemma span_loop_eq:
  "n = unat (sp_size s) - unat i \<Longrightarrow> unat i \<le> unat (sp_size s) \<Longrightarrow>
   span_loop (s, i) seen = Some (Inr (seen @ drop (unat i) (span_items s)))"
proof (induction n arbitrary: i seen)
  case 0
  then have "i = sp_size s" by (intro word_eq_unatI) simp
  then show ?case by (subst span_loop.simps) (simp add: sit_eq_def sit_end_def span_items_def)
next
  case (Suc n)
  then have lt: "unat i < unat (sp_size s)" by simp
  have u: "unat (i + 1) = unat i + 1" using lt unat_bounded [of "sp_size s"] by (subst unat_add_noov) simp_all
  have l: "unat i < length (span_items s)" using lt by (simp add: span_items_def)
  have "span_loop (s, i + 1) (seen @ [span_items s ! unat i])
      = Some (Inr ((seen @ [span_items s ! unat i]) @ drop (unat (i + 1)) (span_items s)))"
    using Suc lt u by (intro Suc.IH) simp_all
  moreover have "i \<noteq> sp_size s" using lt by auto
  ultimately show ?case
    using lt Cons_nth_drop_Suc [OF l]
    by (subst span_loop.simps) (simp add: sit_eq_def sit_end_def sit_deref_def sit_inc_def span_fetch_item u)
qed

text \<open>
  A range-based loop over a span returns and visits the items in order; in a span that fits
  into memory every item lies inside the block of size_bytes, and no two overlap.
\<close>

theorem span_visits_items:
  assumes "span_ok elt s"
  shows "visit s = Some (Inr (span_items s)) \<and> length (span_items s) = unat (sp_size s)
     \<and> (\<forall>i<unat (sp_size s). unat (sp_data s) \<le> unat (span_items s ! i)
          \<and> unat (span_items s ! i) + elt \<le> unat (sp_data s) + unat (size_bytes s)
          \<and> (\<forall>j<i. unat (span_items s ! j) + elt \<le> unat (span_items s ! i)))"
proof -
  have "visit s = Some (Inr (span_items s))" using span_loop_eq [of _ s 0 "[]"] by (simp add: visit_def sit_begin_def)
  moreover have "length (span_items s) = unat (sp_size s)" by (simp add: span_items_def)
  moreover have "unat (sp_data s) \<le> unat (span_items s ! i) \<and> unat (span_items s ! i) + elt \<le> unat (sp_data s) + unat (size_bytes s)
      \<and> (\<forall>j<i. unat (span_items s ! j) + elt \<le> unat (span_items s ! i))" if i: "i < unat (sp_size s)" for i
  proof -
    have st: "elt \<le> unat (sp_stride s)" using assms by (simp add: span_ok_def)
    have it: "unat (span_items s ! j) = unat (sp_data s) + unat (sp_stride s) * j" if "j \<le> i" for j
      using item_unat [OF assms, of j] i that by (simp add: span_items_def)
    have "unat (size_bytes s) = unat (sp_size s) * unat (sp_stride s)"
      using assms unfolding size_bytes_def span_ok_def by (subst unat_mult_lem [THEN iffD1]) simp_all
    moreover have "unat (sp_stride s) * (i + 1) \<le> unat (sp_stride s) * unat (sp_size s)" using i by (intro mult_le_mono2) simp
    moreover have "unat (sp_stride s) * j + elt \<le> unat (sp_stride s) * i" if "j < i" for j
    proof -
      have "unat (sp_stride s) * (j + 1) \<le> unat (sp_stride s) * i" using that by (intro mult_le_mono2) simp
      then show ?thesis using st by simp
    qed
    ultimately show ?thesis using st it by (simp add: mult.commute)
  qed
  ultimately show ?thesis by blast
qed

theorem span_visits_items_witness:
  "visit (span_new 4 0x1000 3 16) = Some (Inr [0x1000, 0x1010, 0x1020])"
proof -
  have "span_ok 4 (span_new 4 0x1000 3 16)" by (simp add: span_ok_def span_new_def default_stride_def)
  from span_visits_items [OF this] show ?thesis
    by (simp add: span_items_def span_new_def default_stride_def upt_conv_Cons)
qed

text \<open>The last item of an empty span panics; so does whatever is not an index.\<close>

lemma span_last_empty:
  "span_last (span_empty elt) = Inl (Panic ''Attempt to index span outside of max range.'')"
  by (simp add: span_last_def span_fetch_def span_empty_def)

text \<open>The line buffer of the console is used as a span of bytes.\<close>

lemma span_put_fetch:
  assumes "length buf < 2 ^ 32"
  shows "span_put idx c buf = (case span_fetch (span_new 1 a (of_nat (length buf)) default_stride) idx of
    Inl e \<Rightarrow> Inl e | Inr p \<Rightarrow> Inr (buf[unat (p - a) := c]))"
  using assms by (simp add: span_put_def span_fetch_def span_new_def word_le_nat_alt unat_of_nat_len)

end
