(* ===== verification/Uart.thy ===== *)
theory Uart
  imports ParseInt
begin

text \<open>
  kernel/arch/x86/dev/uart.cpp and kernel/arch/x86/src/dconsole.cpp: the serial port and the
  debug console on it. The port is the trace of bytes written to its registers, together with the
  values its status and data registers will answer, in order.
\<close>

subsection \<open>Registers\<close>

definition COM_PORT :: u16 where "COM_PORT = 0x03F8"
definition SERIAL_TRX :: u16 where "SERIAL_TRX = COM_PORT + 0"
definition SERIAL_INT_CTL :: u16 where "SERIAL_INT_CTL = COM_PORT + 1"
definition SERIAL_DLA_LSB :: u16 where "SERIAL_DLA_LSB = COM_PORT + 0"
definition SERIAL_DLA_MSB :: u16 where "SERIAL_DLA_MSB = COM_PORT + 1"
definition SERIAL_FIFO_CTL :: u16 where "SERIAL_FIFO_CTL = COM_PORT + 2"
definition SERIAL_LINE_CTL :: u16 where "SERIAL_LINE_CTL = COM_PORT + 3"
definition SERIAL_DLA_BIT :: u8 where "SERIAL_DLA_BIT = 0x80"
definition SERIAL_CONTROL_FLAGS :: u8 where "SERIAL_CONTROL_FLAGS = 0x0B"

record port =
  line_stat :: "u8 list"
  rx_data :: "u8 list"
  port_out :: "(u16 \<times> u8) list"

definition port_outb :: "u16 \<Rightarrow> u8 \<Rightarrow> port \<Rightarrow> port" where
  "port_outb p v s = s\<lparr>port_out := port_out s @ [(p, v)]\<rparr>"

text \<open>A read with no answer left does not return.\<close>

definition read_status :: "port \<Rightarrow> (u8 \<times> port) option" where
  "read_status s = (case line_stat s of [] \<Rightarrow> None | b # bs \<Rightarrow> Some (b, s\<lparr>line_stat := bs\<rparr>))"

definition read_data :: "port \<Rightarrow> (u8 \<times> port) option" where
  "read_data s = (case rx_data s of [] \<Rightarrow> None | b # bs \<Rightarrow> Some (b, s\<lparr>rx_data := bs\<rparr>))"

subsection \<open>The serial port\<close>

definition uart_init :: "port \<Rightarrow> port" where
  "uart_init s =
     port_outb SERIAL_LINE_CTL SERIAL_CONTROL_FLAGS
       (port_outb SERIAL_DLA_LSB 6
         (port_outb SERIAL_DLA_MSB 0
           (port_outb SERIAL_LINE_CTL (SERIAL_CONTROL_FLAGS OR SERIAL_DLA_BIT)
             (port_outb SERIAL_FIFO_CTL 0x05
               (port_outb SERIAL_INT_CTL 0 s)))))"

definition read_char :: "port \<Rightarrow> (int32 \<times> port) option" where
  "read_char s =
     (case read_status s of
        None \<Rightarrow> None
      | Some (b, s) \<Rightarrow>
          if b AND 0x01 = 0 then Some (- 1, s)
          else case read_data s of None \<Rightarrow> None | Some (d, s) \<Rightarrow> Some (ucast d, s))"

fun wait_ready :: "u8 list \<Rightarrow> u8 list option" where
  "wait_ready [] = None"
| "wait_ready (b # bs) = (if b AND 0x20 = 0 then wait_ready bs else Some bs)"

definition write_char :: "u8 \<Rightarrow> port \<Rightarrow> port option" where
  "write_char c s =
     (case wait_ready (line_stat s) of
        None \<Rightarrow> None
      | Some bs \<Rightarrow> Some (port_outb SERIAL_TRX c (s\<lparr>line_stat := bs\<rparr>)))"

subsection \<open>The debug console\<close>

definition dc_put_char :: "u8 \<Rightarrow> port \<Rightarrow> port option" where "dc_put_char c s = write_char c s"

definition dc_read_char :: "port \<Rightarrow> (int32 \<times> port) option" where "dc_read_char s = read_char s"

text \<open>Write and PutString over the bytes from str, len being the bound of the caller.\<close>

fun dc_write :: "u8 list \<Rightarrow> nat \<Rightarrow> port \<Rightarrow> port option" where
  "dc_write str 0 s = Some s"
| "dc_write [] (Suc len) s = None"
| "dc_write (c # str) (Suc len) s =
     (case dc_put_char c s of None \<Rightarrow> None | Some s \<Rightarrow> dc_write str len s)"

fun dc_put_string :: "u8 list \<Rightarrow> nat \<Rightarrow> port \<Rightarrow> port option" where
  "dc_put_string str 0 s = Some s"
| "dc_put_string [] (Suc len) s = None"
| "dc_put_string (c # str) (Suc len) s =
     (if c = 0 then Some s
      else case dc_put_char c s of None \<Rightarrow> None | Some s \<Rightarrow> dc_put_string str len s)"

definition ready_message :: "u8 list" where
  "ready_message = [70, 111, 111, 78, 73, 88, 32, 82, 101, 97, 100, 121, 33, 13, 10, 0]"

definition dc_init1 :: "port \<Rightarrow> port option" where
  "dc_init1 s = dc_put_string ready_message (length (takeWhile (\<lambda>c. c \<noteq> 0) ready_message)) (uart_init s)"

definition HEX_CHARS :: "u8 list" where
  "HEX_CHARS = [48, 49, 50, 51, 52, 53, 54, 55, 56, 57, 65, 66, 67, 68, 69, 70]"

definition dump_nibble :: "u64 \<Rightarrow> nat \<Rightarrow> nat" where
  "dump_nibble i index = unat (drop_bit ((15 - index) * 4) i AND 0x0F)"

fun dump_hex_loop :: "u64 \<Rightarrow> nat \<Rightarrow> nat \<Rightarrow> port \<Rightarrow> port option" where
  "dump_hex_loop i index 0 s = Some s"
| "dump_hex_loop i index (Suc n) s =
     (case (if 0 < index \<and> index mod 4 = 0 then dc_put_char 95 s else Some s) of
        None \<Rightarrow> None
      | Some s \<Rightarrow>
          case dc_put_char (HEX_CHARS ! dump_nibble i index) s of
            None \<Rightarrow> None
          | Some s \<Rightarrow> dump_hex_loop i (index + 1) n s)"

definition DumpUInt64Hex :: "u64 \<Rightarrow> port \<Rightarrow> port option" where
  "DumpUInt64Hex i s = dump_hex_loop i 0 16 s"

subsection \<open>Bytes on the line\<close>

text \<open>The bytes that reach the line: those written to the data register while its latch is off.\<close>

definition sent :: "port \<Rightarrow> u8 list" where
  "sent s = map snd (filter (\<lambda>(p, _). p = SERIAL_TRX) (port_out s))"

definition ready_answers :: "port \<Rightarrow> nat" where
  "ready_answers s = length (filter (\<lambda>b. b AND 0x20 \<noteq> 0) (line_stat s))"

text \<open>All of cs is sent, one ready answer for each.\<close>

definition sends :: "u8 list \<Rightarrow> port \<Rightarrow> port option \<Rightarrow> bool" where
  "sends cs s r \<longleftrightarrow> (length cs \<le> ready_answers s \<longrightarrow>
     (\<exists>s'. r = Some s' \<and> port_out s' = port_out s @ map (Pair SERIAL_TRX) cs
        \<and> ready_answers s' = ready_answers s - length cs \<and> rx_data s' = rx_data s))"

lemma sends_Nil [simp]: "sends [] s (Some s)" by (simp add: sends_def)

lemma wait_ready_ok:
  "Suc 0 \<le> length (filter (\<lambda>b. b AND 0x20 \<noteq> 0) bs) \<Longrightarrow>
   \<exists>bs'. wait_ready bs = Some bs' \<and> length (filter (\<lambda>b. b AND 0x20 \<noteq> 0) bs') = length (filter (\<lambda>b. b AND 0x20 \<noteq> 0) bs) - 1"
  by (induction bs) auto

lemma sends_char: "sends [c] s (dc_put_char c s)"
  using wait_ready_ok [of "line_stat s"]
  by (auto simp: sends_def dc_put_char_def write_char_def port_outb_def ready_answers_def)

lemma sends_bind:
  assumes "sends cs s r" "\<And>s'. r = Some s' \<Longrightarrow> sends ds s' (f s')"
  shows "sends (cs @ ds) s (case r of None \<Rightarrow> None | Some s \<Rightarrow> f s)"
  unfolding sends_def
proof
  assume l: "length (cs @ ds) \<le> ready_answers s"
  then obtain s1 where s1: "r = Some s1" "port_out s1 = port_out s @ map (Pair SERIAL_TRX) cs"
    "ready_answers s1 = ready_answers s - length cs" "rx_data s1 = rx_data s"
    using assms(1) by (auto simp: sends_def)
  moreover from l s1(3) have "length ds \<le> ready_answers s1" by simp
  ultimately show "\<exists>s'. (case r of None \<Rightarrow> None | Some s \<Rightarrow> f s) = Some s'
      \<and> port_out s' = port_out s @ map (Pair SERIAL_TRX) (cs @ ds)
      \<and> ready_answers s' = ready_answers s - length (cs @ ds) \<and> rx_data s' = rx_data s"
    using assms(2) [OF s1(1)] by (auto simp: sends_def)
qed

lemma sends_write: "len \<le> length str \<Longrightarrow> sends (take len str) s (dc_write str len s)"
proof (induction str len s rule: dc_write.induct)
  case (3 c str len s)
  then show ?case using sends_bind [OF sends_char, where ds = "take len str" and f = "dc_write str len"] by simp
qed simp_all

lemma sends_string:
  "len \<le> length str \<or> 0 \<in> set str \<Longrightarrow>
   sends (takeWhile (\<lambda>c. c \<noteq> 0) (take len str)) s (dc_put_string str len s)"
proof (induction str len s rule: dc_put_string.induct)
  case (3 c str len s)
  show ?case
  proof (cases "c = 0")
    case False
    then have "len \<le> length str \<or> 0 \<in> set str" using 3(2) by auto
    then show ?thesis
      using False 3(1)
        sends_bind [OF sends_char, where ds = "takeWhile (\<lambda>c. c \<noteq> 0) (take len str)" and f = "dc_put_string str len"]
      by simp
  qed simp
qed simp_all

fun dump_text :: "u64 \<Rightarrow> nat \<Rightarrow> nat \<Rightarrow> u8 list" where
  "dump_text i index 0 = []"
| "dump_text i index (Suc n) =
     (if 0 < index \<and> index mod 4 = 0 then [95] else []) @ [HEX_CHARS ! dump_nibble i index] @ dump_text i (index + 1) n"

lemma sends_dump: "sends (dump_text i index n) s (dump_hex_loop i index n s)"
proof (induction i index n s rule: dump_hex_loop.induct)
  case (2 i index n s)
  have "sends (if 0 < index \<and> index mod 4 = 0 then [95] else []) s
      (if 0 < index \<and> index mod 4 = 0 then dc_put_char 95 s else Some s)" using sends_char by simp
  from sends_bind [OF this sends_bind [OF sends_char]] 2 show ?case by simp
qed simp

subsection \<open>Properties\<close>

text \<open>
  With a ready answer for each, PutString returns and sends exactly the characters up to
  the terminator or the bound, in order and nothing else.
\<close>

theorem put_string_sends:
  assumes "len \<le> length str \<or> 0 \<in> set str"
    and "length (takeWhile (\<lambda>c. c \<noteq> 0) (take len str)) \<le> ready_answers s"
  shows "\<exists>s'. dc_put_string str len s = Some s'
     \<and> port_out s' = port_out s @ map (Pair SERIAL_TRX) (takeWhile (\<lambda>c. c \<noteq> 0) (take len str))"
  using sends_string [OF assms(1), of s] assms(2) by (auto simp: sends_def)

theorem put_string_sends_witness:
  "\<exists>s'. dc_put_string [72, 105, 0] 9 \<lparr>line_stat = [0, 0x20, 0, 0x60], rx_data = [], port_out = []\<rparr> = Some s'
     \<and> port_out s' = [(SERIAL_TRX, 72), (SERIAL_TRX, 105)]"
  using put_string_sends [of 9 "[72, 105, 0]" "\<lparr>line_stat = [0, 0x20, 0, 0x60], rx_data = [], port_out = []\<rparr>"]
  by (simp add: ready_answers_def)

text \<open>The hexadecimal dump, with its separators dropped, reads back as the number.\<close>

definition hex_digit_value :: "u8 \<Rightarrow> nat" where
  "hex_digit_value c = (if c < 58 then unat c - 48 else unat c - 55)"

definition hex_text_value :: "u8 list \<Rightarrow> nat" where
  "hex_text_value cs = foldl (\<lambda>v c. 16 * v + hex_digit_value c) 0 (filter (\<lambda>c. c \<noteq> 95) cs)"

lemma hex_chars: "d < 16 \<Longrightarrow> hex_digit_value (HEX_CHARS ! d) = d \<and> HEX_CHARS ! d \<noteq> 95"
proof -
  have "\<forall>d<16. hex_digit_value (HEX_CHARS ! d) = d \<and> HEX_CHARS ! d \<noteq> 95" by code_simp
  then show "d < 16 \<Longrightarrow> hex_digit_value (HEX_CHARS ! d) = d \<and> HEX_CHARS ! d \<noteq> 95" by blast
qed

lemma dump_nibble_eq: "dump_nibble i k = unat i div 16 ^ (15 - k) mod 16"
proof -
  have "(0x0F :: u64) = mask 4" by (simp add: mask_eq_exp_minus_1)
  then have "drop_bit ((15 - k) * 4) i AND 0x0F = drop_bit ((15 - k) * 4) i mod 16"
    by (simp only: flip: take_bit_eq_mask) (simp add: take_bit_eq_mod)
  moreover have "unat (drop_bit n i) = unat i div 2 ^ n" for n by (simp only: unat_drop_bit_eq flip: drop_bit_eq_div)
  moreover have "(2 :: nat) ^ ((15 - k) * 4) = 16 ^ (15 - k)" by (simp add: power_mult mult.commute [of _ 4])
  ultimately show ?thesis by (simp add: dump_nibble_def unat_mod)
qed

lemma dump_text_length:
  "length (dump_text i k n) = n + length (filter (\<lambda>j. 0 < j \<and> j mod 4 = 0) [k..<k + n])"
  by (induction n arbitrary: k) (simp_all add: upt_conv_Cons del: upt_Suc)

lemma dump_text_value:
  "index + n = 16 \<Longrightarrow> v = unat i div 16 ^ n \<Longrightarrow>
   foldl (\<lambda>v c. 16 * v + hex_digit_value c) v (filter (\<lambda>c. c \<noteq> 95) (dump_text i index n)) = unat i"
proof (induction n arbitrary: index v)
  case (Suc n)
  let ?d = "dump_nibble i index"
  have "15 - index = n" using Suc.prems by simp
  then have d: "?d = unat i div 16 ^ n mod 16" by (simp add: dump_nibble_eq)
  then have h: "hex_digit_value (HEX_CHARS ! ?d) = ?d" "HEX_CHARS ! ?d \<noteq> 95" using hex_chars [of ?d] by simp_all
  have "16 * v + ?d = unat i div 16 ^ n"
    unfolding Suc.prems(2) d power_Suc2 div_mult2_eq by simp
  then show ?case using Suc.IH [of "index + 1" "16 * v + ?d"] Suc.prems h by simp
qed simp

text \<open>
  With enough ready answers, the hexadecimal dump returns and what it sends, with its
  separators dropped, reads back as the number.
\<close>

theorem dump_hex_reads_back:
  assumes "19 \<le> ready_answers s"
  shows "\<exists>s' cs. DumpUInt64Hex i s = Some s' \<and> port_out s' = port_out s @ map (Pair SERIAL_TRX) cs
     \<and> length cs = 19 \<and> hex_text_value cs = unat i"
proof -
  have l: "length (dump_text i 0 16) = 19" by (simp add: dump_text_length upt_conv_Cons)
  moreover have "hex_text_value (dump_text i 0 16) = unat i"
    unfolding hex_text_value_def using dump_text_value [of 0 16 0 i] unat_lt64 [of i] by simp
  moreover have "sends (dump_text i 0 16) s (DumpUInt64Hex i s)" unfolding DumpUInt64Hex_def by (rule sends_dump)
  ultimately show ?thesis using assms unfolding sends_def by auto
qed

theorem dump_hex_reads_back_witness:
  "\<exists>s'. DumpUInt64Hex 0xFEE00000 \<lparr>line_stat = replicate 19 0x20, rx_data = [], port_out = []\<rparr> = Some s'"
  using dump_hex_reads_back [of "\<lparr>line_stat = replicate 19 0x20, rx_data = [], port_out = []\<rparr>" "0xFEE00000"]
  by (auto simp: ready_answers_def filter_replicate)

end
