(* ===== verification/DebugPrint.thy ===== *)
theory DebugPrint
  imports Uart BootArgsFacts Console
begin

text \<open>
  The formatted messages of kernel/src/debug.cpp on the serial port: PrintF, kpanic and kassert,
  and the list of available memory of boot_args.cpp. The buffer of 512 bytes is the output buffer
  of the print environment. A pointer argument is its address.
\<close>

subsection \<open>Printing\<close>

definition DEBUG_BUF_SZ :: size32 where "DEBUG_BUF_SZ = 512"

definition mem_bytes :: "mem \<Rightarrow> addr \<Rightarrow> nat \<Rightarrow> u8 list" where
  "mem_bytes m p n = map (\<lambda>i. m (p + of_nat i)) [0..<n]"

definition vPrintF :: "print_env \<Rightarrow> string \<Rightarrow> va_list \<Rightarrow> mem \<times> port \<Rightarrow> (mem \<times> port) outcome" where
  "vPrintF e fmt args = (\<lambda>(m, s).
     bindo (vsnprintf (e\<lparr>slen := DEBUG_BUF_SZ\<rparr>) fmt args m) (\<lambda>(len, m).
       case dc_put_string (mem_bytes m (sbuf e) (unat len)) (unat len) s of
         None \<Rightarrow> None
       | Some s \<Rightarrow> Some (Inr (m, s))))"

definition NL :: string where "NL = [CHR 0x0A]"

definition CRNL :: string where "CRNL = [CHR 0x0D, CHR 0x0A]"

definition STARS :: string where "STARS = ''**********************************'' @ NL"

text \<open>The state in which the processor halts.\<close>

definition kpanic :: "print_env \<Rightarrow> addr \<Rightarrow> mem \<times> port \<Rightarrow> (mem \<times> port) outcome" where
  "kpanic e message =
     vPrintF e (STARS @ ''STOP ERROR: %s'' @ NL @ STARS @ NL @ ''SYSTEM HALTED!'') [message]"

definition kassert ::
    "print_env \<Rightarrow> addr \<Rightarrow> addr \<Rightarrow> int32 \<Rightarrow> addr \<Rightarrow> addr \<Rightarrow> mem \<times> port \<Rightarrow> (mem \<times> port) outcome" where
  "kassert e test reason line file function =
     vPrintF e (STARS @ ''STOP ERROR: %s'' @ NL @ ''TEST: %s'' @ NL @ ''LOCATOIN: %s (%s:%d)'' @ NL @ STARS
       @ NL @ ''SYSTEM HALTED!'') [reason, test, function, file, line]"

fun show_available :: "print_env \<Rightarrow> mapping list \<Rightarrow> mem \<times> port \<Rightarrow> (mem \<times> port) outcome" where
  "show_available e [] ms = Some (Inr ms)"
| "show_available e (x # xs) ms =
     bindo (vPrintF e (''    %p %08X'' @ CRNL) [Start x, MapLength x] ms) (show_available e xs)"

definition ShowAvailableMemory :: "print_env \<Rightarrow> argument_data \<Rightarrow> mem \<times> port \<Rightarrow> (mem \<times> port) outcome" where
  "ShowAvailableMemory e d ms =
     bindo (vPrintF e (''Free Memory'' @ CRNL) [] ms) (\<lambda>ms.
     bindo (vPrintF e (''    Start      Length'' @ CRNL) [] ms) (show_available e (entries d)))"

subsection \<open>Facts\<close>

lemma mem_bytes_props: "length (mem_bytes m p n) = n" "i < n \<Longrightarrow> mem_bytes m p n ! i = m (p + of_nat i)"
  by (simp_all add: mem_bytes_def)

text \<open>The string that starts at an address and ends at the latest after n bytes.\<close>

definition printed_text :: "mem \<Rightarrow> addr \<Rightarrow> nat \<Rightarrow> u8 list" where
  "printed_text m p n = takeWhile (\<lambda>c. c \<noteq> 0) (mem_bytes m p n)"

lemma printed_text_cstr: "m (p + of_nat n) = 0 \<Longrightarrow> cstr m p (printed_text m p n)"
proof -
  assume z: "m (p + of_nat n) = 0"
  let ?t = "printed_text m p n"
  have "m (p + of_nat i) = ?t ! i \<and> ?t ! i \<noteq> 0" if "i < length ?t" for i
  proof -
    have "i < n" using that length_takeWhile_le [of "\<lambda>c. c \<noteq> 0" "mem_bytes m p n"]
      by (simp add: printed_text_def mem_bytes_props)
    then have "?t ! i = m (p + of_nat i)"
      using that by (simp add: printed_text_def takeWhile_nth mem_bytes_props)
    moreover have "?t ! i \<in> set ?t" using that by simp
    ultimately show ?thesis by (auto simp: printed_text_def dest: set_takeWhileD)
  qed
  moreover have "m (p + of_nat (length ?t)) = 0"
  proof (cases "length ?t < n")
    case True
    then have "mem_bytes m p n ! length ?t = 0"
      using nth_length_takeWhile [of "\<lambda>c. c \<noteq> 0" "mem_bytes m p n"] by (simp add: printed_text_def mem_bytes_props)
    then show ?thesis using True by (simp add: mem_bytes_props)
  next
    case False
    then have "length ?t = n" using length_takeWhile_le [of "\<lambda>c. c \<noteq> 0" "mem_bytes m p n"]
      by (simp add: printed_text_def mem_bytes_props)
    then show ?thesis using z by simp
  qed
  ultimately show ?thesis by (simp add: cstr_def)
qed

lemma cstr_unique:
  assumes "cstr m p xs" "cstr m p ys"
  shows "xs = ys"
proof -
  have "\<not> length xs < length ys" if "cstr m p xs" "cstr m p ys" for xs ys
    using that unfolding cstr_def by metis
  then have "length xs = length ys" using assms by (meson linorder_neqE_nat)
  then show ?thesis using assms by (auto simp: cstr_def intro: nth_equalityI)
qed

text \<open>What PrintF does with what vsnprintf makes of a message.\<close>

lemma vPrintF_ok:
  assumes "env_ok (e\<lparr>slen := DEBUG_BUF_SZ\<rparr>)" "512 \<le> ready_answers s"
    and "vsnprintf (e\<lparr>slen := DEBUG_BUF_SZ\<rparr>) fmt args m = Some r"
  shows "r = Inl Undefined \<and> vPrintF e fmt args (m, s) = Some (Inl Undefined)
    \<or> (\<exists>m' s' cs. vPrintF e fmt args (m, s) = Some (Inr (m', s')) \<and> cstr m' (sbuf e) cs \<and> length cs < 512
        \<and> port_out s' = port_out s @ map (Pair SERIAL_TRX) cs \<and> frame (e\<lparr>slen := DEBUG_BUF_SZ\<rparr>) m m')"
proof -
  have v: "case Some r of None \<Rightarrow> True | Some (Inl f) \<Rightarrow> f = Undefined
    | Some (Inr (k, m')) \<Rightarrow> k < DEBUG_BUF_SZ \<and> m' (sbuf e + k) = 0 \<and> frame (e\<lparr>slen := DEBUG_BUF_SZ\<rparr>) m m'"
    using vsnprintf_bounds [OF assms(1), where fmt = fmt and m = m and args = args] unfolding assms(3)
    by (auto simp: DEBUG_BUF_SZ_def split: sum.splits)
  show ?thesis
  proof (cases r)
    case (Inl f)
    then show ?thesis using v assms(3) by (simp add: vPrintF_def)
  next
    case (Inr x)
    obtain k m' where x: "x = (k, m')" by (cases x)
    have k: "k < DEBUG_BUF_SZ" "m' (sbuf e + k) = 0" "frame (e\<lparr>slen := DEBUG_BUF_SZ\<rparr>) m m'" using v Inr x by simp_all
    let ?b = "mem_bytes m' (sbuf e) (unat k)" and ?t = "printed_text m' (sbuf e) (unat k)"
    have n: "unat k < 512" using k(1) by (simp add: DEBUG_BUF_SZ_def word_less_nat_alt)
    have t: "length ?t \<le> unat k" using length_takeWhile_le [of "\<lambda>c. c \<noteq> 0" ?b] by (simp add: printed_text_def mem_bytes_props)
    have tk: "take (unat k) ?b = ?b" by (simp add: mem_bytes_props)
    have "sends ?t s (dc_put_string ?b (unat k) s)"
      using sends_string [of "unat k" ?b s] by (simp only: tk printed_text_def [symmetric]) (simp add: mem_bytes_props)
    moreover have "length ?t \<le> ready_answers s" using t n assms(2) by linarith
    ultimately obtain s' where s': "dc_put_string ?b (unat k) s = Some s'" "port_out s' = port_out s @ map (Pair SERIAL_TRX) ?t"
      by (auto simp: sends_def)
    have "vPrintF e fmt args (m, s) = Some (Inr (m', s'))" using assms(3) Inr x s'(1) by (simp add: vPrintF_def)
    moreover have "cstr m' (sbuf e) ?t" using k(2) by (intro printed_text_cstr) simp
    ultimately show ?thesis using s'(2) k(3) t n by fastforce
  qed
qed


text \<open>A number is sent as its digits.\<close>

lemma printf_number:
  assumes "env_ok (e\<lparr>slen := DEBUG_BUF_SZ\<rparr>)" "disjoint_blocks (sbuf e) DEBUG_BUF_SZ (nbuf e) 64" "512 \<le> ready_answers s"
  shows "\<exists>m' s'. vPrintF e ''%d'' [a] (m, s) = Some (Inr (m', s'))
     \<and> port_out s' = port_out s @ map (Pair SERIAL_TRX) (printed (CHR ''d'') a)"
proof -
  let ?e = "e\<lparr>slen := DEBUG_BUF_SZ\<rparr>"
  have c: "CHR ''d'' \<in> number_convs" by (simp add: number_convs_def)
  have b: "length (digit_bytes False 10 (unat u)) \<le> 28" for u :: u64 by (rule digits_64) simp
  have l: "length (printed (CHR ''d'') a) \<le> 29"
    using b [of "- scast a"] b [of "scast a"] by (simp add: printed_def conv_base_def)
  have "1 < slen ?e" "disjoint_blocks (sbuf ?e) (slen ?e) (nbuf ?e) 64"
    using assms(2) by (simp_all add: DEBUG_BUF_SZ_def)
  from vsnprintf_number [OF assms(1) this c, of a m] obtain k m' where
    k': "vsnprintf ?e ''%d'' [a] m = Some (Inr (k, m'))" "cstr m' (sbuf ?e) (take (unat (slen ?e) - 1) (printed (CHR ''d'') a))"
    by blast
  have "take (unat (slen ?e) - 1) (printed (CHR ''d'') a) = printed (CHR ''d'') a" using l by (simp add: DEBUG_BUF_SZ_def)
  with k' have k: "vsnprintf ?e ''%d'' [a] m = Some (Inr (k, m'))" "cstr m' (sbuf e) (printed (CHR ''d'') a)" by simp_all
  from vPrintF_ok [OF assms(1,3) k(1)] obtain m1 s1 cs where v:
    "vPrintF e ''%d'' [a] (m, s) = Some (Inr (m1, s1))" "cstr m1 (sbuf e) cs"
      "port_out s1 = port_out s @ map (Pair SERIAL_TRX) cs" by blast
  have "m1 = m'" using v(1) k(1) by (auto simp: vPrintF_def split: option.splits)
  then have "cs = printed (CHR ''d'') a" using cstr_unique [OF v(2)] k(2) by simp
  then show ?thesis using v by blast
qed


end
