(* ===== verification/AvlTree.thy ===== *)
theory AvlTree
  imports Prelude "HOL-Library.Tree"
begin

text \<open>
  src/work/AVLTree.h: a height-balanced search tree whose nodes point to their children and to their
  parent. A node is an address, null is 0, and the fields of the nodes are functions of the
  address; the root object m_root, whose left child is the tree, is a node of the tree object itself. A
  balance factor only ever receives the constants -1, 0 and 1, so int8_t is int here.
\<close>

subsection \<open>State\<close>

record ('k, 'd) avl =
  n_parent :: "nat \<Rightarrow> nat"
  n_left :: "nat \<Rightarrow> nat"
  n_right :: "nat \<Rightarrow> nat"
  n_bal :: "nat \<Rightarrow> int"
  n_key :: "nat \<Rightarrow> 'k"
  n_data :: "nat \<Rightarrow> 'd"
  av_min :: nat
  av_count :: u64

text \<open>The address of m_root.\<close>

definition ROOT :: nat where "ROOT = 1"

definition First :: "('k, 'd) avl \<Rightarrow> nat" where "First s = n_left s ROOT"

definition avl_new :: "'k \<Rightarrow> 'd \<Rightarrow> ('k, 'd) avl" where
  "avl_new k d = \<lparr>n_parent = (\<lambda>_. 0), n_left = (\<lambda>_. 0), n_right = (\<lambda>_. 0), n_bal = (\<lambda>_. 0),
     n_key = (\<lambda>_. k), n_data = (\<lambda>_. d), av_min = 0, av_count = 0\<rparr>"

definition set_bal :: "nat \<Rightarrow> int \<Rightarrow> ('k, 'd) avl \<Rightarrow> ('k, 'd) avl" where
  "set_bal a b s = s\<lparr>n_bal := (n_bal s)(a := b)\<rparr>"

subsection \<open>Rotations\<close>

definition RotateLeft :: "nat \<Rightarrow> ('k, 'd) avl \<Rightarrow> fault + (nat \<times> ('k, 'd) avl)" where
  "RotateLeft n s =
     (let tmp = n_right s n
      in if n = 0 \<or> tmp = 0 then Inl NullDeref
         else let s = s\<lparr>n_right := (n_right s)(n := n_left s tmp)\<rparr>;
                  s = (if n_right s n \<noteq> 0 then s\<lparr>n_parent := (n_parent s)(n_right s n := n)\<rparr> else s);
                  s = s\<lparr>n_parent := (n_parent s)(tmp := n_parent s n)\<rparr>;
                  p = n_parent s n
              in if p = 0 then Inl NullDeref
                 else let s = (if n = n_left s p then s\<lparr>n_left := (n_left s)(p := tmp)\<rparr>
                               else s\<lparr>n_right := (n_right s)(p := tmp)\<rparr>);
                          s = s\<lparr>n_left := (n_left s)(tmp := n)\<rparr>;
                          s = s\<lparr>n_parent := (n_parent s)(n := tmp)\<rparr>
                      in Inr (tmp, s))"

definition RotateRight :: "nat \<Rightarrow> ('k, 'd) avl \<Rightarrow> fault + (nat \<times> ('k, 'd) avl)" where
  "RotateRight n s =
     (let tmp = n_left s n
      in if n = 0 \<or> tmp = 0 then Inl NullDeref
         else let s = s\<lparr>n_left := (n_left s)(n := n_right s tmp)\<rparr>;
                  s = (if n_left s n \<noteq> 0 then s\<lparr>n_parent := (n_parent s)(n_left s n := n)\<rparr> else s);
                  s = s\<lparr>n_parent := (n_parent s)(tmp := n_parent s n)\<rparr>;
                  p = n_parent s n
              in if p = 0 then Inl NullDeref
                 else let s = (if n = n_left s p then s\<lparr>n_left := (n_left s)(p := tmp)\<rparr>
                               else s\<lparr>n_right := (n_right s)(p := tmp)\<rparr>);
                          s = s\<lparr>n_right := (n_right s)(tmp := n)\<rparr>;
                          s = s\<lparr>n_parent := (n_parent s)(n := tmp)\<rparr>
                      in Inr (tmp, s))"

text \<open>The inner switch that all four double rotations end with.\<close>

definition switch_balance :: "int \<Rightarrow> nat \<Rightarrow> ('k, 'd) avl \<Rightarrow> ('k, 'd) avl" where
  "switch_balance old node s =
     (let l = n_left s node; r = n_right s node
      in if old = - 1 then set_bal r 1 (set_bal l 0 s)
         else if old = 0 then set_bal l 0 (set_bal r 0 s)
         else if old = 1 then set_bal r 0 (set_bal l (- 1) s)
         else s)"

definition double_right :: "nat \<Rightarrow> ('k, 'd) avl \<Rightarrow> fault + (nat \<times> ('k, 'd) avl)" where
  "double_right node s =
     (if n_left s node = 0 \<or> n_right s (n_left s node) = 0 then Inl NullDeref
      else let old = n_bal s (n_right s (n_left s node))
           in bindf (RotateLeft (n_left s node) s) (\<lambda>(_, s).
              bindf (RotateRight node s) (\<lambda>(node, s).
                Inr (node, switch_balance old node (set_bal node 0 s)))))"

definition double_left :: "nat \<Rightarrow> ('k, 'd) avl \<Rightarrow> fault + (nat \<times> ('k, 'd) avl)" where
  "double_left node s =
     (if n_right s node = 0 \<or> n_left s (n_right s node) = 0 then Inl NullDeref
      else let old = n_bal s (n_left s (n_right s node))
           in bindf (RotateRight (n_right s node) s) (\<lambda>(_, s).
              bindf (RotateLeft node s) (\<lambda>(node, s).
                Inr (node, switch_balance old node (set_bal node 0 s)))))"

definition FixInsertLeftImbalance :: "nat \<Rightarrow> ('k, 'd) avl \<Rightarrow> fault + ('k, 'd) avl" where
  "FixInsertLeftImbalance node s =
     (if n_left s node = 0 then Inl NullDeref
      else if n_bal s (n_left s node) = n_bal s node then
        bindf (RotateRight node s) (\<lambda>(node, s). Inr (set_bal node 0 (set_bal (n_right s node) 0 s)))
      else bindf (double_right node s) (\<lambda>(_, s). Inr s))"

definition FixInsertRightImbalance :: "nat \<Rightarrow> ('k, 'd) avl \<Rightarrow> fault + ('k, 'd) avl" where
  "FixInsertRightImbalance node s =
     (if n_right s node = 0 then Inl NullDeref
      else if n_bal s (n_right s node) = n_bal s node then
        bindf (RotateLeft node s) (\<lambda>(node, s). Inr (set_bal node 0 (set_bal (n_left s node) 0 s)))
      else bindf (double_left node s) (\<lambda>(_, s). Inr s))"

definition FixDeleteLeftImbalance :: "nat \<Rightarrow> ('k, 'd) avl \<Rightarrow> fault + (nat \<times> ('k, 'd) avl)" where
  "FixDeleteLeftImbalance node s =
     (let b = n_bal s (n_left s node)
      in if n_left s node = 0 then Inl NullDeref
         else if b = - 1 then
           bindf (RotateRight node s) (\<lambda>(node, s). Inr (node, set_bal node 0 (set_bal (n_right s node) 0 s)))
         else if b = 0 then
           bindf (RotateRight node s) (\<lambda>(node, s). Inr (node, set_bal (n_right s node) (- 1) (set_bal node 1 s)))
         else if b = 1 then double_right node s
         else Inr (node, s))"

definition FixDeleteRightImbalance :: "nat \<Rightarrow> ('k, 'd) avl \<Rightarrow> fault + (nat \<times> ('k, 'd) avl)" where
  "FixDeleteRightImbalance node s =
     (let b = n_bal s (n_right s node)
      in if n_right s node = 0 then Inl NullDeref
         else if b = 1 then
           bindf (RotateLeft node s) (\<lambda>(node, s). Inr (node, set_bal node 0 (set_bal (n_left s node) 0 s)))
         else if b = 0 then
           bindf (RotateLeft node s) (\<lambda>(node, s). Inr (node, set_bal (n_left s node) 1 (set_bal node (- 1) s)))
         else if b = - 1 then double_left node s
         else Inr (node, s))"

subsection \<open>Searching\<close>

partial_function (option) find_loop :: "('k::linorder, 'd) avl \<Rightarrow> 'k \<Rightarrow> nat \<Rightarrow> nat option" where
  "find_loop s v rval =
     (if rval = 0 then Some 0
      else if v = n_key s rval then Some rval
      else find_loop s v (if v < n_key s rval then n_left s rval else n_right s rval))"

definition FindNode :: "('k::linorder, 'd) avl \<Rightarrow> 'k \<Rightarrow> nat option" where
  "FindNode s v = find_loop s v (First s)"

text \<open>The data of the key, or DataType() when there is no such key.\<close>

definition avl_find :: "'d \<Rightarrow> ('k::linorder, 'd) avl \<Rightarrow> 'k \<Rightarrow> 'd option" where
  "avl_find dflt s key = (case FindNode s key of None \<Rightarrow> None | Some n \<Rightarrow> Some (if n \<noteq> 0 then n_data s n else dflt))"

partial_function (option) leftmost_loop :: "('k, 'd) avl \<Rightarrow> nat \<Rightarrow> nat option" where
  "leftmost_loop s n = (if n_left s n = 0 then Some n else leftmost_loop s (n_left s n))"

partial_function (option) climb_loop :: "('k, 'd) avl \<Rightarrow> nat \<Rightarrow> nat \<Rightarrow> nat outcome" where
  "climb_loop s node n =
     (if n = 0 then Some (Inl NullDeref)
      else if node = n_right s n then climb_loop s n (n_parent s n)
      else Some (Inr n))"

definition Successor :: "('k, 'd) avl \<Rightarrow> nat \<Rightarrow> nat outcome" where
  "Successor s node =
     (let n = n_right s node
      in if n \<noteq> 0 then (case leftmost_loop s n of None \<Rightarrow> None | Some n \<Rightarrow> Some (Inr n))
         else bindo (climb_loop s node (n_parent s node)) (\<lambda>n. Some (Inr (if n = ROOT then 0 else n))))"

definition avl_min :: "'d \<Rightarrow> ('k, 'd) avl \<Rightarrow> 'd" where
  "avl_min dflt s = (if av_min s \<noteq> 0 then n_data s (av_min s) else dflt)"

subsection \<open>Insertion\<close>

definition compare_keys :: "'k::linorder \<Rightarrow> 'k \<Rightarrow> int" where
  "compare_keys lhs rhs = (if lhs < rhs then - 1 else if lhs > rhs then 1 else 0)"

text \<open>The descent: the node with the key or null, its parent, and the last comparison.\<close>

partial_function (option) descend :: "('k::linorder, 'd) avl \<Rightarrow> 'k \<Rightarrow> nat \<Rightarrow> nat \<Rightarrow> int \<Rightarrow> (nat \<times> nat \<times> int) option" where
  "descend s key current parent cmp =
     (if current = 0 then Some (0, parent, cmp)
      else let cmp = compare_keys key (n_key s current)
           in if cmp = 0 then Some (current, parent, 0)
              else descend s key (if cmp < 0 then n_left s current else n_right s current) current cmp)"

partial_function (option) insert_fix :: "nat \<Rightarrow> nat \<Rightarrow> ('k, 'd) avl \<Rightarrow> ('k, 'd) avl outcome" where
  "insert_fix current parent s =
     (if current = First s then Some (Inr s)
      else if current = n_left s parent then
        if n_bal s parent = 1 then Some (Inr (set_bal parent 0 s))
        else if n_bal s parent = 0 then insert_fix parent (n_parent s parent) (set_bal parent (- 1) s)
        else if n_bal s parent = - 1 then Some (FixInsertLeftImbalance parent s)
        else insert_fix parent (n_parent s parent) s
      else
        if n_bal s parent = - 1 then Some (Inr (set_bal parent 0 s))
        else if n_bal s parent = 0 then insert_fix parent (n_parent s parent) (set_bal parent 1 s)
        else if n_bal s parent = 1 then Some (FixInsertRightImbalance parent s)
        else insert_fix parent (n_parent s parent) s)"

text \<open>The new node, linked to its parent; fresh is the address that new returns.\<close>

definition link_node :: "nat \<Rightarrow> 'k::linorder \<Rightarrow> 'd \<Rightarrow> nat \<Rightarrow> int \<Rightarrow> ('k, 'd) avl \<Rightarrow> ('k, 'd) avl" where
  "link_node fresh key data parent cmp s =
     (let s = s\<lparr>n_left := (n_left s)(fresh := 0), n_right := (n_right s)(fresh := 0), n_bal := (n_bal s)(fresh := 0),
                n_parent := (n_parent s)(fresh := parent), n_key := (n_key s)(fresh := key),
                n_data := (n_data s)(fresh := data)\<rparr>;
          s = (if parent = ROOT \<or> cmp < 0 then s\<lparr>n_left := (n_left s)(parent := fresh)\<rparr>
               else s\<lparr>n_right := (n_right s)(parent := fresh)\<rparr>)
      in if av_min s = 0 \<or> n_key s fresh < n_key s (av_min s) then s\<lparr>av_min := fresh\<rparr> else s)"

definition avl_insert :: "nat \<Rightarrow> 'k::linorder \<Rightarrow> 'd \<Rightarrow> ('k, 'd) avl \<Rightarrow> ('k, 'd) avl outcome" where
  "avl_insert fresh key data s =
     (case descend s key (First s) ROOT 0 of
        None \<Rightarrow> None
      | Some (current, parent, cmp) \<Rightarrow>
          if current \<noteq> 0 then Some (Inr (s\<lparr>n_data := (n_data s)(current := data)\<rparr>))
          else bindo (insert_fix fresh parent (link_node fresh key data parent cmp s)) (\<lambda>s.
                 Some (Inr (s\<lparr>av_count := av_count s + 1\<rparr>))))"

subsection \<open>Removal\<close>

partial_function (option) remove_fix :: "nat \<Rightarrow> nat \<Rightarrow> ('k, 'd) avl \<Rightarrow> ('k, 'd) avl outcome" where
  "remove_fix current parent s =
     (if current = First s then Some (Inr s)
      else if current = n_left s parent then
        if n_bal s parent = - 1 then remove_fix parent (n_parent s parent) (set_bal parent 0 s)
        else if n_bal s parent = 0 then Some (Inr (set_bal parent 1 s))
        else if n_bal s parent = 1 then
          (case FixDeleteRightImbalance parent s of
             Inl e \<Rightarrow> Some (Inl e)
           | Inr (parent, s) \<Rightarrow>
               if n_bal s parent = - 1 then Some (Inr s) else remove_fix parent (n_parent s parent) s)
        else remove_fix parent (n_parent s parent) s
      else
        if n_bal s parent = 1 then remove_fix parent (n_parent s parent) (set_bal parent 0 s)
        else if n_bal s parent = 0 then Some (Inr (set_bal parent (- 1) s))
        else if n_bal s parent = - 1 then
          (case FixDeleteLeftImbalance parent s of
             Inl e \<Rightarrow> Some (Inl e)
           | Inr (parent, s) \<Rightarrow>
               if n_bal s parent = 1 then Some (Inr s) else remove_fix parent (n_parent s parent) s)
        else remove_fix parent (n_parent s parent) s)"

text \<open>Taking the target, which has at most one child, out of the tree.\<close>

definition unlink_node :: "nat \<Rightarrow> ('k, 'd) avl \<Rightarrow> ('k, 'd) avl" where
  "unlink_node target s =
     (let child = (if n_left s target \<noteq> 0 then n_left s target else n_right s target);
          s = (if child \<noteq> 0 then s\<lparr>n_parent := (n_parent s)(child := n_parent s target)\<rparr> else s);
          p = n_parent s target
      in if target = n_left s p then s\<lparr>n_left := (n_left s)(p := child)\<rparr>
         else s\<lparr>n_right := (n_right s)(p := child)\<rparr>)"

text \<open>The node to unlink: the node itself or its successor, whose key and data it takes over.\<close>

definition remove_target :: "nat \<Rightarrow> ('k, 'd) avl \<Rightarrow> (nat \<times> ('k, 'd) avl) outcome" where
  "remove_target node s =
     (if n_left s node = 0 \<or> n_right s node = 0 then
        if node = av_min s then bindo (Successor s node) (\<lambda>m. Some (Inr (node, s\<lparr>av_min := m\<rparr>)))
        else Some (Inr (node, s))
      else bindo (Successor s node) (\<lambda>target.
        Some (Inr (target, s\<lparr>n_key := (n_key s)(node := n_key s target, target := n_key s node),
                             n_data := (n_data s)(node := n_data s target, target := n_data s node)\<rparr>))))"

definition avl_remove :: "'k::linorder \<Rightarrow> ('k, 'd) avl \<Rightarrow> (bool \<times> ('k, 'd) avl) outcome" where
  "avl_remove key s =
     (case FindNode s key of
        None \<Rightarrow> None
      | Some node \<Rightarrow>
          if node = 0 then Some (Inr (False, s))
          else bindo (remove_target node s) (\<lambda>(target, s).
               bindo (remove_fix target (n_parent s target) s) (\<lambda>s.
               let s = unlink_node target s
               in Some (Inr (True, s\<lparr>av_count := av_count s - 1\<rparr>)))))"

subsection \<open>Checks\<close>

partial_function (option) CheckHeight :: "('k, 'd) avl \<Rightarrow> nat \<Rightarrow> int option" where
  "CheckHeight s node =
     (if node = 0 then Some 0
      else Option.bind (CheckHeight s (n_left s node)) (\<lambda>lh.
        if lh < 0 then Some lh
        else Option.bind (CheckHeight s (n_right s node)) (\<lambda>rh.
          if rh < 0 then Some rh
          else let cmp = rh - lh
               in if cmp < - 1 \<or> cmp > 1 \<or> cmp \<noteq> n_bal s node then Some (- 1)
                  else Some (1 + (if lh > rh then lh else rh)))))"

definition GetHeight :: "('k, 'd) avl \<Rightarrow> int option" where "GetHeight s = CheckHeight s (First s)"

text \<open>The duplicate check compares data, which has to convert to keys, and not keys; messages are left out.\<close>

partial_function (option) CheckNode :: "('k, 'd) avl \<Rightarrow> 'd set \<Rightarrow> nat \<Rightarrow> (bool \<times> 'd set) option" where
  "CheckNode s seen node =
     (if node = 0 then Some (True, seen)
      else if n_data s node \<in> seen then Some (False, seen)
      else Option.bind (CheckNode s (insert (n_data s node) seen) (n_left s node)) (\<lambda>x.
           Option.bind (CheckNode s (snd x) (n_right s node)) (\<lambda>y. Some (fst x \<and> fst y, snd y))))"

definition CheckTree :: "('k, 'd) avl \<Rightarrow> (bool \<times> 'd set) option" where "CheckTree s = CheckNode s {} (First s)"

end
