(* ===== verification/AvlFacts.thy ===== *)
theory AvlFacts
  imports AvlTree
begin

text \<open>
  Correctness of the height-balanced tree. The heap holds a tree of addresses; a node deep inside
  is reached through its context, the list of the frames above it. Every operation keeps the
  pointers, the order of the keys and the balance, and does to the map of keys to data what its
  name says.
\<close>

subsection \<open>Trees in the heap\<close>

fun ptr :: "nat tree \<Rightarrow> nat" where
  "ptr Leaf = 0"
| "ptr (Node l a r) = a"

fun rep :: "('k, 'd) avl \<Rightarrow> nat \<Rightarrow> nat tree \<Rightarrow> bool" where
  "rep s par Leaf \<longleftrightarrow> True"
| "rep s par (Node l a r) \<longleftrightarrow> a \<noteq> 0 \<and> a \<noteq> ROOT \<and> n_parent s a = par \<and> n_left s a = ptr l \<and> n_right s a = ptr r
     \<and> rep s a l \<and> rep s a r"

text \<open>A frame: the hole is the left or the right child of the node.\<close>

datatype crumb = InLeft nat "nat tree" | InRight "nat tree" nat

fun plug :: "crumb list \<Rightarrow> nat tree \<Rightarrow> nat tree" where
  "plug [] t = t"
| "plug (InLeft a r # c) t = plug c (Node t a r)"
| "plug (InRight l a # c) t = plug c (Node l a t)"

fun above :: "crumb list \<Rightarrow> nat" where
  "above [] = ROOT"
| "above (InLeft a r # c) = a"
| "above (InRight l a # c) = a"

text \<open>The link that leads into the hole, and the nodes of the context.\<close>

fun hole :: "('k, 'd) avl \<Rightarrow> crumb list \<Rightarrow> nat" where
  "hole s [] = n_left s ROOT"
| "hole s (InLeft a r # c) = n_left s a"
| "hole s (InRight l a # c) = n_right s a"

fun cnodes :: "crumb list \<Rightarrow> nat list" where
  "cnodes [] = []"
| "cnodes (InLeft a r # c) = a # inorder r @ cnodes c"
| "cnodes (InRight l a # c) = a # inorder l @ cnodes c"

fun cok :: "('k, 'd) avl \<Rightarrow> crumb list \<Rightarrow> bool" where
  "cok s [] \<longleftrightarrow> n_right s ROOT = 0"
| "cok s (InLeft a r # c) \<longleftrightarrow> a \<noteq> 0 \<and> a \<noteq> ROOT \<and> n_right s a = ptr r \<and> rep s a r \<and> n_parent s a = above c
     \<and> hole s c = a \<and> cok s c"
| "cok s (InRight l a # c) \<longleftrightarrow> a \<noteq> 0 \<and> a \<noteq> ROOT \<and> n_left s a = ptr l \<and> rep s a l \<and> n_parent s a = above c
     \<and> hole s c = a \<and> cok s c"

definition at_hole :: "('k, 'd) avl \<Rightarrow> crumb list \<Rightarrow> nat tree \<Rightarrow> bool" where
  "at_hole s c t \<longleftrightarrow> hole s c = ptr t \<and> cok s c \<and> rep s (above c) t \<and> distinct (inorder t @ cnodes c)"

lemma at_hole_step:
  "at_hole s (InLeft a r # c) t \<longleftrightarrow> at_hole s c (Node t a r)"
  "at_hole s (InRight l a # c) t \<longleftrightarrow> at_hole s c (Node l a t)"
  by (auto simp: at_hole_def)

lemma at_hole_plug: "at_hole s c t \<longleftrightarrow> at_hole s [] (plug c t)"
proof (induction c arbitrary: t)
  case (Cons f c)
  then show ?case by (cases f) (simp_all add: at_hole_step)
qed simp

lemma inorder_plug: "set (inorder (plug c t)) = set (inorder t) \<union> set (cnodes c)"
proof (induction c arbitrary: t)
  case (Cons f c)
  then show ?case by (cases f) auto
qed simp

lemma inorder_plug_cong: "inorder t = inorder t' \<Longrightarrow> inorder (plug c t) = inorder (plug c t')"
proof (induction c arbitrary: t t')
  case (Cons f c)
  show ?case
  proof (cases f)
    case (InLeft a r)
    then show ?thesis using Cons.IH [of "Node t a r" "Node t' a r"] Cons.prems by simp
  next
    case (InRight l a)
    then show ?thesis using Cons.IH [of "Node l a t" "Node l a t'"] Cons.prems by simp
  qed
qed simp

lemma rep_nodes: "rep s par t \<Longrightarrow> 0 \<notin> set (inorder t) \<and> ROOT \<notin> set (inorder t)"
  by (induction t arbitrary: par) auto

lemma cok_nodes: "cok s c \<Longrightarrow> 0 \<notin> set (cnodes c) \<and> ROOT \<notin> set (cnodes c)"
proof (induction c)
  case (Cons f c)
  then show ?case by (cases f) (auto dest: rep_nodes)
qed simp

lemma ptr_in: "t \<noteq> Leaf \<Longrightarrow> ptr t \<in> set (inorder t)"
  by (cases t) auto

lemma above_in: "above c = ROOT \<or> above c \<in> set (cnodes c)"
  by (cases c rule: above.cases) auto

lemma rep_ptr: "rep s par t \<Longrightarrow> x \<in> set (inorder t) \<Longrightarrow> x = ptr t \<Longrightarrow> n_parent s x = par"
  by (cases t) auto

text \<open>What does not touch a tree keeps it; its root may get another parent.\<close>

lemma rep_move:
  "rep s par t \<Longrightarrow> distinct (inorder t)
    \<Longrightarrow> (\<And>a. a \<in> set (inorder t) \<Longrightarrow> n_left s' a = n_left s a \<and> n_right s' a = n_right s a)
    \<Longrightarrow> (\<And>a. a \<in> set (inorder t) \<Longrightarrow> n_parent s' a = (if a = ptr t then par' else n_parent s a)) \<Longrightarrow> rep s' par' t"
proof (induction t arbitrary: par par')
  case (Node l a r)
  have "a \<notin> set (inorder l)" "a \<notin> set (inorder r)" using Node.prems(2) by auto
  then have p: "n_parent s' x = n_parent s x" if "x \<in> set (inorder l) \<union> set (inorder r)" for x
    using Node.prems(4) [of x] that by auto
  have "rep s' a l"
    by (rule Node.IH(1) [of a]) (use Node.prems p rep_ptr [of s a l] in auto)
  moreover have "rep s' a r"
    by (rule Node.IH(2) [of a]) (use Node.prems p rep_ptr [of s a r] in auto)
  ultimately show ?case using Node.prems(1) Node.prems(3) [of a] Node.prems(4) [of a] by simp
qed simp

lemma rep_keep:
  "rep s par t \<Longrightarrow> distinct (inorder t)
    \<Longrightarrow> (\<And>a. a \<in> set (inorder t) \<Longrightarrow> n_left s' a = n_left s a \<and> n_right s' a = n_right s a \<and> n_parent s' a = n_parent s a)
    \<Longrightarrow> rep s' par t"
  by (rule rep_move [where par' = par]) (auto dest: rep_ptr)

text \<open>A context only minds its own nodes, and not the link into its hole.\<close>

fun aside :: "('k, 'd) avl \<Rightarrow> crumb list \<Rightarrow> nat" where
  "aside s [] = n_right s ROOT"
| "aside s (InLeft a r # c) = n_right s a"
| "aside s (InRight l a # c) = n_left s a"

lemma hole_keep:
  "cok s c \<Longrightarrow> (\<And>a. a \<in> insert ROOT (set (cnodes c)) \<Longrightarrow> n_left s' a = n_left s a \<and> n_right s' a = n_right s a)
    \<Longrightarrow> hole s' c = hole s c"
  by (cases c rule: above.cases) auto

lemma cok_keep_all:
  "cok s c \<Longrightarrow> distinct (cnodes c) \<Longrightarrow> (\<And>a. a \<in> set (cnodes c) \<Longrightarrow> n_parent s' a = n_parent s a)
    \<Longrightarrow> (\<And>a. a \<in> insert ROOT (set (cnodes c)) \<Longrightarrow> n_left s' a = n_left s a \<and> n_right s' a = n_right s a)
    \<Longrightarrow> cok s' c"
proof (induction c)
  case (Cons f c)
  show ?case
  proof (cases f)
    case (InLeft a r)
    have "rep s' a r" by (rule rep_keep) (use Cons.prems InLeft in auto)
    moreover have "cok s' c" by (rule Cons.IH) (use Cons.prems InLeft in auto)
    moreover have "hole s' c = hole s c" by (rule hole_keep) (use Cons.prems InLeft in auto)
    ultimately show ?thesis using Cons.prems InLeft by simp
  next
    case (InRight l a)
    have "rep s' a l" by (rule rep_keep) (use Cons.prems InRight in auto)
    moreover have "cok s' c" by (rule Cons.IH) (use Cons.prems InRight in auto)
    moreover have "hole s' c = hole s c" by (rule hole_keep) (use Cons.prems InRight in auto)
    ultimately show ?thesis using Cons.prems InRight by simp
  qed
qed simp

lemma cok_keep:
  assumes "cok s c" "distinct (cnodes c)" "\<And>a. a \<in> set (cnodes c) \<Longrightarrow> n_parent s' a = n_parent s a"
    and "\<And>a. a \<in> insert ROOT (set (cnodes c)) \<Longrightarrow> a \<noteq> above c \<Longrightarrow> n_left s' a = n_left s a \<and> n_right s' a = n_right s a"
    and "aside s' c = aside s c"
  shows "cok s' c"
proof (cases c rule: above.cases)
  case (2 a r c')
  have r: "rep s' a r" by (rule rep_keep) (use assms 2 in auto)
  have a: "a \<noteq> ROOT" "cok s c'" using assms(1) 2 by auto
  have o: "n_left s' x = n_left s x \<and> n_right s' x = n_right s x" if "x \<in> insert ROOT (set (cnodes c'))" for x
    using assms(2,4) 2 a(1) that by auto
  have "cok s' c'" by (rule cok_keep_all [OF a(2)]) (use assms 2 o in auto)
  moreover have "hole s' c' = hole s c'" by (rule hole_keep [OF a(2)]) (use o in auto)
  ultimately show ?thesis using assms 2 r by simp
next
  case (3 l a c')
  have r: "rep s' a l" by (rule rep_keep) (use assms 3 in auto)
  have a: "a \<noteq> ROOT" "cok s c'" using assms(1) 3 by auto
  have o: "n_left s' x = n_left s x \<and> n_right s' x = n_right s x" if "x \<in> insert ROOT (set (cnodes c'))" for x
    using assms(2,4) 3 a(1) that by auto
  have "cok s' c'" by (rule cok_keep_all [OF a(2)]) (use assms 3 o in auto)
  moreover have "hole s' c' = hole s c'" by (rule hole_keep [OF a(2)]) (use o in auto)
  ultimately show ?thesis using assms 3 r by simp
qed (use assms(1,5) in simp)

text \<open>Replacing the link into the hole, as the code does: by comparing with the left child.\<close>

definition relink :: "nat \<Rightarrow> nat \<Rightarrow> nat \<Rightarrow> ('k, 'd) avl \<Rightarrow> ('k, 'd) avl" where
  "relink p n m s = (if n = n_left s p then s\<lparr>n_left := (n_left s)(p := m)\<rparr> else s\<lparr>n_right := (n_right s)(p := m)\<rparr>)"

lemma relink_hole:
  assumes "cok s c" "hole s c = n" "n \<noteq> 0" "n \<notin> set (cnodes c)"
  shows "hole (relink (above c) n m s) c = m" "aside (relink (above c) n m s) c = aside s c"
    "n_parent (relink (above c) n m s) = n_parent s"
    "a \<noteq> above c \<Longrightarrow> n_left (relink (above c) n m s) a = n_left s a \<and> n_right (relink (above c) n m s) a = n_right s a"
proof -
  have "n \<noteq> ptr l" if "c = InRight l a # c'" for l a c'
    using that assms(3,4) ptr_in [of l] by (cases l) auto
  then show "hole (relink (above c) n m s) c = m" "aside (relink (above c) n m s) c = aside s c"
    using assms(1,2) by (cases c rule: above.cases; auto simp: relink_def)+
  show "n_parent (relink (above c) n m s) = n_parent s"
    "a \<noteq> above c \<Longrightarrow> n_left (relink (above c) n m s) a = n_left s a \<and> n_right (relink (above c) n m s) a = n_right s a"
    by (auto simp: relink_def)
qed

text \<open>What rotations do not change.\<close>

definition same_rest :: "('k, 'd) avl \<Rightarrow> ('k, 'd) avl \<Rightarrow> bool" where
  "same_rest s s' \<longleftrightarrow> n_bal s' = n_bal s \<and> n_key s' = n_key s \<and> n_data s' = n_data s \<and> av_min s' = av_min s
     \<and> av_count s' = av_count s"

lemma rotate_left_ok:
  assumes "at_hole s c (Node A n (Node B m C))"
  shows "\<exists>s'. RotateLeft n s = Inr (m, s') \<and> at_hole s' c (Node (Node A n B) m C) \<and> same_rest s s'"
proof -
  have c: "hole s c = n" "cok s c" "n \<noteq> 0" "n \<noteq> ROOT" "m \<noteq> 0" "m \<noteq> ROOT" "n_parent s n = above c" "n_left s n = ptr A"
    "n_right s n = m" "n_left s m = ptr B" "n_right s m = ptr C" "n_parent s m = n"
    "rep s n A" "rep s m B" "rep s m C"
    "distinct (inorder A @ n # inorder B @ m # inorder C @ cnodes c)"
    using assms by (auto simp: at_hole_def)
  have tc: "above c \<notin> set (inorder A @ n # inorder B @ m # inorder C)"
    using above_in [of c] c(16) rep_nodes [OF c(13)] rep_nodes [OF c(14)] rep_nodes [OF c(15)] c(4,6) by auto
  have t0: "above c \<noteq> 0" using above_in [of c] cok_nodes [OF c(2)] by (metis insertCI ROOT_def zero_neq_one)
  define P where "P = (if B = Leaf then n_parent s else (n_parent s)(ptr B := n))(m := above c, n := m)"
  define s1 where "s1 = s\<lparr>n_right := (n_right s)(n := ptr B)\<rparr>"
  define s' where "s' = (relink (above c) n m s1)\<lparr>n_left := (n_left (relink (above c) n m s1))(m := n), n_parent := P\<rparr>"
  have b: "B \<noteq> Leaf \<Longrightarrow> ptr B \<noteq> n \<and> ptr B \<noteq> m \<and> ptr B \<noteq> 0"
    using c(14,16) by (cases B) auto
  have "RotateLeft n s = Inr (m, s')"
    using c(3,5,7,9,10) t0 b
    by (cases "B = Leaf"; cases "n_left s (above c) = n") (auto simp: RotateLeft_def Let_def s'_def s1_def P_def relink_def)
  let ?r = "relink (above c) n m s1"
  have s1: "cok s1 c" "hole s1 c = n" "aside s1 c = aside s c"
  proof -
    show "cok s1 c" by (rule cok_keep_all [OF c(2)]) (use c(4,16) in \<open>auto simp: s1_def\<close>)
    show "hole s1 c = n" "aside s1 c = aside s c" using c(1) tc by (cases c rule: above.cases; auto simp: s1_def)+
  qed
  have nc: "n \<notin> set (cnodes c)" "m \<notin> set (cnodes c)" "n \<noteq> m" using c(16) by auto
  note r = relink_hole [OF s1(1,2) c(3) nc(1), where m = m]
  have lr: "n_left s' x = (if x = m then n else n_left s x)" "n_right s' x = (if x = n then ptr B else n_right s x)"
    if "x \<noteq> above c" for x
    using r(4) [OF that] by (simp_all add: s'_def s1_def)
  have P: "n_parent s' x = (if x = n then m else if x = m then above c else if x = ptr B \<and> B \<noteq> Leaf then n else n_parent s x)" for x
    by (simp add: s'_def P_def)
  have pB: "B \<noteq> Leaf \<Longrightarrow> ptr B \<in> set (inorder B)" by (rule ptr_in)
  have "hole s' c = m" "aside s' c = aside s c"
    using r(1,2) s1(3) tc by (cases c rule: above.cases; auto simp: s'_def)+
  moreover have "cok s' c"
  proof (rule cok_keep [OF c(2)])
    show "distinct (cnodes c)" using c(16) by simp
    show "n_parent s' a = n_parent s a" if "a \<in> set (cnodes c)" for a
      using that nc c(16) pB by (auto simp: P)
    show "n_left s' a = n_left s a \<and> n_right s' a = n_right s a" if "a \<in> insert ROOT (set (cnodes c))" "a \<noteq> above c" for a
      using lr [OF that(2)] that(1) nc c(4,6) by auto
    show "aside s' c = aside s c" by fact
  qed
  moreover have kids: "n_left s' x = n_left s x \<and> n_right s' x = n_right s x" "x \<noteq> n" "x \<noteq> m"
    if "x \<in> set (inorder A) \<union> set (inorder B) \<union> set (inorder C)" for x
  proof -
    show x: "x \<noteq> n" "x \<noteq> m" using that c(16) by auto
    have "x \<noteq> above c" using that tc by auto
    then show "n_left s' x = n_left s x \<and> n_right s' x = n_right s x" using lr x by simp
  qed
  moreover have pk: "n_parent s' x = n_parent s x" if "x \<in> set (inorder A) \<union> set (inorder C)" for x
    using that kids [of x] pB c(16) by (auto simp: P)
  moreover have "rep s' n A"
    by (rule rep_keep [OF c(13)]) (use c(16) kids pk in auto)
  moreover have "rep s' n B"
    by (rule rep_move [OF c(14)]) (use c(16) kids P in auto)
  moreover have "rep s' m C"
    by (rule rep_keep [OF c(15)]) (use c(16) kids pk in auto)
  ultimately have "at_hole s' c (Node (Node A n B) m C)"
    using c tc nc lr P by (simp add: at_hole_def)
  moreover have "same_rest s s'" by (simp add: same_rest_def s'_def s1_def relink_def)
  ultimately show ?thesis using \<open>RotateLeft n s = Inr (m, s')\<close> by blast
qed

lemma rotate_right_ok:
  assumes "at_hole s c (Node (Node A m B) n C)"
  shows "\<exists>s'. RotateRight n s = Inr (m, s') \<and> at_hole s' c (Node A m (Node B n C)) \<and> same_rest s s'"
proof -
  have c: "hole s c = n" "cok s c" "n \<noteq> 0" "n \<noteq> ROOT" "m \<noteq> 0" "m \<noteq> ROOT" "n_parent s n = above c" "n_right s n = ptr C"
    "n_left s n = m" "n_right s m = ptr B" "n_left s m = ptr A" "n_parent s m = n"
    "rep s m A" "rep s m B" "rep s n C"
    "distinct (inorder A @ m # inorder B @ n # inorder C @ cnodes c)"
    using assms by (auto simp: at_hole_def)
  have tc: "above c \<notin> set (inorder A @ m # inorder B @ n # inorder C)"
    using above_in [of c] c(16) rep_nodes [OF c(13)] rep_nodes [OF c(14)] rep_nodes [OF c(15)] c(4,6) by auto
  have t0: "above c \<noteq> 0" using above_in [of c] cok_nodes [OF c(2)] by (metis insertCI ROOT_def zero_neq_one)
  define P where "P = (if B = Leaf then n_parent s else (n_parent s)(ptr B := n))(m := above c, n := m)"
  define s1 where "s1 = s\<lparr>n_left := (n_left s)(n := ptr B)\<rparr>"
  define s' where "s' = (relink (above c) n m s1)\<lparr>n_right := (n_right (relink (above c) n m s1))(m := n), n_parent := P\<rparr>"
  have b: "B \<noteq> Leaf \<Longrightarrow> ptr B \<noteq> n \<and> ptr B \<noteq> m \<and> ptr B \<noteq> 0"
    using c(14,16) by (cases B) auto
  have "RotateRight n s = Inr (m, s')"
    using c(3,5,7,9,10) t0 b
    by (cases "B = Leaf"; cases "n_left s (above c) = n") (auto simp: RotateRight_def Let_def s'_def s1_def P_def relink_def)
  let ?r = "relink (above c) n m s1"
  have s1: "cok s1 c" "hole s1 c = n" "aside s1 c = aside s c"
  proof -
    show "cok s1 c" by (rule cok_keep_all [OF c(2)]) (use c(4,16) in \<open>auto simp: s1_def\<close>)
    show "hole s1 c = n" "aside s1 c = aside s c" using c(1) tc by (cases c rule: above.cases; auto simp: s1_def)+
  qed
  have nc: "n \<notin> set (cnodes c)" "m \<notin> set (cnodes c)" "n \<noteq> m" using c(16) by auto
  note r = relink_hole [OF s1(1,2) c(3) nc(1), where m = m]
  have lr: "n_right s' x = (if x = m then n else n_right s x)" "n_left s' x = (if x = n then ptr B else n_left s x)"
    if "x \<noteq> above c" for x
    using r(4) [OF that] by (simp_all add: s'_def s1_def)
  have P: "n_parent s' x = (if x = n then m else if x = m then above c else if x = ptr B \<and> B \<noteq> Leaf then n else n_parent s x)" for x
    by (simp add: s'_def P_def)
  have pB: "B \<noteq> Leaf \<Longrightarrow> ptr B \<in> set (inorder B)" by (rule ptr_in)
  have "hole s' c = m" "aside s' c = aside s c"
    using r(1,2) s1(3) tc by (cases c rule: above.cases; auto simp: s'_def)+
  moreover have "cok s' c"
  proof (rule cok_keep [OF c(2)])
    show "distinct (cnodes c)" using c(16) by simp
    show "n_parent s' a = n_parent s a" if "a \<in> set (cnodes c)" for a
      using that nc c(16) pB by (auto simp: P)
    show "n_left s' a = n_left s a \<and> n_right s' a = n_right s a" if "a \<in> insert ROOT (set (cnodes c))" "a \<noteq> above c" for a
      using lr [OF that(2)] that(1) nc c(4,6) by auto
    show "aside s' c = aside s c" by fact
  qed
  moreover have kids: "n_left s' x = n_left s x \<and> n_right s' x = n_right s x" "x \<noteq> n" "x \<noteq> m"
    if "x \<in> set (inorder A) \<union> set (inorder B) \<union> set (inorder C)" for x
  proof -
    show x: "x \<noteq> n" "x \<noteq> m" using that c(16) by auto
    have "x \<noteq> above c" using that tc by auto
    then show "n_left s' x = n_left s x \<and> n_right s' x = n_right s x" using lr x by simp
  qed
  moreover have pk: "n_parent s' x = n_parent s x" if "x \<in> set (inorder A) \<union> set (inorder C)" for x
    using that kids [of x] pB c(16) by (auto simp: P)
  moreover have "rep s' m A"
    by (rule rep_keep [OF c(13)]) (use c(16) kids pk in auto)
  moreover have "rep s' n B"
    by (rule rep_move [OF c(14)]) (use c(16) kids P in auto)
  moreover have "rep s' n C"
    by (rule rep_keep [OF c(15)]) (use c(16) kids pk in auto)
  ultimately have "at_hole s' c (Node A m (Node B n C))"
    using c tc nc lr P by (simp add: at_hole_def)
  moreover have "same_rest s s'" by (simp add: same_rest_def s'_def s1_def relink_def)
  ultimately show ?thesis using \<open>RotateRight n s = Inr (m, s')\<close> by blast
qed

subsection \<open>Balance\<close>

text \<open>The height of a tree without the node x, which has at most one child.\<close>

fun vh :: "nat \<Rightarrow> nat tree \<Rightarrow> int" where
  "vh x Leaf = 0"
| "vh x (Node l a r) = (if a = x then max (vh x l) (vh x r) else 1 + max (vh x l) (vh x r))"

fun bok :: "(nat \<Rightarrow> int) \<Rightarrow> nat \<Rightarrow> nat tree \<Rightarrow> bool" where
  "bok b x Leaf \<longleftrightarrow> True"
| "bok b x (Node l a r) \<longleftrightarrow> bok b x l \<and> bok b x r \<and> (a \<noteq> x \<longrightarrow> b a = vh x r - vh x l \<and> \<bar>b a\<bar> \<le> 1)"

text \<open>The frames above are balanced when the tree in the hole has height h.\<close>

fun cbok :: "(nat \<Rightarrow> int) \<Rightarrow> nat \<Rightarrow> int \<Rightarrow> crumb list \<Rightarrow> bool" where
  "cbok b x h [] \<longleftrightarrow> True"
| "cbok b x h (InLeft a r # c) \<longleftrightarrow> a \<noteq> x \<and> bok b x r \<and> b a = vh x r - h \<and> \<bar>b a\<bar> \<le> 1
     \<and> cbok b x (1 + max h (vh x r)) c"
| "cbok b x h (InRight l a # c) \<longleftrightarrow> a \<noteq> x \<and> bok b x l \<and> b a = h - vh x l \<and> \<bar>b a\<bar> \<le> 1
     \<and> cbok b x (1 + max (vh x l) h) c"

text \<open>The node x has at most one child.\<close>

fun narrow :: "nat \<Rightarrow> nat tree \<Rightarrow> bool" where
  "narrow x Leaf \<longleftrightarrow> True"
| "narrow x (Node l a r) \<longleftrightarrow> narrow x l \<and> narrow x r \<and> (a = x \<longrightarrow> l = Leaf \<or> r = Leaf)"

lemma narrow_absent: "x \<notin> set (inorder t) \<Longrightarrow> narrow x t"
  by (induction t) auto

lemma narrow_plug: "x \<notin> set (cnodes c) \<Longrightarrow> narrow x (plug c t) \<longleftrightarrow> narrow x t"
proof (induction c arbitrary: t)
  case (Cons f c)
  then show ?case by (cases f) (auto simp: narrow_absent)
qed simp

lemma vh_nonneg: "0 \<le> vh x t"
  by (induction t) auto

lemma vh_zero: "x \<notin> set (inorder t) \<Longrightarrow> vh x t = 0 \<longleftrightarrow> t = Leaf"
proof (cases t)
  case (Node l a r)
  moreover assume "x \<notin> set (inorder t)"
  ultimately show ?thesis using vh_nonneg [of x l] by auto
qed simp

lemma bok_cong: "(\<And>a. a \<in> set (inorder t) \<Longrightarrow> b' a = b a) \<Longrightarrow> bok b' x t = bok b x t"
  by (induction t) auto

lemma cbok_cong: "(\<And>a. a \<in> set (cnodes c) \<Longrightarrow> b' a = b a) \<Longrightarrow> cbok b' x h c = cbok b x h c"
proof (induction c arbitrary: h)
  case (Cons f c)
  show ?case
  proof (cases f)
    case (InLeft a r)
    have "bok b' x r = bok b x r" by (rule bok_cong) (use Cons.prems InLeft in auto)
    then show ?thesis using Cons InLeft by simp
  next
    case (InRight l a)
    have "bok b' x l = bok b x l" by (rule bok_cong) (use Cons.prems InRight in auto)
    then show ?thesis using Cons InRight by simp
  qed
qed simp

lemma bok_plug: "x \<notin> set (cnodes c) \<Longrightarrow> bok b x (plug c t) \<longleftrightarrow> bok b x t \<and> cbok b x (vh x t) c"
proof (induction c arbitrary: t)
  case (Cons f c)
  then show ?case by (cases f) auto
qed simp

lemma set_bal_simps [simp]:
  "n_parent (set_bal a b s) = n_parent s" "n_left (set_bal a b s) = n_left s" "n_right (set_bal a b s) = n_right s"
  "n_bal (set_bal a b s) = (n_bal s)(a := b)" "n_key (set_bal a b s) = n_key s" "n_data (set_bal a b s) = n_data s"
  "av_min (set_bal a b s) = av_min s" "av_count (set_bal a b s) = av_count s"
  by (simp_all add: set_bal_def)

lemma at_hole_shape:
  assumes "n_parent s' = n_parent s" "n_left s' = n_left s" "n_right s' = n_right s"
  shows "at_hole s' c t = at_hole s c t"
proof -
  have r: "rep s' p u = rep s p u" for p u by (induction u arbitrary: p) (simp_all add: assms)
  have "hole s' d = hole s d" for d by (cases d rule: above.cases) (simp_all add: assms)
  moreover from this have "cok s' d = cok s d" for d
  proof (induction d)
    case (Cons f d)
    then show ?case by (cases f) (simp_all add: r assms)
  qed (simp add: assms)
  ultimately show ?thesis by (simp add: at_hole_def r)
qed

text \<open>What operations on links and balances do not change.\<close>

definition same_keys :: "('k, 'd) avl \<Rightarrow> ('k, 'd) avl \<Rightarrow> bool" where
  "same_keys s s' \<longleftrightarrow> n_key s' = n_key s \<and> n_data s' = n_data s \<and> av_min s' = av_min s \<and> av_count s' = av_count s"

lemma double_right_ok:
  assumes "at_hole s c (Node (Node A q (Node B m C)) p r)" "n_bal s m \<in> {- 1, 0, 1}"
  shows "\<exists>s'. double_right p s = Inr (m, s') \<and> at_hole s' c (Node (Node A q B) m (Node C p r)) \<and> same_keys s s'
     \<and> n_bal s' = (n_bal s)(m := 0, q := (if n_bal s m = 1 then - 1 else 0), p := (if n_bal s m = - 1 then 1 else 0))"
proof -
  have l: "n_left s p = q" "n_right s q = m" "q \<noteq> 0" "m \<noteq> 0" "distinct [q, m, p]" using assms(1) by (auto simp: at_hole_def)
  have "at_hole s (InLeft p r # c) (Node A q (Node B m C))" using assms(1) by (simp add: at_hole_step)
  from rotate_left_ok [OF this] obtain s1 where s1: "RotateLeft q s = Inr (m, s1)"
    "at_hole s1 c (Node (Node (Node A q B) m C) p r)" "same_rest s s1" by (auto simp: at_hole_step)
  from rotate_right_ok [OF s1(2)] obtain s2 where s2: "RotateRight p s1 = Inr (m, s2)"
    "at_hole s2 c (Node (Node A q B) m (Node C p r))" "same_rest s1 s2" by auto
  have lr: "n_left s2 m = q" "n_right s2 m = p" using s2(2) by (auto simp: at_hole_def)
  let ?s = "switch_balance (n_bal s m) m (set_bal m 0 s2)"
  have b: "n_bal s2 = n_bal s" using s1(3) s2(3) by (simp add: same_rest_def)
  have "double_right p s = Inr (m, ?s)" using l s1(1) s2(1) by (simp add: double_right_def)
  moreover have "at_hole ?s c (Node (Node A q B) m (Node C p r))"
    using s2(2) by (subst at_hole_shape [of _ s2]) (simp_all add: switch_balance_def Let_def)
  moreover have "same_keys s ?s"
    using s1(3) s2(3) by (simp add: same_keys_def same_rest_def switch_balance_def Let_def)
  moreover have "n_bal ?s = (n_bal s)(m := 0, q := (if n_bal s m = 1 then - 1 else 0), p := (if n_bal s m = - 1 then 1 else 0))"
    using assms(2) l(5) by (auto simp: switch_balance_def Let_def lr b fun_eq_iff)
  ultimately show ?thesis by blast
qed

lemma double_left_ok:
  assumes "at_hole s c (Node A q (Node (Node B m C) p r))" "n_bal s m \<in> {- 1, 0, 1}"
  shows "\<exists>s'. double_left q s = Inr (m, s') \<and> at_hole s' c (Node (Node A q B) m (Node C p r)) \<and> same_keys s s'
     \<and> n_bal s' = (n_bal s)(m := 0, q := (if n_bal s m = 1 then - 1 else 0), p := (if n_bal s m = - 1 then 1 else 0))"
proof -
  have l: "n_right s q = p" "n_left s p = m" "p \<noteq> 0" "m \<noteq> 0" "distinct [q, m, p]" using assms(1) by (auto simp: at_hole_def)
  have "at_hole s (InRight A q # c) (Node (Node B m C) p r)" using assms(1) by (simp add: at_hole_step)
  from rotate_right_ok [OF this] obtain s1 where s1: "RotateRight p s = Inr (m, s1)"
    "at_hole s1 c (Node A q (Node B m (Node C p r)))" "same_rest s s1" by (auto simp: at_hole_step)
  from rotate_left_ok [OF s1(2)] obtain s2 where s2: "RotateLeft q s1 = Inr (m, s2)"
    "at_hole s2 c (Node (Node A q B) m (Node C p r))" "same_rest s1 s2" by auto
  have lr: "n_left s2 m = q" "n_right s2 m = p" using s2(2) by (auto simp: at_hole_def)
  let ?s = "switch_balance (n_bal s m) m (set_bal m 0 s2)"
  have b: "n_bal s2 = n_bal s" using s1(3) s2(3) by (simp add: same_rest_def)
  have "double_left q s = Inr (m, ?s)" using l s1(1) s2(1) by (simp add: double_left_def)
  moreover have "at_hole ?s c (Node (Node A q B) m (Node C p r))"
    using s2(2) by (subst at_hole_shape [of _ s2]) (simp_all add: switch_balance_def Let_def)
  moreover have "same_keys s ?s"
    using s1(3) s2(3) by (simp add: same_keys_def same_rest_def switch_balance_def Let_def)
  moreover have "n_bal ?s = (n_bal s)(m := 0, q := (if n_bal s m = 1 then - 1 else 0), p := (if n_bal s m = - 1 then 1 else 0))"
    using assms(2) l(5) by (auto simp: switch_balance_def Let_def lr b fun_eq_iff)
  ultimately show ?thesis by blast
qed

text \<open>
  Repairing a node p whose left side is two higher: afterwards the place holds a balanced tree with the same
  nodes in the same order, of the height the left side had or, when its root leans right, one more.
\<close>

definition repaired :: "nat \<Rightarrow> ('k, 'd) avl \<Rightarrow> crumb list \<Rightarrow> nat tree \<Rightarrow> int \<Rightarrow> nat \<times> ('k, 'd) avl \<Rightarrow> int \<Rightarrow> bool \<Rightarrow> bool" where
  "repaired x s c t h qs d z \<longleftrightarrow> (\<exists>T. ptr T = fst qs \<and> at_hole (snd qs) c T \<and> inorder T = inorder t \<and> bok (n_bal (snd qs)) x T
     \<and> vh x T = (if z then h + 1 else h) \<and> n_bal (snd qs) (fst qs) = (if z then d else 0) \<and> same_keys s (snd qs)
     \<and> (narrow x t \<longrightarrow> narrow x T)
     \<and> (\<forall>a. a \<notin> set (inorder t) \<longrightarrow> n_bal (snd qs) a = n_bal s a))"

lemma fix_left_ok:
  assumes h: "at_hole s c (Node (Node A q B) p r)" and x: "x \<notin> set (inorder (Node A q B))" "p \<noteq> x"
    and b: "bok (n_bal s) x (Node A q B)" "bok (n_bal s) x r" "vh x (Node A q B) = vh x r + 2"
  shows "\<exists>qs. FixDeleteLeftImbalance p s = Inr qs \<and> repaired x s c (Node (Node A q B) p r) (vh x (Node A q B)) qs 1 (n_bal s q = 0)"
proof -
  have q: "n_left s p = q" "q \<noteq> 0" "distinct (inorder A @ q # inorder B @ p # inorder r)" using h by (auto simp: at_hole_def)
  have qx: "q \<noteq> x" "x \<notin> set (inorder A)" "x \<notin> set (inorder B)" using x by auto
  have bq: "n_bal s q = vh x B - vh x A" "\<bar>n_bal s q\<bar> \<le> 1" "bok (n_bal s) x A" "bok (n_bal s) x B" using b(1) qx(1) by auto
  have hh: "1 + max (vh x A) (vh x B) = vh x r + 2" using b(3) qx(1) by simp
  have out: "bok b' x u = bok (n_bal s) x u"
    if "u = A \<or> u = B \<or> u = r" "\<And>a. a \<noteq> q \<Longrightarrow> a \<noteq> p \<Longrightarrow> b' a = n_bal s a" for b' u
  proof (rule bok_cong)
    fix a assume "a \<in> set (inorder u)"
    then have "a \<noteq> q" "a \<noteq> p" using that(1) q(3) by auto
    then show "b' a = n_bal s a" by (rule that(2))
  qed
  consider "n_bal s q = - 1" | "n_bal s q = 0" | "n_bal s q = 1" using bq(2) by force
  then show ?thesis
  proof cases
    case 1
    obtain s1 where s1: "RotateRight p s = Inr (q, s1)" "at_hole s1 c (Node A q (Node B p r))" "same_rest s s1"
      using rotate_right_ok [OF h] by blast
    have pr: "n_right s1 q = p" using s1(2) by (simp add: at_hole_def)
    let ?s = "set_bal q 0 (set_bal p 0 s1)"
    have s1b: "n_bal s1 = n_bal s" and pq: "p \<noteq> q" using s1(3) q(3) by (auto simp: same_rest_def)
    have nb: "n_bal ?s = (n_bal s)(p := 0, q := 0)" using s1b by simp
    have o: "bok ((n_bal s)(p := 0, q := 0)) x u = bok (n_bal s) x u" if "u = A \<or> u = B \<or> u = r" for u
      by (rule out [OF that]) simp
    have "FixDeleteLeftImbalance p s = Inr (q, ?s)" using 1 q(1,2) s1(1) pr by (simp add: FixDeleteLeftImbalance_def)
    moreover have "repaired x s c (Node (Node A q B) p r) (vh x (Node A q B)) (q, ?s) 1 (n_bal s q = 0)"
      unfolding repaired_def
    proof (intro exI [of _ "Node A q (Node B p r)"] conjI)
      show "at_hole (snd (q, ?s)) c (Node A q (Node B p r))" using s1(2) by (subst at_hole_shape [of _ s1]) simp_all
      show "bok (n_bal (snd (q, ?s))) x (Node A q (Node B p r))"
        using 1 bq hh b(2) x(2) qx pq by (simp add: s1b o)
      show "same_keys s (snd (q, ?s))" using s1(3) by (simp add: same_keys_def same_rest_def)
      show "vh x (Node A q (Node B p r)) = (if n_bal s q = 0 then vh x (Node A q B) + 1 else vh x (Node A q B))"
        using 1 bq(1) hh x(2) qx(1) by (simp add: nb)
      show "\<forall>a. a \<notin> set (inorder (Node (Node A q B) p r)) \<longrightarrow> n_bal (snd (q, ?s)) a = n_bal s a" by (simp add: s1b)
      show "n_bal (snd (q, ?s)) (fst (q, ?s)) = (if n_bal s q = 0 then 1 else 0)" using pq 1 by simp
    qed (use x qx in simp_all)
    ultimately show ?thesis by blast
  next
    case 2
    obtain s1 where s1: "RotateRight p s = Inr (q, s1)" "at_hole s1 c (Node A q (Node B p r))" "same_rest s s1"
      using rotate_right_ok [OF h] by blast
    have pr: "n_right s1 q = p" using s1(2) by (simp add: at_hole_def)
    let ?s = "set_bal p (- 1) (set_bal q 1 s1)"
    have s1b: "n_bal s1 = n_bal s" and pq: "p \<noteq> q" using s1(3) q(3) by (auto simp: same_rest_def)
    have nb: "n_bal ?s = (n_bal s)(q := 1, p := - 1)" using s1b by simp
    have o: "bok ((n_bal s)(q := 1, p := - 1)) x u = bok (n_bal s) x u" if "u = A \<or> u = B \<or> u = r" for u
      by (rule out [OF that]) simp
    have "FixDeleteLeftImbalance p s = Inr (q, ?s)" using 2 q(1,2) s1(1) pr by (simp add: FixDeleteLeftImbalance_def)
    moreover have "repaired x s c (Node (Node A q B) p r) (vh x (Node A q B)) (q, ?s) 1 (n_bal s q = 0)"
      unfolding repaired_def
    proof (intro exI [of _ "Node A q (Node B p r)"] conjI)
      show "at_hole (snd (q, ?s)) c (Node A q (Node B p r))" using s1(2) by (subst at_hole_shape [of _ s1]) simp_all
      show "bok (n_bal (snd (q, ?s))) x (Node A q (Node B p r))"
        using 2 bq hh b(2) x(2) qx pq by (simp add: s1b o)
      show "same_keys s (snd (q, ?s))" using s1(3) by (simp add: same_keys_def same_rest_def)
      show "vh x (Node A q (Node B p r)) = (if n_bal s q = 0 then vh x (Node A q B) + 1 else vh x (Node A q B))"
        using 2 bq(1) hh x(2) qx(1) pq by (simp add: nb)
      show "\<forall>a. a \<notin> set (inorder (Node (Node A q B) p r)) \<longrightarrow> n_bal (snd (q, ?s)) a = n_bal s a" by (simp add: s1b)
      show "n_bal (snd (q, ?s)) (fst (q, ?s)) = (if n_bal s q = 0 then 1 else 0)" using pq 2 by simp
    qed (use x qx in simp_all)
    ultimately show ?thesis by blast
  next
    case 3
    then have "vh x B = 1 + vh x A" using bq by simp
    then have "B \<noteq> Leaf" using vh_nonneg [of x A] by auto
    then obtain B1 m B2 where B: "B = Node B1 m B2" by (cases B) auto
    have m: "m \<noteq> x" "n_bal s m = vh x B2 - vh x B1" "\<bar>n_bal s m\<bar> \<le> 1" "bok (n_bal s) x B1" "bok (n_bal s) x B2"
      using bq(4) qx(3) by (auto simp: B)
    then have mb: "n_bal s m \<in> {- 1, 0, 1}" by auto
    obtain s1 where s1: "double_right p s = Inr (m, s1)" "at_hole s1 c (Node (Node A q B1) m (Node B2 p r))" "same_keys s s1"
      "n_bal s1 = (n_bal s)(m := 0, q := (if n_bal s m = 1 then - 1 else 0), p := (if n_bal s m = - 1 then 1 else 0))"
      using double_right_ok [OF h [unfolded B] mb] by blast
    have d: "m \<notin> set (inorder A)" "m \<notin> set (inorder B1)" "m \<notin> set (inorder B2)" "m \<notin> set (inorder r)" "m \<noteq> p" "m \<noteq> q" "p \<noteq> q"
      "q \<notin> set (inorder B1)" "q \<notin> set (inorder B2)" "p \<notin> set (inorder B1)" "p \<notin> set (inorder B2)"
      "q \<notin> set (inorder A)" "p \<notin> set (inorder A)" "q \<notin> set (inorder r)" "p \<notin> set (inorder r)"
      using q(3) by (auto simp: B)
    have o: "bok (n_bal s1) x u = bok (n_bal s) x u" if "u = A \<or> u = B1 \<or> u = B2 \<or> u = r" for u
      by (rule bok_cong) (use that d s1(4) in auto)
    have "FixDeleteLeftImbalance p s = Inr (m, s1)" using 3 q(1,2) s1(1) by (simp add: FixDeleteLeftImbalance_def)
    moreover have "repaired x s c (Node (Node A q B) p r) (vh x (Node A q B)) (m, s1) 1 (n_bal s q = 0)"
      unfolding repaired_def
    proof (intro exI [of _ "Node (Node A q B1) m (Node B2 p r)"] conjI)
      have hB: "max (vh x B1) (vh x B2) = vh x A" "vh x r = vh x A" using 3 bq(1) m(1) hh by (auto simp: B)
      then have v: "vh x B1 = (if n_bal s m = 1 then vh x A - 1 else vh x A)" "vh x B2 = (if n_bal s m = - 1 then vh x A - 1 else vh x A)"
        using m(2,3) by (auto simp: max_def split: if_splits)
      show "bok (n_bal (snd (m, s1))) x (Node (Node A q B1) m (Node B2 p r))"
        using o [of A] o [of B1] o [of B2] o [of r] m(1,4,5) bq(3) b(2) d(5-7) x(2) qx(1) mb
        by (simp, intro conjI impI) (simp_all add: s1(4) v hB(2))
      show "vh x (Node (Node A q B1) m (Node B2 p r))
          = (if n_bal s q = 0 then vh x (Node A q B) + 1 else vh x (Node A q B))"
        using 3 hB v m(1) x(2) qx(1) by (simp add: B max_def)
      show "\<forall>a. a \<notin> set (inorder (Node (Node A q B) p r)) \<longrightarrow> n_bal (snd (m, s1)) a = n_bal s a" by (simp add: s1(4) B)
      show "n_bal (snd (m, s1)) (fst (m, s1)) = (if n_bal s q = 0 then 1 else 0)" using d(5,6) 3 by (simp add: s1(4))
    qed (use x qx m(1) in \<open>simp_all add: s1(2,3) B\<close>)
    ultimately show ?thesis by blast
  qed
qed

lemma fix_right_ok:
  assumes h: "at_hole s c (Node r p (Node B q A))" and x: "x \<notin> set (inorder (Node B q A))" "p \<noteq> x"
    and b: "bok (n_bal s) x (Node B q A)" "bok (n_bal s) x r" "vh x (Node B q A) = vh x r + 2"
  shows "\<exists>qs. FixDeleteRightImbalance p s = Inr qs \<and> repaired x s c (Node r p (Node B q A)) (vh x (Node B q A)) qs (- 1) (n_bal s q = 0)"
proof -
  have q: "n_right s p = q" "q \<noteq> 0" "distinct (inorder r @ p # inorder B @ q # inorder A)" using h by (auto simp: at_hole_def)
  have qx: "q \<noteq> x" "x \<notin> set (inorder A)" "x \<notin> set (inorder B)" using x by auto
  have bq: "n_bal s q = vh x A - vh x B" "\<bar>n_bal s q\<bar> \<le> 1" "bok (n_bal s) x A" "bok (n_bal s) x B" using b(1) qx(1) by auto
  have hh: "1 + max (vh x B) (vh x A) = vh x r + 2" using b(3) qx(1) by simp
  have out: "bok b' x u = bok (n_bal s) x u"
    if "u = A \<or> u = B \<or> u = r" "\<And>a. a \<noteq> q \<Longrightarrow> a \<noteq> p \<Longrightarrow> b' a = n_bal s a" for b' u
  proof (rule bok_cong)
    fix a assume "a \<in> set (inorder u)"
    then have "a \<noteq> q" "a \<noteq> p" using that(1) q(3) by auto
    then show "b' a = n_bal s a" by (rule that(2))
  qed
  consider "n_bal s q = 1" | "n_bal s q = 0" | "n_bal s q = - 1" using bq(2) by force
  then show ?thesis
  proof cases
    case 1
    obtain s1 where s1: "RotateLeft p s = Inr (q, s1)" "at_hole s1 c (Node (Node r p B) q A)" "same_rest s s1"
      using rotate_left_ok [OF h] by blast
    have pr: "n_left s1 q = p" using s1(2) by (simp add: at_hole_def)
    let ?s = "set_bal q 0 (set_bal p 0 s1)"
    have s1b: "n_bal s1 = n_bal s" and pq: "p \<noteq> q" using s1(3) q(3) by (auto simp: same_rest_def)
    have nb: "n_bal ?s = (n_bal s)(p := 0, q := 0)" using s1b by simp
    have o: "bok ((n_bal s)(p := 0, q := 0)) x u = bok (n_bal s) x u" if "u = A \<or> u = B \<or> u = r" for u
      by (rule out [OF that]) simp
    have "FixDeleteRightImbalance p s = Inr (q, ?s)" using 1 q(1,2) s1(1) pr by (simp add: FixDeleteRightImbalance_def)
    moreover have "repaired x s c (Node r p (Node B q A)) (vh x (Node B q A)) (q, ?s) (- 1) (n_bal s q = 0)"
      unfolding repaired_def
    proof (intro exI [of _ "Node (Node r p B) q A"] conjI)
      show "at_hole (snd (q, ?s)) c (Node (Node r p B) q A)" using s1(2) by (subst at_hole_shape [of _ s1]) simp_all
      show "bok (n_bal (snd (q, ?s))) x (Node (Node r p B) q A)"
        using 1 bq hh b(2) x(2) qx pq by (simp add: s1b o)
      show "same_keys s (snd (q, ?s))" using s1(3) by (simp add: same_keys_def same_rest_def)
      show "vh x (Node (Node r p B) q A) = (if n_bal s q = 0 then vh x (Node B q A) + 1 else vh x (Node B q A))"
        using 1 bq(1) hh x(2) qx(1) by (simp add: nb)
      show "\<forall>a. a \<notin> set (inorder (Node r p (Node B q A))) \<longrightarrow> n_bal (snd (q, ?s)) a = n_bal s a" by (simp add: s1b)
      show "n_bal (snd (q, ?s)) (fst (q, ?s)) = (if n_bal s q = 0 then - 1 else 0)" using pq 1 by simp
    qed (use x qx in simp_all)
    ultimately show ?thesis by blast
  next
    case 2
    obtain s1 where s1: "RotateLeft p s = Inr (q, s1)" "at_hole s1 c (Node (Node r p B) q A)" "same_rest s s1"
      using rotate_left_ok [OF h] by blast
    have pr: "n_left s1 q = p" using s1(2) by (simp add: at_hole_def)
    let ?s = "set_bal p 1 (set_bal q (- 1) s1)"
    have s1b: "n_bal s1 = n_bal s" and pq: "p \<noteq> q" using s1(3) q(3) by (auto simp: same_rest_def)
    have nb: "n_bal ?s = (n_bal s)(q := - 1, p := 1)" using s1b by simp
    have o: "bok ((n_bal s)(q := - 1, p := 1)) x u = bok (n_bal s) x u" if "u = A \<or> u = B \<or> u = r" for u
      by (rule out [OF that]) simp
    have "FixDeleteRightImbalance p s = Inr (q, ?s)" using 2 q(1,2) s1(1) pr by (simp add: FixDeleteRightImbalance_def)
    moreover have "repaired x s c (Node r p (Node B q A)) (vh x (Node B q A)) (q, ?s) (- 1) (n_bal s q = 0)"
      unfolding repaired_def
    proof (intro exI [of _ "Node (Node r p B) q A"] conjI)
      show "at_hole (snd (q, ?s)) c (Node (Node r p B) q A)" using s1(2) by (subst at_hole_shape [of _ s1]) simp_all
      show "bok (n_bal (snd (q, ?s))) x (Node (Node r p B) q A)"
        using 2 bq hh b(2) x(2) qx pq by (simp add: s1b o)
      show "same_keys s (snd (q, ?s))" using s1(3) by (simp add: same_keys_def same_rest_def)
      show "vh x (Node (Node r p B) q A) = (if n_bal s q = 0 then vh x (Node B q A) + 1 else vh x (Node B q A))"
        using 2 bq(1) hh x(2) qx(1) pq by (simp add: nb)
      show "\<forall>a. a \<notin> set (inorder (Node r p (Node B q A))) \<longrightarrow> n_bal (snd (q, ?s)) a = n_bal s a" by (simp add: s1b)
      show "n_bal (snd (q, ?s)) (fst (q, ?s)) = (if n_bal s q = 0 then - 1 else 0)" using pq 2 by simp
    qed (use x qx in simp_all)
    ultimately show ?thesis by blast
  next
    case 3
    then have "vh x B = 1 + vh x A" using bq by simp
    then have "B \<noteq> Leaf" using vh_nonneg [of x A] by auto
    then obtain B1 m B2 where B: "B = Node B1 m B2" by (cases B) auto
    have m: "m \<noteq> x" "n_bal s m = vh x B2 - vh x B1" "\<bar>n_bal s m\<bar> \<le> 1" "bok (n_bal s) x B1" "bok (n_bal s) x B2"
      using bq(4) qx(3) by (auto simp: B)
    then have mb: "n_bal s m \<in> {- 1, 0, 1}" by auto
    obtain s1 where s1: "double_left p s = Inr (m, s1)" "at_hole s1 c (Node (Node r p B1) m (Node B2 q A))" "same_keys s s1"
      "n_bal s1 = (n_bal s)(m := 0, p := (if n_bal s m = 1 then - 1 else 0), q := (if n_bal s m = - 1 then 1 else 0))"
      using double_left_ok [OF h [unfolded B] mb] by blast
    have d: "m \<notin> set (inorder A)" "m \<notin> set (inorder B1)" "m \<notin> set (inorder B2)" "m \<notin> set (inorder r)" "m \<noteq> p" "m \<noteq> q" "p \<noteq> q"
      "q \<notin> set (inorder B1)" "q \<notin> set (inorder B2)" "p \<notin> set (inorder B1)" "p \<notin> set (inorder B2)"
      "q \<notin> set (inorder A)" "p \<notin> set (inorder A)" "q \<notin> set (inorder r)" "p \<notin> set (inorder r)"
      using q(3) by (auto simp: B)
    have o: "bok (n_bal s1) x u = bok (n_bal s) x u" if "u = A \<or> u = B1 \<or> u = B2 \<or> u = r" for u
      by (rule bok_cong) (use that d s1(4) in auto)
    have "FixDeleteRightImbalance p s = Inr (m, s1)" using 3 q(1,2) s1(1) by (simp add: FixDeleteRightImbalance_def)
    moreover have "repaired x s c (Node r p (Node B q A)) (vh x (Node B q A)) (m, s1) (- 1) (n_bal s q = 0)"
      unfolding repaired_def
    proof (intro exI [of _ "Node (Node r p B1) m (Node B2 q A)"] conjI)
      have hB: "max (vh x B1) (vh x B2) = vh x A" "vh x r = vh x A" using 3 bq(1) m(1) hh by (auto simp: B)
      then have v: "vh x B1 = (if n_bal s m = 1 then vh x A - 1 else vh x A)" "vh x B2 = (if n_bal s m = - 1 then vh x A - 1 else vh x A)"
        using m(2,3) by (auto simp: max_def split: if_splits)
      show "bok (n_bal (snd (m, s1))) x (Node (Node r p B1) m (Node B2 q A))"
        using o [of A] o [of B1] o [of B2] o [of r] m(1,4,5) bq(3) b(2) d(5-7) x(2) qx(1) mb
        by (simp, intro conjI impI) (simp_all add: s1(4) v hB(2))
      show "vh x (Node (Node r p B1) m (Node B2 q A))
          = (if n_bal s q = 0 then vh x (Node B q A) + 1 else vh x (Node B q A))"
        using 3 hB v m(1) x(2) qx(1) by (simp add: B max_def)
      show "\<forall>a. a \<notin> set (inorder (Node r p (Node B q A))) \<longrightarrow> n_bal (snd (m, s1)) a = n_bal s a" by (simp add: s1(4) B)
      show "n_bal (snd (m, s1)) (fst (m, s1)) = (if n_bal s q = 0 then - 1 else 0)" using d(5,6) 3 by (simp add: s1(4))
    qed (use x qx m(1) in \<open>simp_all add: s1(2,3) B\<close>)
    ultimately show ?thesis by blast
  qed
qed

subsection \<open>The loop after an insertion\<close>

lemma ptr_plug: "c \<noteq> [] \<Longrightarrow> ptr (plug c t) \<in> set (cnodes c)"
proof (induction c arbitrary: t)
  case (Cons f c)
  then show ?case by (cases "c = []"; cases f) auto
qed simp

lemma at_hole_inner:
  assumes "at_hole s c t" "t \<noteq> Leaf" "c \<noteq> []"
  shows "ptr t \<noteq> First s"
proof -
  have "First s = ptr (plug c t)" using assms(1) by (simp add: at_hole_plug [of s c] at_hole_def [of s "[]"] First_def)
  then have "First s \<in> set (cnodes c)" using ptr_plug [OF assms(3)] by simp
  moreover have "ptr t \<in> set (inorder t)" using ptr_in [OF assms(2)] .
  ultimately show ?thesis using assms(1) by (auto simp: at_hole_def)
qed

lemma at_hole_zero: "at_hole s c t \<Longrightarrow> 0 \<notin> set (inorder t) \<and> 0 \<notin> set (cnodes c)"
  unfolding at_hole_def using rep_nodes cok_nodes by blast

lemma fix_insert_eq:
  "n_bal s p = - 1 \<Longrightarrow> n_bal s (n_left s p) \<in> {- 1, 1} \<Longrightarrow>
     FixInsertLeftImbalance p s = bindf (FixDeleteLeftImbalance p s) (\<lambda>(_, s). Inr s)"
  "n_bal s p = 1 \<Longrightarrow> n_bal s (n_right s p) \<in> {- 1, 1} \<Longrightarrow>
     FixInsertRightImbalance p s = bindf (FixDeleteRightImbalance p s) (\<lambda>(_, s). Inr s)"
  by (auto simp: FixInsertLeftImbalance_def FixDeleteLeftImbalance_def FixInsertRightImbalance_def
      FixDeleteRightImbalance_def bindf_assoc split_def)

definition settled :: "('k, 'd) avl \<Rightarrow> nat list \<Rightarrow> nat \<Rightarrow> ('k, 'd) avl outcome \<Rightarrow> bool" where
  "settled s xs x r \<longleftrightarrow> (\<exists>s' T. r = Some (Inr s') \<and> at_hole s' [] T \<and> inorder T = xs \<and> bok (n_bal s') x T \<and> narrow x T \<and> same_keys s s')"

lemma settled_plug:
  assumes "at_hole s' c t" "bok (n_bal s') x t" "cbok (n_bal s') x (vh x t) c" "x \<notin> set (cnodes c)" "same_keys s s'"
    and "inorder (plug c t) = xs" "narrow x t"
  shows "settled s xs x (Some (Inr s'))"
  unfolding settled_def using assms bok_plug [OF assms(4)] narrow_plug [OF assms(4)] at_hole_plug [of s' c] by blast

lemma narrow_zero: "at_hole s c t \<Longrightarrow> narrow 0 t"
  using at_hole_zero narrow_absent by blast

lemma settled_same: "same_keys s s1 \<Longrightarrow> settled s1 xs x r \<Longrightarrow> settled s xs x r"
  by (auto simp: settled_def same_keys_def)

text \<open>A changed balance factor of the node of the first frame.\<close>

lemma step_bal:
  assumes "at_hole s c (Node t a r)" "bok (n_bal s) x t" "bok (n_bal s) x r" "cbok (n_bal s) x h c"
    and "v = vh x r - vh x t" "\<bar>v\<bar> \<le> 1" "a \<noteq> x"
  shows "at_hole (set_bal a v s) c (Node t a r)" "bok (n_bal (set_bal a v s)) x (Node t a r)"
    "cbok (n_bal (set_bal a v s)) x h c" "same_keys s (set_bal a v s)"
proof -
  have d: "a \<notin> set (inorder t)" "a \<notin> set (inorder r)" "a \<notin> set (cnodes c)" using assms(1) by (auto simp: at_hole_def)
  show "at_hole (set_bal a v s) c (Node t a r)" using assms(1) by (subst at_hole_shape [of _ s]) simp_all
  have "bok (n_bal (set_bal a v s)) x t = bok (n_bal s) x t" by (rule bok_cong) (use d in auto)
  moreover have "bok (n_bal (set_bal a v s)) x r = bok (n_bal s) x r" by (rule bok_cong) (use d in auto)
  ultimately show "bok (n_bal (set_bal a v s)) x (Node t a r)" using assms by simp
  have "cbok (n_bal (set_bal a v s)) x h c = cbok (n_bal s) x h c" by (rule cbok_cong) (use d in auto)
  then show "cbok (n_bal (set_bal a v s)) x h c" using assms(4) by simp
  show "same_keys s (set_bal a v s)" by (simp add: same_keys_def)
qed

text \<open>The effect of a repair on the frames above it.\<close>

lemma repaired_above:
  assumes "repaired x s c t h (q, s1) d z" "at_hole s c t" "cbok (n_bal s) x g c"
  obtains T where "at_hole s1 c T" "inorder T = inorder t" "bok (n_bal s1) x T" "ptr T = q" "cbok (n_bal s1) x g c"
    "vh x T = (if z then h + 1 else h)" "n_bal s1 q = (if z then d else 0)" "same_keys s s1" "narrow x t \<longrightarrow> narrow x T"
proof -
  obtain T where T: "at_hole s1 c T" "inorder T = inorder t" "bok (n_bal s1) x T" "ptr T = q"
    "vh x T = (if z then h + 1 else h)" "n_bal s1 q = (if z then d else 0)" "same_keys s s1"
    "\<forall>a. a \<notin> set (inorder t) \<longrightarrow> n_bal s1 a = n_bal s a" "narrow x t \<longrightarrow> narrow x T"
    using assms(1) unfolding repaired_def fst_conv snd_conv by blast
  have "a \<notin> set (inorder t)" if "a \<in> set (cnodes c)" for a using that assms(2) by (auto simp: at_hole_def)
  then have "cbok (n_bal s1) x g c = cbok (n_bal s) x g c" by (intro cbok_cong) (use T(8) in auto)
  with T assms(3) that show ?thesis by blast
qed

lemma insert_fix_ok:
  "at_hole s c t \<Longrightarrow> t \<noteq> Leaf \<Longrightarrow> bok (n_bal s) 0 t \<Longrightarrow> cbok (n_bal s) 0 (vh 0 t - 1) c
    \<Longrightarrow> vh 0 t = 1 \<or> n_bal s (ptr t) \<noteq> 0 \<Longrightarrow> settled s (inorder (plug c t)) 0 (insert_fix (ptr t) (above c) s)"
proof (induction c arbitrary: s t)
  case Nil
  then have "ptr t = First s" by (simp add: at_hole_def First_def)
  then have "insert_fix (ptr t) (above []) s = Some (Inr s)" by (subst insert_fix.simps) simp
  then show ?case using Nil.prems by (simp add: settled_plug [of s "[]" t] same_keys_def narrow_zero [of s "[]"])
next
  case (Cons f c)
  note z = at_hole_zero [OF Cons.prems(1)]
  have nf: "ptr t \<noteq> First s" by (rule at_hole_inner [OF Cons.prems(1,2)]) simp
  have h1: "1 \<le> vh 0 t"
  proof -
    have "0 \<notin> set (inorder t)" using z by simp
    then show ?thesis using vh_zero [of 0 t] vh_nonneg [of 0 t] Cons.prems(2) by linarith
  qed
  show ?case
  proof (cases f)
    case (InLeft a r)
    have H: "at_hole s c (Node t a r)" using Cons.prems(1) by (simp add: InLeft at_hole_step)
    have a: "a \<noteq> 0" "n_left s a = ptr t" "n_parent s a = above c" "0 \<notin> set (cnodes c)" "0 \<notin> set (inorder r)"
      using H at_hole_zero [OF H] by (auto simp: at_hole_def)
    have b: "bok (n_bal s) 0 r" "n_bal s a = vh 0 r - (vh 0 t - 1)" "\<bar>n_bal s a\<bar> \<le> 1"
      "cbok (n_bal s) 0 (1 + max (vh 0 t - 1) (vh 0 r)) c" using Cons.prems(4) by (auto simp: InLeft)
    have pl: "plug (f # c) t = plug c (Node t a r)" "above (f # c) = a" by (simp_all add: InLeft)
    consider "n_bal s a = 1" | "n_bal s a = 0" | "n_bal s a = - 1" using b(3) by force
    then show ?thesis
    proof cases
      case 1
      then have e: "insert_fix (ptr t) a s = Some (Inr (set_bal a 0 s))" using nf a(2) by (subst insert_fix.simps) simp
      have v: "vh 0 t = vh 0 r" using b(2) 1 by simp
      note sb = step_bal [OF H Cons.prems(3) b(1) b(4), of 0]
      have "cbok (n_bal (set_bal a 0 s)) 0 (vh 0 (Node t a r)) c" using sb(3) v a(1) by simp
      then show ?thesis unfolding pl e
        by (intro settled_plug [OF sb(1,2)] a(4) sb(4) refl narrow_zero [OF sb(1)]) (use v a(1) in auto)
    next
      case 2
      then have e: "insert_fix (ptr t) a s = insert_fix a (n_parent s a) (set_bal a (- 1) s)"
        using nf a(2) by (subst insert_fix.simps) simp
      have v: "vh 0 t = vh 0 r + 1" using b(2) 2 by simp
      note sb = step_bal [OF H Cons.prems(3) b(1) b(4), of "- 1"]
      have "settled (set_bal a (- 1) s) (inorder (plug c (Node t a r))) 0 (insert_fix (ptr (Node t a r)) (above c) (set_bal a (- 1) s))"
        by (rule Cons.IH) (use sb v a(1) in \<open>simp_all add: fun_upd_same del: fun_upd_apply\<close>)
      then show ?thesis unfolding pl e a(3) using settled_same [of s "set_bal a (- 1) s"] by (simp add: same_keys_def)
    next
      case 3
      then have v: "vh 0 t = vh 0 r + 2" using b(2) by simp
      obtain A q B where t: "t = Node A q B" using Cons.prems(2) by (cases t) auto
      have q: "n_left s a = q" "n_bal s q \<in> {- 1, 1}"
      proof -
        show "n_left s a = q" using a(2) t by simp
        have "\<bar>n_bal s q\<bar> \<le> 1" "n_bal s q \<noteq> 0" using Cons.prems(3,5) z v vh_nonneg [of 0 r] by (auto simp: t)
        then show "n_bal s q \<in> {- 1, 1}" by auto
      qed
      have zt: "0 \<notin> set (inorder (Node A q B))" using z t by simp
      obtain q' s1 where s1: "FixDeleteLeftImbalance a s = Inr (q', s1)"
        "repaired 0 s c (Node (Node A q B) a r) (vh 0 (Node A q B)) (q', s1) 1 (n_bal s q = 0)"
        using fix_left_ok [OF H [unfolded t] zt a(1) Cons.prems(3) [unfolded t] b(1) v [unfolded t]] by force
      obtain T where T0: "at_hole s1 c T" "inorder T = inorder (Node (Node A q B) a r)" "bok (n_bal s1) 0 T" "ptr T = q'"
        "cbok (n_bal s1) 0 (1 + max (vh 0 t - 1) (vh 0 r)) c" "vh 0 T = (if n_bal s q = 0 then vh 0 (Node A q B) + 1 else vh 0 (Node A q B))"
        "n_bal s1 q' = (if n_bal s q = 0 then 1 else 0)" "same_keys s s1"
        "narrow 0 (Node (Node A q B) a r) \<longrightarrow> narrow 0 T"
        by (rule repaired_above [OF s1(2) H [unfolded t] b(4)])
      have nq: "n_bal s q \<noteq> 0" using q(2) by auto
      have "vh 0 T = vh 0 (Node A q B)" using T0(6) nq by (simp only: if_False)
      note T = T0(1,2,3,5) this T0(8)
      have e: "insert_fix (ptr t) a s = Some (Inr s1)"
        using nf a(2) 3 fix_insert_eq(1) [OF 3] q s1(1) by (subst insert_fix.simps) simp
      have "1 + max (vh 0 t - 1) (vh 0 r) = vh 0 T" using T(5) v unfolding t by linarith
      then have "cbok (n_bal s1) 0 (vh 0 T) c" using T(4) by simp
      then show ?thesis unfolding pl e
        by (intro settled_plug [OF T(1,3)] a(4) T(6) inorder_plug_cong narrow_zero [OF T(1)]) (simp_all add: T(2) t)
    qed
  next
    case (InRight l a)
    have H: "at_hole s c (Node l a t)" using Cons.prems(1) by (simp add: InRight at_hole_step)
    have a: "a \<noteq> 0" "n_right s a = ptr t" "n_parent s a = above c" "0 \<notin> set (cnodes c)" "0 \<notin> set (inorder l)"
      "n_left s a = ptr l"
      using H at_hole_zero [OF H] by (auto simp: at_hole_def)
    have nl: "ptr t \<noteq> n_left s a"
    proof -
      have "ptr t \<in> set (inorder t)" using Cons.prems(2) by (rule ptr_in)
      then show ?thesis using H ptr_in [of l] z unfolding a(6) by (cases "l = Leaf") (auto simp: at_hole_def)
    qed
    have b: "bok (n_bal s) 0 l" "n_bal s a = (vh 0 t - 1) - vh 0 l" "\<bar>n_bal s a\<bar> \<le> 1"
      "cbok (n_bal s) 0 (1 + max (vh 0 l) (vh 0 t - 1)) c" using Cons.prems(4) by (auto simp: InRight)
    have pl: "plug (f # c) t = plug c (Node l a t)" "above (f # c) = a" by (simp_all add: InRight)
    consider "n_bal s a = - 1" | "n_bal s a = 0" | "n_bal s a = 1" using b(3) by force
    then show ?thesis
    proof cases
      case 1
      then have e: "insert_fix (ptr t) a s = Some (Inr (set_bal a 0 s))" using nf nl by (subst insert_fix.simps) simp
      have v: "vh 0 t = vh 0 l" using b(2) 1 by simp
      note sb = step_bal [OF H b(1) Cons.prems(3) b(4), of 0]
      have "cbok (n_bal (set_bal a 0 s)) 0 (vh 0 (Node l a t)) c" using sb(3) v a(1) by simp
      then show ?thesis unfolding pl e
        by (intro settled_plug [OF sb(1,2)] a(4) sb(4) refl narrow_zero [OF sb(1)]) (use v a(1) in auto)
    next
      case 2
      then have e: "insert_fix (ptr t) a s = insert_fix a (n_parent s a) (set_bal a 1 s)"
        using nf nl by (subst insert_fix.simps) simp
      have v: "vh 0 t = vh 0 l + 1" using b(2) 2 by simp
      note sb = step_bal [OF H b(1) Cons.prems(3) b(4), of 1]
      have "settled (set_bal a 1 s) (inorder (plug c (Node l a t))) 0 (insert_fix (ptr (Node l a t)) (above c) (set_bal a 1 s))"
        by (rule Cons.IH) (use sb v a(1) in \<open>simp_all add: fun_upd_same del: fun_upd_apply\<close>)
      then show ?thesis unfolding pl e a(3) using settled_same [of s "set_bal a 1 s"] by (simp add: same_keys_def)
    next
      case 3
      then have v: "vh 0 t = vh 0 l + 2" using b(2) by simp
      obtain B q A where t: "t = Node B q A" using Cons.prems(2) by (cases t) auto
      have q: "n_right s a = q" "n_bal s q \<in> {- 1, 1}"
      proof -
        show "n_right s a = q" using a(2) t by simp
        have "\<bar>n_bal s q\<bar> \<le> 1" "n_bal s q \<noteq> 0" using Cons.prems(3,5) z v vh_nonneg [of 0 l] by (auto simp: t)
        then show "n_bal s q \<in> {- 1, 1}" by auto
      qed
      have zt: "0 \<notin> set (inorder (Node B q A))" using z t by simp
      obtain q' s1 where s1: "FixDeleteRightImbalance a s = Inr (q', s1)"
        "repaired 0 s c (Node l a (Node B q A)) (vh 0 (Node B q A)) (q', s1) (- 1) (n_bal s q = 0)"
        using fix_right_ok [OF H [unfolded t] zt a(1) Cons.prems(3) [unfolded t] b(1) v [unfolded t]] by force
      obtain T where T0: "at_hole s1 c T" "inorder T = inorder (Node l a (Node B q A))" "bok (n_bal s1) 0 T" "ptr T = q'"
        "cbok (n_bal s1) 0 (1 + max (vh 0 l) (vh 0 t - 1)) c" "vh 0 T = (if n_bal s q = 0 then vh 0 (Node B q A) + 1 else vh 0 (Node B q A))"
        "n_bal s1 q' = (if n_bal s q = 0 then (- 1) else 0)" "same_keys s s1"
        "narrow 0 (Node l a (Node B q A)) \<longrightarrow> narrow 0 T"
        by (rule repaired_above [OF s1(2) H [unfolded t] b(4)])
      have nq: "n_bal s q \<noteq> 0" using q(2) by auto
      have "vh 0 T = vh 0 (Node B q A)" using T0(6) nq by (simp only: if_False)
      note T = T0(1,2,3,5) this T0(8)
      have e: "insert_fix (ptr t) a s = Some (Inr s1)"
        using nf nl 3 fix_insert_eq(2) [OF 3] q s1(1) by (subst insert_fix.simps) simp
      have "1 + max (vh 0 l) (vh 0 t - 1) = vh 0 T" using T(5) v unfolding t by linarith
      then have "cbok (n_bal s1) 0 (vh 0 T) c" using T(4) by simp
      then show ?thesis unfolding pl e
        by (intro settled_plug [OF T(1,3)] a(4) T(6) inorder_plug_cong narrow_zero [OF T(1)]) (simp_all add: T(2) t)
    qed
  qed
qed

subsection \<open>The loop before a removal\<close>

lemma remove_fix_ok:
  "at_hole s c t \<Longrightarrow> t \<noteq> Leaf \<Longrightarrow> x \<notin> set (cnodes c) \<Longrightarrow> narrow x t \<Longrightarrow> bok (n_bal s) x t
    \<Longrightarrow> cbok (n_bal s) x (vh x t + 1) c \<Longrightarrow> settled s (inorder (plug c t)) x (remove_fix (ptr t) (above c) s)"
proof (induction c arbitrary: s t)
  case Nil
  then have "ptr t = First s" by (simp add: at_hole_def First_def)
  then have "remove_fix (ptr t) (above []) s = Some (Inr s)" by (subst remove_fix.simps) simp
  then show ?case using Nil.prems by (simp add: settled_plug [of s "[]" t] same_keys_def)
next
  case (Cons f c)
  have nf: "ptr t \<noteq> First s" by (rule at_hole_inner [OF Cons.prems(1,2)]) simp
  show ?case
  proof (cases f)
    case (InLeft a r)
    have H: "at_hole s c (Node t a r)" using Cons.prems(1) by (simp add: InLeft at_hole_step)
    have a: "n_left s a = ptr t" "n_parent s a = above c" using H by (auto simp: at_hole_def)
    have x: "a \<noteq> x" "x \<notin> set (cnodes c)" "x \<notin> set (inorder r)" using Cons.prems(3) by (auto simp: InLeft)
    have b: "bok (n_bal s) x r" "n_bal s a = vh x r - (vh x t + 1)" "\<bar>n_bal s a\<bar> \<le> 1"
      "cbok (n_bal s) x (1 + max (vh x t + 1) (vh x r)) c" using Cons.prems(6) by (auto simp: InLeft)
    have nar: "narrow x (Node t a r)" using Cons.prems(4) x narrow_absent by simp
    have pl: "plug (f # c) t = plug c (Node t a r)" "above (f # c) = a" by (simp_all add: InLeft)
    consider "n_bal s a = - 1" | "n_bal s a = 0" | "n_bal s a = 1" using b(3) by force
    then show ?thesis
    proof cases
      case 1
      then have e: "remove_fix (ptr t) a s = remove_fix a (n_parent s a) (set_bal a 0 s)"
        using nf a(1) by (subst remove_fix.simps) simp
      have v: "vh x r = vh x t" using b(2) 1 by simp
      note sb = step_bal [OF H Cons.prems(5) b(1) b(4), of 0]
      have "settled (set_bal a 0 s) (inorder (plug c (Node t a r))) x (remove_fix (ptr (Node t a r)) (above c) (set_bal a 0 s))"
      proof (rule Cons.IH)
        show "cbok (n_bal (set_bal a 0 s)) x (vh x (Node t a r) + 1) c" using sb(3) v x(1) by (simp add: add.commute)
      qed (use sb v x nar in \<open>simp_all del: narrow.simps fun_upd_apply\<close>)
      then show ?thesis unfolding pl e a(2) using settled_same [of s "set_bal a 0 s"] by (simp add: same_keys_def)
    next
      case 2
      then have e: "remove_fix (ptr t) a s = Some (Inr (set_bal a 1 s))" using nf a(1) by (subst remove_fix.simps) simp
      have v: "vh x r = vh x t + 1" using b(2) 2 by simp
      note sb = step_bal [OF H Cons.prems(5) b(1) b(4), of 1]
      have "cbok (n_bal (set_bal a 1 s)) x (vh x (Node t a r)) c" using sb(3) v x(1) by simp
      then show ?thesis unfolding pl e
        by (intro settled_plug [OF sb(1,2)] x(2) sb(4) refl nar) (use v x in auto)
    next
      case 3
      then have v: "vh x r = vh x t + 2" using b(2) by simp
      have "r \<noteq> Leaf" using v vh_nonneg [of x t] by auto
      then obtain B q A where r: "r = Node B q A" by (cases r) auto
      obtain q' s1 where s1: "FixDeleteRightImbalance a s = Inr (q', s1)"
        "repaired x s c (Node t a (Node B q A)) (vh x (Node B q A)) (q', s1) (- 1) (n_bal s q = 0)"
        using fix_right_ok [OF H [unfolded r] x(3) [unfolded r] x(1) b(1) [unfolded r] Cons.prems(5) v [unfolded r]] by force
      obtain T where T: "at_hole s1 c T" "inorder T = inorder (Node t a (Node B q A))" "bok (n_bal s1) x T" "ptr T = q'"
        "cbok (n_bal s1) x (1 + max (vh x t + 1) (vh x r)) c"
        "vh x T = (if n_bal s q = 0 then vh x (Node B q A) + 1 else vh x (Node B q A))"
        "n_bal s1 q' = (if n_bal s q = 0 then - 1 else 0)" "same_keys s s1" "narrow x (Node t a (Node B q A)) \<longrightarrow> narrow x T"
        by (rule repaired_above [OF s1(2) H [unfolded r] b(4)])
      have mx: "1 + max (vh x t + 1) (vh x r) = vh x r + 1" using v by simp
      have nT: "narrow x T" "T \<noteq> Leaf" using T(2,9) nar r by auto
      have io: "inorder (plug c T) = inorder (plug c (Node t a r))" by (rule inorder_plug_cong) (simp add: T(2) r)
      have go: "remove_fix (ptr t) a s = (if n_bal s1 q' = - 1 then Some (Inr s1) else remove_fix q' (n_parent s1 q') s1)"
        using nf a(1) 3 s1(1) by (subst remove_fix.simps) simp
      show ?thesis
      proof (cases "n_bal s q = 0")
        case True
        then have e: "remove_fix (ptr t) a s = Some (Inr s1)" using go T(7) by simp
        have "cbok (n_bal s1) x (vh x T) c" using T(5,6) True mx by (simp only: if_True r simp_thms)
        then show ?thesis unfolding pl e by (intro settled_plug [OF T(1,3)] x(2) T(8) io nT(1))
      next
        case False
        have "n_parent s1 q' = above c" using T(1,4) nT(2) by (cases T) (auto simp: at_hole_def)
        then have e: "remove_fix (ptr t) a s = remove_fix (ptr T) (above c) s1" using go T(4,7) False by simp
        have "settled s1 (inorder (plug c T)) x (remove_fix (ptr T) (above c) s1)"
        proof (rule Cons.IH [OF T(1) nT(2) x(2) nT(1) T(3)])
          show "cbok (n_bal s1) x (vh x T + 1) c" using T(5,6) False mx by (simp only: if_False r)
        qed
        then show ?thesis unfolding pl e io using settled_same [OF T(8)] by simp
      qed
    qed
  next
    case (InRight l a)
    have H: "at_hole s c (Node l a t)" using Cons.prems(1) by (simp add: InRight at_hole_step)
    have a: "n_left s a = ptr l" "n_parent s a = above c" using H by (auto simp: at_hole_def)
    have nl: "ptr t \<noteq> n_left s a"
    proof -
      have "ptr t \<in> set (inorder t)" using Cons.prems(2) by (rule ptr_in)
      then show ?thesis using H ptr_in [of l] at_hole_zero [OF H] unfolding a(1) by (cases "l = Leaf") (auto simp: at_hole_def)
    qed
    have x: "a \<noteq> x" "x \<notin> set (cnodes c)" "x \<notin> set (inorder l)" using Cons.prems(3) by (auto simp: InRight)
    have b: "bok (n_bal s) x l" "n_bal s a = (vh x t + 1) - vh x l" "\<bar>n_bal s a\<bar> \<le> 1"
      "cbok (n_bal s) x (1 + max (vh x l) (vh x t + 1)) c" using Cons.prems(6) by (auto simp: InRight)
    have nar: "narrow x (Node l a t)" using Cons.prems(4) x narrow_absent by simp
    have pl: "plug (f # c) t = plug c (Node l a t)" "above (f # c) = a" by (simp_all add: InRight)
    consider "n_bal s a = 1" | "n_bal s a = 0" | "n_bal s a = - 1" using b(3) by force
    then show ?thesis
    proof cases
      case 1
      then have e: "remove_fix (ptr t) a s = remove_fix a (n_parent s a) (set_bal a 0 s)"
        using nf nl by (subst remove_fix.simps) simp
      have v: "vh x l = vh x t" using b(2) 1 by simp
      note sb = step_bal [OF H b(1) Cons.prems(5) b(4), of 0]
      have "settled (set_bal a 0 s) (inorder (plug c (Node l a t))) x (remove_fix (ptr (Node l a t)) (above c) (set_bal a 0 s))"
      proof (rule Cons.IH)
        show "cbok (n_bal (set_bal a 0 s)) x (vh x (Node l a t) + 1) c" using sb(3) v x(1) by (simp add: add.commute)
      qed (use sb v x nar in \<open>simp_all del: narrow.simps fun_upd_apply\<close>)
      then show ?thesis unfolding pl e a(2) using settled_same [of s "set_bal a 0 s"] by (simp add: same_keys_def)
    next
      case 2
      then have e: "remove_fix (ptr t) a s = Some (Inr (set_bal a (- 1) s))" using nf nl by (subst remove_fix.simps) simp
      have v: "vh x l = vh x t + 1" using b(2) 2 by simp
      note sb = step_bal [OF H b(1) Cons.prems(5) b(4), of "- 1"]
      have "cbok (n_bal (set_bal a (- 1) s)) x (vh x (Node l a t)) c" using sb(3) v x(1) by simp
      then show ?thesis unfolding pl e
        by (intro settled_plug [OF sb(1,2)] x(2) sb(4) refl nar) (use v x in auto)
    next
      case 3
      then have v: "vh x l = vh x t + 2" using b(2) by simp
      have "l \<noteq> Leaf" using v vh_nonneg [of x t] by auto
      then obtain A q B where l: "l = Node A q B" by (cases l) auto
      obtain q' s1 where s1: "FixDeleteLeftImbalance a s = Inr (q', s1)"
        "repaired x s c (Node (Node A q B) a t) (vh x (Node A q B)) (q', s1) 1 (n_bal s q = 0)"
        using fix_left_ok [OF H [unfolded l] x(3) [unfolded l] x(1) b(1) [unfolded l] Cons.prems(5) v [unfolded l]] by force
      obtain T where T: "at_hole s1 c T" "inorder T = inorder (Node (Node A q B) a t)" "bok (n_bal s1) x T" "ptr T = q'"
        "cbok (n_bal s1) x (1 + max (vh x l) (vh x t + 1)) c"
        "vh x T = (if n_bal s q = 0 then vh x (Node A q B) + 1 else vh x (Node A q B))"
        "n_bal s1 q' = (if n_bal s q = 0 then 1 else 0)" "same_keys s s1" "narrow x (Node (Node A q B) a t) \<longrightarrow> narrow x T"
        by (rule repaired_above [OF s1(2) H [unfolded l] b(4)])
      have mx: "1 + max (vh x l) (vh x t + 1) = vh x l + 1" using v by simp
      have nT: "narrow x T" "T \<noteq> Leaf" using T(2,9) nar l by auto
      have io: "inorder (plug c T) = inorder (plug c (Node l a t))" by (rule inorder_plug_cong) (simp add: T(2) l)
      have go: "remove_fix (ptr t) a s = (if n_bal s1 q' = 1 then Some (Inr s1) else remove_fix q' (n_parent s1 q') s1)"
        using nf nl 3 s1(1) by (subst remove_fix.simps) simp
      show ?thesis
      proof (cases "n_bal s q = 0")
        case True
        then have e: "remove_fix (ptr t) a s = Some (Inr s1)" using go T(7) by simp
        have "cbok (n_bal s1) x (vh x T) c" using T(5,6) True mx by (simp only: if_True l simp_thms)
        then show ?thesis unfolding pl e by (intro settled_plug [OF T(1,3)] x(2) T(8) io nT(1))
      next
        case False
        have "n_parent s1 q' = above c" using T(1,4) nT(2) by (cases T) (auto simp: at_hole_def)
        then have e: "remove_fix (ptr t) a s = remove_fix (ptr T) (above c) s1" using go T(4,7) False by simp
        have "settled s1 (inorder (plug c T)) x (remove_fix (ptr T) (above c) s1)"
        proof (rule Cons.IH [OF T(1) nT(2) x(2) nT(1) T(3)])
          show "cbok (n_bal s1) x (vh x T + 1) c" using T(5,6) False mx by (simp only: if_False l)
        qed
        then show ?thesis unfolding pl e io using settled_same [OF T(8)] by simp
      qed
    qed
  qed
qed

end
