(* ===== verification/AvlOps.thy ===== *)
theory AvlOps
  imports AvlFacts
begin

text \<open>
  The operations of the height-balanced tree against a map from keys to data: searching, insertion
  and removal, each on a well-formed tree, then any sequence of them.
\<close>

subsection \<open>Well-formed trees and their contents\<close>

definition node_entries :: "('k, 'd) avl \<Rightarrow> nat list \<Rightarrow> ('k \<times> 'd) list" where
  "node_entries s xs = map (\<lambda>a. (n_key s a, n_data s a)) xs"

definition first_of :: "nat list \<Rightarrow> nat" where "first_of xs = (case xs of [] \<Rightarrow> 0 | a # _ \<Rightarrow> a)"

definition ordered :: "('k::linorder, 'd) avl \<Rightarrow> nat list \<Rightarrow> bool" where
  "ordered s xs \<longleftrightarrow> sorted_wrt (\<lambda>a b. n_key s a < n_key s b) xs"

definition avl_wf :: "('k::linorder, 'd) avl \<Rightarrow> nat tree \<Rightarrow> bool" where
  "avl_wf s T \<longleftrightarrow> at_hole s [] T \<and> ordered s (inorder T) \<and> bok (n_bal s) 0 T \<and> av_min s = first_of (inorder T)
     \<and> av_count s = of_nat (length (inorder T))"

definition contents :: "('k, 'd) avl \<Rightarrow> nat tree \<Rightarrow> 'k \<rightharpoonup> 'd" where
  "contents s T = map_of (node_entries s (inorder T))"

lemma node_entries_append [simp]: "node_entries s (xs @ ys) = node_entries s xs @ node_entries s ys" "node_entries s [] = []"
  "node_entries s (a # xs) = (n_key s a, n_data s a) # node_entries s xs"
  by (simp_all add: node_entries_def)

lemma node_entries_cong: "(\<And>a. a \<in> set xs \<Longrightarrow> n_key s' a = n_key s a \<and> n_data s' a = n_data s a) \<Longrightarrow> node_entries s' xs = node_entries s xs"
  by (simp add: node_entries_def)

lemma dom_entries: "dom (map_of (node_entries s xs)) = n_key s ` set xs"
  by (simp add: dom_map_of_conv_image_fst node_entries_def image_image)

lemma ordered_append: "ordered s (xs @ ys) \<longleftrightarrow> ordered s xs \<and> ordered s ys \<and> (\<forall>a \<in> set xs. \<forall>b \<in> set ys. n_key s a < n_key s b)"
  "ordered s (a # xs) \<longleftrightarrow> (\<forall>b \<in> set xs. n_key s a < n_key s b) \<and> ordered s xs" "ordered s []"
  by (auto simp: ordered_def sorted_wrt_append)

lemma ordered_cong: "(\<And>a. a \<in> set xs \<Longrightarrow> n_key s' a = n_key s a) \<Longrightarrow> ordered s' xs = ordered s xs"
  by (induction xs) (auto simp: ordered_append)

lemma ordered_entries: "ordered s xs \<Longrightarrow> node_entries s' xs' = node_entries s xs \<Longrightarrow> ordered s' xs'"
proof -
  assume o: "ordered s xs" and e: "node_entries s' xs' = node_entries s xs"
  have "map (n_key s') xs' = map (n_key s) xs" using arg_cong [OF e, of "map fst"] by (simp add: node_entries_def comp_def)
  then show "ordered s' xs'" using o by (simp add: ordered_def flip: sorted_wrt_map)
qed

text \<open>In an ordered list, the entry of one key can be replaced, added or dropped by splitting there.\<close>

lemma map_of_middle:
  assumes "\<forall>a \<in> set xs. n_key s a \<noteq> k"
  shows "map_of (node_entries s xs @ (k, d) # es) = (map_of (node_entries s xs @ es))(k \<mapsto> d)"
  using assms by (induction xs) (auto simp: fun_eq_iff)

lemma map_of_drop:
  assumes "\<forall>a \<in> set xs. n_key s a \<noteq> k" "\<forall>a \<in> set ys. n_key s a \<noteq> k"
  shows "map_of (node_entries s xs @ node_entries s ys) = (map_of (node_entries s xs @ (k, d) # node_entries s ys))(k := None)"
proof -
  have "k \<notin> dom (map_of (node_entries s (xs @ ys)))" unfolding dom_entries using assms by auto
  then have "map_of (node_entries s (xs @ ys)) k = None" by (simp only: domIff not_not)
  then show ?thesis using map_of_middle [OF assms(1)] by (simp add: fun_upd_idem)
qed

subsection \<open>Searching\<close>

lemma find_loop_ok:
  "rep s par t \<Longrightarrow> ordered s (inorder t) \<Longrightarrow>
     \<exists>n. find_loop s k (ptr t) = Some n \<and> (if k \<in> n_key s ` set (inorder t) then n \<in> set (inorder t) \<and> n_key s n = k else n = 0)"
proof (induction t arbitrary: par)
  case Leaf
  then show ?case by (subst find_loop.simps) simp
next
  case (Node l a r)
  have a: "a \<noteq> 0" "n_left s a = ptr l" "n_right s a = ptr r" "rep s a l" "rep s a r" using Node.prems(1) by auto
  have o: "ordered s (inorder l)" "ordered s (inorder r)" "\<forall>b \<in> set (inorder l). n_key s b < n_key s a"
    "\<forall>b \<in> set (inorder r). n_key s a < n_key s b" using Node.prems(2) by (auto simp: ordered_append)
  note step = find_loop.simps [of s k a]
  consider "k = n_key s a" | "k < n_key s a" | "n_key s a < k" by (rule linorder_cases [of k "n_key s a"])
  then show ?case
  proof cases
    case 1
    then show ?thesis using step a(1) by auto
  next
    case 2
    then have "find_loop s k a = find_loop s k (ptr l)" using step a by (simp add: less_imp_neq)
    moreover have "k \<in> n_key s ` set (inorder (Node l a r)) \<longleftrightarrow> k \<in> n_key s ` set (inorder l)"
      using o(4) 2 by auto
    moreover have "set (inorder l) \<subseteq> set (inorder (Node l a r))" by auto
    ultimately show ?thesis using Node.IH(1) [OF a(4) o(1)] by (auto simp del: set_inorder inorder.simps)
  next
    case 3
    then have "find_loop s k a = find_loop s k (ptr r)" using step a by (simp add: less_imp_neq [symmetric] less_not_sym)
    moreover have "k \<in> n_key s ` set (inorder (Node l a r)) \<longleftrightarrow> k \<in> n_key s ` set (inorder r)"
      using o(3) 3 by auto
    moreover have "set (inorder r) \<subseteq> set (inorder (Node l a r))" by auto
    ultimately show ?thesis using Node.IH(2) [OF a(5) o(2)] by (auto simp del: set_inorder inorder.simps)
  qed
qed

lemma wf_find:
  assumes "avl_wf s T"
  obtains n where "FindNode s k = Some n" "k \<in> n_key s ` set (inorder T) \<Longrightarrow> n \<in> set (inorder T) \<and> n_key s n = k"
    "k \<notin> n_key s ` set (inorder T) \<Longrightarrow> n = 0"
proof -
  have "rep s ROOT T" "First s = ptr T" "ordered s (inorder T)" using assms by (auto simp: avl_wf_def at_hole_def First_def)
  from find_loop_ok [OF this(1,3)] this(2) obtain n where n: "FindNode s k = Some n"
    "if k \<in> n_key s ` set (inorder T) then n \<in> set (inorder T) \<and> n_key s n = k else n = 0"
    unfolding FindNode_def by metis
  show ?thesis
  proof (rule that [OF n(1)])
    show "n \<in> set (inorder T) \<and> n_key s n = k" if "k \<in> n_key s ` set (inorder T)" using n(2) that by (simp only: if_True)
    show "n = 0" if "k \<notin> n_key s ` set (inorder T)" using n(2) that by (simp only: if_False)
  qed
qed

text \<open>An ordered list has one node per key.\<close>

lemma ordered_inj: "ordered s xs \<Longrightarrow> a \<in> set xs \<Longrightarrow> b \<in> set xs \<Longrightarrow> n_key s a = n_key s b \<Longrightarrow> a = b"
  by (induction xs) (simp, simp add: ordered_append, metis less_irrefl)

lemma ordered_distinct: "ordered s xs \<Longrightarrow> distinct xs"
  by (induction xs) (auto simp: ordered_append)

lemma contents_at: "ordered s xs \<Longrightarrow> a \<in> set xs \<Longrightarrow> map_of (node_entries s xs) (n_key s a) = Some (n_data s a)"
proof (induction xs)
  case (Cons b xs)
  then show ?case by (cases "a = b") (auto simp: ordered_append dest: less_imp_neq)
qed simp

subsection \<open>Contexts\<close>

lemma plug_append: "plug (c @ d) t = plug d (plug c t)"
proof (induction c arbitrary: t)
  case (Cons f c)
  then show ?case by (cases f) simp_all
qed simp

text \<open>The nodes to the left and to the right of a hole, in order.\<close>

fun lefts :: "crumb list \<Rightarrow> nat list" where
  "lefts [] = []"
| "lefts (InLeft a r # c) = lefts c"
| "lefts (InRight l a # c) = lefts c @ inorder l @ [a]"

fun rights :: "crumb list \<Rightarrow> nat list" where
  "rights [] = []"
| "rights (InLeft a r # c) = a # inorder r @ rights c"
| "rights (InRight l a # c) = rights c"

lemma inorder_plug_eq: "inorder (plug c t) = lefts c @ inorder t @ rights c"
proof (induction c arbitrary: t)
  case (Cons f c)
  then show ?case by (cases f) simp_all
qed simp

lemma cnodes_sides: "set (cnodes c) = set (lefts c) \<union> set (rights c)"
proof (induction c)
  case (Cons f c)
  then show ?case by (cases f) auto
qed simp

lemma context_of: "a \<in> set (inorder T) \<Longrightarrow> \<exists>c l r. T = plug c (Node l a r)"
proof (induction T)
  case (Node L b R)
  consider "a \<in> set (inorder L)" | "a = b" | "a \<in> set (inorder R)" using Node.prems by auto
  then show ?case
  proof cases
    case 1
    then obtain c l r where "L = plug c (Node l a r)" using Node.IH(1) by blast
    then have "Node L b R = plug (c @ [InLeft b R]) (Node l a r)" by (simp add: plug_append)
    then show ?thesis by blast
  next
    case 2
    then have "Node L b R = plug [] (Node L a R)" by simp
    then show ?thesis by blast
  next
    case 3
    then obtain c l r where "R = plug c (Node l a r)" using Node.IH(2) by blast
    then have "Node L b R = plug (c @ [InRight L b]) (Node l a r)" by (simp add: plug_append)
    then show ?thesis by blast
  qed
qed simp

lemma wf_context:
  assumes "avl_wf s T" "a \<in> set (inorder T)"
  obtains c l r where "T = plug c (Node l a r)" "at_hole s c (Node l a r)"
  using context_of [OF assms(2)] assms(1) at_hole_plug [of s] by (auto simp: avl_wf_def)

subsection \<open>Insertion\<close>

text \<open>The last comparison says on which side of the parent the empty place is.\<close>

fun side :: "crumb list \<Rightarrow> int \<Rightarrow> bool" where
  "side [] cmp \<longleftrightarrow> True"
| "side (InLeft a r # c) cmp \<longleftrightarrow> cmp < 0"
| "side (InRight l a # c) cmp \<longleftrightarrow> \<not> cmp < 0"

lemma descend_ok:
  "rep s par t \<Longrightarrow> ordered s (inorder t) \<Longrightarrow> side c cmp \<Longrightarrow>
     (\<exists>a p e. descend s k (ptr t) (above c) cmp = Some (a, p, e) \<and> a \<in> set (inorder t) \<and> n_key s a = k)
     \<or> (\<exists>d e. descend s k (ptr t) (above c) cmp = Some (0, above (d @ c), e) \<and> side (d @ c) e \<and> t = plug d Leaf
          \<and> (\<forall>a \<in> set (lefts d). n_key s a < k) \<and> (\<forall>a \<in> set (rights d). k < n_key s a))"
proof (induction t arbitrary: par c cmp)
  case Leaf
  have "descend s k (ptr Leaf) (above c) cmp = Some (0, above ([] @ c), cmp)" by (subst descend.simps) simp
  moreover have "side ([] @ c) cmp" "Leaf = plug [] Leaf" "lefts [] = []" "rights [] = []" using Leaf by simp_all
  ultimately show ?case by (metis empty_iff empty_set)
next
  case (Node l a r)
  have a: "a \<noteq> 0" "n_left s a = ptr l" "n_right s a = ptr r" "rep s a l" "rep s a r" using Node.prems(1) by auto
  have o: "ordered s (inorder l)" "ordered s (inorder r)" "\<forall>b \<in> set (inorder l). n_key s b < n_key s a"
    "\<forall>b \<in> set (inorder r). n_key s a < n_key s b" using Node.prems(2) by (auto simp: ordered_append)
  note step = descend.simps [of s k a]
  consider "k = n_key s a" | "k < n_key s a" | "n_key s a < k" by (rule linorder_cases [of k "n_key s a"])
  then show ?case
  proof cases
    case 1
    then have "descend s k (ptr (Node l a r)) (above c) cmp = Some (a, above c, 0)"
      using step a(1) by (simp add: compare_keys_def)
    then show ?thesis using 1 by force
  next
    case 2
    then have e: "descend s k (ptr (Node l a r)) (above c) cmp = descend s k (ptr l) (above (InLeft a r # c)) (- 1)"
      using step a by (simp add: compare_keys_def)
    have "side (InLeft a r # c) (- 1)" by simp
    from Node.IH(1) [OF a(4) o(1) this]
    show ?thesis
    proof (elim disjE exE conjE, goal_cases)
      case (1 b p e')
      then show ?case using e by auto
    next
      case (2 d e')
      have "Node l a r = plug (d @ [InLeft a r]) Leaf" using 2(3) by (simp add: plug_append)
      moreover have "lefts (d @ [InLeft a r]) = lefts d" "rights (d @ [InLeft a r]) = rights d @ a # inorder r"
        by (induction d rule: lefts.induct) simp_all
      moreover have "\<forall>b \<in> set (inorder r). k < n_key s b" using o(4) \<open>k < n_key s a\<close> by auto
      ultimately show ?case using 2 e \<open>k < n_key s a\<close> by (intro disjI2 exI [of _ "d @ [InLeft a r]"] exI [of _ e']) (simp add: plug_append ball_Un)
    qed
  next
    case 3
    then have e: "descend s k (ptr (Node l a r)) (above c) cmp = descend s k (ptr r) (above (InRight l a # c)) 1"
      using step a by (simp add: compare_keys_def less_not_sym)
    have "side (InRight l a # c) 1" by simp
    from Node.IH(2) [OF a(5) o(2) this]
    show ?thesis
    proof (elim disjE exE conjE, goal_cases)
      case (1 b p e')
      then show ?case using e by auto
    next
      case (2 d e')
      have "Node l a r = plug (d @ [InRight l a]) Leaf" using 2(3) by (simp add: plug_append)
      moreover have "rights (d @ [InRight l a]) = rights d" "lefts (d @ [InRight l a]) = inorder l @ a # lefts d"
        by (induction d rule: lefts.induct) simp_all
      moreover have "\<forall>b \<in> set (inorder l). n_key s b < k" using o(3) \<open>n_key s a < k\<close> by auto
      ultimately show ?case using 2 e \<open>n_key s a < k\<close> by (intro disjI2 exI [of _ "d @ [InRight l a]"] exI [of _ e']) (simp add: plug_append ball_Un)
    qed
  qed
qed

text \<open>The new node in the empty place.\<close>

lemma link_ok:
  assumes "at_hole s c Leaf" "side c cmp" "fresh \<notin> set (cnodes c)" "fresh \<noteq> 0" "fresh \<noteq> ROOT"
  shows "at_hole (link_node fresh k d (above c) cmp s) c (Node Leaf fresh Leaf)"
proof -
  define S where "S = link_node fresh k d (above c) cmp s"
  have c: "cok s c" "distinct (cnodes c)" "hole s c = 0" using assms(1) by (simp_all add: at_hole_def)
  have ac: "above c \<noteq> fresh" "above c = ROOT \<longleftrightarrow> c = []"
    using above_in [of c] assms(3,5) c(1) by (auto simp: elim: above.elims)
  have lr: "n_left S x = (if x = above c \<and> (c = [] \<or> cmp < 0) then fresh else if x = fresh then 0 else n_left s x)"
    "n_right S x = (if x = above c \<and> \<not> (c = [] \<or> cmp < 0) then fresh else if x = fresh then 0 else n_right s x)"
    "n_parent S x = (if x = fresh then above c else n_parent s x)" for x
    by (simp_all add: S_def link_node_def Let_def ac(2))
  have as: "aside S c = aside s c" "hole S c = fresh"
    using assms(2,3,5) c(1) ac by (cases c rule: above.cases; simp add: lr)+
  have "cok S c"
  proof (rule cok_keep [OF c(1,2)])
    show "n_parent S a = n_parent s a" if "a \<in> set (cnodes c)" for a using that assms(3) by (auto simp: lr)
    show "n_left S a = n_left s a \<and> n_right S a = n_right s a" if "a \<in> insert ROOT (set (cnodes c))" "a \<noteq> above c" for a
      using that assms(3,5) by (auto simp: lr)
  qed (rule as(1))
  then show ?thesis using assms(3-5) c(2) as(2) ac(1) by (simp add: at_hole_def lr flip: S_def)
qed


lemma link_rest:
  assumes "fresh \<notin> set xs" "fresh \<notin> set ys" "av_min s = first_of (xs @ ys)" "\<forall>a \<in> set xs. n_key s a < k" "\<forall>a \<in> set ys. k < n_key s a"
    "0 \<notin> set xs" "0 \<notin> set ys"
  shows "av_min (link_node fresh k d p cmp s) = first_of (xs @ fresh # ys)"
    "n_key (link_node fresh k d p cmp s) = (n_key s)(fresh := k)" "n_data (link_node fresh k d p cmp s) = (n_data s)(fresh := d)"
    "n_bal (link_node fresh k d p cmp s) = (n_bal s)(fresh := 0)" "av_count (link_node fresh k d p cmp s) = av_count s"
proof -
  have "av_min (link_node fresh k d p cmp s) = (if av_min s = 0 \<or> k < ((n_key s)(fresh := k)) (av_min s) then fresh else av_min s)"
    by (simp add: link_node_def Let_def)
  also have "\<dots> = first_of (xs @ fresh # ys)"
  proof (cases xs)
    case Nil
    then show ?thesis using assms by (cases ys) (auto simp: first_of_def)
  next
    case (Cons a xs')
    then have "a \<noteq> fresh" "a \<noteq> 0" "n_key s a < k" "av_min s = a" using assms by (auto simp: first_of_def)
    then show ?thesis using Cons by (simp add: first_of_def less_not_sym)
  qed
  finally show "av_min (link_node fresh k d p cmp s) = first_of (xs @ fresh # ys)" .
qed (simp_all add: link_node_def Let_def)

lemma insert_found:
  assumes "avl_wf s T" "a \<in> set (inorder T)" "n_key s a = k"
  shows "avl_wf (s\<lparr>n_data := (n_data s)(a := d)\<rparr>) T" "contents (s\<lparr>n_data := (n_data s)(a := d)\<rparr>) T = (contents s T)(k \<mapsto> d)"
proof -
  let ?s = "s\<lparr>n_data := (n_data s)(a := d)\<rparr>"
  have "at_hole ?s [] T" using assms(1) by (subst at_hole_shape [of _ s]) (simp_all add: avl_wf_def)
  moreover have "ordered ?s (inorder T) = ordered s (inorder T)" by (rule ordered_cong) simp
  ultimately show "avl_wf ?s T" using assms(1) by (simp add: avl_wf_def)
  obtain xs ys where T: "inorder T = xs @ a # ys" using split_list [OF assms(2)] by blast
  have o: "ordered s (xs @ a # ys)" using assms(1) by (simp add: avl_wf_def T)
  have n: "a \<notin> set xs" "a \<notin> set ys" using ordered_distinct [OF o] by auto
  have k: "\<forall>b \<in> set xs. n_key s b \<noteq> k" using o assms(3) by (auto simp: ordered_append)
  have "node_entries ?s xs = node_entries s xs" "node_entries ?s ys = node_entries s ys" using n by (auto intro!: node_entries_cong)
  then show "contents ?s T = (contents s T)(k \<mapsto> d)"
    using map_of_middle [OF k] assms(3) by (simp add: contents_def T)
qed

lemma insert_ok:
  assumes wf: "avl_wf s T" and fresh: "fresh \<notin> set (inorder T)" "fresh \<noteq> 0" "fresh \<noteq> ROOT"
  shows "\<exists>s' T'. avl_insert fresh k d s = Some (Inr s') \<and> avl_wf s' T' \<and> contents s' T' = (contents s T)(k \<mapsto> d)
    \<and> set (inorder T') \<subseteq> insert fresh (set (inorder T))"
proof -
  have w: "at_hole s [] T" "ordered s (inorder T)" "bok (n_bal s) 0 T" "av_min s = first_of (inorder T)"
    "av_count s = of_nat (length (inorder T))" using wf by (simp_all add: avl_wf_def)
  have r: "rep s ROOT T" "First s = ptr T" using w(1) by (simp_all add: at_hole_def First_def)
  have "side [] 0" by simp
  from descend_ok [OF r(1) w(2) this, of k] consider
    (found) a p e where "descend s k (First s) ROOT 0 = Some (a, p, e)" "a \<in> set (inorder T)" "n_key s a = k"
    | (new) c e where "descend s k (First s) ROOT 0 = Some (0, above c, e)" "side c e" "T = plug c Leaf"
      "\<forall>a \<in> set (lefts c). n_key s a < k" "\<forall>a \<in> set (rights c). k < n_key s a"
    by (auto simp: r(2))
  then show ?thesis
  proof cases
    case found
    have "a \<noteq> 0" using at_hole_zero [OF w(1)] found(2) by metis
    then have "avl_insert fresh k d s = Some (Inr (s\<lparr>n_data := (n_data s)(a := d)\<rparr>))" using found(1) by (simp add: avl_insert_def)
    with insert_found [OF wf found(2,3)] show ?thesis by blast
  next
    case new
    let ?xs = "lefts c" and ?ys = "rights c"
    have T: "inorder T = ?xs @ ?ys" by (simp add: new(3) inorder_plug_eq)
    define S where "S = link_node fresh k d (above c) e s"
    have h: "at_hole s c Leaf" using w(1) by (simp add: new(3) at_hole_plug [of s c])
    have fx: "fresh \<notin> set ?xs" "fresh \<notin> set ?ys" using fresh(1) by (simp_all add: T)
    then have fc: "fresh \<notin> set (cnodes c)" by (simp add: cnodes_sides)
    have z: "0 \<notin> set ?xs" "0 \<notin> set ?ys" "0 \<notin> set (cnodes c)" using at_hole_zero [OF h] cnodes_sides [of c] by auto
    have S: "at_hole S c (Node Leaf fresh Leaf)" unfolding S_def by (rule link_ok [OF h new(2) fc fresh(2,3)])
    note L = link_rest [OF fx w(4) [unfolded T] new(4,5) z(1,2), of d "above c" e, folded S_def]
    have "cbok (n_bal s) 0 0 c" using w(3) z(3) by (simp add: new(3) bok_plug)
    moreover have "cbok (n_bal S) 0 0 c = cbok (n_bal s) 0 0 c" by (rule cbok_cong) (use L(4) fc in auto)
    ultimately have "settled S (inorder (plug c (Node Leaf fresh Leaf))) 0 (insert_fix (ptr (Node Leaf fresh Leaf)) (above c) S)"
      using fresh(2) L(4) by (intro insert_fix_ok [OF S]) simp_all
    then obtain s' T' where s': "insert_fix fresh (above c) S = Some (Inr s')" "at_hole s' [] T'"
      "inorder T' = ?xs @ fresh # ?ys" "bok (n_bal s') 0 T'" "same_keys S s'"
      by (auto simp: settled_def inorder_plug_eq)
    let ?s = "s'\<lparr>av_count := av_count s' + 1\<rparr>"
    have k: "n_key ?s = (n_key s)(fresh := k)" "n_data ?s = (n_data s)(fresh := d)" "av_min ?s = first_of (inorder T')"
      "av_count ?s = of_nat (length (inorder T'))"
      using s'(5) L w(5) by (simp_all add: same_keys_def s'(3) T)
    have e: "node_entries ?s ?xs = node_entries s ?xs" "node_entries ?s ?ys = node_entries s ?ys"
      "ordered ?s ?xs = ordered s ?xs" "ordered ?s ?ys = ordered s ?ys"
      using fx by (auto intro!: node_entries_cong ordered_cong simp: k(1,2))
    have "avl_insert fresh k d s = Some (Inr ?s)"
      using new(1) s'(1) by (simp add: avl_insert_def flip: S_def)
    moreover have "avl_wf ?s T'"
    proof -
      have "at_hole ?s [] T'" using s'(2) by (subst at_hole_shape [of _ s']) simp_all
      moreover have "ordered ?s (inorder T')"
        using w(2) e(3,4) new(4,5) fx by (auto simp: s'(3) T ordered_append k(1) simp del: set_inorder)
      moreover have "bok (n_bal ?s) 0 T'" using s'(4) by simp
      ultimately show ?thesis using k(3,4) by (simp only: avl_wf_def)
    qed
    moreover have "contents ?s T' = (contents s T)(k \<mapsto> d)"
    proof -
      have "\<forall>a \<in> set ?xs. n_key s a \<noteq> k" using new(4) by auto
      from map_of_middle [OF this] show ?thesis by (simp add: contents_def s'(3) T e(1,2) k(1,2))
    qed
    moreover have "set (inorder T') \<subseteq> insert fresh (set (inorder T))" by (auto simp: s'(3) T simp del: set_inorder)
    ultimately show ?thesis by blast
  qed
qed

end
