(* ===== verification/AvlRemove.thy ===== *)
theory AvlRemove
  imports AvlOps
begin

text \<open>
  Removal from the height-balanced tree: the successor of a node, the choice of the node to unlink,
  the unlinking, and what Remove as a whole does to the map.
\<close>

subsection \<open>The successor\<close>

lemma leftmost_ok: "rep s par t \<Longrightarrow> t \<noteq> Leaf \<Longrightarrow> leftmost_loop s (ptr t) = Some (first_of (inorder t))"
proof (induction t arbitrary: par)
  case (Node l a r)
  then show ?case
  proof (cases "l = Leaf")
    case True
    then show ?thesis using Node.prems by (subst leftmost_loop.simps) (simp add: first_of_def)
  next
    case False
    then have l: "ptr l \<noteq> 0" "n_left s a = ptr l" "rep s a l" using Node.prems(1) by (cases l; auto)+
    have "first_of (inorder (Node l a r)) = first_of (inorder l)"
      using False by (cases "inorder l") (simp_all add: first_of_def)
    then show ?thesis using Node.IH(1) [OF l(3) False] l(1,2) by (subst leftmost_loop.simps) simp
  qed
qed simp

lemma climb_ok:
  "at_hole s c t \<Longrightarrow> t \<noteq> Leaf \<Longrightarrow>
     climb_loop s (ptr t) (above c) = Some (Inr (if rights c = [] then ROOT else first_of (rights c)))"
proof (induction c arbitrary: t)
  case Nil
  have "ptr t \<noteq> 0" using at_hole_zero [OF Nil(1)] ptr_in [OF Nil(2)] by metis
  moreover have "n_right s ROOT = 0" using Nil(1) by (simp add: at_hole_def)
  ultimately have "ptr t \<noteq> n_right s ROOT" by simp
  then show ?case by (subst climb_loop.simps) (simp add: ROOT_def)
next
  case (Cons f c)
  have p: "ptr t \<in> set (inorder t)" using Cons.prems(2) by (rule ptr_in)
  show ?case
  proof (cases f)
    case (InLeft a r)
    have "ptr t \<noteq> n_right s a" "a \<noteq> 0"
    proof -
      have a: "n_right s a = ptr r" "a \<noteq> 0" "distinct (inorder t @ a # inorder r @ cnodes c)"
        using Cons.prems(1) by (auto simp: at_hole_def InLeft)
      show "a \<noteq> 0" by fact
      show "ptr t \<noteq> n_right s a"
        using p a(1,3) ptr_in [of r] at_hole_zero [OF Cons.prems(1)] by (cases "r = Leaf") auto
    qed
    then show ?thesis by (subst climb_loop.simps) (simp add: InLeft first_of_def)
  next
    case (InRight l a)
    have H: "at_hole s c (Node l a t)" using Cons.prems(1) by (simp add: InRight at_hole_step)
    have a: "n_right s a = ptr t" "a \<noteq> 0" "n_parent s a = above c" using H by (auto simp: at_hole_def)
    have "climb_loop s (ptr t) a = climb_loop s a (above c)" using a by (subst climb_loop.simps) simp
    then show ?thesis using Cons.IH [OF H] by (simp add: InRight)
  qed
qed

lemma successor_ok:
  assumes "at_hole s c (Node l a r)"
  shows "Successor s a = Some (Inr (first_of (inorder r @ rights c)))"
proof (cases "r = Leaf")
  case True
  have a: "n_right s a = 0" "n_parent s a = above c" using assms True by (auto simp: at_hole_def)
  have "ROOT \<notin> set (rights c)" using assms cok_nodes [of s c] cnodes_sides [of c] by (auto simp: at_hole_def)
  then have "first_of (rights c) \<noteq> ROOT" by (cases "rights c") (auto simp: first_of_def ROOT_def)
  then show ?thesis using climb_ok [OF assms] a True by (auto simp: Successor_def first_of_def)
next
  case False
  have a: "n_right s a = ptr r" "rep s a r" "ptr r \<noteq> 0" using assms False by (cases r; auto simp: at_hole_def)+
  have "first_of (inorder r @ rights c) = first_of (inorder r)" using False by (cases "inorder r") (simp_all add: first_of_def)
  then show ?thesis using leftmost_ok [OF a(2) False] a(1,3) by (simp add: Successor_def)
qed

subsection \<open>The node to unlink\<close>

text \<open>What the choice of the target achieves: without the target, the tree holds everything but the key.\<close>

definition targeted :: "'k::linorder \<Rightarrow> ('k, 'd) avl \<Rightarrow> nat tree \<Rightarrow> nat \<Rightarrow> ('k, 'd) avl \<Rightarrow> bool" where
  "targeted k s T target s1 \<longleftrightarrow> (\<exists>c l r. T = plug c (Node l target r) \<and> (l = Leaf \<or> r = Leaf)
     \<and> n_parent s1 = n_parent s \<and> n_left s1 = n_left s \<and> n_right s1 = n_right s \<and> n_bal s1 = n_bal s \<and> av_count s1 = av_count s
     \<and> (let xs = lefts c @ inorder l @ inorder r @ rights c
        in ordered s1 xs \<and> av_min s1 = first_of xs \<and> map_of (node_entries s1 xs) = (contents s T)(k := None)))"

lemma without_middle:
  assumes "ordered s (xs @ a # ys)"
  shows "map_of (node_entries s (xs @ ys)) = (map_of (node_entries s (xs @ a # ys)))(n_key s a := None)" "ordered s (xs @ ys)"
proof -
  have "\<forall>b \<in> set xs. n_key s b \<noteq> n_key s a" "\<forall>b \<in> set ys. n_key s b \<noteq> n_key s a"
    using assms by (auto simp: ordered_append)
  from map_of_drop [OF this] show "map_of (node_entries s (xs @ ys)) = (map_of (node_entries s (xs @ a # ys)))(n_key s a := None)" by simp
  show "ordered s (xs @ ys)" using assms by (auto simp: ordered_append)
qed

lemma target_self:
  assumes wf: "avl_wf s T" and T: "T = plug c (Node l a r)" and n: "l = Leaf \<or> r = Leaf"
  shows "\<exists>s1. remove_target a s = Some (Inr (a, s1)) \<and> targeted (n_key s a) s T a s1"
proof -
  let ?xs = "lefts c @ inorder l" and ?ys = "inorder r @ rights c"
  have h: "at_hole s c (Node l a r)" using wf by (simp add: avl_wf_def T at_hole_plug [of s c])
  have io: "inorder T = ?xs @ a # ?ys" by (simp add: T inorder_plug_eq)
  have o: "ordered s (?xs @ a # ?ys)" and mn: "av_min s = first_of (?xs @ a # ?ys)" using wf by (simp_all add: avl_wf_def io)
  have lr: "n_left s a = 0 \<or> n_right s a = 0" using n h by (auto simp: at_hole_def)
  have e: "a = av_min s \<longleftrightarrow> ?xs = []"
    using ordered_distinct [OF o] mn by (cases ?xs) (auto simp: first_of_def)
  define s1 where "s1 = (if ?xs = [] then s\<lparr>av_min := first_of ?ys\<rparr> else s)"
  have "remove_target a s = Some (Inr (a, s1))"
    using lr e successor_ok [OF h] by (auto simp: remove_target_def s1_def)
  moreover have "targeted (n_key s a) s T a s1"
  proof -
    have "av_min s1 = first_of (?xs @ ?ys)" using mn by (cases ?xs) (auto simp: s1_def first_of_def)
    moreover have "ordered s1 (?xs @ ?ys)"
      using without_middle(2) [OF o] ordered_cong [of "?xs @ ?ys" s1 s] by (simp add: s1_def del: append_assoc)
    moreover have "map_of (node_entries s1 (?xs @ ?ys)) = (contents s T)(n_key s a := None)"
    proof -
      have "node_entries s1 (?xs @ ?ys) = node_entries s (?xs @ ?ys)" by (rule node_entries_cong) (simp add: s1_def)
      then show ?thesis using without_middle(1) [OF o] by (simp only: contents_def io)
    qed
    ultimately show ?thesis unfolding targeted_def Let_def
      using T n by (intro exI [of _ c] exI [of _ l] exI [of _ r]) (simp add: s1_def)
  qed
  ultimately show ?thesis by blast
qed


lemma sides_append: "lefts (d @ c) = lefts c @ lefts d" "rights (d @ c) = rights d @ rights c"
proof (induction d)
  case (Cons f d)
  { case 1 then show ?case using Cons by (cases f) simp_all }
  { case 2 then show ?case using Cons by (cases f) simp_all }
qed simp_all

lemma leftmost_context: "t \<noteq> Leaf \<Longrightarrow> \<exists>d b r. t = plug d (Node Leaf b r) \<and> lefts d = []"
proof (induction t)
  case (Node l a r)
  show ?case
  proof (cases "l = Leaf")
    case True
    then have "Node l a r = plug [] (Node Leaf a r)" "lefts [] = []" by simp_all
    then show ?thesis by blast
  next
    case False
    then obtain d b r' where "l = plug d (Node Leaf b r')" "lefts d = []" using Node.IH(1) by blast
    then have "Node l a r = plug (d @ [InLeft a r]) (Node Leaf b r')" "lefts (d @ [InLeft a r]) = []"
      by (simp_all add: plug_append sides_append)
    then show ?thesis by blast
  qed
qed simp

lemma target_swap:
  assumes wf: "avl_wf s T" and T: "T = plug c (Node l a r)" and n: "l \<noteq> Leaf" "r \<noteq> Leaf"
  shows "\<exists>b s1. remove_target a s = Some (Inr (b, s1)) \<and> targeted (n_key s a) s T b s1"
proof -
  obtain d b r2 where r: "r = plug d (Node Leaf b r2)" "lefts d = []" using leftmost_context [OF n(2)] by blast
  define P where "P = lefts c @ inorder l"
  define Q where "Q = inorder r2 @ rights d @ rights c"
  have h: "at_hole s c (Node l a r)" using wf by (simp add: avl_wf_def T at_hole_plug [of s c])
  have ir: "inorder r = b # inorder r2 @ rights d" by (simp add: r inorder_plug_eq)
  have io: "inorder T = P @ a # b # Q" by (simp add: T inorder_plug_eq ir P_def Q_def)
  have o: "ordered s (P @ a # b # Q)" and mn: "av_min s = first_of (P @ a # b # Q)" using wf by (simp_all add: avl_wf_def io)
  have ds: "distinct (P @ a # b # Q)" by (rule ordered_distinct [OF o])
  have lr: "n_left s a \<noteq> 0" "n_right s a \<noteq> 0" using n h by (cases l; cases r; auto simp: at_hole_def)+
  define s1 where "s1 = s\<lparr>n_key := (n_key s)(a := n_key s b, b := n_key s a), n_data := (n_data s)(a := n_data s b, b := n_data s a)\<rparr>"
  have "remove_target a s = Some (Inr (b, s1))"
    using lr successor_ok [OF h] ir by (simp add: remove_target_def s1_def first_of_def)
  moreover have "targeted (n_key s a) s T b s1"
  proof -
    have "node_entries s1 P = node_entries s P" "node_entries s1 Q = node_entries s Q"
      using ds by (auto intro!: node_entries_cong simp: s1_def)
    then have e: "node_entries s1 (P @ a # Q) = node_entries s (P @ b # Q)" using ds by (simp add: s1_def)
    have "av_min s1 = first_of (P @ a # Q)" using mn by (cases P) (simp_all add: s1_def first_of_def)
    moreover have "ordered s1 (P @ a # Q)" using ordered_entries [OF without_middle(2) [OF o] e] .
    moreover have "map_of (node_entries s1 (P @ a # Q)) = (contents s T)(n_key s a := None)"
      using without_middle(1) [OF o] by (simp only: contents_def io e)
    moreover have "lefts (d @ InRight l a # c) @ inorder Leaf @ inorder r2 @ rights (d @ InRight l a # c) = P @ a # Q"
      by (simp add: sides_append r(2) P_def Q_def)
    moreover have "T = plug (d @ InRight l a # c) (Node Leaf b r2)" by (simp add: T r(1) plug_append)
    ultimately show ?thesis unfolding targeted_def Let_def
      by (intro exI [of _ "d @ InRight l a # c"] exI [of _ Leaf] exI [of _ r2]) (simp add: s1_def)
  qed
  ultimately show ?thesis by blast
qed

lemma target_ok:
  assumes "avl_wf s T" "a \<in> set (inorder T)"
  shows "\<exists>b s1. remove_target a s = Some (Inr (b, s1)) \<and> targeted (n_key s a) s T b s1"
proof -
  obtain c l r where T: "T = plug c (Node l a r)" by (rule wf_context [OF assms])
  show ?thesis
    by (cases "l = Leaf \<or> r = Leaf") (use target_self [OF assms(1) T] target_swap [OF assms(1) T] in blast)+
qed

subsection \<open>Unlinking\<close>

lemma unlink_ok:
  assumes h: "at_hole s c (Node l a r)" and n: "l = Leaf \<or> r = Leaf"
  shows "at_hole (unlink_node a s) c (if l = Leaf then r else l)" "n_key (unlink_node a s) = n_key s"
    "n_data (unlink_node a s) = n_data s" "n_bal (unlink_node a s) = n_bal s" "av_min (unlink_node a s) = av_min s"
    "av_count (unlink_node a s) = av_count s"
proof -
  define t where "t = (if l = Leaf then r else l)"
  have c: "hole s c = a" "cok s c" "a \<noteq> 0" "n_parent s a = above c" "n_left s a = ptr l" "n_right s a = ptr r" "rep s a l" "rep s a r"
    "distinct (inorder l @ a # inorder r @ cnodes c)" using h by (auto simp: at_hole_def)
  have tk: "rep s a t" "distinct (inorder t @ cnodes c)" "a \<notin> set (inorder t)" "set (inorder t) \<inter> set (cnodes c) = {}"
    unfolding t_def using c(7-9) by auto
  define s0 where "s0 = (if ptr t \<noteq> 0 then s\<lparr>n_parent := (n_parent s)(ptr t := above c)\<rparr> else s)"
  have s0: "n_left s0 = n_left s" "n_right s0 = n_right s" "n_parent s0 x = (if x = ptr t \<and> x \<noteq> 0 then above c else n_parent s x)" for x
    by (simp_all add: s0_def)
  have child: "(if ptr l \<noteq> 0 then ptr l else ptr r) = ptr t" using c(7) by (cases l) (auto simp: t_def)
  have at: "a \<noteq> ptr t" using ptr_in [of t] tk(3) c(3) by (cases "t = Leaf") auto
  have u: "unlink_node a s = relink (above c) a (ptr t) s0"
  proof -
    have "(if n_left s a \<noteq> 0 then n_left s a else n_right s a) = ptr t" using child by (simp only: c(5,6))
    note e = unlink_node_def [of a s, unfolded this]
    show ?thesis using at c(4) by (cases "ptr t = 0") (auto simp: e Let_def s0_def relink_def)
  qed
  have tp: "t \<noteq> Leaf \<Longrightarrow> ptr t \<in> set (inorder t)" by (rule ptr_in)
  have zt: "t = Leaf \<longleftrightarrow> ptr t = 0" using tk(1) by (cases t) auto
  have pc: "n_parent s0 x = n_parent s x" if "x \<in> set (cnodes c)" for x
  proof -
    have "x \<noteq> ptr t \<or> x = 0" using that tk(4) tp zt by (metis disjoint_iff)
    then show ?thesis by (auto simp: s0(3))
  qed
  have k0: "cok s0 c" by (rule cok_keep_all [OF c(2)]) (use c(9) pc s0 in auto)
  have ha: "hole s0 c = a" using c(1) s0 by (cases c rule: above.cases) simp_all
  have na: "a \<notin> set (cnodes c)" using c(9) by auto
  note R = relink_hole [OF k0 ha c(3) na, where m = "ptr t"]
  have k: "cok s0 c" "hole (unlink_node a s) c = ptr t" "aside (unlink_node a s) c = aside s0 c"
    "n_parent (unlink_node a s) = n_parent s0"
    "x \<noteq> above c \<Longrightarrow> n_left (unlink_node a s) x = n_left s0 x \<and> n_right (unlink_node a s) x = n_right s0 x" for x
    unfolding u by (fact k0 R)+
  have "cok (unlink_node a s) c"
    by (rule cok_keep [OF k(1) _ _ _ k(3)]) (use c(9) k(4,5) in auto)
  moreover have "rep (unlink_node a s) (above c) t"
  proof (rule rep_move [OF tk(1)])
    fix x assume x: "x \<in> set (inorder t)"
    have "above c \<notin> set (inorder t)" using above_in [of c] tk(4) rep_nodes [OF tk(1)] by (metis disjoint_iff)
    then have "x \<noteq> above c" using x by metis
    then show "n_left (unlink_node a s) x = n_left s x \<and> n_right (unlink_node a s) x = n_right s x" using k(5) s0 by simp
    have "x \<noteq> 0" using x rep_nodes [OF tk(1)] by metis
    then show "n_parent (unlink_node a s) x = (if x = ptr t then above c else n_parent s x)" by (simp only: k(4) s0(3)) simp
  qed (use tk(2) in simp)
  ultimately show "at_hole (unlink_node a s) c (if l = Leaf then r else l)" unfolding t_def [symmetric] using k(2) tk(2) by (simp only: at_hole_def)
qed (simp_all add: unlink_node_def Let_def)


subsection \<open>Removal\<close>

lemma absent_same:
  "x \<notin> set (inorder t) \<Longrightarrow> y \<notin> set (inorder t) \<Longrightarrow> vh x t = vh y t \<and> bok b x t = bok b y t"
  by (induction t) auto

lemma absent_same_context:
  "x \<notin> set (cnodes c) \<Longrightarrow> y \<notin> set (cnodes c) \<Longrightarrow> cbok b x h c = cbok b y h c"
proof (induction c arbitrary: h)
  case (Cons f c)
  show ?case
  proof (cases f)
    case (InLeft a r)
    then show ?thesis using Cons absent_same [of x r y b] by auto
  next
    case (InRight l a)
    then show ?thesis using Cons absent_same [of x l y b] by auto
  qed
qed simp

lemma split_unique: "xs @ a # ys = xs' @ a # ys' \<Longrightarrow> distinct (xs @ a # ys) \<Longrightarrow> xs @ ys = xs' @ ys'"
proof -
  assume e: "xs @ a # ys = xs' @ a # ys'" and d: "distinct (xs @ a # ys)"
  have "remove1 a (xs @ a # ys) = xs @ ys" "remove1 a (xs' @ a # ys') = xs' @ ys'"
    using d d [unfolded e] by (simp_all add: remove1_append)
  then show ?thesis using e by simp
qed

text \<open>A tree that is balanced but for a node with at most one child is balanced once that node is gone.\<close>

lemma unlink_settled:
  assumes h: "at_hole s [] T" "inorder T = xs @ b # ys" "bok (n_bal s) b T" "narrow b T"
  shows "\<exists>T'. at_hole (unlink_node b s) [] T' \<and> inorder T' = xs @ ys \<and> bok (n_bal (unlink_node b s)) 0 T'"
proof -
  have "b \<in> set (inorder T)" by (simp add: h(2) del: set_inorder)
  then obtain c l r where T: "T = plug c (Node l b r)" using context_of by blast
  have H: "at_hole s c (Node l b r)" using h(1) by (simp add: T at_hole_plug [of s c])
  have bc: "b \<notin> set (cnodes c)" "b \<notin> set (inorder l)" "b \<notin> set (inorder r)" using H by (auto simp: at_hole_def)
  have n: "l = Leaf \<or> r = Leaf" using h(4) narrow_plug [OF bc(1)] by (simp add: T)
  define t where "t = (if l = Leaf then r else l)"
  have t: "inorder t = inorder l @ inorder r" "b \<notin> set (inorder t)" "vh b t = vh b (Node l b r)" "bok (n_bal s) b t"
    using n bc(2,3) h(3) bok_plug [OF bc(1)] vh_nonneg [of b l] vh_nonneg [of b r] by (auto simp: t_def T)
  note u = unlink_ok [OF H n, folded t_def]
  have "bok (n_bal s) b (plug c t)" using h(3) bok_plug [OF bc(1)] t(3,4) by (simp add: T)
  moreover have "b \<notin> set (inorder (plug c t))" "0 \<notin> set (inorder (plug c t))"
    using bc(1) t(2) at_hole_zero [OF u(1)] inorder_plug [of c t] by blast+
  ultimately have "bok (n_bal s) 0 (plug c t)" using absent_same by blast
  moreover have "inorder (plug c t) = xs @ ys"
  proof -
    have e: "(lefts c @ inorder l) @ b # (inorder r @ rights c) = xs @ b # ys" using h(2) by (simp add: T inorder_plug_eq)
    have "distinct ((lefts c @ inorder l) @ b # (inorder r @ rights c))" using h(1,2) unfolding e by (simp add: at_hole_def)
    from split_unique [OF e this] show ?thesis by (simp add: inorder_plug_eq t(1))
  qed
  moreover have "at_hole (unlink_node b s) [] (plug c t)" using u(1) by (simp add: at_hole_plug [of _ c])
  ultimately show ?thesis using u(4) by metis
qed

lemma remove_targeted:
  assumes wf: "avl_wf s T" and tg: "targeted k s T b s1"
  shows "\<exists>s2 T'. remove_fix b (n_parent s1 b) s1 = Some (Inr s2) \<and>
     (let s' = (unlink_node b s2)\<lparr>av_count := av_count (unlink_node b s2) - 1\<rparr>
      in avl_wf s' T' \<and> contents s' T' = (contents s T)(k := None) \<and> set (inorder T') \<subseteq> set (inorder T))"
proof -
  obtain c l r where T: "T = plug c (Node l b r)" and n: "l = Leaf \<or> r = Leaf"
    and s1: "n_parent s1 = n_parent s" "n_left s1 = n_left s" "n_right s1 = n_right s" "n_bal s1 = n_bal s" "av_count s1 = av_count s"
    and xs: "ordered s1 ((lefts c @ inorder l) @ inorder r @ rights c)" "av_min s1 = first_of ((lefts c @ inorder l) @ inorder r @ rights c)"
      "map_of (node_entries s1 ((lefts c @ inorder l) @ inorder r @ rights c)) = (contents s T)(k := None)"
    using tg unfolding targeted_def Let_def append_assoc by blast
  define ys where "ys = (lefts c @ inorder l) @ inorder r @ rights c"
  have w: "at_hole s [] T" "bok (n_bal s) 0 T" "av_count s = of_nat (length (inorder T))" using wf by (simp_all add: avl_wf_def)
  have io: "inorder T = (lefts c @ inorder l) @ b # (inorder r @ rights c)" by (simp add: T inorder_plug_eq)
  have H: "at_hole s1 c (Node l b r)"
    using w(1) by (subst at_hole_shape [of _ s]) (simp_all add: s1 T at_hole_plug [of s c])
  have bc: "b \<notin> set (cnodes c)" "b \<notin> set (inorder l)" "b \<notin> set (inorder r)" "b \<noteq> 0" "n_parent s1 b = above c"
    using H by (auto simp: at_hole_def)
  have z: "0 \<notin> set (cnodes c)" "0 \<notin> set (inorder l)" "0 \<notin> set (inorder r)" using at_hole_zero [OF H] by auto
  have sm: "vh b l = vh 0 l" "vh b r = vh 0 r" "bok (n_bal s) b l = bok (n_bal s) 0 l" "bok (n_bal s) b r = bok (n_bal s) 0 r"
    "cbok (n_bal s) b h c = cbok (n_bal s) 0 h c" for h
    using absent_same [OF bc(2) z(2)] absent_same [OF bc(3) z(3)] absent_same_context [OF bc(1) z(1)] by auto
  have b0: "bok (n_bal s) 0 (Node l b r)" "cbok (n_bal s) 0 (vh 0 (Node l b r)) c" using w(2) unfolding T bok_plug [OF z(1)] by blast+
  have "settled s1 (inorder (plug c (Node l b r))) b (remove_fix (ptr (Node l b r)) (above c) s1)"
  proof (rule remove_fix_ok [OF H _ bc(1)])
    show "narrow b (Node l b r)" using n bc narrow_absent by simp
    show "bok (n_bal s1) b (Node l b r)" using b0(1) by (simp add: s1 sm)
    show "cbok (n_bal s1) b (vh b (Node l b r) + 1) c" using b0(2) bc(4) by (simp add: s1 sm add.commute)
  qed simp
  then obtain s2 T2 where s2: "remove_fix b (above c) s1 = Some (Inr s2)" "at_hole s2 [] T2" "inorder T2 = inorder T"
    "bok (n_bal s2) b T2" "narrow b T2" "same_keys s1 s2"
    by (auto simp: settled_def T)
  obtain T' where T': "at_hole (unlink_node b s2) [] T'" "inorder T' = ys" "bok (n_bal (unlink_node b s2)) 0 T'"
    using unlink_settled [OF s2(2) s2(3) [unfolded io] s2(4,5)] ys_def by metis
  have k: "n_key (unlink_node b s2) = n_key s1" "n_data (unlink_node b s2) = n_data s1" "av_min (unlink_node b s2) = av_min s1"
    "av_count (unlink_node b s2) = av_count s"
    using s2(6) s1(5) by (simp_all add: same_keys_def unlink_node_def Let_def)
  let ?s = "(unlink_node b s2)\<lparr>av_count := av_count (unlink_node b s2) - 1\<rparr>"
  have e: "node_entries ?s ys = node_entries s1 ys" by (rule node_entries_cong) (simp add: k)
  have "avl_wf ?s T'"
  proof -
    have "at_hole ?s [] T'" using T'(1) by (subst at_hole_shape [of _ "unlink_node b s2"]) simp_all
    moreover have "ordered ?s (inorder T')" using ordered_entries [OF xs(1) [folded ys_def] e] by (simp add: T'(2))
    moreover have "bok (n_bal ?s) 0 T'" using T'(3) by simp
    moreover have "av_min ?s = first_of (inorder T')" using k(3) xs(2) by (simp add: T'(2) ys_def)
    moreover have "av_count ?s = of_nat (length (inorder T'))" using k(4) w(3) by (simp add: T'(2) ys_def io)
    ultimately show ?thesis by (simp only: avl_wf_def)
  qed
  moreover have "contents ?s T' = (contents s T)(k := None)" using xs(3) by (simp only: contents_def T'(2) e) (simp add: ys_def)
  moreover have "set (inorder T') \<subseteq> set (inorder T)" by (auto simp: T'(2) ys_def io simp del: set_inorder)
  ultimately show ?thesis using s2(1) bc(5) unfolding Let_def by metis
qed

lemma remove_ok:
  assumes wf: "avl_wf s T"
  shows "\<exists>s' T'. avl_remove k s = Some (Inr (k \<in> dom (contents s T), s')) \<and> avl_wf s' T'
     \<and> contents s' T' = (contents s T)(k := None) \<and> set (inorder T') \<subseteq> set (inorder T)"
proof -
  obtain a where a: "FindNode s k = Some a" "k \<in> n_key s ` set (inorder T) \<Longrightarrow> a \<in> set (inorder T) \<and> n_key s a = k"
    "k \<notin> n_key s ` set (inorder T) \<Longrightarrow> a = 0" using wf_find [OF wf, of k] by metis
  show ?thesis
  proof (cases "k \<in> n_key s ` set (inorder T)")
    case False
    then have n: "k \<notin> dom (contents s T)" by (simp only: contents_def dom_entries not_False_eq_True)
    then have "avl_remove k s = Some (Inr (k \<in> dom (contents s T), s))" using a(1) a(3) [OF False] by (simp add: avl_remove_def)
    moreover have "contents s T = (contents s T)(k := None)" using n by (auto simp: fun_eq_iff)
    ultimately show ?thesis using wf by blast
  next
    case True
    note ak = a(2) [OF True]
    have "at_hole s [] T" using wf by (simp add: avl_wf_def)
    then have "a \<noteq> 0" using at_hole_zero ak by metis
    obtain b s1 where b: "remove_target a s = Some (Inr (b, s1))" "targeted k s T b s1"
      using target_ok [OF wf] ak by blast
    obtain s2 T' where s2: "remove_fix b (n_parent s1 b) s1 = Some (Inr s2)"
      "let s' = (unlink_node b s2)\<lparr>av_count := av_count (unlink_node b s2) - 1\<rparr>
       in avl_wf s' T' \<and> contents s' T' = (contents s T)(k := None) \<and> set (inorder T') \<subseteq> set (inorder T)"
      using remove_targeted [OF wf b(2)] by blast
    have "k \<in> dom (contents s T)" using True by (simp only: contents_def dom_entries)
    then have "avl_remove k s = Some (Inr (k \<in> dom (contents s T), (unlink_node b s2)\<lparr>av_count := av_count (unlink_node b s2) - 1\<rparr>))"
      using a(1) \<open>a \<noteq> 0\<close> b(1) s2(1) by (simp add: avl_remove_def Let_def)
    then show ?thesis using s2(2) unfolding Let_def by blast
  qed
qed

end
