(* ===== verification/AvlMap.thy ===== *)
theory AvlMap
  imports AvlRemove
begin

text \<open>
  The height-balanced tree as a map: what is promised for each operation on a well-formed tree, for
  any sequence of operations on a new one, and for the height that the tree reports.
\<close>

subsection \<open>Height\<close>

lemma check_height_ok:
  "rep s par t \<Longrightarrow> bok (n_bal s) 0 t \<Longrightarrow> CheckHeight s (ptr t) = Some (vh 0 t)"
proof (induction t arbitrary: par)
  case Leaf
  then show ?case by (subst CheckHeight.simps) simp
next
  case (Node l a r)
  have a: "a \<noteq> 0" "n_left s a = ptr l" "n_right s a = ptr r" "rep s a l" "rep s a r" using Node.prems(1) by auto
  have b: "bok (n_bal s) 0 l" "bok (n_bal s) 0 r" "n_bal s a = vh 0 r - vh 0 l" "\<bar>n_bal s a\<bar> \<le> 1" using Node.prems(2) a(1) by auto
  have h: "CheckHeight s (ptr l) = Some (vh 0 l)" "CheckHeight s (ptr r) = Some (vh 0 r)"
    using Node.IH(1) [OF a(4) b(1)] Node.IH(2) [OF a(5) b(2)] by simp_all
  have n: "\<not> vh 0 l < 0" "\<not> vh 0 r < 0" using vh_nonneg [of 0 l] vh_nonneg [of 0 r] by linarith+
  have b4: "- 1 \<le> vh 0 r - vh 0 l" "vh 0 r - vh 0 l \<le> 1" using b(3,4) by linarith+
  show ?case using a(1) b(3) b4 n by (subst CheckHeight.simps) (simp add: a(2,3) h max_def)
qed

lemma balanced_size:
  "bok b 0 t \<Longrightarrow> 0 \<notin> set (inorder t) \<Longrightarrow> 2 ^ (nat (vh 0 t) div 2) \<le> length (inorder t) + 1"
proof (induction t)
  case (Node l a r)
  define h where "h = nat (vh 0 (Node l a r))"
  have a: "a \<noteq> 0" "0 \<notin> set (inorder l)" "0 \<notin> set (inorder r)" using Node.prems(2) by auto
  have b: "bok b 0 l" "bok b 0 r" "\<bar>vh 0 r - vh 0 l\<bar> \<le> 1" using Node.prems(1) a(1) by auto
  note ih = Node.IH(1) [OF b(1) a(2)] Node.IH(2) [OF b(2) a(3)]
  show ?case
  proof (cases "h < 2")
    case True
    then show ?thesis unfolding h_def [symmetric] by simp
  next
    case False
    have "h = Suc (max (nat (vh 0 l)) (nat (vh 0 r)))" using a(1) vh_nonneg [of 0 l] vh_nonneg [of 0 r] by (auto simp: h_def max_def)
    then have m: "h - 2 \<le> nat (vh 0 l)" "h - 2 \<le> nat (vh 0 r)" using b(3) by (auto simp: max_def split: if_splits)
    have p: "(2::nat) ^ ((h - 2) div 2) \<le> 2 ^ (nat (vh 0 l) div 2)" "(2::nat) ^ ((h - 2) div 2) \<le> 2 ^ (nat (vh 0 r) div 2)"
      using m by (auto intro!: power_increasing div_le_mono)
    have "h div 2 = Suc ((h - 2) div 2)" using False by linarith
    then have "(2::nat) ^ (h div 2) = 2 ^ ((h - 2) div 2) + 2 ^ ((h - 2) div 2)" by simp
    moreover have "length (inorder (Node l a r)) + 1 = (length (inorder l) + 1) + (length (inorder r) + 1)" by simp
    ultimately show ?thesis unfolding h_def [symmetric] using p ih by linarith
  qed
qed simp

lemma wf_height:
  assumes "avl_wf s T"
  shows "GetHeight s = Some (vh 0 T)" "2 ^ (nat (vh 0 T) div 2) \<le> length (inorder T) + 1"
proof -
  have w: "rep s ROOT T" "First s = ptr T" "bok (n_bal s) 0 T" "0 \<notin> set (inorder T)"
    using assms at_hole_zero [of s "[]" T] by (auto simp: avl_wf_def at_hole_def First_def)
  show "GetHeight s = Some (vh 0 T)" using check_height_ok [OF w(1,3)] by (simp add: GetHeight_def w(2))
  show "2 ^ (nat (vh 0 T) div 2) \<le> length (inorder T) + 1" by (rule balanced_size [OF w(3,4)])
qed

text \<open>Searching as a lookup, and the least key.\<close>

lemma wf_lookup:
  assumes "avl_wf s T"
  shows "avl_find dflt s k = Some (case contents s T k of Some d \<Rightarrow> d | None \<Rightarrow> dflt)"
proof -
  obtain n where n: "FindNode s k = Some n" "k \<in> n_key s ` set (inorder T) \<Longrightarrow> n \<in> set (inorder T) \<and> n_key s n = k"
    "k \<notin> n_key s ` set (inorder T) \<Longrightarrow> n = 0" using wf_find [OF assms, of k] by metis
  have w: "ordered s (inorder T)" "0 \<notin> set (inorder T)" using assms at_hole_zero [of s "[]" T] by (auto simp: avl_wf_def)
  show ?thesis
  proof (cases "k \<in> n_key s ` set (inorder T)")
    case True
    note nk = n(2) [OF True]
    then have "n \<noteq> 0" using w(2) by metis
    moreover have "contents s T k = Some (n_data s n)" using contents_at [OF w(1)] nk unfolding contents_def by blast
    ultimately show ?thesis by (simp add: avl_find_def n(1))
  next
    case False
    then have "contents s T k = None" unfolding contents_def using dom_entries [of s "inorder T"] by (metis domIff)
    then show ?thesis using n(3) [OF False] by (simp add: avl_find_def n(1))
  qed
qed

lemma wf_min:
  assumes "avl_wf s T"
  shows "avl_min dflt s = (if contents s T = Map.empty then dflt else the (contents s T (Min (dom (contents s T)))))"
proof (cases "inorder T")
  case Nil
  then have "contents s T = Map.empty" "av_min s = 0" using assms by (simp_all add: contents_def avl_wf_def first_of_def)
  then show ?thesis by (simp add: avl_min_def)
next
  case (Cons a xs)
  have w: "ordered s (a # xs)" "0 \<notin> set (inorder T)" "av_min s = a"
    using assms at_hole_zero [of s "[]" T] by (auto simp: avl_wf_def first_of_def Cons)
  have a0: "a \<noteq> 0" using w(2) by (auto simp: Cons simp del: set_inorder)
  have d: "dom (contents s T) = insert (n_key s a) (n_key s ` set xs)" unfolding contents_def dom_entries by (simp add: Cons del: set_inorder)
  have "Min (dom (contents s T)) = n_key s a"
    unfolding d using w(1) by (intro Min_eqI) (auto simp: ordered_append less_imp_le)
  moreover have "contents s T (n_key s a) = Some (n_data s a)" by (simp add: contents_def Cons)
  moreover have "contents s T \<noteq> Map.empty" using d by auto
  ultimately show ?thesis using a0 w(3) by (simp add: avl_min_def)
qed

lemma wf_size: "avl_wf s T \<Longrightarrow> length (inorder T) = card (dom (contents s T))"
proof -
  assume w: "avl_wf s T"
  have "inj_on (n_key s) (set (inorder T))" using w ordered_inj unfolding avl_wf_def inj_on_def by blast
  moreover have "distinct (inorder T)" using w ordered_distinct unfolding avl_wf_def by blast
  ultimately show ?thesis unfolding contents_def dom_entries by (simp add: card_image distinct_card del: set_inorder length_inorder)
qed

lemma wf_card: "avl_wf s T \<Longrightarrow> av_count s = of_nat (card (dom (contents s T)))"
  using wf_size unfolding avl_wf_def by metis

subsection \<open>Sequences of operations\<close>

datatype ('k, 'd) map_op = AInsert nat 'k 'd | ARemove 'k

text \<open>A run of operations, given by what inserts and what removes; the first component of an insertion is its fresh node.\<close>

fun op_run ::
    "(nat \<Rightarrow> 'k \<Rightarrow> 'd \<Rightarrow> 's \<Rightarrow> 's outcome) \<Rightarrow> ('k \<Rightarrow> 's \<Rightarrow> (bool \<times> 's) outcome) \<Rightarrow> ('k, 'd) map_op list \<Rightarrow> 's \<Rightarrow> 's outcome" where
  "op_run ins rem [] s = Some (Inr s)"
| "op_run ins rem (AInsert a k d # ops) s = bindo (ins a k d s) (op_run ins rem ops)"
| "op_run ins rem (ARemove k # ops) s = bindo (rem k s) (\<lambda>(b, s). op_run ins rem ops s)"

abbreviation avl_run :: "('k::linorder, 'd) map_op list \<Rightarrow> ('k, 'd) avl \<Rightarrow> ('k, 'd) avl outcome" where
  "avl_run \<equiv> op_run avl_insert avl_remove"

fun map_run :: "('k, 'd) map_op list \<Rightarrow> ('k \<rightharpoonup> 'd) \<Rightarrow> ('k \<rightharpoonup> 'd)" where
  "map_run [] m = m"
| "map_run (AInsert a k d # ops) m = map_run ops (m(k \<mapsto> d))"
| "map_run (ARemove k # ops) m = map_run ops (m(k := None))"

fun op_nodes :: "('k, 'd) map_op list \<Rightarrow> nat list" where
  "op_nodes [] = []"
| "op_nodes (AInsert a k d # ops) = a # op_nodes ops"
| "op_nodes (ARemove k # ops) = op_nodes ops"

text \<open>
  The interface of a container of keyed nodes: a state holds a map and uses nodes of a set; a
  node handed to an insertion has to be none of these, and none of the reserved ones.
\<close>

locale key_map =
  fixes holds :: "'s \<Rightarrow> ('k \<rightharpoonup> 'd) \<Rightarrow> nat set \<Rightarrow> bool"
    and ins :: "nat \<Rightarrow> 'k \<Rightarrow> 'd \<Rightarrow> 's \<Rightarrow> 's outcome"
    and rem :: "'k \<Rightarrow> 's \<Rightarrow> (bool \<times> 's) outcome"
    and reserved :: "nat set"
  assumes ins_law: "holds s m A \<Longrightarrow> a \<notin> A \<Longrightarrow> a \<notin> reserved \<Longrightarrow> \<exists>s'. ins a k d s = Some (Inr s') \<and> holds s' (m(k \<mapsto> d)) (insert a A)"
    and rem_law: "holds s m A \<Longrightarrow> \<exists>s'. rem k s = Some (Inr (k \<in> dom m, s')) \<and> holds s' (m(k := None)) A"
begin

text \<open>A run never fails, and leaves what the same operations make of the map.\<close>

lemma run_holds:
  "holds s m A \<Longrightarrow> distinct (op_nodes ops) \<Longrightarrow> set (op_nodes ops) \<inter> (A \<union> reserved) = {}
    \<Longrightarrow> \<exists>s'. op_run ins rem ops s = Some (Inr s') \<and> holds s' (map_run ops m) (A \<union> set (op_nodes ops))"
proof (induction ops arbitrary: s m A rule: op_nodes.induct)
  case (2 a k d ops)
  obtain s1 where s1: "ins a k d s = Some (Inr s1)" "holds s1 (m(k \<mapsto> d)) (insert a A)"
    using ins_law [OF 2(2), of a k d] 2(4) by auto
  from 2(1) [OF s1(2)] 2(3,4) show ?case by (auto simp: s1(1) simp del: fun_upd_apply)
next
  case (3 k ops)
  obtain s1 where s1: "rem k s = Some (Inr (k \<in> dom m, s1))" "holds s1 (m(k := None)) A"
    using rem_law [OF 3(2), of k] by blast
  from 3(1) [OF s1(2)] 3(3,4) show ?case by (simp add: s1(1) del: fun_upd_apply)
qed auto

lemma rem_twice:
  assumes "holds s m A" "rem k s = Some (Inr (b, s'))"
  shows "\<exists>s''. rem k s' = Some (Inr (False, s''))"
proof -
  have "holds s' (m(k := None)) A" using rem_law [OF assms(1), of k] assms(2) by auto
  from rem_law [OF this, of k] show ?thesis by auto
qed

end

definition avl_holds :: "('k::linorder, 'd) avl \<Rightarrow> ('k \<rightharpoonup> 'd) \<Rightarrow> nat set \<Rightarrow> bool" where
  "avl_holds s m A \<longleftrightarrow> (\<exists>T. avl_wf s T \<and> contents s T = m \<and> set (inorder T) \<subseteq> A)"

interpretation tree_map: key_map avl_holds avl_insert avl_remove "{0, ROOT}"
proof
  fix s :: "('k::linorder, 'd) avl" and m A a k d
  assume s: "avl_holds s m A"
  then obtain T where T: "avl_wf s T" "contents s T = m" "set (inorder T) \<subseteq> A" unfolding avl_holds_def by blast
  show "\<exists>s'. avl_remove k s = Some (Inr (k \<in> dom m, s')) \<and> avl_holds s' (m(k := None)) A"
    using remove_ok [OF T(1), of k] T(3) unfolding avl_holds_def T(2) by blast
  assume a: "a \<notin> A" "a \<notin> {0, ROOT}"
  then have "a \<notin> set (inorder T)" "a \<noteq> 0" "a \<noteq> ROOT" using T(3) by auto
  from insert_ok [OF T(1) this, of k d]
  show "\<exists>s'. avl_insert a k d s = Some (Inr s') \<and> avl_holds s' (m(k \<mapsto> d)) (insert a A)"
    using T(3) unfolding avl_holds_def T(2) by blast
qed

text \<open>A container that is also searched, and asked for what belongs to its least key.\<close>

locale ordered_map = key_map holds ins rem reserved
  for holds :: "'s \<Rightarrow> ('k::linorder \<rightharpoonup> 'd) \<Rightarrow> nat set \<Rightarrow> bool" and ins rem reserved +
  fixes find :: "'d \<Rightarrow> 's \<Rightarrow> 'k \<Rightarrow> 'd option"
    and least :: "'d \<Rightarrow> 's \<Rightarrow> 'd"
  assumes find_law: "holds s m A \<Longrightarrow> find d s k = Some (case m k of Some x \<Rightarrow> x | None \<Rightarrow> d)"
    and least_law: "holds s m A \<Longrightarrow> least d s = (if m = Map.empty then d else the (m (Min (dom m))))"
begin

lemma run_answers:
  assumes "holds s m A" "distinct (op_nodes ops)" "set (op_nodes ops) \<inter> (A \<union> reserved) = {}"
  shows "\<exists>s'. op_run ins rem ops s = Some (Inr s')
    \<and> (\<forall>k d. find d s' k = Some (case map_run ops m k of Some x \<Rightarrow> x | None \<Rightarrow> d))
    \<and> (\<forall>d. least d s' = (if map_run ops m = Map.empty then d else the (map_run ops m (Min (dom (map_run ops m))))))"
proof -
  obtain s' where s': "op_run ins rem ops s = Some (Inr s')" "holds s' (map_run ops m) (A \<union> set (op_nodes ops))"
    using run_holds [OF assms] by blast
  show ?thesis by (intro exI [of _ s'] conjI allI s'(1) find_law [OF s'(2)] least_law [OF s'(2)])
qed

end

interpretation tree: ordered_map avl_holds avl_insert avl_remove "{0, ROOT}" avl_find avl_min
  by unfold_locales (auto simp: avl_holds_def wf_lookup wf_min)

lemma new_wf: "avl_wf (avl_new k d) Leaf" "contents (avl_new k d) Leaf = Map.empty"
  by (simp_all add: avl_wf_def at_hole_def avl_new_def ordered_def first_of_def contents_def)


subsection \<open>Properties\<close>

text \<open>
  C38: inserting a key into a well-formed tree succeeds and leaves a well-formed tree, links,
  parents, order, balance factors, minimum and count included; the tree gains the key with its data or
  gets the new data for it, and no node but the new one.
\<close>

theorem avl_insert_correct:
  assumes "avl_wf s T" "fresh \<notin> set (inorder T)" "fresh \<noteq> 0" "fresh \<noteq> ROOT"
  shows "\<exists>s' T'. avl_insert fresh k d s = Some (Inr s') \<and> avl_wf s' T' \<and> contents s' T' = (contents s T)(k \<mapsto> d)
    \<and> set (inorder T') \<subseteq> insert fresh (set (inorder T))"
  by (rule insert_ok [OF assms])

text \<open>A tree of two nodes.\<close>

definition two_nodes :: "(int, int) avl" where
  "two_nodes = \<lparr>n_parent = (\<lambda>_. 0)(2 := ROOT, 3 := 2), n_left = (\<lambda>_. 0)(ROOT := 2), n_right = (\<lambda>_. 0)(2 := 3),
     n_bal = (\<lambda>_. 0)(2 := 1), n_key = (\<lambda>_. 0)(2 := 5, 3 := 7), n_data = (\<lambda>_. 0)(2 := 50, 3 := 70), av_min = 2, av_count = 2\<rparr>"

lemma two_nodes_wf:
  "avl_wf two_nodes (Node Leaf 2 (Node Leaf 3 Leaf))" "contents two_nodes (Node Leaf 2 (Node Leaf 3 Leaf)) = [7 \<mapsto> 70, 5 \<mapsto> 50]"
  by (simp_all add: avl_wf_def at_hole_def two_nodes_def ordered_def first_of_def contents_def node_entries_def ROOT_def)

theorem avl_insert_correct_witness:
  "\<exists>s' T'. avl_insert 4 9 90 two_nodes = Some (Inr s') \<and> avl_wf s' T' \<and> contents s' T' = [7 \<mapsto> 70, 5 \<mapsto> 50, 9 \<mapsto> 90]"
  using avl_insert_correct [OF two_nodes_wf(1), of 4 9 90] unfolding two_nodes_wf(2) by (auto simp: ROOT_def)

text \<open>
  Removing a key from a well-formed tree succeeds, tells whether the key was there, and leaves a
  well-formed tree whose contents are those without the key, on nodes it had before.
\<close>

theorem avl_remove_correct:
  assumes "avl_wf s T"
  shows "\<exists>s' T'. avl_remove k s = Some (Inr (k \<in> dom (contents s T), s')) \<and> avl_wf s' T'
     \<and> contents s' T' = (contents s T)(k := None) \<and> set (inorder T') \<subseteq> set (inorder T)"
  by (rule remove_ok [OF assms])

theorem avl_remove_correct_witness:
  "\<exists>s' T'. avl_remove 5 two_nodes = Some (Inr (True, s')) \<and> avl_wf s' T' \<and> contents s' T' = [7 \<mapsto> 70]"
proof -
  have "([7 \<mapsto> 70, 5 \<mapsto> 50] :: int \<rightharpoonup> int)(5 := None) = [7 \<mapsto> 70]" by (simp add: fun_eq_iff)
  then show ?thesis using avl_remove_correct [OF two_nodes_wf(1), of 5] unfolding two_nodes_wf(2) by auto
qed

text \<open>
  C10: after any sequence of insertions and removals on a new tree, with a fresh node for each
  insertion, nothing has failed and the tree is the map those operations give: Find returns the
  data of a key that is present and the default value otherwise, Remove tells whether the key was present, Min is the
  data of the least key, Count is the number of keys, and the height is at most twice the binary
  logarithm of the number of keys plus one.
\<close>

theorem avl_refines_map:
  fixes ops :: "('k::linorder, 'd) map_op list"
  assumes "distinct (op_nodes ops)" "0 \<notin> set (op_nodes ops)" "ROOT \<notin> set (op_nodes ops)"
  defines "m \<equiv> map_run ops Map.empty"
  shows "\<exists>s. avl_run ops (avl_new k0 d0) = Some (Inr s)
    \<and> (\<forall>k dflt. avl_find dflt s k = Some (case m k of Some d \<Rightarrow> d | None \<Rightarrow> dflt))
    \<and> (\<forall>k. \<exists>s'. avl_remove k s = Some (Inr (m k \<noteq> None, s')))
    \<and> (\<forall>dflt. avl_min dflt s = (if m = Map.empty then dflt else the (m (Min (dom m)))))
    \<and> av_count s = of_nat (card (dom m))
    \<and> (\<exists>h. GetHeight s = Some (int h) \<and> 2 ^ (h div 2) \<le> card (dom m) + 1)"
proof -
  have "avl_holds (avl_new k0 d0 :: ('k, 'd) avl) Map.empty {}" unfolding avl_holds_def using new_wf by fastforce
  from tree_map.run_holds [OF this assms(1)] assms(2,3)
  obtain s T where s: "avl_run ops (avl_new k0 d0) = Some (Inr s)" "avl_wf s T" "contents s T = m"
    unfolding avl_holds_def m_def by auto
  have "\<exists>s'. avl_remove k s = Some (Inr (m k \<noteq> None, s'))" for k using remove_ok [OF s(2), of k] unfolding s(3) domIff by blast
  moreover have "\<exists>h. GetHeight s = Some (int h) \<and> 2 ^ (h div 2) \<le> card (dom m) + 1"
    using wf_height [OF s(2)] vh_nonneg [of 0 T] wf_size [OF s(2)] unfolding s(3) by (intro exI [of _ "nat (vh 0 T)"]) simp
  ultimately show ?thesis
    using s(1) wf_lookup [OF s(2)] wf_min [OF s(2)] wf_card [OF s(2)] unfolding s(3) by blast
qed

theorem avl_refines_map_witness:
  "\<exists>s. avl_run [AInsert 2 (5::int) 50, AInsert 3 3 30, AInsert 4 4 40, ARemove 5, AInsert 6 3 (31::int)] (avl_new 0 0) = Some (Inr s)
     \<and> avl_find 0 s 3 = Some 31 \<and> avl_find 0 s 5 = Some 0 \<and> av_count s = 2"
proof -
  have m: "map_run [AInsert 2 (5::int) 50, AInsert 3 3 30, AInsert 4 4 40, ARemove 5, AInsert 6 3 (31::int)] Map.empty = [3 \<mapsto> 31, 4 \<mapsto> 40]"
    by (auto simp: fun_eq_iff)
  have "\<exists>s. avl_run [AInsert 2 (5::int) 50, AInsert 3 3 30, AInsert 4 4 40, ARemove 5, AInsert 6 3 (31::int)] (avl_new 0 0) = Some (Inr s)
    \<and> (\<forall>k dflt. avl_find dflt s k = Some (case [3 \<mapsto> 31, 4 \<mapsto> 40] k of Some d \<Rightarrow> d | None \<Rightarrow> dflt))
    \<and> av_count s = of_nat (card (dom [3 \<mapsto> (31::int), 4::int \<mapsto> 40]))"
    using avl_refines_map [of "[AInsert 2 (5::int) 50, AInsert 3 3 30, AInsert 4 4 40, ARemove 5, AInsert 6 3 (31::int)]" 0 0]
    unfolding m by (auto simp: ROOT_def)
  then show ?thesis by (auto simp: card_insert_if)
qed

end
