(* ===== verification/Buddy.thy ===== *)
theory Buddy
  imports AvlMap
begin

text \<open>
  src/work/PageFrameAllocator.cpp with its header, PageBlock.h and math.h: a buddy allocator whose free
  blocks are kept per order in height-balanced trees that map a start address to a node. It is meant for 32 bits
  (SYSTEM_BITS), so size_t and uintptr_t are 32 bits wide. Nodes are addresses, their fields
  functions of the address; new returns addresses in ascending order, of tree nodes as well.
\<close>

subsection \<open>Powers of two (math.h)\<close>

partial_function (option) SubLog2 :: "size32 \<Rightarrow> size32 \<Rightarrow> size32 \<Rightarrow> size32 option" where
  "SubLog2 v l i = (if l \<ge> v then Some i else SubLog2 v (push_bit 1 l) (i + 1))"

definition HighBit :: "size32 \<Rightarrow> size32" where
  "HighBit v =
     (let v = v OR drop_bit 1 v;
          v = v OR drop_bit 2 v;
          v = v OR drop_bit 4 v;
          v = v OR drop_bit 8 v;
          v = v OR drop_bit 16 v
      in v AND NOT (drop_bit 1 v))"

definition ToPow2 :: "size32 \<Rightarrow> size32" where
  "ToPow2 v = (let hi = HighBit v in if hi < v then push_bit 1 hi else hi)"

definition Log2 :: "size32 \<Rightarrow> size32 option" where "Log2 v = SubLog2 v 1 0"

subsection \<open>State\<close>

definition PFA_PAGE_SIZE :: size32 where "PFA_PAGE_SIZE = 4096"

definition MinBucket :: size32 where "MinBucket = 12"

definition BucketSize :: size32 where "BucketSize = 32 - MinBucket"

text \<open>A block of pages; one of size 0 counts as none.\<close>

record page_block =
  pb_start :: addr
  pb_size :: size32

definition pb_nil :: page_block where "pb_nil = \<lparr>pb_start = 0, pb_size = 0\<rparr>"

definition pb_bool :: "page_block \<Rightarrow> bool" where "pb_bool b \<longleftrightarrow> pb_size b \<noteq> 0"

record pfa =
  pf_max :: size32
  pf_start :: "nat \<Rightarrow> addr"
  pf_size :: "nat \<Rightarrow> size32"
  pf_next :: "nat \<Rightarrow> nat"
  pf_buckets :: "(addr, nat) avl list"
  pf_new :: nat

text \<open>The address of m_freePool.\<close>

definition POOL :: nat where "POOL = 1"

definition pfa_align :: "addr \<Rightarrow> addr" where "pfa_align address = address - address mod PFA_PAGE_SIZE"

definition GetOrder :: "size32 \<Rightarrow> size32 option" where
  "GetOrder pow2 = map_option (\<lambda>l. l - MinBucket) (Log2 pow2)"

definition node_end :: "pfa \<Rightarrow> nat \<Rightarrow> addr" where "node_end s n = pf_start s n + pf_size s n"

definition new_node :: "pfa \<Rightarrow> nat \<times> pfa" where
  "new_node s = (let n = pf_new s
     in (n, s\<lparr>pf_start := (pf_start s)(n := 0), pf_size := (pf_size s)(n := 0), pf_next := (pf_next s)(n := n), pf_new := n + 1\<rparr>))"

subsection \<open>The trees of one order\<close>

definition bucket_find :: "size32 \<Rightarrow> addr \<Rightarrow> pfa \<Rightarrow> nat outcome" where
  "bucket_find ord key s =
     (if unat ord \<ge> length (pf_buckets s) then Some (Inl OutOfBounds)
      else map_option Inr (avl_find 0 (pf_buckets s ! unat ord) key))"

definition bucket_min :: "size32 \<Rightarrow> pfa \<Rightarrow> nat outcome" where
  "bucket_min ord s =
     (if unat ord \<ge> length (pf_buckets s) then Some (Inl OutOfBounds) else Some (Inr (avl_min 0 (pf_buckets s ! unat ord))))"

definition bucket_remove :: "size32 \<Rightarrow> addr \<Rightarrow> pfa \<Rightarrow> pfa outcome" where
  "bucket_remove ord key s =
     (if unat ord \<ge> length (pf_buckets s) then Some (Inl OutOfBounds)
      else bindo (avl_remove key (pf_buckets s ! unat ord)) (\<lambda>(_, b). Some (Inr (s\<lparr>pf_buckets := (pf_buckets s)[unat ord := b]\<rparr>))))"

definition bucket_insert :: "size32 \<Rightarrow> addr \<Rightarrow> nat \<Rightarrow> pfa \<Rightarrow> pfa outcome" where
  "bucket_insert ord key n s =
     (if unat ord \<ge> length (pf_buckets s) then Some (Inl OutOfBounds)
      else bindo (avl_insert (pf_new s) key n (pf_buckets s ! unat ord)) (\<lambda>b.
             Some (Inr (s\<lparr>pf_buckets := (pf_buckets s)[unat ord := b], pf_new := pf_new s + 1\<rparr>))))"

subsection \<open>Nodes\<close>

definition GetFreeNode :: "pfa \<Rightarrow> fault + (nat \<times> pfa)" where
  "GetFreeNode s =
     (let node = pf_next s POOL
      in if node = POOL then Inr (new_node s)
         else if node = 0 then Inl NullDeref
         else let s = s\<lparr>pf_next := (pf_next s)(POOL := pf_next s node)\<rparr>
              in Inr (node, s\<lparr>pf_next := (pf_next s)(node := 0)\<rparr>))"

definition ReleaseNode :: "nat \<Rightarrow> pfa \<Rightarrow> pfa" where
  "ReleaseNode node s =
     (if node = 0 then s
      else let s = s\<lparr>pf_start := (pf_start s)(node := 0), pf_size := (pf_size s)(node := 0), pf_next := (pf_next s)(node := pf_next s POOL)\<rparr>
           in s\<lparr>pf_next := (pf_next s)(POOL := node)\<rparr>)"

text \<open>The halves of a split block: the node keeps the lower one, a node of the pool takes the upper one.\<close>

definition split_node :: "nat \<Rightarrow> size32 \<Rightarrow> pfa \<Rightarrow> fault + (nat \<times> pfa)" where
  "split_node split sz s =
     bindf (GetFreeNode s) (\<lambda>(remain, s).
       let s = s\<lparr>pf_start := (pf_start s)(remain := pf_start s split + sz)\<rparr>;
           s = s\<lparr>pf_size := (pf_size s)(remain := sz)\<rparr>;
           s = s\<lparr>pf_size := (pf_size s)(split := sz)\<rparr>;
           s = s\<lparr>pf_next := (pf_next s)(remain := 0)\<rparr>
       in Inr (remain, s))"

function GetExactFrame :: "addr \<Rightarrow> size32 \<Rightarrow> pfa \<Rightarrow> (nat \<times> pfa) outcome" where
  "GetExactFrame address ord s =
     bindo (bucket_find ord address s) (\<lambda>rval.
       if rval \<noteq> 0 then bindo (bucket_remove ord (pf_start s rval) s) (\<lambda>s. Some (Inr (rval, s)))
       else if ord \<ge> BucketSize - 1 then Some (Inr (0, s))
       else let sz = push_bit (unat ord) PFA_PAGE_SIZE;
                upper = sz \<noteq> 0 \<and> (address div sz) AND 1 \<noteq> 0;
                higherAddr = address - (if upper then sz else 0)
            in bindo (GetExactFrame higherAddr (ord + 1) s) (\<lambda>(split, s).
                 if split = 0 then Some (Inr (0, s))
                 else bindo (Some (split_node split sz s)) (\<lambda>(remain, s).
                        let (split, remain) = (if upper then (remain, split) else (split, remain))
                        in bindo (bucket_insert ord (pf_start s remain) remain s) (\<lambda>s. Some (Inr (split, s))))))"
  by pat_completeness auto

termination
  by (relation "measure (\<lambda>(a, ord, s). unat (BucketSize - ord))")
    (auto simp: BucketSize_def MinBucket_def unat_sub word_le_nat_alt unat_word_ariths)

function GetAvailableNode :: "size32 \<Rightarrow> pfa \<Rightarrow> (nat \<times> pfa) outcome" where
  "GetAvailableNode ord s =
     bindo (bucket_min ord s) (\<lambda>rval.
       if rval \<noteq> 0 then bindo (bucket_remove ord (pf_start s rval) s) (\<lambda>s. Some (Inr (rval, s)))
       else if ord \<ge> BucketSize - 1 then Some (Inr (0, s))
       else let sz = push_bit (unat ord) PFA_PAGE_SIZE
            in bindo (GetAvailableNode (ord + 1) s) (\<lambda>(split, s).
                 if split = 0 then Some (Inr (0, s))
                 else bindo (Some (split_node split sz s)) (\<lambda>(remain, s).
                        bindo (bucket_insert ord (pf_start s remain) remain s) (\<lambda>s. Some (Inr (split, s))))))"
  by pat_completeness auto

termination
  by (relation "measure (\<lambda>(ord, s). unat (BucketSize - ord))")
    (auto simp: BucketSize_def MinBucket_def unat_sub word_le_nat_alt unat_word_ariths)

subsection \<open>Interface\<close>

function pfa_init_loop :: "nat \<Rightarrow> size32 \<Rightarrow> size32 \<Rightarrow> size32 \<Rightarrow> addr \<Rightarrow> pfa \<Rightarrow> pfa outcome" where
  "pfa_init_loop root pow2 maxSize ord index s =
     (if pow2 < PFA_PAGE_SIZE then Some (Inr s)
      else if pow2 < maxSize then
        let s = s\<lparr>pf_start := (pf_start s)(root := index), pf_size := (pf_size s)(root := pow2)\<rparr>
        in bindo (bucket_insert ord (pf_start s root) root s) (\<lambda>s.
             pfa_init_loop root (drop_bit 1 pow2) (maxSize - pow2) (ord - 1) (index + pow2) s)
      else pfa_init_loop root (drop_bit 1 pow2) maxSize (ord - 1) index s)"
  by pat_completeness auto

termination
  by (relation "measure (\<lambda>(root, pow2, maxSize, ord, index, s). unat pow2)")
    (auto simp: PFA_PAGE_SIZE_def unat_drop_bit_eq drop_bit_nat_def word_less_nat_alt)

definition pfa_empty :: "size32 \<Rightarrow> pfa" where
  "pfa_empty maxSize = \<lparr>pf_max = maxSize, pf_start = (\<lambda>_. 0), pf_size = (\<lambda>_. 0), pf_next = (\<lambda>_. 0)(POOL := POOL),
     pf_buckets = replicate (unat BucketSize) (avl_new 0 0), pf_new = 2\<rparr>"

definition pfa_new :: "size32 \<Rightarrow> pfa outcome" where
  "pfa_new maxSize =
     (if \<not> maxSize > PFA_PAGE_SIZE then Some (Inl (AssertFail ''Invalid memory size.''))
      else let pow2 = ToPow2 maxSize
           in case GetOrder pow2 of
                None \<Rightarrow> None
              | Some ord \<Rightarrow>
                  let (root, s) = new_node (pfa_empty maxSize)
                  in pfa_init_loop root (if pow2 \<noteq> maxSize then drop_bit 1 pow2 else pow2) maxSize ord 0 s)"

definition pfa_acquire :: "addr \<Rightarrow> size32 \<Rightarrow> pfa \<Rightarrow> (page_block \<times> pfa) outcome" where
  "pfa_acquire address sz s =
     (if sz = 0 then Some (Inr (pb_nil, s))
      else if sz \<ge> pf_max s then Some (Inr (pb_nil, s))
      else let sz = (if sz < PFA_PAGE_SIZE then PFA_PAGE_SIZE else sz);
               alignedAddr = pfa_align address;
               sz = sz + (alignedAddr - address);
               frameCnt = ToPow2 sz div PFA_PAGE_SIZE
           in case GetOrder sz of
                None \<Rightarrow> None
              | Some ord \<Rightarrow>
                  bindo (GetExactFrame alignedAddr ord s) (\<lambda>(frame, s).
                    if frame = 0 then Some (Inr (pb_nil, s))
                    else Some (Inr (\<lparr>pb_start = pf_start s frame, pb_size = pf_size s frame\<rparr>,
                                    (ReleaseNode frame ^^ unat frameCnt) s))))"

definition pfa_allocate :: "size32 \<Rightarrow> pfa \<Rightarrow> (page_block \<times> pfa) outcome" where
  "pfa_allocate requested s =
     (if requested = 0 then Some (Inr (pb_nil, s))
      else if requested \<ge> pf_max s then Some (Inr (pb_nil, s))
      else let requested = (if requested < PFA_PAGE_SIZE then PFA_PAGE_SIZE else requested)
           in case GetOrder (ToPow2 requested) of
                None \<Rightarrow> None
              | Some ord \<Rightarrow>
                  bindo (GetAvailableNode ord s) (\<lambda>(frame, s).
                    if frame = 0 then Some (Inr (pb_nil, s))
                    else Some (Inr (\<lparr>pb_start = pf_start s frame, pb_size = pf_size s frame\<rparr>, ReleaseNode frame s))))"

text \<open>
  Release takes the block over, so that the caller's becomes none. It merges with its
  buddy for as long as that is free.
\<close>

function buddy_merge :: "nat \<Rightarrow> size32 \<Rightarrow> pfa \<Rightarrow> (size32 \<times> pfa) outcome" where
  "buddy_merge frame ord s =
     (if ord < BucketSize - 1 then
        if pf_size s frame = 0 then Some (Inl Undefined)
        else let upper = (pf_start s frame div pf_size s frame) AND 1 \<noteq> 0
             in bindo (bucket_find ord (if upper then pf_start s frame - pf_size s frame else node_end s frame) s) (\<lambda>buddy.
                  if buddy = 0 then Some (Inr (ord, s))
                  else bindo (bucket_remove ord (pf_start s buddy) s) (\<lambda>s.
                         let s = s\<lparr>pf_start := (pf_start s)(frame := min (pf_start s frame) (pf_start s buddy))\<rparr>;
                             s = s\<lparr>pf_size := (pf_size s)(frame := pf_size s frame + pf_size s buddy)\<rparr>
                         in buddy_merge frame (ord + 1) (ReleaseNode buddy s)))
      else Some (Inr (ord, s)))"
  by pat_completeness auto

termination
  by (relation "measure (\<lambda>(frame, ord, s). unat (BucketSize - ord))")
    (auto simp: BucketSize_def MinBucket_def unat_sub word_le_nat_alt word_less_nat_alt unat_word_ariths)

definition pfa_release :: "page_block \<Rightarrow> pfa \<Rightarrow> pfa outcome" where
  "pfa_release block s =
     (if \<not> pb_bool block then Some (Inr s)
      else bindo (Some (GetFreeNode s)) (\<lambda>(frame, s).
             let s = s\<lparr>pf_start := (pf_start s)(frame := pb_start block), pf_size := (pf_size s)(frame := pb_size block)\<rparr>
             in case GetOrder (pf_size s frame) of
                  None \<Rightarrow> None
                | Some ord \<Rightarrow> bindo (buddy_merge frame ord s) (\<lambda>(ord, s). bucket_insert ord (pf_start s frame) frame s)))"

definition CheckAllFree :: "pfa \<Rightarrow> bool" where
  "CheckAllFree s \<longleftrightarrow> sum_list (map av_count (pf_buckets s)) = 1"

end
