(* ===== verification/BuddyFacts.thy ===== *)
theory BuddyFacts
  imports Buddy
begin

text \<open>
  The buddy allocator against the set of free addresses: the free blocks of every order are
  disjoint and aligned, an allocation takes a block out of the free addresses, a release adds one, and any
  sequence of both hands out disjoint blocks. It rests on the tree only through the laws of a map.
\<close>

declare GetExactFrame.simps [simp del] GetAvailableNode.simps [simp del] buddy_merge.simps [simp del] pfa_init_loop.simps [simp del]

subsection \<open>Orders and blocks\<close>

definition osize :: "nat \<Rightarrow> nat" where "osize i = 4096 * 2 ^ i"

definition extent :: "addr \<Rightarrow> nat \<Rightarrow> nat set" where "extent k n = {unat k..<unat k + n}"

text \<open>The node describes the block of order i at k.\<close>

definition is_block :: "pfa \<Rightarrow> nat \<Rightarrow> addr \<Rightarrow> nat \<Rightarrow> bool" where
  "is_block s n k i \<longleftrightarrow> n \<noteq> 0 \<and> n \<noteq> POOL \<and> n < pf_new s \<and> pf_start s n = k \<and> unat (pf_size s n) = osize i
     \<and> osize i dvd unat k \<and> unat k + osize i \<le> 2 ^ 32"

type_synonym free_map = "nat \<Rightarrow> addr \<rightharpoonup> nat"

definition free_nodes :: "free_map \<Rightarrow> nat set" where "free_nodes F = {n. \<exists>i k. F i k = Some n}"

definition free_area :: "free_map \<Rightarrow> nat set" where "free_area F = \<Union> {extent k (osize i) | i k. F i k \<noteq> None}"

fun pool_linked :: "pfa \<Rightarrow> nat \<Rightarrow> nat list \<Rightarrow> bool" where
  "pool_linked s a [] \<longleftrightarrow> pf_next s a = POOL"
| "pool_linked s a (p # ps) \<longleftrightarrow> pf_next s a = p \<and> pool_linked s p ps"

text \<open>The allocator with the free blocks F and the detached nodes D, which are neither free blocks nor in the pool.\<close>

definition pool_ok :: "pfa \<Rightarrow> nat set \<Rightarrow> bool" where
  "pool_ok s N \<longleftrightarrow> (\<exists>ps. pool_linked s POOL ps \<and> distinct ps \<and> set ps \<subseteq> {2..<pf_new s} \<and> set ps \<inter> N = {})"

definition trees_ok :: "pfa \<Rightarrow> free_map \<Rightarrow> bool" where
  "trees_ok s F \<longleftrightarrow> length (pf_buckets s) = 20 \<and> (\<forall>i<20. avl_holds (pf_buckets s ! i) (F i) {..<pf_new s})
     \<and> (\<forall>i\<ge>20. F i = Map.empty)"

definition blocks_ok :: "pfa \<Rightarrow> free_map \<Rightarrow> bool" where
  "blocks_ok s F \<longleftrightarrow> (\<forall>i k n. F i k = Some n \<longrightarrow> is_block s n k i)
     \<and> (\<forall>i k i' k'. F i k \<noteq> None \<longrightarrow> F i' k' \<noteq> None \<longrightarrow> (i, k) \<noteq> (i', k') \<longrightarrow> extent k (osize i) \<inter> extent k' (osize i') = {})"

definition pfa_ok :: "pfa \<Rightarrow> free_map \<Rightarrow> nat set \<Rightarrow> bool" where
  "pfa_ok s F D \<longleftrightarrow> 2 \<le> pf_new s \<and> trees_ok s F \<and> blocks_ok s F \<and> pool_ok s (free_nodes F \<union> D)
     \<and> D \<subseteq> {2..<pf_new s} \<and> D \<inter> free_nodes F = {}"

lemma pfa_okD:
  assumes "pfa_ok s F D"
  shows "2 \<le> pf_new s" "trees_ok s F" "blocks_ok s F" "pool_ok s (free_nodes F \<union> D)" "D \<subseteq> {2..<pf_new s}" "D \<inter> free_nodes F = {}"
    "F i k = Some n \<Longrightarrow> is_block s n k i" "length (pf_buckets s) = 20" "i < 20 \<Longrightarrow> avl_holds (pf_buckets s ! i) (F i) {..<pf_new s}"
    "F i k \<noteq> None \<Longrightarrow> i < 20"
  using assms by (auto simp: pfa_ok_def trees_ok_def blocks_ok_def not_less [symmetric] simp del: not_less)

lemma free_node_unique: "blocks_ok s F \<Longrightarrow> F i k = Some n \<Longrightarrow> F i' k' = Some n \<Longrightarrow> i = i' \<and> k = k'"
proof -
  assume b: "blocks_ok s F" and n: "F i k = Some n" "F i' k' = Some n"
  have "is_block s n k i" "is_block s n k' i'" using b n by (auto simp: blocks_ok_def)
  then show ?thesis by (auto simp: is_block_def osize_def)
qed

text \<open>Changes of detached nodes are of no consequence.\<close>

lemma pool_linked_cong: "pool_linked s a ps \<Longrightarrow> (\<And>x. x \<in> insert a (set ps) \<Longrightarrow> pf_next s' x = pf_next s x) \<Longrightarrow> pool_linked s' a ps"
  by (induction ps arbitrary: a) auto

lemma pool_ok_cong:
  assumes "pool_ok s N" "pf_new s \<le> pf_new s'" "\<And>x. x \<notin> N \<Longrightarrow> pf_next s' x = pf_next s x" "POOL \<notin> N" "N' \<subseteq> N"
  shows "pool_ok s' N'"
proof -
  obtain ps where ps: "pool_linked s POOL ps" "distinct ps" "set ps \<subseteq> {2..<pf_new s}" "set ps \<inter> N = {}"
    using assms(1) by (auto simp: pool_ok_def)
  have "pool_linked s' POOL ps" by (rule pool_linked_cong [OF ps(1)]) (use assms(3,4) ps(4) in auto)
  then show ?thesis using ps assms(2,5) unfolding pool_ok_def by (intro exI [of _ ps]) auto
qed

lemma pool_not_used:
  assumes "pfa_ok s F D"
  shows "POOL \<notin> free_nodes F \<union> D" "0 \<notin> free_nodes F \<union> D"
  using pfa_okD(5,7) [OF assms] by (auto simp: free_nodes_def is_block_def POOL_def)

lemma is_block_cong:
  "is_block s n k i \<Longrightarrow> pf_new s \<le> pf_new s' \<Longrightarrow> pf_start s' n = pf_start s n \<Longrightarrow> pf_size s' n = pf_size s n \<Longrightarrow> is_block s' n k i"
  by (auto simp: is_block_def)

lemma pfa_ok_detached:
  assumes "pfa_ok s F D" "pf_buckets s' = pf_buckets s" "pf_new s' = pf_new s"
    and "\<And>n. n \<notin> D \<Longrightarrow> pf_start s' n = pf_start s n \<and> pf_size s' n = pf_size s n \<and> pf_next s' n = pf_next s n"
  shows "pfa_ok s' F D"
proof -
  note d = pfa_okD [OF assms(1)]
  have "trees_ok s' F" using d(2) assms(2,3) by (simp add: trees_ok_def)
  moreover have "blocks_ok s' F"
  proof -
    have "is_block s' n k i" if "F i k = Some n" for i k n
    proof (rule is_block_cong [OF d(7) [OF that]])
      have "n \<notin> D" using that d(6) by (auto simp: free_nodes_def)
      then show "pf_start s' n = pf_start s n" "pf_size s' n = pf_size s n" using assms(4) by auto
    qed (simp add: assms(3))
    then show ?thesis using d(3) by (simp add: blocks_ok_def)
  qed
  moreover have "pool_ok s' (free_nodes F \<union> D)"
    by (rule pool_ok_cong [OF d(4)]) (use assms(3,4) pool_not_used [OF assms(1)] in auto)
  ultimately show ?thesis using assms(1,3) by (simp add: pfa_ok_def)
qed

subsection \<open>Nodes of the pool\<close>

definition same_blocks :: "nat set \<Rightarrow> pfa \<Rightarrow> pfa \<Rightarrow> bool" where
  "same_blocks X s s' \<longleftrightarrow> pf_max s' = pf_max s \<and> pf_new s \<le> pf_new s'
     \<and> (\<forall>n. n \<notin> X \<longrightarrow> n < pf_new s \<longrightarrow> pf_start s' n = pf_start s n \<and> pf_size s' n = pf_size s n)"

lemma same_blocks_block: "same_blocks X s s' \<Longrightarrow> is_block s n k i \<Longrightarrow> n \<notin> X \<Longrightarrow> is_block s' n k i"
  by (rule is_block_cong) (auto simp: same_blocks_def is_block_def)

lemma same_blocks_trans: "same_blocks X s s1 \<Longrightarrow> same_blocks Y s1 s2 \<Longrightarrow> X \<union> Y \<subseteq> Z \<Longrightarrow> same_blocks Z s s2"
  by (auto simp: same_blocks_def subset_iff) (metis le_trans less_le_trans)+

lemma avl_holds_mono: "avl_holds t m A \<Longrightarrow> A \<subseteq> B \<Longrightarrow> avl_holds t m B"
  unfolding avl_holds_def by blast

lemma get_node_ok:
  assumes "pfa_ok s F D"
  shows "\<exists>n s'. GetFreeNode s = Inr (n, s') \<and> pfa_ok s' F (insert n D) \<and> n \<notin> D \<and> 2 \<le> n \<and> n < pf_new s'
    \<and> same_blocks {n} s s' \<and> pf_buckets s' = pf_buckets s"
proof -
  note d = pfa_okD [OF assms]
  obtain ps where ps: "pool_linked s POOL ps" "distinct ps" "set ps \<subseteq> {2..<pf_new s}" "set ps \<inter> (free_nodes F \<union> D) = {}"
    using d(4) by (auto simp: pool_ok_def)
  have fn: "x < pf_new s" if "x \<in> free_nodes F" for x using that d(7) by (auto simp: free_nodes_def is_block_def)
  show ?thesis
  proof (cases ps)
    case Nil
    define s' where "s' = snd (new_node s)"
    have s': "GetFreeNode s = Inr (pf_new s, s')" using ps(1) Nil by (simp add: GetFreeNode_def s'_def new_node_def Let_def)
    have f: "pf_new s' = pf_new s + 1" "pf_buckets s' = pf_buckets s" "pf_max s' = pf_max s"
      "x \<noteq> pf_new s \<Longrightarrow> pf_start s' x = pf_start s x \<and> pf_size s' x = pf_size s x \<and> pf_next s' x = pf_next s x" for x
      by (simp_all add: s'_def new_node_def Let_def)
    have "trees_ok s' F" using d(2) f(1,2) avl_holds_mono [where B = "{..<pf_new s'}"] by (fastforce simp: trees_ok_def)
    moreover have "blocks_ok s' F"
    proof -
      have "is_block s' n k i" if "F i k = Some n" for i k n
      proof (rule is_block_cong [OF d(7) [OF that]])
        have "n \<in> free_nodes F" using that by (auto simp: free_nodes_def)
        then have "n \<noteq> pf_new s" using fn by force
        then show "pf_start s' n = pf_start s n" "pf_size s' n = pf_size s n" using f(4) by auto
      qed (simp add: f(1))
      then show ?thesis using d(3) by (simp add: blocks_ok_def)
    qed
    moreover have "pool_ok s' (free_nodes F \<union> insert (pf_new s) D)"
      using ps(1) Nil f(4) [of POOL] d(1) by (auto simp: pool_ok_def POOL_def intro!: exI [of _ "[]"])
    moreover have "pf_new s \<notin> D" "pf_new s \<notin> free_nodes F" using d(5) fn by auto
    ultimately have "pfa_ok s' F (insert (pf_new s) D)" using d f(1) by (auto simp: pfa_ok_def)
    then show ?thesis using s' f d(1,5) by (auto simp: same_blocks_def)
  next
    case (Cons p ps')
    have p: "pf_next s POOL = p" "pool_linked s p ps'" "p \<noteq> POOL" "p \<noteq> 0" "p \<notin> D" "p \<notin> free_nodes F" "2 \<le> p" "p < pf_new s" "p \<notin> set ps'"
      "POOL \<notin> set ps'"
      using ps Cons by (auto simp: POOL_def)
    define s' where "s' = s\<lparr>pf_next := (pf_next s)(POOL := pf_next s p, p := 0)\<rparr>"
    have s': "GetFreeNode s = Inr (p, s')" using p by (simp add: GetFreeNode_def s'_def Let_def)
    have "pool_linked s' POOL ps'"
    proof (cases ps')
      case Nil
      then show ?thesis using p by (simp add: s'_def)
    next
      case (Cons q qs)
      have "pool_linked s' q qs" by (rule pool_linked_cong [of s]) (use p Cons in \<open>auto simp: s'_def\<close>)
      then show ?thesis using p Cons by (simp add: s'_def)
    qed
    then have "pool_ok s' (free_nodes F \<union> insert p D)"
      using ps Cons p unfolding pool_ok_def by (intro exI [of _ ps']) (auto simp: s'_def)
    then have "pfa_ok s' F (insert p D)"
      using d p by (auto simp: pfa_ok_def trees_ok_def blocks_ok_def is_block_def s'_def)
    then show ?thesis using s' p by (auto simp: same_blocks_def s'_def)
  qed
qed

lemma release_node_ok:
  assumes "pfa_ok s F D" "n \<in> D"
  shows "pfa_ok (ReleaseNode n s) F (D - {n})" "same_blocks {n} s (ReleaseNode n s)" "pf_buckets (ReleaseNode n s) = pf_buckets s"
proof -
  note d = pfa_okD [OF assms(1)]
  obtain ps where ps: "pool_linked s POOL ps" "distinct ps" "set ps \<subseteq> {2..<pf_new s}" "set ps \<inter> (free_nodes F \<union> D) = {}"
    using d(4) by (auto simp: pool_ok_def)
  have n: "n \<noteq> 0" "n \<noteq> POOL" "2 \<le> n" "n < pf_new s" "n \<notin> free_nodes F" "n \<notin> set ps" using assms(2) d(5,6) ps(4) by (auto simp: POOL_def)
  define S where "S = ReleaseNode n s"
  have f: "pf_next S x = (if x = POOL then n else if x = n then pf_next s POOL else pf_next s x)" "pf_new S = pf_new s"
    "pf_buckets S = pf_buckets s" "x \<noteq> n \<Longrightarrow> pf_start S x = pf_start s x \<and> pf_size S x = pf_size s x" "pf_max S = pf_max s" for x
    using n by (simp_all add: S_def ReleaseNode_def Let_def)
  have "pool_linked S n ps"
  proof (cases ps)
    case Nil
    then show ?thesis using ps(1) n(2) by (simp add: f(1))
  next
    case (Cons q qs)
    have "POOL \<notin> set ps" using ps(3) by (auto simp: POOL_def)
    have "pool_linked S q qs"
    proof (rule pool_linked_cong [of s])
      show "pool_linked s q qs" using ps(1) Cons by simp
      show "pf_next S x = pf_next s x" if "x \<in> insert q (set qs)" for x using that \<open>POOL \<notin> set ps\<close> n(6) Cons by (auto simp: f(1))
    qed
    then show ?thesis using ps(1) Cons n(2) by (simp add: f(1))
  qed
  then have "pool_linked S POOL (n # ps)" by (simp add: f(1))
  moreover have "distinct (n # ps)" "set (n # ps) \<subseteq> {2..<pf_new S}" "set (n # ps) \<inter> (free_nodes F \<union> (D - {n})) = {}"
    using ps(2-4) n(3-6) by (auto simp: f(2))
  ultimately have "pool_ok S (free_nodes F \<union> (D - {n}))" unfolding pool_ok_def by blast
  moreover have "blocks_ok S F"
  proof -
    have "is_block S m k i" if "F i k = Some m" for i k m
    proof (rule is_block_cong [OF d(7) [OF that]])
      have "m \<noteq> n" using that n(5) by (auto simp: free_nodes_def)
      then show "pf_start S m = pf_start s m" "pf_size S m = pf_size s m" using f(4) by auto
    qed (simp add: f(2))
    then show ?thesis using d(3) by (simp add: blocks_ok_def)
  qed
  moreover have "trees_ok S F" using d(2) by (simp add: trees_ok_def f(2,3))
  ultimately have "pfa_ok S F (D - {n})" using d(1,5,6) by (auto simp: pfa_ok_def f(2))
  then show "pfa_ok (ReleaseNode n s) F (D - {n})" by (simp add: S_def)
  have "same_blocks {n} s S" using f(2,4,5) by (auto simp: same_blocks_def)
  then show "same_blocks {n} s (ReleaseNode n s)" by (simp add: S_def)
  show "pf_buckets (ReleaseNode n s) = pf_buckets s" using f(3) by (simp add: S_def)
qed

subsection \<open>The trees\<close>

lemma holds_finite: "avl_holds t m A \<Longrightarrow> finite (dom m)"
  unfolding avl_holds_def contents_def using finite_dom_map_of by blast

lemma bucket_find_ok:
  assumes "pfa_ok s F D" "unat ord < 20"
  shows "bucket_find ord k s = Some (Inr (case F (unat ord) k of Some n \<Rightarrow> n | None \<Rightarrow> 0))"
  using assms pfa_okD(8) [OF assms(1)] tree.find_law [OF pfa_okD(9) [OF assms]] by (simp add: bucket_find_def)

lemma bucket_min_ok:
  assumes "pfa_ok s F D" "unat ord < 20"
  shows "bucket_min ord s = Some (Inr (if F (unat ord) = Map.empty then 0 else the (F (unat ord) (Min (dom (F (unat ord)))))))"
  using assms pfa_okD(8) [OF assms(1)] tree.least_law [OF pfa_okD(9) [OF assms]] by (simp add: bucket_min_def)

lemma free_nodes_remove:
  assumes "F i k = Some n"
  shows "free_nodes F = insert n (free_nodes (F(i := (F i)(k := None))))"
proof (intro set_eqI iffI)
  fix x assume "x \<in> free_nodes F"
  then obtain j y where x: "F j y = Some x" by (auto simp: free_nodes_def)
  show "x \<in> insert n (free_nodes (F(i := (F i)(k := None))))"
  proof (cases "j = i \<and> y = k")
    case True
    then show ?thesis using x assms by simp
  next
    case False
    then have "(F(i := (F i)(k := None))) j y = Some x" using x by auto
    then show ?thesis unfolding free_nodes_def by blast
  qed
qed (use assms in \<open>auto simp: free_nodes_def split: if_splits\<close>)

lemma free_nodes_insert:
  assumes "F i k = None"
  shows "free_nodes (F(i := (F i)(k \<mapsto> n))) = insert n (free_nodes F)"
  using free_nodes_remove [of "F(i := (F i)(k \<mapsto> n))" i k n] assms by (simp add: fun_upd_idem)

lemma free_area_sub: "F i k \<noteq> None \<Longrightarrow> extent k (osize i) \<subseteq> free_area F"
  by (auto simp: free_area_def)

lemma bucket_remove_ok:
  assumes ok: "pfa_ok s F D" and o: "unat ord < 20" and n: "F (unat ord) k = Some n"
  shows "\<exists>s'. bucket_remove ord k s = Some (Inr s') \<and> pfa_ok s' (F(unat ord := (F (unat ord))(k := None))) (insert n D)
    \<and> same_blocks {} s s' \<and> pf_next s' = pf_next s \<and> is_block s' n k (unat ord) \<and> n \<notin> D"
proof -
  note d = pfa_okD [OF ok]
  let ?i = "unat ord"
  let ?F = "F(?i := (F ?i)(k := None))"
  obtain b where b: "avl_remove k (pf_buckets s ! ?i) = Some (Inr (k \<in> dom (F ?i), b))" "avl_holds b ((F ?i)(k := None)) {..<pf_new s}"
    using tree_map.rem_law [OF d(9) [OF o], of k] by blast
  define S where "S = s\<lparr>pf_buckets := (pf_buckets s)[?i := b]\<rparr>"
  have e: "bucket_remove ord k s = Some (Inr S)" using o d(8) b(1) by (simp add: bucket_remove_def S_def)
  have f: "pf_new S = pf_new s" "pf_start S = pf_start s" "pf_size S = pf_size s" "pf_next S = pf_next s" "pf_max S = pf_max s"
    by (simp_all add: S_def)
  have nb: "is_block s n k ?i" by (rule d(7) [OF n])
  have sub: "F i x = Some m \<and> (i, x) \<noteq> (?i, k)" if "?F i x = Some m" for i x m
    using that by (cases "i = ?i"; cases "x = k") auto
  have nn: "n \<notin> free_nodes ?F"
  proof
    assume "n \<in> free_nodes ?F"
    then obtain i x where "?F i x = Some n" unfolding free_nodes_def by blast
    with sub [OF this] free_node_unique [OF d(3) n] show False by blast
  qed
  have fns: "free_nodes F = insert n (free_nodes ?F)" by (rule free_nodes_remove [of F, OF n])
  have u: "free_nodes ?F \<union> insert n D = free_nodes F \<union> D" unfolding fns by blast
  have "n \<in> free_nodes F" using n by (auto simp: free_nodes_def)
  then have nD: "n \<notin> D" using d(6) by auto
  have "trees_ok S ?F" using d(2) b(2) o by (auto simp: trees_ok_def S_def nth_list_update)
  moreover have "blocks_ok S ?F"
  proof -
    have "is_block S m x i" if "?F i x = Some m" for i x m
      using is_block_cong [OF d(7)] sub [OF that] f by simp
    moreover have "extent x (osize i) \<inter> extent y (osize j) = {}" if xy: "?F i x \<noteq> None" "?F j y \<noteq> None" "(i, x) \<noteq> (j, y)" for i j x y
    proof -
      obtain m m' where "?F i x = Some m" "?F j y = Some m'" using xy by blast
      then have "F i x \<noteq> None" "F j y \<noteq> None" using sub by blast+
      then show ?thesis using d(3) xy(3) unfolding blocks_ok_def by blast
    qed
    ultimately show ?thesis unfolding blocks_ok_def by blast
  qed
  moreover have "pool_ok S (free_nodes ?F \<union> insert n D)" using d(4) unfolding u by (rule pool_ok_cong) (use f pool_not_used [OF ok] in auto)
  moreover have "n \<in> {2..<pf_new s}" using nb by (auto simp: is_block_def POOL_def)
  ultimately have "pfa_ok S ?F (insert n D)" using d(1,5,6) nn fns unfolding pfa_ok_def f(1) by blast
  moreover have "is_block S n k ?i" by (rule is_block_cong [OF nb]) (simp_all add: f)
  moreover have "same_blocks {} s S" by (simp add: same_blocks_def f)
  ultimately show ?thesis using e f(4) nD by blast
qed

lemma bucket_insert_ok:
  assumes ok: "pfa_ok s F D" and o: "unat ord < 20" and n: "n \<in> D" "is_block s n k (unat ord)"
    and a: "extent k (osize (unat ord)) \<inter> free_area F = {}"
  shows "\<exists>s'. bucket_insert ord k n s = Some (Inr s') \<and> pfa_ok s' (F(unat ord := (F (unat ord))(k \<mapsto> n))) (D - {n})
    \<and> same_blocks {} s s'"
proof -
  note d = pfa_okD [OF ok]
  let ?i = "unat ord"
  let ?F = "F(?i := (F ?i)(k \<mapsto> n))"
  have fresh: "pf_new s \<notin> {..<pf_new s}" "pf_new s \<notin> {0, ROOT}" using d(1) by (auto simp: ROOT_def)
  obtain b where b: "avl_insert (pf_new s) k n (pf_buckets s ! ?i) = Some (Inr b)"
    "avl_holds b ((F ?i)(k \<mapsto> n)) (insert (pf_new s) {..<pf_new s})"
    using tree_map.ins_law [OF d(9) [OF o] fresh, of k n] by blast
  define S where "S = s\<lparr>pf_buckets := (pf_buckets s)[?i := b], pf_new := pf_new s + 1\<rparr>"
  have e: "bucket_insert ord k n s = Some (Inr S)" using o d(8) b(1) by (simp add: bucket_insert_def S_def)
  have f: "pf_new S = pf_new s + 1" "pf_start S = pf_start s" "pf_size S = pf_size s" "pf_next S = pf_next s" "pf_max S = pf_max s"
    "pf_buckets S = (pf_buckets s)[?i := b]"
    by (simp_all add: S_def)
  have new: "F ?i k = None"
  proof (rule ccontr)
    assume "F ?i k \<noteq> None"
    then have "extent k (osize ?i) \<subseteq> free_area F" by (auto simp: free_area_def)
    moreover have "extent k (osize ?i) \<noteq> {}" by (simp add: extent_def osize_def)
    ultimately show False using a by blast
  qed
  have fn: "free_nodes ?F = insert n (free_nodes F)" by (rule free_nodes_insert [of F, OF new])
  have sub: "?F i x = Some m \<Longrightarrow> (i, x) = (?i, k) \<and> m = n \<or> (i, x) \<noteq> (?i, k) \<and> F i x = Some m" for i x m by (auto split: if_splits)
  have "avl_holds b ((F ?i)(k \<mapsto> n)) {..<pf_new S}" by (rule avl_holds_mono [OF b(2)]) (auto simp: f)
  moreover have "avl_holds (pf_buckets s ! i) (F i) {..<pf_new S}" if "i < 20" for i
    by (rule avl_holds_mono [OF d(9) [OF that]]) (auto simp: f)
  ultimately have "trees_ok S ?F" using d(2) o by (auto simp: trees_ok_def nth_list_update f(6) simp del: fun_upd_apply) (auto simp: fun_upd_other)
  moreover have "blocks_ok S ?F"
  proof -
    have "is_block S m x i" if "?F i x = Some m" for i x m
      using sub [OF that] is_block_cong [OF d(7)] is_block_cong [OF n(2)] f by auto
    moreover have "extent x (osize i) \<inter> extent y (osize j) = {}" if xy: "?F i x \<noteq> None" "?F j y \<noteq> None" "(i, x) \<noteq> (j, y)" for i j x y
    proof -
      have fa: "extent x (osize i) \<subseteq> free_area F" if "F i x \<noteq> None" for i x using that by (auto simp: free_area_def)
      obtain m m' where "?F i x = Some m" "?F j y = Some m'" using xy by auto
      from sub [OF this(1)] sub [OF this(2)] show ?thesis
      proof (elim disjE conjE, goal_cases)
        case 2
        then show ?case using a fa [of j y] by auto
      next
        case 3
        then show ?case using a fa [of i x] by auto
      next
        case 4
        then show ?case using d(3) xy(3) unfolding blocks_ok_def by (metis not_None_eq)
      qed (use xy(3) in simp)
    qed
    ultimately show ?thesis unfolding blocks_ok_def by blast
  qed
  moreover have "free_nodes ?F \<union> (D - {n}) = free_nodes F \<union> D" using n(1) fn by auto
  then have "pool_ok S (free_nodes ?F \<union> (D - {n}))"
    using pool_ok_cong [OF d(4), of S] f(1,4) pool_not_used [OF ok] by auto
  ultimately have "pfa_ok S ?F (D - {n})"
  proof -
    assume *: "trees_ok S ?F" "blocks_ok S ?F" "pool_ok S (free_nodes ?F \<union> (D - {n}))"
    have "2 \<le> pf_new S" "D - {n} \<subseteq> {2..<pf_new S}" "(D - {n}) \<inter> free_nodes ?F = {}" using d(1,5,6) fn f(1) by auto
    with * show ?thesis unfolding pfa_ok_def by blast
  qed
  moreover have "same_blocks {} s S" by (simp add: same_blocks_def f)
  ultimately show ?thesis using e by blast
qed

subsection \<open>Areas\<close>

lemma free_area_in: "x \<in> free_area F \<longleftrightarrow> (\<exists>i k. F i k \<noteq> None \<and> x \<in> extent k (osize i))"
  by (auto simp: free_area_def)

lemma free_area_insert: "F i k = None \<Longrightarrow> free_area (F(i := (F i)(k \<mapsto> n))) = free_area F \<union> extent k (osize i)"
proof (intro set_eqI iffI)
  fix x assume n: "F i k = None" and "x \<in> free_area F \<union> extent k (osize i)"
  then show "x \<in> free_area (F(i := (F i)(k \<mapsto> n)))"
  proof (elim UnE)
    assume "x \<in> free_area F"
    then obtain j y where j: "F j y \<noteq> None" "x \<in> extent y (osize j)" unfolding free_area_in by blast
    have "(F(i := (F i)(k \<mapsto> n))) j y \<noteq> None" using j(1) by auto
    then show ?thesis using j(2) unfolding free_area_in by blast
  next
    assume "x \<in> extent k (osize i)"
    moreover have "(F(i := (F i)(k \<mapsto> n))) i k \<noteq> None" by simp
    ultimately show ?thesis unfolding free_area_in by blast
  qed
qed (auto simp: free_area_in split: if_splits)

lemma free_area_remove:
  assumes "blocks_ok s F" "F i k = Some n"
  shows "free_area F = free_area (F(i := (F i)(k := None))) \<union> extent k (osize i)"
    "free_area (F(i := (F i)(k := None))) \<inter> extent k (osize i) = {}"
proof -
  let ?F = "F(i := (F i)(k := None))"
  have "F = ?F(i := (?F i)(k \<mapsto> n))" using assms(2) by (simp add: fun_upd_idem)
  then show "free_area F = free_area ?F \<union> extent k (osize i)" using free_area_insert [of ?F i k n] by simp
  have "x \<notin> extent k (osize i)" if x: "x \<in> free_area ?F" for x
  proof -
    obtain j y where j: "?F j y \<noteq> None" "x \<in> extent y (osize j)" using x unfolding free_area_in by blast
    then have "F j y \<noteq> None" "(j, y) \<noteq> (i, k)" by (auto split: if_splits)
    then have "extent y (osize j) \<inter> extent k (osize i) = {}" using assms unfolding blocks_ok_def by blast
    then show ?thesis using j(2) by blast
  qed
  then show "free_area ?F \<inter> extent k (osize i) = {}" by blast
qed

lemma order_size: "unat ord < 20 \<Longrightarrow> unat (push_bit (unat ord) PFA_PAGE_SIZE) = osize (unat ord)"
proof -
  assume o: "unat ord < 20"
  have "(2::nat) ^ unat ord \<le> 2 ^ 19" by (rule power_increasing) (use o in auto)
  then show ?thesis by (simp add: push_bit_eq_mult PFA_PAGE_SIZE_def unat_mult_lem osize_def) (use o in \<open>simp add: unat_word_ariths unat_exp\<close>)
qed

lemma order_next: "unat ord < 19 \<Longrightarrow> unat (ord + 1 :: size32) = Suc (unat ord)"
  by (simp add: unat_word_ariths)

lemma order_last: "unat (BucketSize - 1) = 19" "ord \<ge> BucketSize - 1 \<longleftrightarrow> 19 \<le> unat ord"
  by (simp_all add: BucketSize_def MinBucket_def word_le_nat_alt)

lemma osize_Suc: "osize (Suc i) = osize i + osize i" "0 < osize i"
  by (simp_all add: osize_def)

lemma is_block_size: "is_block s n k i \<Longrightarrow> unat ord = i \<Longrightarrow> i < 20 \<Longrightarrow> pf_size s n = push_bit (unat ord) PFA_PAGE_SIZE"
  using order_size [of ord] by (intro word_eq_unatI) (simp only: is_block_def)

lemma extent_split:
  assumes "unat k + osize i + osize i \<le> 2 ^ 32" "unat sz = osize i"
  shows "unat (k + sz) = unat k + osize i" "extent k (osize (Suc i)) = extent k (osize i) \<union> extent (k + sz) (osize i)"
    "extent k (osize i) \<inter> extent (k + sz) (osize i) = {}"
proof -
  have "unat k + unat sz < 2 ^ LENGTH(32)" using assms osize_Suc(2) [of i] by simp
  then show u: "unat (k + sz) = unat k + osize i" using unat_add_noov [of k sz] assms(2) by simp
  show "extent k (osize (Suc i)) = extent k (osize i) \<union> extent (k + sz) (osize i)"
    "extent k (osize i) \<inter> extent (k + sz) (osize i) = {}"
    by (auto simp: extent_def u osize_Suc)
qed

lemma split_ok:
  assumes ok: "pfa_ok s F D" and n: "n \<in> D" "is_block s n k (Suc i)" and o: "unat ord = i" "i < 19"
    and sz: "sz = push_bit (unat ord) PFA_PAGE_SIZE"
  shows "\<exists>m s'. split_node n sz s = Inr (m, s') \<and> pfa_ok s' F (insert m D) \<and> m \<notin> D
    \<and> is_block s' n k i \<and> is_block s' m (k + sz) i \<and> same_blocks {n, m} s s'"
proof -
  have u: "unat sz = osize i" using order_size [of ord] o sz by simp
  have b: "unat k + osize i + osize i \<le> 2 ^ 32" "osize (Suc i) dvd unat k" "n \<noteq> 0" "n \<noteq> POOL" "n < pf_new s" "pf_start s n = k"
    using n(2) by (auto simp: is_block_def osize_Suc)
  have dv: "osize i dvd unat k" using b(2) by (rule dvd_trans [rotated]) (simp add: osize_Suc)
  note e = extent_split [OF b(1) u]
  obtain m s1 where m: "GetFreeNode s = Inr (m, s1)" "pfa_ok s1 F (insert m D)" "m \<notin> D" "2 \<le> m" "m < pf_new s1"
    "same_blocks {m} s s1" "pf_buckets s1 = pf_buckets s"
    using get_node_ok [OF ok] by blast
  have nm: "n \<noteq> m" "m \<noteq> n" using n(1) m(3) by auto
  have f1: "pf_start s1 n = k" "n < pf_new s1" using m(6) nm b(5,6) by (auto simp: same_blocks_def)
  define s' where "s' = s1\<lparr>pf_start := (pf_start s1)(m := k + sz), pf_size := (pf_size s1)(m := sz, n := sz), pf_next := (pf_next s1)(m := 0)\<rparr>"
  have "split_node n sz s = Inr (m, s')" using m(1) f1 by (simp add: split_node_def Let_def s'_def)
  moreover have "pfa_ok s' F (insert m D)"
    by (rule pfa_ok_detached [OF m(2)]) (use n(1) in \<open>auto simp: s'_def\<close>)
  moreover have "is_block s' n k i"
    using b dv f1 nm u by (simp add: is_block_def s'_def)
  moreover have "is_block s' m (k + sz) i"
    using m(4,5) nm u b(1) dv by (simp add: is_block_def s'_def POOL_def e(1))
  moreover have "same_blocks {n, m} s s'" using m(6) by (auto simp: same_blocks_def s'_def)
  ultimately show ?thesis using m(3) by blast
qed

subsection \<open>Allocation\<close>

text \<open>A block taken out of the free ones, with the node that describes it.\<close>

definition taken :: "pfa \<Rightarrow> free_map \<Rightarrow> nat \<Rightarrow> nat \<Rightarrow> pfa \<Rightarrow> bool" where
  "taken s F i n s' \<longleftrightarrow> (\<exists>k F'. is_block s' n k i \<and> pfa_ok s' F' {n} \<and> free_area F = free_area F' \<union> extent k (osize i)
     \<and> free_area F' \<inter> extent k (osize i) = {} \<and> pf_max s' = pf_max s)"

lemma take_min:
  assumes ok: "pfa_ok s F {}" and o: "unat ord < 20" and ne: "F (unat ord) \<noteq> Map.empty"
  obtains n s' where "bucket_min ord s = Some (Inr n)" "n \<noteq> 0" "bucket_remove ord (pf_start s n) s = Some (Inr s')"
    "taken s F (unat ord) n s'"
proof -
  note d = pfa_okD [OF ok]
  define k where "k = Min (dom (F (unat ord)))"
  have "finite (dom (F (unat ord)))" by (rule holds_finite [OF d(9) [OF o]])
  then have "k \<in> dom (F (unat ord))" unfolding k_def using ne by (intro Min_in) auto
  then obtain n where n: "F (unat ord) k = Some n" by blast
  have b: "bucket_min ord s = Some (Inr n)" using bucket_min_ok [OF ok o] ne n by (simp add: k_def)
  have nb: "is_block s n k (unat ord)" by (rule d(7) [OF n])
  obtain s' where s': "bucket_remove ord k s = Some (Inr s')" "pfa_ok s' (F(unat ord := (F (unat ord))(k := None))) {n}"
    "same_blocks {} s s'" "is_block s' n k (unat ord)" using bucket_remove_ok [OF ok o n] by blast
  have "taken s F (unat ord) n s'"
    unfolding taken_def using s'(2-4) free_area_remove [OF d(3), of "unat ord" k n, OF n] by (auto simp: same_blocks_def)
  moreover have "n \<noteq> 0" "pf_start s n = k" using nb by (auto simp: is_block_def)
  ultimately show ?thesis using that [of n s'] b s'(1) by simp
qed

lemma available_ok:
  "pfa_ok s F {} \<Longrightarrow> unat ord < 20 \<Longrightarrow>
     (if \<exists>i. unat ord \<le> i \<and> F i \<noteq> Map.empty
      then \<exists>n s'. GetAvailableNode ord s = Some (Inr (n, s')) \<and> n \<noteq> 0 \<and> taken s F (unat ord) n s'
      else GetAvailableNode ord s = Some (Inr (0, s)))"
proof (induction ord s rule: GetAvailableNode.induct)
  case (1 ord s)
  note ok = 1(2) and o = 1(3)
  note d = pfa_okD [OF ok]
  show ?case
  proof (cases "F (unat ord) = Map.empty")
    case False
    obtain n s' where n: "bucket_min ord s = Some (Inr n)" "n \<noteq> 0" "bucket_remove ord (pf_start s n) s = Some (Inr s')"
      "taken s F (unat ord) n s'" by (rule take_min [OF ok o False])
    then have "GetAvailableNode ord s = Some (Inr (n, s'))" by (subst GetAvailableNode.simps) simp
    then show ?thesis using n(2,4) False by auto
  next
    case True
    have m: "bucket_min ord s = Some (Inr 0)" using bucket_min_ok [OF ok o] True by simp
    show ?thesis
    proof (cases "19 \<le> unat ord")
      case last: True
      have "F i = Map.empty" if "unat ord \<le> i" for i
        using that last o True d(10) [of i] by (cases "i = unat ord") fastforce+
      moreover have "GetAvailableNode ord s = Some (Inr (0, s))" using m last by (subst GetAvailableNode.simps) (simp add: order_last(2))
      ultimately show ?thesis by auto
    next
      case False
      then have l: "\<not> ord \<ge> BucketSize - 1" "unat ord < 19" by (simp_all add: order_last(2))
      have o1: "unat (ord + 1) = Suc (unat ord)" by (rule order_next [OF l(2)])
      define sz where "sz = push_bit (unat ord) PFA_PAGE_SIZE"
      have go: "GetAvailableNode ord s = bindo (GetAvailableNode (ord + 1) s) (\<lambda>(split, s).
          if split = 0 then Some (Inr (0, s))
          else bindo (Some (split_node split sz s)) (\<lambda>(remain, s).
                 bindo (bucket_insert ord (pf_start s remain) remain s) (\<lambda>s. Some (Inr (split, s)))))"
        unfolding sz_def using m l(1) by (subst GetAvailableNode.simps) simp
      have ex: "(\<exists>i. unat ord \<le> i \<and> F i \<noteq> Map.empty) \<longleftrightarrow> (\<exists>i. unat (ord + 1) \<le> i \<and> F i \<noteq> Map.empty)"
        unfolding o1 using True by (metis Suc_leD le_antisym not_less_eq_eq)
      have ih: "if \<exists>i. unat (ord + 1) \<le> i \<and> F i \<noteq> Map.empty
          then \<exists>n s'. GetAvailableNode (ord + 1) s = Some (Inr (n, s')) \<and> n \<noteq> 0 \<and> taken s F (unat (ord + 1)) n s'
          else GetAvailableNode (ord + 1) s = Some (Inr (0, s))"
        by (rule 1(1) [where x = 0]) (use m l(1,2) ok o1 in \<open>simp_all add: sz_def\<close>)
      show ?thesis
      proof (cases "\<exists>i. unat (ord + 1) \<le> i \<and> F i \<noteq> Map.empty")
        case none: False
        then have "GetAvailableNode (ord + 1) s = Some (Inr (0, s))" using ih by (simp only: if_False)
        then have "GetAvailableNode ord s = Some (Inr (0, s))" using go by simp
        then show ?thesis using none ex by (simp only: if_False)
      next
        case some: True
        then obtain n s1 where n: "GetAvailableNode (ord + 1) s = Some (Inr (n, s1))" "n \<noteq> 0" "taken s F (Suc (unat ord)) n s1"
          using ih unfolding o1 by (simp only: if_True) blast
        then obtain k F1 where t: "is_block s1 n k (Suc (unat ord))" "pfa_ok s1 F1 {n}"
          "free_area F = free_area F1 \<union> extent k (osize (Suc (unat ord)))" "free_area F1 \<inter> extent k (osize (Suc (unat ord))) = {}"
          "pf_max s1 = pf_max s" unfolding taken_def by blast
        obtain r s2 where r: "split_node n sz s1 = Inr (r, s2)" "pfa_ok s2 F1 {r, n}" "r \<noteq> n" "is_block s2 n k (unat ord)"
          "is_block s2 r (k + sz) (unat ord)" "same_blocks {n, r} s1 s2"
          using split_ok [OF t(2) _ t(1) refl l(2) sz_def] by auto
        have u: "unat sz = osize (unat ord)" using order_size [OF o] by (simp add: sz_def)
        have kk: "unat k + osize (unat ord) + osize (unat ord) \<le> 2 ^ 32" using t(1) by (simp add: is_block_def osize_Suc)
        note e = extent_split [OF kk u]
        have "extent (k + sz) (osize (unat ord)) \<inter> free_area F1 = {}" using t(4) unfolding e(2) by blast
        then obtain s3 where s3: "bucket_insert ord (k + sz) r s2 = Some (Inr s3)"
          "pfa_ok s3 (F1(unat ord := (F1 (unat ord))(k + sz \<mapsto> r))) ({r, n} - {r})" "same_blocks {} s2 s3"
          using bucket_insert_ok [OF r(2) o _ r(5)] by blast
        have new: "F1 (unat ord) (k + sz) = None"
        proof (rule ccontr)
          assume "F1 (unat ord) (k + sz) \<noteq> None"
          then have "extent (k + sz) (osize (unat ord)) \<subseteq> free_area F1" by (rule free_area_sub)
          then have "unat (k + sz) \<in> free_area F1" using osize_Suc(2) by (auto simp: extent_def)
          then show False using t(4) osize_Suc(2) unfolding e(2) by (auto simp: extent_def)
        qed
        note fa = free_area_insert [of F1, OF new, of r]
        have "pf_start s2 r = k + sz" using r(5) by (simp add: is_block_def)
        then have "GetAvailableNode ord s = Some (Inr (n, s3))" using go n(1,2) r(1) s3(1) by simp
        moreover have "taken s F (unat ord) n s3" unfolding taken_def
        proof (intro exI conjI)
          show "is_block s3 n k (unat ord)" by (rule same_blocks_block [OF s3(3) r(4)]) simp
          show "pfa_ok s3 (F1(unat ord := (F1 (unat ord))(k + sz \<mapsto> r))) {n}" using s3(2) r(3) by (simp add: insert_Diff_if)
          show "free_area F = free_area (F1(unat ord := (F1 (unat ord))(k + sz \<mapsto> r))) \<union> extent k (osize (unat ord))"
            unfolding fa t(3) e(2) by blast
          show "free_area (F1(unat ord := (F1 (unat ord))(k + sz \<mapsto> r))) \<inter> extent k (osize (unat ord)) = {}"
            unfolding fa using t(4) e(2,3) by blast
          show "pf_max s3 = pf_max s" using s3(3) r(6) t(5) by (simp add: same_blocks_def)
        qed
        ultimately show ?thesis using n(2) some ex by auto
      qed
    qed
  qed
qed

subsection \<open>Powers of two\<close>

text \<open>Each step of HighBit doubles the distance over which a bit is spread downwards.\<close>

lemma spread:
  assumes "\<And>i. bit w i \<longleftrightarrow> (\<exists>d<k. bit v (i + d))"
  shows "bit (w OR drop_bit k w) i \<longleftrightarrow> (\<exists>d<2 * k. bit v (i + d))"
proof -
  have "(\<exists>d<2 * k. bit v (i + d)) \<longleftrightarrow> (\<exists>d<k. bit v (i + d)) \<or> (\<exists>d<k. bit v (k + i + d))"
  proof
    assume "\<exists>d<2 * k. bit v (i + d)"
    then obtain d where d: "d < 2 * k" "bit v (i + d)" by blast
    show "(\<exists>d<k. bit v (i + d)) \<or> (\<exists>d<k. bit v (k + i + d))"
    proof (cases "d < k")
      case False
      then have "d - k < k" "k + i + (d - k) = i + d" using d(1) by auto
      then show ?thesis using d(2) by metis
    qed (use d in blast)
  next
    assume "(\<exists>d<k. bit v (i + d)) \<or> (\<exists>d<k. bit v (k + i + d))"
    then show "\<exists>d<2 * k. bit v (i + d)"
    proof (elim disjE exE conjE)
      fix d assume "d < k" "bit v (k + i + d)"
      then have "k + d < 2 * k" "bit v (i + (k + d))" by (simp_all add: ac_simps)
      then show ?thesis by blast
    next
      fix d assume "d < k" "bit v (i + d)"
      moreover from this have "d < 2 * k" by simp
      ultimately show ?thesis by blast
    qed
  qed
  then show ?thesis by (simp add: bit_or_iff bit_drop_bit_eq assms)
qed

lemma highest_bit:
  assumes "v \<noteq> (0 :: size32)"
  obtains m where "m < 32" "bit v m" "\<And>i. m < i \<Longrightarrow> \<not> bit v i"
proof -
  have ex: "\<exists>i. bit v i" using assms by (metis bit_0_eq bit_eqI bot_apply bot_bool_def)
  have fin: "finite {i. bit v i}" by (rule finite_subset [of _ "{..<32}"]) (auto dest: bit_imp_le_length)
  define m where "m = Max {i. bit v i}"
  have "m \<in> {i. bit v i}" unfolding m_def by (rule Max_in [OF fin]) (use ex in auto)
  moreover have "\<not> bit v i" if "m < i" for i
    using that Max_ge [OF fin, of i] unfolding m_def [symmetric] by auto
  ultimately show ?thesis using that [of m] bit_imp_le_length [of v m] by auto
qed

lemma high_bit_ok:
  assumes "bit v m" "\<And>i. m < i \<Longrightarrow> \<not> bit v i"
  shows "HighBit v = 2 ^ m"
proof -
  have m: "m < 32" using bit_imp_le_length [OF assms(1)] by simp
  define w where "w = (let v = v OR drop_bit 1 v; v = v OR drop_bit 2 v; v = v OR drop_bit 4 v; v = v OR drop_bit 8 v in v OR drop_bit 16 v)"
  have s0: "bit v i \<longleftrightarrow> (\<exists>d<1. bit v (i + d))" for i by simp
  have w: "bit w i \<longleftrightarrow> (\<exists>d<32. bit v (i + d))" for i
    unfolding w_def Let_def
    using spread [OF spread [OF spread [OF spread [OF spread [of v 1 v, OF s0]]]]] by simp
  have wb: "bit w i \<longleftrightarrow> i \<le> m" for i
  proof
    assume "bit w i"
    then obtain d where "bit v (i + d)" using w by blast
    then have "\<not> m < i + d" using assms(2) by blast
    then show "i \<le> m" by simp
  next
    assume "i \<le> m"
    then have "m - i < 32" "bit v (i + (m - i))" using assms(1) m by auto
    then show "bit w i" using w by blast
  qed
  have "HighBit v = w AND NOT (drop_bit 1 w)" unfolding HighBit_def w_def Let_def ..
  also have "\<dots> = 2 ^ m"
    by (rule bit_word_eqI) (auto simp: bit_and_iff bit_not_iff bit_drop_bit_eq wb bit_exp_iff m)
  finally show ?thesis .
qed

lemma to_pow2_ok:
  assumes "v \<noteq> 0" "unat v \<le> 2 ^ 31"
  obtains m where "ToPow2 v = 2 ^ m" "unat v \<le> 2 ^ m" "2 ^ m < 2 * unat v" "m \<le> 31"
proof -
  obtain m where m: "m < 32" "bit v m" "\<And>i. m < i \<Longrightarrow> \<not> bit v i" by (rule highest_bit [OF assms(1)]) blast
  have h: "HighBit v = 2 ^ m" by (rule high_bit_ok [OF m(2,3)])
  have lo: "2 ^ m \<le> unat v"
  proof (rule ccontr)
    assume "\<not> 2 ^ m \<le> unat v"
    then have "unat v div 2 ^ m = 0" by simp
    then show False using m(2) by (simp add: bit_word_unat)
  qed
  have hi: "unat v < 2 ^ Suc m"
  proof -
    have "take_bit (Suc m) v = v"
      by (rule bit_word_eqI) (use m(3) in \<open>auto simp: bit_take_bit_iff less_Suc_eq_le intro: leI\<close>)
    then have "unat v = take_bit (Suc m) (unat v)" by (metis unsigned_take_bit_eq)
    then show ?thesis by (metis take_bit_nat_less_exp)
  qed
  have u: "unat (2 ^ m :: size32) = 2 ^ m" using m(1) by (simp add: unat_exp)
  show ?thesis
  proof (cases "unat v = 2 ^ m")
    case True
    then have "ToPow2 v = 2 ^ m" using h u by (simp add: ToPow2_def word_less_nat_alt)
    then show ?thesis using that [of m] True m(1) by simp
  next
    case False
    then have l: "2 ^ m < unat v" using lo by simp
    then have "(2::nat) ^ m < 2 ^ 31" using assms(2) by linarith
    then have "m < 31" by (rule power_less_imp_less_exp [rotated]) simp
    moreover have "ToPow2 v = 2 ^ Suc m" using h u l by (simp add: ToPow2_def word_less_nat_alt push_bit_eq_mult)
    ultimately show ?thesis using that [of "Suc m"] hi l by simp
  qed
qed

lemma sub_log2_ok: "i \<le> m \<Longrightarrow> m \<le> 31 \<Longrightarrow> SubLog2 (2 ^ m) (2 ^ i) (of_nat i) = Some (of_nat m)"
proof (induction i rule: inc_induct)
  case base
  then show ?case by (subst SubLog2.simps) simp
next
  case (step i)
  have "(2::nat) ^ i < 2 ^ m" using step(2) by simp
  then have "\<not> (2 ^ i :: size32) \<ge> 2 ^ m" using step(2,4) by (simp add: word_le_nat_alt unat_exp)
  then show ?case using step(3,4) by (subst SubLog2.simps) (simp add: push_bit_eq_mult ac_simps)
qed

lemma order_of:
  assumes "unat sz = osize i" "i < 20"
  shows "GetOrder sz = Some (of_nat i)" "unat (of_nat i :: size32) = i"
proof -
  have "osize i = 2 ^ (12 + i)" by (simp add: osize_def power_add)
  then have "sz = 2 ^ (12 + i)" using assms by (intro word_eq_unatI) (simp add: unat_exp)
  moreover have "SubLog2 (2 ^ (12 + i)) (2 ^ 0) (of_nat 0) = Some (of_nat (12 + i))" by (rule sub_log2_ok) (use assms(2) in auto)
  ultimately show "GetOrder sz = Some (of_nat i)" by (simp add: GetOrder_def Log2_def MinBucket_def)
  show "unat (of_nat i :: size32) = i" using assms(2) by (simp add: unat_of_nat_len)
qed

subsection \<open>Allocate\<close>

definition block_fits :: "page_block \<Rightarrow> nat \<Rightarrow> bool" where
  "block_fits b i \<longleftrightarrow> i < 20 \<and> unat (pb_size b) = osize i \<and> osize i dvd unat (pb_start b) \<and> unat (pb_start b) + osize i \<le> 2 ^ 32"

definition pb_area :: "page_block \<Rightarrow> nat set" where "pb_area b = extent (pb_start b) (unat (pb_size b))"

lemma request_order:
  assumes "r \<noteq> 0" "unat r \<le> 2 ^ 31"
  obtains ord where "GetOrder (ToPow2 (if r < PFA_PAGE_SIZE then PFA_PAGE_SIZE else r)) = Some ord" "unat ord < 20"
    "unat r \<le> osize (unat ord)" "\<And>i. i < unat ord \<Longrightarrow> osize i < unat r"
proof -
  define v where "v = (if r < PFA_PAGE_SIZE then PFA_PAGE_SIZE else r)"
  have v: "v \<noteq> 0" "unat v \<le> 2 ^ 31" "4096 \<le> unat v" "unat r \<le> unat v" "4096 < unat v \<Longrightarrow> v = r"
    using assms(2) by (auto simp: v_def PFA_PAGE_SIZE_def word_less_nat_alt)
  obtain m where m: "ToPow2 v = 2 ^ m" "unat v \<le> 2 ^ m" "2 ^ m < 2 * unat v" "m \<le> 31" by (rule to_pow2_ok [OF v(1,2)])
  have "(2::nat) ^ 12 \<le> 2 ^ m" using m(2) v(3) by simp
  then have m12: "12 \<le> m" by (rule power_le_imp_le_exp [rotated]) simp
  define i where "i = m - 12"
  have i: "m = 12 + i" "i < 20" using m12 m(4) by (simp_all add: i_def)
  then have i: "m = 12 + i" "i < 20" "osize i = 2 ^ m" by (simp_all add: osize_def power_add)
  have "unat (ToPow2 v) = osize i" using m(1,4) i(3) by (simp add: unat_exp)
  from order_of [OF this i(2)] have o: "GetOrder (ToPow2 v) = Some (of_nat i)" "unat (of_nat i :: size32) = i" by simp_all
  have "osize j < unat r" if "j < i" for j
  proof -
    have "(2::nat) ^ Suc (12 + j) \<le> 2 ^ m" using that i(1) by (intro power_increasing) auto
    then have j: "osize j < unat v" using m(3) by (simp add: osize_def power_add)
    moreover have "4096 \<le> osize j" by (simp add: osize_def)
    ultimately show ?thesis using v(5) by simp
  qed
  then show ?thesis using that [of "of_nat i"] o m(2) v(4) i(2,3) by (simp flip: v_def)
qed

lemma allocate_ok:
  assumes ok: "pfa_ok s F {}" and r: "r \<noteq> 0" "r < pf_max s" "unat (pf_max s) \<le> 2 ^ 31"
  shows "pfa_allocate r s = Some (Inr (pb_nil, s)) \<and> (\<forall>i k. F i k \<noteq> None \<longrightarrow> osize i < unat r)
    \<or> (\<exists>b s' i F'. pfa_allocate r s = Some (Inr (b, s')) \<and> block_fits b i \<and> unat r \<le> osize i \<and> pfa_ok s' F' {}
        \<and> free_area F = free_area F' \<union> pb_area b \<and> free_area F' \<inter> pb_area b = {} \<and> pf_max s' = pf_max s)"
proof -
  have rm: "\<not> r \<ge> pf_max s" "unat r \<le> 2 ^ 31" using r(2,3) by (auto simp: word_less_nat_alt word_le_nat_alt)
  obtain ord where o: "GetOrder (ToPow2 (if r < PFA_PAGE_SIZE then PFA_PAGE_SIZE else r)) = Some ord" "unat ord < 20"
    "unat r \<le> osize (unat ord)" "\<And>i. i < unat ord \<Longrightarrow> osize i < unat r" using request_order [OF r(1) rm(2)] by metis
  have go: "pfa_allocate r s = bindo (GetAvailableNode ord s) (\<lambda>(frame, s).
      if frame = 0 then Some (Inr (pb_nil, s))
      else Some (Inr (\<lparr>pb_start = pf_start s frame, pb_size = pf_size s frame\<rparr>, ReleaseNode frame s)))"
    using r(1) rm(1) o(1) by (simp add: pfa_allocate_def)
  note av = available_ok [OF ok o(2)]
  show ?thesis
  proof (cases "\<exists>i. unat ord \<le> i \<and> F i \<noteq> Map.empty")
    case False
    then have "pfa_allocate r s = Some (Inr (pb_nil, s))" using av unfolding go by (simp only: if_False) simp
    moreover have "osize i < unat r" if "F i k \<noteq> None" for i k
    proof -
      have "F i \<noteq> Map.empty" using that by auto
      then have "i < unat ord" using False by (meson not_le)
      then show ?thesis by (rule o(4))
    qed
    ultimately show ?thesis by blast
  next
    case True
    then obtain n s1 where n: "GetAvailableNode ord s = Some (Inr (n, s1))" "n \<noteq> 0" "taken s F (unat ord) n s1"
      using av by (simp only: if_True) blast
    then obtain k F' where t: "is_block s1 n k (unat ord)" "pfa_ok s1 F' {n}" "free_area F = free_area F' \<union> extent k (osize (unat ord))"
      "free_area F' \<inter> extent k (osize (unat ord)) = {}" "pf_max s1 = pf_max s" unfolding taken_def by blast
    let ?b = "\<lparr>pb_start = pf_start s1 n, pb_size = pf_size s1 n\<rparr>"
    have "pfa_allocate r s = Some (Inr (?b, ReleaseNode n s1))" using n(1,2) unfolding go by simp
    moreover have "block_fits ?b (unat ord)" "pb_area ?b = extent k (osize (unat ord))"
      using t(1) o(2) by (simp_all add: block_fits_def pb_area_def is_block_def)
    moreover have "pfa_ok (ReleaseNode n s1) F' {}" "pf_max (ReleaseNode n s1) = pf_max s"
      using release_node_ok [OF t(2), of n] t(5) by (simp_all add: same_blocks_def)
    ultimately show ?thesis using t(3,4) o(3) by metis
  qed
qed

subsection \<open>Release\<close>

lemma odd_and: "(w AND 1 \<noteq> 0) \<longleftrightarrow> odd (unat w)" for w :: size32
proof -
  have "(w AND 1 \<noteq> 0) \<longleftrightarrow> bit w 0" by (simp add: and_one_eq bit_0 even_iff_mod_2_eq_zero)
  then show ?thesis by (simp add: bit_word_unat)
qed

text \<open>A block and its buddy together are a block of the next order.\<close>

lemma buddy_pair:
  fixes k sz :: size32
  assumes sz: "unat sz = osize i" "i < 19" and k: "osize i dvd unat k" "unat k + osize i \<le> 2 ^ 32"
  defines "b \<equiv> (if (k div sz) AND 1 \<noteq> 0 then k - sz else k + sz)"
  shows "osize (Suc i) dvd unat (min k b)" "unat (min k b) + osize (Suc i) \<le> 2 ^ 32"
    "extent (min k b) (osize (Suc i)) = extent k (osize i) \<union> extent b (osize i)"
proof -
  obtain q where q: "unat k = q * osize i" using k(1) by (metis dvd_div_mult_self)
  have pos: "0 < osize i" by (rule osize_Suc)
  have dv: "unat (k div sz) = q" using sz(1) q pos by (simp add: unat_div)
  have "\<exists>l. b = (if odd q then k - sz else k + sz) \<and> min k b = l \<and> unat l + osize i + osize i \<le> 2 ^ 32 \<and> osize (Suc i) dvd unat l
      \<and> {k, b} = {l, l + sz}"
  proof (cases "odd q")
    case True
    then obtain p where p: "q = Suc (2 * p)" by (metis oddE add.commute plus_1_eq_Suc)
    have b: "b = k - sz" using True by (simp add: b_def odd_and dv)
    have le: "unat sz \<le> unat k" using sz(1) q p by simp
    have ub: "unat (k - sz) = 2 * p * osize i" using unat_sub_noov [OF le] sz(1) q p by simp
    have "osize i + osize i dvd 2 * p * osize i" by (intro dvdI [of _ _ p]) simp
    moreover have "min k b = k - sz" using ub q p pos by (simp add: b min_def word_le_nat_alt)
    ultimately show ?thesis using True b ub k(2) q p by (intro exI [of _ "k - sz"]) (auto simp: osize_Suc)
  next
    case False
    then obtain p where p: "q = 2 * p" by blast
    have b: "b = k + sz" using False by (simp add: b_def odd_and dv)
    have big: "(2::nat) ^ 32 = 2 ^ (20 - i) * osize i" using sz(2) by (simp add: osize_def flip: power_add)
    have "q + 1 \<le> 2 ^ (20 - i)" using k(2) pos unfolding big q by (metis add.commute mult_Suc mult_le_cancel2 plus_1_eq_Suc)
    moreover have "even ((2::nat) ^ (20 - i))" using sz(2) by simp
    ultimately have "q + 2 \<le> 2 ^ (20 - i)" using p by presburger
    then have room: "unat k + osize i + osize i \<le> 2 ^ 32" unfolding big q by (metis add.assoc add_mult_distrib mult_2 mult_le_mono1)
    have "unat (k + sz) = unat k + osize i" by (rule extent_split(1) [OF room sz(1)])
    then have "min k b = k" by (simp add: b min_def word_le_nat_alt)
    moreover have "osize i + osize i dvd 2 * p * osize i" by (intro dvdI [of _ _ p]) simp
    ultimately show ?thesis using False b room q p by (intro exI [of _ k]) (auto simp: osize_Suc)
  qed
  then obtain l where l: "min k b = l" "unat l + osize i + osize i \<le> 2 ^ 32" "osize (Suc i) dvd unat l" "{k, b} = {l, l + sz}" by blast
  show "osize (Suc i) dvd unat (min k b)" "unat (min k b) + osize (Suc i) \<le> 2 ^ 32" using l by (simp_all add: osize_Suc)
  have "extent k (osize i) \<union> extent b (osize i) = \<Union> ((\<lambda>x. extent x (osize i)) ` {k, b})" by simp
  also have "\<dots> = extent l (osize (Suc i))" unfolding l(4) extent_split(2) [OF l(2) sz(1)] by simp
  finally show "extent (min k b) (osize (Suc i)) = extent k (osize i) \<union> extent b (osize i)" using l(1) by simp
qed


lemma buddy_merge_ok:
  "pfa_ok s F {n} \<Longrightarrow> is_block s n k (unat ord) \<Longrightarrow> unat ord < 20 \<Longrightarrow> free_area F \<inter> extent k (osize (unat ord)) = {} \<Longrightarrow>
     \<exists>ord' s' F' k'. buddy_merge n ord s = Some (Inr (ord', s')) \<and> pfa_ok s' F' {n} \<and> is_block s' n k' (unat ord') \<and> unat ord' < 20
       \<and> free_area F' \<inter> extent k' (osize (unat ord')) = {}
       \<and> free_area F' \<union> extent k' (osize (unat ord')) = free_area F \<union> extent k (osize (unat ord)) \<and> pf_max s' = pf_max s"
proof (induction n ord s arbitrary: F k rule: buddy_merge.induct)
  case (1 n ord s)
  note ok = 1(2) and nb = 1(3) and o = 1(4) and dis = 1(5)
  note d = pfa_okD [OF ok]
  have stop: ?case if "buddy_merge n ord s = Some (Inr (ord, s))" using that ok nb o dis by blast
  show ?case
  proof (cases "ord < BucketSize - 1")
    case False
    then show ?thesis by (intro stop) (subst buddy_merge.simps, simp)
  next
    case True
    then have l: "unat ord < 19" by (simp add: word_less_nat_alt order_last(1))
    have o1: "unat (ord + 1) = Suc (unat ord)" by (rule order_next [OF l])
    define sz where "sz = pf_size s n"
    have n: "pf_start s n = k" "unat sz = osize (unat ord)" "osize (unat ord) dvd unat k" "unat k + osize (unat ord) \<le> 2 ^ 32"
      "n \<noteq> 0" "n \<noteq> POOL" "n < pf_new s" using nb by (auto simp: is_block_def sz_def)
    have sz0: "sz \<noteq> 0" using n(2) osize_Suc(2) [of "unat ord"] by auto
    define up where "up = ((k div sz) AND 1 \<noteq> 0)"
    define b where "b = (if up then k - sz else k + sz)"
    note bp = buddy_pair [OF n(2) l n(3,4), folded up_def, folded b_def]
    have fd: "bucket_find ord b s = Some (Inr (case F (unat ord) b of Some m \<Rightarrow> m | None \<Rightarrow> 0))" by (rule bucket_find_ok [OF ok o])
    have key: "(if up then pf_start s n - pf_size s n else node_end s n) = b" by (simp add: b_def n(1) node_end_def flip: sz_def)
    have go: "buddy_merge n ord s = bindo (bucket_find ord b s) (\<lambda>buddy.
        if buddy = 0 then Some (Inr (ord, s))
        else bindo (bucket_remove ord (pf_start s buddy) s) (\<lambda>s.
          let s = s\<lparr>pf_start := (pf_start s)(n := min (pf_start s n) (pf_start s buddy))\<rparr>;
              s = s\<lparr>pf_size := (pf_size s)(n := pf_size s n + pf_size s buddy)\<rparr>
          in buddy_merge n (ord + 1) (ReleaseNode buddy s)))"
      using True sz0 key n(1) by (subst buddy_merge.simps) (simp add: sz_def [symmetric] up_def [symmetric])
    show ?thesis
    proof (cases "F (unat ord) b")
      case None
      then show ?thesis using go fd by (intro stop) simp
    next
      case (Some m)
      have mb: "is_block s m b (unat ord)" by (rule d(7) [OF Some])
      have m: "m \<noteq> 0" "pf_start s m = b" using mb by (auto simp: is_block_def)
      obtain s1 where s1: "bucket_remove ord b s = Some (Inr s1)"
        "pfa_ok s1 (F(unat ord := (F (unat ord))(b := None))) {m, n}" "same_blocks {} s s1" "is_block s1 m b (unat ord)" "m \<notin> {n}"
        using bucket_remove_ok [OF ok o Some] by auto
      let ?F = "F(unat ord := (F (unat ord))(b := None))"
      have n1: "is_block s1 n k (unat ord)" by (rule same_blocks_block [OF s1(3) nb]) simp
      have u: "pf_size s1 m = sz" "pf_size s1 n = sz" "pf_start s1 n = k" "pf_start s1 m = b" "n < pf_new s1"
        using s1(4) n1 n(2) by (auto simp: is_block_def intro: word_eq_unatI)
      define s1' where "s1' = s1\<lparr>pf_start := (pf_start s1)(n := min (pf_start s1 n) (pf_start s1 m))\<rparr>"
      define s2 where "s2 = s1'\<lparr>pf_size := (pf_size s1')(n := pf_size s1' n + pf_size s1' m)\<rparr>"
      have s2_eq: "s2 = s1\<lparr>pf_start := (pf_start s1)(n := min k b), pf_size := (pf_size s1)(n := sz + sz)\<rparr>"
        using u by (simp add: s2_def s1'_def)
      have s2: "pfa_ok s2 ?F {m, n}" by (rule pfa_ok_detached [OF s1(2)]) (auto simp: s2_eq)
      define s3 where "s3 = ReleaseNode m s2"
      have "m \<in> {m, n}" "{m, n} - {m} = {n}" using s1(5) by auto
      note s3 = release_node_ok [OF s2 this(1), unfolded this(2), folded s3_def]
      have go2: "buddy_merge n ord s = buddy_merge n (ord + 1) s3"
        using go fd m s1(1,5) u by (simp add: Some s3_def s2_eq Let_def)
      have "osize (unat ord) + osize (unat ord) < 2 ^ 32"
      proof -
        have "(2::nat) ^ Suc (unat ord) \<le> 2 ^ 19" by (rule power_increasing) (use l in auto)
        then show ?thesis by (simp add: osize_def)
      qed
      then have "unat (sz + sz) = osize (Suc (unat ord))" using unat_add_noov [of sz sz] n(2) by (simp add: osize_Suc)
      then have "is_block s2 n (min k b) (unat (ord + 1))" using bp(1,2) n(5,6) u(5) unfolding o1 by (simp add: is_block_def s2_eq)
      then have nb3: "is_block s3 n (min k b) (unat (ord + 1))" by (rule same_blocks_block [OF s3(2)]) (use s1(5) in simp)
      have ord1: "unat (ord + 1) < 20" using l by (simp add: o1)
      note fa = free_area_remove [OF d(3), of "unat ord" b m, OF Some]
      have ex: "extent (min k b) (osize (unat (ord + 1))) = extent k (osize (unat ord)) \<union> extent b (osize (unat ord))"
        unfolding o1 by (rule bp(3))
      have dis3: "free_area ?F \<inter> extent (min k b) (osize (unat (ord + 1))) = {}" using dis fa unfolding ex by blast
      have un: "free_area ?F \<union> extent (min k b) (osize (unat (ord + 1))) = free_area F \<union> extent k (osize (unat ord))"
        using fa(1) unfolding ex by blast
      have mx: "pf_max s3 = pf_max s" using s3(2) s1(3) by (simp add: same_blocks_def s2_eq)
      have P: "pf_size s n \<noteq> 0" "up = ((pf_start s n div pf_size s n) AND 1 \<noteq> 0)"
        "bucket_find ord (if up then pf_start s n - pf_size s n else node_end s n) s = Some (Inr m)"
        "bucket_remove ord (pf_start s m) s = Some (Inr s1)"
        using sz0 fd key m(2) s1(1) Some by (simp_all add: up_def n(1) flip: sz_def)
      from 1(1) [OF True P(1-3) m(1) P(4) s1'_def s2_def, folded s3_def, OF s3(1) nb3 ord1 dis3]
      show ?thesis unfolding go2 un mx .
    qed
  qed
qed

end
