(* ===== verification/BuddyRun.thy ===== *)
theory BuddyRun
  imports BuddyFacts
begin

text \<open>
  Runs of the buddy allocator, and what its constructor and Acquire do instead of what they mean to.
\<close>

subsection \<open>Release\<close>

lemma release_ok:
  assumes ok: "pfa_ok s F {}" and b: "block_fits b i" "free_area F \<inter> pb_area b = {}"
  shows "\<exists>s' F'. pfa_release b s = Some (Inr s') \<and> pfa_ok s' F' {} \<and> free_area F' = free_area F \<union> pb_area b \<and> pf_max s' = pf_max s"
proof -
  have bs: "i < 20" "unat (pb_size b) = osize i" "osize i dvd unat (pb_start b)" "unat (pb_start b) + osize i \<le> 2 ^ 32"
    using b(1) by (auto simp: block_fits_def)
  have pb: "pb_bool b" using bs(2) osize_Suc(2) [of i] by (auto simp: pb_bool_def)
  have ar: "pb_area b = extent (pb_start b) (osize i)" by (simp add: pb_area_def bs(2))
  obtain n s1 where n: "GetFreeNode s = Inr (n, s1)" "pfa_ok s1 F {n}" "2 \<le> n" "n < pf_new s1" "same_blocks {n} s s1"
    using get_node_ok [OF ok] by blast
  define s2 where "s2 = s1\<lparr>pf_start := (pf_start s1)(n := pb_start b), pf_size := (pf_size s1)(n := pb_size b)\<rparr>"
  have s2: "pfa_ok s2 F {n}" by (rule pfa_ok_detached [OF n(2)]) (auto simp: s2_def)
  define ord :: size32 where "ord = of_nat i"
  have o: "GetOrder (pb_size b) = Some ord" "unat ord = i" unfolding ord_def by (rule order_of [OF bs(2,1)])+
  have nb: "is_block s2 n (pb_start b) (unat ord)" using n(3,4) bs by (simp add: is_block_def s2_def o(2) POOL_def)
  have o20: "unat ord < 20" using bs(1) o(2) by simp
  have dis: "free_area F \<inter> extent (pb_start b) (osize (unat ord)) = {}" using b(2) by (simp add: ar o(2))
  obtain ord' s3 F3 k where m: "buddy_merge n ord s2 = Some (Inr (ord', s3))" "pfa_ok s3 F3 {n}" "is_block s3 n k (unat ord')"
    "unat ord' < 20" "free_area F3 \<inter> extent k (osize (unat ord')) = {}"
    "free_area F3 \<union> extent k (osize (unat ord')) = free_area F \<union> extent (pb_start b) (osize (unat ord))" "pf_max s3 = pf_max s2"
    using buddy_merge_ok [OF s2 nb o20 dis] by blast
  obtain s4 where s4: "bucket_insert ord' k n s3 = Some (Inr s4)"
    "pfa_ok s4 (F3(unat ord' := (F3 (unat ord'))(k \<mapsto> n))) ({n} - {n})" "same_blocks {} s3 s4"
    using bucket_insert_ok [OF m(2,4) _ m(3)] m(5) by blast
  have new: "F3 (unat ord') k = None"
  proof (rule ccontr)
    assume "F3 (unat ord') k \<noteq> None"
    then have "extent k (osize (unat ord')) \<subseteq> free_area F3" by (rule free_area_sub)
    moreover have "unat k \<in> extent k (osize (unat ord'))" using osize_Suc(2) by (simp add: extent_def)
    ultimately show False using m(5) by blast
  qed
  have "pf_start s3 n = k" using m(3) by (simp add: is_block_def)
  then have "pfa_release b s = Some (Inr s4)"
    using n(1) pb o(1) m(1) s4(1) by (simp add: pfa_release_def s2_def)
  moreover have "free_area (F3(unat ord' := (F3 (unat ord'))(k \<mapsto> n))) = free_area F \<union> pb_area b"
    using free_area_insert [of F3, OF new, of n] m(6) by (simp add: ar o(2))
  moreover have "pf_max s4 = pf_max s" using s4(3) m(7) n(5) by (simp add: same_blocks_def s2_def)
  ultimately show ?thesis using s4(2) by (metis Diff_cancel)
qed

subsection \<open>Runs\<close>

datatype pfa_request = PReq size32 | PRel nat

text \<open>A run of requests; PRel gives back one of the blocks held, which Release takes over.\<close>

fun pfa_run :: "pfa_request list \<Rightarrow> pfa \<Rightarrow> page_block list \<Rightarrow> (pfa \<times> page_block list) outcome" where
  "pfa_run [] s H = Some (Inr (s, H))"
| "pfa_run (PReq r # rs) s H = bindo (pfa_allocate r s) (\<lambda>(b, s). pfa_run rs s (if pb_bool b then b # H else H))"
| "pfa_run (PRel i # rs) s H =
     (if i < length H then bindo (pfa_release (H ! i) s) (\<lambda>s. pfa_run rs s (take i H @ drop (Suc i) H))
      else pfa_run rs s H)"

definition blocks_apart :: "page_block list \<Rightarrow> bool" where
  "blocks_apart H \<longleftrightarrow> sorted_wrt (\<lambda>a b. pb_area a \<inter> pb_area b = {}) H \<and> (\<forall>b \<in> set H. \<exists>i. block_fits b i)"

definition held_area :: "page_block list \<Rightarrow> nat set" where "held_area H = \<Union> (pb_area ` set H)"

definition pfa_held :: "nat set \<Rightarrow> pfa \<Rightarrow> page_block list \<Rightarrow> bool" where
  "pfa_held M s H \<longleftrightarrow> (\<exists>F. pfa_ok s F {} \<and> blocks_apart H \<and> free_area F \<inter> held_area H = {} \<and> free_area F \<union> held_area H = M)
     \<and> unat (pf_max s) \<le> 2 ^ 31"

lemma held_area_Cons: "held_area (b # H) = pb_area b \<union> held_area H"
  by (simp add: held_area_def)

lemma held_area_split: "held_area (xs @ b # ys) = pb_area b \<union> held_area (xs @ ys)"
  by (auto simp: held_area_def)

lemma blocks_apart_split:
  "blocks_apart (xs @ b # ys) \<Longrightarrow> blocks_apart (xs @ ys) \<and> pb_area b \<inter> held_area (xs @ ys) = {} \<and> (\<exists>i. block_fits b i)"
  by (auto simp: blocks_apart_def held_area_def sorted_wrt_append)

lemma held_request:
  assumes "pfa_held M s H"
  shows "\<exists>b s'. pfa_allocate r s = Some (Inr (b, s')) \<and> pfa_held M s' (if pb_bool b then b # H else H)"
proof (cases "r = 0 \<or> \<not> r < pf_max s")
  case True
  then have "pfa_allocate r s = Some (Inr (pb_nil, s))" by (auto simp: pfa_allocate_def)
  then show ?thesis using assms by (simp add: pb_bool_def pb_nil_def)
next
  case False
  then have r: "r \<noteq> 0" "r < pf_max s" "unat (pf_max s) \<le> 2 ^ 31" using assms by (auto simp: pfa_held_def)
  obtain F where F: "pfa_ok s F {}" "blocks_apart H" "free_area F \<inter> held_area H = {}" "free_area F \<union> held_area H = M"
    using assms unfolding pfa_held_def by blast
  from allocate_ok [OF F(1) r] show ?thesis
  proof (elim disjE exE conjE)
    assume "pfa_allocate r s = Some (Inr (pb_nil, s))"
    then show ?thesis using assms by (simp add: pb_bool_def pb_nil_def)
  next
    fix b s' i F' assume b: "pfa_allocate r s = Some (Inr (b, s'))" "block_fits b i" "pfa_ok s' F' {}"
      "free_area F = free_area F' \<union> pb_area b" "free_area F' \<inter> pb_area b = {}" "pf_max s' = pf_max s"
    have pb: "pb_bool b" using b(2) osize_Suc(2) [of i] by (auto simp: pb_bool_def block_fits_def)
    have dj: "pb_area b \<inter> held_area H = {}" using F(3) b(4) by blast
    have "blocks_apart (b # H)" using F(2) b(2) dj by (auto simp: blocks_apart_def held_area_def)
    moreover have "free_area F' \<inter> held_area (b # H) = {}" "free_area F' \<union> held_area (b # H) = M"
      using F(3,4) b(4,5) by (auto simp: held_area_Cons)
    ultimately have "pfa_held M s' (b # H)" using b(3,6) r(3) unfolding pfa_held_def by auto
    then show ?thesis using b(1) pb by auto
  qed
qed

lemma held_release:
  assumes "pfa_held M s H" "i < length H"
  shows "\<exists>s'. pfa_release (H ! i) s = Some (Inr s') \<and> pfa_held M s' (take i H @ drop (Suc i) H)"
proof -
  obtain F where F: "pfa_ok s F {}" "blocks_apart H" "free_area F \<inter> held_area H = {}" "free_area F \<union> held_area H = M"
    "unat (pf_max s) \<le> 2 ^ 31"
    using assms(1) unfolding pfa_held_def by blast
  let ?b = "H ! i" and ?H = "take i H @ drop (Suc i) H"
  have H: "H = take i H @ ?b # drop (Suc i) H" by (rule id_take_nth_drop [OF assms(2)])
  have ha: "held_area H = pb_area ?b \<union> held_area ?H" using held_area_split [of "take i H" ?b "drop (Suc i) H"] H by simp
  obtain j where b: "blocks_apart ?H" "pb_area ?b \<inter> held_area ?H = {}" "block_fits ?b j"
    using blocks_apart_split [of "take i H" ?b "drop (Suc i) H"] F(2) H by metis
  have "free_area F \<inter> pb_area ?b = {}" using F(3) ha by blast
  from release_ok [OF F(1) b(3) this] obtain s' F' where s': "pfa_release ?b s = Some (Inr s')" "pfa_ok s' F' {}"
    "free_area F' = free_area F \<union> pb_area ?b" "pf_max s' = pf_max s" by blast
  have "free_area F' \<inter> held_area ?H = {}" "free_area F' \<union> held_area ?H = M" using F(3,4) ha b(2) s'(3) by blast+
  then have "pfa_held M s' ?H" using s'(2,4) b(1) F(5) unfolding pfa_held_def by auto
  then show ?thesis using s'(1) by blast
qed

lemma run_held: "pfa_held M s H \<Longrightarrow> \<exists>s' H'. pfa_run rs s H = Some (Inr (s', H')) \<and> pfa_held M s' H'"
proof (induction rs s H rule: pfa_run.induct)
  case (2 r rs s H)
  obtain b s' where "pfa_allocate r s = Some (Inr (b, s'))" "pfa_held M s' (if pb_bool b then b # H else H)"
    using held_request [OF 2(2)] by blast
  then show ?case using 2(1) by fastforce
next
  case (3 i rs s H)
  show ?case
  proof (cases "i < length H")
    case True
    obtain s' where "pfa_release (H ! i) s = Some (Inr s')" "pfa_held M s' (take i H @ drop (Suc i) H)"
      using held_release [OF 3(3) True] by blast
    then show ?thesis using 3(1) [OF True] True by simp
  qed (use 3 in simp)
qed auto

lemma empty_pfa: "pfa_ok (pfa_empty m) (\<lambda>_. Map.empty) {}"
proof -
  have "avl_holds (avl_new 0 0) Map.empty {..<2}" unfolding avl_holds_def using new_wf by fastforce
  moreover have "unat BucketSize = 20" by (simp add: BucketSize_def MinBucket_def)
  ultimately show ?thesis
    by (auto simp: pfa_ok_def trees_ok_def blocks_ok_def pool_ok_def free_nodes_def pfa_empty_def POOL_def intro!: exI [of _ "[]"])
qed

text \<open>
  C11: from a sound state of the buddy allocator with some blocks held, any sequence of Allocate and
  Release runs without a fault; afterwards the state is sound, the blocks held are aligned and pairwise disjoint and
  disjoint from the free ones, and no memory has been lost or gained.
\<close>

theorem buddy_blocks_disjoint:
  assumes "pfa_ok s F {}" "blocks_apart H" "free_area F \<inter> held_area H = {}" "unat (pf_max s) \<le> 2 ^ 31"
  shows "\<exists>s' F' H'. pfa_run rs s H = Some (Inr (s', H')) \<and> pfa_ok s' F' {} \<and> blocks_apart H'
    \<and> free_area F' \<inter> held_area H' = {} \<and> free_area F' \<union> held_area H' = free_area F \<union> held_area H"
proof -
  have "pfa_held (free_area F \<union> held_area H) s H" using assms unfolding pfa_held_def by blast
  from run_held [OF this, of rs] show ?thesis unfolding pfa_held_def by blast
qed

theorem buddy_blocks_disjoint_witness:
  "\<exists>s' F' H'. pfa_run [PRel 0, PReq 5000, PReq 4096] (pfa_empty 0x80000) [\<lparr>pb_start = 0x100000, pb_size = 0x80000\<rparr>] = Some (Inr (s', H'))
     \<and> pfa_ok s' F' {} \<and> blocks_apart H' \<and> free_area F' \<inter> held_area H' = {}"
proof -
  have "block_fits \<lparr>pb_start = 0x100000, pb_size = 0x80000\<rparr> 7" by (simp add: block_fits_def osize_def)
  then have h: "blocks_apart [\<lparr>pb_start = 0x100000, pb_size = 0x80000\<rparr>]" by (auto simp: blocks_apart_def)
  have n: "free_area (\<lambda>_. Map.empty) \<inter> held_area [\<lparr>pb_start = 0x100000, pb_size = 0x80000\<rparr>] = {}" by (simp add: free_area_def)
  have m: "unat (pf_max (pfa_empty 0x80000)) \<le> 2 ^ 31" by (simp add: pfa_empty_def)
  show ?thesis using buddy_blocks_disjoint [OF empty_pfa h n m, of "[PRel 0, PReq 5000, PReq 4096]"] by blast
qed

subsection \<open>Where the code departs from its intent\<close>

text \<open>
  Acquire gives its node to the pool once per page of the block. From the second time on the pool is a
  loop, and the node is handed out twice.
\<close>

lemma acquire_pool_loop:
  assumes "n \<noteq> 0" "n \<noteq> POOL"
  shows "\<exists>s1 s2. GetFreeNode (ReleaseNode n (ReleaseNode n s)) = Inr (n, s1) \<and> GetFreeNode s1 = Inr (n, s2)"
  using assms by (simp add: ReleaseNode_def GetFreeNode_def Let_def)

text \<open>
  Acquire rounds the address down but subtracts the distance from the size instead of adding it:
  a page requested at the last byte of a page becomes a block of one byte, whose order is negative.
\<close>

lemma acquire_out_of_bounds:
  assumes "0x1000 < pf_max s" "length (pf_buckets s) = 20"
  shows "pfa_acquire 0x1FFF 0x1000 s = Some (Inl OutOfBounds)"
proof -
  have "GetOrder 1 = Some (- 12)" using sub_log2_ok [of 0 0] by (simp add: GetOrder_def Log2_def MinBucket_def)
  moreover have "bucket_find (- 12) 0x1000 s = Some (Inl OutOfBounds)" using assms(2) by (simp add: bucket_find_def)
  then have "GetExactFrame 0x1000 (- 12) s = Some (Inl OutOfBounds)" by (subst GetExactFrame.simps) simp
  ultimately show ?thesis using assms(1) by (simp add: pfa_acquire_def pfa_align_def PFA_PAGE_SIZE_def not_le [symmetric] Let_def)
qed

text \<open>
  The constructor enters one and the same node for every block it makes: with 16 KB, the node
  of the first 8 KB is overwritten by the next block, and Allocate of 8 KB returns a block of 4 KB.
\<close>

definition one_node :: "nat \<Rightarrow> addr \<Rightarrow> nat \<Rightarrow> (addr, nat) avl" where
  "one_node a k d = (avl_new 0 0)\<lparr>n_parent := (\<lambda>_. 0)(a := ROOT), n_left := (\<lambda>_. 0)(ROOT := a), n_key := (\<lambda>_. 0)(a := k),
     n_data := (\<lambda>_. 0)(a := d), av_min := a, av_count := 1\<rparr>"

lemma insert_into_empty: "2 \<le> a \<Longrightarrow> avl_insert a k d (avl_new 0 0) = Some (Inr (one_node a k d))"
proof -
  assume a: "2 \<le> a"
  define L where "L = link_node a k d ROOT 0 (avl_new 0 0)"
  have L: "L = (one_node a k d)\<lparr>av_count := 0\<rparr>"
    by (simp add: L_def link_node_def one_node_def avl_new_def Let_def fun_eq_iff)
  have "descend (avl_new 0 0 :: (addr, nat) avl) k 0 ROOT 0 = Some (0, ROOT, 0)" by (subst descend.simps) simp
  moreover have "First L = a" by (simp add: L First_def one_node_def)
  then have "insert_fix a ROOT L = Some (Inr L)" by (subst insert_fix.simps) simp
  moreover have "First (avl_new 0 0 :: (addr, nat) avl) = 0" by (simp add: First_def avl_new_def)
  moreover have "L\<lparr>av_count := 1\<rparr> = one_node a k d" "av_count L = 0" by (simp_all add: L one_node_def)
  ultimately show ?thesis by (simp add: avl_insert_def flip: L_def)
qed

definition pfa_16k :: pfa where
  "pfa_16k = (pfa_empty 0x4000)\<lparr>pf_start := (\<lambda>_. 0)(2 := 0x2000), pf_size := (\<lambda>_. 0)(2 := 0x1000),
     pf_next := (\<lambda>_. 0)(POOL := POOL, 2 := 2), pf_new := 5,
     pf_buckets := (replicate 20 (avl_new 0 0))[1 := one_node 3 0 2, 0 := one_node 4 0x2000 2]\<rparr>"

lemma constructor_16k: "pfa_new 0x4000 = Some (Inr pfa_16k)"
proof -
  have p: "ToPow2 0x4000 = (0x4000 :: size32)" by (simp add: ToPow2_def HighBit_def Let_def)
  have o: "GetOrder 0x4000 = Some 2" using order_of(1) [of "0x4000" 2] by (simp add: osize_def)
  have b: "unat BucketSize = 20" by (simp add: BucketSize_def MinBucket_def)
  show ?thesis
    using insert_into_empty [of 3 0 2] insert_into_empty [of 4 "0x2000" 2]
    by (simp add: pfa_new_def p o PFA_PAGE_SIZE_def new_node_def pfa_empty_def b pfa_init_loop.simps bucket_insert_def pfa_16k_def Let_def
        fun_eq_iff drop_bit_eq_div)
qed

theorem constructor_shares_root:
  "\<exists>s s'. pfa_new 0x4000 = Some (Inr s) \<and> pfa_allocate 0x2000 s = Some (Inr (\<lparr>pb_start = 0x2000, pb_size = 0x1000\<rparr>, s'))"
proof -
  have p: "ToPow2 0x2000 = (0x2000 :: size32)" by (simp add: ToPow2_def HighBit_def Let_def)
  have o: "GetOrder 0x2000 = Some 1" using order_of(1) [of "0x2000" 1] by (simp add: osize_def)
  have f: "FindNode (one_node 3 0 2) 0x2000 = Some 0"
    by (simp add: FindNode_def First_def one_node_def ROOT_def avl_new_def find_loop.simps)
  have "\<exists>s'. GetAvailableNode 1 pfa_16k = Some (Inr (2, s')) \<and> pf_start s' 2 = 0x2000 \<and> pf_size s' 2 = 0x1000"
    by (subst GetAvailableNode.simps)
      (simp add: bucket_min_def bucket_remove_def pfa_16k_def avl_min_def one_node_def avl_remove_def f [unfolded one_node_def])
  then obtain s' where s': "GetAvailableNode 1 pfa_16k = Some (Inr (2, s'))" "pf_start s' 2 = 0x2000" "pf_size s' 2 = 0x1000" by blast
  have "pf_max pfa_16k = 0x4000" by (simp add: pfa_16k_def pfa_empty_def)
  then have "pfa_allocate 0x2000 pfa_16k = Some (Inr (\<lparr>pb_start = 0x2000, pb_size = 0x1000\<rparr>, ReleaseNode 2 s'))"
    using s' by (simp add: pfa_allocate_def p o PFA_PAGE_SIZE_def)
  then show ?thesis using constructor_16k by blast
qed

end
