(* ===== verification/Sched.thy ===== *)
theory Sched
  imports Prelude
begin

text \<open>
  attic/kernel/process.c: the process list and the round-robin scheduler that the timer interrupt of the
  retired kernel calls. Processes are addresses, null is 0, their fields functions of the address.
  struct regs is not defined in the repository: the registers are a type 'r, keep_esp gives one set of registers
  the esp of another, and the registers a new process starts with are an argument. Locking is disabling interrupts.
\<close>

subsection \<open>State\<close>

datatype task_state = TASK_CREATED | TASK_RUNNING | TASK_WAIT | TASK_FINISHED

record 'r sched =
  m_prev :: "nat \<Rightarrow> nat"
  m_next :: "nat \<Rightarrow> nat"
  m_state :: "nat \<Rightarrow> task_state"
  m_slicesLeft :: "nat \<Rightarrow> int"
  m_regs :: "nat \<Rightarrow> 'r"
  m_entry :: "nat \<Rightarrow> nat"
  s_firstProc :: nat
  s_lastProc :: nat
  s_current :: nat
  s_finished :: nat

subsection \<open>Processes\<close>

definition start_process :: "nat \<Rightarrow> 'r \<Rightarrow> 'r sched \<Rightarrow> 'r sched" where
  "start_process proc regs s =
     (let s = s\<lparr>m_regs := (m_regs s)(proc := regs)\<rparr>;
          s = s\<lparr>m_prev := (m_prev s)(proc := 0), m_next := (m_next s)(proc := s_firstProc s)\<rparr>;
          s = (if s_firstProc s \<noteq> 0 then s\<lparr>m_prev := (m_prev s)(s_firstProc s := proc)\<rparr> else s\<lparr>s_lastProc := proc\<rparr>)
      in s\<lparr>s_firstProc := proc\<rparr>)"

text \<open>proc is what kmalloc returns; the caller does not check it for null.\<close>

definition create_process :: "nat \<Rightarrow> nat \<Rightarrow> 'r \<Rightarrow> 'r sched \<Rightarrow> fault + 'r sched" where
  "create_process proc entry regs s =
     (if proc = 0 then Inl NullDeref
      else Inr (start_process proc regs (s\<lparr>m_state := (m_state s)(proc := TASK_CREATED), m_entry := (m_entry s)(proc := entry)\<rparr>)))"

text \<open>process_stub before and after the process's own function; it ends in an endless loop.\<close>

definition stub_begin :: "nat \<Rightarrow> 'r sched \<Rightarrow> 'r sched" where
  "stub_begin proc s = s\<lparr>m_state := (m_state s)(proc := TASK_RUNNING)\<rparr>"

definition stub_end :: "nat \<Rightarrow> 'r sched \<Rightarrow> 'r sched" where
  "stub_end proc s =
     (let s = s\<lparr>m_state := (m_state s)(proc := TASK_FINISHED)\<rparr>;
          s = (if m_prev s proc \<noteq> 0 then s\<lparr>m_next := (m_next s)(m_prev s proc := m_next s proc)\<rparr>
               else s\<lparr>s_firstProc := m_next s proc\<rparr>);
          s = (if m_next s proc \<noteq> 0 then s\<lparr>m_prev := (m_prev s)(m_next s proc := m_prev s proc)\<rparr>
               else s\<lparr>s_lastProc := m_prev s proc\<rparr>);
          s = s\<lparr>s_current := m_prev s proc\<rparr>;
          s = s\<lparr>m_next := (m_next s)(proc := s_finished s)\<rparr>
      in s\<lparr>s_finished := proc\<rparr>)"

subsection \<open>The scheduler\<close>

text \<open>The processes freed, in order.\<close>

partial_function (option) finished_loop :: "'r sched \<Rightarrow> nat \<Rightarrow> nat list \<Rightarrow> nat list option" where
  "finished_loop s i freed = (if i = 0 then Some freed else finished_loop s (m_next s i) (freed @ [i]))"

definition next_process :: "'r \<Rightarrow> 'r sched \<Rightarrow> 'r sched" where
  "next_process r s =
     (let s = s\<lparr>m_regs := (m_regs s)(s_current s := r)\<rparr>
      in if m_next s (s_current s) \<noteq> 0 then s\<lparr>s_current := m_next s (s_current s)\<rparr> else s\<lparr>s_current := s_firstProc s\<rparr>)"

definition load_process :: "('r \<Rightarrow> 'r \<Rightarrow> 'r) \<Rightarrow> 'r \<Rightarrow> 'r sched \<Rightarrow> 'r \<times> 'r sched" where
  "load_process keep_esp r s =
     (if s_current s \<noteq> 0 then
        let s = s\<lparr>m_slicesLeft := (m_slicesLeft s)(s_current s := 10)\<rparr>;
            s = s\<lparr>m_regs := (m_regs s)(s_current s := keep_esp (m_regs s (s_current s)) r)\<rparr>
        in (m_regs s (s_current s), s)
      else (r, s))"

text \<open>The registers of the interrupted program go in, those to return to come out, with the processes freed.\<close>

definition run_scheduler :: "('r \<Rightarrow> 'r \<Rightarrow> 'r) \<Rightarrow> 'r \<Rightarrow> 'r sched \<Rightarrow> ('r \<times> nat list \<times> 'r sched) option" where
  "run_scheduler keep_esp r s =
     (case finished_loop s (s_finished s) [] of
        None \<Rightarrow> None
      | Some freed \<Rightarrow>
          let s = s\<lparr>s_finished := 0\<rparr>
          in if s_current s \<noteq> 0 \<and> m_slicesLeft s (s_current s) > 0 then
               Some (r, freed, s\<lparr>m_slicesLeft := (m_slicesLeft s)(s_current s := m_slicesLeft s (s_current s) - 1)\<rparr>)
             else
               let s = (if s_current s \<noteq> 0 then next_process r s else s\<lparr>s_current := s_firstProc s\<rparr>);
                   (r, s) = load_process keep_esp r s
               in Some (r, freed, s))"

subsection \<open>The list\<close>

definition procs :: "'r sched \<Rightarrow> nat list \<Rightarrow> bool" where
  "procs s ps \<longleftrightarrow> distinct ps \<and> 0 \<notin> set ps \<and> s_firstProc s = (if ps = [] then 0 else hd ps) \<and> s_lastProc s = (if ps = [] then 0 else last ps)
     \<and> (\<forall>i<length ps. m_next s (ps ! i) = (if Suc i < length ps then ps ! Suc i else 0)
          \<and> m_prev s (ps ! i) = (case i of 0 \<Rightarrow> 0 | Suc j \<Rightarrow> ps ! j))"

lemma procsD:
  assumes "procs s ps"
  shows "distinct ps" "0 \<notin> set ps" "i < length ps \<Longrightarrow> ps ! i \<noteq> 0"
    "i < length ps \<Longrightarrow> m_next s (ps ! i) = (if Suc i < length ps then ps ! Suc i else 0)"
    "i < length ps \<Longrightarrow> m_prev s (ps ! i) = (case i of 0 \<Rightarrow> 0 | Suc j \<Rightarrow> ps ! j)"
    "s_firstProc s = (if ps = [] then 0 else hd ps)" "s_lastProc s = (if ps = [] then 0 else last ps)"
proof -
  show "ps ! i \<noteq> 0" if "i < length ps" using assms nth_mem [OF that] by (metis procs_def)
qed (use assms in \<open>auto simp: procs_def\<close>)

text \<open>A new process goes to the front of the list.\<close>

lemma start_procs:
  assumes "procs s ps" "p \<noteq> 0" "p \<notin> set ps"
  shows "procs (start_process p r s) (p # ps)"
proof -
  note d = procsD [OF assms(1)]
  define S where "S = start_process p r s"
  have f: "m_next S x = (if x = p then s_firstProc s else m_next s x)"
    "m_prev S x = (if s_firstProc s \<noteq> 0 \<and> x = s_firstProc s then p else if x = p then 0 else m_prev s x)"
    "s_firstProc S = p" "s_lastProc S = (if s_firstProc s \<noteq> 0 then s_lastProc s else p)" for x
    by (auto simp: S_def start_process_def Let_def)
  have "procs S (p # ps)"
  proof (cases "ps = []")
    case True
    then show ?thesis using assms(2) d(6) by (simp add: procs_def f)
  next
    case False
    then have h: "s_firstProc s = ps ! 0" "ps ! 0 \<noteq> 0" using d(3) [of 0] d(6) by (simp_all add: hd_conv_nth)
    have "m_next S ((p # ps) ! i) = (if Suc i < length (p # ps) then (p # ps) ! Suc i else 0)
        \<and> m_prev S ((p # ps) ! i) = (case i of 0 \<Rightarrow> 0 | Suc j \<Rightarrow> (p # ps) ! j)" if i: "i < length (p # ps)" for i
    proof (cases i)
      case 0
      have "p \<noteq> ps ! 0" using assms(3) False nth_mem [of 0 ps] by auto
      then show ?thesis using 0 False h by (simp add: f)
    next
      case (Suc j)
      then have j: "j < length ps" "ps ! j \<noteq> p" using i assms(3) nth_mem [of j ps] by auto
      have "ps ! j = ps ! 0 \<longleftrightarrow> j = 0" using d(1) j(1) False by (simp add: nth_eq_iff_index_eq)
      then show ?thesis using Suc j d(4,5) [OF j(1)] h by (cases j) (simp_all add: f)
    qed
    then show ?thesis using assms d(1,2,7) False h by (simp add: procs_def f)
  qed
  then show ?thesis by (simp add: S_def)
qed

subsection \<open>Round robin\<close>

lemma idle_finished: "s_finished s = 0 \<Longrightarrow> finished_loop s (s_finished s) [] = Some []"
  by (subst finished_loop.simps) simp

text \<open>While its slices last, the current process goes on.\<close>

lemma tick_stays:
  assumes "s_finished s = 0" "s_current s \<noteq> 0" "m_slicesLeft s (s_current s) > 0"
  shows "run_scheduler ke r s
    = Some (r, [], s\<lparr>m_slicesLeft := (m_slicesLeft s)(s_current s := m_slicesLeft s (s_current s) - 1)\<rparr>)"
  using assms idle_finished [OF assms(1)] by (simp add: run_scheduler_def Let_def)

text \<open>Then the next one of the list goes on where it was, and after the last the first.\<close>

lemma tick_switches:
  assumes p: "procs s ps" "i < length ps" "s_current s = ps ! i" "s_finished s = 0" "\<not> m_slicesLeft s (ps ! i) > 0"
  defines "q \<equiv> ps ! (Suc i mod length ps)"
  shows "\<exists>s'. run_scheduler ke r s = Some (ke (if q = ps ! i then r else m_regs s q) r, [], s') \<and> procs s' ps \<and> s_current s' = q
    \<and> s_finished s' = 0 \<and> m_slicesLeft s' = (m_slicesLeft s)(q := 10)
    \<and> m_regs s' = (m_regs s)(ps ! i := r, q := ke (if q = ps ! i then r else m_regs s q) r)"
proof -
  note d = procsD [OF p(1)]
  have c: "s_current s \<noteq> 0" using d(3) [OF p(2)] p(3) by simp
  have ql: "Suc i mod length ps < length ps" by (rule mod_less_divisor) (use p(2) in auto)
  have q0: "q \<noteq> 0" unfolding q_def by (rule d(3) [OF ql])
  have nq: "(if m_next s (ps ! i) \<noteq> 0 then m_next s (ps ! i) else s_firstProc s) = q"
  proof (cases "Suc i < length ps")
    case True
    then show ?thesis using d(3) [OF True] d(4) [OF p(2)] by (simp add: q_def)
  next
    case False
    then have "Suc i = length ps" using p(2) by simp
    then show ?thesis using d(4) [OF p(2)] d(6) p(2) by (auto simp: q_def hd_conv_nth)
  qed
  define S where "S = (s\<lparr>m_regs := (m_regs s)(ps ! i := r), s_current := q\<rparr>)"
  have "next_process r (s\<lparr>s_finished := 0\<rparr>) = S"
    using nq p(3,4) by (auto simp: next_process_def S_def Let_def split: if_splits)
  then have e: "run_scheduler ke r s = (let (r, s) = load_process ke r S in Some (r, [], s))"
    using c p(3,4,5) idle_finished [OF p(4)] by (simp add: run_scheduler_def Let_def)
  show ?thesis using p q0 unfolding e by (auto simp: load_process_def S_def Let_def procs_def)
qed


fun ticks :: "('r \<Rightarrow> 'r \<Rightarrow> 'r) \<Rightarrow> 'r list \<Rightarrow> 'r sched \<Rightarrow> 'r sched option" where
  "ticks ke [] s = Some s"
| "ticks ke (r # rs) s = (case run_scheduler ke r s of None \<Rightarrow> None | Some (_, _, s) \<Rightarrow> ticks ke rs s)"

lemma ticks_append: "ticks ke (xs @ ys) s = (case ticks ke xs s of None \<Rightarrow> None | Some s \<Rightarrow> ticks ke ys s)"
  by (induction xs arbitrary: s) (auto split: option.splits)

definition turn :: "nat list \<Rightarrow> nat \<Rightarrow> int \<Rightarrow> 'r sched \<Rightarrow> bool" where
  "turn ps i k s \<longleftrightarrow> procs s ps \<and> i < length ps \<and> s_current s = ps ! i \<and> s_finished s = 0 \<and> m_slicesLeft s (ps ! i) = k"

lemma slice_runs_out:
  "turn ps i (int k) s \<Longrightarrow> length rs = Suc k \<Longrightarrow> \<exists>s'. ticks ke rs s = Some s' \<and> turn ps (Suc i mod length ps) 10 s'"
proof (induction k arbitrary: s rs)
  case 0
  then obtain r where rs: "rs = [r]" by (auto simp: length_Suc_conv)
  have t: "procs s ps" "i < length ps" "s_current s = ps ! i" "s_finished s = 0" "\<not> m_slicesLeft s (ps ! i) > 0"
    using 0 by (auto simp: turn_def)
  have "Suc i mod length ps < length ps" by (rule mod_less_divisor) (use t(2) in auto)
  then show ?case using tick_switches [OF t, of ke r] by (auto simp: rs turn_def)
next
  case (Suc k)
  then obtain r rs' where rs: "rs = r # rs'" "length rs' = Suc k" by (auto simp: length_Suc_conv)
  let ?s = "s\<lparr>m_slicesLeft := (m_slicesLeft s)(s_current s := m_slicesLeft s (s_current s) - 1)\<rparr>"
  have t: "s_finished s = 0" "s_current s \<noteq> 0" "m_slicesLeft s (s_current s) > 0"
    using Suc.prems(1) procsD(3) [of s ps i] by (auto simp: turn_def)
  have "turn ps i (int k) ?s" using Suc.prems(1) by (simp add: turn_def procs_def)
  from Suc.IH [OF this rs(2)] show ?case using tick_stays [OF t, of ke r] by (simp add: rs(1))
qed

lemma turns:
  "turn ps i 10 s \<Longrightarrow> length rs = 11 * j \<Longrightarrow> \<exists>s'. ticks ke rs s = Some s' \<and> turn ps ((i + j) mod length ps) 10 s'"
proof (induction j arbitrary: i s rs)
  case 0
  then show ?case by (simp add: turn_def)
next
  case (Suc j)
  have l: "length (take 11 rs) = Suc 10" "length (drop 11 rs) = 11 * j" using Suc.prems(2) by auto
  have "turn ps i (int 10) s" using Suc.prems(1) by simp
  from slice_runs_out [OF this l(1)] obtain s1 where s1: "ticks ke (take 11 rs) s = Some s1" "turn ps (Suc i mod length ps) 10 s1" by blast
  from Suc.IH [OF s1(2) l(2)] obtain s2 where s2: "ticks ke (drop 11 rs) s1 = Some s2"
    "turn ps ((Suc i mod length ps + j) mod length ps) 10 s2" by blast
  have "ticks ke rs s = Some s2" using ticks_append [of ke "take 11 rs" "drop 11 rs" s] s1(1) s2(1) by simp
  moreover have "(Suc i mod length ps + j) mod length ps = (i + Suc j) mod length ps" by (simp add: mod_add_left_eq)
  ultimately show ?case using s2(2) by metis
qed

text \<open>
  C40: with a list of processes none of which ends, every process gets its turn: after 11 timer ticks for each of j
  turns, the process j places further on in the list, counted around its end, runs with ten
  slices left, whatever the registers at the ticks are.
\<close>

theorem scheduler_round_robin:
  assumes "procs s ps" "i < length ps" "s_current s = ps ! i" "s_finished s = 0" "m_slicesLeft s (ps ! i) = 10"
    and "length rs = 11 * j"
  shows "\<exists>s'. ticks ke rs s = Some s' \<and> procs s' ps \<and> s_current s' = ps ! ((i + j) mod length ps)
    \<and> m_slicesLeft s' (ps ! ((i + j) mod length ps)) = 10"
proof -
  have "turn ps i 10 s" using assms by (simp add: turn_def)
  from turns [OF this assms(6), of ke] show ?thesis by (auto simp: turn_def)
qed

text \<open>Two processes, one after the other.\<close>

definition two_procs :: "int sched" where
  "two_procs = \<lparr>m_prev = (\<lambda>_. 0)(3 := 2), m_next = (\<lambda>_. 0)(2 := 3), m_state = (\<lambda>_. TASK_RUNNING), m_slicesLeft = (\<lambda>_. 0)(2 := 10),
     m_regs = (\<lambda>_. 0), m_entry = (\<lambda>_. 0), s_firstProc = 2, s_lastProc = 3, s_current = 2, s_finished = 0\<rparr>"

theorem scheduler_round_robin_witness:
  "\<exists>s'. ticks (\<lambda>saved now. saved) (replicate 33 7) two_procs = Some s' \<and> s_current s' = 3"
proof -
  have "procs two_procs [2, 3]" by (simp add: procs_def two_procs_def less_Suc_eq numeral_2_eq_2 all_simps split: nat.splits)
  moreover have "s_current two_procs = [2, 3] ! 0" "s_finished two_procs = 0" "m_slicesLeft two_procs ([2, 3] ! 0) = 10"
    by (simp_all add: two_procs_def)
  moreover have "length (replicate 33 (7::int)) = 11 * 3" by simp
  ultimately obtain s' where s': "ticks (\<lambda>saved now. saved) (replicate 33 7) two_procs = Some s'"
    "s_current s' = [2, 3] ! ((0 + 3) mod length [2, 3 :: nat])"
    using scheduler_round_robin [of two_procs "[2, 3]" 0 "replicate 33 7" 3 "\<lambda>saved now. saved"] by force
  have "length [2, 3 :: nat] = 2" by simp
  moreover have "(0 + 3) mod 2 = (1 :: nat)" by simp
  ultimately have "(0 + 3) mod length [2, 3 :: nat] = 1" by (simp only:)
  then show ?thesis using s' by simp
qed

text \<open>
  A process that ends makes the one before it the current one, but goes on running its endless loop
  until the next tick: that tick stores the registers of the ended process as those of the one before it,
  which never runs on again, and frees the ended one.
\<close>

lemma finish_overwrites_previous:
  assumes "p \<noteq> 0" "m_prev s p \<noteq> 0" "m_prev s p \<noteq> p" "m_next s p \<noteq> 0" "m_next s p \<noteq> m_prev s p" "s_finished s = 0"
    and "m_slicesLeft s (m_prev s p) \<le> 0"
  shows "\<exists>r' s'. run_scheduler ke r (stub_end p s) = Some (r', [p], s') \<and> m_regs s' (m_prev s p) = r"
proof -
  have f: "s_current (stub_end p s) = m_prev s p" "s_finished (stub_end p s) = p" "m_next (stub_end p s) p = 0"
    "m_next (stub_end p s) (m_prev s p) = m_next s p" "m_slicesLeft (stub_end p s) = m_slicesLeft s"
    using assms by (simp_all add: stub_end_def Let_def)
  have "finished_loop (stub_end p s) p [] = Some [p]"
    using assms(1) f(3) by (subst finished_loop.simps, simp) (subst finished_loop.simps, simp)
  then show ?thesis using assms f by (simp add: run_scheduler_def next_process_def load_process_def Let_def)
qed

end
