(* ===== verification/EnumFlags.thy ===== *)
theory EnumFlags
  imports Prelude
begin

unbundle bit_operations_syntax

text \<open>
  kernel/utils/flags.h: bit-set operators for enum classes marked with as_flags. An enum
  value is modelled by its underlying machine word.
\<close>

definition flag_or :: "'a::len word \<Rightarrow> 'a word \<Rightarrow> 'a word" where
  "flag_or lhs rhs = lhs OR rhs"

definition flag_and :: "'a::len word \<Rightarrow> 'a word \<Rightarrow> 'a word" where
  "flag_and lhs rhs = lhs AND rhs"

definition flag_xor :: "'a::len word \<Rightarrow> 'a word \<Rightarrow> 'a word" where
  "flag_xor lhs rhs = lhs XOR rhs"

definition flag_not :: "'a::len word \<Rightarrow> 'a word" where
  "flag_not flag = NOT flag"

text \<open>The operators += and -=.\<close>

definition flag_add :: "'a::len word \<Rightarrow> 'a word \<Rightarrow> 'a word" where
  "flag_add lhs rhs = flag_or lhs rhs"

definition flag_remove :: "'a::len word \<Rightarrow> 'a word \<Rightarrow> 'a word" where
  "flag_remove lhs rhs = flag_and lhs (flag_not rhs)"

definition has_any :: "'a::len word \<Rightarrow> 'a word \<Rightarrow> bool" where
  "has_any v items \<longleftrightarrow> v AND items \<noteq> 0"

definition has_all :: "'a::len word \<Rightarrow> 'a word \<Rightarrow> bool" where
  "has_all v items \<longleftrightarrow> v AND items = items"

definition flag_is_set :: "'a::len word \<Rightarrow> 'a word \<Rightarrow> bool" where
  "flag_is_set v items \<longleftrightarrow> has_all v items"

lemmas flag_defs = flag_or_def flag_and_def flag_xor_def flag_not_def flag_add_def
  flag_remove_def has_any_def has_all_def flag_is_set_def

lemma has_any_bits: "has_any v f \<longleftrightarrow> (\<exists>n. bit v n \<and> bit f n)"
  by (auto simp: has_any_def bit_and_iff intro!: bit_word_eqI) (metis bit_0_eq bit_and_iff bot_apply bot_bool_def)

lemma has_all_bits: "has_all v f \<longleftrightarrow> (\<forall>n. bit f n \<longrightarrow> bit v n)"
  by (auto simp: has_all_def bit_and_iff intro!: bit_word_eqI) (metis bit_and_iff)

lemma is_set_add [simp]: "flag_is_set (flag_add v f) f"
  by (auto simp: flag_is_set_def has_all_bits flag_add_def flag_or_def bit_or_iff)

lemma has_any_remove [simp]: "\<not> has_any (flag_remove v f) f"
  by (auto simp: has_any_bits flag_remove_def flag_and_def flag_not_def bit_and_iff bit_not_iff)

lemma has_all_add_other: "has_all v g \<Longrightarrow> has_all (flag_add v f) g"
  by (auto simp: has_all_bits flag_add_def flag_or_def bit_or_iff)

lemma has_all_remove_other:
  "f AND g = 0 \<Longrightarrow> has_all (flag_remove v f) g = has_all v g"
  by (auto simp: has_all_bits flag_remove_def flag_and_def flag_not_def bit_and_iff bit_not_iff
      dest: bit_imp_le_length) (metis bit_0_eq bit_and_iff bot_apply bot_bool_def)

end
