(* ===== verification/PagePtr.thy ===== *)
theory PagePtr
  imports Align
begin

text \<open>
  kernel/pageptr.h: page addresses with a buddy order and a virtual/physical tag packed
  into the bits below the page size (32-bit build).
\<close>

type_synonym page_ptr = u32

definition VirtualFlag :: u32 where "VirtualFlag = 0x10"

definition OrderMask :: u32 where "OrderMask = 0xF"

definition pp_make :: "addr \<Rightarrow> u8 \<Rightarrow> page_ptr" where
  "pp_make p order = (p AND PageMask) OR ucast (order AND ucast OrderMask)"

definition pp_null :: page_ptr where "pp_null = 0"

definition FromPhysical :: "addr \<Rightarrow> u8 \<Rightarrow> page_ptr" where
  "FromPhysical a order = pp_make a order"

definition FromVirtual :: "addr \<Rightarrow> u8 \<Rightarrow> page_ptr" where
  "FromVirtual a order = pp_make a order OR VirtualFlag"

definition pp_is_null :: "page_ptr \<Rightarrow> bool" where "pp_is_null p \<longleftrightarrow> p AND PageMask = 0"

definition pp_value :: "page_ptr \<Rightarrow> addr" where "pp_value p = p AND PageMask"

definition pp_order :: "page_ptr \<Rightarrow> u8" where "pp_order p = ucast (p AND OrderMask)"

definition pp_count :: "page_ptr \<Rightarrow> size32" where
  "pp_count p = (if pp_is_null p then 0 else push_bit (unat (pp_order p)) 1)"

definition pp_is_virtual :: "page_ptr \<Rightarrow> bool" where "pp_is_virtual p \<longleftrightarrow> p AND VirtualFlag \<noteq> 0"

definition pp_is_physical :: "page_ptr \<Rightarrow> bool" where "pp_is_physical p \<longleftrightarrow> p AND VirtualFlag = 0"

lemma bit_PageMask: "bit (PageMask :: u32) n \<longleftrightarrow> 12 \<le> n \<and> n < 32"
proof -
  have e: "(PageMask :: u32) = NOT (mask 12)"
    by (simp add: PageMask_def PageSize_def mask_eq_exp_minus_1)
  show ?thesis unfolding e by (auto simp: bit_not_iff bit_mask_iff)
qed

lemma bit_VirtualFlag: "bit VirtualFlag n \<longleftrightarrow> n = 4"
proof -
  have e: "VirtualFlag = 2 ^ 4" by (simp add: VirtualFlag_def)
  show ?thesis unfolding e bit_exp_word by simp
qed

lemma bit_OrderMask: "bit OrderMask n \<longleftrightarrow> n < 4"
proof -
  have e: "OrderMask = mask 4" by (simp add: OrderMask_def mask_eq_exp_minus_1)
  show ?thesis unfolding e by (auto simp: bit_mask_iff)
qed

lemma bit_OrderMask8: "bit (ucast OrderMask :: u8) n \<longleftrightarrow> n < 4"
  by (auto simp: bit_ucast_iff bit_OrderMask)

lemmas pp_bits = bit_and_iff bit_or_iff bit_ucast_iff bit_PageMask bit_VirtualFlag
  bit_OrderMask bit_OrderMask8

lemma bit_pp_make: "bit (pp_make a order) n \<longleftrightarrow> (12 \<le> n \<and> bit a n) \<or> (n < 4 \<and> bit order n)"
  by (auto simp: pp_make_def pp_bits dest: bit_imp_le_length)

lemma and_single_bit: "(w AND VirtualFlag \<noteq> 0) = bit w 4" for w :: u32
proof
  assume "w AND VirtualFlag \<noteq> 0"
  then obtain n where "bit (w AND VirtualFlag) n" by (metis bit_eqI bit_0_eq bot_apply bot_bool_def)
  then show "bit w 4" by (auto simp: pp_bits)
next
  assume "bit w 4"
  then have "bit (w AND VirtualFlag) 4" by (simp add: pp_bits)
  then show "w AND VirtualFlag \<noteq> 0" by auto
qed

lemma pp_order_bound: "unat (pp_order p) < 16"
proof -
  have "pp_order p = take_bit 4 (ucast p)"
    by (rule bit_word_eqI) (auto simp: pp_order_def pp_bits bit_take_bit_iff)
  then have "unat (pp_order p) = take_bit 4 (unat (ucast p :: u8))" by (simp add: unsigned_take_bit_eq)
  then show ?thesis by (simp add: take_bit_eq_mod)
qed

text \<open>
  A page pointer carries its three parts without loss: the page-aligned address, the
  order modulo 16 and the tag; the number of pages it stands for is the power of two of its
  order.
\<close>

theorem page_pointer_roundtrip:
  "pp_value (FromPhysical a ord) = align_floor PageSize a
   \<and> pp_value (FromVirtual a ord) = align_floor PageSize a
   \<and> pp_order (FromPhysical a ord) = take_bit 4 ord \<and> pp_order (FromVirtual a ord) = take_bit 4 ord
   \<and> pp_is_physical (FromPhysical a ord) \<and> pp_is_virtual (FromVirtual a ord)
   \<and> pp_is_virtual p = (\<not> pp_is_physical p)
   \<and> (\<not> pp_is_null p \<longrightarrow> unat (pp_count p) = 2 ^ unat (pp_order p))"
proof (intro conjI impI)
  have f: "align_floor PageSize a = a AND PageMask"
    by (simp add: align_floor_def PageMask_def PageSize_def)
  show "pp_value (FromPhysical a ord) = align_floor PageSize a"
    and "pp_value (FromVirtual a ord) = align_floor PageSize a"
    unfolding f by (rule bit_word_eqI; auto simp: pp_value_def FromPhysical_def FromVirtual_def bit_pp_make pp_bits)+
  show "pp_order (FromPhysical a ord) = take_bit 4 ord" and "pp_order (FromVirtual a ord) = take_bit 4 ord"
    by (rule bit_word_eqI; auto simp: pp_order_def FromPhysical_def FromVirtual_def bit_pp_make pp_bits bit_take_bit_iff)+
  have "\<not> bit (pp_make a ord) 4" by (simp add: bit_pp_make)
  then show "pp_is_physical (FromPhysical a ord)"
    using and_single_bit [of "pp_make a ord"] by (simp add: pp_is_physical_def FromPhysical_def)
  have "bit (FromVirtual a ord) 4" by (simp add: FromVirtual_def pp_bits)
  then show "pp_is_virtual (FromVirtual a ord)"
    using and_single_bit [of "FromVirtual a ord"] by (simp add: pp_is_virtual_def)
  show "pp_is_virtual p = (\<not> pp_is_physical p)" by (simp add: pp_is_virtual_def pp_is_physical_def)
  show "unat (pp_count p) = 2 ^ unat (pp_order p)" if "\<not> pp_is_null p"
    using that pp_order_bound [of p] unat_exp [of "unat (pp_order p)", where 'a = 32]
    by (simp add: pp_count_def push_bit_eq_mult)
qed

theorem page_pointer_roundtrip_witness: "unat (pp_count (FromPhysical 0x5000 3)) = 8"
proof -
  have "\<not> pp_is_null (FromPhysical 0x5000 3)" "unat (pp_order (FromPhysical 0x5000 3)) = 3" by code_simp+
  then show ?thesis using page_pointer_roundtrip [of 0 0 "FromPhysical 0x5000 3"] by simp
qed

lemma pp_value_aligned: "pp_value (FromPhysical a ord) = a AND PageMask"
  by (rule bit_word_eqI) (auto simp: pp_value_def FromPhysical_def bit_pp_make pp_bits)

lemma pp_order_0: "pp_order (FromPhysical a 0) = 0"
  by (rule bit_word_eqI) (auto simp: pp_order_def FromPhysical_def bit_pp_make pp_bits)

lemma pp_physical: "pp_is_physical (FromPhysical a ord)"
  using and_single_bit [of "pp_make a ord"] by (simp add: pp_is_physical_def FromPhysical_def bit_pp_make)

end
