(* ===== verification/Paging.thy ===== *)
theory Paging
  imports LibkString EnumFlags BootArgs PagePtr PageAlloc
begin

text \<open>
  kernel/arch/i386/src/paging.cpp with its header, and kernel/vm/page_table.h: the two-level
  page tables of the i386. Tables are memory: a page directory and page tables of 1024 entries of four
  bytes. The state is that memory, the directory in use and the two allocators of table pages.
\<close>

subsection \<open>Words in memory\<close>

definition read32 :: "addr \<Rightarrow> mem \<Rightarrow> u32" where
  "read32 a m = ucast (m a) OR push_bit 8 (ucast (m (a + 1))) OR push_bit 16 (ucast (m (a + 2)))
     OR push_bit 24 (ucast (m (a + 3)))"

definition write32 :: "addr \<Rightarrow> u32 \<Rightarrow> mem \<Rightarrow> mem" where
  "write32 a v m = m(a := ucast v, a + 1 := ucast (drop_bit 8 v), a + 2 := ucast (drop_bit 16 v),
     a + 3 := ucast (drop_bit 24 v))"

text \<open>The address of an entry of a table.\<close>

definition slot :: "addr \<Rightarrow> u32 \<Rightarrow> addr" where "slot table i = table + 4 * i"

subsection \<open>Flags\<close>

definition DE_Present :: u32 where "DE_Present = 0x00000001"
definition DE_Writable :: u32 where "DE_Writable = 0x00000002"
definition DE_User :: u32 where "DE_User = 0x00000004"
definition DE_AddressMask :: u32 where "DE_AddressMask = 0xFFFFF000"
definition PE_Present :: u32 where "PE_Present = 0x00000001"
definition PE_Writable :: u32 where "PE_Writable = 0x00000002"
definition PE_User :: u32 where "PE_User = 0x00000004"
definition PE_AddressMask :: u32 where "PE_AddressMask = 0xFFFFF000"
definition PF_None :: u32 where "PF_None = 0"
definition PF_Write :: u32 where "PF_Write = 1"
definition PF_Execute :: u32 where "PF_Execute = 2"
definition PF_Kernel :: u32 where "PF_Kernel = 0x80"

lemmas entry_defs = DE_Present_def DE_Writable_def DE_User_def DE_AddressMask_def PE_Present_def
  PE_Writable_def PE_User_def PE_AddressMask_def
lemmas PF_defs = PF_None_def PF_Write_def PF_Execute_def PF_Kernel_def

definition MapToDirFlags :: "u32 \<Rightarrow> u32" where
  "MapToDirFlags flags =
     (let rval = 0;
          rval = (if has_any flags (flag_or PF_Write PF_Execute) then rval OR DE_Writable else rval)
      in if \<not> flag_is_set flags PF_Kernel then rval OR DE_User else rval)"

definition MapToEntryFlags :: "u32 \<Rightarrow> u32" where
  "MapToEntryFlags flags =
     (let rval = 0;
          rval = (if has_any flags (flag_or PF_Write PF_Execute) then rval OR PE_Writable else rval)
      in if \<not> flag_is_set flags PF_Kernel then rval OR PE_User else rval)"

subsection \<open>State and allocation of table pages\<close>

record paging =
  pg_mem :: mem
  pg_dir :: addr
  pg_args :: argument_data
  pg_global :: bool
  pg_pages :: page_allocator

text \<open>BootPageAllocator takes the next page of the boot heap.\<close>

definition boot_allocate_page :: "argument_data \<Rightarrow> addr \<times> argument_data" where
  "boot_allocate_page d =
     (HeapNext d, d\<lparr>HeapNext := HeapNext d + PageSize, VirtHeapNext := VirtHeapNext d + PageSize\<rparr>)"

text \<open>None: the lock of the page allocator is never released.\<close>

definition pt_allocate :: "paging \<Rightarrow> (addr \<times> paging) option" where
  "pt_allocate s =
     (if pg_global s then
        case allocate_page (pg_pages s) of
          None \<Rightarrow> None
        | Some (p, pages) \<Rightarrow> Some (p, s\<lparr>pg_pages := pages\<rparr>)
      else let (p, d) = boot_allocate_page (pg_args s) in Some (p, s\<lparr>pg_args := d\<rparr>))"

text \<open>The constructors: a directory of its own, or a given one that is cleared unless asked not to.\<close>

definition page_table_new :: "paging \<Rightarrow> paging option" where
  "page_table_new s =
     (case pt_allocate s of
        None \<Rightarrow> None
      | Some (dir, s) \<Rightarrow> Some (s\<lparr>pg_dir := dir, pg_mem := memset dir 0 PageSize (pg_mem s)\<rparr>))"

definition page_table_at :: "addr \<Rightarrow> bool \<Rightarrow> paging \<Rightarrow> paging" where
  "page_table_at dir no_clear s =
     s\<lparr>pg_dir := dir, pg_mem := (if no_clear then pg_mem s else memset dir 0 PageSize (pg_mem s))\<rparr>"

subsection \<open>Tables and pages\<close>

definition ToEntryIndex :: "addr \<Rightarrow> u32" where "ToEntryIndex vaddr = drop_bit 12 vaddr AND 0x03FFF"
definition ToDirIndex :: "addr \<Rightarrow> u32" where "ToDirIndex vaddr = drop_bit 22 vaddr AND 0x03FFF"

definition AddDirectoryEntry :: "u32 \<Rightarrow> addr \<Rightarrow> u32 \<Rightarrow> paging \<Rightarrow> paging" where
  "AddDirectoryEntry index table flags s =
     (let m = memset table 0 PageSize (pg_mem s);
          dirFlags = MapToDirFlags flags OR PE_Present
      in s\<lparr>pg_mem := write32 (slot (pg_dir s) index) ((table AND PE_AddressMask) OR dirFlags) m\<rparr>)"

text \<open>The table of an address, null when there is none, and its index in the directory.\<close>

definition GetPageTable :: "addr \<Rightarrow> paging \<Rightarrow> addr \<times> u32" where
  "GetPageTable vaddr s =
     (let dirIndex = ToDirIndex vaddr;
          pde = read32 (slot (pg_dir s) dirIndex) (pg_mem s)
      in (if pde AND DE_Present = 0 then 0 else pde AND DE_AddressMask, dirIndex))"

definition GetOrCreatePageTable :: "addr \<Rightarrow> u32 \<Rightarrow> paging \<Rightarrow> (addr \<times> paging) option" where
  "GetOrCreatePageTable vaddr flags s =
     (let (result, dirIndex) = GetPageTable vaddr s
      in if result = 0 then
           case pt_allocate s of
             None \<Rightarrow> None
           | Some (paddr, s) \<Rightarrow> Some (paddr, AddDirectoryEntry dirIndex paddr flags s)
         else Some (result, s))"

definition doMapPage :: "addr \<Rightarrow> addr \<Rightarrow> u32 \<Rightarrow> paging \<Rightarrow> (error_code \<times> paging) option" where
  "doMapPage paddr vaddr flags s =
     (if \<not> is_aligned 4096 paddr \<or> \<not> is_aligned 4096 vaddr then Some (EC_NotAligned, s)
      else case GetOrCreatePageTable vaddr flags s of
             None \<Rightarrow> None
           | Some (pageTable, s) \<Rightarrow>
               let pageFlags = MapToEntryFlags flags OR PE_Present;
                   entry = (paddr AND PE_AddressMask) OR pageFlags
               in Some (EC_NoError, s\<lparr>pg_mem := write32 (slot pageTable (ToEntryIndex vaddr)) entry (pg_mem s)\<rparr>))"

text \<open>Both look up the table of the directory entry itself, taken as a virtual address.\<close>

definition doUnmapPage :: "addr \<Rightarrow> paging \<Rightarrow> fault + (error_code \<times> paging)" where
  "doUnmapPage vaddr s =
     (if \<not> is_aligned 4096 vaddr then Inr (EC_NotAligned, s)
      else let pgtIndex = drop_bit 12 vaddr AND 0x03FF;
               dirIndex = drop_bit 22 vaddr AND 0x03FF;
               pde = read32 (slot (pg_dir s) dirIndex) (pg_mem s)
           in if pde AND DE_Present = 0 then Inr (EC_NoError, s)
              else let pageTable = fst (GetPageTable pde s);
                       page = read32 (slot pageTable pgtIndex) (pg_mem s)
                   in if pageTable = 0 then Inl NullDeref
                      else if page AND PE_Present = 0 then Inr (EC_NoError, s)
                      else Inr (EC_NoError,
                        s\<lparr>pg_mem := write32 (slot pageTable pgtIndex) (page AND NOT PE_Present) (pg_mem s)\<rparr>))"

definition doGetPhysicalPageFor :: "addr \<Rightarrow> paging \<Rightarrow> fault + addr" where
  "doGetPhysicalPageFor vaddr s =
     (let pgtIndex = drop_bit 12 vaddr AND 0x03FF;
          dirIndex = drop_bit 22 vaddr AND 0x03FF;
          pde = read32 (slot (pg_dir s) dirIndex) (pg_mem s)
      in if pde AND DE_Present = 0 then Inr 0
         else let pageTable = fst (GetPageTable pde s);
                  page = read32 (slot pageTable pgtIndex) (pg_mem s)
              in if pageTable = 0 then Inl NullDeref
                 else if page AND PE_Present = 0 then Inr 0
                 else Inr (page AND PE_AddressMask))"

definition MapPage :: "addr \<Rightarrow> addr \<Rightarrow> u32 \<Rightarrow> paging \<Rightarrow> (error_code \<times> paging) option" where
  "MapPage paddr vaddr flags s = doMapPage paddr vaddr flags s"

definition UnmapPage :: "addr \<Rightarrow> paging \<Rightarrow> fault + (error_code \<times> paging)" where
  "UnmapPage vaddr s = doUnmapPage vaddr s"

definition GetPhysicalPageFor :: "addr \<Rightarrow> paging \<Rightarrow> fault + addr" where
  "GetPhysicalPageFor vaddr s = doGetPhysicalPageFor (align_floor 4096 vaddr) s"

text \<open>The loop of MapPages over the pages left, i of them done, and its way back after an error.\<close>

fun unmap_back :: "nat \<Rightarrow> addr \<Rightarrow> paging \<Rightarrow> fault + paging" where
  "unmap_back 0 vaddr s = Inr s"
| "unmap_back (Suc i) vaddr s =
     bindf (UnmapPage (vaddr - PageSize) s) (\<lambda>(_, s). unmap_back i (vaddr - PageSize) s)"

fun map_pages_loop :: "nat \<Rightarrow> nat \<Rightarrow> addr \<Rightarrow> addr \<Rightarrow> u32 \<Rightarrow> paging \<Rightarrow> (error_code \<times> paging) outcome" where
  "map_pages_loop 0 i paddr vaddr flags s = Some (Inr (EC_NoError, s))"
| "map_pages_loop (Suc n) i paddr vaddr flags s =
     (case MapPage paddr vaddr flags s of
        None \<Rightarrow> None
      | Some (err, s) \<Rightarrow>
          if err \<noteq> EC_NoError then Some (bindf (unmap_back i vaddr s) (\<lambda>s. Inr (err, s)))
          else map_pages_loop n (i + 1) (paddr + PageSize) (vaddr + PageSize) flags s)"

definition MapPages :: "page_ptr \<Rightarrow> addr \<Rightarrow> u32 \<Rightarrow> paging \<Rightarrow> (error_code \<times> paging) outcome" where
  "MapPages pagePtr vaddr flags s =
     (if pp_is_null pagePtr then Some (Inl (AssertFail ''Cannot map a NULL page.''))
      else if \<not> pp_is_physical pagePtr then
        Some (Inl (AssertFail ''Cannot map a virtual page to a virtual page.''))
      else map_pages_loop (unat (pp_count pagePtr)) 0 (pp_value pagePtr) vaddr flags s)"

subsection \<open>The tables of the boot\<close>

definition KERNEL_OFFSET :: addr where "KERNEL_OFFSET = 0xC0000000"
definition Virt2Phys :: "addr \<Rightarrow> addr" where
  "Virt2Phys ptr = (if KERNEL_OFFSET \<le> ptr then ptr - KERNEL_OFFSET else ptr)"
definition Phys2Virt :: "addr \<Rightarrow> addr" where
  "Phys2Virt ptr = (if ptr < KERNEL_OFFSET then ptr + KERNEL_OFFSET else ptr)"

fun init_pages_loop :: "nat \<Rightarrow> nat \<Rightarrow> addr \<Rightarrow> addr \<Rightarrow> paging \<Rightarrow> paging option" where
  "init_pages_loop 0 i kstart klast s = Some s"
| "init_pages_loop (Suc n) i kstart klast s =
     (let paddr = of_nat i * PageSize
      in case MapPage paddr paddr (flag_or PF_Write PF_Kernel) s of
           None \<Rightarrow> None
         | Some (_, s) \<Rightarrow>
             (case (if kstart \<le> paddr \<and> paddr \<le> klast
                    then map_option snd (MapPage paddr (Phys2Virt paddr) (flag_or PF_Execute PF_Kernel) s)
                    else Some s) of
                None \<Rightarrow> None
              | Some s \<Rightarrow> init_pages_loop n (i + 1) kstart klast s))"

definition TableEntries :: nat where "TableEntries = 1024"

definition InitBootPages :: "paging \<Rightarrow> paging option" where
  "InitBootPages s =
     init_pages_loop (TableEntries - 1) 1 (align_floor 4096 (KernelStart (pg_args s)))
       (align_ceiling 4096 (KernelEnd (pg_args s))) s"

text \<open>Preinit returns the state whose directory the processor is told to use.\<close>

definition paging_preinit :: "paging \<Rightarrow> paging option" where
  "paging_preinit s = (case page_table_new s of None \<Rightarrow> None | Some s \<Rightarrow> InitBootPages s)"

definition paging_init :: "paging \<Rightarrow> paging" where "paging_init s = s\<lparr>pg_global := True\<rparr>"

end
