(* ===== verification/Multiboot.thy ===== *)
theory Multiboot
  imports Paging BootArgsFacts
begin

text \<open>
  kernel/arch/x86: multiboot.h, multiboot2.h, mb1.cpp and mb2.cpp, the readers of the two
  information structures a boot loader leaves in memory. The structures are packed, so each of
  their records is loaded from memory at fixed offsets of its address.
\<close>

subsection \<open>Structures\<close>

definition read64 :: "addr \<Rightarrow> mem \<Rightarrow> u64" where
  "read64 a m = ucast (read32 a m) OR push_bit 32 (ucast (read32 (a + 4) m))"

definition MB_FLAG_MEM :: u32 where "MB_FLAG_MEM = 0x00000001"
definition MB_FLAG_CMDLINE :: u32 where "MB_FLAG_CMDLINE = 0x00000004"
definition MB_FLAG_MMAP :: u32 where "MB_FLAG_MMAP = 0x00000040"
definition MB_FLAG_VBE :: u32 where "MB_FLAG_VBE = 0x00000800"

text \<open>The value of MemoryType::Available and MB2MemoryType::Available.\<close>

definition AvailableType :: u32 where "AvailableType = 1"
definition MB2AvailableType :: u32 where "MB2AvailableType = 1"

record mb_memory_map =
  mm_size :: u32
  mm_base_addr :: u64
  mm_length :: u64
  mm_type :: u32

definition load_mb_memory_map :: "addr \<Rightarrow> mem \<Rightarrow> mb_memory_map" where
  "load_mb_memory_map p m = \<lparr>mm_size = read32 p m, mm_base_addr = read64 (p + 4) m,
     mm_length = read64 (p + 12) m, mm_type = read32 (p + 20) m\<rparr>"

record multiboot =
  mb_flags :: u32
  mb_mem_lower :: u32
  mb_mem_upper :: u32
  mb_cmdline :: u32
  mb_mmap_length :: u32
  mb_mmap_addr :: addr

definition load_multiboot :: "addr \<Rightarrow> mem \<Rightarrow> multiboot" where
  "load_multiboot p m = \<lparr>mb_flags = read32 p m, mb_mem_lower = read32 (p + 4) m,
     mb_mem_upper = read32 (p + 8) m, mb_cmdline = read32 (p + 16) m,
     mb_mmap_length = read32 (p + 44) m, mb_mmap_addr = read32 (p + 48) m\<rparr>"

text \<open>
  The command line is a field of the argument block, whose address is a parameter: a string
  function that fills it runs on a memory that holds the field there.
\<close>

definition field_mem :: "addr \<Rightarrow> u8 list \<Rightarrow> mem \<Rightarrow> mem" where
  "field_mem cl buf m = (\<lambda>a. if unat (a - cl) < length buf then buf ! unat (a - cl) else m a)"

definition run_field :: "(mem \<Rightarrow> mem) \<Rightarrow> addr \<Rightarrow> u8 list \<Rightarrow> mem \<Rightarrow> u8 list" where
  "run_field f cl buf m = map (\<lambda>i. f (field_mem cl buf m) (cl + of_nat i)) [0..<length buf]"

text \<open>The three assignments to an entry of the memory map.\<close>

definition store_mapping :: "nat \<Rightarrow> u64 \<Rightarrow> u64 \<Rightarrow> argument_data \<Rightarrow> fault + argument_data" where
  "store_mapping biIndex base len d =
     (if length (MemoryMap d) \<le> biIndex then Inl OutOfBounds
      else Inr (d\<lparr>MemoryMap := (MemoryMap d)[biIndex :=
             \<lparr>Start = ucast base, MapLength = ucast len, Type = Available\<rparr>]\<rparr>))"

subsection \<open>Multiboot 1\<close>

definition mb1_ParseCommandLine :: "addr \<Rightarrow> mem \<Rightarrow> multiboot \<Rightarrow> argument_data \<Rightarrow> argument_data" where
  "mb1_ParseCommandLine cl m multi d =
     (if mb_flags multi AND MB_FLAG_CMDLINE = 0 then d
      else d\<lparr>CommandLine :=
             run_field (strncpy cl (mb_cmdline multi) (of_nat MaxCommandLine)) cl (CommandLine d) m\<rparr>)"

definition mb1_ParseBasicMemoryInfo :: "multiboot \<Rightarrow> argument_data \<Rightarrow> argument_data" where
  "mb1_ParseBasicMemoryInfo multi d =
     (if mb_flags multi AND MB_FLAG_MEM = 0 then d
      else d\<lparr>LowMemorySizeKByte := mb_mem_lower multi, HighMemorySizeKByte := mb_mem_upper multi\<rparr>)"

text \<open>The records from index i on, n of them; the result is the final index with the block.\<close>

fun mb1_map_loop :: "mem \<Rightarrow> addr \<Rightarrow> nat \<Rightarrow> u32 \<Rightarrow> nat \<Rightarrow> argument_data \<Rightarrow> fault + (nat \<times> argument_data)" where
  "mb1_map_loop m memMap 0 i biIndex d = Inr (biIndex, d)"
| "mb1_map_loop m memMap (Suc n) i biIndex d =
     (let rec = load_mb_memory_map (memMap + 24 * i) m
      in if mm_type rec \<noteq> AvailableType then mb1_map_loop m memMap n (i + 1) biIndex d
         else bindf (store_mapping biIndex (mm_base_addr rec) (mm_length rec) d) (\<lambda>d.
           if biIndex + 1 \<ge> MaxMemoryEntries then Inr (biIndex + 1, d)
           else mb1_map_loop m memMap n (i + 1) (biIndex + 1) d))"

definition mb1_ParseMemoryMap :: "mem \<Rightarrow> multiboot \<Rightarrow> argument_data \<Rightarrow> fault + (int32 \<times> argument_data)" where
  "mb1_ParseMemoryMap m multi d =
     (if mb_flags multi AND MB_FLAG_MMAP = 0 then Inr (- 1, d)
      else let recordCnt = mb_mmap_length multi div 24
           in bindf (mb1_map_loop m (mb_mmap_addr multi) (unat recordCnt) 0 0 d)
                (\<lambda>(biIndex, d). Inr (0, d\<lparr>MemoryMapCount := biIndex\<rparr>)))"

text \<open>ParseFrameBufferInfo has an empty body.\<close>

definition mb1_ReadInfo :: "addr \<Rightarrow> mem \<Rightarrow> addr \<Rightarrow> argument_data \<Rightarrow> fault + (int32 \<times> argument_data)" where
  "mb1_ReadInfo cl m multiboot_ptr d =
     (let multi = load_multiboot multiboot_ptr m;
          d = mb1_ParseCommandLine cl m multi d;
          d = mb1_ParseBasicMemoryInfo multi d
      in mb1_ParseMemoryMap m multi d)"

subsection \<open>Multiboot 2\<close>

definition MB2_TAG_END :: u32 where "MB2_TAG_END = 0"
definition MB2_TAG_BOOT_CMD :: u32 where "MB2_TAG_BOOT_CMD = 1"
definition MB2_TAG_BASIC_MEMINFO :: u32 where "MB2_TAG_BASIC_MEMINFO = 4"
definition MB2_TAG_MEMORY_MAP :: u32 where "MB2_TAG_MEMORY_MAP = 6"
definition MB2_TAG_FRAMEBUFFER :: u32 where "MB2_TAG_FRAMEBUFFER = 8"

record mb2_tag =
  tag_type :: u32
  tag_size :: u32

definition load_mb2_tag :: "addr \<Rightarrow> mem \<Rightarrow> mb2_tag" where
  "load_mb2_tag p m = \<lparr>tag_type = read32 p m, tag_size = read32 (p + 4) m\<rparr>"

definition StrSize :: "mb2_tag \<Rightarrow> size32" where "StrSize t = tag_size t - 8"

text \<open>GetStr: address and length of the span.\<close>

definition GetStr :: "addr \<Rightarrow> mem \<Rightarrow> addr \<times> size32" where
  "GetStr tag m = (let sz = StrSize (load_mb2_tag tag m) in (tag + sz, sz))"

record mb2_entry =
  me_base_addr :: u64
  me_length :: u64
  me_type :: u32

definition load_mb2_entry :: "addr \<Rightarrow> mem \<Rightarrow> mb2_entry" where
  "load_mb2_entry p m = \<lparr>me_base_addr = read64 p m, me_length = read64 (p + 8) m, me_type = read32 (p + 16) m\<rparr>"

definition mb2_entry_size :: "addr \<Rightarrow> mem \<Rightarrow> u32" where "mb2_entry_size tag m = read32 (tag + 8) m"

definition GetExtent :: "addr \<Rightarrow> mem \<Rightarrow> fault + size32" where
  "GetExtent tag m =
     (if mb2_entry_size tag m = 0 then Inl Undefined
      else Inr ((tag_size (load_mb2_tag tag m) - 16) div mb2_entry_size tag m))"

definition mb2_ParseCommandLine :: "addr \<Rightarrow> mem \<Rightarrow> addr \<Rightarrow> argument_data \<Rightarrow> fault + argument_data" where
  "mb2_ParseCommandLine cl m tag d =
     (let (p, n) = GetStr tag m;
          sz = min n (of_nat MaxCommandLine)
      in if sz = 0 then Inr d
         else if length (CommandLine d) \<le> unat (sz - 1) then Inl OutOfBounds
         else Inr (d\<lparr>CommandLine := (run_field (memcpy cl p (sz - 1)) cl (CommandLine d) m)[unat (sz - 1) := 0]\<rparr>))"

definition mb2_ParseFrameBufferInfo :: "mem \<Rightarrow> addr \<Rightarrow> argument_data \<Rightarrow> argument_data" where
  "mb2_ParseFrameBufferInfo m tag d =
     d\<lparr>FrameBuffer := \<lparr>FbAddress = ucast (read64 (tag + 8) m), FbWidth = read32 (tag + 20) m,
         FbHeight = read32 (tag + 24) m, FbPitch = read32 (tag + 16) m, FbDepth = ucast (m (tag + 28))\<rparr>\<rparr>"

definition mb2_ParseBasicMemoryInfo :: "mem \<Rightarrow> addr \<Rightarrow> argument_data \<Rightarrow> argument_data" where
  "mb2_ParseBasicMemoryInfo m tag d =
     d\<lparr>LowMemorySizeKByte := read32 (tag + 8) m, HighMemorySizeKByte := read32 (tag + 12) m\<rparr>"

text \<open>The elements of the span GetEntries from index i on, n of them.\<close>

fun mb2_map_loop :: "mem \<Rightarrow> addr \<Rightarrow> u32 \<Rightarrow> nat \<Rightarrow> u32 \<Rightarrow> nat \<Rightarrow> argument_data \<Rightarrow> fault + (nat \<times> argument_data)" where
  "mb2_map_loop m p stride 0 i biIndex d = Inr (biIndex, d)"
| "mb2_map_loop m p stride (Suc n) i biIndex d =
     (let item = load_mb2_entry (p + stride * i) m
      in if me_type item \<noteq> MB2AvailableType then mb2_map_loop m p stride n (i + 1) biIndex d
         else bindf (store_mapping biIndex (me_base_addr item) (me_length item) d) (\<lambda>d.
           if biIndex + 1 \<ge> MaxMemoryEntries then Inr (biIndex + 1, d)
           else mb2_map_loop m p stride n (i + 1) (biIndex + 1) d))"

definition mb2_ParseMemoryMap :: "mem \<Rightarrow> addr \<Rightarrow> argument_data \<Rightarrow> fault + argument_data" where
  "mb2_ParseMemoryMap m tag d =
     bindf (GetExtent tag m) (\<lambda>extent.
     bindf (mb2_map_loop m (tag + 16) (mb2_entry_size tag m) (unat extent) 0 0 d)
       (\<lambda>(biIndex, d). Inr (d\<lparr>MemoryMapCount := biIndex\<rparr>)))"

text \<open>The switch over the tag type; every reader returns the error code 0.\<close>

definition mb2_tag_switch :: "addr \<Rightarrow> mem \<Rightarrow> addr \<Rightarrow> argument_data \<Rightarrow> fault + argument_data" where
  "mb2_tag_switch cl m tag d =
     (let ty = tag_type (load_mb2_tag tag m)
      in if ty = MB2_TAG_BOOT_CMD then mb2_ParseCommandLine cl m tag d
         else if ty = MB2_TAG_FRAMEBUFFER then Inr (mb2_ParseFrameBufferInfo m tag d)
         else if ty = MB2_TAG_BASIC_MEMINFO then Inr (mb2_ParseBasicMemoryInfo m tag d)
         else if ty = MB2_TAG_MEMORY_MAP then mb2_ParseMemoryMap m tag d
         else Inr d)"

text \<open>The loop of ReadInfo; a tag of size 0 keeps it where it is.\<close>

partial_function (option) mb2_loop ::
    "addr \<Rightarrow> mem \<Rightarrow> u32 \<Rightarrow> addr \<Rightarrow> size32 \<Rightarrow> argument_data \<Rightarrow> (fault + argument_data) option" where
  "mb2_loop cl m total_size ptr sz d =
     (if sz < total_size then
        (let p2 = align_ceiling 8 ptr;
             sz = sz + (p2 - ptr);
             tag = load_mb2_tag p2 m
         in if tag_type tag = MB2_TAG_END then Some (Inr d)
            else case mb2_tag_switch cl m p2 d of
                   Inl e \<Rightarrow> Some (Inl e)
                 | Inr d \<Rightarrow> mb2_loop cl m total_size (p2 + tag_size tag) (sz + tag_size tag) d)
      else Some (Inr d))"

definition mb2_ReadInfo :: "addr \<Rightarrow> mem \<Rightarrow> addr \<Rightarrow> argument_data \<Rightarrow> (fault + (int32 \<times> argument_data)) option" where
  "mb2_ReadInfo cl m multiboot_ptr d =
     bindo (mb2_loop cl m (read32 multiboot_ptr m) (multiboot_ptr + 8) 8 d) (\<lambda>d. Some (Inr (0, d)))"

subsection \<open>What the memory maps become\<close>

definition to_mapping :: "u64 \<times> u64 \<Rightarrow> mapping" where
  "to_mapping r = \<lparr>Start = ucast (fst r), MapLength = ucast (snd r), Type = Available\<rparr>"

definition mb1_available :: "mem \<Rightarrow> addr \<Rightarrow> u32 \<Rightarrow> nat \<Rightarrow> (u64 \<times> u64) list" where
  "mb1_available m p i n = map (\<lambda>r. (mm_base_addr r, mm_length r)) (filter (\<lambda>r. mm_type r = AvailableType)
     (map (\<lambda>k. load_mb_memory_map (p + 24 * (i + of_nat k)) m) [0..<n]))"

definition mb2_available :: "mem \<Rightarrow> addr \<Rightarrow> u32 \<Rightarrow> u32 \<Rightarrow> nat \<Rightarrow> (u64 \<times> u64) list" where
  "mb2_available m p stride i n = map (\<lambda>r. (me_base_addr r, me_length r)) (filter (\<lambda>r. me_type r = MB2AvailableType)
     (map (\<lambda>k. load_mb2_entry (p + stride * (i + of_nat k)) m) [0..<n]))"

text \<open>What both loops do with the records they do not skip.\<close>

fun store_all :: "(u64 \<times> u64) list \<Rightarrow> nat \<Rightarrow> argument_data \<Rightarrow> fault + (nat \<times> argument_data)" where
  "store_all [] bi d = Inr (bi, d)"
| "store_all (r # rs) bi d = bindf (store_mapping bi (fst r) (snd r) d) (\<lambda>d.
     if bi + 1 \<ge> MaxMemoryEntries then Inr (bi + 1, d) else store_all rs (bi + 1) d)"

lemma upt_shift: "map f [0..<Suc n] = f 0 # map (\<lambda>k. f (Suc k)) [0..<n]"
  by (simp add: upt_conv_Cons map_Suc_upt [symmetric] del: upt_Suc) 

lemma mb1_available_Suc:
  "mb1_available m p i (Suc n) =
     (if mm_type (load_mb_memory_map (p + 24 * i) m) = AvailableType
      then [(mm_base_addr (load_mb_memory_map (p + 24 * i) m), mm_length (load_mb_memory_map (p + 24 * i) m))] else [])
     @ mb1_available m p (i + 1) n"
  unfolding mb1_available_def upt_shift by (simp add: add.assoc)

lemma mb2_available_Suc:
  "mb2_available m p st i (Suc n) =
     (if me_type (load_mb2_entry (p + st * i) m) = MB2AvailableType
      then [(me_base_addr (load_mb2_entry (p + st * i) m), me_length (load_mb2_entry (p + st * i) m))] else [])
     @ mb2_available m p st (i + 1) n"
  unfolding mb2_available_def upt_shift by (simp add: add.assoc)

lemma mb1_loop_stores: "mb1_map_loop m p n i bi d = store_all (mb1_available m p i n) bi d"
proof (induction n arbitrary: i bi d)
  case (Suc n)
  then show ?case unfolding mb1_available_Suc by (simp add: Let_def cong: if_cong)
qed (simp add: mb1_available_def)

lemma mb2_loop_stores: "mb2_map_loop m p st n i bi d = store_all (mb2_available m p st i n) bi d"
proof (induction n arbitrary: i bi d)
  case (Suc n)
  then show ?case unfolding mb2_available_Suc by (simp add: Let_def cong: if_cong)
qed (simp add: mb2_available_def)

lemma store_all_correct:
  "length (MemoryMap d) = MaxMemoryEntries \<Longrightarrow> bi < MaxMemoryEntries \<Longrightarrow>
   \<exists>mm. store_all rs bi d = Inr (min MaxMemoryEntries (bi + length rs), d\<lparr>MemoryMap := mm\<rparr>)
     \<and> length mm = MaxMemoryEntries
     \<and> take (min MaxMemoryEntries (bi + length rs)) mm
         = take bi (MemoryMap d) @ map to_mapping (take (MaxMemoryEntries - bi) rs)"
proof (induction rs arbitrary: bi d)
  case Nil
  then show ?case by (auto intro: exI [of _ "MemoryMap d"])
next
  case (Cons r rs)
  let ?mm = "(MemoryMap d)[bi := to_mapping r]"
  have s: "store_mapping bi (fst r) (snd r) d = Inr (d\<lparr>MemoryMap := ?mm\<rparr>)"
    using Cons.prems by (simp add: store_mapping_def to_mapping_def)
  have t: "take (bi + 1) ?mm = take bi (MemoryMap d) @ [to_mapping r]"
    using Cons.prems by (simp add: take_Suc_conv_app_nth)
  show ?case
  proof (cases "bi + 1 \<ge> MaxMemoryEntries")
    case True
    then have "MaxMemoryEntries = bi + 1" "MaxMemoryEntries - bi = Suc 0" using Cons.prems by simp_all
    with s t Cons.prems(1) show ?thesis by (intro exI [of _ ?mm]) simp
  next
    case False
    then have "MaxMemoryEntries - bi = Suc (MaxMemoryEntries - (bi + 1))" by simp
    with Cons.IH [of "d\<lparr>MemoryMap := ?mm\<rparr>" "bi + 1"] False s t Cons.prems(1) show ?thesis by auto
  qed
qed

lemma store_all_table:
  assumes "length (MemoryMap d) = MaxMemoryEntries"
  shows "\<exists>d'. bindf (store_all rs 0 d) (\<lambda>(biIndex, d). Inr (f (d\<lparr>MemoryMapCount := biIndex\<rparr>))) = Inr (f d') \<and> table_ok d'
     \<and> same_frame d d' \<and> entries d' = map to_mapping (take MaxMemoryEntries rs)"
proof -
  obtain mm where mm: "store_all rs 0 d = Inr (min MaxMemoryEntries (length rs), d\<lparr>MemoryMap := mm\<rparr>)"
    "length mm = MaxMemoryEntries" "take (min MaxMemoryEntries (length rs)) mm = map to_mapping (take MaxMemoryEntries rs)"
    using store_all_correct [OF assms, of 0 rs] by (auto simp: MaxMemoryEntries_def)
  then show ?thesis
    by (intro exI [of _ "d\<lparr>MemoryMap := mm, MemoryMapCount := min MaxMemoryEntries (length rs)\<rparr>"])
      (simp add: table_ok_def same_frame_def entries_def)
qed

subsection \<open>Multiboot 1\<close>

lemma command_line_frame:
  "MemoryMap (mb1_ParseBasicMemoryInfo mu (mb1_ParseCommandLine cl m mu d)) = MemoryMap d
   \<and> HeapStart (mb1_ParseBasicMemoryInfo mu (mb1_ParseCommandLine cl m mu d)) = HeapStart d
   \<and> KernelStart (mb1_ParseBasicMemoryInfo mu (mb1_ParseCommandLine cl m mu d)) = KernelStart d
   \<and> KernelEnd (mb1_ParseBasicMemoryInfo mu (mb1_ParseCommandLine cl m mu d)) = KernelEnd d"
  by (simp add: mb1_ParseBasicMemoryInfo_def mb1_ParseCommandLine_def)

text \<open>
  C33: reading Multiboot 1 information never faults on an argument block of the declared size.
  Without a memory map it returns -1 and keeps the table; with one it returns 0 and the table
  consists of the first 32 records marked available, in order, with base and length cut to the
  width of an address. The position of the kernel and of the heap stays as it was.
\<close>

theorem mb1_reads_memory_map:
  assumes "length (MemoryMap d) = MaxMemoryEntries" "mu = load_multiboot p m"
  shows "\<exists>r d'. mb1_ReadInfo cl m p d = Inr (r, d') \<and> HeapStart d' = HeapStart d
     \<and> KernelStart d' = KernelStart d \<and> KernelEnd d' = KernelEnd d
     \<and> (if mb_flags mu AND MB_FLAG_MMAP = 0
         then r = - 1 \<and> MemoryMap d' = MemoryMap d \<and> MemoryMapCount d' = MemoryMapCount d
         else r = 0 \<and> table_ok d' \<and> entries d' = map to_mapping (take MaxMemoryEntries
           (mb1_available m (mb_mmap_addr mu) 0 (unat (mb_mmap_length mu div 24)))))"
proof -
  let ?d = "mb1_ParseBasicMemoryInfo mu (mb1_ParseCommandLine cl m mu d)"
  have r: "mb1_ReadInfo cl m p d = mb1_ParseMemoryMap m mu ?d"
    by (simp add: mb1_ReadInfo_def assms(2) Let_def)
  have c: "MemoryMapCount ?d = MemoryMapCount d"
    by (simp add: mb1_ParseBasicMemoryInfo_def mb1_ParseCommandLine_def)
  show ?thesis
  proof (cases "mb_flags mu AND MB_FLAG_MMAP = 0")
    case True
    then show ?thesis using r c command_line_frame [of mu cl m d] by (simp add: mb1_ParseMemoryMap_def)
  next
    case False
    have "length (MemoryMap ?d) = MaxMemoryEntries" using assms(1) command_line_frame [of mu cl m d] by simp
    from store_all_table [OF this, where f = "\<lambda>d. (0, d)" and
        rs = "mb1_available m (mb_mmap_addr mu) 0 (unat (mb_mmap_length mu div 24))"] False
    obtain d' where "mb1_ParseMemoryMap m mu ?d = Inr (0, d')" "table_ok d'" "same_frame ?d d'"
      "entries d' = map to_mapping (take MaxMemoryEntries
           (mb1_available m (mb_mmap_addr mu) 0 (unat (mb_mmap_length mu div 24))))"
      unfolding mb1_ParseMemoryMap_def mb1_loop_stores by auto
    then show ?thesis using r False command_line_frame [of mu cl m d] same_frame_fields [of ?d d'] by simp
  qed
qed

subsection \<open>Multiboot 2\<close>

text \<open>
  A well-formed list of tags: each starts at the next multiple of eight, advances, and the last
  one has the type of the end.
\<close>

fun tags_at :: "mem \<Rightarrow> addr \<Rightarrow> addr list \<Rightarrow> addr \<Rightarrow> bool" where
  "tags_at m ptr [] e \<longleftrightarrow> unat ptr + 7 < 2 ^ 32 \<and> align_ceiling 8 ptr = e \<and> tag_type (load_mb2_tag e m) = MB2_TAG_END"
| "tags_at m ptr (t # ts) e \<longleftrightarrow> unat ptr + 7 < 2 ^ 32 \<and> align_ceiling 8 ptr = t
     \<and> tag_type (load_mb2_tag t m) \<noteq> MB2_TAG_END \<and> unat t + unat (tag_size (load_mb2_tag t m)) < 2 ^ 32
     \<and> tags_at m (t + tag_size (load_mb2_tag t m)) ts e"

fun apply_tags :: "addr \<Rightarrow> mem \<Rightarrow> addr list \<Rightarrow> argument_data \<Rightarrow> fault + argument_data" where
  "apply_tags cl m [] d = Inr d"
| "apply_tags cl m (t # ts) d = bindf (mb2_tag_switch cl m t d) (apply_tags cl m ts)"

lemma align8: "unat p + 7 < 2 ^ 32 \<Longrightarrow> p \<le> align_ceiling 8 p" for p :: addr
proof -
  assume "unat p + 7 < 2 ^ 32"
  moreover have "is_pow2 (8 :: u32)" by (simp add: is_pow2_def)
  ultimately have "unat (align_ceiling 8 p) = (unat p + 7) div 8 * 8"
    using unat_align_ceiling [of 8 p] by simp
  moreover have "x \<le> (x + 7) div 8 * 8" for x :: nat by linarith
  ultimately show ?thesis by (simp add: word_le_nat_alt)
qed

lemma tags_at_le: "tags_at m ptr ts e \<Longrightarrow> ptr \<le> e"
proof (induction ts arbitrary: ptr)
  case (Cons t ts)
  let ?s = "tag_size (load_mb2_tag t m)"
  have "unat t + unat ?s < 2 ^ 32" using Cons.prems(1) by simp
  then have "unat (t + ?s) = unat t + unat ?s" by (intro unat_add_noov) simp
  then have "t \<le> t + ?s" by (simp add: word_le_nat_alt)
  also have "\<dots> \<le> e" using Cons by simp
  finally show ?case using Cons.prems align8 by (metis order_trans tags_at.simps(2))
qed (metis align8 tags_at.simps(1))

lemma mb2_loop_tags:
  "tags_at m ptr ts e \<Longrightarrow> unat b + unat tot \<le> 2 ^ 32 \<Longrightarrow> unat e < unat b + unat tot \<Longrightarrow> b \<le> ptr \<Longrightarrow>
   mb2_loop cl m tot ptr (ptr - b) d = Some (apply_tags cl m ts d)"
proof (induction ts arbitrary: ptr d)
  case Nil
  have "ptr \<le> e" using tags_at_le [OF Nil.prems(1)] .
  then have "ptr - b < tot" using Nil.prems(3,4)
    by (simp add: word_less_nat_alt word_le_nat_alt unat_sub_noov)
  moreover have "tag_type (load_mb2_tag (align_ceiling 8 ptr) m) = MB2_TAG_END" using Nil.prems(1) by simp
  ultimately show ?case by (subst mb2_loop.simps) (simp add: Let_def)
next
  case (Cons t ts)
  have "ptr \<le> e" using tags_at_le [OF Cons.prems(1)] .
  then have lt: "ptr - b < tot" using Cons.prems(3,4)
    by (simp add: word_less_nat_alt word_le_nat_alt unat_sub_noov)
  let ?s = "tag_size (load_mb2_tag t m)"
  have t: "align_ceiling 8 ptr = t" "tag_type (load_mb2_tag t m) \<noteq> MB2_TAG_END" "tags_at m (t + ?s) ts e"
    using Cons.prems(1) by simp_all
  have "unat t + unat ?s < 2 ^ 32" using Cons.prems(1) by simp
  then have "unat (t + ?s) = unat t + unat ?s" by (intro unat_add_noov) simp
  then have "t \<le> t + ?s" by (simp add: word_le_nat_alt)
  moreover have "ptr \<le> t" using align8 [of ptr] Cons.prems(1) by simp
  ultimately have b: "b \<le> t + ?s" using Cons.prems(4) by (meson order_trans)
  have off: "ptr - b + (t - ptr) + ?s = t + ?s - b" by simp
  show ?case
  proof (cases "mb2_tag_switch cl m t d")
    case (Inl x)
    with lt t show ?thesis by (subst mb2_loop.simps) (simp add: Let_def)
  next
    case (Inr d1)
    then have "mb2_loop cl m tot ptr (ptr - b) d = mb2_loop cl m tot (t + ?s) (ptr - b + (t - ptr) + ?s) d1"
      using lt t by (subst mb2_loop.simps) (simp add: Let_def)
    then show ?thesis unfolding off using Cons.IH [OF t(3) Cons.prems(2,3) b] Inr by simp
  qed
qed

text \<open>
  C32: on a well-formed list of tags inside the announced size, reading Multiboot 2 information
  returns, and has the effect of the tags' readers one after the other.
\<close>

theorem mb2_reads_tags:
  assumes "tags_at m (p + 8) ts e" "unat p + unat (read32 p m) \<le> 2 ^ 32"
    and "unat e < unat p + unat (read32 p m)" "p \<le> p + 8"
  shows "mb2_ReadInfo cl m p d = Some (bindf (apply_tags cl m ts d) (\<lambda>d. Inr (0, d)))"
proof -
  have "mb2_loop cl m (read32 p m) (p + 8) (p + 8 - p) d = Some (apply_tags cl m ts d)"
    by (rule mb2_loop_tags [OF assms])
  then show ?thesis by (cases "apply_tags cl m ts d") (simp_all add: mb2_ReadInfo_def)
qed

text \<open>The tag of the memory map.\<close>

lemma mb2_reads_memory_map:
  assumes "length (MemoryMap d) = MaxMemoryEntries" "mb2_entry_size tag m \<noteq> 0"
  shows "\<exists>d'. mb2_ParseMemoryMap m tag d = Inr d' \<and> table_ok d' \<and> same_frame d d'
     \<and> entries d' = map to_mapping (take MaxMemoryEntries
         (mb2_available m (tag + 16) (mb2_entry_size tag m) 0
            (unat ((tag_size (load_mb2_tag tag m) - 16) div mb2_entry_size tag m))))"
  using store_all_table [OF assms(1), where f = "\<lambda>d. d"] assms(2)
  unfolding mb2_ParseMemoryMap_def GetExtent_def mb2_loop_stores by simp

definition mb1_mem :: mem where
  "mb1_mem = write32 0x1000 0x41 (write32 0x1004 639 (write32 0x1008 64512 (write32 0x102C 48 (write32 0x1030 0x2000
     (write32 0x2004 0x1000 (write32 0x200C 0x9E000 (write32 0x2014 2
     (write32 0x201C 0x100000 (write32 0x2024 0x3F00000 (write32 0x202C 1 (\<lambda>_. 0)))))))))))"

theorem mb1_reads_memory_map_witness:
  "\<exists>r d'. mb1_ReadInfo 0x5000 mb1_mem 0x1000 sample_args = Inr (r, d')
     \<and> entries d' = [\<lparr>Start = 0x100000, MapLength = 0x3F00000, Type = Available\<rparr>]"
proof -
  let ?mu = "load_multiboot 0x1000 mb1_mem"
  have f: "mb_flags ?mu AND MB_FLAG_MMAP \<noteq> 0" "mb_mmap_addr ?mu = 0x2000" "mb_mmap_length ?mu div 24 = 2" by code_simp+
  have a: "mb1_available mb1_mem 0x2000 0 2 = [(0x100000, 0x3F00000)]" by code_simp
  have l: "length (MemoryMap sample_args) = MaxMemoryEntries" by (simp add: sample_args_def MaxMemoryEntries_def)
  from mb1_reads_memory_map [OF l refl, where cl = "0x5000" and m = mb1_mem and p = "0x1000"] f a
  show ?thesis by (auto simp: MaxMemoryEntries_def to_mapping_def)
qed

definition mb2_mem :: mem where
  "mb2_mem = write32 0x1000 32 (write32 0x1008 4 (write32 0x100C 16 (write32 0x1010 639 (write32 0x1014 64512 (\<lambda>_. 0)))))"

theorem mb2_reads_tags_witness:
  "mb2_ReadInfo 0x5000 mb2_mem 0x1000 sample_args
     = Some (Inr (0, sample_args\<lparr>LowMemorySizeKByte := 639, HighMemorySizeKByte := 64512\<rparr>))"
proof -
  have l: "load_mb2_tag 0x1008 mb2_mem = \<lparr>tag_type = 4, tag_size = 16\<rparr>"
    "load_mb2_tag 0x1018 mb2_mem = \<lparr>tag_type = 0, tag_size = 0\<rparr>" by code_simp+
  have a: "align_ceiling 8 (0x1008 :: addr) = 0x1008" "align_ceiling 8 (0x1018 :: addr) = 0x1018" by code_simp+
  have t: "tags_at mb2_mem (0x1000 + 8) [0x1008] 0x1018" by (simp add: l a MB2_TAG_END_def)
  have s: "read32 0x1000 mb2_mem = 32" by code_simp
  have "apply_tags 0x5000 mb2_mem [0x1008] sample_args
      = Inr (sample_args\<lparr>LowMemorySizeKByte := 639, HighMemorySizeKByte := 64512\<rparr>)"
    by code_simp
  then show ?thesis using mb2_reads_tags [OF t] s by simp
qed

subsection \<open>Findings\<close>

text \<open>
  GetStr adds the length of the string instead of the size of the tag's header, so the command
  line is read from the right place only when it has eight bytes.
\<close>

lemma get_str_address: "fst (GetStr tag m) = tag + 8 \<longleftrightarrow> tag_size (load_mb2_tag tag m) = 16"
proof -
  have "x - 8 = 8 \<longleftrightarrow> x = (16 :: u32)" for x by (auto simp: diff_eq_eq)
  then show ?thesis by (simp add: GetStr_def StrSize_def Let_def)
qed

text \<open>A tag of size zero that is not the end keeps the reader at the same place for ever.\<close>

lemma zero_tag_never_returns:
  assumes "align_ceiling 8 ptr = ptr" "tag_size (load_mb2_tag ptr m) = 0" "sz < tot"
    and "tag_type (load_mb2_tag ptr m) = 3"
  shows "mb2_loop cl m tot ptr sz d = None"
proof (rule ccontr)
  assume "mb2_loop cl m tot ptr sz d \<noteq> None"
  then obtain y where "mb2_loop cl m tot ptr sz d = Some y" by auto
  then have "\<not> (align_ceiling 8 ptr = ptr \<and> tag_size (load_mb2_tag ptr m) = 0 \<and> sz < tot
      \<and> tag_type (load_mb2_tag ptr m) = 3)"
    by (rule mb2_loop.raw_induct [rotated])
      (auto simp: Let_def mb2_tag_switch_def MB2_TAG_END_def MB2_TAG_BOOT_CMD_def MB2_TAG_FRAMEBUFFER_def
        MB2_TAG_BASIC_MEMINFO_def MB2_TAG_MEMORY_MAP_def)
  with assms show False by blast
qed

end
