(* ===== verification/PagingFacts.thy ===== *)
theory PagingFacts
  imports Paging
begin

text \<open>
  Facts about the i386 page tables: tables as arrays of entries, the walk of the processor,
  what MapPage and the boot mapping do to it, and where the code misses its tables.
\<close>

subsection \<open>Tables as arrays\<close>

lemma slot_unat:
  assumes "page_aligned b" "unat i < 1024"
  shows "unat (slot b i) = unat b + 4 * unat i"
    "unat (slot b i + 1) = unat b + 4 * unat i + 1" "unat (slot b i + 2) = unat b + 4 * unat i + 2"
    "unat (slot b i + 3) = unat b + 4 * unat i + 3"
proof -
  have b: "unat b + 4096 \<le> 4294967296" using page_aligned_room [OF assms(1)] by simp
  have 4: "unat (4 * i) = 4 * unat i" using assms(2) by (subst unat_mult_lem [THEN iffD1]) simp_all
  show s: "unat (slot b i) = unat b + 4 * unat i"
    unfolding slot_def using b 4 assms(2) by (subst unat_add_noov) simp_all
  show "unat (slot b i + 1) = unat b + 4 * unat i + 1" using s b assms(2) by (subst unat_add_noov) simp_all
  show "unat (slot b i + 2) = unat b + 4 * unat i + 2" using s b assms(2) by (subst unat_add_noov) simp_all
  show "unat (slot b i + 3) = unat b + 4 * unat i + 3" using s b assms(2) by (subst unat_add_noov) simp_all
qed

lemma four_bytes:
  "ucast (ucast v :: u8) OR push_bit 8 (ucast (ucast (drop_bit 8 v) :: u8))
     OR push_bit 16 (ucast (ucast (drop_bit 16 v) :: u8)) OR push_bit 24 (ucast (ucast (drop_bit 24 v) :: u8)) = (v :: u32)"
proof (rule bit_word_eqI)
  fix n
  assume "n < LENGTH(32)"
  then consider "n < 8" | "8 \<le> n \<and> n < 16" | "16 \<le> n \<and> n < 24" | "24 \<le> n \<and> n < 32" by force
  then show "bit (ucast (ucast v :: u8) OR push_bit 8 (ucast (ucast (drop_bit 8 v) :: u8))
     OR push_bit 16 (ucast (ucast (drop_bit 16 v) :: u8)) OR push_bit 24 (ucast (ucast (drop_bit 24 v) :: u8)) :: u32) n = bit v n"
    by cases (auto simp: bit_simps)
qed

lemma bytes_differ: "a \<noteq> a + 1" "a \<noteq> a + 2" "a \<noteq> a + 3" "a + 1 \<noteq> a + 2" "a + 1 \<noteq> a + 3" "a + 2 \<noteq> a + 3" for a :: u32
  by simp_all

lemma read_write_same [simp]: "read32 a (write32 a v m) = v"
  using bytes_differ [of a] by (simp add: read32_def write32_def four_bytes)

lemma mod4_bytes: "4 dvd x \<Longrightarrow> 4 dvd y \<Longrightarrow> x \<noteq> y \<Longrightarrow> i < 4 \<Longrightarrow> j < 4 \<Longrightarrow> x + i \<noteq> y + j" for x y :: nat
  by presburger

lemma read_write_other:
  assumes "page_aligned b" "unat i < 1024" "page_aligned b'" "unat i' < 1024" "slot b i \<noteq> slot b' i'"
  shows "read32 (slot b i) (write32 (slot b' i') v m) = read32 (slot b i) m"
proof -
  have d: "4 dvd unat b + 4 * unat i" "4 dvd unat b' + 4 * unat i'"
    using assms(1,3) by (auto simp: page_aligned_def elim!: dvdE)
  have n: "unat b + 4 * unat i \<noteq> unat b' + 4 * unat i'"
    using assms slot_unat(1) [of b i] slot_unat(1) [of b' i'] by (auto simp: word_unat_eq_iff)
  have x: "unat b + 4 * unat i + k \<noteq> unat b' + 4 * unat i' + j" if "k < 4" "j < 4" for k j
    using mod4_bytes [OF d n that] .
  note s = slot_unat [OF assms(1,2)] slot_unat [OF assms(3,4)]
  have "slot b i \<noteq> slot b' i'" "slot b i \<noteq> slot b' i' + 1" "slot b i \<noteq> slot b' i' + 2" "slot b i \<noteq> slot b' i' + 3"
    "slot b i + 1 \<noteq> slot b' i'" "slot b i + 1 \<noteq> slot b' i' + 1" "slot b i + 1 \<noteq> slot b' i' + 2" "slot b i + 1 \<noteq> slot b' i' + 3"
    "slot b i + 2 \<noteq> slot b' i'" "slot b i + 2 \<noteq> slot b' i' + 1" "slot b i + 2 \<noteq> slot b' i' + 2" "slot b i + 2 \<noteq> slot b' i' + 3"
    "slot b i + 3 \<noteq> slot b' i'" "slot b i + 3 \<noteq> slot b' i' + 1" "slot b i + 3 \<noteq> slot b' i' + 2" "slot b i + 3 \<noteq> slot b' i' + 3"
    using x [of 0 0] x [of 0 1] x [of 0 2] x [of 0 3] x [of 1 0] x [of 1 1] x [of 1 2] x [of 1 3]
      x [of 2 0] x [of 2 1] x [of 2 2] x [of 2 3] x [of 3 0] x [of 3 1] x [of 3 2] x [of 3 3]
    unfolding word_unat_eq_iff s by simp_all
  then show ?thesis by (simp add: read32_def write32_def)
qed

lemma slot_eq:
  assumes "page_aligned b" "unat i < 1024" "page_aligned b'" "unat i' < 1024"
  shows "slot b i = slot b' i' \<longleftrightarrow> b = b' \<and> i = i'"
proof
  assume "slot b i = slot b' i'"
  then have e: "unat b + 4 * unat i = unat b' + 4 * unat i'"
    using slot_unat(1) [of b i] slot_unat(1) [of b' i'] assms by simp
  obtain x y where "unat b = 4096 * x" "unat b' = 4096 * y" using assms(1,3) by (auto simp: page_aligned_def elim!: dvdE)
  with e assms have "unat b = unat b'" by simp
  with e show "b = b' \<and> i = i'" by (simp add: word_unat_eq_iff)
qed simp

lemma table_read_write:
  assumes "page_aligned b" "unat i < 1024" "page_aligned b'" "unat i' < 1024"
  shows "read32 (slot b i) (write32 (slot b' i') v m) = (if b = b' \<and> i = i' then v else read32 (slot b i) m)"
  using read_write_other [OF assms, of v m] slot_eq [OF assms] by auto

lemma in_page:
  assumes "page_aligned p" "page_aligned b" "unat x = unat b + k" "k < 4096"
  shows "x - p < PageSize \<longleftrightarrow> b = p"
proof
  assume "b = p"
  then have "unat (x - p) = k" using assms by (subst unat_sub_noov) simp_all
  then show "x - p < PageSize" using assms(4) by (simp add: PageSize_def word_less_nat_alt)
next
  assume l: "x - p < PageSize"
  obtain y z where yz: "unat b = 4096 * y" "unat p = 4096 * z" using assms(1,2) by (auto simp: page_aligned_def elim!: dvdE)
  have p: "unat p \<le> 4294963200" "unat b \<le> 4294963200" using page_aligned_room [OF assms(1)] page_aligned_room [OF assms(2)] by simp_all
  have "unat (x - p) < 4096" using l by (simp add: PageSize_def word_less_nat_alt)
  then have "y = z"
    using assms(3,4) p unfolding unat_sub_if' yz by (auto split: if_splits)
  then show "b = p" using yz by (simp add: word_unat_eq_iff)
qed

lemma table_read_clear:
  assumes "page_aligned b" "unat i < 1024" "page_aligned p"
  shows "read32 (slot b i) (memset p 0 PageSize m) = (if b = p then 0 else read32 (slot b i) m)"
  using in_page [OF assms(3,1) slot_unat(1) [OF assms(1,2)]]
    in_page [OF assms(3,1), of "slot b i + 1" "4 * unat i + 1"] in_page [OF assms(3,1), of "slot b i + 2" "4 * unat i + 2"]
    in_page [OF assms(3,1), of "slot b i + 3" "4 * unat i + 3"] slot_unat [OF assms(1,2)] assms(2)
  by (simp add: read32_def memset_eq)

subsection \<open>Indices and entries\<close>

definition dir_index :: "addr \<Rightarrow> u32" where "dir_index v = drop_bit 22 v"
definition entry_index :: "addr \<Rightarrow> u32" where "entry_index v = drop_bit 12 v AND 0x3FF"

lemma unat_and_mask: "k < LENGTH('a) \<Longrightarrow> unat (w AND mask k) = unat w mod 2 ^ k" for w :: "'a::len word"
  unfolding take_bit_eq_mask [symmetric] take_bit_eq_mod unat_mod by (simp only: unat_exp)

lemma unat_and_index: "unat (w AND 0x3FF) = unat w mod 1024" "unat (w AND 0x3FFF) = unat w mod 16384" for w :: u32
  using unat_and_mask [of 10 w] unat_and_mask [of 14 w] by (simp_all add: mask_eq_exp_minus_1)

lemma index_unat:
  "unat (dir_index v) = unat v div 4194304" "unat (entry_index v) = unat v div 4096 mod 1024"
  "unat (dir_index v) < 1024" "unat (entry_index v) < 1024"
proof -
  show d: "unat (dir_index v) = unat v div 4194304"
    by (simp only: dir_index_def unat_drop_bit_eq) (simp add: drop_bit_eq_div)
  show e: "unat (entry_index v) = unat v div 4096 mod 1024"
    by (simp only: entry_index_def unat_and_index unat_drop_bit_eq) (simp add: drop_bit_eq_div)
  show "unat (dir_index v) < 1024" using d unat_lt32 [of v] by simp
  show "unat (entry_index v) < 1024" using e by simp
qed

lemma dir_index_masks: "ToDirIndex v = dir_index v" "drop_bit 22 v AND 0x03FF = dir_index v"
  unfolding word_unat_eq_iff ToDirIndex_def
  using index_unat(3) [of v] by (simp_all only: unat_and_index flip: dir_index_def) simp_all

text \<open>The index of MapPage keeps four bits too many: it is right where they are zero.\<close>

definition low_slot :: "addr \<Rightarrow> bool" where "low_slot v \<longleftrightarrow> unat (dir_index v) mod 16 = 0"

lemma ToEntryIndex_unat: "unat (ToEntryIndex v) = 1024 * (unat (dir_index v) mod 16) + unat (entry_index v)"
proof -
  have "unat (ToEntryIndex v) = unat v div 4096 mod 16384"
    by (simp only: ToEntryIndex_def unat_and_index unat_drop_bit_eq) (simp add: drop_bit_eq_div)
  also have "\<dots> = 1024 * (unat v div 4096 div 1024 mod 16) + unat v div 4096 mod 1024"
    using mod_mult2_eq [of "unat v div 4096" 1024 16] by simp
  finally show ?thesis by (simp add: index_unat div_mult2_eq [symmetric])
qed

lemma ToEntryIndex_low: "low_slot v \<Longrightarrow> ToEntryIndex v = entry_index v"
  using ToEntryIndex_unat [of v] by (simp add: low_slot_def word_unat_eq_iff)

lemma digits_eq: "b < 1024 \<Longrightarrow> d < 1024 \<Longrightarrow> a * 1024 + b = c * 1024 + d \<longleftrightarrow> a = c \<and> b = d" for a b c d :: nat
proof -
  assume l: "b < 1024" "d < 1024"
  have "(a * 1024 + b) div 1024 = a" "(c * 1024 + d) div 1024 = c" using l by simp_all
  then show "a * 1024 + b = c * 1024 + d \<longleftrightarrow> a = c \<and> b = d" by (metis add_left_cancel)
qed

lemma same_page_iff: "drop_bit 12 v = drop_bit 12 w \<longleftrightarrow> dir_index v = dir_index w \<and> entry_index v = entry_index w"
proof -
  have "unat x div 4096 = unat x div 4194304 * 1024 + unat x div 4096 mod 1024" for x :: u32
    using div_mult_mod_eq [of "unat x div 4096" 1024] by (simp add: div_mult2_eq [symmetric])
  moreover have "unat (drop_bit 12 x) = unat x div 4096" for x :: u32
    by (simp only: unat_drop_bit_eq) (simp add: drop_bit_eq_div)
  ultimately have "drop_bit 12 v = drop_bit 12 w \<longleftrightarrow> unat v div 4194304 * 1024 + unat v div 4096 mod 1024
      = unat w div 4194304 * 1024 + unat w div 4096 mod 1024" by (metis word_unat_eq_iff)
  also have "\<dots> \<longleftrightarrow> unat v div 4194304 = unat w div 4194304 \<and> unat v div 4096 mod 1024 = unat w div 4096 mod 1024"
    by (rule digits_eq) simp_all
  finally show ?thesis by (simp add: index_unat word_unat_eq_iff)
qed

lemma entry_flags:
  "MapToDirFlags f OR PE_Present \<in> {1, 3, 5, 7}" "MapToEntryFlags f OR PE_Present \<in> {1, 3, 5, 7}"
  by (simp_all add: MapToDirFlags_def MapToEntryFlags_def entry_defs Let_def)

lemma masked_entry:
  assumes "f \<in> {1, 3, 5, 7}"
  shows "(p AND 0xFFFFF000 OR f) AND 0xFFFFF000 = (p AND 0xFFFFF000 :: u32)"
    "(p AND 0xFFFFF000 OR f) AND 1 = 1"
proof -
  have "f AND 0xFFFFF000 = 0" "f AND 1 = 1" using assms by auto
  then show "(p AND 0xFFFFF000 OR f) AND 0xFFFFF000 = (p AND 0xFFFFF000 :: u32)" "(p AND 0xFFFFF000 OR f) AND 1 = 1"
    by (simp_all add: bit.conj_disj_distrib2 and.assoc)
qed

lemma page_mask: "p AND 0xFFFFF000 = align_floor 4096 p" for p :: addr
proof -
  have "ucast (NOT (4096 - 1 :: u32)) = (0xFFFFF000 :: addr)" by code_simp
  then show ?thesis by (simp only: align_floor_def)
qed

lemma align_floor_page: "page_aligned (align_floor 4096 p)" "page_aligned p \<Longrightarrow> align_floor 4096 p = p"
  using is_aligned_dvd [of 4096 p]
  by (simp_all add: page_aligned_def unat_align_floor is_aligned_def)

lemma page_aligned_is: "page_aligned p \<longleftrightarrow> is_aligned 4096 p"
  by (simp add: page_aligned_def is_aligned_dvd)

subsection \<open>The walk of the processor\<close>

text \<open>
  Directory and table entry are taken by the upper two indices of the address; both must have the
  present bit. The result is the table entry.
\<close>

definition walk :: "mem \<Rightarrow> addr \<Rightarrow> addr \<Rightarrow> u32 option" where
  "walk m dir v =
     (let pde = read32 (slot dir (dir_index v)) m
      in if pde AND 1 = 0 then None
         else let pte = read32 (slot (pde AND 0xFFFFF000) (entry_index v)) m
              in if pte AND 1 = 0 then None else Some pte)"

definition pde :: "paging \<Rightarrow> u32 \<Rightarrow> u32" where "pde s d = read32 (slot (pg_dir s) d) (pg_mem s)"
definition present :: "paging \<Rightarrow> u32 \<Rightarrow> bool" where "present s d \<longleftrightarrow> pde s d AND 1 \<noteq> 0"
definition table_of :: "paging \<Rightarrow> u32 \<Rightarrow> addr" where "table_of s d = pde s d AND 0xFFFFF000"

lemma walk_state:
  "walk (pg_mem s) (pg_dir s) w =
     (if present s (dir_index w) then
        let pte = read32 (slot (table_of s (dir_index w)) (entry_index w)) (pg_mem s)
        in if pte AND 1 = 0 then None else Some pte
      else None)"
  by (simp add: walk_def present_def table_of_def pde_def Let_def)

text \<open>
  The tables in use are pages of the boot heap below its end, none of them null, none used
  twice and none the directory itself.
\<close>

definition tables_ok :: "paging \<Rightarrow> bool" where
  "tables_ok s \<longleftrightarrow> page_aligned (pg_dir s) \<and> page_aligned (HeapNext (pg_args s))
     \<and> pg_dir s < HeapNext (pg_args s) \<and> \<not> pg_global s
     \<and> (\<forall>d. unat d < 1024 \<and> present s d \<longrightarrow>
          table_of s d \<noteq> 0 \<and> table_of s d \<noteq> pg_dir s \<and> table_of s d < HeapNext (pg_args s)
          \<and> (\<forall>e. unat e < 1024 \<and> present s e \<and> table_of s e = table_of s d \<longrightarrow> e = d))"

lemma table_aligned [simp]: "page_aligned (table_of s d)" by (simp add: table_of_def page_mask align_floor_page)

lemma tables_okD:
  assumes "tables_ok s" "unat d < 1024" "present s d"
  shows "table_of s d \<noteq> 0" "table_of s d \<noteq> pg_dir s" "table_of s d < HeapNext (pg_args s)"
    "unat e < 1024 \<Longrightarrow> present s e \<Longrightarrow> table_of s e = table_of s d \<Longrightarrow> e = d"
  using assms unfolding tables_ok_def by simp_all

lemma tables_ok_cong:
  assumes "tables_ok s" "\<And>d. unat d < 1024 \<Longrightarrow> pde s' d = pde s d"
    and "pg_dir s' = pg_dir s" "pg_args s' = pg_args s" "pg_global s' = pg_global s"
  shows "tables_ok s'"
proof -
  have "present s' d = present s d" "table_of s' d = table_of s d" if "unat d < 1024" for d
    using assms(2) [OF that] by (simp_all add: present_def table_of_def)
  then show ?thesis using assms(1,3-5) unfolding tables_ok_def by (simp cong: conj_cong)
qed

text \<open>The state after the table of v is there; it is found or made of the next page of the heap.\<close>

lemma get_or_create:
  assumes "tables_ok s" "HeapNext (pg_args s) \<noteq> 0"
    and "unat (HeapNext (pg_args s)) + 4096 < 2 ^ 32"
  obtains t s' where "GetOrCreatePageTable v flags s = Some (t, s')" "tables_ok s'" "pg_dir s' = pg_dir s"
    "present s' (dir_index v)" "table_of s' (dir_index v) = t"
    "\<And>d. unat d < 1024 \<Longrightarrow> present s' d \<longleftrightarrow> present s d \<or> d = dir_index v"
    "\<And>w. walk (pg_mem s') (pg_dir s') w = walk (pg_mem s) (pg_dir s) w"
    "unat (HeapNext (pg_args s')) = unat (HeapNext (pg_args s)) + (if present s (dir_index v) then 0 else 4096)"
    "KernelStart (pg_args s') = KernelStart (pg_args s)" "KernelEnd (pg_args s') = KernelEnd (pg_args s)"
proof (cases "present s (dir_index v)")
  case True
  then have "GetOrCreatePageTable v flags s = Some (table_of s (dir_index v), s)"
    using assms(1) index_unat(3) [of v]
    by (simp add: GetOrCreatePageTable_def GetPageTable_def dir_index_masks tables_ok_def present_def pde_def
        table_of_def DE_Present_def DE_AddressMask_def Let_def)
  moreover have "present s d \<longleftrightarrow> present s d \<or> d = dir_index v" for d using True by blast
  ultimately show thesis using that True assms(1) by simp
next
  case False
  let ?h = "HeapNext (pg_args s)" and ?d = "dir_index v" and ?f = "MapToDirFlags flags OR PE_Present"
  let ?s = "AddDirectoryEntry ?d ?h flags (s\<lparr>pg_args := snd (boot_allocate_page (pg_args s))\<rparr>)"
  let ?e = "(?h AND 0xFFFFF000) OR ?f"
  have run: "GetOrCreatePageTable v flags s = Some (?h, ?s)"
    using False assms(1)
    by (simp add: GetOrCreatePageTable_def GetPageTable_def dir_index_masks tables_ok_def present_def pde_def
        pt_allocate_def boot_allocate_page_def DE_Present_def Let_def)
  have h: "page_aligned ?h" "?h AND 0xFFFFF000 = ?h" "?h \<noteq> pg_dir s"
    using assms(1) align_floor_page(2) by (auto simp: tables_ok_def page_mask)
  have dir: "page_aligned (pg_dir s)" using assms(1) by (simp add: tables_ok_def)
  have e: "?e AND 0xFFFFF000 = ?h" "?e AND 1 = 1" 
    unfolding masked_entry [OF entry_flags(1)] by (rule h(2) refl)+
  have mem: "pg_mem ?s = write32 (slot (pg_dir s) ?d) ?e (memset ?h 0 PageSize (pg_mem s))" "pg_dir ?s = pg_dir s"
    by (simp_all add: AddDirectoryEntry_def PE_AddressMask_def Let_def)
  have pde: "pde ?s d = (if d = ?d then ?e else pde s d)" if "unat d < 1024" for d
    unfolding pde_def mem using that h dir index_unat(3) [of v]
    by (subst table_read_write) (auto simp: table_read_clear)
  have pres: "present ?s d \<longleftrightarrow> present s d \<or> d = ?d" if "unat d < 1024" for d
    using pde [OF that] e(2) by (simp add: present_def)
  have tab: "table_of ?s d = (if d = ?d then ?h else table_of s d)" if "unat d < 1024" for d
    using pde [OF that] e(1) by (simp add: table_of_def)
  have args: "unat (HeapNext (pg_args ?s)) = unat ?h + 4096" "KernelStart (pg_args ?s) = KernelStart (pg_args s)"
    "KernelEnd (pg_args ?s) = KernelEnd (pg_args s)" "pg_global ?s = pg_global s"
    using assms(3) by (simp_all add: AddDirectoryEntry_def boot_allocate_page_def Let_def PageSize_def unat_add_noov)
  have ok: "tables_ok ?s"
  proof -
    have lt: "table_of s d < ?h" "table_of s d \<noteq> 0" "table_of s d \<noteq> pg_dir s" if "unat d < 1024" "present s d" for d
      using assms(1) that by (simp_all add: tables_ok_def)
    have inj: "e = d" if "unat d < 1024" "present s d" "unat e < 1024" "present s e" "table_of s e = table_of s d" for d e
      using assms(1) that by (simp add: tables_ok_def)
    have grow: "x < HeapNext (pg_args ?s)" if "x \<le> ?h" for x using that args(1) by (simp add: word_less_nat_alt word_le_nat_alt)
    have "table_of ?s d \<noteq> 0 \<and> table_of ?s d \<noteq> pg_dir s \<and> table_of ?s d < HeapNext (pg_args ?s)"
      if "unat d < 1024" "present ?s d" for d
      using that lt pres tab h(3) assms(2) by (cases "d = ?d") (auto intro: grow dest: less_imp_le)
    moreover have "e = d" if "unat d < 1024" "present ?s d" "unat e < 1024" "present ?s e" "table_of ?s e = table_of ?s d" for d e
      using that lt(1) [of d] lt(1) [of e] inj [of d e] by (auto simp: pres tab split: if_splits)
    moreover have "pg_dir s < HeapNext (pg_args ?s)" using assms(1) by (auto simp: tables_ok_def intro: grow dest: less_imp_le)
    moreover have "page_aligned (HeapNext (pg_args ?s))" using h(1) args(1) by (simp add: page_aligned_def)
    ultimately show ?thesis using dir args(4) assms(1) unfolding tables_ok_def mem(2) by blast
  qed
  have walk: "walk (pg_mem ?s) (pg_dir ?s) w = walk (pg_mem s) (pg_dir s) w" for w
  proof (cases "dir_index w = ?d")
    case True
    have "read32 (slot ?h (entry_index w)) (pg_mem ?s) = 0"
      unfolding mem using h dir index_unat(3,4) by (subst table_read_write) (auto simp: table_read_clear)
    then show ?thesis
      using True False pde [OF index_unat(3), of w] e by (simp add: walk_def present_def Let_def flip: pde_def)
  next
    case False
    have "read32 (slot (table_of s (dir_index w)) (entry_index w)) (pg_mem ?s)
        = read32 (slot (table_of s (dir_index w)) (entry_index w)) (pg_mem s)" if "present s (dir_index w)"
    proof -
      have "table_of s (dir_index w) < ?h" "table_of s (dir_index w) \<noteq> pg_dir s"
        using assms(1) that index_unat(3) [of w] by (simp_all add: tables_ok_def)
      then show ?thesis unfolding mem using h dir index_unat(3,4)
        by (subst table_read_write) (auto simp: table_read_clear)
    qed
    then show ?thesis
      using False pde [OF index_unat(3), of w] by (simp add: walk_def present_def table_of_def Let_def flip: pde_def)
  qed
  show thesis using that [OF run ok] mem(2) pres tab pde walk args False e index_unat(3) [of v] by simp
qed

text \<open>The page table entry that MapPage writes.\<close>

definition page_entry :: "addr \<Rightarrow> u32 \<Rightarrow> u32" where
  "page_entry paddr flags = (paddr AND 0xFFFFF000) OR (MapToEntryFlags flags OR PE_Present)"

lemma map_page_ok:
  assumes "tables_ok s" "HeapNext (pg_args s) \<noteq> 0" "unat (HeapNext (pg_args s)) + 4096 < 2 ^ 32"
    and "page_aligned p" "page_aligned v" "low_slot v"
  obtains s' where "MapPage p v flags s = Some (EC_NoError, s')" "tables_ok s'"
    "\<And>w. walk (pg_mem s') (pg_dir s') w
      = (if drop_bit 12 w = drop_bit 12 v then Some (page_entry p flags) else walk (pg_mem s) (pg_dir s) w)"
    "\<And>d. unat d < 1024 \<Longrightarrow> present s' d \<longleftrightarrow> present s d \<or> d = dir_index v"
    "unat (HeapNext (pg_args s')) = unat (HeapNext (pg_args s)) + (if present s (dir_index v) then 0 else 4096)"
    "KernelStart (pg_args s') = KernelStart (pg_args s)" "KernelEnd (pg_args s') = KernelEnd (pg_args s)"
proof -
  obtain t s1 where c: "GetOrCreatePageTable v flags s = Some (t, s1)" "tables_ok s1" "pg_dir s1 = pg_dir s"
    "present s1 (dir_index v)" "table_of s1 (dir_index v) = t"
    "\<And>d. unat d < 1024 \<Longrightarrow> present s1 d \<longleftrightarrow> present s d \<or> d = dir_index v"
    "\<And>w. walk (pg_mem s1) (pg_dir s1) w = walk (pg_mem s) (pg_dir s) w"
    "unat (HeapNext (pg_args s1)) = unat (HeapNext (pg_args s)) + (if present s (dir_index v) then 0 else 4096)"
    "KernelStart (pg_args s1) = KernelStart (pg_args s)" "KernelEnd (pg_args s1) = KernelEnd (pg_args s)"
    by (rule get_or_create [OF assms(1-3), of v flags]) (rule that; assumption)
  let ?e = "page_entry p flags"
  let ?s = "s1\<lparr>pg_mem := write32 (slot t (entry_index v)) ?e (pg_mem s1)\<rparr>"
  have run: "MapPage p v flags s = Some (EC_NoError, ?s)"
    using assms(4-6) c(1)
    by (simp add: MapPage_def doMapPage_def page_aligned_is ToEntryIndex_low page_entry_def PE_AddressMask_def Let_def)
  have t: "page_aligned t" "t \<noteq> pg_dir s1" "page_aligned (pg_dir s1)"
    using c(2,4,5) index_unat(3) [of v] by (auto simp: tables_ok_def)
  have pde: "pde ?s d = pde s1 d" if "unat d < 1024" for d
    using t that index_unat(4) [of v] by (simp add: pde_def table_read_write)
  have ok: "tables_ok ?s" by (rule tables_ok_cong [OF c(2) pde]) simp_all
  have "?e AND 1 = 1" unfolding page_entry_def using masked_entry(2) [OF entry_flags(2)] .
  then have walk: "walk (pg_mem ?s) (pg_dir ?s) w
      = (if drop_bit 12 w = drop_bit 12 v then Some ?e else walk (pg_mem s) (pg_dir s) w)" for w
  proof -
    have r: "read32 (slot (table_of s1 (dir_index w)) (entry_index w)) (pg_mem ?s)
        = (if table_of s1 (dir_index w) = t \<and> entry_index w = entry_index v then ?e
           else read32 (slot (table_of s1 (dir_index w)) (entry_index w)) (pg_mem s1))"
      using t(1) index_unat(4) by (simp add: table_read_write)
    have same: "table_of s1 (dir_index w) = t \<longleftrightarrow> dir_index w = dir_index v" if "present s1 (dir_index w)"
      using that c(4,5) tables_okD(4) [OF c(2) index_unat(3) c(4) index_unat(3), of w] by auto
    have "walk (pg_mem ?s) (pg_dir ?s) w = (if drop_bit 12 w = drop_bit 12 v then Some ?e else walk (pg_mem s1) (pg_dir s1) w)"
    proof -
      have p: "present ?s (dir_index w) = present s1 (dir_index w)" "table_of ?s (dir_index w) = table_of s1 (dir_index w)"
        using pde [OF index_unat(3), of w] by (simp_all add: present_def table_of_def)
      show ?thesis
      proof (cases "present s1 (dir_index w)")
        case True
        then show ?thesis unfolding walk_state p r same [OF True] same_page_iff [of w v]
          using \<open>?e AND 1 = 1\<close> by (simp add: Let_def)
      next
        case False
        then have "dir_index w \<noteq> dir_index v" using c(4) by auto
        with False show ?thesis unfolding walk_state p same_page_iff [of w v] by simp
      qed
    qed
    then show ?thesis using c(7) by simp
  qed
  show thesis using that [OF run ok walk] c(6,8,9,10) pde by (simp add: present_def)
qed

text \<open>The directory that the constructor takes from the boot heap is empty.\<close>

lemma page_table_new_ok:
  assumes "\<not> pg_global s" "page_aligned (HeapNext (pg_args s))" "unat (HeapNext (pg_args s)) + 4096 < 2 ^ 32"
  obtains s' where "page_table_new s = Some s'" "tables_ok s'" "\<And>w. walk (pg_mem s') (pg_dir s') w = None"
    "\<And>d. unat d < 1024 \<Longrightarrow> \<not> present s' d"
    "unat (HeapNext (pg_args s')) = unat (HeapNext (pg_args s)) + 4096"
    "KernelStart (pg_args s') = KernelStart (pg_args s)" "KernelEnd (pg_args s') = KernelEnd (pg_args s)"
proof -
  let ?h = "HeapNext (pg_args s)"
  let ?s = "s\<lparr>pg_args := snd (boot_allocate_page (pg_args s)), pg_dir := ?h, pg_mem := memset ?h 0 PageSize (pg_mem s)\<rparr>"
  have run: "page_table_new s = Some ?s"
    using assms(1) by (simp add: page_table_new_def pt_allocate_def boot_allocate_page_def)
  have h: "unat (HeapNext (pg_args ?s)) = unat ?h + 4096"
    using assms(3) by (simp add: boot_allocate_page_def PageSize_def unat_add_noov)
  have z: "pde ?s d = 0" if "unat d < 1024" for d
    using that assms(2) by (simp add: pde_def table_read_clear)
  have "tables_ok ?s"
    using assms h z by (auto simp: tables_ok_def present_def page_aligned_def word_less_nat_alt)
  moreover have "walk (pg_mem ?s) (pg_dir ?s) w = None" for w
    using z [OF index_unat(3), of w] by (simp add: walk_def pde_def Let_def)
  ultimately show thesis using that [OF run] h z by (simp add: present_def boot_allocate_page_def)
qed

subsection \<open>The boot mapping\<close>

text \<open>The entry of the page with the number q, present and writable for the kernel only.\<close>

definition boot_entry :: "nat \<Rightarrow> u32" where "boot_entry q = (of_nat (q * 4096) AND 0xFFFFF000) OR 3"

text \<open>
  The mapping after the pages below n: the page of an address is its own, and the kernel's
  pages are seen a second time above the offset.
\<close>

definition boot_map :: "addr \<Rightarrow> addr \<Rightarrow> nat \<Rightarrow> addr \<Rightarrow> u32 option" where
  "boot_map kstart klast n w =
     (let q = unat w div 4096; k = q - 786432
      in if 1 \<le> q \<and> q < n then Some (boot_entry q)
         else if 786433 \<le> q \<and> k < n \<and> unat kstart \<le> k * 4096 \<and> k * 4096 \<le> unat klast then Some (boot_entry k)
         else None)"

lemma boot_flags:
  "MapToEntryFlags (flag_or PF_Write PF_Kernel) OR PE_Present = 3"
  "MapToEntryFlags (flag_or PF_Execute PF_Kernel) OR PE_Present = 3"
  by code_simp+

lemma same_page_div: "drop_bit 12 w = drop_bit 12 v \<longleftrightarrow> unat w div 4096 = unat v div 4096" for w v :: addr
proof -
  have e: "unat (drop_bit 12 x) = unat x div 4096" for x :: u32
    by (simp only: unat_drop_bit_eq) (simp add: drop_bit_eq_div)
  show ?thesis unfolding word_unat_eq_iff e by (rule refl)
qed

lemma boot_page:
  assumes "i < 1024"
  shows "unat (of_nat i * PageSize :: addr) = i * 4096" "page_aligned (of_nat i * PageSize)"
    "low_slot (of_nat i * PageSize)" "dir_index (of_nat i * PageSize) = 0"
    "unat (Phys2Virt (of_nat i * PageSize)) = 3221225472 + i * 4096" "page_aligned (Phys2Virt (of_nat i * PageSize))"
    "low_slot (Phys2Virt (of_nat i * PageSize))" "dir_index (Phys2Virt (of_nat i * PageSize)) = 768"
proof -
  let ?p = "of_nat i * PageSize :: addr"
  show u: "unat ?p = i * 4096"
    using assms unfolding PageSize_def by (subst unat_mult_lem [THEN iffD1]) (simp_all add: unat_of_nat_len)
  show d: "dir_index ?p = 0" unfolding word_unat_eq_iff index_unat(1) u using assms by simp
  show "page_aligned ?p" unfolding page_aligned_def u by simp
  show "low_slot ?p" using d by (simp add: low_slot_def)
  have "?p < KERNEL_OFFSET" using u assms by (simp add: KERNEL_OFFSET_def word_less_nat_alt)
  then show v: "unat (Phys2Virt ?p) = 3221225472 + i * 4096"
    unfolding Phys2Virt_def KERNEL_OFFSET_def using u assms by (simp add: unat_add_noov)
  have "(3221225472 + i * 4096) div 4194304 = 768" using assms by simp
  then show e: "dir_index (Phys2Virt ?p) = 768" unfolding word_unat_eq_iff index_unat(1) v by simp
  show "page_aligned (Phys2Virt ?p)" unfolding page_aligned_def v by (simp add: dvd_add_right_iff)
  show "low_slot (Phys2Virt ?p)" using e by (simp add: low_slot_def)
qed

text \<open>Only the first and the first upper entry of the directory are used.\<close>

definition boot_tables :: "nat \<Rightarrow> paging \<Rightarrow> bool" where
  "boot_tables h s \<longleftrightarrow> tables_ok s
     \<and> (\<forall>d. unat d < 1024 \<and> present s d \<longrightarrow> d = 0 \<or> d = 768)
     \<and> unat (HeapNext (pg_args s)) = h + 4096 * (of_bool (present s 0) + of_bool (present s 768))"

lemma boot_map_page:
  assumes "boot_tables h s" "0 < h" "h + 12288 < 2 ^ 32" "i < 1024" "p = of_nat i * PageSize"
    and "v = p \<or> v = Phys2Virt p" "MapToEntryFlags flags OR PE_Present = 3"
  obtains s' where "MapPage p v flags s = Some (EC_NoError, s')" "boot_tables h s'"
    "\<And>w. walk (pg_mem s') (pg_dir s') w
      = (if unat w div 4096 = unat v div 4096 then Some (boot_entry i) else walk (pg_mem s) (pg_dir s) w)"
proof -
  have inv: "tables_ok s" "\<And>d. unat d < 1024 \<Longrightarrow> present s d \<Longrightarrow> d = 0 \<or> d = 768"
    "unat (HeapNext (pg_args s)) = h + 4096 * (of_bool (present s 0) + of_bool (present s 768))"
    using assms(1) by (simp_all add: boot_tables_def)
  note b = boot_page [OF assms(4)]
  have v: "page_aligned p" "page_aligned v" "low_slot v" "dir_index v = 0 \<or> dir_index v = 768"
    using assms(6) b by (auto simp: assms(5))
  have e: "page_entry p flags = boot_entry i"
    by (simp add: page_entry_def assms(5,7) boot_entry_def PageSize_def)
  have "HeapNext (pg_args s) \<noteq> 0" using inv(3) assms(2) by auto
  moreover have "unat (HeapNext (pg_args s)) \<le> h + 8192" unfolding inv(3) by simp
  then have "unat (HeapNext (pg_args s)) + 4096 < 2 ^ 32" using assms(3) by linarith
  ultimately obtain s' where s': "MapPage p v flags s = Some (EC_NoError, s')" "tables_ok s'"
    "\<And>w. walk (pg_mem s') (pg_dir s') w
      = (if drop_bit 12 w = drop_bit 12 v then Some (page_entry p flags) else walk (pg_mem s) (pg_dir s) w)"
    "\<And>d. unat d < 1024 \<Longrightarrow> present s' d \<longleftrightarrow> present s d \<or> d = dir_index v"
    "unat (HeapNext (pg_args s')) = unat (HeapNext (pg_args s)) + (if present s (dir_index v) then 0 else 4096)"
    by (rule map_page_ok [OF inv(1) _ _ v(1-3), of flags]) (rule that; assumption)
  have n: "unat (0 :: u32) < 1024" "unat (768 :: u32) < 1024" by simp_all
  have "boot_tables h s'"
    unfolding boot_tables_def s'(5) inv(3) s'(4) [OF n(1)] s'(4) [OF n(2)]
    using s'(2,4) inv(2) v(4) by auto
  moreover have "walk (pg_mem s') (pg_dir s') w
      = (if unat w div 4096 = unat v div 4096 then Some (boot_entry i) else walk (pg_mem s) (pg_dir s) w)" for w
    unfolding s'(3) e same_page_div ..
  ultimately show thesis using that s'(1) by blast
qed

lemma boot_map_step:
  assumes "1 \<le> i" "i < 1024"
  shows "boot_map a b (Suc i) w =
    (if unat a \<le> i * 4096 \<and> i * 4096 \<le> unat b \<and> unat w div 4096 = 786432 + i then Some (boot_entry i)
     else if unat w div 4096 = i then Some (boot_entry i) else boot_map a b i w)"
  using assms by (auto simp: boot_map_def Let_def) arith

lemma init_pages_loop_ok:
  "boot_tables h s \<Longrightarrow> 0 < h \<Longrightarrow> h + 12288 < 2 ^ 32 \<Longrightarrow> 1 \<le> i \<Longrightarrow> i + n = 1024 \<Longrightarrow>
   \<forall>w. walk (pg_mem s) (pg_dir s) w = boot_map a b i w \<Longrightarrow>
   \<exists>s'. init_pages_loop n i a b s = Some s' \<and> boot_tables h s'
     \<and> (\<forall>w. walk (pg_mem s') (pg_dir s') w = boot_map a b 1024 w)"
proof (induction n arbitrary: i s)
  case 0
  then show ?case by simp
next
  case (Suc n)
  let ?p = "of_nat i * PageSize :: addr"
  have i: "i < 1024" using Suc.prems by simp
  note b = boot_page [OF i]
  obtain s1 where s1: "MapPage ?p ?p (flag_or PF_Write PF_Kernel) s = Some (EC_NoError, s1)" "boot_tables h s1"
    "\<And>w. walk (pg_mem s1) (pg_dir s1) w
      = (if unat w div 4096 = unat ?p div 4096 then Some (boot_entry i) else walk (pg_mem s) (pg_dir s) w)"
    by (rule boot_map_page [OF Suc.prems(1-3) i refl disjI1 [OF refl] boot_flags(1)]) (rule that; assumption)
  then have w1: "walk (pg_mem s1) (pg_dir s1) w = (if unat w div 4096 = i then Some (boot_entry i) else boot_map a b i w)" for w
    using Suc.prems(6) b(1) by simp
  let ?in = "a \<le> ?p \<and> ?p \<le> b"
  have in_iff: "?in \<longleftrightarrow> unat a \<le> i * 4096 \<and> i * 4096 \<le> unat b" by (simp add: word_le_nat_alt b(1))
  obtain s2 where s2: "(if ?in then map_option snd (MapPage ?p (Phys2Virt ?p) (flag_or PF_Execute PF_Kernel) s1) else Some s1) = Some s2"
    "boot_tables h s2" "\<And>w. walk (pg_mem s2) (pg_dir s2) w = boot_map a b (Suc i) w"
  proof (cases ?in)
    case True
    obtain s2 where "MapPage ?p (Phys2Virt ?p) (flag_or PF_Execute PF_Kernel) s1 = Some (EC_NoError, s2)" "boot_tables h s2"
      "\<And>w. walk (pg_mem s2) (pg_dir s2) w
        = (if unat w div 4096 = unat (Phys2Virt ?p) div 4096 then Some (boot_entry i) else walk (pg_mem s1) (pg_dir s1) w)"
      by (rule boot_map_page [OF s1(2) Suc.prems(2,3) i refl disjI2 [OF refl] boot_flags(2)]) (rule that; assumption)
    then show ?thesis using that True in_iff w1 boot_map_step [OF Suc.prems(4) i] b(5) by simp
  next
    case False
    then show ?thesis using that s1(2) w1 in_iff boot_map_step [OF Suc.prems(4) i] by auto
  qed
  have step: "init_pages_loop (Suc n) i a b s = init_pages_loop n (Suc i) a b s2"
    unfolding init_pages_loop.simps Let_def s1(1) option.case prod.case s2(1) by simp
  have "1 \<le> Suc i" "Suc i + n = 1024" using Suc.prems(5) by simp_all
  from Suc.IH [OF s2(2) Suc.prems(2,3) this] s2(3) show ?case unfolding step by blast
qed

subsection \<open>Properties\<close>

text \<open>
  MapPage of an aligned page, for an address whose directory index is a multiple of 16 and
  with a page left on the boot heap, succeeds; then the processor finds that page, with the flags asked
  for, behind every address of the virtual page, finds for all other addresses what it found before, and
  the tables stay well-formed.
\<close>

theorem map_page_translates:
  assumes "tables_ok s" "HeapNext (pg_args s) \<noteq> 0" "unat (HeapNext (pg_args s)) + 4096 < 2 ^ 32"
    and "page_aligned p" "page_aligned v" "low_slot v"
  shows "\<exists>s'. MapPage p v flags s = Some (EC_NoError, s') \<and> tables_ok s'
     \<and> (\<forall>w. walk (pg_mem s') (pg_dir s') w
          = (if unat w div 4096 = unat v div 4096 then Some (page_entry p flags) else walk (pg_mem s) (pg_dir s) w))"
  by (rule map_page_ok [OF assms, of flags]) (auto simp: same_page_div)

definition sample_paging :: paging where
  "sample_paging = \<lparr>pg_mem = (\<lambda>_. 0), pg_dir = 0x200000, pg_args = sample_args\<lparr>HeapNext := 0x201000\<rparr>,
     pg_global = False, pg_pages = two_pages\<rparr>"

lemma sample_tables: "tables_ok sample_paging"
  by (simp add: tables_ok_def sample_paging_def present_def pde_def read32_def page_aligned_def)

theorem map_page_translates_witness:
  "\<exists>s'. MapPage 0x5000 0xC0005000 PF_Kernel sample_paging = Some (EC_NoError, s')
     \<and> walk (pg_mem s') (pg_dir s') 0xC0005123 = Some (page_entry 0x5000 PF_Kernel)"
proof -
  have "low_slot 0xC0005000" "page_aligned 0x5000" "page_aligned 0xC0005000"
    by (simp_all add: low_slot_def index_unat page_aligned_def)
  then show ?thesis
    using map_page_translates [OF sample_tables, of "0x5000" "0xC0005000" PF_Kernel] by (auto simp: sample_paging_def)
qed

lemma preinit_tables:
  assumes "\<not> pg_global s" "page_aligned (HeapNext (pg_args s))" "unat (HeapNext (pg_args s)) + 16384 < 2 ^ 32"
  shows "\<exists>s'. paging_preinit s = Some s' \<and> tables_ok s'
     \<and> (\<forall>w. walk (pg_mem s') (pg_dir s') w
          = boot_map (align_floor 4096 (KernelStart (pg_args s))) (align_ceiling 4096 (KernelEnd (pg_args s))) 1024 w)
     \<and> unat (HeapNext (pg_args s')) \<le> unat (HeapNext (pg_args s)) + 12288"
proof -
  obtain s1 where s1: "page_table_new s = Some s1" "tables_ok s1" "\<And>w. walk (pg_mem s1) (pg_dir s1) w = None"
    "\<And>d. unat d < 1024 \<Longrightarrow> \<not> present s1 d"
    "unat (HeapNext (pg_args s1)) = unat (HeapNext (pg_args s)) + 4096"
    "KernelStart (pg_args s1) = KernelStart (pg_args s)" "KernelEnd (pg_args s1) = KernelEnd (pg_args s)"
    using page_table_new_ok [OF assms(1,2)] assms(3) by auto
  let ?h = "unat (HeapNext (pg_args s)) + 4096"
  have b: "boot_tables ?h s1" using s1(2,4,5) by (auto simp: boot_tables_def)
  have z: "\<forall>w. walk (pg_mem s1) (pg_dir s1) w = boot_map a b 1 w" for a b
    unfolding s1(3) boot_map_def Let_def by auto
  obtain s' where "InitBootPages s1 = Some s'" "boot_tables ?h s'" "\<And>w. walk (pg_mem s') (pg_dir s') w =
      boot_map (align_floor 4096 (KernelStart (pg_args s))) (align_ceiling 4096 (KernelEnd (pg_args s))) 1024 w"
    unfolding InitBootPages_def s1(6,7) TableEntries_def
    using init_pages_loop_ok [OF b _ _ _ _ z, of "1024 - 1" "align_floor 4096 (KernelStart (pg_args s))"
        "align_ceiling 4096 (KernelEnd (pg_args s))"] assms(3) by auto
  moreover from this have "unat (HeapNext (pg_args s')) \<le> unat (HeapNext (pg_args s)) + 12288"
    by (simp add: boot_tables_def)
  ultimately show ?thesis using s1(1) by (auto simp: paging_preinit_def boot_tables_def)
qed

text \<open>
  C28: the boot tables map exactly the pages 1 to 1023 onto themselves and the kernel's among
  them a second time above the offset, writable and for the kernel only; in particular page zero stays
  unmapped. They take three pages of the boot heap at most.
\<close>

theorem preinit_maps_kernel:
  assumes "\<not> pg_global s" "page_aligned (HeapNext (pg_args s))" "unat (HeapNext (pg_args s)) + 16384 < 2 ^ 32"
  shows "\<exists>s'. paging_preinit s = Some s' \<and> tables_ok s'
     \<and> (\<forall>w. walk (pg_mem s') (pg_dir s') w
          = boot_map (align_floor 4096 (KernelStart (pg_args s))) (align_ceiling 4096 (KernelEnd (pg_args s))) 1024 w)
     \<and> unat (HeapNext (pg_args s')) \<le> unat (HeapNext (pg_args s)) + 12288"
  by (rule preinit_tables [OF assms])

theorem preinit_maps_kernel_witness:
  "\<exists>s'. paging_preinit sample_paging = Some s' \<and> walk (pg_mem s') (pg_dir s') 0x5123 = Some (boot_entry 5)
     \<and> walk (pg_mem s') (pg_dir s') 0 = None"
  using preinit_maps_kernel [of sample_paging]
  by (auto simp: sample_paging_def page_aligned_def boot_map_def)

text \<open>Consecutive pages.\<close>

lemma map_pages_loop_ok:
  "tables_ok s \<Longrightarrow> HeapNext (pg_args s) \<noteq> 0 \<Longrightarrow> unat (HeapNext (pg_args s)) + 4096 * n < 2 ^ 32 \<Longrightarrow>
   page_aligned p \<Longrightarrow> page_aligned v \<Longrightarrow> unat p + 4096 * n \<le> 2 ^ 32 \<Longrightarrow> unat v + 4096 * n \<le> 2 ^ 32 \<Longrightarrow>
   \<forall>k<n. low_slot (v + of_nat k * PageSize) \<Longrightarrow>
   \<exists>s'. map_pages_loop n i p v flags s = Some (Inr (EC_NoError, s')) \<and> tables_ok s'
     \<and> (\<forall>w. walk (pg_mem s') (pg_dir s') w
          = (let k = unat w div 4096 - unat v div 4096
             in if unat v div 4096 \<le> unat w div 4096 \<and> k < n
                then Some (page_entry (p + of_nat k * PageSize) flags) else walk (pg_mem s) (pg_dir s) w))"
proof (induction n arbitrary: i p v s)
  case 0
  then show ?case by simp
next
  case (Suc n)
  have low: "low_slot v" using Suc.prems(8) by (auto dest: spec [of _ 0])
  have room: "unat (HeapNext (pg_args s)) + 4096 < 2 ^ 32" using Suc.prems(3) by simp
  obtain s1 where s1: "MapPage p v flags s = Some (EC_NoError, s1)" "tables_ok s1"
    "\<And>w. walk (pg_mem s1) (pg_dir s1) w
      = (if drop_bit 12 w = drop_bit 12 v then Some (page_entry p flags) else walk (pg_mem s) (pg_dir s) w)"
    "\<And>d. unat d < 1024 \<Longrightarrow> present s1 d \<longleftrightarrow> present s d \<or> d = dir_index v"
    "unat (HeapNext (pg_args s1)) = unat (HeapNext (pg_args s)) + (if present s (dir_index v) then 0 else 4096)"
    "KernelStart (pg_args s1) = KernelStart (pg_args s)" "KernelEnd (pg_args s1) = KernelEnd (pg_args s)"
    by (rule map_page_ok [OF Suc.prems(1,2) room Suc.prems(4,5) low, of flags]) (rule that; assumption)
  show ?case
  proof (cases "n = 0")
    case True
    have "unat w div 4096 - unat v div 4096 = 0 \<and> unat v div 4096 \<le> unat w div 4096 \<longleftrightarrow> unat w div 4096 = unat v div 4096" for w
      by auto
    with True show ?thesis using s1(1-3) by (simp add: Let_def same_page_div)
  next
    case False
    let ?p = "p + PageSize" and ?v = "v + PageSize"
    have up: "unat ?p = unat p + 4096" "unat ?v = unat v + 4096"
      using Suc.prems(6,7) False unfolding PageSize_def by (subst unat_add_noov; simp)+
    have "HeapNext (pg_args s1) \<noteq> 0" using s1(5) Suc.prems(2) by (auto simp: unat_eq_0 [symmetric])
    moreover have "unat (HeapNext (pg_args s1)) + 4096 * n < 2 ^ 32" using s1(5) Suc.prems(3) by (simp split: if_splits)
    moreover have "page_aligned ?p" "page_aligned ?v" using Suc.prems(4,5) unfolding page_aligned_def up by simp_all
    moreover have "unat ?p + 4096 * n \<le> 2 ^ 32" "unat ?v + 4096 * n \<le> 2 ^ 32" using Suc.prems(6,7) up by simp_all
    moreover have "\<forall>k<n. low_slot (?v + of_nat k * PageSize)"
      using Suc.prems(8) by (auto simp: algebra_simps dest: spec [of _ "Suc k" for k])
    ultimately obtain s2 where s2: "map_pages_loop n (i + 1) ?p ?v flags s1 = Some (Inr (EC_NoError, s2))" "tables_ok s2"
      "\<And>w. walk (pg_mem s2) (pg_dir s2) w
          = (let k = unat w div 4096 - unat ?v div 4096
             in if unat ?v div 4096 \<le> unat w div 4096 \<and> k < n
                then Some (page_entry (?p + of_nat k * PageSize) flags) else walk (pg_mem s1) (pg_dir s1) w)"
      using Suc.IH [OF s1(2), of ?p ?v "i + 1"] by blast
    have "walk (pg_mem s2) (pg_dir s2) w
          = (let k = unat w div 4096 - unat v div 4096
             in if unat v div 4096 \<le> unat w div 4096 \<and> k < Suc n
                then Some (page_entry (p + of_nat k * PageSize) flags) else walk (pg_mem s) (pg_dir s) w)" for w
    proof -
      have v: "unat ?v div 4096 = Suc (unat v div 4096)" by (simp add: up)
      show ?thesis
      proof (cases "Suc (unat v div 4096) \<le> unat w div 4096")
        case True
        then obtain k where k: "unat w div 4096 = Suc (unat v div 4096) + k" using le_Suc_ex by blast
        have "PageSize + of_nat k * PageSize = of_nat (Suc k) * (PageSize :: addr)" by (simp add: algebra_simps)
        then have e: "?p + of_nat k * PageSize = p + of_nat (Suc k) * PageSize" by (simp only: add.assoc)
        have "page_entry (?p + of_nat k * PageSize) flags = page_entry (p + of_nat (Suc k) * PageSize) flags"
          by (simp only: e)
        then show ?thesis unfolding s2(3) v k s1(3) same_page_div Let_def by (simp del: of_nat_Suc)
      next
        case False
        then show ?thesis unfolding s2(3) v s1(3) same_page_div by (auto simp: Let_def)
      qed
    qed
    then show ?thesis using s1(1) s2(1,2) by simp
  qed
qed

lemma pp_value_page: "page_aligned (pp_value p)"
proof -
  have "(PageMask :: u32) = 0xFFFFF000" by code_simp
  then have "pp_value p = align_floor 4096 p" unfolding pp_value_def page_mask [symmetric] by (rule arg_cong)
  then show ?thesis using align_floor_page(1) [of p] by simp
qed



subsection \<open>Where the code misses its tables\<close>

text \<open>Elsewhere the index of MapPage lies behind the 1024 entries of the table.\<close>

lemma entry_index_too_large: "\<not> low_slot v \<Longrightarrow> 1024 \<le> unat (ToEntryIndex v)"
  using ToEntryIndex_unat [of v] by (simp add: low_slot_def)

text \<open>
  So mapping the first page of the second directory entry reports success, maps nothing, and
  writes the entry into the page behind the table.
\<close>

lemma map_page_outside_table:
  "\<exists>s'. MapPage 0x5000 0x00400000 PF_Kernel sample_paging = Some (EC_NoError, s')
     \<and> walk (pg_mem s') (pg_dir s') 0x00400000 = None
     \<and> read32 0x202000 (pg_mem s') = page_entry 0x5000 PF_Kernel"
proof -
  have i: "dir_index 0x400000 = 1" "entry_index 0x400000 = 0" "ToEntryIndex 0x400000 = 1024" by code_simp+
  let ?m = "memset 0x201000 0 PageSize (\<lambda>_. 0)" and ?d = "0x201000 OR (MapToDirFlags PF_Kernel OR PE_Present)"
  let ?m1 = "write32 (slot 0x200000 1) ?d ?m" and ?e = "page_entry 0x5000 PF_Kernel"
  have "?d = 0x201001" by code_simp
  have a: "is_aligned 4096 (0x5000 :: addr)" "is_aligned 4096 (0x400000 :: addr)" by code_simp+
  have z: "read32 (slot 0x200000 1) (\<lambda>_. 0) = 0" by (simp add: read32_def)
  have run: "MapPage 0x5000 0x00400000 PF_Kernel sample_paging = Some (EC_NoError, sample_paging\<lparr>
      pg_args := snd (boot_allocate_page (pg_args sample_paging)), pg_mem := write32 (slot 0x201000 1024) ?e ?m1\<rparr>)"
    using a i z
    by (simp add: MapPage_def doMapPage_def GetOrCreatePageTable_def GetPageTable_def dir_index_masks sample_paging_def
        pt_allocate_def boot_allocate_page_def AddDirectoryEntry_def PE_AddressMask_def page_entry_def Let_def)
  have s: "slot 0x201000 1024 = slot 0x202000 0" "slot 0x202000 0 = 0x202000" by (simp_all add: slot_def)
  have p: "page_aligned 0x200000" "page_aligned 0x201000" "page_aligned 0x202000" by (simp_all add: page_aligned_def)
  let ?m2 = "write32 (slot 0x202000 0) ?e ?m1"
  have "read32 (slot 0x200000 1) ?m2 = ?d" "read32 (slot 0x201000 0) ?m2 = 0"
    using p by (simp_all add: table_read_write table_read_clear)
  then have "walk ?m2 0x200000 0x00400000 = None" by (simp add: walk_def i \<open>?d = 0x201001\<close>)
  moreover have "read32 0x202000 ?m2 = ?e" unfolding s(2) by simp
  ultimately show ?thesis using run unfolding s(1) by (simp add: sample_paging_def)
qed

text \<open>
  And the lookup follows the directory entry as if it were a virtual address: for every address
  with a table below 4 MB the result is that of the same entry of the first table.
\<close>

lemma lookup_in_first_table:
  assumes "tables_ok s" "present s (dir_index v)" "present s 0" "unat (table_of s (dir_index v)) < 4194304"
  shows "doGetPhysicalPageFor v s = Inr (case walk (pg_mem s) (pg_dir s) (of_nat (unat (entry_index v) * 4096)) of
      None \<Rightarrow> 0 | Some e \<Rightarrow> e AND 0xFFFFF000)"
proof -
  let ?e = "pde s (dir_index v)" and ?z = "of_nat (unat (entry_index v) * 4096) :: addr"
  have "unat (table_of s (dir_index v)) = unat ?e div 4096 * 4096"
    by (simp add: table_of_def page_mask unat_align_floor)
  then have "unat ?e < 4194304" using assms(4) by (simp add: table_of_def)
  then have e: "dir_index ?e = 0" by (simp add: word_unat_eq_iff index_unat)
  have "unat ?z = unat (entry_index v) * 4096" using index_unat(4) [of v] by (subst unat_of_nat_len) simp_all
  then have z: "dir_index ?z = 0" "entry_index ?z = entry_index v"
    using index_unat(4) [of v] by (simp_all add: word_unat_eq_iff index_unat)
  have t: "table_of s 0 \<noteq> 0" using tables_okD(1) [OF assms(1) _ assms(3)] by simp
  show ?thesis
    using assms(2,3) t unfolding walk_state z
    by (simp add: doGetPhysicalPageFor_def dir_index_masks GetPageTable_def e Let_def present_def table_of_def
        DE_Present_def DE_AddressMask_def PE_Present_def PE_AddressMask_def flip: pde_def entry_index_def)
qed

end
