(* ===== verification/Preinit.thy ===== *)
theory Preinit
  imports Multiboot PagingFacts Uart
begin

text \<open>
  kernel/arch/i386/src/preinit.cpp: what runs before main. The argument block is filled with
  guesses, then with what the boot loader says, a place for the boot heap is chosen, and the
  first page tables are built in that heap.
\<close>

subsection \<open>Definitions\<close>

definition MULTIBOOT_MAGIC :: u32 where "MULTIBOOT_MAGIC = 0x2BADB002"
definition MB2_MAGIC :: u32 where "MB2_MAGIC = 0x36D76289"

definition zero_mapping :: mapping where
  "zero_mapping = \<lparr>Start = 0, MapLength = 0, Type = Invalid\<rparr>"

text \<open>The argument block after its memset.\<close>

definition cleared_args :: argument_data where
  "cleared_args = \<lparr>CommandLine = replicate MaxCommandLine 0, BootMagicNumber = 0, LowMemorySizeKByte = 0,
     HighMemorySizeKByte = 0, KernelStart = 0, KernelEnd = 0, HeapStart = 0, HeapNext = 0,
     VirtHeapStart = 0, VirtHeapNext = 0, MemoryMapCount = 0,
     MemoryMap = replicate MaxMemoryEntries zero_mapping,
     FrameBuffer = \<lparr>FbAddress = 0, FbWidth = 0, FbHeight = 0, FbPitch = 0, FbDepth = 0\<rparr>\<rparr>"

text \<open>The addresses of the two linker symbols are parameters.\<close>

definition init_boot_info :: "addr \<Rightarrow> addr \<Rightarrow> argument_data" where
  "init_boot_info kernel_phys_start kernel_end =
     (let d = cleared_args\<lparr>KernelStart := Virt2Phys kernel_phys_start, KernelEnd := Virt2Phys kernel_end,
            LowMemorySizeKByte := 1024, HighMemorySizeKByte := 1024 * 3\<rparr>
      in d\<lparr>MemoryMap := (MemoryMap d)
             [0 := \<lparr>Start = 0, MapLength = LowMemorySizeKByte d, Type = Available\<rparr>,
              1 := \<lparr>Start = LowMemorySizeKByte d, MapLength = HighMemorySizeKByte d, Type = Available\<rparr>],
           MemoryMapCount := 2\<rparr>)"

text \<open>The loop of InitHeapInfo over the whole table.\<close>

fun find_heap :: "addr \<Rightarrow> size32 \<Rightarrow> mapping list \<Rightarrow> addr" where
  "find_heap target minNeededBytes [] = target"
| "find_heap target minNeededBytes (m # ms) =
     (if Type m \<noteq> Available then find_heap target minNeededBytes ms
      else let alignedStart = align_ceiling 4096 (Start m)
           in if alignedStart < target then find_heap target minNeededBytes ms
              else let adjust = alignedStart - Start m
                   in if adjust > MapLength m then find_heap target minNeededBytes ms
                      else if MapLength m - adjust < minNeededBytes then find_heap target minNeededBytes ms
                      else alignedStart)"

definition init_heap_info :: "argument_data \<Rightarrow> argument_data" where
  "init_heap_info d =
     (if HeapStart d = 0 then
        let target = align_next 4096 (KernelEnd d);
            minNeededBytes = align_next 4096 (KernelEnd d - KernelStart d);
            target = find_heap target minNeededBytes (MemoryMap d)
        in d\<lparr>HeapStart := target, HeapNext := target, VirtHeapStart := Phys2Virt target,
             VirtHeapNext := Phys2Virt target\<rparr>
      else
        let d = (if HeapNext d = 0 then d\<lparr>HeapNext := HeapStart d\<rparr> else d);
            d = (if VirtHeapStart d = 0 then d\<lparr>VirtHeapNext := Phys2Virt (HeapNext d)\<rparr> else d)
        in if VirtHeapNext d = 0 then d\<lparr>VirtHeapNext := VirtHeapStart d\<rparr> else d)"

text \<open>The switch over the magic number.\<close>

definition read_boot_info :: "addr \<Rightarrow> mem \<Rightarrow> u32 \<Rightarrow> u32 \<Rightarrow> argument_data \<Rightarrow> argument_data outcome" where
  "read_boot_info cl m magicNumber eax d =
     (if magicNumber = MULTIBOOT_MAGIC then
        bindo (Some (mb1_ReadInfo cl m eax (d\<lparr>BootMagicNumber := magicNumber\<rparr>))) (\<lambda>(_, d). Some (Inr d))
      else if magicNumber = MB2_MAGIC then
        bindo (mb2_ReadInfo cl m eax (d\<lparr>BootMagicNumber := magicNumber\<rparr>)) (\<lambda>(_, d). Some (Inr d))
      else Some (Inr d))"

text \<open>
  preinit; the result is the state of the paging unit, which holds the argument block, with the
  serial port. args is the address of the argument block, whose first field is the command line.
\<close>

definition preinit ::
    "addr \<Rightarrow> addr \<Rightarrow> addr \<Rightarrow> u32 \<Rightarrow> u32 \<Rightarrow> mem \<Rightarrow> page_allocator \<Rightarrow> port \<Rightarrow> (addr \<times> paging \<times> port) outcome" where
  "preinit args kernel_phys_start kernel_end magicNumber eax m pages port =
     (let data = Virt2Phys args;
          d = init_boot_info kernel_phys_start kernel_end
      in case dc_init1 port of
           None \<Rightarrow> None
         | Some port \<Rightarrow>
             bindo (read_boot_info data m magicNumber eax d) (\<lambda>d.
             case paging_preinit \<lparr>pg_mem = m, pg_dir = 0, pg_args = init_heap_info d, pg_global = False, pg_pages = pages\<rparr> of
               None \<Rightarrow> None
             | Some s \<Rightarrow> Some (Inr (Phys2Virt data, s, port))))"

subsection \<open>The place of the boot heap\<close>

lemma align_next_up:
  fixes p :: addr
  assumes "unat p + 4096 < 2 ^ 32"
  shows "p < align_next 4096 p" "page_aligned (align_next 4096 p)"
proof -
  have u: "unat (align_next 4096 p) = Suc (unat p div 4096) * 4096"
    using unat_align_next [of 4096 p] assms by simp
  then show "page_aligned (align_next 4096 p)" by (simp add: page_aligned_def)
  have "unat p < Suc (unat p div 4096) * 4096" using div_mod_decomp [of "unat p" 4096] by simp
  then show "p < align_next 4096 p" using u by (simp add: word_less_nat_alt)
qed

lemma align_ceiling_page: "page_aligned (align_ceiling 4096 p)" for p :: addr
  using unat_align_ceiling_gen [of 4096 p] by (simp add: page_aligned_def)

text \<open>What makes an entry of the table suitable for the heap.\<close>

definition suits :: "addr \<Rightarrow> size32 \<Rightarrow> mapping \<Rightarrow> bool" where
  "suits target need m \<longleftrightarrow> Type m = Available \<and> target \<le> align_ceiling 4096 (Start m)
     \<and> align_ceiling 4096 (Start m) - Start m \<le> MapLength m
     \<and> need \<le> MapLength m - (align_ceiling 4096 (Start m) - Start m)"

lemma find_heap_cases:
  "find_heap target need ms = (case filter (suits target need) ms of [] \<Rightarrow> target | m # _ \<Rightarrow> align_ceiling 4096 (Start m))"
  by (induction ms) (auto simp: suits_def Let_def)

lemma suits_room:
  assumes "suits target need m" "range_ok (to_range m)" "Start m \<le> align_ceiling 4096 (Start m)"
  shows "unat (Start m) \<le> unat (align_ceiling 4096 (Start m))
    \<and> unat (align_ceiling 4096 (Start m)) + unat need \<le> unat (Start m) + unat (MapLength m)"
proof -
  let ?a = "align_ceiling 4096 (Start m)"
  have s: "Start m \<le> ?a" "unat (Start m) \<le> unat ?a" using assms(3) by (simp_all add: word_le_nat_alt)
  then have d: "unat (?a - Start m) = unat ?a - unat (Start m)" by (simp add: unat_sub_noov)
  have "unat (?a - Start m) \<le> unat (MapLength m)" "unat need \<le> unat (MapLength m - (?a - Start m))"
    using assms(1) by (simp_all add: suits_def word_le_nat_alt)
  moreover from this have "unat (MapLength m - (?a - Start m)) = unat (MapLength m) - unat (?a - Start m)"
    by (simp add: unat_sub_noov)
  ultimately show ?thesis using d s by linarith
qed

text \<open>
  When nobody chose a heap, it is placed on a page boundary behind the kernel: at the start
  of the first available mapping behind the kernel that has room for as many pages as the
  kernel has, or directly behind the kernel if there is none. All four heap pointers agree.
\<close>

lemma heap_behind_kernel:
  assumes "HeapStart d = 0" "unat (KernelEnd d) + 4096 < 2 ^ 32"
    and "\<forall>m\<in>set (MemoryMap d). Type m = Available \<longrightarrow> range_ok (to_range m) \<and> unat (Start m) + 4095 < 2 ^ 32"
  shows "page_aligned (HeapStart (init_heap_info d)) \<and> KernelEnd d < HeapStart (init_heap_info d)
     \<and> HeapNext (init_heap_info d) = HeapStart (init_heap_info d)
     \<and> VirtHeapStart (init_heap_info d) = Phys2Virt (HeapStart (init_heap_info d))
     \<and> VirtHeapNext (init_heap_info d) = Phys2Virt (HeapNext (init_heap_info d))
     \<and> (HeapStart (init_heap_info d) = align_next 4096 (KernelEnd d)
        \<or> (\<exists>m\<in>set (MemoryMap d). Type m = Available \<and> Start m \<le> HeapStart (init_heap_info d)
             \<and> unat (HeapStart (init_heap_info d)) \<le> unat (Start m) + 4095
             \<and> unat (HeapStart (init_heap_info d)) + unat (align_next 4096 (KernelEnd d - KernelStart d) :: u32)
               \<le> unat (Start m) + unat (MapLength m)))"
proof -
  let ?t = "align_next 4096 (KernelEnd d)" and ?n = "align_next 4096 (KernelEnd d - KernelStart d)"
  let ?h = "find_heap ?t ?n (MemoryMap d)"
  have i: "init_heap_info d = d\<lparr>HeapStart := ?h, HeapNext := ?h, VirtHeapStart := Phys2Virt ?h, VirtHeapNext := Phys2Virt ?h\<rparr>"
    using assms(1) by (simp add: init_heap_info_def Let_def)
  note t = align_next_up [OF assms(2)]
  have "page_aligned ?h \<and> ?t \<le> ?h \<and> (?h = ?t \<or> (\<exists>m\<in>set (MemoryMap d). Type m = Available \<and> Start m \<le> ?h
      \<and> unat ?h \<le> unat (Start m) + 4095 \<and> unat ?h + unat ?n \<le> unat (Start m) + unat (MapLength m)))"
  proof (cases "filter (suits ?t ?n) (MemoryMap d)")
    case Nil
    then have "?h = ?t" by (simp add: find_heap_cases)
    with t show ?thesis by simp
  next
    case (Cons m ms)
    then have m: "m \<in> set (MemoryMap d)" "suits ?t ?n m" by (auto dest: filter_eq_ConsD)
    have h: "?h = align_ceiling 4096 (Start m)" using Cons by (simp add: find_heap_cases)
    have a: "Type m = Available" "?t \<le> ?h" using m(2) h by (simp_all add: suits_def)
    have r: "range_ok (to_range m)" "unat (Start m) + 4095 < 2 ^ 32" using assms(3) m(1) a(1) by blast+
    have u: "unat (align_ceiling 4096 (Start m)) = (unat (Start m) + 4095) div 4096 * 4096"
      using unat_align_ceiling [of 4096 "Start m"] r(2) by simp
    moreover have "x \<le> (x + 4095) div 4096 * 4096 \<and> (x + 4095) div 4096 * 4096 \<le> x + 4095" for x :: nat by linarith
    ultimately have s: "Start m \<le> align_ceiling 4096 (Start m)" "unat (align_ceiling 4096 (Start m)) \<le> unat (Start m) + 4095"
      by (simp_all add: word_le_nat_alt)
    show ?thesis
      using m(1) a suits_room [OF m(2) r(1) s(1)] s align_ceiling_page [of "Start m"] unfolding h by blast
  qed
  then show ?thesis using t(1) unfolding i by (simp add: less_le_trans)
qed

subsection \<open>What the readers leave alone\<close>

definition boot_frame :: "argument_data \<Rightarrow> argument_data \<Rightarrow> bool" where
  "boot_frame d d' \<longleftrightarrow> HeapStart d' = HeapStart d \<and> KernelStart d' = KernelStart d \<and> KernelEnd d' = KernelEnd d"

lemma boot_frame_refl [simp]: "boot_frame d d" by (simp add: boot_frame_def)

lemma boot_frame_trans: "boot_frame d d1 \<Longrightarrow> boot_frame d1 d2 \<Longrightarrow> boot_frame d d2"
  by (simp add: boot_frame_def)

lemma boot_frame_updates [simp]:
  "boot_frame d (d'\<lparr>MemoryMapCount := n\<rparr>) = boot_frame d d'" "boot_frame (d\<lparr>BootMagicNumber := k\<rparr>) d' = boot_frame d d'"
  by (simp_all add: boot_frame_def)

lemma store_all_frame: "store_all rs bi d = Inr (b, d') \<Longrightarrow> boot_frame d d'"
proof (induction rs arbitrary: bi d)
  case (Cons r rs)
  then obtain d1 where d1: "store_mapping bi (fst r) (snd r) d = Inr d1"
    "(if bi + 1 \<ge> MaxMemoryEntries then Inr (bi + 1, d1) else store_all rs (bi + 1) d1) = Inr (b, d')"
    by (auto simp del: Suc_eq_plus1)
  have "boot_frame d d1" using d1(1) by (auto simp: store_mapping_def boot_frame_def split: if_splits)
  moreover have "boot_frame d1 d'" using d1(2) Cons.IH by (auto split: if_splits)
  ultimately show ?case by (rule boot_frame_trans)
qed simp

lemma mb1_frame: "mb1_ReadInfo cl m p d = Inr (r, d') \<Longrightarrow> boot_frame d d'"
proof -
  let ?d = "mb1_ParseBasicMemoryInfo (load_multiboot p m) (mb1_ParseCommandLine cl m (load_multiboot p m) d)"
  assume "mb1_ReadInfo cl m p d = Inr (r, d')"
  then have "boot_frame ?d d'"
    by (auto simp: mb1_ReadInfo_def mb1_ParseMemoryMap_def mb1_loop_stores Let_def dest!: store_all_frame split: if_splits)
  moreover have "boot_frame d ?d" by (simp add: boot_frame_def command_line_frame)
  ultimately show ?thesis by (rule boot_frame_trans [rotated])
qed

lemma mb2_switch_frame: "mb2_tag_switch cl m tag d = Inr d' \<Longrightarrow> boot_frame d d'"
  by (auto simp: mb2_tag_switch_def mb2_ParseMemoryMap_def mb2_loop_stores mb2_ParseCommandLine_def Let_def
      mb2_ParseFrameBufferInfo_def mb2_ParseBasicMemoryInfo_def dest!: store_all_frame split: if_splits prod.splits)
    (auto simp: boot_frame_def)

lemma mb2_frame: "mb2_ReadInfo cl m p d = Some (Inr (r, d')) \<Longrightarrow> boot_frame d d'"
proof -
  have "case y of Inl e \<Rightarrow> True | Inr d' \<Rightarrow> boot_frame d d'" if "mb2_loop cl m tot ptr sz d = Some y" for tot ptr sz d y
    using that
  proof (rule mb2_loop.raw_induct [rotated])
    fix f :: "addr \<Rightarrow> mem \<Rightarrow> u32 \<Rightarrow> addr \<Rightarrow> size32 \<Rightarrow> argument_data \<Rightarrow> (fault + argument_data) option"
      and cl m tot ptr sz d y
    assume IH: "\<And>cl m tot ptr sz d y. f cl m tot ptr sz d = Some y \<Longrightarrow> case y of Inl e \<Rightarrow> True | Inr d' \<Rightarrow> boot_frame d d'"
      and eq: "(if sz < tot then let p2 = align_ceiling 8 ptr; sz = sz + (p2 - ptr); tag = load_mb2_tag p2 m
             in if tag_type tag = MB2_TAG_END then Some (Inr d)
                else case mb2_tag_switch cl m p2 d of Inl e \<Rightarrow> Some (Inl e)
                     | Inr d \<Rightarrow> f cl m tot (p2 + tag_size tag) (sz + tag_size tag) d
           else Some (Inr d)) = Some y"
    show "case y of Inl e \<Rightarrow> True | Inr d' \<Rightarrow> boot_frame d d'"
      using eq by (auto simp: Let_def split: if_splits sum.splits dest!: IH mb2_switch_frame intro: boot_frame_trans)
  qed
  then show "mb2_ReadInfo cl m p d = Some (Inr (r, d')) \<Longrightarrow> boot_frame d d'"
    by (fastforce simp: mb2_ReadInfo_def)
qed

lemma read_boot_info_frame: "read_boot_info cl m k eax d = Some (Inr d') \<Longrightarrow> boot_frame d d'"
  by (auto simp: read_boot_info_def dest!: mb1_frame mb2_frame split: if_splits)

subsection \<open>The whole of preinit\<close>

lemma init_boot_info_fields:
  "length (MemoryMap (init_boot_info ks ke)) = MaxMemoryEntries" "HeapStart (init_boot_info ks ke) = 0"
  "KernelStart (init_boot_info ks ke) = Virt2Phys ks" "KernelEnd (init_boot_info ks ke) = Virt2Phys ke"
  by (simp_all add: init_boot_info_def cleared_args_def Let_def)

text \<open>Only a malformed Multiboot 2 structure can keep the boot information from being read.\<close>

lemma read_boot_info_total:
  assumes "k \<noteq> MB2_MAGIC" "length (MemoryMap d) = MaxMemoryEntries"
  shows "\<exists>d'. read_boot_info cl m k eax d = Some (Inr d')"
proof -
  let ?d = "d\<lparr>BootMagicNumber := k\<rparr>" and ?mu = "load_multiboot eax m"
  let ?d1 = "mb1_ParseBasicMemoryInfo ?mu (mb1_ParseCommandLine cl m ?mu ?d)"
  have "length (MemoryMap ?d1) = MaxMemoryEntries" using assms(2) command_line_frame [of ?mu cl m ?d] by simp
  from store_all_table [OF this, where f = "\<lambda>d. (0, d)"]
  have "\<exists>r d'. mb1_ReadInfo cl m eax ?d = Inr (r, d')"
    by (simp add: mb1_ReadInfo_def mb1_ParseMemoryMap_def mb1_loop_stores Let_def) blast
  with assms(1) show ?thesis by (auto simp: read_boot_info_def)
qed

lemma dc_init1_returns: "14 < ready_answers port \<Longrightarrow> \<exists>port'. dc_init1 port = Some port'"
proof -
  assume r: "14 < ready_answers port"
  have "ready_answers (uart_init port) = ready_answers port"
    by (simp add: uart_init_def port_outb_def ready_answers_def)
  moreover have "length (takeWhile (\<lambda>c. c \<noteq> 0) ready_message) = 15" by (simp add: ready_message_def)
  moreover have "length (takeWhile (\<lambda>c. c \<noteq> 0) (take 15 ready_message)) = 15" by (simp add: ready_message_def)
  moreover have "sends (takeWhile (\<lambda>c. c \<noteq> 0) (take 15 ready_message)) (uart_init port)
      (dc_put_string ready_message 15 (uart_init port))"
    by (rule sends_string) (simp add: ready_message_def)
  ultimately show ?thesis using r by (auto simp: dc_init1_def sends_def)
qed


text \<open>
  An argument block whose boot loader gave no information: the guesses count kilobytes where the
  table counts bytes, so its two mappings describe four kilobytes. A heap chosen by somebody
  else without a virtual address does not get one.
\<close>

lemma init_map:
  "MemoryMap (init_boot_info ks ke) = \<lparr>Start = 0, MapLength = 1024, Type = Available\<rparr>
     # \<lparr>Start = 1024, MapLength = 3072, Type = Available\<rparr> # replicate 30 zero_mapping"
  by (simp add: init_boot_info_def cleared_args_def Let_def MaxMemoryEntries_def numeral_eq_Suc)

lemma default_map_is_four_kilobytes:
  "entries (init_boot_info ks ke) = [\<lparr>Start = 0, MapLength = 1024, Type = Available\<rparr>,
     \<lparr>Start = 1024, MapLength = 3072, Type = Available\<rparr>]"
  by (simp add: entries_def init_map) (simp add: init_boot_info_def Let_def)

lemma given_heap_stays_unmapped:
  "HeapStart d \<noteq> 0 \<Longrightarrow> VirtHeapStart (init_heap_info d) = VirtHeapStart d"
  by (simp add: init_heap_info_def Let_def)


end
