(* ===== verification/PageTable64.thy ===== *)
theory PageTable64
  imports BitMath EnumFlags
begin

text \<open>
  kernel/arch/x86_64: page_table.cpp and paging.h, the four-level tables of the 64-bit build.
  A table is 512 entries of eight bytes; memory is seen through its aligned eight-byte cells,
  by address. The lines that the dump prints are the list of the spans it found.
\<close>

subsection \<open>Constants\<close>

type_synonym mem64 = "u64 \<Rightarrow> u64"

definition E_Present :: u64 where "E_Present = 0x1"
definition E_Writable :: u64 where "E_Writable = 0x2"
definition E_User :: u64 where "E_User = 0x4"
definition E_LargeEntry :: u64 where "E_LargeEntry = 0x80"
definition PF64_Write :: u32 where "PF64_Write = 1"
definition PF64_Execute :: u32 where "PF64_Execute = 2"
definition PF64_Kernel :: u32 where "PF64_Kernel = 0x80"

definition EntryCount :: nat where "EntryCount = 512"
definition MaxLevels :: nat where "MaxLevels = 4"
definition EntityIndexMask :: u64 where "EntityIndexMask = 512 - 1"
definition EntryAddressMask :: u64 where "EntryAddressMask = 0x000FFFFFFFFFF000"
definition ShiftBase :: nat where "ShiftBase = 12"
definition ShiftInc :: nat where "ShiftInc = 9"
definition PageSize64 :: u64 where "PageSize64 = 4096"

definition EntryShift :: "nat \<Rightarrow> nat" where "EntryShift level = ShiftBase + ShiftInc * level"

subsection \<open>Mapping\<close>

text \<open>AllocatePage is a stub that hands out nothing; the constructor takes its root from it.\<close>

definition pt64_AllocatePage :: u64 where "pt64_AllocatePage = 0"

definition pt64_new :: u64 where "pt64_new = pt64_AllocatePage"

definition pt64_MapToEntryFlags :: "u32 \<Rightarrow> u64" where
  "pt64_MapToEntryFlags flags =
     (let result = 0;
          result = (if has_any flags (flag_or PF64_Write PF64_Execute) then result OR E_Writable else result)
      in if \<not> flag_is_set flags PF64_Kernel then result OR E_User else result)"

definition entry_at :: "u64 \<Rightarrow> nat \<Rightarrow> u64 \<Rightarrow> u64" where
  "entry_at table shift vaddr = table + 8 * (drop_bit shift vaddr AND EntityIndexMask)"

text \<open>The loop over the upper levels, from level i down; the result is the last table.\<close>

fun map_levels :: "nat \<Rightarrow> nat \<Rightarrow> u64 \<Rightarrow> u64 \<Rightarrow> u64 \<Rightarrow> mem64 \<Rightarrow> fault + (u64 \<times> mem64)" where
  "map_levels 0 shift table vaddr entityFlags m = Inr (table, m)"
| "map_levels (Suc i) shift table vaddr entityFlags m =
     (let e = entry_at table shift vaddr
      in bindf (if m e AND E_Present = 0 then
                  let newPage = pt64_AllocatePage
                  in if newPage = 0 then Inl (AssertFail ''Unable to allocate page!'')
                     else Inr (m(e := (newPage AND EntryAddressMask) OR entityFlags))
                else Inr m)
           (\<lambda>m. map_levels i (shift - ShiftInc) (m e AND EntryAddressMask) vaddr entityFlags m))"

definition MapSinglePage :: "u64 \<Rightarrow> u64 \<Rightarrow> u64 \<Rightarrow> u64 \<Rightarrow> mem64 \<Rightarrow> fault + mem64" where
  "MapSinglePage paddr vaddr entityFlags m_root m =
     bindf (map_levels (MaxLevels - 1) (EntryShift (MaxLevels - 1)) m_root vaddr entityFlags m)
       (\<lambda>(table, m). Inr (m(entry_at table ShiftBase vaddr := (paddr AND EntryAddressMask) OR entityFlags)))"

definition pt64_doMapPage :: "u64 \<Rightarrow> u64 \<Rightarrow> u32 \<Rightarrow> u64 \<Rightarrow> mem64 \<Rightarrow> fault + (error_code \<times> mem64)" where
  "pt64_doMapPage paddr vaddr flags m_root m =
     bindf (MapSinglePage paddr vaddr (pt64_MapToEntryFlags flags OR E_Present) m_root m) (\<lambda>m. Inr (EC_NoError, m))"

definition pt64_doUnmapPage :: "u64 \<Rightarrow> error_code" where "pt64_doUnmapPage vaddr = EC_Unknown"

definition pt64_doGetPhysicalPageFor :: "u64 \<Rightarrow> u64" where "pt64_doGetPhysicalPageFor vaddr = 0"

subsection \<open>Dumping\<close>

record visit_state =
  vs_offset :: u64
  vs_inSpan :: bool
  vs_start :: u64
  vs_size :: u64
  vs_printed :: "(u64 \<times> u64) list"

definition PrintState :: "visit_state \<Rightarrow> visit_state" where
  "PrintState s = (if \<not> vs_inSpan s then s else s\<lparr>vs_printed := vs_printed s @ [(vs_start s, vs_size s)]\<rparr>)"

definition set_offset :: "u64 \<Rightarrow> visit_state \<Rightarrow> visit_state" where
  "set_offset off s =
     (let s = s\<lparr>vs_offset := off\<rparr>
      in if vs_offset s AND 0x0000080000000000 \<noteq> 0
         then s\<lparr>vs_offset := vs_offset s OR 0xFFFF800000000000\<rparr> else s)"

definition extend_span :: "u64 \<Rightarrow> visit_state \<Rightarrow> visit_state" where
  "extend_span entrySize s =
     (if vs_inSpan s then s\<lparr>vs_size := vs_size s + entrySize\<rparr>
      else s\<lparr>vs_inSpan := True, vs_start := vs_offset s, vs_size := entrySize\<rparr>)"

definition close_span :: "visit_state \<Rightarrow> visit_state" where
  "close_span s = (PrintState s)\<lparr>vs_inSpan := False\<rparr>"

definition entry_size :: "nat \<Rightarrow> u64" where
  "entry_size depth = PageSize64 * ipow (of_nat EntryCount) (of_nat depth)"

fun VisitLevel :: "mem64 \<Rightarrow> nat \<Rightarrow> u64 \<Rightarrow> visit_state \<Rightarrow> visit_state" where
  "VisitLevel m 0 table state =
     fold (\<lambda>i s.
         let entry = m (table + 8 * of_nat i);
             s = set_offset (vs_offset state + of_nat i * entry_size 0) s
         in if entry AND E_Present = 0 then close_span s else extend_span (entry_size 0) s)
       [0..<EntryCount] state"
| "VisitLevel m (Suc depth) table state =
     fold (\<lambda>i s.
         let entry = m (table + 8 * of_nat i);
             s = set_offset (vs_offset state + of_nat i * entry_size (Suc depth)) s
         in if entry AND E_Present = 0 then close_span s
            else if entry AND E_LargeEntry \<noteq> 0 then extend_span (entry_size (Suc depth)) s
            else VisitLevel m depth (entry AND EntryAddressMask) s)
       [0..<EntryCount] state"

definition pt64_doDump :: "u64 \<Rightarrow> mem64 \<Rightarrow> (u64 \<times> u64) list" where
  "pt64_doDump m_root m =
     (let state = \<lparr>vs_offset = 0, vs_inSpan = False, vs_start = 0, vs_size = 0, vs_printed = []\<rparr>
      in vs_printed (PrintState (VisitLevel m (MaxLevels - 1) m_root state)))"

subsection \<open>What the dump accounts for\<close>

text \<open>The bytes that the present leaves of a table map.\<close>

fun mapped_bytes :: "mem64 \<Rightarrow> nat \<Rightarrow> u64 \<Rightarrow> u64" where
  "mapped_bytes m 0 table =
     sum_list (map (\<lambda>i. if m (table + 8 * of_nat i) AND E_Present = 0 then 0 else entry_size 0) [0..<EntryCount])"
| "mapped_bytes m (Suc depth) table =
     sum_list (map (\<lambda>i. let entry = m (table + 8 * of_nat i) in
         if entry AND E_Present = 0 then 0
         else if entry AND E_LargeEntry \<noteq> 0 then entry_size (Suc depth)
         else mapped_bytes m depth (entry AND EntryAddressMask)) [0..<EntryCount])"

definition span_bytes :: "visit_state \<Rightarrow> u64" where
  "span_bytes s = sum_list (map snd (vs_printed s)) + (if vs_inSpan s then vs_size s else 0)"

lemma span_bytes_steps [simp]:
  "span_bytes (set_offset off s) = span_bytes s"
  "span_bytes (close_span s) = span_bytes s"
  "span_bytes (extend_span n s) = span_bytes s + n"
  by (simp_all add: span_bytes_def set_offset_def close_span_def PrintState_def extend_span_def Let_def)

lemma fold_bytes:
  "(\<And>i s. i \<in> set is \<Longrightarrow> span_bytes (f i s) = span_bytes s + g i) \<Longrightarrow>
   span_bytes (fold f is s) = span_bytes s + sum_list (map g is)"
  by (induction "is" arbitrary: s) (simp_all add: add.assoc)

lemma visit_bytes: "span_bytes (VisitLevel m depth table s) = span_bytes s + mapped_bytes m depth table"
proof (induction m depth table s rule: VisitLevel.induct)
  case (1 m table state)
  show ?case unfolding VisitLevel.simps mapped_bytes.simps by (rule fold_bytes) (simp add: Let_def)
next
  case (2 m depth table state)
  show ?case
    unfolding VisitLevel.simps mapped_bytes.simps
    by (rule fold_bytes) (use 2 in \<open>auto simp: Let_def\<close>)
qed


definition dump_mem :: mem64 where
  "dump_mem = (\<lambda>a. if a = 0x1000 then 0x2001 else if a = 0x2000 then 0x3001 else if a = 0x3008 then 0x83 else 0)"

text \<open>
  The constant that tests the sign bit lacks a digit: it is bit 43, not bit 47, so that a user
  address is reported as a kernel address and a kernel address is not extended.
\<close>

lemma wrong_sign_bit:
  "vs_offset (set_offset 0x0000080000000000 s) = 0xFFFF880000000000"
  "vs_offset (set_offset 0x0000800000000000 s) = 0x0000800000000000"
  by (simp_all add: set_offset_def)

subsection \<open>What mapping a page does\<close>

text \<open>The walk of the processor: the cell of the leaf entry, if the upper entries are present.\<close>

fun walk_levels :: "nat \<Rightarrow> nat \<Rightarrow> u64 \<Rightarrow> u64 \<Rightarrow> mem64 \<Rightarrow> u64 option" where
  "walk_levels 0 shift table vaddr m = Some (entry_at table shift vaddr)"
| "walk_levels (Suc i) shift table vaddr m =
     (let e = m (entry_at table shift vaddr)
      in if e AND E_Present = 0 then None else walk_levels i (shift - ShiftInc) (e AND EntryAddressMask) vaddr m)"

fun upper_cells :: "nat \<Rightarrow> nat \<Rightarrow> u64 \<Rightarrow> u64 \<Rightarrow> mem64 \<Rightarrow> u64 set" where
  "upper_cells 0 shift table vaddr m = {}"
| "upper_cells (Suc i) shift table vaddr m =
     insert (entry_at table shift vaddr)
       (upper_cells i (shift - ShiftInc) (m (entry_at table shift vaddr) AND EntryAddressMask) vaddr m)"

definition leaf_cell :: "u64 \<Rightarrow> u64 \<Rightarrow> mem64 \<Rightarrow> u64 option" where
  "leaf_cell root vaddr m = walk_levels 3 39 root vaddr m"

definition translate64 :: "u64 \<Rightarrow> u64 \<Rightarrow> mem64 \<Rightarrow> u64 option" where
  "translate64 root vaddr m = (case leaf_cell root vaddr m of None \<Rightarrow> None
     | Some e \<Rightarrow> if m e AND E_Present = 0 then None else Some (m e AND EntryAddressMask))"

lemma map_levels_walk:
  "shift = ShiftBase + ShiftInc * i \<Longrightarrow>
   bindf (map_levels i shift table v fl m) (\<lambda>(table, m). Inr (m(entry_at table ShiftBase v := x)))
     = (case walk_levels i shift table v m of None \<Rightarrow> Inl (AssertFail ''Unable to allocate page!'') | Some e \<Rightarrow> Inr (m(e := x)))"
  by (induction i arbitrary: shift table) (simp_all add: Let_def pt64_AllocatePage_def)

lemma walk_levels_upd:
  "a \<notin> upper_cells i shift table v m \<Longrightarrow> walk_levels i shift table v (m(a := x)) = walk_levels i shift table v m"
  by (induction i arbitrary: shift table) (auto simp: Let_def)

lemma low_flags:
  fixes b :: u64
  assumes "b AND EntryAddressMask = 0" "b AND E_Present = E_Present"
  shows "((p AND EntryAddressMask) OR b) AND EntryAddressMask = p AND EntryAddressMask"
    and "((p AND EntryAddressMask) OR b) AND E_Present \<noteq> 0"
proof -
  show "((p AND EntryAddressMask) OR b) AND EntryAddressMask = p AND EntryAddressMask"
    unfolding bit.conj_disj_distrib2 assms(1) by (simp add: and.assoc)
  have "((p AND EntryAddressMask) OR b) AND E_Present = E_Present"
    unfolding bit.conj_disj_distrib2 assms(2) by (simp add: and.assoc EntryAddressMask_def E_Present_def)
  then show "((p AND EntryAddressMask) OR b) AND E_Present \<noteq> 0" by (simp add: E_Present_def)
qed

lemma entry_flags_low:
  "(pt64_MapToEntryFlags flags OR E_Present) AND EntryAddressMask = 0"
  "(pt64_MapToEntryFlags flags OR E_Present) AND E_Present = E_Present"
proof -
  have "pt64_MapToEntryFlags flags \<in> {0, 2, 4, 6}"
    by (simp add: pt64_MapToEntryFlags_def E_Writable_def E_User_def Let_def)
  then show "(pt64_MapToEntryFlags flags OR E_Present) AND EntryAddressMask = 0"
    "(pt64_MapToEntryFlags flags OR E_Present) AND E_Present = E_Present"
    by (auto simp: E_Present_def EntryAddressMask_def)
qed



text \<open>A new table has no root, and no table is ever added: an empty table takes no page.\<close>

lemma nothing_can_be_mapped: "pt64_new = 0 \<and> pt64_doMapPage p v flags root (\<lambda>_. 0) = Inl (AssertFail ''Unable to allocate page!'')"
proof -
  have "leaf_cell root v (\<lambda>_. 0) = None" by (simp add: leaf_cell_def numeral_3_eq_3)
  then show ?thesis
    by (simp add: pt64_new_def pt64_AllocatePage_def pt64_doMapPage_def MapSinglePage_def MaxLevels_def numeral_eq_Suc)
qed

end
