(* ===== verification/Realmem.thy ===== *)
theory Realmem
  imports Bitmap Align
begin

text \<open>
  kernel/arch/i386/src/realmem.cpp: the pages of the lower megabyte, one bit each. The page
  number of the reservation loop is a 64-bit number in the code and stays below 2 ^ 21, so it
  is a natural number here.
\<close>

subsection \<open>Operations\<close>

definition LOWER_1MB :: size32 where "LOWER_1MB = 1024 * 1024"

definition LOWER_1MB_PAGES :: nat where "LOWER_1MB_PAGES = unat (LOWER_1MB div PageSize)"

definition real_mem_init :: bitmap where "real_mem_init = bitmap_new LOWER_1MB_PAGES"

fun reserve_loop :: "nat \<Rightarrow> nat \<Rightarrow> bitmap \<Rightarrow> bitmap" where
  "reserve_loop 0 pageNumber m = m"
| "reserve_loop (Suc n) pageNumber m = reserve_loop n (pageNumber + 1) (set_bit LOWER_1MB_PAGES pageNumber m)"

definition ReserveRealMemory :: "addr \<Rightarrow> size32 \<Rightarrow> bitmap \<Rightarrow> bitmap" where
  "ReserveRealMemory a len m =
     (if a \<ge> LOWER_1MB then m
      else let len = (if a + len \<ge> LOWER_1MB then LOWER_1MB - a else len);
               pageNumber = unat (a div PageSize);
               cnt = unat ((len + (PageSize - 1)) div PageSize)
           in reserve_loop cnt pageNumber m)"

function find_free_page :: "nat \<Rightarrow> bitmap \<Rightarrow> nat" where
  "find_free_page index m =
     (let index = index + 1
      in if test_bit LOWER_1MB_PAGES index m then find_free_page index m else index)"
  by pat_completeness auto
termination
  by (relation "measure (\<lambda>(i, m). LOWER_1MB_PAGES - i)") (auto simp: test_bit_def split: if_splits)

declare find_free_page.simps [simp del]

definition AllocRealMemory :: "bitmap \<Rightarrow> addr" where
  "AllocRealMemory m =
     (let index = find_free_page 0 m
      in if index \<ge> LOWER_1MB_PAGES then 0 else of_nat index * PageSize)"

definition ReleaseRealMemory :: "addr \<Rightarrow> bitmap \<Rightarrow> bitmap" where
  "ReleaseRealMemory a m =
     (if a = 0 then m else clear_bit LOWER_1MB_PAGES (unat (a div PageSize)) m)"

subsection \<open>The set of reserved pages\<close>

lemma pages_256: "LOWER_1MB_PAGES = 256"
  by (simp add: LOWER_1MB_PAGES_def LOWER_1MB_def PageSize_def)

lemma reserve_loop_bits:
  "bitmap_ok 256 m \<Longrightarrow> bitmap_ok 256 (reserve_loop n p m)
     \<and> bits_of 256 (reserve_loop n p m) = bits_of 256 m \<union> ({p ..< p + n} \<inter> {..<256})"
proof (induction n arbitrary: p m)
  case (Suc n)
  have u: "{p} \<inter> {..<256} \<union> {p + 1 ..< p + 1 + n} \<inter> {..<256} = {p ..< p + Suc n} \<inter> {..<256}" by auto
  have "bitmap_ok 256 (set_bit 256 p m)" using set_bit_props(1) [OF Suc.prems] .
  from Suc.IH [OF this, of "p + 1"] show ?case
    unfolding set_bit_props(2) [OF Suc.prems] Un_assoc u by (simp add: pages_256)
qed simp

lemma find_free_step:
  "find_free_page i m = (if test_bit 256 (i + 1) m then find_free_page (i + 1) m else i + 1)"
  by (subst find_free_page.simps) (simp add: pages_256 Let_def)

lemma find_free_page_least:
  "i < 256 \<Longrightarrow> i < find_free_page i m \<and> find_free_page i m \<le> 256
     \<and> find_free_page i m \<notin> bits_of 256 m \<and> (\<forall>j. i < j \<and> j < find_free_page i m \<longrightarrow> j \<in> bits_of 256 m)"
proof (induction "256 - i" arbitrary: i rule: less_induct)
  case less
  show ?case
  proof (cases "test_bit 256 (i + 1) m")
    case True
    then have l: "i + 1 < 256" by (simp add: test_bit_iff)
    have s: "find_free_page i m = find_free_page (i + 1) m"
      unfolding find_free_step [of i] using True by simp
    have "256 - (i + 1) < 256 - i" using less.prems by simp
    note h = less.hyps [OF this l]
    have "j \<in> bits_of 256 m" if "i < j" "j < find_free_page (i + 1) m" for j
    proof (cases "j = i + 1")
      case True
      with \<open>test_bit 256 (i + 1) m\<close> show ?thesis by simp
    next
      case False
      with h that show ?thesis by simp
    qed
    then show ?thesis unfolding s using h by simp
  next
    case False
    then have "find_free_page i m = i + 1" unfolding find_free_step [of i] by simp
    with False less.prems show ?thesis by (auto simp: less_Suc_eq)
  qed
qed

text \<open>The pages that a block of memory touches.\<close>

definition touched :: "nat \<Rightarrow> nat \<Rightarrow> nat set" where
  "touched a len = {p. p < 256 \<and> p * 4096 < a + len \<and> a < (p + 1) * 4096}"

lemma reserve_correct:
  assumes "bitmap_ok 256 m" "unat a mod 4096 = 0" "unat a + unat len < 2 ^ 32"
  shows "bitmap_ok 256 (ReserveRealMemory a len m)
     \<and> bits_of 256 (ReserveRealMemory a len m) = bits_of 256 m \<union> touched (unat a) (unat len)"
proof (cases "a \<ge> LOWER_1MB")
  case True
  then have "touched (unat a) (unat len) = {}"
    by (auto simp: touched_def LOWER_1MB_def word_le_nat_alt)
  with True assms(1) show ?thesis by (simp add: ReserveRealMemory_def)
next
  case False
  then have a: "unat a < 1048576" by (simp add: LOWER_1MB_def word_le_nat_alt)
  define l where "l = (if a + len \<ge> LOWER_1MB then LOWER_1MB - a else len)"
  let ?n = "unat ((l + (PageSize - 1)) div PageSize)"
  have al: "unat (a + len) = unat a + unat len" using assms(3) by (simp add: unat_add_noov)
  have l: "unat l = min (unat len) (1048576 - unat a)"
    using a al by (simp add: l_def LOWER_1MB_def word_le_nat_alt unat_sub_noov)
  have lb: "unat l \<le> 1048576" using l by linarith
  then have "unat (l + 4095) = unat l + 4095" by (simp add: unat_add_noov)
  then have n: "?n = (unat l + 4095) div 4096" by (simp add: PageSize_def unat_div)
  have p: "unat (a div PageSize) = unat a div 4096" by (simp add: PageSize_def unat_div)
  have "{unat a div 4096 ..< unat a div 4096 + ?n} \<inter> {..<256} = touched (unat a) (unat len)"
    unfolding n touched_def l using assms(2) a by (auto simp: min_def split: if_splits)
  moreover have "ReserveRealMemory a len m = reserve_loop ?n (unat a div 4096) m"
    using False unfolding ReserveRealMemory_def l_def Let_def p [symmetric] by simp
  ultimately show ?thesis using reserve_loop_bits [OF assms(1)] by metis
qed

lemma alloc_correct:
  "(AllocRealMemory m = 0 \<longleftrightarrow> (\<forall>i. 0 < i \<and> i < 256 \<longrightarrow> i \<in> bits_of 256 m))
   \<and> (AllocRealMemory m \<noteq> 0 \<longrightarrow> (\<exists>i. 0 < i \<and> i < 256 \<and> i \<notin> bits_of 256 m \<and> unat (AllocRealMemory m) = i * 4096))"
proof -
  let ?i = "find_free_page 0 m"
  note f = find_free_page_least [of 0 m]
  show ?thesis
  proof (cases "256 \<le> ?i")
    case True
    then have "?i = 256" using f by simp
    with True f show ?thesis by (simp add: AllocRealMemory_def pages_256)
  next
    case False
    then have a: "AllocRealMemory m = of_nat (?i * 4096)" by (simp add: AllocRealMemory_def pages_256 PageSize_def Let_def)
    have "unat (of_nat (?i * 4096) :: u32) = ?i * 4096"
      using False by (intro unat_of_nat_len) simp
    then have u: "unat (AllocRealMemory m) = ?i * 4096" unfolding a .
    then have "AllocRealMemory m \<noteq> 0" using f by auto
    with u f False show ?thesis by (auto simp: not_le)
  qed
qed

text \<open>
  A reservation that starts on a page boundary marks exactly the pages of the lower
  megabyte that the block touches; an allocation then yields a page boundary below 1 MB whose
  page is neither zero nor marked, and null exactly when no page but zero is left; and a
  release unmarks the page of its address.
\<close>

theorem real_memory_correct:
  assumes "bitmap_ok 256 m" "unat a mod 4096 = 0" "unat a + unat len < 2 ^ 32"
  shows "bits_of 256 (ReserveRealMemory a len m) = bits_of 256 m \<union> touched (unat a) (unat len)
     \<and> (AllocRealMemory (ReserveRealMemory a len m) = 0
          \<longleftrightarrow> (\<forall>i. 0 < i \<and> i < 256 \<longrightarrow> i \<in> bits_of 256 m \<union> touched (unat a) (unat len)))
     \<and> (AllocRealMemory (ReserveRealMemory a len m) \<noteq> 0 \<longrightarrow>
          (\<exists>i. 0 < i \<and> i < 256 \<and> i \<notin> bits_of 256 m \<union> touched (unat a) (unat len)
             \<and> unat (AllocRealMemory (ReserveRealMemory a len m)) = i * 4096))
     \<and> (a \<noteq> 0 \<longrightarrow> bits_of 256 (ReleaseRealMemory a (ReserveRealMemory a len m))
          = bits_of 256 m \<union> touched (unat a) (unat len) - {unat a div 4096})"
proof -
  note r = reserve_correct [OF assms]
  have "bits_of 256 (ReleaseRealMemory a (ReserveRealMemory a len m))
      = bits_of 256 (ReserveRealMemory a len m) - {unat a div 4096}" if "a \<noteq> 0"
    using that r clear_bit_props(2) [of 256 "ReserveRealMemory a len m" "unat a div 4096"]
    by (simp add: ReleaseRealMemory_def pages_256 PageSize_def unat_div)
  then show ?thesis
    using r alloc_correct [of "ReserveRealMemory a len m"] by (simp del: in_bits_of)
qed

theorem real_memory_correct_witness:
  "AllocRealMemory (ReserveRealMemory 0x1000 0x1001 real_mem_init) = 0x3000"
proof -
  let ?m = "ReserveRealMemory 0x1000 0x1001 real_mem_init"
  have t: "touched 4096 4097 = {1, 2}" by (auto simp: touched_def)
  have i: "bitmap_ok 256 real_mem_init" "bits_of 256 real_mem_init = {}"
    by (simp_all add: real_mem_init_def pages_256 bitmap_new_props)
  have b: "bits_of 256 ?m = {1, 2}"
    using real_memory_correct [OF i(1), of "0x1000" "0x1001"] i(2) t by (simp del: in_bits_of)
  obtain f where f: "f = find_free_page 0 ?m" by simp
  have p: "0 < f" "f \<notin> {1, 2}" "\<And>j. 0 < j \<Longrightarrow> j < f \<Longrightarrow> j \<in> {1, 2}"
    using find_free_page_least [OF zero_less_numeral, of ?m] unfolding b f by blast+
  have "\<not> 3 < f" by (rule notI, drule p(3) [rotated]) simp_all
  then have "find_free_page 0 ?m = 3" using p(1,2) unfolding f [symmetric] by simp
  then show ?thesis by (simp add: AllocRealMemory_def pages_256 PageSize_def)
qed

text \<open>
  AllocRealMemory has no effect on the map: without a reservation in between, two allocations
  return the same page. A block that starts inside a page and crosses its end leaves its last
  page unmarked.
\<close>

lemma alloc_does_not_mark: "AllocRealMemory real_mem_init = 0x1000"
proof -
  have "bits_of 256 real_mem_init = {}" by (simp add: real_mem_init_def pages_256 bitmap_new_props)
  then have "find_free_page 0 real_mem_init = 1"
    using in_bits_of [of 1 256 real_mem_init] by (simp add: find_free_step [of 0] del: in_bits_of)
  then show ?thesis by (simp add: AllocRealMemory_def pages_256 PageSize_def)
qed

lemma reserve_misses_last_page:
  "touched 0xFFF 2 = {0, 1} \<and> bits_of 256 (ReserveRealMemory 0xFFF 2 real_mem_init) = {0}"
proof -
  have "ReserveRealMemory 0xFFF 2 real_mem_init = reserve_loop 1 0 real_mem_init"
    by (simp add: ReserveRealMemory_def LOWER_1MB_def PageSize_def)
  then have "bits_of 256 (ReserveRealMemory 0xFFF 2 real_mem_init) = {0}"
    using reserve_loop_bits [of real_mem_init 1 0] bitmap_new_props [of 256]
    by (auto simp: real_mem_init_def pages_256 simp del: in_bits_of)
  moreover have "touched 0xFFF 2 = {0, 1}" by (auto simp: touched_def)
  ultimately show ?thesis by simp
qed

end
