(* ===== verification/BootAlloc.thy ===== *)
theory BootAlloc
  imports PagePtr PageAlloc
begin

text \<open>
  kernel/vm/boot_allocator.h and .cpp: the bump allocator used before the page allocator
  exists. Pages come from a chain of released pages first and from the end of the boot heap
  otherwise; the boot arguments hold the end of the heap.
\<close>

subsection \<open>State and operations\<close>

record boot_allocator =
  ba_data :: argument_data
  ba_total :: size32
  ba_free :: addr
  ba_free_count :: size32
  ba_next :: "addr \<Rightarrow> addr"

fun pages_from_mappings :: "argument_data \<Rightarrow> mapping list \<Rightarrow> size32" where
  "pages_from_mappings d [] = 0"
| "pages_from_mappings d (m # ms) =
     (if Type m \<noteq> Available then pages_from_mappings d ms
      else let mapEnd = Start m + MapLength m
           in if Start m \<le> HeapStart d \<and> HeapNext d < mapEnd
              then (align_floor PageSize mapEnd - Start m) div PageSize
              else pages_from_mappings d ms)"

definition ba_construct :: "argument_data \<Rightarrow> (addr \<Rightarrow> addr) \<Rightarrow> fault + boot_allocator" where
  "ba_construct d mem =
     (let total = pages_from_mappings d (entries d);
          total = (if total = 0 then HighMemorySizeKByte d div (PageSize div 1024) else total)
      in if 0 < total
         then Inr \<lparr>ba_data = d, ba_total = total, ba_free = 0, ba_free_count = 0, ba_next = mem\<rparr>
         else Inl (AssertFail ''number of pages''))"

definition ba_get_free_pages :: "boot_allocator \<Rightarrow> size32" where
  "ba_get_free_pages s =
     (let allocated = (HeapNext (ba_data s) - HeapStart (ba_data s)) div PageSize
      in (ba_total s - allocated) + ba_free_count s)"

function ba_alloc_loop ::
    "nat \<Rightarrow> nat \<Rightarrow> addr \<Rightarrow> addr \<Rightarrow> page_ptr list \<Rightarrow> boot_allocator \<Rightarrow> page_ptr list \<times> addr \<times> addr \<times> boot_allocator" where
  "ba_alloc_loop wanted result pptr vptr ptrs s =
     (if result < wanted then
        (if ba_free s \<noteq> 0 then
           let p = ba_free s
           in ba_alloc_loop wanted (Suc result) pptr vptr (ptrs @ [FromPhysical p 0])
                (s\<lparr>ba_free := ba_next s p, ba_free_count := ba_free_count s - 1\<rparr>)
         else ba_alloc_loop wanted (Suc result) (pptr + PageSize) (vptr + PageSize)
                (ptrs @ [FromPhysical pptr 0]) s)
      else (ptrs, pptr, vptr, s))"
  by pat_completeness auto
termination by (relation "measure (\<lambda>(wanted, result, _). wanted - result)") auto

declare ba_alloc_loop.simps [simp del]

text \<open>The pointers array is the list of the returned pointers; empty when the request fails.\<close>

definition ba_allocate_pages :: "nat \<Rightarrow> boot_allocator \<Rightarrow> page_ptr list \<times> boot_allocator" where
  "ba_allocate_pages wanted s =
     (if wanted > unat (ba_get_free_pages s) then ([], s)
      else let (ptrs, pptr, vptr, s) =
             ba_alloc_loop wanted 0 (HeapNext (ba_data s)) (VirtHeapNext (ba_data s)) [] s
           in (ptrs, s\<lparr>ba_data := (ba_data s)\<lparr>HeapNext := pptr, VirtHeapNext := vptr\<rparr>\<rparr>))"

text \<open>Releasing takes the pages over and clears the caller's pointers.\<close>

fun ba_release_pages :: "page_ptr list \<Rightarrow> boot_allocator \<Rightarrow> fault + (page_ptr list \<times> boot_allocator)" where
  "ba_release_pages [] s = Inr ([], s)"
| "ba_release_pages (p # ps) s =
     (if pp_is_physical p \<and> pp_order p = 0 then
        let node = pp_value p;
            s = s\<lparr>ba_next := (ba_next s)(node := ba_free s), ba_free := node,
                 ba_free_count := ba_free_count s + 1\<rparr>
        in bindf (ba_release_pages ps s) (\<lambda>(cleared, s). Inr (pp_null # cleared, s))
      else Inl (AssertFail ''Invalid PagePointer passed to BootAllocator::ReleasePages()''))"

subsection \<open>Closed form of the allocation loop\<close>

definition bump_pages :: "addr \<Rightarrow> nat \<Rightarrow> addr list" where
  "bump_pages a n = map (\<lambda>i. a + of_nat i * PageSize) [0..<n]"

lemma bump_pages_0 [simp]: "bump_pages a 0 = []" by (simp add: bump_pages_def)

lemma bump_pages_Suc: "bump_pages a (Suc n) = a # bump_pages (a + PageSize) n"
  unfolding bump_pages_def upt_conv_Cons [OF zero_less_Suc]
  by (simp add: map_Suc_upt [symmetric] algebra_simps del: upt_Suc)

lemma ba_alloc_loop_bump:
  "ba_free s = 0 \<Longrightarrow>
   ba_alloc_loop (r + n) r pptr vptr ptrs s =
     (ptrs @ map (\<lambda>p. FromPhysical p 0) (bump_pages pptr n),
      pptr + of_nat n * PageSize, vptr + of_nat n * PageSize, s)"
proof (induction n arbitrary: r pptr vptr ptrs)
  case (Suc n)
  then show ?case
    using Suc.IH [of "Suc r"]
    by (subst ba_alloc_loop.simps) (simp add: bump_pages_Suc algebra_simps)
qed (subst ba_alloc_loop.simps, simp)

lemma ba_alloc_loop_chain:
  "chained (ba_next s) (ba_free s) xs \<Longrightarrow>
   ba_alloc_loop (r + n) r pptr vptr ptrs s =
     (ptrs @ map (\<lambda>p. FromPhysical p 0) (take n xs @ bump_pages pptr (n - length xs)),
      pptr + of_nat (n - length xs) * PageSize, vptr + of_nat (n - length xs) * PageSize,
      s\<lparr>ba_free := (if n < length xs then xs ! n else 0),
        ba_free_count := ba_free_count s - of_nat (min n (length xs))\<rparr>)"
proof (induction xs arbitrary: n r ptrs s)
  case Nil
  then have "s\<lparr>ba_free := 0, ba_free_count := ba_free_count s\<rparr> = s" by simp
  with Nil show ?case by (simp add: ba_alloc_loop_bump)
next
  case (Cons x xs)
  show ?case
  proof (cases n)
    case 0
    with Cons.prems have "s\<lparr>ba_free := x, ba_free_count := ba_free_count s\<rparr> = s" by simp
    with 0 Cons.prems show ?thesis by (subst ba_alloc_loop.simps) simp
  next
    case (Suc m)
    then show ?thesis
      using Cons.prems Cons.IH [of "s\<lparr>ba_free := ba_next s x, ba_free_count := ba_free_count s - 1\<rparr>" "Suc r" m]
      by (subst ba_alloc_loop.simps) (simp add: algebra_simps)
  qed
qed

subsection \<open>The invariant\<close>

text \<open>
  The heap grows from page boundary to page boundary, and the released pages are distinct
  pages of the heap.
\<close>

definition ba_inv :: "boot_allocator \<Rightarrow> addr list \<Rightarrow> bool" where
  "ba_inv s xs \<longleftrightarrow> distinct xs \<and> chained (ba_next s) (ba_free s) xs
     \<and> ba_free_count s = of_nat (length xs)
     \<and> page_aligned (HeapStart (ba_data s)) \<and> page_aligned (HeapNext (ba_data s))
     \<and> 0 < HeapStart (ba_data s) \<and> HeapStart (ba_data s) \<le> HeapNext (ba_data s)
     \<and> (\<forall>x\<in>set xs. page_aligned x \<and> HeapStart (ba_data s) \<le> x \<and> x < HeapNext (ba_data s))"

lemma bump_unat:
  "unat a + 4096 * n < 2 ^ 32 \<Longrightarrow> i \<le> n \<Longrightarrow> unat (a + of_nat i * PageSize) = unat a + 4096 * i" for a :: u32
proof -
  assume a: "unat a + 4096 * n < 2 ^ 32" "i \<le> n"
  have "of_nat i * PageSize = (of_nat (i * 4096) :: u32)" by (simp add: PageSize_def)
  moreover have "unat (of_nat (i * 4096) :: u32) = i * 4096"
    using a by (intro unat_of_nat_len) simp
  ultimately show ?thesis using a by (subst unat_add_noov) simp_all
qed

lemma aligned_value: "page_aligned a \<Longrightarrow> pp_value (FromPhysical a 0) = a"
proof -
  assume "page_aligned a"
  then have d: "4096 dvd unat a" by (simp add: page_aligned_def)
  have "unat (align_floor PageSize a) = unat a div 4096 * 4096"
    using unat_align_floor [of PageSize a] by (simp add: is_pow2_PageSize PageSize_def)
  then have "align_floor PageSize a = a" using d by (intro word_eq_unatI) simp
  then show ?thesis
    by (simp add: pp_value_aligned align_floor_def PageMask_def PageSize_def)
qed

lemma page_count_bump:
  "page_aligned hs \<Longrightarrow> page_aligned hn \<Longrightarrow> hs \<le> hn \<Longrightarrow> unat hn + 4096 * n < 2 ^ 32 \<Longrightarrow>
   (hn + of_nat n * PageSize - hs) div PageSize = (hn - hs) div PageSize + of_nat n"
proof -
  assume a: "page_aligned hs" "page_aligned hn" "hs \<le> hn" "unat hn + 4096 * n < 2 ^ 32"
  have b: "unat (hn + of_nat n * PageSize) = unat hn + 4096 * n" using bump_unat [OF a(4)] by simp
  have c: "unat hs \<le> unat hn" using a(3) by (simp add: word_le_nat_alt)
  have "unat ((hn + of_nat n * PageSize - hs) div PageSize) = (unat hn + 4096 * n - unat hs) div 4096"
    using b c by (simp add: unat_div unat_sub_noov PageSize_def)
  also have "\<dots> = (unat hn - unat hs) div 4096 + n"
  proof -
    have "unat hn + 4096 * n - unat hs = (unat hn - unat hs) + 4096 * n" using c by linarith
    then show ?thesis by simp
  qed
  also have "\<dots> = unat ((hn - hs) div PageSize + of_nat n)"
  proof -
    have "unat ((hn - hs) div PageSize) = (unat hn - unat hs) div 4096"
      using c by (simp add: unat_div unat_sub_noov PageSize_def)
    moreover have "unat (of_nat n :: u32) = n" using a(4) by (intro unat_of_nat_len) simp
    moreover have "(unat hn - unat hs) div 4096 + n < 2 ^ 32" using a(4) by linarith
    ultimately show ?thesis by (subst unat_add_noov) simp_all
  qed
  finally show ?thesis by (rule word_eq_unatI)
qed

subsection \<open>Allocation and release\<close>

lemma chained_drop:
  "chained nx p xs \<Longrightarrow> chained nx (if n < length xs then xs ! n else 0) (drop n xs)"
proof (induction xs arbitrary: n p)
  case (Cons x xs)
  show ?case
  proof (cases n)
    case (Suc m)
    with Cons.prems Cons.IH [of "nx x" m] show ?thesis by (simp split: if_splits)
  qed (use Cons.prems in simp)
qed simp

lemma bump_pages_props:
  assumes "page_aligned a" "unat a + 4096 * n < 2 ^ 32"
  shows "distinct (bump_pages a n)"
    and "x \<in> set (bump_pages a n) \<Longrightarrow> page_aligned x \<and> a \<le> x \<and> x < a + of_nat n * PageSize"
proof -
  have u: "unat (a + of_nat i * PageSize) = unat a + 4096 * i" if "i \<le> n" for i
    using bump_unat [OF assms(2) that] .
  have "inj_on (\<lambda>i. a + of_nat i * PageSize) (set [0..<n])"
  proof (rule inj_onI)
    fix i j assume "i \<in> set [0..<n]" "j \<in> set [0..<n]" and e: "a + of_nat i * PageSize = a + of_nat j * PageSize"
    then have "i \<le> n" "j \<le> n" by simp_all
    then have "unat a + 4096 * i = unat a + 4096 * j" using e u by metis
    then show "i = j" by simp
  qed
  then show "distinct (bump_pages a n)" by (simp add: bump_pages_def distinct_map)
  assume "x \<in> set (bump_pages a n)"
  then obtain i where i: "x = a + of_nat i * PageSize" "i < n" by (auto simp: bump_pages_def)
  then have ux: "unat x = unat a + 4096 * i" using u [of i] by (metis less_imp_le)
  have "unat (a + of_nat n * PageSize) = unat a + 4096 * n" by (rule u) (rule order.refl)
  then show "page_aligned x \<and> a \<le> x \<and> x < a + of_nat n * PageSize"
    using ux i(2) assms(1) by (simp add: page_aligned_def word_le_nat_alt word_less_nat_alt)
qed

text \<open>
  A request the allocator accepts yields exactly the wanted number of distinct physical
  page pointers of order 0, taken from the released pages first and from the end of the heap
  otherwise; the invariant is kept and the number of free pages drops by the request.
\<close>

theorem boot_allocate_correct:
  assumes "ba_inv s xs" "wanted \<le> unat (ba_get_free_pages s)"
    and "unat (HeapNext (ba_data s)) + 4096 * wanted < 2 ^ 32"
  shows "\<exists>ptrs s'. ba_allocate_pages wanted s = (ptrs, s') \<and> length ptrs = wanted
     \<and> distinct (map pp_value ptrs)
     \<and> (\<forall>p\<in>set ptrs. pp_is_physical p \<and> pp_order p = 0 \<and> page_aligned (pp_value p)
          \<and> (pp_value p \<in> set xs
              \<or> HeapNext (ba_data s) \<le> pp_value p \<and> pp_value p < HeapNext (ba_data s')))
     \<and> ba_inv s' (drop wanted xs)
     \<and> ba_get_free_pages s' = ba_get_free_pages s - of_nat wanted"
proof -
  let ?hn = "HeapNext (ba_data s)" and ?hs = "HeapStart (ba_data s)" and ?k = "wanted - length xs"
  let ?pages = "take wanted xs @ bump_pages ?hn ?k"
  let ?ptrs = "map (\<lambda>p. FromPhysical p 0) ?pages"
  let ?hn' = "?hn + of_nat ?k * PageSize"
  have inv: "distinct xs" "chained (ba_next s) (ba_free s) xs" "ba_free_count s = of_nat (length xs)"
    "page_aligned ?hs" "page_aligned ?hn" "0 < ?hs" "?hs \<le> ?hn"
    "\<forall>x\<in>set xs. page_aligned x \<and> ?hs \<le> x \<and> x < ?hn"
    using assms(1) by (auto simp: ba_inv_def)
  have k: "unat ?hn + 4096 * ?k < 2 ^ 32" using assms(3) by linarith
  have u: "unat ?hn' = unat ?hn + 4096 * ?k" using bump_unat [OF k] by simp
  have le: "?hn \<le> ?hn'" using u by (simp add: word_le_nat_alt)
  have al: "page_aligned ?hn'" using u inv(5) by (simp add: page_aligned_def)
  define s' where "s' = s\<lparr>ba_free := (if wanted < length xs then xs ! wanted else 0),
      ba_free_count := ba_free_count s - of_nat (min wanted (length xs)),
      ba_data := (ba_data s)\<lparr>HeapNext := ?hn', VirtHeapNext := VirtHeapNext (ba_data s) + of_nat ?k * PageSize\<rparr>\<rparr>"
  have r: "ba_allocate_pages wanted s = (?ptrs, s')"
    using assms(2) ba_alloc_loop_chain [OF inv(2), of 0 wanted]
    by (simp add: ba_allocate_pages_def s'_def)
  have pa: "page_aligned p \<and> (p \<in> set xs \<or> ?hn \<le> p \<and> p < ?hn')" if "p \<in> set ?pages" for p
  proof (cases "p \<in> set (take wanted xs)")
    case True
    then have "p \<in> set xs" by (rule in_set_takeD)
    with inv(8) show ?thesis by blast
  next
    case False
    with that bump_pages_props(2) [OF inv(5) k] show ?thesis by auto
  qed
  have v: "map pp_value ?ptrs = ?pages"
    using pa aligned_value by (auto intro!: map_idI)
  have "set (take wanted xs) \<inter> set (bump_pages ?hn ?k) = {}"
  proof (rule equals0I)
    fix p assume p: "p \<in> set (take wanted xs) \<inter> set (bump_pages ?hn ?k)"
    then have "p \<in> set xs" "p \<in> set (bump_pages ?hn ?k)" using in_set_takeD by auto
    then have "p < ?hn" "?hn \<le> p" using inv(8) bump_pages_props(2) [OF inv(5) k] by blast+
    then show False by simp
  qed
  then have d: "distinct (map pp_value ?ptrs)"
    unfolding v using inv(1) bump_pages_props(1) [OF inv(5) k] by simp
  have "ba_inv s' (drop wanted xs)"
    unfolding ba_inv_def s'_def using inv le al chained_drop [OF inv(2), of wanted]
    by (auto simp: of_nat_diff min_def not_less dest!: in_set_dropD intro: order.strict_trans2)
  moreover have "ba_get_free_pages s' = ba_get_free_pages s - of_nat wanted"
  proof -
    have "(?hn' - ?hs) div PageSize = (?hn - ?hs) div PageSize + of_nat ?k"
      by (rule page_count_bump [OF inv(4,5,7) k])
    then show ?thesis
      by (cases "wanted \<le> length xs") (simp_all add: ba_get_free_pages_def s'_def inv(3) Let_def of_nat_diff)
  qed
  moreover have "length ?ptrs = wanted" by (simp add: bump_pages_def)
  moreover have "pp_is_physical q \<and> pp_order q = 0 \<and> page_aligned (pp_value q)
      \<and> (pp_value q \<in> set xs \<or> ?hn \<le> pp_value q \<and> pp_value q < HeapNext (ba_data s'))"
    if q: "q \<in> set ?ptrs" for q
  proof -
    obtain p where p: "q = FromPhysical p 0" "p \<in> set ?pages" using q unfolding set_map by blast
    then have "pp_value q = p" using pa aligned_value by blast
    then show ?thesis using pa [OF p(2)] p(1) by (simp add: pp_physical pp_order_0 s'_def)
  qed
  ultimately show ?thesis using r d by blast
qed

lemma release_one:
  assumes "ba_inv s xs" "page_aligned p" "HeapStart (ba_data s) \<le> p" "p < HeapNext (ba_data s)" "p \<notin> set xs"
  shows "ba_inv (s\<lparr>ba_next := (ba_next s)(p := ba_free s), ba_free := p, ba_free_count := ba_free_count s + 1\<rparr>) (p # xs)"
proof -
  have "p \<noteq> 0" using assms(1,3) by (auto simp: ba_inv_def)
  with assms show ?thesis by (simp add: ba_inv_def)
qed

text \<open>
  Releasing distinct heap pages that are not already released takes all of them over,
  clears the caller's pointers and raises the number of free pages by their number.
\<close>

theorem boot_release_correct:
  assumes "ba_inv s xs" "distinct ps" "set ps \<inter> set xs = {}"
    and "\<forall>p\<in>set ps. page_aligned p \<and> HeapStart (ba_data s) \<le> p \<and> p < HeapNext (ba_data s)"
  shows "\<exists>s'. ba_release_pages (map (\<lambda>p. FromPhysical p 0) ps) s = Inr (replicate (length ps) pp_null, s')
     \<and> ba_inv s' (rev ps @ xs) \<and> ba_get_free_pages s' = ba_get_free_pages s + of_nat (length ps)"
  using assms
proof (induction ps arbitrary: s xs)
  case (Cons p ps)
  let ?s = "s\<lparr>ba_next := (ba_next s)(p := ba_free s), ba_free := p, ba_free_count := ba_free_count s + 1\<rparr>"
  have i: "ba_inv ?s (p # xs)" using Cons.prems by (intro release_one) auto
  obtain s' where s': "ba_release_pages (map (\<lambda>p. FromPhysical p 0) ps) ?s = Inr (replicate (length ps) pp_null, s')"
    "ba_inv s' (rev ps @ p # xs)" "ba_get_free_pages s' = ba_get_free_pages ?s + of_nat (length ps)"
    using Cons.IH [OF i] Cons.prems by auto
  moreover have "pp_value (FromPhysical p 0) = p" using Cons.prems(4) aligned_value by simp
  moreover have "ba_get_free_pages ?s = ba_get_free_pages s + 1" by (simp add: ba_get_free_pages_def Let_def)
  ultimately show ?case by (auto simp: pp_physical pp_order_0)
qed simp

definition sample_boot :: boot_allocator where
  "sample_boot = \<lparr>ba_data = sample_args\<lparr>HeapNext := 0x204000\<rparr>, ba_total = 16128, ba_free = 0x202000,
     ba_free_count = 1, ba_next = (\<lambda>_. 0)\<rparr>"

lemma sample_boot_inv: "ba_inv sample_boot [0x202000]"
  by (simp add: ba_inv_def sample_boot_def sample_args_def page_aligned_def)

lemma sample_boot_free: "ba_get_free_pages sample_boot = 16125"
  by (simp add: ba_get_free_pages_def sample_boot_def sample_args_def PageSize_def)

theorem boot_allocate_correct_witness:
  "length (fst (ba_allocate_pages 3 sample_boot)) = 3 \<and> distinct (map pp_value (fst (ba_allocate_pages 3 sample_boot)))"
proof -
  have "unat (HeapNext (ba_data sample_boot)) + 4096 * 3 < 2 ^ 32"
    by (simp add: sample_boot_def sample_args_def)
  then show ?thesis
    using boot_allocate_correct [OF sample_boot_inv, of 3] sample_boot_free by auto
qed

theorem boot_release_correct_witness:
  "\<exists>s'. ba_release_pages [FromPhysical 0x203000 0] sample_boot = Inr ([pp_null], s')
     \<and> ba_inv s' [0x203000, 0x202000]"
proof -
  have "\<forall>p\<in>set [0x203000]. page_aligned p \<and> HeapStart (ba_data sample_boot) \<le> p \<and> p < HeapNext (ba_data sample_boot)"
    by (simp add: sample_boot_def sample_args_def page_aligned_def)
  from boot_release_correct [OF sample_boot_inv _ _ this] show ?thesis
    by (simp del: ba_release_pages.simps) blast
qed

text \<open>
  The total counts the pages of the whole mapping while the pages in use are counted from
  the start of the heap, so the pages of the mapping below the heap are handed out a second
  time past its end: here the mapping ends at 0x500000, two thirds of it lie below the heap,
  and a request that cannot be satisfied is.
\<close>

definition low_heap_args :: argument_data where
  "low_heap_args = sample_args\<lparr>MemoryMapCount := 1,
     MemoryMap := \<lparr>Start = 0x100000, MapLength = 0x6000, Type = Available\<rparr> # tl (MemoryMap sample_args),
     HeapStart := 0x104000, HeapNext := 0x104000\<rparr>"

lemma allocates_past_mapping:
  "\<exists>s. ba_construct low_heap_args mem = Inr s \<and> pp_value (last (fst (ba_allocate_pages 5 s))) = 0x108000"
proof -
  have e: "entries low_heap_args = [\<lparr>Start = 0x100000, MapLength = 0x6000, Type = Available\<rparr>]"
    by (simp add: entries_def low_heap_args_def)
  let ?s = "\<lparr>ba_data = low_heap_args, ba_total = 6, ba_free = 0, ba_free_count = 0, ba_next = mem\<rparr>"
  have c: "ba_construct low_heap_args mem = Inr ?s"
  proof -
    have f: "HeapStart low_heap_args = 0x104000" "HeapNext low_heap_args = 0x104000"
      by (simp_all add: low_heap_args_def)
    have "align_floor PageSize (0x106000 :: addr) = 0x106000"
      by (simp add: align_floor_def PageSize_def)
    then have "pages_from_mappings low_heap_args (entries low_heap_args) = 6"
      unfolding e by (simp add: f PageSize_def)
    then show ?thesis by (simp add: ba_construct_def)
  qed
  have i: "ba_inv ?s []" by (simp add: ba_inv_def low_heap_args_def page_aligned_def)
  have "ba_allocate_pages 5 ?s = (map (\<lambda>p. FromPhysical p 0) (bump_pages 0x104000 5),
      ?s\<lparr>ba_data := low_heap_args\<lparr>HeapNext := 0x109000, VirtHeapNext := 0xC0205000\<rparr>\<rparr>)"
    using ba_alloc_loop_bump [of ?s 0 5 "0x104000" "0xC0200000" "[]"]
    by (simp add: ba_allocate_pages_def ba_get_free_pages_def low_heap_args_def sample_args_def PageSize_def)
  moreover have "bump_pages 0x104000 5 = [0x104000, 0x105000, 0x106000, 0x107000, 0x108000]"
    by (simp add: bump_pages_def PageSize_def upt_conv_Cons)
  moreover have "pp_value (FromPhysical 0x108000 0) = 0x108000"
    by (rule aligned_value) (simp add: page_aligned_def)
  ultimately show ?thesis using c by simp
qed

end
