(* ===== verification/Keyboard.thy ===== *)
theory Keyboard
  imports ParseInt EnumFlags
begin

text \<open>
  kernel/arch/x86/dev/ps2kbd.cpp: the PS/2 keyboard driver. A scan code is turned into a
  character or -1 by a table of actions, two character maps and a set of flags for the shift and
  lock keys. The state is the flags and the last extended prefix.
\<close>

subsection \<open>Tables\<close>

datatype key_action = RegularKey | PadKey | ControlKey | ShiftKey | LockKey | ExtendKey | IgnoreKey

definition SF_Shift :: u32 where "SF_Shift = 0x0001"
definition SF_Ctrl :: u32 where "SF_Ctrl = 0x0002"
definition SF_Alt :: u32 where "SF_Alt = 0x0004"
definition SF_Cmd :: u32 where "SF_Cmd = 0x0008"
definition SF_Caps :: u32 where "SF_Caps = 0x0100"
definition SF_Num :: u32 where "SF_Num = 0x0200"
definition SF_Scroll :: u32 where "SF_Scroll = 0x0400"
definition SF_Extend :: u32 where "SF_Extend = 0x8000"

lemmas SF_defs = SF_Shift_def SF_Ctrl_def SF_Alt_def SF_Cmd_def SF_Caps_def SF_Num_def
  SF_Scroll_def SF_Extend_def

definition special_keys :: "(nat \<times> key_action) list" where
  "special_keys = [
    (0x00, IgnoreKey), (0x1D, ShiftKey), (0x2A, ShiftKey), (0x36, ShiftKey), (0x38, ShiftKey),
    (0x3A, LockKey), (0x3B, ControlKey), (0x3C, ControlKey), (0x3D, ControlKey), (0x3E, ControlKey),
    (0x3F, ControlKey), (0x40, ControlKey), (0x41, ControlKey), (0x42, ControlKey), (0x43, ControlKey),
    (0x44, ControlKey), (0x45, LockKey), (0x46, LockKey), (0x47, PadKey), (0x48, PadKey),
    (0x49, PadKey), (0x4A, PadKey), (0x4B, PadKey), (0x4C, PadKey), (0x4D, PadKey),
    (0x4E, PadKey), (0x4F, PadKey), (0x50, PadKey), (0x51, PadKey), (0x52, PadKey),
    (0x53, PadKey), (0x54, ControlKey), (0x57, ControlKey), (0x58, ControlKey), (0xE0, ExtendKey),
    (0xE1, ExtendKey)]"

definition InitActionsTable :: "key_action list \<Rightarrow> key_action list" where
  "InitActionsTable t =
     foldl (\<lambda>t (i, a). t[i := a])
       (map (\<lambda>i. if i = 0 then t ! 0 else if i AND 0x80 \<noteq> 0 then IgnoreKey else RegularKey) [0..<256])
       special_keys"

definition s_normalMap :: "u8 list" where
  "s_normalMap = [
     0, 27, 49, 50, 51, 52, 53, 54, 55, 56, 57, 48, 45, 61, 8, 9,
     113, 119, 101, 114, 116, 121, 117, 105, 111, 112, 91, 93, 10, 0, 97, 115,
     100, 102, 103, 104, 106, 107, 108, 59, 39, 96, 0, 92, 122, 120, 99, 118,
     98, 110, 109, 44, 46, 47, 0, 42, 0, 32, 0, 0, 0, 0, 0, 0,
     0, 0, 0, 0, 0, 0, 0, 55, 56, 57, 45, 52, 53, 54, 43, 49,
     50, 51, 48, 46, 0, 0, 0, 0, 0, 0, 0, 0, 0, 0, 0, 0,
     0, 0, 0, 0, 0, 0, 0, 0, 0, 0, 0, 0, 0, 0, 0, 0,
     0, 0, 0, 0, 0, 0, 0, 0, 0, 0, 0, 0, 0, 0, 0, 0,
     0, 0, 0, 0, 0, 0, 0, 0, 0, 0, 0, 0, 0, 0, 0, 0,
     0, 0, 0, 0, 0, 0, 0, 0, 0, 0, 0, 0, 10, 0, 0, 0,
     0, 0, 0, 0, 0, 0, 0, 0, 0, 0, 0, 0, 0, 0, 0, 0,
     0, 0, 0, 0, 0, 47, 0, 0, 0, 0, 0, 0, 0, 0, 0, 0,
     0, 0, 0, 0, 0, 0, 0, 0, 0, 0, 0, 0, 0, 0, 0, 0,
     0, 0, 0, 0, 0, 0, 0, 0, 0, 0, 0, 0, 0, 0, 0, 0,
     0, 0, 0, 0, 0, 0, 0, 0, 0, 0, 0, 0, 0, 0, 0, 0,
     0, 0, 0, 0, 0, 0, 0, 0, 0, 0, 0, 0, 0, 0, 0, 0]"

definition s_shiftMap :: "u8 list" where
  "s_shiftMap = [
     0, 27, 33, 64, 35, 36, 37, 94, 38, 42, 40, 41, 95, 43, 8, 9,
     81, 87, 69, 82, 84, 89, 85, 73, 79, 80, 123, 125, 10, 0, 65, 83,
     68, 70, 71, 72, 74, 75, 76, 58, 34, 96, 0, 124, 90, 88, 67, 86,
     66, 78, 77, 60, 62, 63, 0, 42, 0, 32, 0, 0, 0, 0, 0, 0,
     0, 0, 0, 0, 0, 0, 0, 55, 56, 57, 45, 52, 53, 54, 43, 49,
     50, 51, 48, 46, 0, 0, 0, 0, 0, 0, 0, 0, 0, 0, 0, 0,
     0, 0, 0, 0, 0, 0, 0, 0, 0, 0, 0, 0, 0, 0, 0, 0,
     0, 0, 0, 0, 0, 0, 0, 0, 0, 0, 0, 0, 0, 0, 0, 0,
     0, 0, 0, 0, 0, 0, 0, 0, 0, 0, 0, 0, 0, 0, 0, 0,
     0, 0, 0, 0, 0, 0, 0, 0, 0, 0, 0, 0, 10, 0, 0, 0,
     0, 0, 0, 0, 0, 0, 0, 0, 0, 0, 0, 0, 0, 0, 0, 0,
     0, 0, 0, 0, 0, 47, 0, 0, 0, 0, 0, 0, 0, 0, 0, 0,
     0, 0, 0, 0, 0, 0, 0, 0, 0, 0, 0, 0, 0, 0, 0, 0,
     0, 0, 0, 0, 0, 0, 0, 0, 0, 0, 0, 0, 0, 0, 0, 0,
     0, 0, 0, 0, 0, 0, 0, 0, 0, 0, 0, 0, 0, 0, 0, 0,
     0, 0, 0, 0, 0, 0, 0, 0, 0, 0, 0, 0, 0, 0, 0, 0]"

definition s_numMap :: "u8 list" where
  "s_numMap = [55, 56, 57, 45, 52, 53, 54, 43, 49, 50, 51, 48, 46]"

subsection \<open>State and operations\<close>

record keyboard =
  s_actions :: "key_action list"
  s_shift :: u32
  s_lastCode :: u8

definition keyboard_boot :: keyboard where
  "keyboard_boot = \<lparr>s_actions = replicate 256 RegularKey, s_shift = 0, s_lastCode = 0\<rparr>"

definition keyboard_init :: "keyboard \<Rightarrow> keyboard" where
  "keyboard_init k = k\<lparr>s_actions := InitActionsTable (s_actions k)\<rparr>"

definition shift_flag :: "nat \<Rightarrow> u32 option" where
  "shift_flag scanCode =
     (if scanCode = 0x2A \<or> scanCode = 0x36 then Some SF_Shift
      else if scanCode = 0x1D then Some SF_Ctrl
      else if scanCode = 0x38 then Some SF_Alt
      else None)"

definition ProcessShift :: "nat \<Rightarrow> bool \<Rightarrow> keyboard \<Rightarrow> keyboard" where
  "ProcessShift scanCode isBreak k =
     (case shift_flag scanCode of
        None \<Rightarrow> k
      | Some flag \<Rightarrow> k\<lparr>s_shift := (if isBreak then flag_remove (s_shift k) flag else flag_add (s_shift k) flag)\<rparr>)"

definition ProcessLock :: "nat \<Rightarrow> bool \<Rightarrow> keyboard \<Rightarrow> keyboard" where
  "ProcessLock scanCode isBreak k =
     (if isBreak then k
      else if scanCode = 0x3A then k\<lparr>s_shift := flag_xor (s_shift k) SF_Caps\<rparr>
      else if scanCode = 0x45 then k\<lparr>s_shift := flag_xor (s_shift k) SF_Num\<rparr>
      else if scanCode = 0x46 then k\<lparr>s_shift := flag_xor (s_shift k) SF_Scroll\<rparr>
      else k)"

text \<open>Reading behind the table of the number pad is a fault.\<close>

definition ProcessPad :: "nat \<Rightarrow> bool \<Rightarrow> keyboard \<Rightarrow> fault + int32" where
  "ProcessPad scanCode isBreak k =
     (if isBreak \<or> \<not> flag_is_set (s_shift k) SF_Num then Inr (- 1)
      else let index = scanCode - 0x47
           in if scanCode < 0x47 \<or> index > length s_numMap then Inr (- 1)
              else if index = length s_numMap then Inl OutOfBounds
              else Inr (scast (s_numMap ! index)))"

definition ProcessRegular :: "nat \<Rightarrow> keyboard \<Rightarrow> int32" where
  "ProcessRegular scanCode k =
     (if has_any (s_shift k) (flag_or SF_Alt SF_Ctrl) then - 1
      else let rval = scast ((if flag_is_set (s_shift k) SF_Shift then s_shiftMap else s_normalMap) ! scanCode);
               rval = (if flag_is_set (s_shift k) SF_Caps then
                         if 65 \<le>s rval \<and> rval \<le>s 90 then rval + 0x20
                         else if 97 \<le>s rval \<and> rval \<le>s 122 then rval - 0x20
                         else rval
                       else rval)
           in if rval \<noteq> 0 then rval else - 1)"

text \<open>The switch behind the label ''recheck''; a break code goes round once, without its top bit.\<close>

function process_action :: "nat \<Rightarrow> bool \<Rightarrow> keyboard \<Rightarrow> fault + (int32 \<times> keyboard)" where
  "process_action scanCode isBreak k =
     (case s_actions k ! scanCode of
        RegularKey \<Rightarrow>
          if flag_is_set (s_shift k) SF_Extend then
            Inr (if scanCode = 0x1C \<and> \<not> isBreak then 10 else - 1,
                 k\<lparr>s_lastCode := 0, s_shift := flag_remove (s_shift k) SF_Extend\<rparr>)
          else if isBreak then Inr (- 1, k)
          else Inr (ProcessRegular scanCode k, k)
      | PadKey \<Rightarrow> bindf (ProcessPad scanCode isBreak k) (\<lambda>c. Inr (c, k))
      | ControlKey \<Rightarrow> Inr (- 1, k)
      | ShiftKey \<Rightarrow> Inr (- 1, ProcessShift scanCode isBreak k)
      | LockKey \<Rightarrow> Inr (- 1, ProcessLock scanCode isBreak k)
      | IgnoreKey \<Rightarrow>
          if bit scanCode 7 then process_action (unset_bit 7 scanCode) True k
          else Inr (- 1, k)
      | ExtendKey \<Rightarrow> Inr (- 1, k\<lparr>s_lastCode := of_nat scanCode, s_shift := flag_add (s_shift k) SF_Extend\<rparr>))"
  by pat_completeness auto
termination
proof (relation "measure (\<lambda>(c, _). if bit c 7 then 1 else 0)")
  fix c :: nat and b :: bool and k :: keyboard
  assume "bit c 7"
  then show "((unset_bit 7 c, True, k), c, b, k) \<in> measure (\<lambda>(c, _). if bit c 7 then 1 else 0)"
    by (simp add: bit_unset_bit_iff)
qed simp

declare process_action.simps [simp del]

definition ProcessScanCode :: "u8 \<Rightarrow> keyboard \<Rightarrow> fault + (int32 \<times> keyboard)" where
  "ProcessScanCode scanCode k = process_action (unat scanCode) False k"

text \<open>The status and data ports deliver a byte each.\<close>

definition kbd_getchar :: "u8 \<Rightarrow> u8 \<Rightarrow> keyboard \<Rightarrow> fault + (int32 \<times> keyboard)" where
  "kbd_getchar status data k =
     (if status AND 0x01 = 0 then Inr (- 1, k) else ProcessScanCode data k)"

fun type_codes :: "u8 list \<Rightarrow> keyboard \<Rightarrow> fault + (int32 list \<times> keyboard)" where
  "type_codes [] k = Inr ([], k)"
| "type_codes (c # cs) k =
     bindf (ProcessScanCode c k) (\<lambda>(r, k). bindf (type_codes cs k) (\<lambda>(rs, k). Inr (r # rs, k)))"

subsection \<open>The action table\<close>

definition key_of :: "nat \<Rightarrow> key_action" where
  "key_of c = (case map_of special_keys c of None \<Rightarrow> if bit c 7 then IgnoreKey else RegularKey | Some a \<Rightarrow> a)"

lemma foldl_update:
  "distinct (map fst us) \<Longrightarrow> c < length t \<Longrightarrow>
   foldl (\<lambda>t (i, a). t[i := a]) t us ! c = (case map_of us c of None \<Rightarrow> t ! c | Some a \<Rightarrow> a)"
proof (induction us arbitrary: t)
  case (Cons u us)
  obtain i a where u: "u = (i, a)" by (cases u)
  have "map_of us i = None" using Cons.prems(1) u by (simp add: map_of_eq_None_iff)
  then show ?case using Cons u by (auto simp: nth_list_update split: option.split)
qed simp

lemma bit7_and: "(n :: nat) AND 128 = 0 \<longleftrightarrow> \<not> bit n 7"
proof -
  have "(128 :: nat) = 2 ^ 7" by simp
  then show ?thesis by (simp only: and_exp_eq_0_iff_not_bit)
qed

lemma init_actions: "c < 256 \<Longrightarrow> InitActionsTable t ! c = key_of c"
proof -
  assume c: "c < 256"
  have d: "distinct (map fst special_keys)" by (simp add: special_keys_def)
  have z: "map_of special_keys 0 \<noteq> None" by (simp add: special_keys_def)
  show ?thesis
    unfolding InitActionsTable_def using c z
    by (subst foldl_update [OF d]) (auto simp: key_of_def bit7_and split: option.split simp flip: neq0_conv)
qed

lemma key_of_cases:
  "key_of n = ShiftKey \<longleftrightarrow> n \<in> {0x1D, 0x2A, 0x36, 0x38}"
  "key_of n = LockKey \<longleftrightarrow> n \<in> {0x3A, 0x45, 0x46}"
  "key_of n = ExtendKey \<longleftrightarrow> n \<in> {0xE0, 0xE1}"
  "key_of n = PadKey \<longleftrightarrow> n \<in> {0x47, 0x48, 0x49, 0x4A, 0x4B, 0x4C, 0x4D, 0x4E, 0x4F, 0x50, 0x51, 0x52, 0x53}"
  by (auto simp: key_of_def special_keys_def split: if_splits)

lemma key_of_high: "bit n 7 \<Longrightarrow> n \<notin> {0xE0, 0xE1} \<Longrightarrow> key_of n = IgnoreKey"
  by (auto simp: key_of_def special_keys_def split: if_splits)

subsection \<open>Flags\<close>

lemma flag_is_set_bit: "n < 32 \<Longrightarrow> flag_is_set v (2 ^ n) \<longleftrightarrow> bit v n" for v :: u32
  by (auto simp: flag_is_set_def has_all_bits bit_exp_iff)

lemma SF_exp: "SF_Shift = 2 ^ 0" "SF_Ctrl = 2 ^ 1" "SF_Alt = 2 ^ 2" "SF_Caps = 2 ^ 8" "SF_Num = 2 ^ 9"
  "SF_Scroll = 2 ^ 10" "SF_Extend = 2 ^ 15"
  by (simp_all add: SF_defs)

lemma flag_bits:
  "n < 32 \<Longrightarrow> j < 32 \<Longrightarrow> bit (flag_add v (2 ^ n)) j \<longleftrightarrow> bit v j \<or> j = n"
  "n < 32 \<Longrightarrow> j < 32 \<Longrightarrow> bit (flag_remove v (2 ^ n)) j \<longleftrightarrow> bit v j \<and> j \<noteq> n"
  "n < 32 \<Longrightarrow> j < 32 \<Longrightarrow> bit (flag_xor v (2 ^ n)) j \<longleftrightarrow> bit v j \<noteq> (j = n)" for v :: u32
  by (auto simp: flag_defs bit_simps)

lemma SF_bits:
  fixes v :: u32
  assumes "j < 32"
  shows "bit (flag_add v SF_Shift) j \<longleftrightarrow> bit v j \<or> j = 0"
    and "bit (flag_remove v SF_Shift) j \<longleftrightarrow> bit v j \<and> j \<noteq> 0"
    and "bit (flag_xor v SF_Shift) j \<longleftrightarrow> bit v j \<noteq> (j = 0)"
    and "bit (flag_add v SF_Ctrl) j \<longleftrightarrow> bit v j \<or> j = 1"
    and "bit (flag_remove v SF_Ctrl) j \<longleftrightarrow> bit v j \<and> j \<noteq> 1"
    and "bit (flag_xor v SF_Ctrl) j \<longleftrightarrow> bit v j \<noteq> (j = 1)"
    and "bit (flag_add v SF_Alt) j \<longleftrightarrow> bit v j \<or> j = 2"
    and "bit (flag_remove v SF_Alt) j \<longleftrightarrow> bit v j \<and> j \<noteq> 2"
    and "bit (flag_xor v SF_Alt) j \<longleftrightarrow> bit v j \<noteq> (j = 2)"
    and "bit (flag_add v SF_Caps) j \<longleftrightarrow> bit v j \<or> j = 8"
    and "bit (flag_remove v SF_Caps) j \<longleftrightarrow> bit v j \<and> j \<noteq> 8"
    and "bit (flag_xor v SF_Caps) j \<longleftrightarrow> bit v j \<noteq> (j = 8)"
    and "bit (flag_add v SF_Num) j \<longleftrightarrow> bit v j \<or> j = 9"
    and "bit (flag_remove v SF_Num) j \<longleftrightarrow> bit v j \<and> j \<noteq> 9"
    and "bit (flag_xor v SF_Num) j \<longleftrightarrow> bit v j \<noteq> (j = 9)"
    and "bit (flag_add v SF_Scroll) j \<longleftrightarrow> bit v j \<or> j = 10"
    and "bit (flag_remove v SF_Scroll) j \<longleftrightarrow> bit v j \<and> j \<noteq> 10"
    and "bit (flag_xor v SF_Scroll) j \<longleftrightarrow> bit v j \<noteq> (j = 10)"
    and "bit (flag_add v SF_Extend) j \<longleftrightarrow> bit v j \<or> j = 15"
    and "bit (flag_remove v SF_Extend) j \<longleftrightarrow> bit v j \<and> j \<noteq> 15"
    and "bit (flag_xor v SF_Extend) j \<longleftrightarrow> bit v j \<noteq> (j = 15)"
  unfolding SF_exp using assms by (rule flag_bits [rotated]; simp)+

lemma SF_set:
  fixes v :: u32
  shows "flag_is_set v SF_Shift \<longleftrightarrow> bit v 0"
    and "flag_is_set v SF_Ctrl \<longleftrightarrow> bit v 1"
    and "flag_is_set v SF_Alt \<longleftrightarrow> bit v 2"
    and "flag_is_set v SF_Caps \<longleftrightarrow> bit v 8"
    and "flag_is_set v SF_Num \<longleftrightarrow> bit v 9"
    and "flag_is_set v SF_Scroll \<longleftrightarrow> bit v 10"
    and "flag_is_set v SF_Extend \<longleftrightarrow> bit v 15"
  unfolding SF_exp by (rule flag_is_set_bit; simp)+

text \<open>What one key does to the flags when it goes down or up.\<close>

definition flag_effect :: "nat \<Rightarrow> bool \<Rightarrow> u32 \<Rightarrow> u32 \<Rightarrow> bool" where
  "flag_effect n brk v w \<longleftrightarrow>
     bit w 0 = (if n \<in> {0x2A, 0x36} then \<not> brk else bit v 0)
     \<and> bit w 1 = (if n = 0x1D then \<not> brk else bit v 1)
     \<and> bit w 2 = (if n = 0x38 then \<not> brk else bit v 2)
     \<and> bit w 8 = (bit v 8 \<noteq> (n = 0x3A \<and> \<not> brk))
     \<and> bit w 9 = (bit v 9 \<noteq> (n = 0x45 \<and> \<not> brk))
     \<and> bit w 10 = (bit v 10 \<noteq> (n = 0x46 \<and> \<not> brk))"

definition kbd_ok :: "keyboard \<Rightarrow> bool" where
  "kbd_ok k \<longleftrightarrow> (\<forall>c<256. s_actions k ! c = key_of c)"

lemma pad_no_fault: "key_of n = PadKey \<Longrightarrow> \<exists>r. ProcessPad n brk k = Inr r"
  unfolding key_of_cases by (auto simp: ProcessPad_def s_numMap_def)

lemma key_effect:
  assumes "kbd_ok k" "n < 256" "n \<in> {0xE0, 0xE1} \<or> \<not> bit n 7"
  shows "\<exists>r k'. process_action n brk k = Inr (r, k') \<and> kbd_ok k' \<and> flag_effect n brk (s_shift k) (s_shift k')"
proof -
  have a: "s_actions k ! n = key_of n" using assms(1,2) by (simp add: kbd_ok_def)
  have same: "flag_effect n brk v v" if "key_of n \<notin> {ShiftKey, LockKey}" for v
    using that key_of_cases(1,2) [of n] by (auto simp: flag_effect_def)
  have ext: "flag_effect n brk v (flag_remove v SF_Extend)" "flag_effect n brk v (flag_add v SF_Extend)"
    if "key_of n \<notin> {ShiftKey, LockKey}" for v
    using same [OF that, of v] by (simp_all add: flag_effect_def SF_bits)
  have ok: "kbd_ok (k\<lparr>s_lastCode := l, s_shift := v\<rparr>)" for l v using assms(1) by (simp add: kbd_ok_def)
  show ?thesis
  proof (cases "key_of n")
    case RegularKey
    then have "flag_effect n brk (s_shift k) (flag_remove (s_shift k) SF_Extend)" "flag_effect n brk (s_shift k) (s_shift k)"
      using ext(1) same by simp_all
    then show ?thesis
      using RegularKey assms(1) ok by (cases brk) (subst process_action.simps, simp add: a)+
  next
    case PadKey
    then obtain r where "ProcessPad n brk k = Inr r" using pad_no_fault by blast
    moreover have "flag_effect n brk (s_shift k) (s_shift k)" using PadKey same by simp
    ultimately show ?thesis using PadKey assms(1) by (subst process_action.simps) (simp add: a)
  next
    case ControlKey
    then have "flag_effect n brk (s_shift k) (s_shift k)" using same by simp
    then show ?thesis using ControlKey assms(1) by (subst process_action.simps) (simp add: a)
  next
    case ShiftKey
    then have "n \<in> {0x1D, 0x2A, 0x36, 0x38}" by (simp add: key_of_cases)
    then have "flag_effect n brk (s_shift k) (s_shift (ProcessShift n brk k))"
      by (auto simp: ProcessShift_def shift_flag_def flag_effect_def SF_bits)
    moreover have "kbd_ok (ProcessShift n brk k)" using assms(1) by (simp add: ProcessShift_def kbd_ok_def split: option.split)
    ultimately show ?thesis using ShiftKey by (subst process_action.simps) (simp add: a)
  next
    case LockKey
    then have "n \<in> {0x3A, 0x45, 0x46}" by (simp add: key_of_cases)
    then have "flag_effect n brk (s_shift k) (s_shift (ProcessLock n brk k))"
      by (auto simp: ProcessLock_def flag_effect_def SF_bits)
    moreover have "kbd_ok (ProcessLock n brk k)" using assms(1) by (simp add: ProcessLock_def kbd_ok_def)
    ultimately show ?thesis using LockKey by (subst process_action.simps) (simp add: a)
  next
    case ExtendKey
    then have "flag_effect n brk (s_shift k) (flag_add (s_shift k) SF_Extend)" using ext(2) by simp
    then show ?thesis using ExtendKey ok by (subst process_action.simps) (simp add: a)
  next
    case IgnoreKey
    then have "\<not> bit n 7" using assms(3) key_of_cases(3) [of n] by auto
    moreover have "flag_effect n brk (s_shift k) (s_shift k)" using IgnoreKey same by simp
    ultimately show ?thesis using IgnoreKey assms(1) by (subst process_action.simps) (simp add: a)
  qed
qed

text \<open>The key a scan code is about, and whether it was released.\<close>

definition code_key :: "u8 \<Rightarrow> nat" where
  "code_key c = (if c \<in> {0xE0, 0xE1} then unat c else unset_bit 7 (unat c))"

definition code_break :: "u8 \<Rightarrow> bool" where
  "code_break c \<longleftrightarrow> bit (unat c) 7 \<and> c \<notin> {0xE0, 0xE1}"

lemma unset_bit_idle: "\<not> bit n 7 \<Longrightarrow> unset_bit 7 n = n" for n :: nat
  by (rule bit_eqI) (auto simp: bit_simps)

lemma scan_make:
  "c \<in> {0xE0, 0xE1} \<or> \<not> bit (unat c) 7 \<Longrightarrow>
   code_key c = unat c \<and> \<not> code_break c \<and> ProcessScanCode c k = process_action (unat c) False k"
  by (auto simp: code_key_def code_break_def unset_bit_idle ProcessScanCode_def)

lemma scan_break:
  assumes "kbd_ok k" "bit (unat c) 7" "c \<notin> {0xE0, 0xE1}"
  shows "code_key c < 256" "\<not> bit (code_key c) 7" "code_break c"
    "ProcessScanCode c k = process_action (code_key c) True k"
proof -
  let ?n = "unset_bit 7 (unat c)"
  have c: "unat c < 256" using unat_bounded [of c] by simp
  have ne: "c \<in> {0xE0, 0xE1} \<longleftrightarrow> unat c \<in> {0xE0, 0xE1}" by (auto simp: word_unat_eq_iff)
  have key: "code_key c = ?n" using assms(3) by (simp add: code_key_def)
  have "unset_bit 7 (int (unat c)) \<le> int (unat c)" by (rule unset_bit_less_eq)
  then have "?n \<le> unat c" unfolding of_nat_unset_bit_eq [symmetric] by linarith
  then show "code_key c < 256" using c key by simp
  have "key_of (unat c) = IgnoreKey" using assms ne by (intro key_of_high) auto
  then show "ProcessScanCode c k = process_action (code_key c) True k"
    unfolding ProcessScanCode_def key using assms c
    by (subst process_action.simps) (simp add: kbd_ok_def)
  show "\<not> bit (code_key c) 7" by (simp add: key bit_unset_bit_iff)
  show "code_break c" using assms by (simp add: code_break_def)
qed

lemma code_effect:
  assumes "kbd_ok k"
  shows "\<exists>r k'. ProcessScanCode c k = Inr (r, k') \<and> kbd_ok k'
    \<and> flag_effect (code_key c) (code_break c) (s_shift k) (s_shift k')"
proof (cases "bit (unat c) 7 \<and> c \<notin> {0xE0, 0xE1}")
  case False
  then have c: "c \<in> {0xE0, 0xE1} \<or> \<not> bit (unat c) 7" by blast
  then have "unat c \<in> {0xE0, 0xE1} \<or> \<not> bit (unat c) 7" by auto
  then show ?thesis using key_effect [OF assms, of "unat c" False] scan_make [OF c] unat_bounded [of c] by simp
next
  case True
  then show ?thesis using key_effect [OF assms, of "code_key c" True] scan_break [OF assms] by auto
qed

lemma init_ok: "kbd_ok (keyboard_init k)"
  by (simp add: kbd_ok_def keyboard_init_def init_actions)

subsection \<open>Properties\<close>

text \<open>Whether the last scan code of one of the keys K pressed it.\<close>

definition held :: "nat set \<Rightarrow> u8 list \<Rightarrow> bool" where
  "held K cs = foldl (\<lambda>h c. if code_key c \<in> K then \<not> code_break c else h) False cs"

lemma held_snoc: "held K (cs @ [c]) = (if code_key c \<in> K then \<not> code_break c else held K cs)"
  by (simp add: held_def)

text \<open>The number of times the key n was pressed.\<close>

definition presses :: "nat \<Rightarrow> u8 list \<Rightarrow> nat" where
  "presses n cs = length (filter (\<lambda>c. code_key c = n \<and> \<not> code_break c) cs)"

lemma presses_snoc: "presses n (cs @ [c]) = presses n cs + of_bool (code_key c = n \<and> \<not> code_break c)"
  by (simp add: presses_def)

lemma type_codes_append:
  "type_codes cs k = Inr (rs, k') \<Longrightarrow> type_codes (cs @ ds) k
     = bindf (type_codes ds k') (\<lambda>(rs', k). Inr (rs @ rs', k))"
proof (induction cs arbitrary: k rs)
  case Nil
  then show ?case by (cases "type_codes ds k'") auto
next
  case (Cons c cs)
  then obtain r k1 rs1 where r: "ProcessScanCode c k = Inr (r, k1)" "type_codes cs k1 = Inr (rs1, k')" "rs = r # rs1"
    by auto
  then show ?case using Cons.IH [OF r(2)] by (cases "type_codes ds k'") auto
qed


lemma alt_ctrl: "has_any v (flag_or SF_Alt SF_Ctrl) \<longleftrightarrow> bit v 1 \<or> bit v 2" for v :: u32
proof -
  have "bit (flag_or SF_Alt SF_Ctrl) n \<longleftrightarrow> n < 32 \<and> (n = 2 \<or> n = 1)" for n
    unfolding flag_or_def SF_exp bit_or_iff bit_exp_iff by auto
  then show ?thesis by (auto simp: has_any_bits)
qed

lemma scast_byte_0: "(scast ch :: int32) = 0 \<longleftrightarrow> ch = 0" for ch :: u8
proof
  assume "(scast ch :: int32) = 0"
  then have "sint (scast ch :: int32) = 0" by simp
  then have "sint ch = 0" by (simp add: sint_up_scast is_up)
  then show "ch = 0" by (intro signed_word_eqI) simp
qed simp

text \<open>
  With no control, alt or caps lock in effect, the press of a regular key returns its
  character from the normal map, or from the shift map under shift; the release returns nothing; and
  neither changes the state.
\<close>

theorem regular_key:
  assumes "kbd_ok k" "key_of (code_key c) = RegularKey"
    and "\<not> flag_is_set (s_shift k) SF_Extend" "\<not> flag_is_set (s_shift k) SF_Alt"
    and "\<not> flag_is_set (s_shift k) SF_Ctrl" "\<not> flag_is_set (s_shift k) SF_Caps"
    and "ch = (if flag_is_set (s_shift k) SF_Shift then s_shiftMap else s_normalMap) ! code_key c"
  shows "ProcessScanCode c k = Inr (if code_break c \<or> ch = 0 then - 1 else scast ch, k)"
proof (cases "bit (unat c) 7 \<and> c \<notin> {0xE0, 0xE1}")
  case True
  then show ?thesis
    using scan_break [OF assms(1)] assms(1,2,3)
    by (subst scan_break(4)) (auto simp: process_action.simps kbd_ok_def)
next
  case False
  then have m: "code_key c = unat c" "\<not> code_break c" "ProcessScanCode c k = process_action (unat c) False k"
    using scan_make [of c k] by blast+
  have "s_actions k ! unat c = RegularKey"
    using assms(1,2) m(1) unat_bounded [of c] by (simp add: kbd_ok_def)
  moreover have "ProcessRegular (unat c) k = (if ch = 0 then - 1 else scast ch)"
    using assms(4-7) m(1) by (simp add: ProcessRegular_def alt_ctrl SF_set scast_byte_0)
  ultimately show ?thesis using assms(3) m by (simp add: process_action.simps)
qed

theorem regular_key_witness:
  "ProcessScanCode 0x1E (keyboard_init keyboard_boot) = Inr (97, keyboard_init keyboard_boot)"
proof -
  have c: "code_key 0x1E = 0x1E" "\<not> code_break 0x1E"
    by (simp_all add: code_key_def code_break_def unset_bit_idle bit_iff_odd)
  have k: "key_of 0x1E = RegularKey" by (simp add: key_of_def special_keys_def bit_iff_odd)
  show ?thesis
    using regular_key [of "keyboard_init keyboard_boot" "0x1E" "97"] init_ok [of keyboard_boot] c k
    by (simp add: keyboard_init_def keyboard_boot_def SF_set s_normalMap_def)
qed

subsection \<open>Divergences\<close>

text \<open>
  The comment of the flag Extend says that it is removed after the next scan code. Only a regular
  key removes it: press and release of an extended arrow key leave it set, and the next letter is lost.
\<close>

lemma pad_quiet:
  assumes "kbd_ok k" "key_of (code_key c) = PadKey" "\<not> bit (s_shift k) 9"
  shows "ProcessScanCode c k = Inr (- 1, k)"
proof (cases "bit (unat c) 7 \<and> c \<notin> {0xE0, 0xE1}")
  case True
  then show ?thesis using scan_break [OF assms(1)] assms
    by (subst scan_break(4)) (auto simp: process_action.simps kbd_ok_def ProcessPad_def)
next
  case False
  then have "code_key c = unat c" "ProcessScanCode c k = process_action (unat c) False k"
    using scan_make [of c k] by blast+
  then show ?thesis using assms unat_bounded [of c]
    by (simp add: process_action.simps kbd_ok_def ProcessPad_def SF_set)
qed

theorem extended_key_swallows_letter:
  "\<exists>k. type_codes [0xE0, 0x48, 0xE0, 0xC8, 0x1E] (keyboard_init keyboard_boot) = Inr ([- 1, - 1, - 1, - 1, - 1], k)"
proof -
  let ?k = "keyboard_init keyboard_boot" and ?x = "\<lambda>v. v\<lparr>s_lastCode := 0xE0, s_shift := flag_add (s_shift v) SF_Extend\<rparr>"
  have ext: "ProcessScanCode 0xE0 k = Inr (- 1, ?x k)" if "kbd_ok k" for k
    using that by (simp add: ProcessScanCode_def process_action.simps kbd_ok_def key_of_def special_keys_def)
  have keys: "key_of (code_key 0x48) = PadKey" "key_of (code_key 0xC8) = PadKey"
    by (simp_all add: key_of_cases code_key_def unset_bit_eq bit_iff_odd)
  have letter: "ProcessScanCode 0x1E k = Inr (- 1, k\<lparr>s_lastCode := 0, s_shift := flag_remove (s_shift k) SF_Extend\<rparr>)"
    if "kbd_ok k" "bit (s_shift k) 15" for k
    using that
    by (simp add: ProcessScanCode_def process_action.simps kbd_ok_def SF_set key_of_def special_keys_def bit_iff_odd)
  have ok: "kbd_ok ?k" "kbd_ok (?x ?k)" "kbd_ok (?x (?x ?k))" using init_ok by (simp_all add: kbd_ok_def)
  have "\<not> bit (s_shift (?x ?k)) 9" "\<not> bit (s_shift (?x (?x ?k))) 9" "bit (s_shift (?x (?x ?k))) 15"
    by (simp_all add: SF_bits keyboard_init_def keyboard_boot_def)
  then show ?thesis
    using ok ext [OF ok(1)] ext [OF ok(2)] pad_quiet [OF ok(2) keys(1)] pad_quiet [OF ok(3) keys(2)] letter [OF ok(3)]
    by simp
qed

text \<open>
  The bound of ProcessPad compares with the size of the table and not with its last index: one
  behind the table is read. The table of actions sends no such code there.
\<close>

theorem pad_bound_off_by_one: "ProcessPad 0x54 False (keyboard_boot\<lparr>s_shift := SF_Num\<rparr>) = Inl OutOfBounds"
  by (simp add: ProcessPad_def s_numMap_def flag_is_set_def has_all_bits)

end
