(* ===== verification/Vga.thy ===== *)
theory Vga
  imports LibkString Keyboard
begin

text \<open>
  kernel/arch/x86/dev/vga.cpp: the text terminal. The screen is the 2000 cells of video memory at
  0xB8000, two bytes each; the cursor is a variable of the driver that is copied to the registers of the
  CRT controller. The state is the memory, the cursor and the trace of port writes.
\<close>

subsection \<open>Constants\<close>

definition CRT_MEM :: addr where "CRT_MEM = 0x000B8000"
definition CRT_PORT :: u16 where "CRT_PORT = 0x03D4"
definition CRT_CURSOR_HI :: u8 where "CRT_CURSOR_HI = 0x0E"
definition CRT_CURSOR_LO :: u8 where "CRT_CURSOR_LO = 0x0F"
definition CRT_WIDTH :: u32 where "CRT_WIDTH = 80"
definition CRT_HEIGHT :: u32 where "CRT_HEIGHT = 25"
definition CRT_CELL_COUNT :: u32 where "CRT_CELL_COUNT = CRT_WIDTH * CRT_HEIGHT"

definition VGA_COLOR_BLACK :: u8 where "VGA_COLOR_BLACK = 0"
definition VGA_COLOR_LIGHT_GREY :: u8 where "VGA_COLOR_LIGHT_GREY = 7"

text \<open>The type char is signed: MakeEntry promotes it to int.\<close>

definition MakeEntry :: "u8 \<Rightarrow> u8 \<Rightarrow> u16" where
  "MakeEntry chr color = ucast ((scast chr :: int32) OR push_bit 8 (ucast color))"

definition MakeColor :: "u8 \<Rightarrow> u8 \<Rightarrow> u8" where
  "MakeColor foreground background = push_bit 4 (background AND 0x0F) OR (foreground AND 0x0F)"

definition DEFAULT_COLOR :: u8 where "DEFAULT_COLOR = MakeColor VGA_COLOR_LIGHT_GREY VGA_COLOR_BLACK"
definition BLANK_ENTRY :: u16 where "BLANK_ENTRY = MakeEntry 32 DEFAULT_COLOR"

lemmas crt_defs = CRT_WIDTH_def CRT_HEIGHT_def CRT_CELL_COUNT_def

lemma cell_count: "CRT_CELL_COUNT = 2000" by (simp add: crt_defs)

subsection \<open>Cells\<close>

definition crt_addr :: "u32 \<Rightarrow> addr" where "crt_addr i = CRT_MEM + 2 * i"

definition crt_get :: "u32 \<Rightarrow> mem \<Rightarrow> u16" where
  "crt_get i m = ucast (m (crt_addr i)) OR push_bit 8 (ucast (m (crt_addr i + 1)))"

definition crt_put :: "u32 \<Rightarrow> u16 \<Rightarrow> mem \<Rightarrow> mem" where
  "crt_put i v m = m(crt_addr i := ucast v, crt_addr i + 1 := ucast (drop_bit 8 v))"

fun crt_fill :: "u32 \<Rightarrow> u32 \<Rightarrow> nat \<Rightarrow> mem \<Rightarrow> mem" where
  "crt_fill start i 0 m = m"
| "crt_fill start i (Suc n) m = crt_fill start (i + 1) n (crt_put (start + i) BLANK_ENTRY m)"

subsection \<open>Driver\<close>

record vga =
  vga_mem :: mem
  s_cursorPos :: u32
  vga_out :: "(u16 \<times> u8) list"

definition vga_boot :: "mem \<Rightarrow> vga" where
  "vga_boot m = \<lparr>vga_mem = m, s_cursorPos = 0, vga_out = []\<rparr>"

definition crt_outb :: "u16 \<Rightarrow> u8 \<Rightarrow> vga \<Rightarrow> vga" where
  "crt_outb port v s = s\<lparr>vga_out := vga_out s @ [(port, v)]\<rparr>"

definition SetCRTRegister :: "u8 \<Rightarrow> u8 \<Rightarrow> vga \<Rightarrow> vga" where
  "SetCRTRegister reg v s = crt_outb (CRT_PORT + 1) v (crt_outb CRT_PORT reg s)"

text \<open>The registers of the controller answer the reads of the data port.\<close>

definition GetCRTRegister :: "(u8 \<Rightarrow> u8) \<Rightarrow> u8 \<Rightarrow> vga \<Rightarrow> u8 \<times> vga" where
  "GetCRTRegister regs reg s = (regs reg, crt_outb CRT_PORT reg s)"

definition ReadCursor :: "(u8 \<Rightarrow> u8) \<Rightarrow> vga \<Rightarrow> vga" where
  "ReadCursor regs s =
     (let (hi, s) = GetCRTRegister regs CRT_CURSOR_HI s;
          (lo, s) = GetCRTRegister regs CRT_CURSOR_LO s;
          pos = push_bit 8 (ucast hi) OR ucast lo
      in s\<lparr>s_cursorPos := (if CRT_CELL_COUNT \<le> pos then 0 else pos)\<rparr>)"

definition UpdateCursor :: "vga \<Rightarrow> vga" where
  "UpdateCursor s =
     SetCRTRegister CRT_CURSOR_HI (ucast (drop_bit 8 (s_cursorPos s) AND 0xFF))
       (SetCRTRegister CRT_CURSOR_LO (ucast (s_cursorPos s AND 0xFF)) s)"

definition CursorRow :: "vga \<Rightarrow> u32" where "CursorRow s = s_cursorPos s div CRT_WIDTH"
definition CursorCol :: "vga \<Rightarrow> u32" where "CursorCol s = s_cursorPos s mod CRT_WIDTH"

definition Scroll :: "u32 \<Rightarrow> mem \<Rightarrow> mem" where
  "Scroll scroll_lines m =
     (if scroll_lines = 0 then m
      else let offset = CRT_WIDTH * scroll_lines;
               m = memcpy (crt_addr 0) (crt_addr offset) (push_bit 1 (CRT_CELL_COUNT - offset)) m
           in crt_fill (CRT_CELL_COUNT - offset) 0 (nat (sint (scroll_lines * CRT_WIDTH))) m)"

definition terminal_init :: "(u8 \<Rightarrow> u8) \<Rightarrow> vga \<Rightarrow> keyboard \<Rightarrow> vga \<times> keyboard" where
  "terminal_init regs s k = (UpdateCursor (ReadCursor regs s), keyboard_init k)"

definition terminal_clear :: "vga \<Rightarrow> vga" where
  "terminal_clear s =
     UpdateCursor (s\<lparr>s_cursorPos := 0, vga_mem := crt_fill 0 0 (unat CRT_CELL_COUNT) (vga_mem s)\<rparr>)"

function scroll_count :: "u32 \<Rightarrow> u32 \<Rightarrow> u32 \<times> u32" where
  "scroll_count pos r = (if CRT_CELL_COUNT \<le> pos then scroll_count (pos - CRT_WIDTH) (r + 1) else (pos, r))"
  by pat_completeness auto
termination
proof (relation "measure (\<lambda>(pos, _). unat pos)")
  fix pos r :: u32
  assume "CRT_CELL_COUNT \<le> pos"
  then have "2000 \<le> unat pos" by (simp add: cell_count word_le_nat_alt)
  then have "unat (pos - CRT_WIDTH) = unat pos - 80" by (subst unat_sub_noov) (simp_all add: crt_defs)
  with \<open>2000 \<le> unat pos\<close> show "((pos - CRT_WIDTH, r + 1), pos, r) \<in> measure (\<lambda>(pos, _). unat pos)" by simp
qed simp

declare scroll_count.simps [simp del]

definition tab_width :: "u32 \<Rightarrow> u32" where
  "tab_width pos = (let r = pos mod CRT_WIDTH AND 7 in if r = 0 then 8 else r)"

text \<open>The switch of terminal_putchar; None is its early return.\<close>

definition put_cell :: "u8 \<Rightarrow> vga \<Rightarrow> vga option" where
  "put_cell c s =
     (let pos = s_cursorPos s
      in if c = 7 then Some s
         else if c = 8 \<or> c = 127 then
           if pos = 0 then None
           else Some (s\<lparr>s_cursorPos := pos - 1, vga_mem := crt_put (pos - 1) BLANK_ENTRY (vga_mem s)\<rparr>)
         else if c = 9 then
           Some (s\<lparr>s_cursorPos := pos + tab_width pos, vga_mem := crt_fill pos 0 (unat (tab_width pos)) (vga_mem s)\<rparr>)
         else if c = 13 then Some (s\<lparr>s_cursorPos := CursorRow s * CRT_WIDTH\<rparr>)
         else if c = 10 then Some (s\<lparr>s_cursorPos := (CursorRow s + 1) * CRT_WIDTH + CursorCol s\<rparr>)
         else Some (s\<lparr>s_cursorPos := pos + 1, vga_mem := crt_put pos (MakeEntry c DEFAULT_COLOR) (vga_mem s)\<rparr>))"

definition terminal_putchar :: "u8 \<Rightarrow> vga \<Rightarrow> vga" where
  "terminal_putchar c s =
     (case put_cell c s of
        None \<Rightarrow> s
      | Some s \<Rightarrow>
          let (pos, r) = scroll_count (s_cursorPos s) 0
          in UpdateCursor (s\<lparr>s_cursorPos := pos, vga_mem := Scroll r (vga_mem s)\<rparr>))"

function terminal_write_loop :: "addr \<Rightarrow> size32 \<Rightarrow> size32 \<Rightarrow> vga \<Rightarrow> vga" where
  "terminal_write_loop data sz i s =
     (if i < sz then terminal_write_loop data sz (i + 1) (terminal_putchar (vga_mem s (data + i)) s) else s)"
  by pat_completeness auto
termination by (relation "measure (\<lambda>(_, sz, i, _). unat sz - unat i)") (auto intro: loop_up)

declare terminal_write_loop.simps [simp del]

definition terminal_write :: "addr \<Rightarrow> size32 \<Rightarrow> vga \<Rightarrow> vga" where
  "terminal_write data sz s = terminal_write_loop data sz 0 s"

definition terminal_writestr :: "addr \<Rightarrow> vga \<Rightarrow> vga option" where
  "terminal_writestr str s =
     (case strlen str (vga_mem s) of None \<Rightarrow> None | Some n \<Rightarrow> Some (terminal_write str n s))"

text \<open>The digits that terminal_write64 leaves in its buffer, and their output after the prefix.\<close>

definition hex_char :: "u64 \<Rightarrow> u8" where
  "hex_char d = (if 10 \<le> d then ucast d + 55 else ucast d + 48)"

fun hex_digits64 :: "nat \<Rightarrow> u64 \<Rightarrow> u8 list \<Rightarrow> u8 list" where
  "hex_digits64 0 v acc = acc"
| "hex_digits64 (Suc n) v acc = hex_digits64 n (drop_bit 4 v) (hex_char (v AND 0x0F) # acc)"

definition terminal_write64 :: "u64 \<Rightarrow> vga \<Rightarrow> vga" where
  "terminal_write64 v s = foldl (\<lambda>s c. terminal_putchar c s) s ([48, 120] @ hex_digits64 16 v [])"

subsection \<open>Video memory as an array of cells\<close>

lemma crt_addr_unat: "i < 0x4000 \<Longrightarrow> unat (crt_addr i) = 753664 + 2 * unat i \<and> unat (crt_addr i + 1) = 753665 + 2 * unat i"
proof -
  assume "i < 0x4000"
  then have i: "unat i < 16384" by (simp add: word_less_nat_alt)
  then have 2: "unat (2 * i) = 2 * unat i" by (subst unat_mult_lem [THEN iffD1]) simp_all
  then have "unat (crt_addr i) = 753664 + 2 * unat i"
    unfolding crt_addr_def CRT_MEM_def using i by (subst unat_add_noov) simp_all
  then show ?thesis using i by (subst unat_add_noov) simp_all
qed

lemma crt_addr_eq:
  assumes "i < 0x4000" "j < 0x4000"
  shows "crt_addr i = crt_addr j \<longleftrightarrow> i = j" "crt_addr i + 1 = crt_addr j + 1 \<longleftrightarrow> i = j"
    "crt_addr i \<noteq> crt_addr j + 1" "crt_addr i + 1 \<noteq> crt_addr j"
  using crt_addr_unat [OF assms(1)] crt_addr_unat [OF assms(2)] by (simp_all add: word_unat_eq_iff; presburger)+

lemma two_bytes: "ucast (ucast v :: u8) OR push_bit 8 (ucast (ucast (drop_bit 8 v) :: u8)) = (v :: u16)"
  by (rule bit_word_eqI) (auto simp: bit_simps)

lemma crt_get_put:
  "i < 0x4000 \<Longrightarrow> j < 0x4000 \<Longrightarrow> crt_get j (crt_put i v m) = (if j = i then v else crt_get j m)"
  by (auto simp: crt_get_def crt_put_def crt_addr_eq two_bytes)

lemma crt_index:
  assumes "unat (start :: u32) + unat (i :: u32) < n" "n \<le> 16384"
  shows "start + i < 0x4000" "unat (start + i) = unat start + unat i"
proof -
  show "unat (start + i) = unat start + unat i" using assms by (intro unat_add_noov) simp
  with assms show "start + i < 0x4000" by (simp add: word_less_nat_alt)
qed

lemma crt_get_fill:
  assumes "unat start + unat i + n \<le> 16384" "j < 0x4000"
  shows "crt_get j (crt_fill start i n m)
    = (if unat start + unat i \<le> unat j \<and> unat j < unat start + unat i + n then BLANK_ENTRY else crt_get j m)"
  using assms(1)
proof (induction n arbitrary: i m)
  case (Suc n)
  have s: "start + i < 0x4000" "unat (start + i) = unat start + unat i" using Suc.prems crt_index [of start i 16384] by simp_all
  have "unat (i + 1) = unat i + 1" using Suc.prems by (subst unat_add_noov) simp_all
  then show ?case
    using Suc.IH [of "i + 1" "crt_put (start + i) BLANK_ENTRY m"] Suc.prems s assms(2)
    by (auto simp: crt_get_put word_unat_eq_iff)
qed auto

text \<open>The bytes the driver may write: the screen and the eight cells behind it.\<close>

definition in_window :: "addr \<Rightarrow> bool" where
  "in_window q \<longleftrightarrow> 753664 \<le> unat q \<and> unat q < 757680"

lemma crt_put_frame: "i < 2008 \<Longrightarrow> \<not> in_window q \<Longrightarrow> crt_put i v m q = m q"
proof -
  assume a: "i < 2008" "\<not> in_window q"
  then have "unat i < 2008" by (simp add: word_less_nat_alt)
  moreover from this have "i < 0x4000" by (simp add: word_less_nat_alt)
  ultimately have "q \<noteq> crt_addr i" "q \<noteq> crt_addr i + 1" using a(2) crt_addr_unat [of i] by (auto simp: in_window_def)
  then show ?thesis by (simp add: crt_put_def)
qed

lemma crt_fill_frame:
  "unat start + unat i + n \<le> 2008 \<Longrightarrow> \<not> in_window q \<Longrightarrow> crt_fill start i n m q = m q"
proof (induction n arbitrary: i m)
  case (Suc n)
  have "unat (start + i) = unat start + unat i" using Suc.prems crt_index [of start i 2008] by simp
  moreover from this have "start + i < 2008" using Suc.prems by (simp add: word_less_nat_alt)
  moreover have "unat (i + 1) = unat i + 1" using Suc.prems by (subst unat_add_noov) simp_all
  ultimately show ?case using Suc.IH [of "i + 1"] Suc.prems by (simp add: crt_put_frame)
qed simp

lemma scroll_offset:
  assumes "unat l \<le> 25"
  shows "unat (CRT_WIDTH * l) = 80 * unat l" "unat (CRT_CELL_COUNT - CRT_WIDTH * l) = 2000 - 80 * unat l"
    "nat (sint (l * CRT_WIDTH)) = 80 * unat l"
    "unat (push_bit 1 (CRT_CELL_COUNT - CRT_WIDTH * l)) = 2 * (2000 - 80 * unat l)"
proof -
  show o: "unat (CRT_WIDTH * l) = 80 * unat l"
    using assms by (subst unat_mult_lem [THEN iffD1]) (simp_all add: crt_defs)
  show c: "unat (CRT_CELL_COUNT - CRT_WIDTH * l) = 2000 - 80 * unat l"
    using assms o by (subst unat_sub_noov) (simp_all add: cell_count)
  have u: "nat (uint (l * CRT_WIDTH)) = 80 * unat l" using o by (simp add: mult.commute)
  then have "uint (l * CRT_WIDTH) \<le> 2000" using assms by linarith
  then have "sint (l * CRT_WIDTH) = uint (l * CRT_WIDTH)"
    unfolding sint_uint by (intro signed_take_bit_int_eq_self) (simp_all add: order.trans [of _ 0])
  with u show "nat (sint (l * CRT_WIDTH)) = 80 * unat l" by simp
  have "unat (2 * (CRT_CELL_COUNT - CRT_WIDTH * l)) = 2 * unat (CRT_CELL_COUNT - CRT_WIDTH * l)"
    using c by (subst unat_mult_lem [THEN iffD1]) simp_all
  then show "unat (push_bit 1 (CRT_CELL_COUNT - CRT_WIDTH * l)) = 2 * (2000 - 80 * unat l)"
    unfolding push_bit_eq_mult power_one_right mult.commute [of _ 2] c .
qed

lemma scroll_copied:
  assumes "unat l \<le> 25" "0 < unat l"
  shows "Scroll l m = crt_fill (CRT_CELL_COUNT - CRT_WIDTH * l) 0 (80 * unat l)
    (copied (crt_addr 0) (crt_addr (CRT_WIDTH * l)) (push_bit 1 (CRT_CELL_COUNT - CRT_WIDTH * l)) m)"
proof -
  have "CRT_WIDTH * l < 0x4000" using scroll_offset(1) assms by (simp add: word_less_nat_alt)
  then have a: "unat (crt_addr (CRT_WIDTH * l)) = 753664 + 160 * unat l" "unat (crt_addr 0) = 753664"
    using scroll_offset(1) [OF assms(1)] crt_addr_unat [of "CRT_WIDTH * l"] crt_addr_unat [of 0] by simp_all
  have "memcpy (crt_addr 0) (crt_addr (CRT_WIDTH * l)) (push_bit 1 (CRT_CELL_COUNT - CRT_WIDTH * l)) m
      = copied (crt_addr 0) (crt_addr (CRT_WIDTH * l)) (push_bit 1 (CRT_CELL_COUNT - CRT_WIDTH * l)) m"
    using a scroll_offset(4) [OF assms(1)] assms
    by (intro memcpy_copied) (auto simp: no_wrap_def word_le_nat_alt)
  moreover have "l \<noteq> 0" using assms(2) by auto
  ultimately show ?thesis using scroll_offset(3) [OF assms(1)] by (simp add: Scroll_def Let_def)
qed

lemma crt_get_copied:
  assumes "unat k + unat n \<le> 2000" "unat sz = 2 * unat n" "unat j < 2000"
  shows "crt_get j (copied (crt_addr 0) (crt_addr k) sz m) = (if unat j < unat n then crt_get (j + k) m else crt_get j m)"
proof -
  have d: "crt_addr j - crt_addr 0 = 2 * j" "crt_addr j + 1 - crt_addr 0 = 2 * j + 1" by (simp_all add: crt_addr_def)
  have 2: "unat (2 * j) = 2 * unat j" "unat (2 * j + 1) = 2 * unat j + 1"
    using assms(3) by (subst unat_mult_lem [THEN iffD1], simp, simp) (subst unat_add_noov, use assms(3) in \<open>simp_all add: unat_mult_lem [THEN iffD1]\<close>)
  have "crt_addr k + 2 * j = crt_addr (j + k)" "crt_addr k + (2 * j + 1) = crt_addr (j + k) + 1"
    by (simp_all add: crt_addr_def algebra_simps)
  then show ?thesis using 2 assms(2) unfolding crt_get_def copied_def d
    by (simp del: add.assoc add: word_less_nat_alt) (simp add: algebra_simps)
qed

lemma crt_get_scroll:
  assumes "unat l \<le> 25" "unat j < 2000"
  shows "crt_get j (Scroll l m) = (if unat j < 2000 - 80 * unat l then crt_get (j + CRT_WIDTH * l) m else BLANK_ENTRY)"
proof (cases "0 < unat l")
  case False
  then have "l = 0" by (simp add: unat_eq_0)
  then show ?thesis using assms(2) by (simp add: Scroll_def)
next
  case True
  note o = scroll_offset [OF assms(1)]
  have j: "j < 0x4000" using assms(2) by (simp add: word_less_nat_alt)
  have "crt_get j (Scroll l m) = (if 2000 - 80 * unat l \<le> unat j then BLANK_ENTRY else
      crt_get j (copied (crt_addr 0) (crt_addr (CRT_WIDTH * l)) (push_bit 1 (CRT_CELL_COUNT - CRT_WIDTH * l)) m))"
    unfolding scroll_copied [OF assms(1) True] using o assms j by (subst crt_get_fill) auto
  then show ?thesis
    using crt_get_copied [of "CRT_WIDTH * l" "CRT_CELL_COUNT - CRT_WIDTH * l" _ j m] o assms by auto
qed

lemma scroll_frame:
  assumes "unat l \<le> 25" "\<not> in_window q"
  shows "Scroll l m q = m q"
proof (cases "0 < unat l")
  case False
  then have "l = 0" by (simp add: unat_eq_0)
  then show ?thesis by (simp add: Scroll_def)
next
  case True
  note o = scroll_offset [OF assms(1)]
  have "unat (crt_addr 0) = 753664" using crt_addr_unat [of 0] by simp
  then have "\<not> q - crt_addr 0 < push_bit 1 (CRT_CELL_COUNT - CRT_WIDTH * l)"
    using assms(2) o(4) unat_lt32 [of q]
    by (cases "crt_addr 0 \<le> q")
      (auto simp: word_less_nat_alt word_le_nat_alt unat_sub_noov in_window_def unat_sub_if' not_le)
  then show ?thesis
    unfolding scroll_copied [OF assms(1) True] using o assms by (subst crt_fill_frame) (auto simp: copied_def)
qed

subsection \<open>The terminal as a screen of cells\<close>

definition screen :: "vga \<Rightarrow> u16 list" where
  "screen s = map (\<lambda>i. crt_get (of_nat i) (vga_mem s)) [0..<2000]"

text \<open>What a character does to the screen and the cursor, row for row.\<close>

definition tab_cells :: "nat \<Rightarrow> nat" where
  "tab_cells pos = (let r = pos mod 80 mod 8 in if r = 0 then 8 else r)"

definition edit_screen :: "u8 \<Rightarrow> u16 list \<times> nat \<Rightarrow> u16 list \<times> nat" where
  "edit_screen c = (\<lambda>(scr, pos).
     if c = 7 then (scr, pos)
     else if c = 8 \<or> c = 127 then (if pos = 0 then (scr, 0) else (scr[pos - 1 := BLANK_ENTRY], pos - 1))
     else if c = 9 then
       (map (\<lambda>i. if pos \<le> i \<and> i < pos + tab_cells pos then BLANK_ENTRY else scr ! i) [0..<length scr], pos + tab_cells pos)
     else if c = 13 then (scr, pos - pos mod 80)
     else if c = 10 then (scr, pos + 80)
     else (scr[pos := MakeEntry c DEFAULT_COLOR], pos + 1))"

definition scroll_screen :: "u16 list \<times> nat \<Rightarrow> u16 list \<times> nat" where
  "scroll_screen = (\<lambda>(scr, pos).
     if pos < 2000 then (scr, pos) else (drop 80 scr @ replicate 80 BLANK_ENTRY, pos - 80))"

definition term_step :: "u8 \<Rightarrow> u16 list \<times> nat \<Rightarrow> u16 list \<times> nat" where
  "term_step c sp = scroll_screen (edit_screen c sp)"

lemma screen_length [simp]: "length (screen s) = 2000" by (simp add: screen_def)

lemma screen_nth: "i < 2000 \<Longrightarrow> screen s ! i = crt_get (of_nat i) (vga_mem s)" by (simp add: screen_def)

lemma cell_index: "i < 2000 \<Longrightarrow> unat (of_nat i :: u32) = i" "i < 2000 \<Longrightarrow> (of_nat i :: u32) < 0x4000"
  by (simp_all add: unat_of_nat_len word_less_nat_alt)

lemma screen_put:
  assumes "p < 0x4000"
  shows "screen (s\<lparr>s_cursorPos := c, vga_mem := crt_put p v (vga_mem s)\<rparr>) = (screen s)[unat p := v]"
proof (rule nth_equalityI)
  fix i
  assume "i < length (screen (s\<lparr>s_cursorPos := c, vga_mem := crt_put p v (vga_mem s)\<rparr>))"
  then have i: "i < 2000" by simp
  then show "screen (s\<lparr>s_cursorPos := c, vga_mem := crt_put p v (vga_mem s)\<rparr>) ! i = (screen s)[unat p := v] ! i"
    using cell_index [OF i] assms by (auto simp: screen_nth crt_get_put nth_list_update word_unat_eq_iff)
qed simp

lemma screen_fill:
  assumes "unat p + n \<le> 16384"
  shows "screen (s\<lparr>s_cursorPos := c, vga_mem := crt_fill p 0 n (vga_mem s)\<rparr>)
    = map (\<lambda>i. if unat p \<le> i \<and> i < unat p + n then BLANK_ENTRY else screen s ! i) [0..<2000]"
proof (rule nth_equalityI)
  fix i
  assume "i < length (screen (s\<lparr>s_cursorPos := c, vga_mem := crt_fill p 0 n (vga_mem s)\<rparr>))"
  then have i: "i < 2000" by simp
  then show "screen (s\<lparr>s_cursorPos := c, vga_mem := crt_fill p 0 n (vga_mem s)\<rparr>) ! i
      = map (\<lambda>i. if unat p \<le> i \<and> i < unat p + n then BLANK_ENTRY else screen s ! i) [0..<2000] ! i"
    using cell_index [OF i] assms crt_get_fill [of p 0 n "of_nat i"] by (simp add: screen_nth)
qed simp

lemma screen_scroll:
  "screen (s\<lparr>s_cursorPos := c, vga_mem := Scroll 1 (vga_mem s)\<rparr>) = drop 80 (screen s) @ replicate 80 BLANK_ENTRY"
proof (rule nth_equalityI)
  fix i
  assume "i < length (screen (s\<lparr>s_cursorPos := c, vga_mem := Scroll 1 (vga_mem s)\<rparr>))"
  then have i: "i < 2000" by simp
  then show "screen (s\<lparr>s_cursorPos := c, vga_mem := Scroll 1 (vga_mem s)\<rparr>) ! i
      = (drop 80 (screen s) @ replicate 80 BLANK_ENTRY) ! i"
    using i cell_index [OF i] crt_get_scroll [of 1 "of_nat i" "vga_mem s"]
    by (auto simp: screen_nth nth_append crt_defs add.commute [of "80 :: u32"])
qed simp

lemma tab_cells: "unat (tab_width pos) = tab_cells (unat pos)" "tab_cells n \<le> 8" "0 < tab_cells n"
proof -
  have "(7 :: u32) = mask 3" by (simp add: mask_eq_exp_minus_1)
  then have "w AND 7 = take_bit 3 w" for w :: u32 by (simp only: take_bit_eq_mask)
  then have "unat (w AND 7) = unat w mod 8" for w :: u32 by (simp add: take_bit_eq_mod unat_mod)
  moreover have "unat (pos mod CRT_WIDTH) = unat pos mod 80" by (simp add: unat_mod crt_defs)
  ultimately have r: "unat (pos mod CRT_WIDTH AND 7) = unat pos mod 80 mod 8" by metis
  then have "pos mod CRT_WIDTH AND 7 = 0 \<longleftrightarrow> unat pos mod 80 mod 8 = 0" by (metis unat_eq_0)
  with r show "unat (tab_width pos) = tab_cells (unat pos)" by (simp add: tab_width_def tab_cells_def Let_def)
  show "tab_cells n \<le> 8" by (simp add: tab_cells_def Let_def less_imp_le)
  show "0 < tab_cells n" by (simp add: tab_cells_def Let_def)
qed

lemma cursor_row:
  assumes "s_cursorPos s < 2000"
  shows "unat (CursorRow s * CRT_WIDTH) = unat (s_cursorPos s) - unat (s_cursorPos s) mod 80"
    "unat ((CursorRow s + 1) * CRT_WIDTH + CursorCol s) = unat (s_cursorPos s) + 80"
proof -
  let ?p = "unat (s_cursorPos s)"
  have p: "?p < 2000" using assms by (simp add: word_less_nat_alt)
  have r: "unat (CursorRow s) = ?p div 80" "unat (CursorCol s) = ?p mod 80"
    by (simp_all add: CursorRow_def CursorCol_def crt_defs unat_div unat_mod)
  have r1: "unat (CursorRow s + 1) = ?p div 80 + 1" using p r by (subst unat_add_noov) simp_all
  have "unat (CursorRow s * CRT_WIDTH) = ?p div 80 * 80"
    using p r by (subst unat_mult_lem [THEN iffD1]) (simp_all add: crt_defs)
  then show "unat (CursorRow s * CRT_WIDTH) = ?p - ?p mod 80" by (simp add: minus_mod_eq_div_mult)
  have m: "unat ((CursorRow s + 1) * CRT_WIDTH) = (?p div 80 + 1) * 80"
    using p r1 by (subst unat_mult_lem [THEN iffD1]) (simp_all add: crt_defs)
  then have "unat ((CursorRow s + 1) * CRT_WIDTH + CursorCol s) = (?p div 80 + 1) * 80 + ?p mod 80"
    using p r by (subst unat_add_noov) simp_all
  then show "unat ((CursorRow s + 1) * CRT_WIDTH + CursorCol s) = ?p + 80" by simp
qed

definition frames :: "vga \<Rightarrow> vga \<Rightarrow> bool" where
  "frames s s' \<longleftrightarrow> (\<forall>q. \<not> in_window q \<longrightarrow> vga_mem s' q = vga_mem s q)"

lemma put_cell_edits:
  assumes "s_cursorPos s < 2000"
  shows "case put_cell c s of
      None \<Rightarrow> edit_screen c (screen s, unat (s_cursorPos s)) = (screen s, unat (s_cursorPos s))
    | Some s' \<Rightarrow> edit_screen c (screen s, unat (s_cursorPos s)) = (screen s', unat (s_cursorPos s'))
        \<and> unat (s_cursorPos s') < 2080 \<and> frames s s'"
proof -
  let ?p = "s_cursorPos s"
  have p: "unat ?p < 2000" "?p < 0x4000" using assms by (simp_all add: word_less_nat_alt)
  have bk: "unat (?p - 1) = unat ?p - 1" "?p - 1 < 0x4000" "?p - 1 < 2008" if "?p \<noteq> 0"
  proof -
    show u: "unat (?p - 1) = unat ?p - 1" using that by (simp add: unat_sub_noov unat_gt_0 Suc_leI)
    show "?p - 1 < 0x4000" "?p - 1 < 2008" using u p by (simp_all add: word_less_nat_alt)
  qed
  have "unat (?p + tab_width ?p) = unat ?p + tab_cells (unat ?p)"
    using p tab_cells(1) [of ?p] tab_cells(2) [of "unat ?p"] by (subst unat_add_noov) simp_all
  moreover have "unat (?p + 1) = unat ?p + 1" using p by (subst unat_add_noov) simp_all
  moreover have "frames s (s\<lparr>s_cursorPos := x, vga_mem := crt_fill ?p 0 (tab_cells (unat ?p)) (vga_mem s)\<rparr>)" for x
    using p tab_cells(2) [of "unat ?p"] by (simp add: frames_def crt_fill_frame)
  moreover have "frames s (s\<lparr>s_cursorPos := x, vga_mem := crt_put ?p v (vga_mem s)\<rparr>)" for x v
    using p by (simp add: frames_def crt_put_frame word_less_nat_alt)
  moreover have "frames s (s\<lparr>s_cursorPos := x, vga_mem := crt_put (?p - 1) v (vga_mem s)\<rparr>)" if "?p \<noteq> 0" for x v
    using bk [OF that] by (simp add: frames_def crt_put_frame)
  moreover have "screen (s\<lparr>s_cursorPos := x, vga_mem := crt_fill ?p 0 (tab_cells (unat ?p)) (vga_mem s)\<rparr>)
      = map (\<lambda>i. if unat ?p \<le> i \<and> i < unat ?p + tab_cells (unat ?p) then BLANK_ENTRY else screen s ! i) [0..<2000]" for x
    using p tab_cells(2) [of "unat ?p"] by (intro screen_fill) simp
  moreover have "screen (s\<lparr>s_cursorPos := x\<rparr>) = screen s" for x by (simp add: screen_def)
  moreover have "frames s (s\<lparr>s_cursorPos := x\<rparr>)" "frames s s" for x by (simp_all add: frames_def)
  moreover have "tab_cells (unat ?p) < 80" using tab_cells(2) [of "unat ?p"] by simp
  ultimately show ?thesis
    using p bk cursor_row [OF assms]
    by (auto simp: put_cell_def edit_screen_def Let_def screen_put tab_cells(1) unat_eq_0)
qed

lemma scroll_count_small:
  "unat pos < 2000 \<Longrightarrow> scroll_count pos r = (pos, r)"
  "2000 \<le> unat pos \<Longrightarrow> unat pos < 2080 \<Longrightarrow> scroll_count pos r = (pos - 80, r + 1)"
proof -
  show small: "scroll_count pos r = (pos, r)" if "unat pos < 2000" for pos r
    using that by (subst scroll_count.simps) (simp add: cell_count word_le_nat_alt)
  assume a: "2000 \<le> unat pos" "unat pos < 2080"
  then have "unat (pos - 80) < 2000" by (subst unat_sub_noov) simp_all
  then show "scroll_count pos r = (pos - 80, r + 1)"
    using a(1) small by (subst scroll_count.simps) (simp add: cell_count word_le_nat_alt crt_defs)
qed

lemma update_cursor [simp]:
  "screen (UpdateCursor s) = screen s" "s_cursorPos (UpdateCursor s) = s_cursorPos s"
  "frames s0 (UpdateCursor s) = frames s0 s"
  by (simp_all add: UpdateCursor_def SetCRTRegister_def crt_outb_def screen_def frames_def)

lemma frames_trans: "frames s s' \<Longrightarrow> frames s' s'' \<Longrightarrow> frames s s''" by (simp add: frames_def)

lemma putchar_ok:
  assumes "s_cursorPos s < 2000"
  shows "s_cursorPos (terminal_putchar c s) < 2000"
    "(screen (terminal_putchar c s), unat (s_cursorPos (terminal_putchar c s))) = term_step c (screen s, unat (s_cursorPos s))"
    "frames s (terminal_putchar c s)"
proof -
  let ?G = "s_cursorPos (terminal_putchar c s) < 2000
    \<and> (screen (terminal_putchar c s), unat (s_cursorPos (terminal_putchar c s))) = term_step c (screen s, unat (s_cursorPos s))
    \<and> frames s (terminal_putchar c s)"
  have ?G
  proof (cases "put_cell c s")
    case None
    then show ?thesis using put_cell_edits [OF assms, of c] assms
      by (simp add: terminal_putchar_def term_step_def scroll_screen_def frames_def word_less_nat_alt)
  next
    case (Some s1)
    let ?p = "s_cursorPos s1"
    have e: "edit_screen c (screen s, unat (s_cursorPos s)) = (screen s1, unat ?p)" "unat ?p < 2080" "frames s s1"
      using put_cell_edits [OF assms, of c] Some by simp_all
    show ?thesis
    proof (cases "unat ?p < 2000")
      case True
      then show ?thesis
        using e Some scroll_count_small(1) [OF True, of 0]
        by (simp add: terminal_putchar_def term_step_def scroll_screen_def Scroll_def word_less_nat_alt)
    next
      case False
      then have r: "scroll_count ?p 0 = (?p - 80, 1)" using scroll_count_small(2) [of ?p 0] e(2) by simp
      have u: "unat (?p - 80) = unat ?p - 80" using False by (subst unat_sub_noov) simp_all
      have "frames s1 (s1\<lparr>s_cursorPos := ?p - 80, vga_mem := Scroll 1 (vga_mem s1)\<rparr>)"
        by (simp add: frames_def scroll_frame)
      then have "frames s (s1\<lparr>s_cursorPos := ?p - 80, vga_mem := Scroll 1 (vga_mem s1)\<rparr>)"
        using frames_trans e(3) by blast
      then show ?thesis
        using e False Some r u
        by (simp add: terminal_putchar_def term_step_def scroll_screen_def screen_scroll word_less_nat_alt)
    qed
  qed
  then show "s_cursorPos (terminal_putchar c s) < 2000"
    "(screen (terminal_putchar c s), unat (s_cursorPos (terminal_putchar c s))) = term_step c (screen s, unat (s_cursorPos s))"
    "frames s (terminal_putchar c s)" by blast+
qed

subsection \<open>Output of strings\<close>

definition put_screen :: "u8 list \<Rightarrow> u16 list \<times> nat \<Rightarrow> u16 list \<times> nat" where
  "put_screen cs sp = foldl (\<lambda>sp c. term_step c sp) sp cs"

lemma put_screen_simps [simp]:
  "put_screen [] sp = sp" "put_screen (c # cs) sp = put_screen cs (term_step c sp)"
  by (simp_all add: put_screen_def)

text \<open>The remaining bytes of a string, which lie outside of the video memory.\<close>

definition text_at :: "mem \<Rightarrow> addr \<Rightarrow> size32 \<Rightarrow> size32 \<Rightarrow> u8 list \<Rightarrow> bool" where
  "text_at m p i n cs \<longleftrightarrow> unat i + length cs = unat n
     \<and> (\<forall>k<length cs. m (p + i + of_nat k) = cs ! k \<and> \<not> in_window (p + i + of_nat k))"

lemma text_at_step:
  assumes "text_at m p i n (c # cs)" "\<forall>q. \<not> in_window q \<longrightarrow> m' q = m q"
  shows "i < n" "m (p + i) = c" "text_at m' p (i + 1) n cs"
proof -
  show i: "i < n" using assms(1) by (auto simp: text_at_def word_less_nat_alt)
  show "m (p + i) = c" using assms(1) by (auto simp: text_at_def)
  have "m (p + (i + 1) + of_nat k) = cs ! k \<and> \<not> in_window (p + (i + 1) + of_nat k)" if "k < length cs" for k
    using assms(1) that unfolding text_at_def
    by (auto simp: algebra_simps dest: spec [of _ "Suc k"])
  then show "text_at m' p (i + 1) n cs" using assms i by (simp add: text_at_def unat_inc)
qed

lemma terminal_write_loop_ok:
  "text_at (vga_mem s) p i n cs \<Longrightarrow> s_cursorPos s < 2000 \<Longrightarrow>
   (let s' = terminal_write_loop p n i s
    in s_cursorPos s' < 2000 \<and> (screen s', unat (s_cursorPos s')) = put_screen cs (screen s, unat (s_cursorPos s)) \<and> frames s s')"
proof (induction cs arbitrary: i s)
  case Nil
  then have "\<not> i < n" by (simp add: text_at_def word_less_nat_alt)
  then show ?case using Nil by (simp add: terminal_write_loop.simps frames_def)
next
  case (Cons c cs)
  let ?s = "terminal_putchar c s"
  note p = putchar_ok [OF Cons.prems(2), of c]
  have t: "i < n" "vga_mem s (p + i) = c" "text_at (vga_mem ?s) p (i + 1) n cs"
    using text_at_step [OF Cons.prems(1), of "vga_mem ?s"] p(3) by (simp_all add: frames_def)
  have step: "terminal_write_loop p n i s = terminal_write_loop p n (i + 1) ?s"
    using t by (subst terminal_write_loop.simps) simp
  show ?case unfolding step using Cons.IH [OF t(3) p(1)] p(2) frames_trans [OF p(3)] by (auto simp: Let_def)
qed

text \<open>
  C30: writing a C string that lies outside of the video memory returns, leaves on the screen and in
  the cursor what its characters do one after the other (scrolling included), keeps the cursor on the
  screen, and changes no byte outside of the screen and the eight cells behind it.
\<close>

theorem terminal_writestr_refines:
  assumes "s_cursorPos s < 2000" "cstr (vga_mem s) str ys" "length ys < 2 ^ 32"
    and "\<forall>k<length ys. \<not> in_window (str + of_nat k)"
  shows "\<exists>s'. terminal_writestr str s = Some s' \<and> s_cursorPos s' < 2000
     \<and> (screen s', unat (s_cursorPos s')) = put_screen ys (screen s, unat (s_cursorPos s))
     \<and> (\<forall>q. \<not> in_window q \<longrightarrow> vga_mem s' q = vga_mem s q)"
proof -
  have "strlen str (vga_mem s) = Some (of_nat (length ys))"
    using strlen_loop_eq [OF assms(2), of 0] by (simp add: strlen_def)
  moreover have "text_at (vga_mem s) str 0 (of_nat (length ys)) ys"
    using assms(2-4) by (simp add: text_at_def unat_of_nat_len cstr_def)
  ultimately show ?thesis
    using terminal_write_loop_ok [OF _ assms(1)] by (simp add: terminal_writestr_def terminal_write_def frames_def Let_def)
qed

theorem terminal_writestr_refines_witness:
  "\<exists>s'. terminal_writestr 0x200 (vga_boot sample_mem) = Some s' \<and> unat (s_cursorPos s') = 4"
proof -
  have w: "\<forall>k<length [66, 67, 68, 69 :: u8]. \<not> in_window (0x200 + of_nat k)"
    by (simp add: less_4 in_window_def)
  have "s_cursorPos (vga_boot sample_mem) < 2000" by (simp add: vga_boot_def)
  from terminal_writestr_refines [OF this _ _ w] sample_strings(3)
  obtain s' where s: "terminal_writestr 0x200 (vga_boot sample_mem) = Some s'"
    "(screen s', unat (s_cursorPos s')) = put_screen [66, 67, 68, 69] (screen (vga_boot sample_mem), 0)"
    by (auto simp: vga_boot_def)
  then show ?thesis by (auto simp: term_step_def edit_screen_def scroll_screen_def)
qed

lemma term_step_cursor: "pos < 2000 \<Longrightarrow> snd (term_step c (scr, pos)) < 2000"
  using tab_cells(2) [of pos]
  by (auto simp: term_step_def edit_screen_def scroll_screen_def)

subsection \<open>Divergences\<close>

text \<open>A tab moves by the column modulo eight: from column 1 to column 2, not to the stop at 8.\<close>

lemma tab_misses_stop: "snd (term_step 9 (scr, 1)) = 2" "snd (term_step 9 (scr, 7)) = 14"
  by (simp_all add: term_step_def edit_screen_def scroll_screen_def tab_cells_def)

text \<open>A character above 0x7F is sign-extended over the attribute byte.\<close>

lemma high_char_loses_color: "MakeEntry 0xE9 DEFAULT_COLOR = 0xFFE9"
  by code_simp

text \<open>A tab near the end of the last row blanks cells behind the screen.\<close>

lemma tab_behind_screen:
  "put_cell 9 (vga_boot m\<lparr>s_cursorPos := 1999\<rparr>) = Some s \<Longrightarrow> crt_get 2005 (vga_mem s) = BLANK_ENTRY"
proof -
  have "unat (tab_width 1999) = 7" by (simp add: tab_cells(1)) (simp add: tab_cells_def)
  then show "put_cell 9 (vga_boot m\<lparr>s_cursorPos := 1999\<rparr>) = Some s \<Longrightarrow> ?thesis"
    by (auto simp: put_cell_def vga_boot_def crt_get_fill)
qed

end
